(* ===== verification/Prelude.thy ===== *)
theory Prelude
  imports Main "HOL-Library.Word" "HOL-Library.Char_ord"
begin

text \<open>
  Shared vocabulary of the development: bytes, nginx return codes, the byte tests the C code
  writes as comparisons and masks, the cursor loop \<open>for (p = b->pos; p < b->last; p++) switch
  (state)\<close> that every nginx parser is an instance of, and generic list and byte lemmas.
\<close>

unbundle bit_operations_syntax

named_theorems byte_simps

type_synonym u_char = char
type_synonym bytes = "char list"
type_synonym ngx_int = int

abbreviation ord :: "char \<Rightarrow> nat" where
  "ord c \<equiv> of_char c"

abbreviation chr :: "nat \<Rightarrow> char" where
  "chr n \<equiv> char_of n"

abbreviation NUL :: char where "NUL \<equiv> CHR 0x00"
abbreviation LF :: char where "LF \<equiv> CHR 0x0A"
abbreviation CR :: char where "CR \<equiv> CHR 0x0D"
abbreviation SP :: char where "SP \<equiv> CHR 0x20"
abbreviation HTAB :: char where "HTAB \<equiv> CHR 0x09"

abbreviation NGX_OK :: ngx_int where "NGX_OK \<equiv> 0"
abbreviation NGX_ERROR :: ngx_int where "NGX_ERROR \<equiv> - 1"
abbreviation NGX_AGAIN :: ngx_int where "NGX_AGAIN \<equiv> - 2"
abbreviation NGX_BUSY :: ngx_int where "NGX_BUSY \<equiv> - 3"
abbreviation NGX_DONE :: ngx_int where "NGX_DONE \<equiv> - 4"
abbreviation NGX_DECLINED :: ngx_int where "NGX_DECLINED \<equiv> - 5"

section \<open>Byte tests\<close>

text \<open>\<open>(u_char) (ch | 0x20)\<close>: bit 5 is set, the other bits are kept.\<close>

fun or20 :: "char \<Rightarrow> char" where
  "or20 (Char b0 b1 b2 b3 b4 b5 b6 b7) = Char b0 b1 b2 b3 b4 True b6 b7"

definition digit :: "char \<Rightarrow> bool" where
  "digit ch \<longleftrightarrow> CHR ''0'' \<le> ch \<and> ch \<le> CHR ''9''"

definition alpha20 :: "char \<Rightarrow> bool" where
  "alpha20 ch \<longleftrightarrow> CHR ''a'' \<le> or20 ch \<and> or20 ch \<le> CHR ''z''"

definition hexalpha20 :: "char \<Rightarrow> bool" where
  "hexalpha20 ch \<longleftrightarrow> CHR ''a'' \<le> or20 ch \<and> or20 ch \<le> CHR ''f''"

text \<open>\<open>ch - '0'\<close> and \<open>(ch | 0x20) - 'a' + 10\<close> where the tests above hold.\<close>

definition digit_val :: "char \<Rightarrow> nat" where
  "digit_val ch = ord ch - ord (CHR ''0'')"

definition hexalpha_val :: "char \<Rightarrow> nat" where
  "hexalpha_val ch = ord (or20 ch) - ord (CHR ''a'') + 10"

lemma ord_or20: "ord (or20 c) = ord c OR 0x20"
proof (cases c)
  case (Char b0 b1 b2 b3 b4 b5 b6 b7)
  then show ?thesis
    by (cases b0; cases b1; cases b2; cases b3; cases b4; cases b5; cases b6; cases b7)
      (simp_all flip: numeral_2_eq_2 numeral_3_eq_3)
qed

lemma alpha20_iff [byte_simps]:
  "alpha20 c \<longleftrightarrow> (CHR ''a'' \<le> c \<and> c \<le> CHR ''z'') \<or> (CHR ''A'' \<le> c \<and> c \<le> CHR ''Z'')"
proof (cases c)
  case (Char b0 b1 b2 b3 b4 b5 b6 b7)
  then show ?thesis
    by (cases b0; cases b1; cases b2; cases b3; cases b4; cases b5; cases b6; cases b7)
      (simp_all add: alpha20_def)
qed

lemma hexalpha20_iff [byte_simps]:
  "hexalpha20 c \<longleftrightarrow> (CHR ''a'' \<le> c \<and> c \<le> CHR ''f'') \<or> (CHR ''A'' \<le> c \<and> c \<le> CHR ''F'')"
proof (cases c)
  case (Char b0 b1 b2 b3 b4 b5 b6 b7)
  then show ?thesis
    by (cases b0; cases b1; cases b2; cases b3; cases b4; cases b5; cases b6; cases b7)
      (simp_all add: hexalpha20_def)
qed

lemma digit_val_le: "digit c \<Longrightarrow> digit_val c \<le> 9"
  by (auto simp: digit_def digit_val_def less_eq_char_def)

lemma hexalpha_val_bounds: "hexalpha20 c \<Longrightarrow> 10 \<le> hexalpha_val c \<and> hexalpha_val c \<le> 15"
  by (auto simp: hexalpha20_def hexalpha_val_def less_eq_char_def)

lemma less_16_cases:
  "(n::nat) < 16 \<Longrightarrow> n \<in> {0, 1, 2, 3, 4, 5, 6, 7, 8, 9, 10, 11, 12, 13, 14, 15}"
  unfolding insert_iff empty_iff by arith

lemma nibbles:
  "drop_bit 4 (ord c) = ord c div 16" "ord c AND 0xf = ord c mod 16" "ord c div 16 < 16"
proof -
  show "ord c AND 0xf = ord c mod 16"
    using take_bit_eq_mod [of 4 "ord c"] by (simp add: take_bit_eq_mask mask_eq_exp_minus_1)
  show "drop_bit 4 (ord c) = ord c div 16"
    by (simp add: drop_bit_eq_div)
  show "ord c div 16 < 16"
    using nat_of_char_less_256 [of c] by (intro less_mult_imp_div_less) simp
qed

section \<open>The table of usual URI characters\<close>

text \<open>
  \<open>usual\<close> of \<open>ngx_http_parse.c\<close>: one bit per byte, read with
  \<open>usual[ch >> 5] & (1U << (ch & 0x1f))\<close> (the table of the non-Windows build).
\<close>

definition usual_tab :: "nat list" where
  "usual_tab = [0xffffdbfe, 0x7fff37d6, 0xffffffff, 0xffffffff,
                0xffffffff, 0xffffffff, 0xffffffff, 0xffffffff]"

definition usual :: "char \<Rightarrow> bool" where
  "usual ch \<longleftrightarrow> usual_tab ! (drop_bit 5 (ord ch)) AND push_bit (ord ch AND 0x1f) 1 \<noteq> 0"

lemma usual_iff [byte_simps]:
  "usual c \<longleftrightarrow> c \<notin> {NUL, LF, CR, SP, CHR ''#'', CHR ''%'', CHR ''+'', CHR ''.'', CHR ''/'', CHR ''?''}"
proof (cases c)
  case (Char b0 b1 b2 b3 b4 b5 b6 b7)
  then show ?thesis
    by (cases b0; cases b1; cases b2; cases b3; cases b4; cases b5; cases b6; cases b7)
      (simp_all add: usual_def usual_tab_def flip: numeral_2_eq_2 numeral_3_eq_3)
qed

section \<open>The cursor loop of the nginx parsers\<close>

text \<open>
  One execution of the \<open>switch\<close> body on the byte \<open>ch\<close> at offset \<open>p\<close> either breaks out
  of the switch with a new parser state (the loop then advances \<open>p\<close>), jumps to a label
  after the loop, or returns a code. The object \<open>'r\<close> carries what the body wrote.
\<close>

datatype ('s, 'r, 'l) sw =
    Break 's 'r
  | Goto 'l 'r
  | Return ngx_int 'r

datatype ('s, 'r, 'l) sw_exit =
    Exhausted nat 's 'r
  | Jumped 'l nat 'r
  | Returned ngx_int nat 'r

fun sw_loop :: "(nat \<Rightarrow> char \<Rightarrow> 's \<Rightarrow> 'r \<Rightarrow> ('s, 'r, 'l) sw) \<Rightarrow> nat \<Rightarrow> bytes \<Rightarrow> 's \<Rightarrow> 'r
    \<Rightarrow> ('s, 'r, 'l) sw_exit" where
  "sw_loop body p [] s r = Exhausted p s r"
| "sw_loop body p (ch # xs) s r =
     (case body p ch s r of
        Break s' r' \<Rightarrow> sw_loop body (Suc p) xs s' r'
      | Goto l r' \<Rightarrow> Jumped l p r'
      | Return c r' \<Rightarrow> Returned c p r')"

text \<open>Suspending at the end of the received bytes and resuming there is the same as one run.\<close>

lemma sw_loop_append:
  "sw_loop body p (xs @ ys) s r =
     (case sw_loop body p xs s r of
        Exhausted p' s' r' \<Rightarrow> sw_loop body p' ys s' r'
      | Jumped l q r' \<Rightarrow> Jumped l q r'
      | Returned c q r' \<Rightarrow> Returned c q r')"
  by (induction xs arbitrary: p s r) (auto split: sw.splits)

lemma sw_loop_exhausted: "sw_loop body p xs s r = Exhausted q s' r' \<Longrightarrow> q = p + length xs"
  by (induction xs arbitrary: p s r) (fastforce split: sw.splits)+

lemma sw_loop_jumped: "sw_loop body p xs s r = Jumped l q r' \<Longrightarrow> p \<le> q \<and> q < p + length xs"
  by (induction xs arbitrary: p s r) (force split: sw.splits)+

lemma sw_loop_returned: "sw_loop body p xs s r = Returned c q r' \<Longrightarrow>
    (\<And>p ch s r c r'. body p ch s r = Return c r' \<Longrightarrow> P c) \<Longrightarrow> P c"
  by (induction xs arbitrary: p s r) (auto split: sw.splits)

lemma sw_loop_cong:
  assumes "\<And>q ch s r. p \<le> q \<Longrightarrow> q < p + length xs \<Longrightarrow> body q ch s r = body' q ch s r"
  shows "sw_loop body p xs s r = sw_loop body' p xs s r"
  using assms
proof (induction xs arbitrary: p s r)
  case (Cons x xs)
  have "body p x s r = body' p x s r" using Cons.prems by simp
  moreover have "sw_loop body (Suc p) xs s' r' = sw_loop body' (Suc p) xs s' r'" for s' r'
    using Cons.prems by (intro Cons.IH) auto
  ultimately show ?case by (simp split: sw.splits)
qed simp

text \<open>
  The contract of a parser body against a state invariant: \<open>inv p s r\<close> is what holds when
  the byte at \<open>p\<close> is about to be examined in state \<open>s\<close>, \<open>post\<close> what holds when the body
  jumps out of the loop. The loop then keeps the invariant and establishes the postcondition.
\<close>

locale sw_parser =
  fixes body :: "nat \<Rightarrow> char \<Rightarrow> 's \<Rightarrow> 'r \<Rightarrow> ('s, 'r, 'l) sw"
    and reads :: "nat \<Rightarrow> char \<Rightarrow> bool"
    and inv :: "nat \<Rightarrow> 's \<Rightarrow> 'r \<Rightarrow> bool"
    and post :: "'l \<Rightarrow> nat \<Rightarrow> 'r \<Rightarrow> bool"
  assumes body_break: "inv p s r \<Longrightarrow> reads p ch \<Longrightarrow> body p ch s r = Break s' r' \<Longrightarrow> inv (Suc p) s' r'"
    and body_goto: "inv p s r \<Longrightarrow> reads p ch \<Longrightarrow> body p ch s r = Goto l r' \<Longrightarrow> post l p r'"
begin

lemma loop_inv:
  assumes "inv p s r" and "\<And>i. i < length xs \<Longrightarrow> reads (p + i) (xs ! i)"
    and "sw_loop body p xs s r = Exhausted q s' r'"
  shows "inv q s' r'"
  using assms
proof (induction xs arbitrary: p s r)
  case (Cons x xs)
  from Cons.prems(2) [of 0] have x: "reads p x" by simp
  obtain s1 r1 where b: "body p x s r = Break s1 r1"
    and rest: "sw_loop body (Suc p) xs s1 r1 = Exhausted q s' r'"
    using Cons.prems(3) by (auto split: sw.splits)
  have "reads (Suc p + i) (xs ! i)" if "i < length xs" for i
    using Cons.prems(2) [of "Suc i"] that by simp
  with body_break [OF Cons.prems(1) x b] rest show ?case by (blast intro: Cons.IH)
qed simp

lemma loop_post:
  assumes "inv p s r" and "\<And>i. i < length xs \<Longrightarrow> reads (p + i) (xs ! i)"
    and "sw_loop body p xs s r = Jumped l q r'"
  shows "post l q r'"
  using assms
proof (induction xs arbitrary: p s r)
  case (Cons x xs)
  from Cons.prems(2) [of 0] have x: "reads p x" by simp
  show ?case
  proof (cases "body p x s r")
    case (Break s1 r1)
    have "reads (Suc p + i) (xs ! i)" if "i < length xs" for i
      using Cons.prems(2) [of "Suc i"] that by simp
    moreover have "sw_loop body (Suc p) xs s1 r1 = Jumped l q r'"
      using Cons.prems(3) Break by simp
    ultimately show ?thesis
      using body_break [OF Cons.prems(1) x Break] by (blast intro: Cons.IH)
  next
    case (Goto l1 r1)
    with Cons.prems show ?thesis using body_goto [OF Cons.prems(1) x Goto] by simp
  next
    case (Return c r1)
    with Cons.prems(3) show ?thesis by simp
  qed
qed simp

end

text \<open>
  A parser body may look back at bytes of the buffer before the cursor, never ahead of it. Such
  a parser can be suspended at the end of the received bytes and resumed when the buffer has
  grown: the first \<open>k\<close> bytes and then the rest make the same loop as the whole buffer.
\<close>

lemma drop_take_split:
  "pos \<le> k \<Longrightarrow> k \<le> length buf \<Longrightarrow> drop pos buf = drop pos (take k buf) @ drop k buf"
  by (metis append_take_drop_id drop_append length_take min.absorb2 drop_0 diff_is_0_eq)

locale resumable =
  fixes body :: "bytes \<Rightarrow> nat \<Rightarrow> char \<Rightarrow> 's \<Rightarrow> 'r \<Rightarrow> ('s, 'r, 'l) sw"
  assumes body_take: "p < k \<Longrightarrow> body (take k buf) p ch s r = body buf p ch s r"
begin

lemma loop_split:
  assumes "pos \<le> k" "k \<le> length buf"
  shows "sw_loop (body buf) pos (drop pos buf) s r =
     (case sw_loop (body (take k buf)) pos (drop pos (take k buf)) s r of
        Exhausted q s' r' \<Rightarrow> sw_loop (body buf) k (drop k buf) s' r'
      | Jumped l q r' \<Rightarrow> Jumped l q r'
      | Returned c q r' \<Rightarrow> Returned c q r')"
proof -
  have "sw_loop (body (take k buf)) pos (drop pos (take k buf)) s r =
        sw_loop (body buf) pos (drop pos (take k buf)) s r"
    by (rule sw_loop_cong) (use assms in \<open>auto intro: body_take\<close>)
  moreover have "q = k" if "sw_loop (body buf) pos (drop pos (take k buf)) s r = Exhausted q s' r'" for q s' r'
    using sw_loop_exhausted [OF that] assms by simp
  ultimately show ?thesis
    by (auto simp: drop_take_split [OF assms] sw_loop_append split: sw_exit.split)
qed

end

section \<open>Slices of a buffer\<close>

text \<open>The bytes \<open>[a, b)\<close> of a buffer, as a pair of pointers into it denotes them.\<close>

definition slice :: "bytes \<Rightarrow> nat \<Rightarrow> nat \<Rightarrow> bytes" where
  "slice buf a b = take (b - a) (drop a buf)"

lemma length_slice [simp]: "b \<le> length buf \<Longrightarrow> length (slice buf a b) = b - a"
  by (simp add: slice_def)

lemma slice_take: "b \<le> n \<Longrightarrow> slice (take n buf) a b = slice buf a b"
  by (simp add: slice_def drop_take min_def)

lemma slice_append_left: "b \<le> length xs \<Longrightarrow> slice (xs @ ys) a b = slice xs a b"
  by (simp add: slice_def)

lemma slice_app3: "a = length xs \<Longrightarrow> b = a + length ys \<Longrightarrow> slice (xs @ ys @ zs) a b = ys"
  by (simp add: slice_def)

section \<open>Encoders and decoders\<close>

text \<open>
  The contract several components share: on the values of \<open>dom\<close>, what \<open>enc\<close> writes \<open>dec\<close> reads
  back.
\<close>

locale codec =
  fixes enc :: "'a \<Rightarrow> 'b" and dec :: "'b \<Rightarrow> 'a option" and dom :: "'a \<Rightarrow> bool"
  assumes dec_enc: "dom x \<Longrightarrow> dec (enc x) = Some x"
begin

lemma enc_inj: "dom x \<Longrightarrow> dom y \<Longrightarrow> enc x = enc y \<longleftrightarrow> x = y"
  by (metis dec_enc option.inject)

end

section \<open>Words as integers\<close>

lemma word_div_small:
  assumes "0 \<le> a" "a < 2 ^ 64"
  shows "(of_int a :: 64 word) div w = of_int (a div uint w)"
proof -
  have "uint (of_int a :: 64 word) = a" using assms by (simp add: uint_word_of_int)
  then show ?thesis by (simp add: word_div_def)
qed

lemma sint_small:
  assumes "- (2 ^ 63) \<le> e" "e < 2 ^ 63"
  shows "sint (of_int e :: 64 word) = e"
proof -
  have "sint (of_int e :: 64 word) = (e + 2 ^ 63) mod 2 ^ 64 - 2 ^ 63"
    using int_word_sint [of e, where ?'a = 64] by simp
  moreover have "(e + 2 ^ 63) mod 2 ^ 64 = e + 2 ^ 63" using assms by (intro mod_pos_pos_trivial) simp_all
  ultimately show ?thesis by simp
qed

section \<open>Division of integers\<close>

lemma int_div_bounds:
  fixes a k :: int
  assumes "0 < k"
  shows "k * (a div k) \<le> a" "a < k * (a div k) + k"
  using mult_div_mod_eq [of k a] pos_mod_sign [OF assms, of a] pos_mod_bound [OF assms, of a] by linarith+

lemma int_div_step:
  fixes a k :: int
  assumes "0 < k"
  shows "(a + 1) div k = a div k + (if (a + 1) mod k = 0 then 1 else 0)"
proof (cases "a mod k + 1 = k")
  case True
  then have a: "a + 1 = k * (a div k + 1) + 0" unfolding distrib_left using mult_div_mod_eq [of k a] by linarith
  show ?thesis using int_div_pos_eq [OF a _ assms] int_mod_pos_eq [OF a _ assms] by simp
next
  case False
  have a: "a + 1 = k * (a div k) + (a mod k + 1)" using mult_div_mod_eq [of k a] by simp
  have "0 \<le> a mod k" "a mod k + 1 < k" using False pos_mod_sign [OF assms, of a] pos_mod_bound [OF assms, of a] by linarith+
  then show ?thesis using int_div_pos_eq [OF a] int_mod_pos_eq [OF a] by simp
qed

section \<open>Sums over lists\<close>

lemma sum_list_upd:
  fixes xs :: "int list"
  shows "i < length xs \<Longrightarrow> sum_list (xs[i := x]) = sum_list xs - xs ! i + x"
  by (induction xs arbitrary: i) (auto simp: nth_Cons split: nat.split)

lemma sum_list_map2_plus:
  fixes xs ys :: "int list"
  shows "length xs = length ys \<Longrightarrow> sum_list (map2 (+) xs ys) = sum_list xs + sum_list ys"
  by (induction xs ys rule: list_induct2) auto

section \<open>Event-driven machines\<close>

text \<open>
  A machine whose steps are labelled by the events of its environment, and its runs. The locale
  states what a service built on callbacks has to show: an invariant, and a rank that every
  event lowers, so that runs are bounded and a machine left to itself stops.
\<close>

inductive step_run :: "('e \<Rightarrow> 's \<Rightarrow> 's \<Rightarrow> bool) \<Rightarrow> 'e list \<Rightarrow> 's \<Rightarrow> 's \<Rightarrow> bool"
  for step :: "'e \<Rightarrow> 's \<Rightarrow> 's \<Rightarrow> bool" where
  run_nil: "step_run step [] s s"
| run_snoc: "step_run step evs s s' \<Longrightarrow> step ev s' s'' \<Longrightarrow> step_run step (evs @ [ev]) s s''"

lemma step_run_Nil [simp]: "step_run step [] s s' \<longleftrightarrow> s' = s"
  by (auto elim: step_run.cases intro: run_nil)

lemma step_run_snoc [simp]: "step_run step (evs @ [ev]) s s'' \<longleftrightarrow> (\<exists>s'. step_run step evs s s' \<and> step ev s' s'')"
  by (auto elim: step_run.cases intro: run_snoc)

lemma step_run_append:
  "step_run step (evs @ evs') s s'' \<longleftrightarrow> (\<exists>s'. step_run step evs s s' \<and> step_run step evs' s' s'')"
proof (induction evs' arbitrary: s'' rule: rev_induct)
  case (snoc ev evs')
  then show ?case by (auto simp flip: append_assoc)
qed simp

lemma step_run_Cons [simp]: "step_run step (ev # evs) s s'' \<longleftrightarrow> (\<exists>s'. step ev s s' \<and> step_run step evs s' s'')"
  using step_run_append [of step "[ev]" evs s s''] step_run_snoc [of step "[]" ev s] by simp

locale event_machine =
  fixes step :: "'e \<Rightarrow> 's \<Rightarrow> 's \<Rightarrow> bool" and inv :: "'s \<Rightarrow> bool" and rank :: "'s \<Rightarrow> nat"
  assumes inv_step: "inv s \<Longrightarrow> step ev s s' \<Longrightarrow> inv s'"
    and rank_step: "inv s \<Longrightarrow> step ev s s' \<Longrightarrow> rank s' < rank s"
begin

lemma run_inv: "step_run step evs s s' \<Longrightarrow> inv s \<Longrightarrow> inv s'"
  by (induction rule: step_run.induct) (auto intro: inv_step)

lemma run_rank: "step_run step evs s s' \<Longrightarrow> inv s \<Longrightarrow> length evs + rank s' \<le> rank s"
proof (induction rule: step_run.induct)
  case (run_snoc evs s s' ev s'')
  then show ?case using rank_step [OF run_inv [OF run_snoc(1)] run_snoc(2)] by simp
qed simp

lemma run_reaches_stop:
  assumes "inv s"
  shows "\<exists>evs s'. step_run step evs s s' \<and> inv s' \<and> (\<forall>ev s''. \<not> step ev s' s'')"
proof -
  have "\<exists>evs' s''. step_run step evs' s s'' \<and> inv s'' \<and> (\<forall>ev t. \<not> step ev s'' t)"
    if "step_run step evs s s'" "inv s'" for evs s'
    using that
  proof (induction "rank s'" arbitrary: evs s' rule: less_induct)
    case less
    show ?case
    proof (cases "\<exists>ev t. step ev s' t")
      case True
      then obtain ev t where t: "step ev s' t" by blast
      show ?thesis
        by (rule less.hyps [OF rank_step [OF less.prems(2) t] run_snoc [OF less.prems(1) t] inv_step [OF less.prems(2) t]])
    qed (use less.prems in blast)
  qed
  from this [OF run_nil assms] show ?thesis .
qed

end

end
