(* ===== verification/Http_Request_Line.thy ===== *)
theory Http_Request_Line
  imports Prelude
begin

text \<open>
  The request-line parser \<open>ngx_http_parse_request_line\<close> of
  \<open>nginx-master/src/http/ngx_http_parse.c\<close>. The record \<open>rl_request\<close> holds the fields of
  \<open>ngx_http_request_t\<close> the parser reads and writes; pointers into the client header buffer are
  offsets (\<open>None\<close> is \<open>NULL\<close>). One definition per case of the \<open>switch\<close>; a case that falls
  through calls the definition of the next case, and \<open>p--; break\<close> (which makes the loop
  look at the same byte again in the new state) calls the definition of that state.
\<close>

section \<open>Data\<close>

datatype rl_state =
    rl_start | rl_method | rl_spaces_before_uri | rl_schema | rl_schema_slash
  | rl_schema_slash_slash | rl_host_start | rl_host | rl_host_end | rl_host_ip_literal
  | rl_port | rl_host_http_09 | rl_after_slash_in_uri | rl_check_uri | rl_check_uri_http_09
  | rl_uri | rl_http_09 | rl_http_H | rl_http_HT | rl_http_HTT | rl_http_HTTP
  | rl_first_major_digit | rl_major_digit | rl_first_minor_digit | rl_minor_digit
  | rl_spaces_after_digit | rl_almost_done

record rl_request =
  rl_st :: rl_state
  req_method :: nat
  http_version :: nat
  http_major :: nat
  http_minor :: nat
  http_protocol_data :: "nat option"
  complex_uri :: bool
  quoted_uri :: bool
  plus_in_uri :: bool
  space_in_uri :: bool
  uri_start :: "nat option"
  uri_end :: "nat option"
  uri_ext :: "nat option"
  args_start :: "nat option"
  request_start :: "nat option"
  request_end :: "nat option"
  method_end :: "nat option"
  schema_start :: "nat option"
  schema_end :: "nat option"
  host_start :: "nat option"
  host_end :: "nat option"
  port_end :: "nat option"

abbreviation NGX_HTTP_UNKNOWN :: nat where "NGX_HTTP_UNKNOWN \<equiv> 0x0001"
abbreviation NGX_HTTP_GET :: nat where "NGX_HTTP_GET \<equiv> 0x0002"
abbreviation NGX_HTTP_HEAD :: nat where "NGX_HTTP_HEAD \<equiv> 0x0004"
abbreviation NGX_HTTP_POST :: nat where "NGX_HTTP_POST \<equiv> 0x0008"
abbreviation NGX_HTTP_PUT :: nat where "NGX_HTTP_PUT \<equiv> 0x0010"
abbreviation NGX_HTTP_DELETE :: nat where "NGX_HTTP_DELETE \<equiv> 0x0020"
abbreviation NGX_HTTP_MKCOL :: nat where "NGX_HTTP_MKCOL \<equiv> 0x0040"
abbreviation NGX_HTTP_COPY :: nat where "NGX_HTTP_COPY \<equiv> 0x0080"
abbreviation NGX_HTTP_MOVE :: nat where "NGX_HTTP_MOVE \<equiv> 0x0100"
abbreviation NGX_HTTP_OPTIONS :: nat where "NGX_HTTP_OPTIONS \<equiv> 0x0200"
abbreviation NGX_HTTP_PROPFIND :: nat where "NGX_HTTP_PROPFIND \<equiv> 0x0400"
abbreviation NGX_HTTP_PROPPATCH :: nat where "NGX_HTTP_PROPPATCH \<equiv> 0x0800"
abbreviation NGX_HTTP_LOCK :: nat where "NGX_HTTP_LOCK \<equiv> 0x1000"
abbreviation NGX_HTTP_UNLOCK :: nat where "NGX_HTTP_UNLOCK \<equiv> 0x2000"
abbreviation NGX_HTTP_PATCH :: nat where "NGX_HTTP_PATCH \<equiv> 0x4000"
abbreviation NGX_HTTP_TRACE :: nat where "NGX_HTTP_TRACE \<equiv> 0x8000"

abbreviation NGX_HTTP_PARSE_HEADER_DONE :: ngx_int where "NGX_HTTP_PARSE_HEADER_DONE \<equiv> 1"
abbreviation NGX_HTTP_PARSE_INVALID_METHOD :: ngx_int where "NGX_HTTP_PARSE_INVALID_METHOD \<equiv> 10"
abbreviation NGX_HTTP_PARSE_INVALID_REQUEST :: ngx_int where "NGX_HTTP_PARSE_INVALID_REQUEST \<equiv> 11"
abbreviation NGX_HTTP_PARSE_INVALID_VERSION :: ngx_int where "NGX_HTTP_PARSE_INVALID_VERSION \<equiv> 12"
abbreviation NGX_HTTP_PARSE_INVALID_09_METHOD :: ngx_int where "NGX_HTTP_PARSE_INVALID_09_METHOD \<equiv> 13"
abbreviation NGX_HTTP_PARSE_INVALID_HEADER :: ngx_int where "NGX_HTTP_PARSE_INVALID_HEADER \<equiv> 14"

text \<open>The request as \<open>ngx_http_create_request\<close> leaves it: zeroed, method unknown, version 1.0.\<close>

definition rl_init :: rl_request where
  "rl_init = \<lparr>rl_st = rl_start, req_method = NGX_HTTP_UNKNOWN, http_version = 1000,
     http_major = 0, http_minor = 0, http_protocol_data = None,
     complex_uri = False, quoted_uri = False, plus_in_uri = False, space_in_uri = False,
     uri_start = None, uri_end = None, uri_ext = None, args_start = None,
     request_start = None, request_end = None, method_end = None,
     schema_start = None, schema_end = None, host_start = None, host_end = None,
     port_end = None\<rparr>"

type_synonym rl_out = "(rl_state, rl_request, unit) sw"

section \<open>The cases of the switch\<close>

definition method_char :: "char \<Rightarrow> bool" where
  "method_char ch \<longleftrightarrow> \<not> ((ch < CHR ''A'' \<or> ch > CHR ''Z'') \<and> ch \<noteq> CHR ''_'' \<and> ch \<noteq> CHR ''-'')"

definition rl_sw_start :: "nat \<Rightarrow> char \<Rightarrow> rl_request \<Rightarrow> rl_out" where
  "rl_sw_start p ch r0 =
     (let r = r0\<lparr>request_start := Some p\<rparr> in
      if ch = CR \<or> ch = LF then Break rl_start r
      else if \<not> method_char ch then Return NGX_HTTP_PARSE_INVALID_METHOD r
      else Break rl_method r)"

text \<open>
  The comparisons on \<open>switch (p - m)\<close>; \<open>m\<close> is the method as spelled in the buffer and \<open>old\<close>
  the value \<open>r->method\<close> keeps when no name matches.
\<close>

definition rl_method_code :: "bytes \<Rightarrow> nat \<Rightarrow> nat" where
  "rl_method_code m old =
     (if length m = 3 then
        (if m = ''GET'' then NGX_HTTP_GET
         else if m = ''PUT'' then NGX_HTTP_PUT
         else old)
      else if length m = 4 then
        (if m ! 1 = CHR ''O'' then
           (if m = ''POST'' then NGX_HTTP_POST
            else if m = ''COPY'' then NGX_HTTP_COPY
            else if m = ''MOVE'' then NGX_HTTP_MOVE
            else if m = ''LOCK'' then NGX_HTTP_LOCK
            else old)
         else
           (if m = ''HEAD'' then NGX_HTTP_HEAD else old))
      else if length m = 5 then
        (if m = ''MKCOL'' then NGX_HTTP_MKCOL
         else if m = ''PATCH'' then NGX_HTTP_PATCH
         else if m = ''TRACE'' then NGX_HTTP_TRACE
         else old)
      else if length m = 6 then
        (if m = ''DELETE'' then NGX_HTTP_DELETE
         else if m = ''UNLOCK'' then NGX_HTTP_UNLOCK
         else old)
      else if length m = 7 then
        (if m = ''OPTIONS'' then NGX_HTTP_OPTIONS else old)
      else if length m = 8 then
        (if m = ''PROPFIND'' then NGX_HTTP_PROPFIND else old)
      else if length m = 9 then
        (if m = ''PROPPATCH'' then NGX_HTTP_PROPPATCH else old)
      else old)"

definition rl_sw_method :: "bytes \<Rightarrow> nat \<Rightarrow> char \<Rightarrow> rl_request \<Rightarrow> rl_out" where
  "rl_sw_method buf p ch r =
     (if ch = SP then
        (let m = (case request_start r of None \<Rightarrow> 0 | Some q \<Rightarrow> q)
         in Break rl_spaces_before_uri
              (r\<lparr>method_end := Some (p - 1),
                 req_method := rl_method_code (slice buf m p) (req_method r)\<rparr>))
      else if \<not> method_char ch then Return NGX_HTTP_PARSE_INVALID_METHOD r
      else Break rl_method r)"

definition rl_sw_spaces_before_uri :: "nat \<Rightarrow> char \<Rightarrow> rl_request \<Rightarrow> rl_out" where
  "rl_sw_spaces_before_uri p ch r =
     (if ch = CHR ''/'' then Break rl_after_slash_in_uri (r\<lparr>uri_start := Some p\<rparr>)
      else if alpha20 ch then Break rl_schema (r\<lparr>schema_start := Some p\<rparr>)
      else if ch = SP then Break rl_spaces_before_uri r
      else Return NGX_HTTP_PARSE_INVALID_REQUEST r)"

definition rl_sw_schema :: "nat \<Rightarrow> char \<Rightarrow> rl_request \<Rightarrow> rl_out" where
  "rl_sw_schema p ch r =
     (if alpha20 ch then Break rl_schema r
      else if ch = CHR '':'' then Break rl_schema_slash (r\<lparr>schema_end := Some p\<rparr>)
      else Return NGX_HTTP_PARSE_INVALID_REQUEST r)"

definition rl_sw_schema_slash :: "char \<Rightarrow> rl_request \<Rightarrow> rl_out" where
  "rl_sw_schema_slash ch r =
     (if ch = CHR ''/'' then Break rl_schema_slash_slash r
      else Return NGX_HTTP_PARSE_INVALID_REQUEST r)"

definition rl_sw_schema_slash_slash :: "char \<Rightarrow> rl_request \<Rightarrow> rl_out" where
  "rl_sw_schema_slash_slash ch r =
     (if ch = CHR ''/'' then Break rl_host_start r
      else Return NGX_HTTP_PARSE_INVALID_REQUEST r)"

text \<open>The URI of a request line without a path is the single slash of the schema's \<open>//\<close>.\<close>

definition rl_uri_from_schema :: "rl_request \<Rightarrow> rl_request" where
  "rl_uri_from_schema r =
     r\<lparr>uri_start := map_option (\<lambda>q. q + 1) (schema_end r),
       uri_end := map_option (\<lambda>q. q + 2) (schema_end r)\<rparr>"

definition rl_sw_host_end :: "nat \<Rightarrow> char \<Rightarrow> rl_request \<Rightarrow> rl_out" where
  "rl_sw_host_end p ch r0 =
     (let r = r0\<lparr>host_end := Some p\<rparr> in
      if ch = CHR '':'' then Break rl_port r
      else if ch = CHR ''/'' then Break rl_after_slash_in_uri (r\<lparr>uri_start := Some p\<rparr>)
      else if ch = SP then Break rl_host_http_09 (rl_uri_from_schema r)
      else Return NGX_HTTP_PARSE_INVALID_REQUEST r)"

definition rl_sw_host :: "nat \<Rightarrow> char \<Rightarrow> rl_request \<Rightarrow> rl_out" where
  "rl_sw_host p ch r =
     (if alpha20 ch then Break rl_host r
      else if digit ch \<or> ch = CHR ''.'' \<or> ch = CHR ''-'' then Break rl_host r
      else rl_sw_host_end p ch r)"

definition rl_sw_host_start :: "nat \<Rightarrow> char \<Rightarrow> rl_request \<Rightarrow> rl_out" where
  "rl_sw_host_start p ch r0 =
     (let r = r0\<lparr>host_start := Some p\<rparr> in
      if ch = CHR ''['' then Break rl_host_ip_literal r
      else rl_sw_host p ch r)"

definition rl_sw_host_ip_literal :: "char \<Rightarrow> rl_request \<Rightarrow> rl_out" where
  "rl_sw_host_ip_literal ch r =
     (if digit ch then Break rl_host_ip_literal r
      else if alpha20 ch then Break rl_host_ip_literal r
      else if ch = CHR '':'' then Break rl_host_ip_literal r
      else if ch = CHR '']'' then Break rl_host_end r
      else if ch \<in> set ''-._~'' then Break rl_host_ip_literal r
      else if ch \<in> {CHR ''!'', CHR ''$'', CHR ''&'', CHR 0x27, CHR ''('', CHR '')'', CHR ''*'',
                    CHR ''+'', CHR '','', CHR '';'', CHR ''=''}
        then Break rl_host_ip_literal r
      else Return NGX_HTTP_PARSE_INVALID_REQUEST r)"

definition rl_sw_port :: "nat \<Rightarrow> char \<Rightarrow> rl_request \<Rightarrow> rl_out" where
  "rl_sw_port p ch r =
     (if digit ch then Break rl_port r
      else if ch = CHR ''/'' then
        Break rl_after_slash_in_uri (r\<lparr>port_end := Some p, uri_start := Some p\<rparr>)
      else if ch = SP then
        Break rl_host_http_09 (rl_uri_from_schema (r\<lparr>port_end := Some p\<rparr>))
      else Return NGX_HTTP_PARSE_INVALID_REQUEST r)"

definition rl_sw_host_http_09 :: "nat \<Rightarrow> char \<Rightarrow> rl_request \<Rightarrow> rl_out" where
  "rl_sw_host_http_09 p ch r =
     (if ch = SP then Break rl_host_http_09 r
      else if ch = CR then Break rl_almost_done (r\<lparr>http_minor := 9\<rparr>)
      else if ch = LF then Goto () (r\<lparr>http_minor := 9\<rparr>)
      else if ch = CHR ''H'' then Break rl_http_H (r\<lparr>http_protocol_data := Some p\<rparr>)
      else Return NGX_HTTP_PARSE_INVALID_REQUEST r)"

definition rl_sw_after_slash_in_uri :: "nat \<Rightarrow> char \<Rightarrow> rl_request \<Rightarrow> rl_out" where
  "rl_sw_after_slash_in_uri p ch r =
     (if usual ch then Break rl_check_uri r
      else if ch = SP then Break rl_check_uri_http_09 (r\<lparr>uri_end := Some p\<rparr>)
      else if ch = CR then Break rl_almost_done (r\<lparr>uri_end := Some p, http_minor := 9\<rparr>)
      else if ch = LF then Goto () (r\<lparr>uri_end := Some p, http_minor := 9\<rparr>)
      else if ch = CHR ''.'' then Break rl_uri (r\<lparr>complex_uri := True\<rparr>)
      else if ch = CHR ''%'' then Break rl_uri (r\<lparr>quoted_uri := True\<rparr>)
      else if ch = CHR ''/'' then Break rl_uri (r\<lparr>complex_uri := True\<rparr>)
      else if ch = CHR ''?'' then Break rl_uri (r\<lparr>args_start := Some (p + 1)\<rparr>)
      else if ch = CHR ''#'' then Break rl_uri (r\<lparr>complex_uri := True\<rparr>)
      else if ch = CHR ''+'' then Break rl_after_slash_in_uri (r\<lparr>plus_in_uri := True\<rparr>)
      else if ch = NUL then Return NGX_HTTP_PARSE_INVALID_REQUEST r
      else Break rl_check_uri r)"

definition rl_sw_check_uri :: "nat \<Rightarrow> char \<Rightarrow> rl_request \<Rightarrow> rl_out" where
  "rl_sw_check_uri p ch r =
     (if usual ch then Break rl_check_uri r
      else if ch = CHR ''/'' then Break rl_after_slash_in_uri (r\<lparr>uri_ext := None\<rparr>)
      else if ch = CHR ''.'' then Break rl_check_uri (r\<lparr>uri_ext := Some (p + 1)\<rparr>)
      else if ch = SP then Break rl_check_uri_http_09 (r\<lparr>uri_end := Some p\<rparr>)
      else if ch = CR then Break rl_almost_done (r\<lparr>uri_end := Some p, http_minor := 9\<rparr>)
      else if ch = LF then Goto () (r\<lparr>uri_end := Some p, http_minor := 9\<rparr>)
      else if ch = CHR ''%'' then Break rl_uri (r\<lparr>quoted_uri := True\<rparr>)
      else if ch = CHR ''?'' then Break rl_uri (r\<lparr>args_start := Some (p + 1)\<rparr>)
      else if ch = CHR ''#'' then Break rl_uri (r\<lparr>complex_uri := True\<rparr>)
      else if ch = CHR ''+'' then Break rl_check_uri (r\<lparr>plus_in_uri := True\<rparr>)
      else if ch = NUL then Return NGX_HTTP_PARSE_INVALID_REQUEST r
      else Break rl_check_uri r)"

definition rl_sw_check_uri_http_09 :: "nat \<Rightarrow> char \<Rightarrow> rl_request \<Rightarrow> rl_out" where
  "rl_sw_check_uri_http_09 p ch r =
     (if ch = SP then Break rl_check_uri_http_09 r
      else if ch = CR then Break rl_almost_done (r\<lparr>http_minor := 9\<rparr>)
      else if ch = LF then Goto () (r\<lparr>http_minor := 9\<rparr>)
      else if ch = CHR ''H'' then Break rl_http_H (r\<lparr>http_protocol_data := Some p\<rparr>)
      else rl_sw_check_uri p ch (r\<lparr>space_in_uri := True\<rparr>))"

definition rl_sw_uri :: "nat \<Rightarrow> char \<Rightarrow> rl_request \<Rightarrow> rl_out" where
  "rl_sw_uri p ch r =
     (if usual ch then Break rl_uri r
      else if ch = SP then Break rl_http_09 (r\<lparr>uri_end := Some p\<rparr>)
      else if ch = CR then Break rl_almost_done (r\<lparr>uri_end := Some p, http_minor := 9\<rparr>)
      else if ch = LF then Goto () (r\<lparr>uri_end := Some p, http_minor := 9\<rparr>)
      else if ch = CHR ''#'' then Break rl_uri (r\<lparr>complex_uri := True\<rparr>)
      else if ch = NUL then Return NGX_HTTP_PARSE_INVALID_REQUEST r
      else Break rl_uri r)"

definition rl_sw_http_09 :: "nat \<Rightarrow> char \<Rightarrow> rl_request \<Rightarrow> rl_out" where
  "rl_sw_http_09 p ch r =
     (if ch = SP then Break rl_http_09 r
      else if ch = CR then Break rl_almost_done (r\<lparr>http_minor := 9\<rparr>)
      else if ch = LF then Goto () (r\<lparr>http_minor := 9\<rparr>)
      else if ch = CHR ''H'' then Break rl_http_H (r\<lparr>http_protocol_data := Some p\<rparr>)
      else rl_sw_uri p ch (r\<lparr>space_in_uri := True\<rparr>))"

definition rl_expect :: "char \<Rightarrow> rl_state \<Rightarrow> char \<Rightarrow> rl_request \<Rightarrow> rl_out" where
  "rl_expect want nxt ch r =
     (if ch = want then Break nxt r else Return NGX_HTTP_PARSE_INVALID_REQUEST r)"

definition rl_sw_first_major_digit :: "char \<Rightarrow> rl_request \<Rightarrow> rl_out" where
  "rl_sw_first_major_digit ch r0 =
     (if ch < CHR ''1'' \<or> ch > CHR ''9'' then Return NGX_HTTP_PARSE_INVALID_REQUEST r0
      else let r = r0\<lparr>http_major := digit_val ch\<rparr> in
        if http_major r > 1 then Return NGX_HTTP_PARSE_INVALID_VERSION r
        else Break rl_major_digit r)"

definition rl_sw_major_digit :: "char \<Rightarrow> rl_request \<Rightarrow> rl_out" where
  "rl_sw_major_digit ch r0 =
     (if ch = CHR ''.'' then Break rl_first_minor_digit r0
      else if ch < CHR ''0'' \<or> ch > CHR ''9'' then Return NGX_HTTP_PARSE_INVALID_REQUEST r0
      else let r = r0\<lparr>http_major := http_major r0 * 10 + digit_val ch\<rparr> in
        if http_major r > 1 then Return NGX_HTTP_PARSE_INVALID_VERSION r
        else Break rl_major_digit r)"

definition rl_sw_first_minor_digit :: "char \<Rightarrow> rl_request \<Rightarrow> rl_out" where
  "rl_sw_first_minor_digit ch r =
     (if ch < CHR ''0'' \<or> ch > CHR ''9'' then Return NGX_HTTP_PARSE_INVALID_REQUEST r
      else Break rl_minor_digit (r\<lparr>http_minor := digit_val ch\<rparr>))"

definition rl_sw_minor_digit :: "char \<Rightarrow> rl_request \<Rightarrow> rl_out" where
  "rl_sw_minor_digit ch r =
     (if ch = CR then Break rl_almost_done r
      else if ch = LF then Goto () r
      else if ch = SP then Break rl_spaces_after_digit r
      else if ch < CHR ''0'' \<or> ch > CHR ''9'' then Return NGX_HTTP_PARSE_INVALID_REQUEST r
      else if http_minor r > 99 then Return NGX_HTTP_PARSE_INVALID_REQUEST r
      else Break rl_minor_digit (r\<lparr>http_minor := http_minor r * 10 + digit_val ch\<rparr>))"

definition rl_sw_spaces_after_digit :: "char \<Rightarrow> rl_request \<Rightarrow> rl_out" where
  "rl_sw_spaces_after_digit ch r =
     (if ch = SP then Break rl_spaces_after_digit r
      else if ch = CR then Break rl_almost_done r
      else if ch = LF then Goto () r
      else Return NGX_HTTP_PARSE_INVALID_REQUEST r)"

definition rl_sw_almost_done :: "nat \<Rightarrow> char \<Rightarrow> rl_request \<Rightarrow> rl_out" where
  "rl_sw_almost_done p ch r0 =
     (let r = r0\<lparr>request_end := Some (p - 1)\<rparr> in
      if ch = LF then Goto () r else Return NGX_HTTP_PARSE_INVALID_REQUEST r)"

fun rl_body :: "bytes \<Rightarrow> nat \<Rightarrow> char \<Rightarrow> rl_state \<Rightarrow> rl_request \<Rightarrow> rl_out" where
  "rl_body buf p ch rl_start r = rl_sw_start p ch r"
| "rl_body buf p ch rl_method r = rl_sw_method buf p ch r"
| "rl_body buf p ch rl_spaces_before_uri r = rl_sw_spaces_before_uri p ch r"
| "rl_body buf p ch rl_schema r = rl_sw_schema p ch r"
| "rl_body buf p ch rl_schema_slash r = rl_sw_schema_slash ch r"
| "rl_body buf p ch rl_schema_slash_slash r = rl_sw_schema_slash_slash ch r"
| "rl_body buf p ch rl_host_start r = rl_sw_host_start p ch r"
| "rl_body buf p ch rl_host r = rl_sw_host p ch r"
| "rl_body buf p ch rl_host_end r = rl_sw_host_end p ch r"
| "rl_body buf p ch rl_host_ip_literal r = rl_sw_host_ip_literal ch r"
| "rl_body buf p ch rl_port r = rl_sw_port p ch r"
| "rl_body buf p ch rl_host_http_09 r = rl_sw_host_http_09 p ch r"
| "rl_body buf p ch rl_after_slash_in_uri r = rl_sw_after_slash_in_uri p ch r"
| "rl_body buf p ch rl_check_uri r = rl_sw_check_uri p ch r"
| "rl_body buf p ch rl_check_uri_http_09 r = rl_sw_check_uri_http_09 p ch r"
| "rl_body buf p ch rl_uri r = rl_sw_uri p ch r"
| "rl_body buf p ch rl_http_09 r = rl_sw_http_09 p ch r"
| "rl_body buf p ch rl_http_H r = rl_expect (CHR ''T'') rl_http_HT ch r"
| "rl_body buf p ch rl_http_HT r = rl_expect (CHR ''T'') rl_http_HTT ch r"
| "rl_body buf p ch rl_http_HTT r = rl_expect (CHR ''P'') rl_http_HTTP ch r"
| "rl_body buf p ch rl_http_HTTP r = rl_expect (CHR ''/'') rl_first_major_digit ch r"
| "rl_body buf p ch rl_first_major_digit r = rl_sw_first_major_digit ch r"
| "rl_body buf p ch rl_major_digit r = rl_sw_major_digit ch r"
| "rl_body buf p ch rl_first_minor_digit r = rl_sw_first_minor_digit ch r"
| "rl_body buf p ch rl_minor_digit r = rl_sw_minor_digit ch r"
| "rl_body buf p ch rl_spaces_after_digit r = rl_sw_spaces_after_digit ch r"
| "rl_body buf p ch rl_almost_done r = rl_sw_almost_done p ch r"

text \<open>The label \<open>done\<close>, with the byte that ended the line at offset \<open>p\<close>.\<close>

definition rl_done :: "nat \<Rightarrow> rl_request \<Rightarrow> ngx_int \<times> rl_request \<times> nat" where
  "rl_done p r0 =
     (let r1 = (if request_end r0 = None then r0\<lparr>request_end := Some p\<rparr> else r0);
          r = r1\<lparr>http_version := http_major r1 * 1000 + http_minor r1, rl_st := rl_start\<rparr>
      in if http_version r = 9 \<and> req_method r \<noteq> NGX_HTTP_GET
         then (NGX_HTTP_PARSE_INVALID_09_METHOD, r, p + 1)
         else (NGX_OK, r, p + 1))"

text \<open>
  The whole function on a buffer whose bytes are \<open>buf\<close> (\<open>b->last\<close> is its end) and whose
  \<open>b->pos\<close> is \<open>pos\<close>: the return code, the request and the new \<open>b->pos\<close>.
\<close>

definition ngx_http_parse_request_line ::
    "rl_request \<Rightarrow> bytes \<Rightarrow> nat \<Rightarrow> ngx_int \<times> rl_request \<times> nat" where
  "ngx_http_parse_request_line r buf pos =
     (case sw_loop (rl_body buf) pos (drop pos buf) (rl_st r) r of
        Exhausted p s r' \<Rightarrow> (NGX_AGAIN, r'\<lparr>rl_st := s\<rparr>, p)
      | Returned c p r' \<Rightarrow> (c, r', pos)
      | Jumped l p r' \<Rightarrow> rl_done p r')"

lemmas rl_sw_defs =
  rl_sw_start_def rl_sw_method_def rl_sw_spaces_before_uri_def rl_sw_schema_def
  rl_sw_schema_slash_def rl_sw_schema_slash_slash_def rl_sw_host_start_def rl_sw_host_def
  rl_sw_host_end_def rl_sw_host_ip_literal_def rl_sw_port_def rl_sw_host_http_09_def
  rl_sw_after_slash_in_uri_def rl_sw_check_uri_def rl_sw_check_uri_http_09_def rl_sw_uri_def
  rl_sw_http_09_def rl_expect_def rl_sw_first_major_digit_def rl_sw_major_digit_def
  rl_sw_first_minor_digit_def rl_sw_minor_digit_def rl_sw_spaces_after_digit_def
  rl_sw_almost_done_def rl_uri_from_schema_def Let_def

section \<open>Where the pointers point\<close>

definition ptr_in :: "nat \<Rightarrow> nat \<Rightarrow> nat option \<Rightarrow> bool" where
  "ptr_in a b x = (case x of None \<Rightarrow> True | Some q \<Rightarrow> a \<le> q \<and> q \<le> b)"

lemma ptr_in_simps [simp]:
  "ptr_in a b None" "ptr_in a b (Some q) \<longleftrightarrow> a \<le> q \<and> q \<le> b"
  by (simp_all add: ptr_in_def)

lemma ptr_in_mono [intro]: "ptr_in a b x \<Longrightarrow> b \<le> c \<Longrightarrow> ptr_in a c x"
  by (auto simp: ptr_in_def split: option.splits)

lemma ptr_in_Suc [simp]: "ptr_in a b x \<Longrightarrow> ptr_in a (Suc b) x"
  by (auto simp: ptr_in_def split: option.splits)

definition rl_base :: "rl_request \<Rightarrow> bool" where
  "rl_base r \<longleftrightarrow> http_major r \<le> 1 \<and> http_minor r \<le> 999 \<and> request_end r = None"

definition rl_meth :: "nat \<Rightarrow> rl_request \<Rightarrow> bool" where
  "rl_meth p r \<longleftrightarrow> (\<exists>m e. request_start r = Some m \<and> method_end r = Some e \<and> m \<le> e \<and> e < p)
     \<and> args_start r = None \<and> uri_ext r = None"

definition rl_sch :: "bytes \<Rightarrow> nat \<Rightarrow> nat \<Rightarrow> rl_request \<Rightarrow> bool" where
  "rl_sch buf k p r \<longleftrightarrow> (\<exists>m e q. request_start r = Some m \<and> method_end r = Some e \<and> schema_end r = Some q
       \<and> m \<le> e \<and> e < q \<and> q + k \<le> p \<and> (1 < k \<longrightarrow> buf ! (q + 1) = CHR ''/'') \<and> (k = 1 \<longrightarrow> q + 1 = p))
     \<and> args_start r = None \<and> uri_ext r = None"

definition rl_in_uri :: "bytes \<Rightarrow> nat \<Rightarrow> rl_request \<Rightarrow> bool" where
  "rl_in_uri buf p r \<longleftrightarrow> (\<exists>m e u. request_start r = Some m \<and> method_end r = Some e \<and> uri_start r = Some u
       \<and> m \<le> e \<and> e < u \<and> u < p \<and> buf ! u = CHR ''/''
       \<and> ptr_in (Suc u) p (args_start r) \<and> ptr_in (Suc u) p (uri_ext r))"

definition rl_after_uri :: "bytes \<Rightarrow> nat \<Rightarrow> rl_request \<Rightarrow> bool" where
  "rl_after_uri buf p r \<longleftrightarrow> (\<exists>m e u v. request_start r = Some m \<and> method_end r = Some e
       \<and> uri_start r = Some u \<and> uri_end r = Some v
       \<and> m \<le> e \<and> e < u \<and> u < v \<and> v \<le> p \<and> buf ! u = CHR ''/''
       \<and> ptr_in (Suc u) v (args_start r) \<and> ptr_in (Suc u) v (uri_ext r))"

text \<open>What holds when the byte at \<open>p\<close> is about to be examined in a state.\<close>

fun rl_inv :: "bytes \<Rightarrow> nat \<Rightarrow> rl_state \<Rightarrow> rl_request \<Rightarrow> bool" where
  "rl_inv buf p rl_start r \<longleftrightarrow> rl_base r \<and> args_start r = None \<and> uri_ext r = None"
| "rl_inv buf p rl_method r \<longleftrightarrow> rl_base r \<and> args_start r = None \<and> uri_ext r = None
     \<and> (\<exists>m. request_start r = Some m \<and> m < p)"
| "rl_inv buf p rl_spaces_before_uri r \<longleftrightarrow> rl_base r \<and> rl_meth p r"
| "rl_inv buf p rl_schema r \<longleftrightarrow> rl_base r \<and> rl_meth p r"
| "rl_inv buf p rl_schema_slash r \<longleftrightarrow> rl_base r \<and> rl_sch buf 1 p r"
| "rl_inv buf p rl_schema_slash_slash r \<longleftrightarrow> rl_base r \<and> rl_sch buf 2 p r"
| "rl_inv buf p rl_host_start r \<longleftrightarrow> rl_base r \<and> rl_sch buf 3 p r"
| "rl_inv buf p rl_host r \<longleftrightarrow> rl_base r \<and> rl_sch buf 3 p r"
| "rl_inv buf p rl_host_end r \<longleftrightarrow> rl_base r \<and> rl_sch buf 3 p r"
| "rl_inv buf p rl_host_ip_literal r \<longleftrightarrow> rl_base r \<and> rl_sch buf 3 p r"
| "rl_inv buf p rl_port r \<longleftrightarrow> rl_base r \<and> rl_sch buf 3 p r"
| "rl_inv buf p rl_after_slash_in_uri r \<longleftrightarrow> rl_base r \<and> rl_in_uri buf p r"
| "rl_inv buf p rl_check_uri r \<longleftrightarrow> rl_base r \<and> rl_in_uri buf p r"
| "rl_inv buf p rl_uri r \<longleftrightarrow> rl_base r \<and> rl_in_uri buf p r"
| "rl_inv buf p rl_almost_done r \<longleftrightarrow> rl_base r \<and> rl_after_uri buf (p - 1) r"
| "rl_inv buf p _ r \<longleftrightarrow> rl_base r \<and> rl_after_uri buf p r"

text \<open>What holds at the label \<open>done\<close>, entered on the byte at \<open>p\<close>.\<close>

definition rl_post :: "bytes \<Rightarrow> unit \<Rightarrow> nat \<Rightarrow> rl_request \<Rightarrow> bool" where
  "rl_post buf l p r \<longleftrightarrow> http_major r \<le> 1 \<and> http_minor r \<le> 999 \<and>
     (request_end r = None \<and> rl_after_uri buf p r
      \<or> request_end r = Some (p - 1) \<and> rl_after_uri buf (p - 1) r)"

lemma rl_after_uri_in_uri: "rl_after_uri buf p r \<Longrightarrow> rl_in_uri buf p r"
  by (fastforce simp: rl_after_uri_def rl_in_uri_def)

lemma rl_in_uri_Suc: "rl_in_uri buf p r \<Longrightarrow> rl_in_uri buf (Suc p) r"
  by (fastforce simp: rl_in_uri_def)

lemma rl_after_uri_Suc: "rl_after_uri buf p r \<Longrightarrow> rl_after_uri buf (Suc p) r"
  by (fastforce simp: rl_after_uri_def)

lemma digit_val_le9: "\<not> (ch < CHR ''0'' \<or> ch > CHR ''9'') \<Longrightarrow> digit_val ch \<le> 9"
  by (auto simp: digit_val_def less_char_def)

lemma rl_check_uri_inv:
  assumes "rl_base r" "rl_in_uri buf p r"
  shows "rl_sw_check_uri p ch r = Break s' r' \<Longrightarrow> rl_inv buf (Suc p) s' r'"
    and "rl_sw_check_uri p ch r = Goto l r' \<Longrightarrow> rl_post buf l p r'"
  using assms
  by (auto simp: rl_sw_check_uri_def rl_base_def rl_in_uri_def rl_after_uri_def rl_post_def
      split: if_splits)

lemma rl_uri_inv:
  assumes "rl_base r" "rl_in_uri buf p r"
  shows "rl_sw_uri p ch r = Break s' r' \<Longrightarrow> rl_inv buf (Suc p) s' r'"
    and "rl_sw_uri p ch r = Goto l r' \<Longrightarrow> rl_post buf l p r'"
  using assms
  by (auto simp: rl_sw_uri_def rl_base_def rl_in_uri_def rl_after_uri_def rl_post_def
      split: if_splits)

lemma rl_space_in_uri:
  assumes "rl_base r" and "rl_after_uri buf p r"
  shows "rl_base (r\<lparr>space_in_uri := True\<rparr>)" and "rl_in_uri buf p (r\<lparr>space_in_uri := True\<rparr>)"
  using assms rl_after_uri_in_uri [OF assms(2)] by (simp_all add: rl_base_def rl_in_uri_def)

lemma rl_body_break:
  assumes inv: "rl_inv buf p s r" and rd: "p < length buf" "buf ! p = ch"
    and b: "rl_body buf p ch s r = Break s' r'"
  shows "rl_inv buf (Suc p) s' r'"
proof (cases "s = rl_check_uri \<or> s = rl_check_uri_http_09 \<or> s = rl_uri \<or> s = rl_http_09")
  case True
  then show ?thesis
  proof (elim disjE)
    assume "s = rl_check_uri"
    with inv b show ?thesis by (auto intro: rl_check_uri_inv)
  next
    assume s: "s = rl_uri"
    with inv b show ?thesis by (auto intro: rl_uri_inv)
  next
    assume s: "s = rl_http_09"
    with inv rl_uri_inv(1) [OF rl_space_in_uri, of r buf p] show ?thesis using inv s b
      by (auto simp: rl_sw_http_09_def rl_base_def rl_after_uri_def split: if_splits)
  next
    assume s: "s = rl_check_uri_http_09"
    with inv rl_check_uri_inv(1) [OF rl_space_in_uri, of r buf p] show ?thesis using inv s b
      by (auto simp: rl_sw_check_uri_http_09_def rl_base_def rl_after_uri_def split: if_splits)
  qed
next
  case False
  with inv rd b show ?thesis
    by (cases s)
      (auto simp: rl_sw_defs rl_base_def rl_meth_def rl_sch_def rl_in_uri_def rl_after_uri_def
        less_char_def digit_val_def
        split: if_splits)
qed

lemma rl_http_09_goto:
  assumes "rl_base r" and "rl_after_uri buf p r"
  shows "rl_sw_http_09 p ch r = Goto l r' \<Longrightarrow> rl_post buf l p r'"
    and "rl_sw_check_uri_http_09 p ch r = Goto l r' \<Longrightarrow> rl_post buf l p r'"
  using assms rl_uri_inv(2) [OF rl_space_in_uri [OF assms]]
    rl_check_uri_inv(2) [OF rl_space_in_uri [OF assms]]
  by (auto simp: rl_sw_http_09_def rl_sw_check_uri_http_09_def rl_post_def rl_base_def
      rl_after_uri_def split: if_split_asm)

lemma rl_body_goto:
  assumes inv: "rl_inv buf p s r" and b: "rl_body buf p ch s r = Goto l r'"
  shows "rl_post buf l p r'"
proof (cases "s = rl_check_uri_http_09 \<or> s = rl_http_09")
  case True
  with inv b show ?thesis by (auto intro: rl_http_09_goto)
next
  case False
  with inv b show ?thesis
    by (cases s)
      (auto simp: rl_sw_defs rl_base_def rl_meth_def rl_sch_def rl_in_uri_def rl_after_uri_def
        rl_post_def split: if_splits)
qed

interpretation rl: sw_parser "rl_body buf" "\<lambda>p ch. p < length buf \<and> buf ! p = ch"
    "rl_inv buf" "rl_post buf" for buf
  by unfold_locales (auto intro: rl_body_break rl_body_goto)

text \<open>
  The other pointers: schema, host and port of an absolute URI, all or none of them, and the
  protocol. The bytes before \<open>p\<close> have been examined.
\<close>

definition rl_no_auth :: "rl_request \<Rightarrow> bool" where
  "rl_no_auth r \<longleftrightarrow> schema_start r = None \<and> schema_end r = None \<and> host_start r = None \<and> host_end r = None \<and> port_end r = None"

definition rl_scheme :: "nat \<Rightarrow> rl_request \<Rightarrow> bool" where
  "rl_scheme k r \<longleftrightarrow> (\<exists>e a q. method_end r = Some e \<and> schema_start r = Some a \<and> schema_end r = Some q \<and>
     e < a \<and> a < q \<and> q < k)"

definition rl_host_open :: "nat \<Rightarrow> rl_request \<Rightarrow> bool" where
  "rl_host_open p r \<longleftrightarrow> (\<exists>h. host_start r = Some h \<and> rl_scheme h r \<and> h < p) \<and> host_end r = None \<and> port_end r = None"

definition rl_auth :: "nat \<Rightarrow> rl_request \<Rightarrow> bool" where
  "rl_auth p r \<longleftrightarrow> rl_no_auth r \<or>
     (\<exists>h he. host_start r = Some h \<and> host_end r = Some he \<and> rl_scheme h r \<and> h \<le> he \<and> he < p \<and>
        (case port_end r of None \<Rightarrow> True | Some pe \<Rightarrow> he < pe \<and> pe < p))"

definition rl_proto :: "nat \<Rightarrow> rl_request \<Rightarrow> bool" where
  "rl_proto p r \<longleftrightarrow> (\<exists>v h. uri_end r = Some v \<and> http_protocol_data r = Some h \<and> v < h \<and> h < p)"

fun rl_aux :: "nat \<Rightarrow> rl_state \<Rightarrow> rl_request \<Rightarrow> bool" where
  "rl_aux p rl_start r \<longleftrightarrow> rl_no_auth r \<and> http_protocol_data r = None"
| "rl_aux p rl_method r \<longleftrightarrow> rl_no_auth r \<and> http_protocol_data r = None \<and> 0 < p"
| "rl_aux p rl_spaces_before_uri r \<longleftrightarrow> rl_no_auth r \<and> http_protocol_data r = None \<and> (\<exists>e. method_end r = Some e \<and> e < p)"
| "rl_aux p rl_schema r \<longleftrightarrow> http_protocol_data r = None \<and>
     (\<exists>e a. method_end r = Some e \<and> schema_start r = Some a \<and> e < a \<and> a < p) \<and> host_end r = None \<and> port_end r = None"
| "rl_aux p rl_schema_slash r \<longleftrightarrow> http_protocol_data r = None \<and> rl_scheme p r \<and> host_end r = None \<and> port_end r = None"
| "rl_aux p rl_schema_slash_slash r \<longleftrightarrow> http_protocol_data r = None \<and> rl_scheme p r \<and> host_end r = None \<and> port_end r = None"
| "rl_aux p rl_host_start r \<longleftrightarrow> http_protocol_data r = None \<and> rl_scheme p r \<and> host_end r = None \<and> port_end r = None"
| "rl_aux p rl_host r \<longleftrightarrow> http_protocol_data r = None \<and> rl_host_open p r"
| "rl_aux p rl_host_end r \<longleftrightarrow> http_protocol_data r = None \<and> rl_host_open p r"
| "rl_aux p rl_host_ip_literal r \<longleftrightarrow> http_protocol_data r = None \<and> rl_host_open p r"
| "rl_aux p rl_port r \<longleftrightarrow> http_protocol_data r = None \<and> port_end r = None \<and> rl_auth p r \<and> \<not> rl_no_auth r"
| "rl_aux p rl_after_slash_in_uri r \<longleftrightarrow> http_protocol_data r = None \<and> rl_auth p r"
| "rl_aux p rl_check_uri r \<longleftrightarrow> http_protocol_data r = None \<and> rl_auth p r"
| "rl_aux p rl_uri r \<longleftrightarrow> http_protocol_data r = None \<and> rl_auth p r"
| "rl_aux p rl_host_http_09 r \<longleftrightarrow> http_protocol_data r = None \<and> rl_auth p r \<and> (\<exists>v. uri_end r = Some v \<and> v < p)"
| "rl_aux p rl_check_uri_http_09 r \<longleftrightarrow> http_protocol_data r = None \<and> rl_auth p r \<and> (\<exists>v. uri_end r = Some v \<and> v < p)"
| "rl_aux p rl_http_09 r \<longleftrightarrow> http_protocol_data r = None \<and> rl_auth p r \<and> (\<exists>v. uri_end r = Some v \<and> v < p)"
| "rl_aux p rl_almost_done r \<longleftrightarrow> rl_auth (p - 1) r \<and> (http_protocol_data r = None \<or> rl_proto (p - 1) r)"
| "rl_aux p _ r \<longleftrightarrow> rl_auth p r \<and> rl_proto p r"

definition rl_aux_post :: "unit \<Rightarrow> nat \<Rightarrow> rl_request \<Rightarrow> bool" where
  "rl_aux_post l p r \<longleftrightarrow> (case request_end r of None \<Rightarrow> True | Some z \<Rightarrow> z = p - 1) \<and>
     (let z = (case request_end r of None \<Rightarrow> p | Some z \<Rightarrow> z) in
      rl_auth z r \<and> (http_protocol_data r = None \<or> rl_proto z r))"

definition rl_fresh :: "rl_request \<Rightarrow> bool" where
  "rl_fresh r \<longleftrightarrow> rl_st r = rl_start \<and> http_major r = 0 \<and> http_minor r = 0 \<and>
     request_end r = None \<and> args_start r = None \<and> uri_ext r = None \<and> rl_no_auth r \<and> http_protocol_data r = None"

lemma rl_init_fresh: "rl_fresh rl_init"
  by (simp add: rl_fresh_def rl_init_def rl_no_auth_def)

lemmas rl_aux_defs = rl_no_auth_def rl_scheme_def rl_host_open_def rl_auth_def rl_proto_def

lemma rl_auth_frame [simp]:
  "rl_auth p (r\<lparr>uri_start := x\<rparr>) = rl_auth p r" "rl_auth p (r\<lparr>uri_end := x\<rparr>) = rl_auth p r"
  "rl_auth p (r\<lparr>uri_ext := x\<rparr>) = rl_auth p r" "rl_auth p (r\<lparr>args_start := x\<rparr>) = rl_auth p r"
  "rl_auth p (r\<lparr>http_minor := n\<rparr>) = rl_auth p r" "rl_auth p (r\<lparr>http_major := n\<rparr>) = rl_auth p r"
  "rl_auth p (r\<lparr>complex_uri := b\<rparr>) = rl_auth p r" "rl_auth p (r\<lparr>quoted_uri := b\<rparr>) = rl_auth p r"
  "rl_auth p (r\<lparr>plus_in_uri := b\<rparr>) = rl_auth p r" "rl_auth p (r\<lparr>space_in_uri := b\<rparr>) = rl_auth p r"
  "rl_auth p (r\<lparr>http_protocol_data := x\<rparr>) = rl_auth p r" "rl_auth p (r\<lparr>request_end := x\<rparr>) = rl_auth p r"
  by (simp_all add: rl_auth_def rl_no_auth_def rl_scheme_def)

lemma rl_proto_frame [simp]:
  "rl_proto p (r\<lparr>http_minor := n\<rparr>) = rl_proto p r" "rl_proto p (r\<lparr>http_major := n\<rparr>) = rl_proto p r"
  "rl_proto p (r\<lparr>request_end := x\<rparr>) = rl_proto p r"
  by (simp_all add: rl_proto_def)

lemma rl_auth_Suc: "rl_auth p r \<Longrightarrow> rl_auth (Suc p) r"
  by (auto simp: rl_auth_def split: option.splits)

lemma rl_proto_Suc: "rl_proto p r \<Longrightarrow> rl_proto (Suc p) r"
  by (auto simp: rl_proto_def)

lemma rl_aux_uri_break:
  assumes "rl_auth p r" "http_protocol_data r = None"
  shows "rl_sw_check_uri p ch r = Break s' r' \<Longrightarrow> rl_aux (Suc p) s' r'"
    and "rl_sw_uri p ch r = Break s' r' \<Longrightarrow> rl_aux (Suc p) s' r'"
    and "rl_sw_after_slash_in_uri p ch r = Break s' r' \<Longrightarrow> rl_aux (Suc p) s' r'"
  using assms by (auto simp: rl_sw_check_uri_def rl_sw_uri_def rl_sw_after_slash_in_uri_def rl_auth_Suc split: if_splits)

lemma rl_aux_uri_goto:
  assumes "rl_auth p r" "http_protocol_data r = None" "request_end r = None"
  shows "rl_sw_check_uri p ch r = Goto l r' \<Longrightarrow> rl_aux_post l p r'"
    and "rl_sw_uri p ch r = Goto l r' \<Longrightarrow> rl_aux_post l p r'"
    and "rl_sw_after_slash_in_uri p ch r = Goto l r' \<Longrightarrow> rl_aux_post l p r'"
  using assms by (auto simp: rl_sw_check_uri_def rl_sw_uri_def rl_sw_after_slash_in_uri_def rl_aux_post_def split: if_splits)

lemma rl_aux_before_uri:
  assumes "rl_aux p s r" "rl_body buf p ch s r = Break s' r'"
    and "s \<in> {rl_start, rl_method, rl_spaces_before_uri, rl_schema, rl_schema_slash, rl_schema_slash_slash}"
  shows "rl_aux (Suc p) s' r'"
  using assms(3,1,2)
  by (auto simp: rl_sw_start_def rl_sw_method_def rl_sw_spaces_before_uri_def rl_sw_schema_def rl_sw_schema_slash_def
      rl_sw_schema_slash_slash_def rl_no_auth_def rl_scheme_def rl_auth_def Let_def split: if_splits)

lemma rl_aux_host_end:
  assumes "rl_host_open p r \<or> rl_scheme p r \<and> host_start r = Some p \<and> port_end r = None" "http_protocol_data r = None"
    and "\<exists>q. schema_end r = Some q \<and> q + 2 < Suc p" "rl_sw_host_end p ch r = Break s' r'"
  shows "rl_aux (Suc p) s' r'"
  using assms
  by (auto simp: rl_sw_host_end_def rl_uri_from_schema_def rl_host_open_def rl_scheme_def rl_auth_def rl_no_auth_def Let_def
      split: if_splits)

lemma rl_aux_host:
  assumes "rl_aux p s r" "rl_sch buf 3 p r" "rl_body buf p ch s r = Break s' r'"
    and "s \<in> {rl_host_start, rl_host, rl_host_end, rl_host_ip_literal}"
  shows "rl_aux (Suc p) s' r'"
proof -
  have q: "\<exists>q. schema_end r = Some q \<and> q + 2 < Suc p" using assms(2) by (auto simp: rl_sch_def)
  have open_Suc: "rl_host_open p r \<Longrightarrow> rl_host_open (Suc p) r" by (auto simp: rl_host_open_def)
  have start: "rl_host_open (Suc p) (r\<lparr>host_start := Some p\<rparr>)" if "s = rl_host_start"
    using that assms(1) by (auto simp: rl_host_open_def rl_scheme_def)
  have scheme: "rl_scheme p (r\<lparr>host_start := Some p\<rparr>) = rl_scheme p r" by (simp add: rl_scheme_def)
  show ?thesis
    using assms(4,1,3) q open_Suc start scheme rl_aux_host_end [of p r ch s' r'] rl_aux_host_end [of p "r\<lparr>host_start := Some p\<rparr>" ch s' r']
    by (auto simp: rl_sw_host_start_def rl_sw_host_def rl_sw_host_ip_literal_def Let_def split: if_splits)
qed

lemma rl_aux_port:
  assumes "rl_aux p rl_port r" "rl_sch buf 3 p r" "rl_body buf p ch rl_port r = Break s' r'"
  shows "rl_aux (Suc p) s' r'"
  using assms
  by (auto simp: rl_sw_port_def rl_uri_from_schema_def rl_auth_def rl_no_auth_def rl_scheme_def rl_sch_def split: if_splits)

lemma rl_aux_late:
  assumes "rl_aux p s r" "rl_body buf p ch s r = Break s' r'"
    and "s \<notin> {rl_start, rl_method, rl_spaces_before_uri, rl_schema, rl_schema_slash, rl_schema_slash_slash,
           rl_host_start, rl_host, rl_host_end, rl_host_ip_literal, rl_port}"
  shows "rl_aux (Suc p) s' r'"
  using assms rl_aux_uri_break [of p r] rl_aux_uri_break [of p "r\<lparr>space_in_uri := True\<rparr>"]
  by (cases s)
    (auto simp: rl_sw_host_http_09_def rl_sw_check_uri_http_09_def rl_sw_http_09_def rl_expect_def
      rl_sw_first_major_digit_def rl_sw_major_digit_def rl_sw_first_minor_digit_def rl_sw_minor_digit_def
      rl_sw_spaces_after_digit_def rl_sw_almost_done_def Let_def rl_auth_Suc rl_proto_Suc
      rl_proto_def [of _ "r\<lparr>http_protocol_data := Some p\<rparr>"]
      split: if_splits)

lemma rl_aux_break:
  assumes "rl_inv buf p s r" "rl_aux p s r" "rl_body buf p ch s r = Break s' r'"
  shows "rl_aux (Suc p) s' r'"
proof -
  consider "s \<in> {rl_start, rl_method, rl_spaces_before_uri, rl_schema, rl_schema_slash, rl_schema_slash_slash}"
    | "s \<in> {rl_host_start, rl_host, rl_host_end, rl_host_ip_literal}" "rl_sch buf 3 p r"
    | "s = rl_port" "rl_sch buf 3 p r"
    | "s \<notin> {rl_start, rl_method, rl_spaces_before_uri, rl_schema, rl_schema_slash, rl_schema_slash_slash,
         rl_host_start, rl_host, rl_host_end, rl_host_ip_literal, rl_port}"
    using assms(1) by (cases s) auto
  then show ?thesis
    using rl_aux_before_uri [OF assms(2,3)] rl_aux_host [OF assms(2) _ assms(3)] rl_aux_port [of p r buf ch s' r']
      rl_aux_late [OF assms(2,3)] assms(2,3)
    by cases blast+
qed

lemma rl_no_goto:
  assumes "s \<in> {rl_start, rl_method, rl_spaces_before_uri, rl_schema, rl_schema_slash, rl_schema_slash_slash,
      rl_host_start, rl_host, rl_host_end, rl_host_ip_literal, rl_port}"
  shows "rl_body buf p ch s r \<noteq> Goto l r'"
  using assms by (auto simp: rl_sw_defs split: if_splits)

lemma rl_aux_space_goto:
  assumes "rl_auth p r" "http_protocol_data r = None" "request_end r = None"
  shows "rl_sw_http_09 p ch r = Goto l r' \<Longrightarrow> rl_aux_post l p r'"
    and "rl_sw_check_uri_http_09 p ch r = Goto l r' \<Longrightarrow> rl_aux_post l p r'"
    and "rl_sw_host_http_09 p ch r = Goto l r' \<Longrightarrow> rl_aux_post l p r'"
proof -
  let ?r = "r\<lparr>space_in_uri := True\<rparr>"
  have uri: "rl_sw_uri p ch ?r = Goto l r' \<Longrightarrow> rl_aux_post l p r'" "rl_sw_check_uri p ch ?r = Goto l r' \<Longrightarrow> rl_aux_post l p r'"
    using rl_aux_uri_goto [of p ?r ch l r'] assms by simp_all
  have minor: "rl_aux_post l p (r\<lparr>http_minor := 9\<rparr>)" using assms by (simp add: rl_aux_post_def)
  show "rl_sw_http_09 p ch r = Goto l r' \<Longrightarrow> rl_aux_post l p r'"
    "rl_sw_check_uri_http_09 p ch r = Goto l r' \<Longrightarrow> rl_aux_post l p r'"
    "rl_sw_host_http_09 p ch r = Goto l r' \<Longrightarrow> rl_aux_post l p r'"
    using uri minor
    by (auto simp: rl_sw_http_09_def rl_sw_check_uri_http_09_def rl_sw_host_http_09_def split: if_split_asm)
qed

lemma rl_aux_version_goto:
  assumes "rl_body buf p ch s r = Goto l r'" "rl_aux p s r" "request_end r = None"
    and "s \<notin> {rl_start, rl_method, rl_spaces_before_uri, rl_schema, rl_schema_slash, rl_schema_slash_slash,
      rl_host_start, rl_host, rl_host_end, rl_host_ip_literal, rl_port, rl_http_09, rl_check_uri_http_09, rl_host_http_09,
      rl_after_slash_in_uri, rl_check_uri, rl_uri}"
  shows "rl_aux_post l p r'"
  using assms
  by (cases s)
    (auto simp: rl_expect_def rl_sw_first_major_digit_def rl_sw_major_digit_def rl_sw_first_minor_digit_def
      rl_sw_minor_digit_def rl_sw_spaces_after_digit_def rl_sw_almost_done_def rl_aux_post_def Let_def split: if_split_asm)

lemma rl_aux_goto:
  assumes "rl_inv buf p s r" "rl_aux p s r" "rl_body buf p ch s r = Goto l r'"
  shows "rl_aux_post l p r'"
proof -
  have e: "request_end r = None" using assms(1) by (cases s) (auto simp: rl_base_def)
  consider "s \<in> {rl_start, rl_method, rl_spaces_before_uri, rl_schema, rl_schema_slash, rl_schema_slash_slash,
      rl_host_start, rl_host, rl_host_end, rl_host_ip_literal, rl_port}"
    | "s = rl_after_slash_in_uri" | "s = rl_check_uri" | "s = rl_uri"
    | "s = rl_http_09" | "s = rl_check_uri_http_09" | "s = rl_host_http_09"
    | "s \<notin> {rl_start, rl_method, rl_spaces_before_uri, rl_schema, rl_schema_slash, rl_schema_slash_slash,
      rl_host_start, rl_host, rl_host_end, rl_host_ip_literal, rl_port, rl_http_09, rl_check_uri_http_09, rl_host_http_09,
      rl_after_slash_in_uri, rl_check_uri, rl_uri}"
    by blast
  then show ?thesis
  proof cases
    case 1
    with rl_no_goto assms(3) show ?thesis by blast
  next
    case 8
    with rl_aux_version_goto [OF assms(3,2) e] show ?thesis by blast
  qed (use assms(2,3) e rl_aux_uri_goto [of p r ch l r'] rl_aux_space_goto [of p r ch l r'] in simp_all)
qed

interpretation rl_aux: sw_parser "rl_body buf" "\<lambda>p ch. p < length buf \<and> buf ! p = ch"
    "\<lambda>p s r. rl_inv buf p s r \<and> rl_aux p s r" "\<lambda>l p r. rl_post buf l p r \<and> rl_aux_post l p r" for buf
  by unfold_locales (auto intro: rl_body_break rl_body_goto rl_aux_break rl_aux_goto)

lemma rl_done_code: "rl_done p r = (c, r', q) \<Longrightarrow> c = NGX_OK \<or> c = NGX_HTTP_PARSE_INVALID_09_METHOD"
  by (auto simp: rl_done_def Let_def split: if_splits)

lemma rl_body_codes: "rl_body buf p ch s r = Return c r' \<Longrightarrow>
    c \<in> {NGX_HTTP_PARSE_INVALID_METHOD, NGX_HTTP_PARSE_INVALID_REQUEST, NGX_HTTP_PARSE_INVALID_VERSION}"
  by (cases s) (auto simp: rl_sw_defs split: if_splits)

lemma rl_loop_codes: "sw_loop (rl_body buf) p xs s r = Returned c q r' \<Longrightarrow>
    c \<in> {NGX_HTTP_PARSE_INVALID_METHOD, NGX_HTTP_PARSE_INVALID_REQUEST, NGX_HTTP_PARSE_INVALID_VERSION}"
  by (rule sw_loop_returned [OF _ rl_body_codes])

text \<open>
  C9. When the parser accepts a request line, every pointer it has set lies inside the line: method,
  URI and line end come in this order within the received bytes, the URI is not empty and begins
  with a slash of the buffer, the query string and the extension start inside the URI, the protocol
  starts behind the URI and before the line's end, the schema, host and port of an absolute URI are
  either all absent or stand in this order behind the method and before the line's end (the host
  not before its start), and \<open>b->pos\<close> is just past the line feed.
\<close>

theorem request_line_pointers:
  assumes "rl_fresh r" and "pos \<le> length buf"
    and "ngx_http_parse_request_line r buf pos = (NGX_OK, r', pos')"
  shows "\<exists>m e u v z. request_start r' = Some m \<and> method_end r' = Some e \<and> uri_start r' = Some u
      \<and> uri_end r' = Some v \<and> request_end r' = Some z
      \<and> m \<le> e \<and> e < u \<and> u < v \<and> v \<le> z \<and> z < pos' \<and> pos' \<le> length buf
      \<and> buf ! u = CHR ''/''
      \<and> ptr_in (u + 1) v (args_start r') \<and> ptr_in (u + 1) v (uri_ext r')
      \<and> (\<forall>h. http_protocol_data r' = Some h \<longrightarrow> v < h \<and> h < z)
      \<and> (schema_start r' = None \<and> schema_end r' = None \<and> host_start r' = None \<and> host_end r' = None \<and> port_end r' = None
         \<or> (\<exists>a q h he. schema_start r' = Some a \<and> schema_end r' = Some q \<and> host_start r' = Some h \<and> host_end r' = Some he
              \<and> e < a \<and> a < q \<and> q < h \<and> h \<le> he \<and> he < z \<and> (\<forall>pe. port_end r' = Some pe \<longrightarrow> he < pe \<and> pe < z)))
      \<and> http_version r' = http_major r' * 1000 + http_minor r' \<and> http_version r' \<le> 1999"
proof -
  obtain l p r1 where j: "sw_loop (rl_body buf) pos (drop pos buf) (rl_st r) r = Jumped l p r1"
    and d: "rl_done p r1 = (NGX_OK, r', pos')"
    using assms(3) rl_loop_codes
    by (fastforce simp: ngx_http_parse_request_line_def split: sw_exit.splits)
  have "rl_inv buf pos (rl_st r) r \<and> rl_aux pos (rl_st r) r"
    using assms(1) by (simp add: rl_fresh_def rl_base_def)
  then have post: "rl_post buf l p r1" "rl_aux_post l p r1"
    using rl_aux.loop_post [OF _ _ j] by auto
  have p: "p < length buf" using sw_loop_jumped [OF j] assms(2) by simp
  obtain z where r': "r' = r1\<lparr>request_end := Some z, http_version := http_major r1 * 1000 + http_minor r1, rl_st := rl_start\<rparr>"
    and end_at: "z = (case request_end r1 of None \<Rightarrow> p | Some z \<Rightarrow> z)" and pos': "pos' = p + 1"
    using d by (auto simp: rl_done_def Let_def split: if_splits option.splits)
  have z: "request_end r' = Some z" "z < pos'" "rl_after_uri buf z r'"
    "http_major r' \<le> 1" "http_minor r' \<le> 999" "http_version r' = http_major r' * 1000 + http_minor r'"
    using post(1) end_at pos' by (auto simp: r' rl_post_def rl_after_uri_def)
  have aux: "rl_auth z r'" "http_protocol_data r' = None \<or> rl_proto z r'"
    using post(2) end_at
    by (auto simp: r' rl_aux_post_def Let_def rl_auth_def rl_no_auth_def rl_scheme_def rl_proto_def)
  from z(3) obtain m e u v where u: "request_start r' = Some m" "method_end r' = Some e" "uri_start r' = Some u"
    "uri_end r' = Some v" "m \<le> e" "e < u" "u < v" "v \<le> z" "buf ! u = CHR ''/''"
    "ptr_in (u + 1) v (args_start r')" "ptr_in (u + 1) v (uri_ext r')"
    by (auto simp: rl_after_uri_def)
  have proto: "\<forall>h. http_protocol_data r' = Some h \<longrightarrow> v < h \<and> h < z" using aux(2) u(4) by (auto simp: rl_proto_def)
  have auth: "schema_start r' = None \<and> schema_end r' = None \<and> host_start r' = None \<and> host_end r' = None \<and> port_end r' = None
         \<or> (\<exists>a q h he. schema_start r' = Some a \<and> schema_end r' = Some q \<and> host_start r' = Some h \<and> host_end r' = Some he
              \<and> e < a \<and> a < q \<and> q < h \<and> h \<le> he \<and> he < z \<and> (\<forall>pe. port_end r' = Some pe \<longrightarrow> he < pe \<and> pe < z))"
    using aux(1) u(2) by (auto simp: rl_auth_def rl_no_auth_def rl_scheme_def split: option.splits)
  have "http_version r' \<le> 1999" "pos' \<le> length buf" using z p pos' by auto
  with z(1,2,6) u proto auth show ?thesis
    by (intro exI [of _ m] exI [of _ e] exI [of _ u] exI [of _ v] exI [of _ z] conjI) assumption+
qed

lemma request_line_example:
  "ngx_http_parse_request_line rl_init (''GET / HTTP/1.0'' @ [CR, LF]) 0 =
     (NGX_OK, rl_init\<lparr>req_method := NGX_HTTP_GET, http_version := 1000, http_major := 1,
        http_protocol_data := Some 6, uri_start := Some 4, uri_end := Some 5,
        request_start := Some 0, method_end := Some 2, request_end := Some 14\<rparr>, 16)"
  by (simp add: ngx_http_parse_request_line_def rl_sw_defs rl_init_def rl_done_def method_char_def
      slice_def rl_method_code_def alpha20_def usual_iff digit_val_def)

lemma request_line_absolute:
  "ngx_http_parse_request_line rl_init (''GET http://h:8/ HTTP/1.0'' @ [CR, LF]) 0 =
     (NGX_OK, rl_init\<lparr>req_method := NGX_HTTP_GET, http_version := 1000, http_major := 1,
        http_protocol_data := Some 16, uri_start := Some 14, uri_end := Some 15, schema_start := Some 4,
        schema_end := Some 8, host_start := Some 11, host_end := Some 12, port_end := Some 14,
        request_start := Some 0, method_end := Some 2, request_end := Some 24\<rparr>, 26)"
  by (simp add: ngx_http_parse_request_line_def rl_sw_defs rl_init_def rl_done_def method_char_def
      slice_def rl_method_code_def alpha20_def usual_iff digit_val_def digit_def)

theorem request_line_pointers_witness:
  "\<exists>r' h he z. ngx_http_parse_request_line rl_init (''GET http://h:8/ HTTP/1.0'' @ [CR, LF]) 0 = (NGX_OK, r', 26) \<and>
     host_start r' = Some h \<and> host_end r' = Some he \<and> request_end r' = Some z \<and> h \<le> he \<and> he < z \<and> z < 26"
  using request_line_pointers [OF rl_init_fresh _ request_line_absolute] request_line_absolute by auto

section \<open>Well-formed request lines are accepted\<close>

lemma rl_loop_usual:
  assumes "list_all usual xs" and "s = rl_check_uri \<or> s = rl_uri"
  shows "sw_loop (rl_body buf) p (xs @ rest) s r = sw_loop (rl_body buf) (p + length xs) rest s r"
  using assms(1)
proof (induction xs arbitrary: p)
  case (Cons x xs)
  then show ?case using assms(2) by (auto simp: rl_sw_check_uri_def rl_sw_uri_def)
qed simp

lemma rl_loop_seg:
  assumes "list_all usual xs" and "xs \<noteq> []"
  shows "sw_loop (rl_body buf) p (xs @ rest) rl_after_slash_in_uri r =
         sw_loop (rl_body buf) (p + length xs) rest rl_check_uri r"
proof -
  obtain y ys where "xs = y # ys" using assms(2) by (cases xs) auto
  with assms(1) rl_loop_usual [of ys rl_check_uri buf "Suc p" rest r] show ?thesis
    by (simp add: rl_sw_after_slash_in_uri_def)
qed

definition path_of :: "bytes list \<Rightarrow> bytes" where
  "path_of segs = concat (map (\<lambda>s. CHR ''/'' # s) segs)"

lemma rl_loop_path:
  assumes "\<forall>s \<in> set segs. s \<noteq> [] \<and> list_all usual s" and "uri_ext r = None"
  shows "sw_loop (rl_body buf) p (path_of segs @ rest) rl_check_uri r =
         sw_loop (rl_body buf) (p + length (path_of segs)) rest rl_check_uri r"
  using assms(1)
proof (induction segs arbitrary: p)
  case (Cons s segs)
  have r: "r\<lparr>uri_ext := None\<rparr> = r" using assms(2) by simp
  from Cons.prems have s: "list_all usual s" "s \<noteq> []" by auto
  have "sw_loop (rl_body buf) p (path_of (s # segs) @ rest) rl_check_uri r =
        sw_loop (rl_body buf) (Suc p) (s @ path_of segs @ rest) rl_after_slash_in_uri r"
    by (simp add: path_of_def rl_sw_check_uri_def usual_iff r)
  also have "\<dots> = sw_loop (rl_body buf) (Suc p + length s) (path_of segs @ rest) rl_check_uri r"
    by (rule rl_loop_seg [OF s])
  also have "\<dots> = sw_loop (rl_body buf) (Suc p + length s + length (path_of segs)) rest rl_check_uri r"
    using Cons by simp
  finally show ?case by (simp add: path_of_def add.assoc)
qed (simp add: path_of_def)

lemma rl_loop_method:
  assumes "list_all method_char m"
  shows "sw_loop (rl_body buf) p (m @ rest) rl_method r = sw_loop (rl_body buf) (p + length m) rest rl_method r"
  using assms
proof (induction m arbitrary: p)
  case (Cons x m)
  then have "x \<noteq> SP" by (auto simp: method_char_def less_char_def)
  with Cons show ?case by (simp add: rl_sw_method_def)
qed simp

text \<open>The bytes a query string may hold without making the URI complex or ending it.\<close>

definition args_char :: "char \<Rightarrow> bool" where
  "args_char ch \<longleftrightarrow> ch \<notin> {SP, CR, LF, NUL, CHR ''#''}"

lemma rl_loop_args:
  assumes "list_all args_char xs"
  shows "sw_loop (rl_body buf) p (xs @ rest) rl_uri r = sw_loop (rl_body buf) (p + length xs) rest rl_uri r"
  using assms
  by (induction xs arbitrary: p) (auto simp: rl_sw_uri_def args_char_def)

definition query_of :: "bytes option \<Rightarrow> bytes" where
  "query_of q = (case q of None \<Rightarrow> [] | Some a \<Rightarrow> CHR ''?'' # a)"

lemma rl_loop_query:
  assumes "pred_option (list_all args_char) q"
  shows "sw_loop (rl_body buf) p (query_of q @ SP # rest) rl_check_uri r =
         sw_loop (rl_body buf) (Suc (p + length (query_of q))) rest
           (if q = None then rl_check_uri_http_09 else rl_http_09)
           (r\<lparr>args_start := (if q = None then args_start r else Some (p + 1)),
              uri_end := Some (p + length (query_of q))\<rparr>)"
proof (cases q)
  case None
  then show ?thesis by (simp add: query_of_def rl_sw_check_uri_def usual_iff)
next
  case (Some a)
  with assms have a: "list_all args_char a" by simp
  have "sw_loop (rl_body buf) p (query_of q @ SP # rest) rl_check_uri r =
        sw_loop (rl_body buf) (Suc p) (a @ SP # rest) rl_uri (r\<lparr>args_start := Some (p + 1)\<rparr>)"
    using Some by (simp add: query_of_def rl_sw_check_uri_def usual_iff)
  also have "\<dots> = sw_loop (rl_body buf) (Suc p + length a) (SP # rest) rl_uri (r\<lparr>args_start := Some (p + 1)\<rparr>)"
    by (rule rl_loop_args [OF a])
  finally show ?thesis using Some by (simp add: query_of_def rl_sw_uri_def usual_iff)
qed

lemma rl_loop_version:
  assumes "s = rl_check_uri_http_09 \<or> s = rl_http_09" and "digit d"
  shows "sw_loop (rl_body buf) p (''HTTP/1.'' @ d # CR # LF # rest) s r =
         Jumped () (p + 9) (r\<lparr>http_protocol_data := Some p, http_major := 1, http_minor := digit_val d,
           request_end := Some (p + 8)\<rparr>)"
  using assms
  by (auto simp: rl_sw_defs digit_def less_char_def less_eq_char_def digit_val_def)

text \<open>A plain path is kept as it is and sets none of the flags that send the URI through the normaliser.\<close>

lemma request_line_plain:
  assumes m: "m \<noteq> []" "list_all method_char m"
    and segs: "segs \<noteq> []" "\<forall>s \<in> set segs. s \<noteq> [] \<and> list_all usual s"
    and q: "pred_option (list_all args_char) q" and d: "digit d"
    and buf: "buf = m @ SP # path_of segs @ query_of q @ SP # ''HTTP/1.'' @ d # CR # LF # rest"
    and r': "ngx_http_parse_request_line rl_init buf 0 = (rc, r', pos)"
  shows "rc = NGX_OK \<and> pos = length buf - length rest \<and> req_method r' = rl_method_code m NGX_HTTP_UNKNOWN
     \<and> (\<exists>u v. uri_start r' = Some u \<and> uri_end r' = Some v \<and> slice buf u v = path_of segs @ query_of q
         \<and> args_start r' = (if q = None then None else Some (u + length (path_of segs) + 1)))
     \<and> http_version r' = 1000 + digit_val d
     \<and> \<not> complex_uri r' \<and> \<not> quoted_uri r' \<and> \<not> space_in_uri r'"
proof -
  let ?b = "rl_body buf" and ?u = "Suc (length m)"
  let ?e = "?u + length (path_of segs) + length (query_of q)"
  obtain c m' where mc: "m = c # m'" using m(1) by (cases m) auto
  obtain s segs' where sc: "segs = s # segs'" using segs(1) by (cases segs) auto
  let ?r1 = "rl_init\<lparr>request_start := Some 0\<rparr>"
  let ?r2 = "?r1\<lparr>method_end := Some (length m - 1), req_method := rl_method_code m NGX_HTTP_UNKNOWN,
                 uri_start := Some ?u\<rparr>"
  have "c \<noteq> CR \<and> c \<noteq> LF \<and> method_char c" using m mc by (auto simp: method_char_def less_char_def)
  then have "sw_loop ?b 0 (c # m' @ SP # path_of segs @ query_of q @ SP # ''HTTP/1.'' @ d # CR # LF # rest)
       rl_start rl_init = sw_loop ?b 1 (m' @ SP # path_of segs @ query_of q @ SP # ''HTTP/1.'' @ d # CR # LF # rest) rl_method ?r1"
    by (simp add: rl_sw_start_def del: append_Cons)
  also have "\<dots> = sw_loop ?b (1 + length m') (SP # path_of segs @ query_of q @ SP # ''HTTP/1.'' @ d # CR # LF # rest) rl_method ?r1"
    using m mc by (intro rl_loop_method) simp
  also have "\<dots> = sw_loop ?b (Suc ?u) (s @ path_of segs' @ query_of q @ SP # ''HTTP/1.'' @ d # CR # LF # rest)
      rl_after_slash_in_uri ?r2"
    using buf by (simp add: mc sc path_of_def rl_sw_method_def rl_sw_spaces_before_uri_def rl_init_def slice_def)
  also have "\<dots> = sw_loop ?b (Suc ?u + length s) (path_of segs' @ query_of q @ SP # ''HTTP/1.'' @ d # CR # LF # rest)
      rl_check_uri ?r2"
    using segs(2) sc by (intro rl_loop_seg) auto
  also have "\<dots> = sw_loop ?b (?u + length (path_of segs)) (query_of q @ SP # ''HTTP/1.'' @ d # CR # LF # rest)
      rl_check_uri ?r2"
    using segs(2) sc by (subst rl_loop_path) (auto simp: rl_init_def path_of_def add.assoc)
  also have "\<dots> = sw_loop ?b (Suc ?e) (''HTTP/1.'' @ d # CR # LF # rest)
      (if q = None then rl_check_uri_http_09 else rl_http_09)
      (?r2\<lparr>args_start := (if q = None then args_start ?r2 else Some (?u + length (path_of segs) + 1)),
           uri_end := Some ?e\<rparr>)"
    by (rule rl_loop_query [OF q])
  also have "\<dots> = Jumped () (Suc ?e + 9)
      (?r2\<lparr>args_start := (if q = None then args_start ?r2 else Some (?u + length (path_of segs) + 1)),
           uri_end := Some ?e, http_protocol_data := Some (Suc ?e), http_major := 1,
           http_minor := digit_val d, request_end := Some (Suc ?e + 8)\<rparr>)"
    by (subst rl_loop_version [OF _ d]) auto
  also have "c # m' @ SP # path_of segs @ query_of q @ SP # ''HTTP/1.'' @ d # CR # LF # rest = buf"
    by (simp add: buf mc)
  finally have run: "sw_loop ?b 0 buf rl_start rl_init = Jumped () (Suc ?e + 9)
      (?r2\<lparr>args_start := (if q = None then args_start ?r2 else Some (?u + length (path_of segs) + 1)),
           uri_end := Some ?e, http_protocol_data := Some (Suc ?e), http_major := 1,
           http_minor := digit_val d, request_end := Some (Suc ?e + 8)\<rparr>)" .
  have sl: "slice buf ?u ?e = path_of segs @ query_of q"
    unfolding buf slice_def by simp
  have dv: "digit_val d \<le> 9" using d by (rule digit_val_le)
  show ?thesis
    using r' run dv sl buf
    by (auto simp: ngx_http_parse_request_line_def rl_done_def Let_def rl_init_def)
qed

text \<open>The bytes that do not end a URI, and what reading them may change of the request.\<close>

definition uri_char :: "char \<Rightarrow> bool" where
  "uri_char ch \<longleftrightarrow> ch \<notin> {SP, CR, LF, NUL}"

definition rl_uri_same :: "rl_request \<Rightarrow> rl_request \<Rightarrow> bool" where
  "rl_uri_same r r' \<longleftrightarrow> (\<exists>c q pl a x. r' = r\<lparr>complex_uri := c, quoted_uri := q, plus_in_uri := pl, args_start := a, uri_ext := x\<rparr>)"

lemma rl_uri_same_refl: "rl_uri_same r r"
  unfolding rl_uri_same_def
  by (intro exI [of _ "complex_uri r"] exI [of _ "quoted_uri r"] exI [of _ "plus_in_uri r"] exI [of _ "args_start r"]
      exI [of _ "uri_ext r"]) simp

lemma rl_uri_same_trans: "rl_uri_same r r' \<Longrightarrow> rl_uri_same r' r'' \<Longrightarrow> rl_uri_same r r''"
  unfolding rl_uri_same_def by force

lemma rl_uri_byte:
  assumes "uri_char ch" "s \<in> {rl_after_slash_in_uri, rl_check_uri, rl_uri}"
  shows "\<exists>s' r'. rl_body buf p ch s r = Break s' r' \<and> s' \<in> {rl_after_slash_in_uri, rl_check_uri, rl_uri} \<and> rl_uri_same r r'"
proof -
  have upd: "rl_uri_same r (r\<lparr>complex_uri := b\<rparr>)" "rl_uri_same r (r\<lparr>quoted_uri := b\<rparr>)" "rl_uri_same r (r\<lparr>plus_in_uri := b\<rparr>)"
    "rl_uri_same r (r\<lparr>args_start := a\<rparr>)" "rl_uri_same r (r\<lparr>uri_ext := a\<rparr>)" for b a
    unfolding rl_uri_same_def
    by (cases r; simp; metis)+
  show ?thesis using assms upd rl_uri_same_refl [of r]
    by (auto simp: uri_char_def rl_sw_after_slash_in_uri_def rl_sw_check_uri_def rl_sw_uri_def)
qed

lemma rl_loop_uri_bytes:
  assumes "list_all uri_char w" "s \<in> {rl_after_slash_in_uri, rl_check_uri, rl_uri}"
  shows "\<exists>s' r'. sw_loop (rl_body buf) p (w @ rest) s r = sw_loop (rl_body buf) (p + length w) rest s' r' \<and>
     s' \<in> {rl_after_slash_in_uri, rl_check_uri, rl_uri} \<and> rl_uri_same r r'"
  using assms
proof (induction w arbitrary: p s r)
  case Nil
  then show ?case using rl_uri_same_refl by auto
next
  case (Cons ch w)
  obtain s1 r1 where b: "rl_body buf p ch s r = Break s1 r1" "s1 \<in> {rl_after_slash_in_uri, rl_check_uri, rl_uri}" "rl_uri_same r r1"
    using rl_uri_byte [of ch s buf p r] Cons.prems by auto
  obtain s2 r2 where "sw_loop (rl_body buf) (Suc p) (w @ rest) s1 r1 = sw_loop (rl_body buf) (Suc p + length w) rest s2 r2"
    "s2 \<in> {rl_after_slash_in_uri, rl_check_uri, rl_uri}" "rl_uri_same r1 r2"
    using Cons.IH [OF _ b(2), of "Suc p" r1] Cons.prems(1) by auto
  then show ?case using b rl_uri_same_trans [OF b(3)] by auto
qed

lemma rl_uri_space:
  assumes "s \<in> {rl_after_slash_in_uri, rl_check_uri, rl_uri}"
  shows "\<exists>s'. rl_body buf p SP s r = Break s' (r\<lparr>uri_end := Some p\<rparr>) \<and> s' \<in> {rl_check_uri_http_09, rl_http_09}"
  using assms by (auto simp: rl_sw_after_slash_in_uri_def rl_sw_check_uri_def rl_sw_uri_def usual_iff)

lemma rl_loop_line:
  assumes "list_all uri_char w" "digit d"
  shows "\<exists>r'. sw_loop (rl_body buf) p (w @ SP # ''HTTP/1.'' @ d # CR # LF # rest) rl_after_slash_in_uri r =
     Jumped () (p + length w + 10) (r'\<lparr>uri_end := Some (p + length w), http_protocol_data := Some (Suc (p + length w)),
       http_major := 1, http_minor := digit_val d, request_end := Some (p + length w + 9)\<rparr>) \<and> rl_uri_same r r'"
proof -
  let ?t = "''HTTP/1.'' @ d # CR # LF # rest"
  obtain s1 r1 where a: "sw_loop (rl_body buf) p (w @ SP # ?t) rl_after_slash_in_uri r =
      sw_loop (rl_body buf) (p + length w) (SP # ?t) s1 r1"
    "s1 \<in> {rl_after_slash_in_uri, rl_check_uri, rl_uri}" "rl_uri_same r r1"
    using rl_loop_uri_bytes [OF assms(1), of rl_after_slash_in_uri buf p "SP # ?t" r] by auto
  obtain s2 where s2: "rl_body buf (p + length w) SP s1 r1 = Break s2 (r1\<lparr>uri_end := Some (p + length w)\<rparr>)"
    "s2 \<in> {rl_check_uri_http_09, rl_http_09}"
    using rl_uri_space [OF a(2)] by blast
  have "sw_loop (rl_body buf) (Suc (p + length w)) ?t s2 (r1\<lparr>uri_end := Some (p + length w)\<rparr>) =
      Jumped () (Suc (p + length w) + 9) (r1\<lparr>uri_end := Some (p + length w), http_protocol_data := Some (Suc (p + length w)),
        http_major := 1, http_minor := digit_val d, request_end := Some (Suc (p + length w) + 8)\<rparr>)"
    using s2(2) by (subst rl_loop_version [OF _ assms(2)]) auto
  with a s2(1) show ?thesis by (intro exI [of _ r1]) (simp del: append_Cons)
qed



section \<open>Parsing in pieces\<close>

lemma rl_body_st:
  "rl_body buf p ch s (r\<lparr>rl_st := t\<rparr>) = map_sw id (\<lambda>r. r\<lparr>rl_st := t\<rparr>) id (rl_body buf p ch s r)"
  by (cases s) (simp_all add: rl_sw_defs)

lemma rl_loop_st:
  "sw_loop (rl_body buf) p xs s (r\<lparr>rl_st := t\<rparr>) =
     map_sw_exit id (\<lambda>r. r\<lparr>rl_st := t\<rparr>) id (sw_loop (rl_body buf) p xs s r)"
  by (induction xs arbitrary: p s r) (simp_all add: rl_body_st split: sw.splits)

lemma rl_body_take: "p < k \<Longrightarrow> rl_body (take k buf) p ch s r = rl_body buf p ch s r"
  by (cases s) (simp_all add: rl_sw_method_def slice_take)

interpretation rl_resume: resumable rl_body
  by unfold_locales (rule rl_body_take)

lemma rl_done_st: "rl_done p (r\<lparr>rl_st := t\<rparr>) = rl_done p r"
  by (simp add: rl_done_def Let_def)

definition rl_final :: "ngx_int \<Rightarrow> bool" where
  "rl_final c \<longleftrightarrow> c \<in> {NGX_OK, NGX_AGAIN, NGX_HTTP_PARSE_INVALID_09_METHOD}"

text \<open>
  C34. The parser may be fed the request line in pieces. If it answers \<open>NGX_AGAIN\<close> on the first
  \<open>k\<close> bytes, calling it again on the request it left, once the buffer has grown, gives the code
  the whole buffer would have given in one call, and the same request and position unless that
  code is an error; any other answer on the first \<open>k\<close> bytes is the answer on the whole buffer.
\<close>

theorem request_line_resumes:
  assumes k: "pos \<le> k" "k \<le> length buf"
    and part: "ngx_http_parse_request_line r (take k buf) pos = (c1, r1, p1)"
    and whole: "ngx_http_parse_request_line r buf pos = (c, r', p)"
  shows "if c1 = NGX_AGAIN
         then (case ngx_http_parse_request_line r1 buf p1 of
                 (c2, r2, p2) \<Rightarrow> c = c2 \<and> (rl_final c \<longrightarrow> r' = r2 \<and> p = p2))
         else c = c1 \<and> r' = r1 \<and> p = p1"
proof -
  let ?b = "rl_body buf" and ?y = "drop k buf"
  note split = rl_resume.loop_split [OF k, of "rl_st r" r]
  show ?thesis
  proof (cases "sw_loop (rl_body (take k buf)) pos (drop pos (take k buf)) (rl_st r) r")
    case (Exhausted q s2 r2)
    have q: "q = k" using sw_loop_exhausted [OF Exhausted] k by simp
    have p1: "c1 = NGX_AGAIN" "r1 = r2\<lparr>rl_st := s2\<rparr>" "p1 = k"
      using part q by (auto simp: ngx_http_parse_request_line_def Exhausted)
    have "ngx_http_parse_request_line r1 buf p1 =
        (case sw_loop ?b k ?y s2 r2 of
           Exhausted p s r' \<Rightarrow> (NGX_AGAIN, r'\<lparr>rl_st := s\<rparr>, p)
         | Returned c p r' \<Rightarrow> (c, r'\<lparr>rl_st := s2\<rparr>, k)
         | Jumped l p r' \<Rightarrow> rl_done p r')"
      by (simp add: ngx_http_parse_request_line_def p1 rl_loop_st rl_done_st split: sw_exit.split)
    with p1 whole split Exhausted show ?thesis
      using rl_loop_codes [of buf k ?y s2 r2]
      by (auto simp: ngx_http_parse_request_line_def rl_final_def split: sw_exit.splits)
  next
    case (Jumped l q r2)
    then have "c1 \<noteq> NGX_AGAIN" using part rl_done_code
      by (fastforce simp: ngx_http_parse_request_line_def)
    with Jumped split show ?thesis
      using part whole by (simp add: ngx_http_parse_request_line_def)
  next
    case (Returned c2 q r2)
    then have "c1 \<noteq> NGX_AGAIN" using part rl_loop_codes [OF Returned]
      by (fastforce simp: ngx_http_parse_request_line_def)
    with Returned split show ?thesis
      using part whole by (simp add: ngx_http_parse_request_line_def)
  qed
qed

theorem request_line_resumes_witness:
  "case ngx_http_parse_request_line rl_init (take 5 (''GET / HTTP/1.0'' @ [CR, LF])) 0 of
     (c1, r1, p1) \<Rightarrow> c1 = NGX_AGAIN \<and>
       fst (ngx_http_parse_request_line r1 (''GET / HTTP/1.0'' @ [CR, LF]) p1) = NGX_OK"
proof -
  let ?b = "''GET / HTTP/1.0'' @ [CR, LF]"
  obtain c1 r1 p1 where part: "ngx_http_parse_request_line rl_init (take 5 ?b) 0 = (c1, r1, p1)"
    by (rule prod_cases3)
  have again: "c1 = NGX_AGAIN"
    using part by (simp add: ngx_http_parse_request_line_def rl_sw_defs rl_init_def method_char_def
        slice_def rl_method_code_def alpha20_def)
  show ?thesis
    using request_line_resumes [OF _ _ part request_line_example] again part
    by (simp split: prod.splits)
qed

end
