(* ===== verification/Http_Complex_Uri.thy ===== *)
theory Http_Complex_Uri
  imports Http_Request_Line
begin

text \<open>
  URI normalisation: \<open>ngx_http_parse_complex_uri\<close> of \<open>nginx-master/src/http/ngx_http_parse.c\<close>
  (the build without \<open>NGX_WIN32\<close>). The bytes written through \<open>u\<close> are the list \<open>cu_out\<close>, so
  \<open>u\<close> is its length; pointers into the client buffer are offsets. Every \<open>*p++\<close> goes through
  \<open>cu_next\<close>, which faults when it would read past the buffer.
\<close>

section \<open>Data\<close>

text \<open>
  The four states that look at a (possibly decoded) byte. The C code remembers the state to come
  back to in \<open>quoted_state\<close> and the high digit in \<open>decoded\<close>; both are only meaningful in the
  two quoted states and are carried there.
\<close>

datatype cu_plain = cu_usual | cu_slash | cu_dot | cu_dot_dot

datatype cu_state =
    Plain cu_plain
  | Quoted cu_plain
  | Quoted_second cu_plain nat

record cu_ctx =
  cu_st :: cu_state
  cu_p :: nat
  cu_ch :: char
  cu_out :: bytes
  cu_uri_ext :: "nat option"
  cu_args_start :: "nat option"
  cu_args :: "(nat \<times> nat) option"
  cu_exten :: "bytes option"
  cu_plus_in_uri :: bool
  cu_quoted_uri :: bool

datatype cu_step =
    CuNext cu_ctx
  | CuDone cu_ctx
  | CuArgs cu_ctx
  | CuReturn ngx_int cu_ctx
  | CuFault

section \<open>The cases of the switch\<close>

text \<open>\<open>ch = *p++; break;\<close>\<close>

definition cu_next :: "bytes \<Rightarrow> cu_ctx \<Rightarrow> cu_step" where
  "cu_next buf c =
     (if cu_p c < length buf then CuNext (c\<lparr>cu_ch := buf ! cu_p c, cu_p := Suc (cu_p c)\<rparr>)
      else CuFault)"

text \<open>\<open>*u++ = ch\<close>\<close>

definition cu_put :: "cu_ctx \<Rightarrow> cu_ctx" where
  "cu_put c = c\<lparr>cu_out := cu_out c @ [cu_ch c]\<rparr>"

definition cu_sw_usual :: "bytes \<Rightarrow> cu_ctx \<Rightarrow> cu_step" where
  "cu_sw_usual buf c =
     (let ch = cu_ch c in
      if usual ch then cu_next buf (cu_put c)
      else if ch = CHR ''/'' then
        cu_next buf (cu_put (c\<lparr>cu_uri_ext := None, cu_st := Plain cu_slash\<rparr>))
      else if ch = CHR ''%'' then cu_next buf (c\<lparr>cu_st := Quoted cu_usual\<rparr>)
      else if ch = CHR ''?'' then CuArgs (c\<lparr>cu_args_start := Some (cu_p c)\<rparr>)
      else if ch = CHR ''#'' then CuDone c
      else if ch = CHR ''.'' then
        cu_next buf (cu_put (c\<lparr>cu_uri_ext := Some (length (cu_out c) + 1)\<rparr>))
      else if ch = CHR ''+'' then cu_next buf (cu_put (c\<lparr>cu_plus_in_uri := True\<rparr>))
      else cu_next buf (cu_put c))"

definition cu_sw_slash :: "bool \<Rightarrow> bytes \<Rightarrow> cu_ctx \<Rightarrow> cu_step" where
  "cu_sw_slash merge_slashes buf c =
     (let ch = cu_ch c in
      if usual ch then cu_next buf (cu_put (c\<lparr>cu_st := Plain cu_usual\<rparr>))
      else if ch = CHR ''/'' then cu_next buf (if \<not> merge_slashes then cu_put c else c)
      else if ch = CHR ''.'' then cu_next buf (cu_put (c\<lparr>cu_st := Plain cu_dot\<rparr>))
      else if ch = CHR ''%'' then cu_next buf (c\<lparr>cu_st := Quoted cu_slash\<rparr>)
      else if ch = CHR ''?'' then CuArgs (c\<lparr>cu_args_start := Some (cu_p c)\<rparr>)
      else if ch = CHR ''#'' then CuDone c
      else if ch = CHR ''+'' then
        cu_next buf (cu_put (c\<lparr>cu_plus_in_uri := True, cu_st := Plain cu_usual\<rparr>))
      else cu_next buf (cu_put (c\<lparr>cu_st := Plain cu_usual\<rparr>)))"

definition cu_sw_dot :: "bytes \<Rightarrow> cu_ctx \<Rightarrow> cu_step" where
  "cu_sw_dot buf c =
     (let ch = cu_ch c in
      if usual ch then cu_next buf (cu_put (c\<lparr>cu_st := Plain cu_usual\<rparr>))
      else if ch = CHR ''/'' then
        cu_next buf (c\<lparr>cu_st := Plain cu_slash, cu_out := butlast (cu_out c)\<rparr>)
      else if ch = CHR ''.'' then cu_next buf (cu_put (c\<lparr>cu_st := Plain cu_dot_dot\<rparr>))
      else if ch = CHR ''%'' then cu_next buf (c\<lparr>cu_st := Quoted cu_dot\<rparr>)
      else if ch = CHR ''?'' then CuArgs (c\<lparr>cu_args_start := Some (cu_p c)\<rparr>)
      else if ch = CHR ''#'' then CuDone c
      else if ch = CHR ''+'' then
        cu_next buf (cu_put (c\<lparr>cu_plus_in_uri := True, cu_st := Plain cu_usual\<rparr>))
      else cu_next buf (cu_put (c\<lparr>cu_st := Plain cu_usual\<rparr>)))"

text \<open>
  \<open>for ( ;; ) { if (u < r->uri.data) return ...; if (*u == '/') { u++; break; } u--; }\<close> from the
  offset \<open>k\<close>: the bytes kept, \<open>None\<close> when \<open>u\<close> falls below the start of the path.
\<close>

fun cu_back :: "bytes \<Rightarrow> nat \<Rightarrow> bytes option" where
  "cu_back out 0 = (if out ! 0 = CHR ''/'' then Some (take 1 out) else None)"
| "cu_back out (Suc k) =
     (if out ! Suc k = CHR ''/'' then Some (take (Suc (Suc k)) out) else cu_back out k)"

definition cu_up :: "bytes \<Rightarrow> bytes option" where
  "cu_up out = (if length out < 5 then None else cu_back out (length out - 5))"

definition cu_sw_dot_dot :: "bytes \<Rightarrow> cu_ctx \<Rightarrow> cu_step" where
  "cu_sw_dot_dot buf c =
     (let ch = cu_ch c in
      if usual ch then cu_next buf (cu_put (c\<lparr>cu_st := Plain cu_usual\<rparr>))
      else if ch = CHR ''/'' then
        (case cu_up (cu_out c) of
           None \<Rightarrow> CuReturn NGX_HTTP_PARSE_INVALID_REQUEST (c\<lparr>cu_st := Plain cu_slash\<rparr>)
         | Some out \<Rightarrow> cu_next buf (c\<lparr>cu_st := Plain cu_slash, cu_out := out\<rparr>))
      else if ch = CHR ''%'' then cu_next buf (c\<lparr>cu_st := Quoted cu_dot_dot\<rparr>)
      else if ch = CHR ''?'' then CuArgs (c\<lparr>cu_args_start := Some (cu_p c)\<rparr>)
      else if ch = CHR ''#'' then CuDone c
      else if ch = CHR ''+'' then
        cu_next buf (cu_put (c\<lparr>cu_plus_in_uri := True, cu_st := Plain cu_usual\<rparr>))
      else cu_next buf (cu_put (c\<lparr>cu_st := Plain cu_usual\<rparr>)))"

definition cu_sw_quoted :: "bytes \<Rightarrow> cu_plain \<Rightarrow> cu_ctx \<Rightarrow> cu_step" where
  "cu_sw_quoted buf qs c0 =
     (let c = c0\<lparr>cu_quoted_uri := True\<rparr>; ch = cu_ch c in
      if digit ch then cu_next buf (c\<lparr>cu_st := Quoted_second qs (digit_val ch)\<rparr>)
      else if hexalpha20 ch then cu_next buf (c\<lparr>cu_st := Quoted_second qs (hexalpha_val ch)\<rparr>)
      else CuReturn NGX_HTTP_PARSE_INVALID_REQUEST c)"

definition cu_sw_quoted_second :: "bytes \<Rightarrow> cu_plain \<Rightarrow> nat \<Rightarrow> cu_ctx \<Rightarrow> cu_step" where
  "cu_sw_quoted_second buf qs decoded c0 =
     (let ch0 = cu_ch c0 in
      if digit ch0 then
        (let ch = chr (decoded * 16 + digit_val ch0); c = c0\<lparr>cu_ch := ch\<rparr> in
         if ch = CHR ''%'' \<or> ch = CHR ''#'' then
           cu_next buf (cu_put (c\<lparr>cu_st := Plain cu_usual\<rparr>))
         else if ch = NUL then CuReturn NGX_HTTP_PARSE_INVALID_REQUEST c
         else CuNext (c\<lparr>cu_st := Plain qs\<rparr>))
      else if hexalpha20 ch0 then
        (let ch = chr (decoded * 16 + hexalpha_val ch0); c = c0\<lparr>cu_ch := ch\<rparr> in
         if ch = CHR ''?'' then
           cu_next buf (cu_put (c\<lparr>cu_st := Plain cu_usual\<rparr>))
         else if ch = CHR ''+'' then
           CuNext (c\<lparr>cu_plus_in_uri := True, cu_st := Plain qs\<rparr>)
         else CuNext (c\<lparr>cu_st := Plain qs\<rparr>))
      else CuReturn NGX_HTTP_PARSE_INVALID_REQUEST c0)"

fun cu_switch :: "bool \<Rightarrow> bytes \<Rightarrow> cu_ctx \<Rightarrow> cu_state \<Rightarrow> cu_step" where
  "cu_switch ms buf c (Plain cu_usual) = cu_sw_usual buf c"
| "cu_switch ms buf c (Plain cu_slash) = cu_sw_slash ms buf c"
| "cu_switch ms buf c (Plain cu_dot) = cu_sw_dot buf c"
| "cu_switch ms buf c (Plain cu_dot_dot) = cu_sw_dot_dot buf c"
| "cu_switch ms buf c (Quoted qs) = cu_sw_quoted buf qs c"
| "cu_switch ms buf c (Quoted_second qs d) = cu_sw_quoted_second buf qs d c"

lemmas cu_sw_defs = cu_sw_usual_def cu_sw_slash_def cu_sw_dot_def cu_sw_dot_dot_def
  cu_sw_quoted_def cu_sw_quoted_second_def cu_next_def cu_put_def Let_def

section \<open>The loop and its labels\<close>

text \<open>Each iteration advances \<open>p\<close> or leaves the second quoted state, so the loop ends.\<close>

lemma cu_switch_progress:
  "cu_switch ms buf c (cu_st c) = CuNext c' \<Longrightarrow>
     cu_p c < cu_p c' \<or> cu_p c' = cu_p c \<and> (\<exists>qs d. cu_st c = Quoted_second qs d) \<and> (\<exists>qs. cu_st c' = Plain qs)"
  by (cases "(ms, buf, c, cu_st c)" rule: cu_switch.cases)
    (auto simp: cu_sw_defs split: if_splits option.splits)

definition cu_rank :: "cu_state \<Rightarrow> nat" where
  "cu_rank s = (case s of Quoted_second qs d \<Rightarrow> 1 | _ \<Rightarrow> 0)"

function cu_loop :: "bool \<Rightarrow> bytes \<Rightarrow> nat \<Rightarrow> cu_ctx \<Rightarrow> cu_step" where
  "cu_loop ms buf uri_e c =
     (if cu_p c \<le> uri_e then
        (case cu_switch ms buf c (cu_st c) of
           CuNext c' \<Rightarrow> cu_loop ms buf uri_e c'
         | res \<Rightarrow> res)
      else CuDone c)"
  by pat_completeness auto
termination
  by (relation "measure (\<lambda>(ms, buf, uri_e, c). 2 * (Suc uri_e - cu_p c) + cu_rank (cu_st c))")
    (auto simp: cu_rank_def dest!: cu_switch_progress split: cu_state.splits)

declare cu_loop.simps [simp del]

text \<open>The common tail of both labels: \<open>r->uri.len\<close>, the extension, \<open>r->uri_ext = NULL\<close>.\<close>

definition cu_finish :: "cu_ctx \<Rightarrow> cu_ctx" where
  "cu_finish c =
     c\<lparr>cu_exten := (case cu_uri_ext c of None \<Rightarrow> cu_exten c | Some x \<Rightarrow> Some (drop x (cu_out c))),
       cu_uri_ext := None\<rparr>"

text \<open>The loop of label \<open>args\<close> from the offset \<open>p\<close>: the offset of the first \<open>#\<close>, if any.\<close>

fun cu_find_hash :: "nat \<Rightarrow> bytes \<Rightarrow> nat option" where
  "cu_find_hash p [] = None"
| "cu_find_hash p (x # xs) = (if x = CHR ''#'' then Some p else cu_find_hash (Suc p) xs)"

definition cu_args_label :: "bytes \<Rightarrow> nat \<Rightarrow> cu_ctx \<Rightarrow> cu_ctx" where
  "cu_args_label buf uri_e c =
     cu_finish
       (case cu_find_hash (cu_p c) (slice buf (cu_p c) uri_e) of
          None \<Rightarrow> c
        | Some h \<Rightarrow>
            (case cu_args_start c of
               None \<Rightarrow> c
             | Some a \<Rightarrow> c\<lparr>cu_args := Some (a, h - a), cu_args_start := None\<rparr>))"

text \<open>The start: \<open>state = sw_usual\<close>, \<open>ch = *p++\<close>, nothing written.\<close>

definition cu_start :: "rl_request \<Rightarrow> bytes \<Rightarrow> nat \<Rightarrow> cu_ctx" where
  "cu_start r buf uri_s =
     \<lparr>cu_st = Plain cu_usual, cu_p = Suc uri_s, cu_ch = buf ! uri_s, cu_out = [],
      cu_uri_ext = None, cu_args_start = None, cu_args = None, cu_exten = None,
      cu_plus_in_uri = plus_in_uri r, cu_quoted_uri = quoted_uri r\<rparr>"

text \<open>
  The whole function for the URI at \<open>[uri_s, uri_e)\<close> of the buffer: \<open>None\<close> is a read outside
  the buffer, \<open>Some (rc, c)\<close> the return code and what was written.
\<close>

definition ngx_http_parse_complex_uri ::
    "rl_request \<Rightarrow> bytes \<Rightarrow> nat \<Rightarrow> nat \<Rightarrow> bool \<Rightarrow> (ngx_int \<times> cu_ctx) option" where
  "ngx_http_parse_complex_uri r buf uri_s uri_e merge_slashes =
     (if length buf \<le> uri_s then None
      else
        (case cu_loop merge_slashes buf uri_e (cu_start r buf uri_s) of
           CuNext c' \<Rightarrow> None
         | CuDone c' \<Rightarrow> Some (NGX_OK, cu_finish c')
         | CuArgs c' \<Rightarrow> Some (NGX_OK, cu_args_label buf uri_e c')
         | CuReturn rc c' \<Rightarrow> Some (rc, c')
         | CuFault \<Rightarrow> None))"

text \<open>The contexts the loop passes through from \<open>c\<close>, one for every iteration it begins or ends.\<close>

inductive cu_reach :: "bool \<Rightarrow> bytes \<Rightarrow> nat \<Rightarrow> cu_ctx \<Rightarrow> cu_ctx \<Rightarrow> bool" for ms buf uri_e c where
  cu_reach_start: "cu_reach ms buf uri_e c c"
| cu_reach_step: "cu_reach ms buf uri_e c c' \<Longrightarrow> cu_p c' \<le> uri_e \<Longrightarrow> cu_switch ms buf c' (cu_st c') = CuNext c'' \<Longrightarrow>
    cu_reach ms buf uri_e c c''"

section \<open>Segments of the path written so far\<close>

definition seg_last :: "bytes \<Rightarrow> bytes" where
  "seg_last out = rev (takeWhile (\<lambda>c. c \<noteq> CHR ''/'') (rev out))"

lemma seg_last_snoc [simp]:
  "seg_last (out @ [c]) = (if c = CHR ''/'' then [] else seg_last out @ [c])"
  by (simp add: seg_last_def)

lemma seg_last_Nil [simp]: "seg_last [] = []"
  by (simp add: seg_last_def)

lemma seg_last_no_slash: "CHR ''/'' \<notin> set (seg_last out)"
  by (auto simp: seg_last_def dest: set_takeWhileD)

lemma seg_last_split: "CHR ''/'' \<in> set out \<Longrightarrow> \<exists>a. out = a @ CHR ''/'' # seg_last out"
proof (induction out rule: rev_induct)
  case (snoc x xs)
  then show ?case by (cases "x = CHR ''/''") auto
qed simp

lemma seg_last_unique:
  assumes "out = a @ CHR ''/'' # s" and "CHR ''/'' \<notin> set s"
  shows "s = seg_last out"
proof -
  have "takeWhile (\<lambda>c. c \<noteq> CHR ''/'') (rev s @ CHR ''/'' # rev a) = rev s"
    using assms(2) by (subst takeWhile_append2) auto
  with assms(1) show ?thesis by (simp add: seg_last_def)
qed

definition dot_seg :: "bytes \<Rightarrow> bool" where
  "dot_seg s \<longleftrightarrow> s = ''.'' \<or> s = ''..''"

text \<open>No segment that is closed by a slash is \<open>.\<close> or \<open>..\<close>.\<close>

definition segs_ok :: "bytes \<Rightarrow> bool" where
  "segs_ok out \<longleftrightarrow>
     (\<forall>a s b. out = a @ CHR ''/'' # s @ CHR ''/'' # b \<longrightarrow> CHR ''/'' \<notin> set s \<longrightarrow> \<not> dot_seg s)"

lemma segs_ok_prefix: "segs_ok (xs @ ys) \<Longrightarrow> segs_ok xs"
  by (fastforce simp: segs_ok_def)

lemma segs_ok_snoc:
  assumes "segs_ok out" and "c = CHR ''/'' \<Longrightarrow> \<not> dot_seg (seg_last out)"
  shows "segs_ok (out @ [c])"
  unfolding segs_ok_def
proof (intro allI impI)
  fix a s b
  assume eq: "out @ [c] = a @ CHR ''/'' # s @ CHR ''/'' # b" and s: "CHR ''/'' \<notin> set s"
  show "\<not> dot_seg s"
  proof (cases b rule: rev_cases)
    case Nil
    with eq have "c = CHR ''/''" "out = a @ CHR ''/'' # s"
      by (simp_all flip: append_Cons append_assoc)
    with assms(2) seg_last_unique [OF _ s] show ?thesis by metis
  next
    case (snoc b' y)
    with eq have "out = a @ CHR ''/'' # s @ CHR ''/'' # b'"
      by (simp flip: append_Cons append_assoc)
    with assms(1) s show ?thesis by (auto simp: segs_ok_def)
  qed
qed

definition path_ok :: "bytes \<Rightarrow> bool" where
  "path_ok out \<longleftrightarrow> out \<noteq> [] \<and> hd out = CHR ''/'' \<and> segs_ok out"

lemma segs_ok_Nil: "segs_ok []" and segs_ok_slash: "segs_ok [c]"
  by (auto simp: segs_ok_def Cons_eq_append_conv)

lemma path_ok_snoc:
  "path_ok out \<Longrightarrow> (c = CHR ''/'' \<Longrightarrow> \<not> dot_seg (seg_last out)) \<Longrightarrow> path_ok (out @ [c])"
  by (auto simp: path_ok_def intro: segs_ok_snoc)

lemma path_ok_take: "path_ok out \<Longrightarrow> path_ok (take (Suc k) out)"
proof -
  assume "path_ok out"
  moreover have "segs_ok (take (Suc k) out)" if "segs_ok out"
    using that segs_ok_prefix [of "take (Suc k) out" "drop (Suc k) out"] by simp
  ultimately show ?thesis by (cases out) (auto simp: path_ok_def)
qed

lemma cu_back_Some:
  "cu_back out k = Some out' \<Longrightarrow> \<exists>j \<le> k. out' = take (Suc j) out \<and> out ! j = CHR ''/''"
proof (induction out k rule: cu_back.induct)
  case (2 out k)
  then show ?case by (auto split: if_splits intro: le_SucI)
qed (auto split: if_splits)

lemma cu_up_Some:
  assumes "cu_up out = Some out'" and "path_ok out"
  shows "path_ok out' \<and> seg_last out' = [] \<and> length out' < length out"
proof -
  obtain j where j: "j \<le> length out - 5" "5 \<le> length out" "out' = take (Suc j) out" "out ! j = CHR ''/''"
    using assms(1) cu_back_Some by (fastforce simp: cu_up_def split: if_splits)
  then have "out' = take j out @ [CHR ''/'']" by (simp add: take_Suc_conv_app_nth)
  then have "seg_last out' = []" by simp
  with j assms(2) show ?thesis by (auto intro: path_ok_take)
qed

lemma seg_last_butlast_dot: "path_ok out \<Longrightarrow> seg_last out = ''.'' \<Longrightarrow> path_ok (butlast out) \<and> seg_last (butlast out) = []"
proof -
  assume ok: "path_ok out" and d: "seg_last out = ''.''"
  then have "CHR ''/'' \<in> set out" by (cases out) (auto simp: path_ok_def)
  with d obtain a where a: "out = (a @ [CHR ''/'']) @ [CHR ''.'']" using seg_last_split [of out] by auto
  then have "butlast out = a @ [CHR ''/'']" "butlast out = take (Suc (length a)) out"
    by (simp_all add: butlast_append)
  with path_ok_take [OF ok] show ?thesis by (metis seg_last_snoc)
qed

section \<open>The invariant of the loop\<close>

fun cu_shape :: "cu_plain \<Rightarrow> bytes \<Rightarrow> bool" where
  "cu_shape cu_usual out \<longleftrightarrow> path_ok out \<and> seg_last out \<noteq> [] \<and> \<not> dot_seg (seg_last out)"
| "cu_shape cu_slash out \<longleftrightarrow> path_ok out \<and> seg_last out = []"
| "cu_shape cu_dot out \<longleftrightarrow> path_ok out \<and> seg_last out = ''.''"
| "cu_shape cu_dot_dot out \<longleftrightarrow> path_ok out \<and> seg_last out = ''..''"

fun cu_base :: "cu_state \<Rightarrow> cu_plain" where
  "cu_base (Plain q) = q"
| "cu_base (Quoted q) = q"
| "cu_base (Quoted_second q d) = q"

definition cu_first :: "nat \<Rightarrow> cu_ctx \<Rightarrow> bool" where
  "cu_first uri_s c \<longleftrightarrow> cu_out c = [] \<and> cu_st c = Plain cu_usual \<and> cu_ch c = CHR ''/'' \<and> cu_p c = Suc uri_s"

definition cu_inv :: "nat \<Rightarrow> nat \<Rightarrow> cu_ctx \<Rightarrow> bool" where
  "cu_inv uri_s uri_e c \<longleftrightarrow>
     cu_p c \<le> Suc uri_e \<and> length (cu_out c) + Suc uri_s \<le> cu_p c \<and> cu_exten c = None
     \<and> (cu_first uri_s c \<or> cu_shape (cu_base (cu_st c)) (cu_out c))
     \<and> (case cu_uri_ext c of None \<Rightarrow> True
        | Some x \<Rightarrow> cu_base (cu_st c) = cu_usual \<and> x \<le> length (cu_out c))"

lemma cu_shape_path_ok: "cu_shape q out \<Longrightarrow> path_ok out"
  by (cases q) auto

lemma cu_shape_put:
  assumes "cu_shape q out" and "c \<noteq> CHR ''/''" and "c \<noteq> CHR ''.'' \<or> q = cu_usual \<or> q = cu_dot_dot"
  shows "cu_shape cu_usual (out @ [c])"
  using assms by (cases q) (auto simp: dot_seg_def intro: path_ok_snoc)

lemma cu_shape_slash:
  "cu_shape q out \<Longrightarrow> q = cu_usual \<or> q = cu_slash \<Longrightarrow> cu_shape cu_slash (out @ [CHR ''/''])"
  by (auto simp: dot_seg_def intro: path_ok_snoc)

lemma cu_shape_dot: "cu_shape cu_slash out \<Longrightarrow> cu_shape cu_dot (out @ [CHR ''.''])"
  and cu_shape_dot_dot: "cu_shape cu_dot out \<Longrightarrow> cu_shape cu_dot_dot (out @ [CHR ''.''])"
  by (auto intro: path_ok_snoc)

lemma cu_shape_first: "cu_shape cu_slash [CHR ''/'']"
  using seg_last_snoc [of "[]" "CHR ''/''"] by (auto simp: path_ok_def segs_ok_slash)

lemmas cu_shape_intros = cu_shape_put cu_shape_slash cu_shape_dot cu_shape_dot_dot cu_shape_first

lemma cu_sw_usual_inv:
  assumes "cu_inv uri_s uri_e c" "cu_st c = Plain cu_usual" "cu_p c \<le> uri_e"
    "cu_sw_usual buf c = CuNext c'"
  shows "cu_inv uri_s uri_e c'"
proof (cases "cu_first uri_s c")
  case True
  with assms show ?thesis
    by (auto simp: cu_sw_defs usual_iff cu_inv_def cu_first_def cu_shape_first simp del: cu_shape.simps
        split: if_splits)
next
  case False
  with assms show ?thesis
    by (auto simp: cu_sw_defs usual_iff cu_inv_def cu_first_def simp del: cu_shape.simps
        intro: cu_shape_intros split: if_splits option.splits)
qed

lemma cu_sw_slash_inv:
  assumes "cu_inv uri_s uri_e c" "cu_st c = Plain cu_slash" "cu_p c \<le> uri_e"
    "cu_sw_slash ms buf c = CuNext c'"
  shows "cu_inv uri_s uri_e c'"
  using assms
  by (auto simp: cu_sw_defs usual_iff cu_inv_def cu_first_def simp del: cu_shape.simps
      intro: cu_shape_intros split: if_splits option.splits)

lemma cu_sw_dot_inv:
  assumes "cu_inv uri_s uri_e c" "cu_st c = Plain cu_dot" "cu_p c \<le> uri_e"
    "cu_sw_dot buf c = CuNext c'"
  shows "cu_inv uri_s uri_e c'"
proof -
  have "cu_shape cu_slash (butlast (cu_out c))"
    using assms(1,2) seg_last_butlast_dot by (auto simp: cu_inv_def cu_first_def)
  with assms show ?thesis
    by (auto simp: cu_sw_defs usual_iff cu_inv_def cu_first_def simp del: cu_shape.simps
        intro: cu_shape_intros split: if_splits option.splits)
qed

lemma cu_sw_dot_dot_inv:
  assumes "cu_inv uri_s uri_e c" "cu_st c = Plain cu_dot_dot" "cu_p c \<le> uri_e"
    "cu_sw_dot_dot buf c = CuNext c'"
  shows "cu_inv uri_s uri_e c'"
proof -
  have "path_ok (cu_out c)" using assms(1,2) by (auto simp: cu_inv_def cu_first_def)
  then have "cu_shape cu_slash out \<and> length out < length (cu_out c)" if "cu_up (cu_out c) = Some out" for out
    using cu_up_Some [OF that] by simp
  with assms show ?thesis
    by (auto simp: cu_sw_defs usual_iff cu_inv_def cu_first_def simp del: cu_shape.simps
        intro: cu_shape_intros dest: less_imp_le split: if_splits option.splits)
qed

lemma cu_sw_quoted_inv:
  assumes "cu_inv uri_s uri_e c" "cu_st c = Quoted qs" "cu_p c \<le> uri_e"
    "cu_sw_quoted buf qs c = CuNext c'"
  shows "cu_inv uri_s uri_e c'"
  using assms
  by (auto simp: cu_sw_defs cu_inv_def cu_first_def simp del: cu_shape.simps
      split: if_splits option.splits)

lemma cu_sw_quoted_second_inv:
  assumes "cu_inv uri_s uri_e c" "cu_st c = Quoted_second qs d" "cu_p c \<le> uri_e"
    "cu_sw_quoted_second buf qs d c = CuNext c'"
  shows "cu_inv uri_s uri_e c'"
  using assms
  by (auto simp: cu_sw_defs cu_inv_def cu_first_def simp del: cu_shape.simps
      intro: cu_shape_intros split: if_splits option.splits)

lemma cu_switch_inv:
  assumes "cu_inv uri_s uri_e c" "cu_p c \<le> uri_e" "cu_switch ms buf c (cu_st c) = CuNext c'"
  shows "cu_inv uri_s uri_e c'"
  using assms
  by (cases "(ms, buf, c, cu_st c)" rule: cu_switch.cases)
    (auto intro: cu_sw_usual_inv cu_sw_slash_inv cu_sw_dot_inv cu_sw_dot_dot_inv cu_sw_quoted_inv
      cu_sw_quoted_second_inv)

definition cu_fin :: "nat \<Rightarrow> nat \<Rightarrow> cu_ctx \<Rightarrow> bool" where
  "cu_fin uri_s uri_e c \<longleftrightarrow> path_ok (cu_out c) \<and> length (cu_out c) + uri_s \<le> uri_e \<and> cu_exten c = None
     \<and> (case cu_uri_ext c of None \<Rightarrow> True | Some x \<Rightarrow> x \<le> length (cu_out c))"

definition cu_exit_ok :: "nat \<Rightarrow> nat \<Rightarrow> cu_step \<Rightarrow> bool" where
  "cu_exit_ok uri_s uri_e res =
     (case res of CuNext c \<Rightarrow> False | CuFault \<Rightarrow> False
      | CuDone c \<Rightarrow> cu_fin uri_s uri_e c | CuArgs c \<Rightarrow> cu_fin uri_s uri_e c
      | CuReturn rc c \<Rightarrow> rc = NGX_HTTP_PARSE_INVALID_REQUEST)"

lemma cu_switch_done:
  assumes "cu_switch ms buf c (cu_st c) = CuDone c'"
  shows "c' = c \<and> cu_ch c = CHR ''#'' \<and> (\<exists>q. cu_st c = Plain q)"
  using assms
  by (cases "(ms, buf, c, cu_st c)" rule: cu_switch.cases)
    (auto simp: cu_sw_defs split: if_splits option.splits)

lemma cu_switch_args:
  assumes "cu_switch ms buf c (cu_st c) = CuArgs c'"
  shows "c' = c\<lparr>cu_args_start := Some (cu_p c)\<rparr> \<and> cu_ch c = CHR ''?'' \<and> (\<exists>q. cu_st c = Plain q)"
  using assms
  by (cases "(ms, buf, c, cu_st c)" rule: cu_switch.cases)
    (auto simp: cu_sw_defs split: if_splits option.splits)

lemma cu_switch_return:
  assumes "cu_switch ms buf c (cu_st c) = CuReturn rc c'"
  shows "rc = NGX_HTTP_PARSE_INVALID_REQUEST"
  using assms
  by (cases "(ms, buf, c, cu_st c)" rule: cu_switch.cases)
    (auto simp: cu_sw_defs split: if_splits option.splits)

lemma cu_switch_fault:
  assumes "cu_switch ms buf c (cu_st c) = CuFault"
  shows "length buf \<le> cu_p c"
  using assms
  by (cases "(ms, buf, c, cu_st c)" rule: cu_switch.cases)
    (auto simp: cu_sw_defs split: if_splits option.splits)

lemma cu_switch_exit:
  assumes "cu_inv uri_s uri_e c" "cu_p c \<le> uri_e" "uri_e < length buf"
    "\<nexists>c'. cu_switch ms buf c (cu_st c) = CuNext c'"
  shows "cu_exit_ok uri_s uri_e (cu_switch ms buf c (cu_st c))"
  using assms
  by (cases "cu_switch ms buf c (cu_st c)")
    (auto simp: cu_exit_ok_def cu_inv_def cu_fin_def cu_first_def simp del: cu_shape.simps
      dest: cu_shape_path_ok dest!: cu_switch_done cu_switch_args cu_switch_return cu_switch_fault
      split: option.splits)

lemma cu_loop_exit:
  assumes "cu_inv uri_s uri_e c" "uri_s < uri_e" "uri_e < length buf"
  shows "cu_exit_ok uri_s uri_e (cu_loop ms buf uri_e c)"
  using assms
proof (induction ms buf uri_e c rule: cu_loop.induct)
  case (1 ms buf uri_e c)
  show ?case
  proof (cases "cu_p c \<le> uri_e")
    case True
    show ?thesis
    proof (cases "\<exists>c'. cu_switch ms buf c (cu_st c) = CuNext c'")
      case ex: True
      then obtain c' where c': "cu_switch ms buf c (cu_st c) = CuNext c'" by blast
      from 1 True c' cu_switch_inv [OF _ True c'] have "cu_exit_ok uri_s uri_e (cu_loop ms buf uri_e c')"
        by blast
      with True c' show ?thesis by (simp add: cu_loop.simps [of ms buf uri_e c])
    next
      case False
      with cu_switch_exit [OF "1.prems"(1) True "1.prems"(3) this] True show ?thesis
        by (auto simp: cu_loop.simps [of ms buf uri_e c] split: cu_step.split)
    qed
  next
    case False
    with "1.prems" show ?thesis
      by (auto simp: cu_loop.simps [of ms buf uri_e c] cu_exit_ok_def cu_inv_def cu_fin_def cu_first_def
          simp del: cu_shape.simps dest: cu_shape_path_ok split: option.splits)
  qed
qed

lemma cu_finish_simps [simp]:
  "cu_out (cu_finish c) = cu_out c" "cu_uri_ext (cu_finish c) = None"
  "cu_args (cu_finish c) = cu_args c" "cu_args_start (cu_finish c) = cu_args_start c"
  by (simp_all add: cu_finish_def)

lemma cu_args_label_out [simp]: "cu_out (cu_args_label buf uri_e c) = cu_out c"
  by (simp add: cu_args_label_def split: option.splits)

lemma path_ok_clean:
  assumes "path_ok out" "out = a @ CHR ''/'' # s @ CHR ''/'' # b"
  shows "s \<noteq> ''.'' \<and> s \<noteq> ''..''"
proof -
  have "CHR ''/'' \<notin> set s \<Longrightarrow> \<not> dot_seg s"
    using assms unfolding path_ok_def segs_ok_def by blast
  then show ?thesis by (auto simp: dot_seg_def)
qed

lemma cu_start_inv:
  assumes "uri_s < uri_e" "buf ! uri_s = CHR ''/''"
  shows "cu_inv uri_s uri_e (cu_start r buf uri_s)"
  using assms by (simp add: cu_inv_def cu_first_def cu_start_def)

lemma cu_reach_inv:
  assumes "cu_reach ms buf uri_e c c'" "cu_inv uri_s uri_e c"
  shows "cu_inv uri_s uri_e c'"
  using assms by (induction rule: cu_reach.induct) (auto intro: cu_switch_inv)

lemma cu_reach_bound:
  assumes "cu_reach ms buf uri_e (cu_start r buf uri_s) c" "uri_s < uri_e" "buf ! uri_s = CHR ''/''" "uri_e < length buf"
  shows "length (cu_out c) \<le> uri_e - uri_s \<and> (cu_p c \<le> uri_e \<longrightarrow> cu_switch ms buf c (cu_st c) \<noteq> CuFault)"
proof -
  have "cu_inv uri_s uri_e c" using assms(1) cu_start_inv [OF assms(2,3)] by (rule cu_reach_inv)
  then show ?thesis using cu_switch_fault [of ms buf c] assms(4) by (auto simp: cu_inv_def)
qed

lemma complex_uri_result:
  assumes "uri_s < uri_e" and "uri_e < length buf" and "buf ! uri_s = CHR ''/''"
  shows "\<exists>rc c. ngx_http_parse_complex_uri r buf uri_s uri_e merge = Some (rc, c) \<and>
     (rc = NGX_HTTP_PARSE_INVALID_REQUEST \<or>
      rc = NGX_OK \<and> path_ok (cu_out c) \<and> length (cu_out c) + uri_s \<le> uri_e)"
proof -
  let ?c = "cu_start r buf uri_s"
  have "cu_inv uri_s uri_e ?c" using assms(1,3) by (rule cu_start_inv)
  then have ex: "cu_exit_ok uri_s uri_e (cu_loop merge buf uri_e ?c)"
    using assms(1,2) by (rule cu_loop_exit)
  have "\<not> length buf \<le> uri_s" using assms by simp
  with ex show ?thesis
    by (cases "cu_loop merge buf uri_e ?c")
      (auto simp: ngx_http_parse_complex_uri_def cu_exit_ok_def cu_fin_def)
qed

text \<open>
  C10. Normalising a URI that starts with a slash and is followed by at least one more received
  byte never reads outside the buffer. After every iteration of the loop, whatever the later outcome,
  the bytes written through \<open>u\<close> are at most as many as the URI has, so no write goes behind the
  \<open>uri_e - uri_s + 1\<close> bytes the caller allocates. The function either reports an invalid request or
  yields a path that starts with a slash and in which no component before the last is \<open>.\<close> or \<open>..\<close>.
\<close>

theorem complex_uri_safe:
  assumes "uri_s < uri_e" and "uri_e < length buf" and "buf ! uri_s = CHR ''/''"
  shows "(\<forall>c. cu_reach merge buf uri_e (cu_start r buf uri_s) c \<longrightarrow>
        length (cu_out c) \<le> uri_e - uri_s \<and> (cu_p c \<le> uri_e \<longrightarrow> cu_switch merge buf c (cu_st c) \<noteq> CuFault)) \<and>
     (\<exists>rc c. ngx_http_parse_complex_uri r buf uri_s uri_e merge = Some (rc, c) \<and>
       (rc = NGX_HTTP_PARSE_INVALID_REQUEST \<or>
        rc = NGX_OK \<and> length (cu_out c) \<le> uri_e - uri_s \<and> cu_out c \<noteq> [] \<and> hd (cu_out c) = CHR ''/'' \<and>
        (\<forall>a s b. cu_out c = a @ CHR ''/'' # s @ CHR ''/'' # b \<longrightarrow> s \<noteq> ''.'' \<and> s \<noteq> ''..'')))"
proof (intro conjI)
  show "\<forall>c. cu_reach merge buf uri_e (cu_start r buf uri_s) c \<longrightarrow>
      length (cu_out c) \<le> uri_e - uri_s \<and> (cu_p c \<le> uri_e \<longrightarrow> cu_switch merge buf c (cu_st c) \<noteq> CuFault)"
    using cu_reach_bound [OF _ assms(1,3,2)] by blast
  obtain rc c where c: "ngx_http_parse_complex_uri r buf uri_s uri_e merge = Some (rc, c)"
    and rc: "rc = NGX_HTTP_PARSE_INVALID_REQUEST \<or>
      rc = NGX_OK \<and> path_ok (cu_out c) \<and> length (cu_out c) + uri_s \<le> uri_e"
    using complex_uri_result [OF assms] by blast
  from rc show "\<exists>rc c. ngx_http_parse_complex_uri r buf uri_s uri_e merge = Some (rc, c) \<and>
       (rc = NGX_HTTP_PARSE_INVALID_REQUEST \<or>
        rc = NGX_OK \<and> length (cu_out c) \<le> uri_e - uri_s \<and> cu_out c \<noteq> [] \<and> hd (cu_out c) = CHR ''/'' \<and>
        (\<forall>a s b. cu_out c = a @ CHR ''/'' # s @ CHR ''/'' # b \<longrightarrow> s \<noteq> ''.'' \<and> s \<noteq> ''..''))"
  proof
    assume ok: "rc = NGX_OK \<and> path_ok (cu_out c) \<and> length (cu_out c) + uri_s \<le> uri_e"
    then have "cu_out c \<noteq> [] \<and> hd (cu_out c) = CHR ''/''" by (simp add: path_ok_def)
    moreover have "\<forall>a s b. cu_out c = a @ CHR ''/'' # s @ CHR ''/'' # b \<longrightarrow> s \<noteq> ''.'' \<and> s \<noteq> ''..''"
      using ok path_ok_clean by blast
    ultimately show ?thesis using c ok by auto
  qed (use c in blast)
qed

section \<open>Agreement with dot-segment removal\<close>

text \<open>
  The reference: directories are kept on a stack, \<open>.\<close> is dropped, \<open>..\<close> pops one directory and
  is an error on the empty stack.
\<close>

fun remove_dots :: "bytes list \<Rightarrow> bytes list \<Rightarrow> bytes list option" where
  "remove_dots acc [] = Some acc"
| "remove_dots acc (s # ss) =
     (if s = ''.'' then remove_dots acc ss
      else if s = ''..'' then (case acc of [] \<Rightarrow> None | d # acc' \<Rightarrow> remove_dots acc' ss)
      else remove_dots (s # acc) ss)"

text \<open>Bytes that are neither a separator nor decoded or cut off by the parser.\<close>

definition seg_char :: "char \<Rightarrow> bool" where
  "seg_char ch \<longleftrightarrow> ch \<notin> {CHR ''/'', CHR ''%'', CHR ''?'', CHR ''#''}"

text \<open>The context is about to look at the first byte of \<open>xs\<close>, the rest of the URI.\<close>

definition cu_at :: "bytes \<Rightarrow> nat \<Rightarrow> cu_ctx \<Rightarrow> bytes \<Rightarrow> bool" where
  "cu_at buf uri_e c xs \<longleftrightarrow> uri_e < length buf \<and> cu_p c = Suc uri_e - length xs \<and> length xs \<le> uri_e \<and>
     slice buf (uri_e - length xs) uri_e = xs \<and> cu_ch c = buf ! (uri_e - length xs)"

lemma cu_at_hd: "cu_at buf uri_e c (x # xs) \<Longrightarrow> cu_ch c = x \<and> cu_p c \<le> uri_e"
proof -
  assume a: "cu_at buf uri_e c (x # xs)"
  let ?k = "uri_e - length (x # xs)"
  have "slice buf ?k uri_e ! 0 = buf ! ?k"
    using a by (auto simp: cu_at_def slice_def)
  with a show ?thesis by (auto simp: cu_at_def)
qed

lemma cu_at_next:
  assumes "cu_at buf uri_e c (x # xs)" "cu_ch c' = cu_ch c" "cu_p c' = cu_p c"
  shows "cu_next buf c' = CuNext (c'\<lparr>cu_ch := buf ! cu_p c, cu_p := Suc (cu_p c)\<rparr>)"
    and "cu_at buf uri_e (c'\<lparr>cu_ch := buf ! cu_p c, cu_p := Suc (cu_p c)\<rparr>) xs"
proof -
  have l: "length xs < uri_e" "uri_e < length buf" using assms(1) by (auto simp: cu_at_def)
  have e: "drop (uri_e - Suc (length xs)) buf = buf ! (uri_e - Suc (length xs)) # drop (uri_e - length xs) buf"
    using l by (metis Cons_nth_drop_Suc Suc_diff_Suc diff_less_Suc less_trans_Suc not_less_eq order_less_trans)
  have "slice buf (uri_e - length xs) uri_e = xs"
    using assms(1) l e by (simp add: cu_at_def slice_def)
  then show "cu_at buf uri_e (c'\<lparr>cu_ch := buf ! cu_p c, cu_p := Suc (cu_p c)\<rparr>) xs"
    using assms l by (auto simp: cu_at_def Suc_diff_le)
  show "cu_next buf c' = CuNext (c'\<lparr>cu_ch := buf ! cu_p c, cu_p := Suc (cu_p c)\<rparr>)"
    using assms l by (auto simp: cu_at_def cu_next_def)
qed

definition classify :: "bytes \<Rightarrow> cu_plain" where
  "classify s = (if s = [] then cu_slash else if s = ''.'' then cu_dot
     else if s = ''..'' then cu_dot_dot else cu_usual)"

lemma cu_loop_Next:
  "cu_p c \<le> uri_e \<Longrightarrow> cu_switch ms buf c (cu_st c) = CuNext c' \<Longrightarrow> cu_loop ms buf uri_e c = cu_loop ms buf uri_e c'"
  by (simp add: cu_loop.simps [of ms buf uri_e c])

lemma cu_seg_step:
  assumes at: "cu_at buf uri_e c (x # ys)" and st: "cu_st c = Plain (classify s)" and x: "seg_char x"
  shows "\<exists>c'. cu_loop ms buf uri_e c = cu_loop ms buf uri_e c' \<and> cu_at buf uri_e c' ys \<and>
     cu_st c' = Plain (classify (s @ [x])) \<and> cu_out c' = cu_out c @ [x]"
proof -
  note hd = cu_at_hd [OF at]
  have "\<exists>c1. cu_switch ms buf c (cu_st c) = cu_next buf c1 \<and> cu_ch c1 = cu_ch c \<and> cu_p c1 = cu_p c \<and>
     cu_st c1 = Plain (classify (s @ [x])) \<and> cu_out c1 = cu_out c @ [x]"
    using st x hd
    by (auto simp: classify_def seg_char_def cu_sw_usual_def cu_sw_slash_def cu_sw_dot_def
        cu_sw_dot_dot_def Let_def cu_put_def usual_iff split: if_splits)
  then obtain c1 where c1: "cu_switch ms buf c (cu_st c) = cu_next buf c1" "cu_ch c1 = cu_ch c"
    "cu_p c1 = cu_p c" "cu_st c1 = Plain (classify (s @ [x]))" "cu_out c1 = cu_out c @ [x]" by blast
  let ?c' = "c1\<lparr>cu_ch := buf ! cu_p c, cu_p := Suc (cu_p c)\<rparr>"
  have "cu_loop ms buf uri_e c = cu_loop ms buf uri_e ?c'"
    using hd c1 cu_at_next(1) [OF at c1(2,3)] by (intro cu_loop_Next) auto
  with c1 cu_at_next(2) [OF at c1(2,3)] show ?thesis by (intro exI [of _ ?c']) auto
qed

lemma cu_seg:
  assumes "cu_at buf uri_e c (s @ ys)" and "cu_st c = Plain cu_slash" and "list_all seg_char s"
  shows "\<exists>c'. cu_loop ms buf uri_e c = cu_loop ms buf uri_e c' \<and> cu_at buf uri_e c' ys \<and>
     cu_st c' = Plain (classify s) \<and> cu_out c' = cu_out c @ s"
  using assms
proof (induction s arbitrary: ys rule: rev_induct)
  case Nil
  then show ?case by (auto simp: classify_def)
next
  case (snoc x s)
  obtain c1 where c1: "cu_loop ms buf uri_e c = cu_loop ms buf uri_e c1" "cu_at buf uri_e c1 (x # ys)"
    "cu_st c1 = Plain (classify s)" "cu_out c1 = cu_out c @ s"
    using snoc.IH [of "x # ys"] snoc.prems by auto
  from cu_seg_step [OF c1(2,3), of ms] snoc.prems(3) c1 show ?case by auto
qed

lemma cu_back_hit:
  assumes "out ! j = CHR ''/''" "j \<le> k" "\<And>i. j < i \<Longrightarrow> i \<le> k \<Longrightarrow> out ! i \<noteq> CHR ''/''"
  shows "cu_back out k = Some (take (Suc j) out)"
  using assms
proof (induction k)
  case (Suc k)
  show ?case
  proof (cases "j = Suc k")
    case True
    with Suc.prems show ?thesis by simp
  next
    case False
    with Suc.prems have "j \<le> k" "out ! Suc k \<noteq> CHR ''/''" by auto
    with Suc show ?thesis by simp
  qed
qed simp

lemma cu_up_dir:
  assumes "d \<noteq> []" "list_all seg_char d"
  shows "cu_up (a @ CHR ''/'' # d @ ''/..'') = Some (a @ ''/'')"
proof -
  let ?o = "a @ CHR ''/'' # d @ ''/..''"
  have k: "length ?o - 5 = length a + length d - 1" "\<not> length ?o < 5"
    using assms(1) by (cases d; simp)+
  have "cu_back ?o (length a + length d - 1) = Some (take (Suc (length a)) ?o)"
  proof (rule cu_back_hit)
    fix i assume i: "length a < i" "i \<le> length a + length d - 1"
    then have "i - length a - 1 < length d" using assms(1) by (cases d) auto
    then have "?o ! i = d ! (i - length a - 1)"
      using i by (simp add: nth_append nth_Cons')
    with \<open>i - length a - 1 < length d\<close> assms(2) show "?o ! i \<noteq> CHR ''/''"
      by (auto simp: list_all_length seg_char_def)
  qed (use assms(1) in \<open>cases d; simp\<close>)+
  then show ?thesis using k by (simp add: cu_up_def)
qed

lemma path_of_snoc: "path_of (xs @ [d]) = path_of xs @ CHR ''/'' # d"
  by (simp add: path_of_def)

lemma cu_dir:
  assumes at: "cu_at buf uri_e c (s @ CHR ''/'' # ys)" and st: "cu_st c = Plain cu_slash"
    and s: "s \<noteq> []" "list_all seg_char s"
    and out: "cu_out c = path_of (rev acc) @ ''/''" and acc: "\<forall>d \<in> set acc. d \<noteq> [] \<and> list_all seg_char d"
  shows "case remove_dots acc [s] of
     None \<Rightarrow> \<exists>c'. cu_loop ms buf uri_e c = CuReturn NGX_HTTP_PARSE_INVALID_REQUEST c'
   | Some acc' \<Rightarrow> \<exists>c'. cu_loop ms buf uri_e c = cu_loop ms buf uri_e c' \<and> cu_at buf uri_e c' ys \<and>
       cu_st c' = Plain cu_slash \<and> cu_out c' = path_of (rev acc') @ ''/''"
proof -
  obtain c1 where c1: "cu_loop ms buf uri_e c = cu_loop ms buf uri_e c1" "cu_at buf uri_e c1 (CHR ''/'' # ys)"
    "cu_st c1 = Plain (classify s)" "cu_out c1 = path_of (rev acc) @ ''/'' @ s"
    using cu_seg [OF at st s(2), of ms] out by auto
  note hd = cu_at_hd [OF c1(2)]
  have step: "\<exists>c'. cu_loop ms buf uri_e c1 = cu_loop ms buf uri_e c' \<and> cu_at buf uri_e c' ys \<and>
       cu_st c' = Plain cu_slash \<and> cu_out c' = o'"
    if "cu_switch ms buf c1 (cu_st c1) = cu_next buf c2" "cu_ch c2 = cu_ch c1" "cu_p c2 = cu_p c1"
      "cu_st c2 = Plain cu_slash" "cu_out c2 = o'" for c2 o'
    using that hd cu_loop_Next [of c1 uri_e ms buf] cu_at_next [OF c1(2) that(2,3)]
    by (intro exI [of _ "c2\<lparr>cu_ch := buf ! cu_p c1, cu_p := Suc (cu_p c1)\<rparr>"]) auto
  show ?thesis
  proof (cases "s = ''..''")
    case dd: True
    show ?thesis
    proof (cases acc)
      case Nil
      then have "cu_up (cu_out c1) = None" using c1(4) dd by (simp add: cu_up_def path_of_def)
      then show ?thesis using dd Nil hd c1
        by (simp add: cu_loop.simps [of ms buf uri_e c1] classify_def cu_sw_dot_dot_def usual_iff)
    next
      case (Cons d acc')
      have "cu_up (cu_out c1) = Some (path_of (rev acc') @ ''/'')"
        using cu_up_dir [of d "path_of (rev acc')"] acc c1(4) dd Cons by (simp add: path_of_snoc)
      then show ?thesis using dd Cons hd c1
        step [of "c1\<lparr>cu_st := Plain cu_slash, cu_out := path_of (rev acc') @ ''/''\<rparr>"]
        by (simp add: classify_def cu_sw_dot_dot_def usual_iff)
    qed
  next
    case nd: False
    show ?thesis
    proof (cases "s = ''.''")
      case True
      then show ?thesis using hd c1
        step [of "c1\<lparr>cu_st := Plain cu_slash, cu_out := butlast (cu_out c1)\<rparr>"]
        by (simp add: classify_def cu_sw_dot_def usual_iff butlast_append)
    next
      case False
      with nd s(1) show ?thesis using hd c1
        step [of "cu_put (c1\<lparr>cu_uri_ext := None, cu_st := Plain cu_slash\<rparr>)"]
        by (simp add: classify_def cu_sw_usual_def usual_iff cu_put_def path_of_snoc)
    qed
  qed
qed

lemma remove_dots_Cons: "remove_dots acc (s # ss) = Option.bind (remove_dots acc [s]) (\<lambda>a. remove_dots a ss)"
  by (auto split: list.splits)

lemma remove_dots_segs:
  "remove_dots acc ss = Some acc' \<Longrightarrow> set acc' \<subseteq> set acc \<union> set ss"
  by (induction acc ss rule: remove_dots.induct) (force split: if_splits list.splits)+

lemma cu_dirs:
  assumes "cu_at buf uri_e c (concat (map (\<lambda>s. s @ ''/'') segs) @ ys)" and "cu_st c = Plain cu_slash"
    and "\<forall>s \<in> set segs. s \<noteq> [] \<and> list_all seg_char s"
    and "cu_out c = path_of (rev acc) @ ''/''" and "\<forall>d \<in> set acc. d \<noteq> [] \<and> list_all seg_char d"
  shows "case remove_dots acc segs of
     None \<Rightarrow> \<exists>c'. cu_loop ms buf uri_e c = CuReturn NGX_HTTP_PARSE_INVALID_REQUEST c'
   | Some acc' \<Rightarrow> \<exists>c'. cu_loop ms buf uri_e c = cu_loop ms buf uri_e c' \<and> cu_at buf uri_e c' ys \<and>
       cu_st c' = Plain cu_slash \<and> cu_out c' = path_of (rev acc') @ ''/''"
  using assms
proof (induction segs arbitrary: c acc)
  case Nil
  then show ?case by auto
next
  case (Cons s segs)
  let ?ys = "concat (map (\<lambda>s. s @ ''/'') segs) @ ys"
  have d: "case remove_dots acc [s] of
     None \<Rightarrow> \<exists>c'. cu_loop ms buf uri_e c = CuReturn NGX_HTTP_PARSE_INVALID_REQUEST c'
   | Some acc' \<Rightarrow> \<exists>c'. cu_loop ms buf uri_e c = cu_loop ms buf uri_e c' \<and> cu_at buf uri_e c' ?ys \<and>
       cu_st c' = Plain cu_slash \<and> cu_out c' = path_of (rev acc') @ ''/''"
    using Cons.prems by (intro cu_dir) auto
  show ?case
  proof (cases "remove_dots acc [s]")
    case None
    with d show ?thesis unfolding remove_dots_Cons [of acc s segs] by simp
  next
    case (Some acc1)
    with d obtain c1 where c1: "cu_loop ms buf uri_e c = cu_loop ms buf uri_e c1" "cu_at buf uri_e c1 ?ys"
       "cu_st c1 = Plain cu_slash" "cu_out c1 = path_of (rev acc1) @ ''/''" by auto
    have "\<forall>d \<in> set acc1. d \<noteq> [] \<and> list_all seg_char d"
      using remove_dots_segs [OF Some] Cons.prems by fastforce
    from Cons.IH [OF c1(2,3) _ c1(4) this] Cons.prems(3)
    show ?thesis unfolding remove_dots_Cons [of acc s segs] Some c1(1) by simp
  qed
qed


lemma path_of_dirs: "path_of (segs @ [lst]) = CHR ''/'' # concat (map (\<lambda>s. s @ ''/'') segs) @ lst"
  by (induction segs) (auto simp: path_of_def)

text \<open>
  C7. On a URI of non-empty directories and a last component, without escapes, query or fragment, the
  parser computes dot-segment removal on the directories, the components that a slash follows: it
  reports an invalid request precisely when some \<open>..\<close> among them would climb above the root, and
  otherwise writes the directories that remain followed by the last component, which is copied
  unchanged also when it is itself \<open>.\<close> or \<open>..\<close> (so \<open>/a/..\<close> and \<open>/..\<close> are accepted as they are).
\<close>

theorem complex_uri_removes_dots:
  assumes segs: "\<forall>s \<in> set segs. s \<noteq> [] \<and> list_all seg_char s" and lst: "list_all seg_char lst"
    and buf: "buf = pre @ path_of (segs @ [lst]) @ z # post"
    and e: "uri_e = length pre + length (path_of (segs @ [lst]))"
  shows "case remove_dots [] segs of
     None \<Rightarrow> \<exists>c. ngx_http_parse_complex_uri r buf (length pre) uri_e ms = Some (NGX_HTTP_PARSE_INVALID_REQUEST, c)
   | Some acc \<Rightarrow> \<exists>c. ngx_http_parse_complex_uri r buf (length pre) uri_e ms = Some (NGX_OK, c) \<and>
       cu_out c = path_of (rev acc @ [lst])"
proof -
  let ?p = "path_of (segs @ [lst])" and ?t = "concat (map (\<lambda>s. s @ ''/'') segs) @ lst"
  let ?c = "cu_start r buf (length pre)"
  have at: "cu_at buf uri_e ?c (CHR ''/'' # ?t)"
    using buf e by (simp add: cu_at_def slice_def path_of_dirs cu_start_def)
  note hd = cu_at_hd [OF at]
  let ?c1 = "cu_put (?c\<lparr>cu_st := Plain cu_slash\<rparr>)"
  let ?c2 = "?c1\<lparr>cu_ch := buf ! cu_p ?c, cu_p := Suc (cu_p ?c)\<rparr>"
  have "cu_switch ms buf ?c (cu_st ?c) = cu_next buf ?c1"
    using hd by (simp add: cu_sw_usual_def usual_iff cu_put_def Let_def cu_start_def)
  then have l: "cu_loop ms buf uri_e ?c = cu_loop ms buf uri_e ?c2"
    using hd cu_at_next(1) [OF at, of ?c1] by (intro cu_loop_Next) (auto simp: cu_put_def)
  have at2: "cu_at buf uri_e ?c2 ?t"
    using cu_at_next(2) [OF at, of ?c1] by (simp add: cu_put_def)
  have out2: "cu_out ?c2 = path_of (rev []) @ ''/''" using hd by (simp add: cu_put_def path_of_def cu_start_def)
  have st2: "cu_st ?c2 = Plain cu_slash" by (simp add: cu_put_def)
  note dirs = cu_dirs [OF at2 st2 segs out2, of ms]
  have pre: "\<not> length buf \<le> length pre" using buf by simp
  show ?thesis
  proof (cases "remove_dots [] segs")
    case None
    with dirs l pre show ?thesis by (auto simp: ngx_http_parse_complex_uri_def)
  next
    case (Some acc)
    with dirs obtain c3 where c3: "cu_loop ms buf uri_e ?c2 = cu_loop ms buf uri_e c3"
      "cu_at buf uri_e c3 (lst @ [])" "cu_st c3 = Plain cu_slash" "cu_out c3 = path_of (rev acc) @ ''/''"
      by auto
    obtain c4 where c4: "cu_loop ms buf uri_e c3 = cu_loop ms buf uri_e c4" "cu_at buf uri_e c4 []"
      "cu_out c4 = path_of (rev acc) @ ''/'' @ lst"
      using cu_seg [OF c3(2,3) lst, of ms] c3(4) by auto
    have "cu_loop ms buf uri_e c4 = CuDone c4"
      using c4(2) by (simp add: cu_at_def cu_loop.simps [of ms buf uri_e c4])
    with l c3(1) c4 Some pre show ?thesis
      by (simp add: ngx_http_parse_complex_uri_def path_of_snoc)
  qed
qed

theorem complex_uri_safe_witness:
  "\<exists>c rc c'. cu_reach True (''/a/../b'' @ [SP]) 7 (cu_start rl_init (''/a/../b'' @ [SP]) 0) c \<and> cu_p c = 2 \<and> length (cu_out c) \<le> 7 \<and>
     ngx_http_parse_complex_uri rl_init (''/a/../b'' @ [SP]) 0 7 True = Some (rc, c') \<and>
     (rc = NGX_HTTP_PARSE_INVALID_REQUEST \<or> rc = NGX_OK \<and> hd (cu_out c') = CHR ''/'')"
proof -
  let ?b = "''/a/../b'' @ [SP]"
  obtain c where "cu_switch True ?b (cu_start rl_init ?b 0) (Plain cu_usual) = CuNext c" "cu_p c = 2"
    by (simp add: cu_start_def cu_sw_usual_def usual_iff cu_next_def cu_put_def)
  then have "cu_reach True ?b 7 (cu_start rl_init ?b 0) c" "cu_p c = 2"
    using cu_reach_step [OF cu_reach_start, of "cu_start rl_init ?b 0" 7 True ?b c] by (simp_all add: cu_start_def)
  with complex_uri_safe [of 0 7 ?b True rl_init] show ?thesis by auto
qed

theorem complex_uri_removes_dots_witness:
  "(\<exists>c. ngx_http_parse_complex_uri rl_init (''/a/./b/../c'' @ [SP]) 0 11 True = Some (NGX_OK, c) \<and>
     cu_out c = ''/a/c'') \<and>
   (\<exists>c. ngx_http_parse_complex_uri rl_init (''/../c'' @ [SP]) 0 5 True =
     Some (NGX_HTTP_PARSE_INVALID_REQUEST, c)) \<and>
   (\<exists>c. ngx_http_parse_complex_uri rl_init (''/a/..'' @ [SP]) 0 5 True = Some (NGX_OK, c) \<and> cu_out c = ''/a/..'')"
  using complex_uri_removes_dots [of "[''a'', ''.'', ''b'', ''..'']" "''c''" _ "[]" SP "[]" 11 rl_init True, OF _ _ refl]
    complex_uri_removes_dots [of "[''..'']" "''c''" _ "[]" SP "[]" 5 rl_init True, OF _ _ refl]
    complex_uri_removes_dots [of "[''a'']" "''..''" _ "[]" SP "[]" 5 rl_init True, OF _ _ refl]
  by (simp add: path_of_def seg_char_def)

end
