(* ===== verification/Ngx_String.thy ===== *)
theory Ngx_String
  imports Prelude "HOL-Library.List_Lexorder" "HOL-Library.Multiset"
begin

text \<open>
  Comparisons, searches, copies and the stable sort of \<open>nginx-master/src/core/ngx_string.c\<close>.
  A zero-terminated string is the list of its bytes; reading at or past the end of the list
  reads the terminator. Positions returned as pointers are offsets.
\<close>

section \<open>Bytes and strings\<close>

definition ngx_tolower :: "char \<Rightarrow> char" where
  "ngx_tolower c = (if CHR ''A'' \<le> c \<and> c \<le> CHR ''Z'' then or20 c else c)"

definition ngx_strlow :: "bytes \<Rightarrow> bytes" where
  "ngx_strlow src = map ngx_tolower src"

text \<open>\<open>*s\<close>\<close>

definition deref :: "bytes \<Rightarrow> char" where
  "deref s = (case s of [] \<Rightarrow> NUL | c # _ \<Rightarrow> c)"

lemma deref_simps [simp]: "deref [] = NUL" "deref (c # s) = c"
  by (simp_all add: deref_def)

fun ngx_strnlen :: "bytes \<Rightarrow> nat \<Rightarrow> nat" where
  "ngx_strnlen p 0 = 0"
| "ngx_strnlen p (Suc n) = (if deref p = NUL then 0 else Suc (ngx_strnlen (tl p) n))"

text \<open>\<open>ngx_cpystrn\<close>: the bytes written to \<open>dst\<close>, with their terminator.\<close>

fun cpystrn_loop :: "bytes \<Rightarrow> nat \<Rightarrow> bytes" where
  "cpystrn_loop src 0 = [NUL]"
| "cpystrn_loop src (Suc n) = (if deref src = NUL then [NUL] else deref src # cpystrn_loop (tl src) n)"

definition ngx_cpystrn :: "bytes \<Rightarrow> nat \<Rightarrow> bytes" where
  "ngx_cpystrn src n = (if n = 0 then [] else cpystrn_loop src (n - 1))"

section \<open>Comparisons\<close>

fun ngx_strncasecmp :: "bytes \<Rightarrow> bytes \<Rightarrow> nat \<Rightarrow> int" where
  "ngx_strncasecmp s1 s2 0 = 0"
| "ngx_strncasecmp s1 s2 (Suc n) =
     (let c1 = ngx_tolower (deref s1); c2 = ngx_tolower (deref s2) in
      if c1 = c2 then (if c1 \<noteq> NUL then ngx_strncasecmp (tl s1) (tl s2) n else 0)
      else int (ord c1) - int (ord c2))"

lemma or20_not_NUL: "or20 c \<noteq> NUL"
  by (cases c) simp

lemma tolower_NUL [simp]: "ngx_tolower c = NUL \<longleftrightarrow> c = NUL"
  by (auto simp: ngx_tolower_def or20_not_NUL less_eq_char_def)

lemma tolower_of_NUL [simp]: "ngx_tolower NUL = NUL"
  by simp

lemma tolower_NUL' [simp]: "NUL = ngx_tolower c \<longleftrightarrow> c = NUL"
  using tolower_NUL [of c] by (auto simp del: tolower_NUL)

lemma deref_not_NUL: "deref s \<noteq> NUL \<Longrightarrow> s \<noteq> []"
  by auto

function ngx_strcasecmp :: "bytes \<Rightarrow> bytes \<Rightarrow> int" where
  "ngx_strcasecmp s1 s2 =
     (let c1 = ngx_tolower (deref s1); c2 = ngx_tolower (deref s2) in
      if c1 = c2 then (if c1 \<noteq> NUL then ngx_strcasecmp (tl s1) (tl s2) else 0)
      else int (ord c1) - int (ord c2))"
  by pat_completeness auto
termination
  by (relation "measure (\<lambda>(s1, s2). length s1)") (auto dest: deref_not_NUL)

definition dns_key :: "char \<Rightarrow> char" where
  "dns_key c = (if c = CHR ''.'' then SP else c)"

function ngx_dns_strcmp :: "bytes \<Rightarrow> bytes \<Rightarrow> int" where
  "ngx_dns_strcmp s1 s2 =
     (let c1 = ngx_tolower (deref s1); c2 = ngx_tolower (deref s2) in
      if c1 = c2 then (if c1 \<noteq> NUL then ngx_dns_strcmp (tl s1) (tl s2) else 0)
      else int (ord (dns_key c1)) - int (ord (dns_key c2)))"
  by pat_completeness auto
termination
  by (relation "measure (\<lambda>(s1, s2). length s1)") (auto dest: deref_not_NUL)

definition slash_key :: "char \<Rightarrow> char" where
  "slash_key c = (if c = CHR ''/'' then NUL else c)"

text \<open>\<open>ngx_filename_cmp\<close> on a file system that distinguishes case.\<close>

fun ngx_filename_cmp :: "bytes \<Rightarrow> bytes \<Rightarrow> nat \<Rightarrow> int" where
  "ngx_filename_cmp s1 s2 0 = 0"
| "ngx_filename_cmp s1 s2 (Suc n) =
     (let c1 = deref s1; c2 = deref s2 in
      if c1 = c2 then (if c1 \<noteq> NUL then ngx_filename_cmp (tl s1) (tl s2) n else 0)
      else if c1 = NUL \<or> c2 = NUL then int (ord c1) - int (ord c2)
      else int (ord (slash_key c1)) - int (ord (slash_key c2)))"

declare ngx_strcasecmp.simps [simp del] ngx_dns_strcmp.simps [simp del]

text \<open>\<open>memcmp\<close> of two blocks of \<open>n\<close> bytes: the sign of the first difference.\<close>

fun ngx_memcmp :: "bytes \<Rightarrow> bytes \<Rightarrow> int" where
  "ngx_memcmp (a # s1) (b # s2) = (if a = b then ngx_memcmp s1 s2 else if a < b then - 1 else 1)"
| "ngx_memcmp s1 s2 = 0"

definition ngx_memn2cmp :: "bytes \<Rightarrow> bytes \<Rightarrow> int" where
  "ngx_memn2cmp s1 s2 =
     (let n1 = length s1; n2 = length s2;
          n = (if n1 \<le> n2 then n1 else n2); z = (if n1 \<le> n2 then - 1 else 1);
          m = ngx_memcmp (take n s1) (take n s2) in
      if m \<noteq> 0 \<or> n1 = n2 then m else z)"

text \<open>\<open>ngx_rstrncmp\<close>: from the last byte to the first, \<open>n\<close> bytes both strings have.\<close>

fun ngx_rstrncmp :: "bytes \<Rightarrow> bytes \<Rightarrow> nat \<Rightarrow> int" where
  "ngx_rstrncmp s1 s2 0 = 0"
| "ngx_rstrncmp s1 s2 (Suc n) =
     (if s1 ! n \<noteq> s2 ! n then int (ord (s1 ! n)) - int (ord (s2 ! n)) else ngx_rstrncmp s1 s2 n)"

section \<open>Searches\<close>

text \<open>\<open>ngx_strlchr(p, last, c)\<close> for the bytes from \<open>p\<close> to \<open>last\<close>: how far from \<open>p\<close> the byte is.\<close>

fun ngx_strlchr :: "bytes \<Rightarrow> char \<Rightarrow> nat option" where
  "ngx_strlchr [] c = None"
| "ngx_strlchr (x # p) c = (if x = c then Some 0 else map_option Suc (ngx_strlchr p c))"

text \<open>
  \<open>ngx_strlcasestrn(s1, last, s2, n)\<close>: \<open>buf\<close> is the memory, \<open>s1\<close> and \<open>last\<close> offsets into it and
  \<open>s2\<close> the pattern, of \<open>n + 1\<close> bytes. The two nested loops advance \<open>s1\<close> by one in every turn.
\<close>

function strlcasestrn_loop :: "bytes \<Rightarrow> nat \<Rightarrow> nat \<Rightarrow> char \<Rightarrow> bytes \<Rightarrow> nat \<Rightarrow> nat option" where
  "strlcasestrn_loop buf s1 lst c2 s2 n =
     (if s1 \<ge> lst then None
      else if ngx_tolower (buf ! s1) \<noteq> c2 then strlcasestrn_loop buf (Suc s1) lst c2 s2 n
      else if ngx_strncasecmp (drop (Suc s1) buf) s2 n \<noteq> 0
      then strlcasestrn_loop buf (Suc s1) lst c2 s2 n
      else Some s1)"
  by pat_completeness auto
termination by (relation "measure (\<lambda>(buf, s1, lst, c2, s2, n). lst - s1)") auto

declare strlcasestrn_loop.simps [simp del]

definition ngx_strlcasestrn :: "bytes \<Rightarrow> nat \<Rightarrow> nat \<Rightarrow> bytes \<Rightarrow> nat \<Rightarrow> nat option" where
  "ngx_strlcasestrn buf s1 lst s2 n =
     strlcasestrn_loop buf s1 (lst - n) (ngx_tolower (deref s2)) (tl s2) n"

section \<open>The stable sort\<close>

text \<open>
  \<open>ngx_sort\<close>: for each element in turn, those before it that compare greater are moved up by one
  and it is put in the gap. When the scratch element cannot be allocated the array is left as it
  was.
\<close>

fun sort_shift :: "('a \<Rightarrow> 'a \<Rightarrow> int) \<Rightarrow> 'a \<Rightarrow> 'a list \<Rightarrow> nat \<Rightarrow> 'a list" where
  "sort_shift cmp p arr 0 = arr[0 := p]"
| "sort_shift cmp p arr (Suc j) =
     (if cmp (arr ! j) p > 0 then sort_shift cmp p (arr[Suc j := arr ! j]) j else arr[Suc j := p])"

definition ngx_sort :: "bool \<Rightarrow> ('a \<Rightarrow> 'a \<Rightarrow> int) \<Rightarrow> 'a list \<Rightarrow> 'a list" where
  "ngx_sort alloc cmp base =
     (if alloc then fold (\<lambda>i arr. sort_shift cmp (arr ! i) arr i) [1..<length base] base else base)"

section \<open>What comparing computes\<close>

definition cstr :: "bytes \<Rightarrow> bytes" where
  "cstr s = takeWhile (\<lambda>c. c \<noteq> NUL) s"

lemma cstr_simps [simp]: "cstr [] = []" "cstr (c # s) = (if c = NUL then [] else c # cstr s)"
  by (simp_all add: cstr_def)

text \<open>
  \<open>ngx_cpystrn\<close> writes at most \<open>n\<close> bytes and, for \<open>n\<close> at least one, a zero-terminated copy
  of the source string cut to \<open>n - 1\<close> bytes; \<open>ngx_strnlen\<close> is the length of that cut.
\<close>

theorem cpystrn_spec:
  "ngx_cpystrn src n = (if n = 0 then [] else take (n - 1) (cstr src) @ [NUL]) \<and>
   length (ngx_cpystrn src n) \<le> n \<and> ngx_strnlen src n = length (take n (cstr src))"
proof -
  have loop: "cpystrn_loop src m = take m (cstr src) @ [NUL]" for m
    by (induction src m rule: cpystrn_loop.induct) (auto simp: deref_def split: list.splits)
  have "ngx_strnlen src n = length (take n (cstr src))"
    by (induction src n rule: ngx_strnlen.induct) (auto simp: deref_def split: list.splits)
  then show ?thesis by (auto simp: ngx_cpystrn_def loop)
qed

lemma ord_zero [simp]: "ord c = 0 \<longleftrightarrow> c = NUL"
  by (cases c) auto

lemma ord_pos [simp]: "0 < ord c \<longleftrightarrow> c \<noteq> NUL"
  by (metis bot_nat_0.not_eq_extremum ord_zero)

lemma strncasecmp_zero_iff:
  "ngx_strncasecmp s1 s2 n = 0 \<longleftrightarrow> ngx_strlow (take n (cstr s1)) = ngx_strlow (take n (cstr s2))"
proof (induction s1 s2 n rule: ngx_strncasecmp.induct)
  case (2 s1 s2 n)
  then show ?case
    by (cases s1; cases s2) (auto simp: ngx_strlow_def Let_def)
qed (simp add: ngx_strlow_def)

section \<open>Sorting with a comparison function\<close>

text \<open>
  What a comparison passed to \<open>ngx_sort\<close> has to promise: on the values it is used for, to be a total
  preorder gives a sorted result, and greater being the converse of less a stable one.
\<close>

locale sort_order =
  fixes cmp :: "'a \<Rightarrow> 'a \<Rightarrow> int" and dom :: "'a \<Rightarrow> bool"
  assumes cmp_total: "dom x \<Longrightarrow> dom y \<Longrightarrow> cmp x y > 0 \<Longrightarrow> cmp y x \<le> 0"
    and cmp_trans: "dom x \<Longrightarrow> dom y \<Longrightarrow> dom z \<Longrightarrow> cmp x y \<le> 0 \<Longrightarrow> cmp y z \<le> 0 \<Longrightarrow> cmp x z \<le> 0"

locale comparison = sort_order +
  assumes cmp_conv: "dom x \<Longrightarrow> dom y \<Longrightarrow> cmp x y > 0 \<longleftrightarrow> cmp y x < 0"

text \<open>The insertion from the right that a shift amounts to, on the reversed sorted prefix.\<close>

fun insert_right :: "('a \<Rightarrow> 'a \<Rightarrow> int) \<Rightarrow> 'a \<Rightarrow> 'a list \<Rightarrow> 'a list" where
  "insert_right cmp p [] = [p]"
| "insert_right cmp p (x # xs) = (if cmp x p > 0 then x # insert_right cmp p xs else p # x # xs)"

lemma sort_shift_eq:
  "j < length arr \<Longrightarrow>
     sort_shift cmp p arr j = rev (insert_right cmp p (rev (take j arr))) @ drop (Suc j) arr"
proof (induction j arbitrary: arr)
  case 0
  then show ?case by (cases arr) auto
next
  case (Suc j)
  have t: "rev (take (Suc j) arr) = arr ! j # rev (take j arr)"
    using Suc.prems by (simp add: take_Suc_conv_app_nth)
  have d: "drop (Suc j) (arr[Suc j := arr ! j]) = arr ! j # drop (Suc (Suc j)) arr"
    using Suc.prems by (simp add: drop_update_swap Cons_nth_drop_Suc [symmetric])
  show ?case
  proof (cases "cmp (arr ! j) p > 0")
    case True
    with Suc show ?thesis by (simp add: t d)
  next
    case False
    with Suc.prems show ?thesis by (simp add: t upd_conv_take_nth_drop take_Suc_conv_app_nth)
  qed
qed

definition insertion_sort :: "('a \<Rightarrow> 'a \<Rightarrow> int) \<Rightarrow> 'a list \<Rightarrow> 'a list" where
  "insertion_sort cmp = foldl (\<lambda>acc p. rev (insert_right cmp p (rev acc))) []"

lemma length_insert_right [simp]: "length (insert_right cmp p xs) = Suc (length xs)"
  by (induction xs) auto

lemma insertion_sort_simps:
  "insertion_sort cmp [] = []"
  "insertion_sort cmp (xs @ [x]) = rev (insert_right cmp x (rev (insertion_sort cmp xs)))"
  by (simp_all add: insertion_sort_def)

lemma length_insertion_sort [simp]: "length (insertion_sort cmp xs) = length xs"
  by (induction xs rule: rev_induct) (simp_all add: insertion_sort_simps)

lemma ngx_sort_loop:
  "k < length xs \<Longrightarrow> fold (\<lambda>i arr. sort_shift cmp (arr ! i) arr i) [1..<Suc k] xs =
     insertion_sort cmp (take (Suc k) xs) @ drop (Suc k) xs"
proof (induction k)
  case 0
  then show ?case by (cases xs) (simp_all add: insertion_sort_def)
next
  case (Suc k)
  let ?a = "insertion_sort cmp (take (Suc k) xs) @ drop (Suc k) xs"
  have a: "?a ! Suc k = xs ! Suc k" using Suc.prems by (simp add: nth_append)
  have "take (Suc (Suc k)) xs = take (Suc k) xs @ [xs ! Suc k]"
    using Suc.prems by (simp add: take_Suc_conv_app_nth)
  then have "insertion_sort cmp (take (Suc (Suc k)) xs) =
      rev (insert_right cmp (xs ! Suc k) (rev (insertion_sort cmp (take (Suc k) xs))))"
    by (simp add: insertion_sort_def)
  moreover have "sort_shift cmp (xs ! Suc k) ?a (Suc k) =
      rev (insert_right cmp (xs ! Suc k) (rev (insertion_sort cmp (take (Suc k) xs)))) @ drop (Suc (Suc k)) xs"
    using Suc.prems by (subst sort_shift_eq) simp_all
  moreover have "[1..<Suc (Suc k)] = [1..<Suc k] @ [Suc k]" by simp
  moreover have "fold (\<lambda>i arr. sort_shift cmp (arr ! i) arr i) [1..<Suc k] xs = ?a"
    using Suc by simp
  ultimately show ?case using a by (simp del: upt_Suc sort_shift.simps)
qed

lemma ngx_sort_eq: "ngx_sort True cmp xs = insertion_sort cmp xs"
proof (cases xs)
  case (Cons y ys)
  then show ?thesis using ngx_sort_loop [of "length ys" xs cmp] by (simp add: ngx_sort_def)
qed (simp add: ngx_sort_def insertion_sort_def)

lemma mset_insert_right [simp]: "mset (insert_right cmp p xs) = add_mset p (mset xs)"
  by (induction xs) auto

lemma set_insert_right [simp]: "set (insert_right cmp p xs) = insert p (set xs)"
  by (induction xs) auto

lemma mset_insertion_sort [simp]: "mset (insertion_sort cmp xs) = mset xs"
  by (induction xs rule: rev_induct) (simp_all add: insertion_sort_def)

lemma set_insertion_sort [simp]: "set (insertion_sort cmp xs) = set xs"
  using mset_insertion_sort [of cmp xs] by (metis set_mset_mset)

context sort_order
begin

lemma insert_right_sorted:
  assumes "sorted_wrt (\<lambda>x y. cmp y x \<le> 0) xs" "dom p" "\<forall>x\<in>set xs. dom x"
  shows "sorted_wrt (\<lambda>x y. cmp y x \<le> 0) (insert_right cmp p xs)"
  using assms
proof (induction xs)
  case (Cons x xs)
  show ?case
  proof (cases "cmp x p > 0")
    case True
    then have "cmp p x \<le> 0" using cmp_total [of x p] Cons.prems by simp
    with True Cons show ?thesis by simp
  next
    case False
    then have "cmp y p \<le> 0" if "y \<in> set (x # xs)" for y
      using that Cons.prems cmp_trans [of y x p] by auto
    with False Cons show ?thesis by simp
  qed
qed simp

lemma insertion_sort_sorted:
  "\<forall>x\<in>set xs. dom x \<Longrightarrow> sorted_wrt (\<lambda>x y. cmp x y \<le> 0) (insertion_sort cmp xs)"
proof (induction xs rule: rev_induct)
  case (snoc x xs)
  then have "sorted_wrt (\<lambda>x y. cmp y x \<le> 0) (insert_right cmp x (rev (insertion_sort cmp xs)))"
    by (intro insert_right_sorted) (simp_all add: sorted_wrt_rev)
  then show ?case by (simp add: insertion_sort_simps sorted_wrt_rev)
qed (simp add: insertion_sort_simps)

end

context comparison
begin

text \<open>Elements that compare equal to \<open>a\<close> keep their order.\<close>

lemma insert_right_stable:
  assumes "dom a" "dom p" "\<forall>x\<in>set xs. dom x"
  shows "filter (\<lambda>x. cmp x a = 0) (insert_right cmp p xs) =
     (if cmp p a = 0 then [p] else []) @ filter (\<lambda>x. cmp x a = 0) xs"
  using assms
proof (induction xs)
  case (Cons x xs)
  have "\<not> (cmp x a = 0 \<and> cmp p a = 0)" if "cmp x p > 0"
  proof
    assume eq: "cmp x a = 0 \<and> cmp p a = 0"
    then have "cmp a p \<le> 0" using cmp_conv [of a p] Cons.prems by simp
    with eq have "cmp x p \<le> 0" using cmp_trans [of x a p] Cons.prems by simp
    with that show False by simp
  qed
  with Cons show ?case by auto
qed simp

lemma insertion_sort_stable:
  assumes "dom a" "\<forall>x\<in>set xs. dom x"
  shows "filter (\<lambda>x. cmp x a = 0) (insertion_sort cmp xs) = filter (\<lambda>x. cmp x a = 0) xs"
  using assms(2)
proof (induction xs rule: rev_induct)
  case (snoc x xs)
  then show ?case using assms(1) insert_right_stable [of a x "rev (insertion_sort cmp xs)"]
    by (simp add: insertion_sort_simps rev_filter [symmetric])
qed (simp add: insertion_sort_simps)

lemma sort_correct:
  assumes "\<forall>x\<in>set xs. dom x" "dom a"
  shows "sorted_wrt (\<lambda>x y. cmp x y \<le> 0) (ngx_sort True cmp xs) \<and>
     mset (ngx_sort True cmp xs) = mset xs \<and>
     filter (\<lambda>x. cmp x a = 0) (ngx_sort True cmp xs) = filter (\<lambda>x. cmp x a = 0) xs"
  using assms by (simp add: ngx_sort_eq insertion_sort_sorted insertion_sort_stable)

end

section \<open>The orders nginx sorts by\<close>

text \<open>Server names: no terminator and no space inside.\<close>

definition dns_name :: "bytes \<Rightarrow> bool" where
  "dns_name s \<longleftrightarrow> NUL \<notin> set s \<and> SP \<notin> set s"

definition dns_keys :: "bytes \<Rightarrow> char list" where
  "dns_keys s = map (\<lambda>c. dns_key (ngx_tolower c)) s"

lemma ord_less: "(int (ord a) - int (ord b) < 0) \<longleftrightarrow> a < b" "(int (ord a) - int (ord b) \<le> 0) \<longleftrightarrow> a \<le> b"
  "(int (ord a) - int (ord b) > 0) \<longleftrightarrow> b < a"
  by (simp_all add: less_char_def less_eq_char_def)

lemma tolower_not_SP: "ngx_tolower c = SP \<longleftrightarrow> c = SP"
proof (cases c)
  case (Char b0 b1 b2 b3 b4 b5 b6 b7)
  then show ?thesis
    by (cases b0; cases b1; cases b2; cases b3; cases b4; cases b5; cases b6; cases b7)
      (simp_all add: ngx_tolower_def)
qed

lemma dns_key_inj: "a \<noteq> SP \<Longrightarrow> b \<noteq> SP \<Longrightarrow> dns_key a = dns_key b \<longleftrightarrow> a = b"
  by (auto simp: dns_key_def)

lemma NUL_less_dns_key: "c \<noteq> NUL \<Longrightarrow> NUL < dns_key c"
  by (auto simp: dns_key_def less_char_def)

lemma dns_strcmp_simps:
  "ngx_dns_strcmp [] [] = 0"
  "b \<noteq> NUL \<Longrightarrow> ngx_dns_strcmp [] (b # z) = - int (ord (dns_key (ngx_tolower b)))"
  "a \<noteq> NUL \<Longrightarrow> ngx_dns_strcmp (a # x) [] = int (ord (dns_key (ngx_tolower a)))"
  "a \<noteq> NUL \<Longrightarrow> ngx_dns_strcmp (a # x) (b # z) =
     (if ngx_tolower a = ngx_tolower b then ngx_dns_strcmp x z
      else int (ord (dns_key (ngx_tolower a))) - int (ord (dns_key (ngx_tolower b))))"
  by (subst ngx_dns_strcmp.simps, simp add: dns_key_def)+

lemma dns_strcmp_lex:
  assumes "dns_name x" "dns_name y"
  shows "ngx_dns_strcmp x y < 0 \<longleftrightarrow> dns_keys x < dns_keys y"
    and "ngx_dns_strcmp x y > 0 \<longleftrightarrow> dns_keys y < dns_keys x"
proof -
  have "(ngx_dns_strcmp x y < 0 \<longleftrightarrow> dns_keys x < dns_keys y) \<and>
        (ngx_dns_strcmp x y > 0 \<longleftrightarrow> dns_keys y < dns_keys x)"
    using assms
  proof (induction x arbitrary: y)
    case Nil
    then show ?case
      by (cases y) (auto simp: dns_strcmp_simps dns_name_def dns_keys_def dns_key_def)
  next
    case (Cons a x)
    then have a: "a \<noteq> NUL" "a \<noteq> SP" "dns_name x" by (auto simp: dns_name_def)
    show ?case
    proof (cases y)
      case Nil
      with a show ?thesis
        by (auto simp: dns_strcmp_simps dns_keys_def dns_key_def)
    next
      case (Cons b z)
      then have b: "b \<noteq> NUL" "b \<noteq> SP" "dns_name z" using \<open>dns_name y\<close> by (auto simp: dns_name_def)
      show ?thesis
      proof (cases "ngx_tolower a = ngx_tolower b")
        case True
        then show ?thesis using Cons.IH [OF a(3) b(3)] a b Cons
          by (simp add: dns_strcmp_simps dns_keys_def)
      next
        case False
        then have "dns_key (ngx_tolower a) \<noteq> dns_key (ngx_tolower b)"
          using a b by (simp add: dns_key_inj tolower_not_SP)
        then show ?thesis using False a Cons
          by (auto simp: dns_strcmp_simps dns_keys_def less_char_def)
      qed
    qed
  qed
  then show "ngx_dns_strcmp x y < 0 \<longleftrightarrow> dns_keys x < dns_keys y"
    and "ngx_dns_strcmp x y > 0 \<longleftrightarrow> dns_keys y < dns_keys x" by simp_all
qed

interpretation dns: comparison ngx_dns_strcmp dns_name
proof
  fix x y assume "dns_name x" "dns_name y"
  then show conv: "ngx_dns_strcmp x y > 0 \<longleftrightarrow> ngx_dns_strcmp y x < 0"
    by (simp add: dns_strcmp_lex)
  show "ngx_dns_strcmp x y > 0 \<Longrightarrow> ngx_dns_strcmp y x \<le> 0" using conv by simp
next
  fix x y z assume d: "dns_name x" "dns_name y" "dns_name z"
  have le: "ngx_dns_strcmp u v \<le> 0 \<longleftrightarrow> dns_keys u \<le> dns_keys v" if "dns_name u" "dns_name v" for u v
    using dns_strcmp_lex(2) [OF that] by (simp add: not_less [symmetric])
  assume "ngx_dns_strcmp x y \<le> 0" "ngx_dns_strcmp y z \<le> 0"
  then show "ngx_dns_strcmp x z \<le> 0" using d by (auto simp: le)
qed

text \<open>
  Sorting server names with \<open>ngx_dns_strcmp\<close>, as the wildcard tables are built, gives the
  names in the order of \<open>ngx_dns_strcmp\<close>, loses and invents none, and keeps the order of names
  that differ in case only: the sort is stable, which its comment asks for.
\<close>

theorem sort_dns_names:
  assumes "\<forall>s\<in>set names. dns_name s" "dns_name a"
  shows "sorted_wrt (\<lambda>x y. ngx_dns_strcmp x y \<le> 0) (ngx_sort True ngx_dns_strcmp names) \<and>
     mset (ngx_sort True ngx_dns_strcmp names) = mset names \<and>
     filter (\<lambda>x. ngx_dns_strcmp x a = 0) (ngx_sort True ngx_dns_strcmp names) =
       filter (\<lambda>x. ngx_dns_strcmp x a = 0) names"
  by (rule dns.sort_correct [OF assms])

theorem sort_dns_names_witness:
  "mset (ngx_sort True ngx_dns_strcmp [''b.c'', ''a'', ''B.C'']) = mset [''b.c'', ''a'', ''B.C'']"
  using sort_dns_names [of "[''b.c'', ''a'', ''B.C'']" "''a''"] by (simp add: dns_name_def)

lemma memcmp_lex:
  "length s = length t \<Longrightarrow>
     (ngx_memcmp s t < 0 \<longleftrightarrow> s < t) \<and> (ngx_memcmp s t = 0 \<longleftrightarrow> s = t) \<and> (ngx_memcmp s t > 0 \<longleftrightarrow> t < s)"
  by (induction s t rule: ngx_memcmp.induct) auto

lemma take_eq_less: "length s < length t \<Longrightarrow> s = take (length s) t \<Longrightarrow> s < t"
proof (induction s arbitrary: t)
  case Nil
  then show ?case by (cases t) auto
next
  case (Cons a s)
  then show ?case by (cases t) auto
qed

lemma less_take_iff:
  "length s \<le> length t \<Longrightarrow> s \<noteq> take (length s) t \<Longrightarrow>
     (s < take (length s) t \<longleftrightarrow> s < t) \<and> (take (length s) t < s \<longleftrightarrow> t < s)"
proof (induction s arbitrary: t)
  case (Cons a s)
  then show ?case by (cases t) auto
qed simp

text \<open>
  \<open>ngx_memn2cmp\<close>, which orders the keys of the cache and session trees, is the lexicographic
  order of the byte strings, so it is a total order and answers zero for equal keys only.
\<close>

theorem memn2cmp_lex:
  "(ngx_memn2cmp s t < 0 \<longleftrightarrow> s < t) \<and> (ngx_memn2cmp s t = 0 \<longleftrightarrow> s = t) \<and> (ngx_memn2cmp s t > 0 \<longleftrightarrow> t < s)"
proof (cases "length s \<le> length t")
  case True
  then have m: "ngx_memn2cmp s t = (let m = ngx_memcmp s (take (length s) t) in
      if m \<noteq> 0 \<or> length s = length t then m else - 1)"
    by (simp only: ngx_memn2cmp_def Let_def if_True take_all order_refl)
  have c: "length s = length (take (length s) t)" using True by simp
  show ?thesis
  proof (cases "s = take (length s) t")
    case eq: True
    then have z: "ngx_memcmp s (take (length s) t) = 0" using memcmp_lex [OF c] by metis
    have "s = t \<and> length s = length t \<or> s < t \<and> length s \<noteq> length t"
    proof (cases "length s = length t")
      case True
      then have "take (length s) t = t" by simp
      with eq True show ?thesis by metis
    next
      case len: False
      then have "length s < length t" using True by linarith
      with take_eq_less [OF this eq] len show ?thesis by blast
    qed
    then show ?thesis using m z by (auto simp: Let_def)
  next
    case False
    then have "ngx_memcmp s (take (length s) t) \<noteq> 0" using memcmp_lex [OF c] by blast
    then have "ngx_memn2cmp s t = ngx_memcmp s (take (length s) t)" using m by (simp add: Let_def)
    moreover have "s \<noteq> t" using False by (metis take_all order_refl)
    ultimately show ?thesis
      using memcmp_lex [OF c] less_take_iff [OF True False] False by presburger
  qed
next
  case False
  then have le: "length t \<le> length s" "length t < length s" by simp_all
  have m: "ngx_memn2cmp s t = (let m = ngx_memcmp (take (length t) s) t in if m \<noteq> 0 then m else 1)"
    using False le(2) by (simp only: ngx_memn2cmp_def Let_def if_False take_all order_refl) simp
  have c: "length (take (length t) s) = length t" using le by simp
  show ?thesis
  proof (cases "t = take (length t) s")
    case eq: True
    then have "ngx_memcmp (take (length t) s) t = 0" using memcmp_lex [OF c] by metis
    moreover have "t < s" using le(2) eq by (rule take_eq_less)
    ultimately show ?thesis using m by (auto simp: Let_def)
  next
    case neq: False
    then have "ngx_memcmp (take (length t) s) t \<noteq> 0" using memcmp_lex [OF c] by metis
    then have "ngx_memn2cmp s t = ngx_memcmp (take (length t) s) t" using m by (simp add: Let_def)
    moreover have "s \<noteq> t" using le by auto
    ultimately show ?thesis
      using memcmp_lex [OF c] less_take_iff [OF le(1) neq] neq by metis
  qed
qed

section \<open>Searching a byte\<close>

lemma strlchr_append:
  "c \<notin> set xs \<Longrightarrow> ngx_strlchr (xs @ ys) c = map_option (\<lambda>k. length xs + k) (ngx_strlchr ys c)"
  by (cases "ngx_strlchr ys c") (induction xs; auto)+

lemma strlchr_none: "c \<notin> set xs \<Longrightarrow> ngx_strlchr xs c = None"
  by (induction xs) auto

lemma strlchr_find:
  "case ngx_strlchr xs c of None \<Rightarrow> c \<notin> set xs | Some k \<Rightarrow> k < length xs \<and> xs ! k = c \<and> c \<notin> set (take k xs)"
  by (induction xs) (auto split: option.splits)

end
