(* ===== verification/Http_Header_Line.thy ===== *)
theory Http_Header_Line
  imports Ngx_String
begin

text \<open>
  The header-line parser \<open>ngx_http_parse_header_line\<close> of
  \<open>nginx-master/src/http/ngx_http_parse.c\<close>, used for client headers and for the headers of
  upstream responses. \<open>hl_hash\<close> and \<open>hl_i\<close> are its locals \<open>hash\<close> and \<open>i\<close>; the fields
  \<open>header_hash\<close> and \<open>lowcase_index\<close> are the ones of the request they are loaded from and saved to.
\<close>

section \<open>Data\<close>

datatype hl_state =
    hl_start | hl_name | hl_space_before_value | hl_value | hl_space_after_value
  | hl_ignore_line | hl_almost_done | hl_header_almost_done

datatype hl_label = hl_done | hl_header_done

record hl_request =
  hl_st :: hl_state
  header_hash :: "64 word"
  lowcase_index :: nat
  lowcase_header :: bytes
  header_name_start :: "nat option"
  header_name_end :: "nat option"
  header_start :: "nat option"
  header_end :: "nat option"
  invalid_header :: bool
  upstream :: bool
  hl_hash :: "64 word"
  hl_i :: nat

abbreviation NGX_HTTP_LC_HEADER_LEN :: nat where "NGX_HTTP_LC_HEADER_LEN \<equiv> 32"

abbreviation HL_INVALID_HEADER :: ngx_int where "HL_INVALID_HEADER \<equiv> 14"
abbreviation HL_HEADER_DONE :: ngx_int where "HL_HEADER_DONE \<equiv> 1"

type_synonym hl_out = "(hl_state, hl_request, hl_label) sw"

text \<open>The table \<open>lowcase\<close>: letters in lower case, digits and the hyphen, 0 for the rest.\<close>

definition lowcase :: "char \<Rightarrow> char" where
  "lowcase ch =
     (if CHR ''A'' \<le> ch \<and> ch \<le> CHR ''Z'' then or20 ch
      else if CHR ''a'' \<le> ch \<and> ch \<le> CHR ''z'' \<or> digit ch \<or> ch = CHR ''-'' then ch
      else NUL)"

text \<open>\<open>ngx_hash(key, c)\<close>: \<open>key * 31 + c\<close> on \<open>ngx_uint_t\<close>.\<close>

definition ngx_hash :: "64 word \<Rightarrow> char \<Rightarrow> 64 word" where
  "ngx_hash key c = key * 31 + of_nat (ord c)"

section \<open>The cases of the switch\<close>

text \<open>The first character of a name: \<open>hash = ngx_hash(0, c); r->lowcase_header[0] = c; i = 1\<close>.\<close>

definition hl_first_char :: "char \<Rightarrow> hl_request \<Rightarrow> hl_request" where
  "hl_first_char c r =
     r\<lparr>hl_hash := ngx_hash 0 c, lowcase_header := (lowcase_header r)[0 := c], hl_i := 1\<rparr>"

text \<open>
  A further character: \<open>hash = ngx_hash(hash, c); r->lowcase_header[i++] = c;
  i &= (NGX_HTTP_LC_HEADER_LEN - 1)\<close>.
\<close>

definition hl_next_char :: "char \<Rightarrow> hl_request \<Rightarrow> hl_request" where
  "hl_next_char c r =
     r\<lparr>hl_hash := ngx_hash (hl_hash r) c, lowcase_header := (lowcase_header r)[hl_i r := c],
       hl_i := Suc (hl_i r) AND (NGX_HTTP_LC_HEADER_LEN - 1)\<rparr>"

definition hl_sw_start :: "bool \<Rightarrow> nat \<Rightarrow> char \<Rightarrow> hl_request \<Rightarrow> hl_out" where
  "hl_sw_start allow_underscores p ch r0 =
     (let r = r0\<lparr>header_name_start := Some p, invalid_header := False\<rparr> in
      if ch = CR then Break hl_header_almost_done (r\<lparr>header_end := Some p\<rparr>)
      else if ch = LF then Goto hl_header_done (r\<lparr>header_end := Some p\<rparr>)
      else
        (let c = lowcase ch in
         if c \<noteq> NUL then Break hl_name (hl_first_char c r)
         else if ch = CHR ''_'' then
           Break hl_name (if allow_underscores then hl_first_char ch r else r\<lparr>invalid_header := True\<rparr>)
         else if ch = NUL then Return HL_INVALID_HEADER r
         else Break hl_name (r\<lparr>invalid_header := True\<rparr>)))"

definition hl_sw_name :: "bytes \<Rightarrow> bool \<Rightarrow> nat \<Rightarrow> char \<Rightarrow> hl_request \<Rightarrow> hl_out" where
  "hl_sw_name buf allow_underscores p ch r =
     (let c = lowcase ch; n = (case header_name_start r of None \<Rightarrow> 0 | Some q \<Rightarrow> q) in
      if c \<noteq> NUL then Break hl_name (hl_next_char c r)
      else if ch = CHR ''_'' then
        Break hl_name (if allow_underscores then hl_next_char ch r else r\<lparr>invalid_header := True\<rparr>)
      else if ch = CHR '':'' then Break hl_space_before_value (r\<lparr>header_name_end := Some p\<rparr>)
      else if ch = CR then
        Break hl_almost_done
          (r\<lparr>header_name_end := Some p, header_start := Some p, header_end := Some p\<rparr>)
      else if ch = LF then
        Goto hl_done (r\<lparr>header_name_end := Some p, header_start := Some p, header_end := Some p\<rparr>)
      else if ch = CHR ''/'' \<and> upstream r \<and> p - n = 4 \<and> slice buf n p = ''HTTP'' then
        Break hl_ignore_line r
      else if ch = NUL then Return HL_INVALID_HEADER r
      else Break hl_name (r\<lparr>invalid_header := True\<rparr>))"

definition hl_sw_space_before_value :: "nat \<Rightarrow> char \<Rightarrow> hl_request \<Rightarrow> hl_out" where
  "hl_sw_space_before_value p ch r =
     (if ch = SP then Break hl_space_before_value r
      else if ch = CR then Break hl_almost_done (r\<lparr>header_start := Some p, header_end := Some p\<rparr>)
      else if ch = LF then Goto hl_done (r\<lparr>header_start := Some p, header_end := Some p\<rparr>)
      else if ch = NUL then Return HL_INVALID_HEADER r
      else Break hl_value (r\<lparr>header_start := Some p\<rparr>))"

definition hl_sw_value :: "nat \<Rightarrow> char \<Rightarrow> hl_request \<Rightarrow> hl_out" where
  "hl_sw_value p ch r =
     (if ch = SP then Break hl_space_after_value (r\<lparr>header_end := Some p\<rparr>)
      else if ch = CR then Break hl_almost_done (r\<lparr>header_end := Some p\<rparr>)
      else if ch = LF then Goto hl_done (r\<lparr>header_end := Some p\<rparr>)
      else if ch = NUL then Return HL_INVALID_HEADER r
      else Break hl_value r)"

definition hl_sw_space_after_value :: "char \<Rightarrow> hl_request \<Rightarrow> hl_out" where
  "hl_sw_space_after_value ch r =
     (if ch = SP then Break hl_space_after_value r
      else if ch = CR then Break hl_almost_done r
      else if ch = LF then Goto hl_done r
      else if ch = NUL then Return HL_INVALID_HEADER r
      else Break hl_value r)"

definition hl_sw_ignore_line :: "char \<Rightarrow> hl_request \<Rightarrow> hl_out" where
  "hl_sw_ignore_line ch r = (if ch = LF then Break hl_start r else Break hl_ignore_line r)"

definition hl_sw_almost_done :: "char \<Rightarrow> hl_request \<Rightarrow> hl_out" where
  "hl_sw_almost_done ch r =
     (if ch = LF then Goto hl_done r
      else if ch = CR then Break hl_almost_done r
      else Return HL_INVALID_HEADER r)"

definition hl_sw_header_almost_done :: "char \<Rightarrow> hl_request \<Rightarrow> hl_out" where
  "hl_sw_header_almost_done ch r =
     (if ch = LF then Goto hl_header_done r else Return HL_INVALID_HEADER r)"

fun hl_body :: "bool \<Rightarrow> bytes \<Rightarrow> nat \<Rightarrow> char \<Rightarrow> hl_state \<Rightarrow> hl_request \<Rightarrow> hl_out" where
  "hl_body au buf p ch hl_start r = hl_sw_start au p ch r"
| "hl_body au buf p ch hl_name r = hl_sw_name buf au p ch r"
| "hl_body au buf p ch hl_space_before_value r = hl_sw_space_before_value p ch r"
| "hl_body au buf p ch hl_value r = hl_sw_value p ch r"
| "hl_body au buf p ch hl_space_after_value r = hl_sw_space_after_value ch r"
| "hl_body au buf p ch hl_ignore_line r = hl_sw_ignore_line ch r"
| "hl_body au buf p ch hl_almost_done r = hl_sw_almost_done ch r"
| "hl_body au buf p ch hl_header_almost_done r = hl_sw_header_almost_done ch r"

text \<open>\<open>r->header_hash = hash; r->lowcase_index = i\<close>\<close>

definition hl_save :: "hl_request \<Rightarrow> hl_request" where
  "hl_save r = r\<lparr>header_hash := hl_hash r, lowcase_index := hl_i r\<rparr>"

definition ngx_http_parse_header_line ::
    "hl_request \<Rightarrow> bytes \<Rightarrow> nat \<Rightarrow> bool \<Rightarrow> ngx_int \<times> hl_request \<times> nat" where
  "ngx_http_parse_header_line r buf pos allow_underscores =
     (let r0 = r\<lparr>hl_hash := header_hash r, hl_i := lowcase_index r\<rparr> in
      case sw_loop (hl_body allow_underscores buf) pos (drop pos buf) (hl_st r) r0 of
        Exhausted p s r' \<Rightarrow> (NGX_AGAIN, hl_save (r'\<lparr>hl_st := s\<rparr>), p)
      | Returned c p r' \<Rightarrow> (c, r', pos)
      | Jumped l p r' \<Rightarrow>
          (case l of
             hl_done \<Rightarrow> (NGX_OK, hl_save (r'\<lparr>hl_st := hl_start\<rparr>), p + 1)
           | hl_header_done \<Rightarrow> (HL_HEADER_DONE, r'\<lparr>hl_st := hl_start\<rparr>, p + 1)))"

text \<open>
  What \<open>ngx_http_process_request_headers\<close> stores of an accepted header line: the element pushed
  to \<open>headers_in.headers\<close>. The lower-case key is copied from \<open>lowcase_header\<close> when the name is as
  long as \<open>lowcase_index\<close> says, and computed by \<open>ngx_strlow\<close> otherwise.
\<close>

record ngx_table_elt =
  elt_hash :: "64 word"
  elt_key :: bytes
  elt_value :: bytes
  elt_lowcase_key :: bytes

definition header_elt :: "bytes \<Rightarrow> hl_request \<Rightarrow> ngx_table_elt" where
  "header_elt buf r =
     (let key = slice buf (the (header_name_start r)) (the (header_name_end r)) in
      \<lparr>elt_hash = header_hash r, elt_key = key,
       elt_value = slice buf (the (header_start r)) (the (header_end r)),
       elt_lowcase_key = (if length key = lowcase_index r then take (length key) (lowcase_header r)
                          else ngx_strlow key)\<rparr>)"

lemmas hl_sw_defs = hl_sw_start_def hl_sw_name_def hl_sw_space_before_value_def hl_sw_value_def
  hl_sw_space_after_value_def hl_sw_ignore_line_def hl_sw_almost_done_def
  hl_sw_header_almost_done_def hl_first_char_def hl_next_char_def Let_def

section \<open>Where the pointers point\<close>

definition hl_base :: "hl_request \<Rightarrow> bool" where
  "hl_base r \<longleftrightarrow> length (lowcase_header r) = NGX_HTTP_LC_HEADER_LEN \<and> hl_i r < NGX_HTTP_LC_HEADER_LEN"

fun hl_inv :: "nat \<Rightarrow> hl_state \<Rightarrow> hl_request \<Rightarrow> bool" where
  "hl_inv p hl_start r \<longleftrightarrow> hl_base r"
| "hl_inv p hl_name r \<longleftrightarrow> hl_base r \<and> (\<exists>a. header_name_start r = Some a \<and> a < p)"
| "hl_inv p hl_space_before_value r \<longleftrightarrow> hl_base r \<and>
     (\<exists>a b. header_name_start r = Some a \<and> header_name_end r = Some b \<and> a < b \<and> b < p)"
| "hl_inv p hl_value r \<longleftrightarrow> hl_base r \<and>
     (\<exists>a b c. header_name_start r = Some a \<and> header_name_end r = Some b \<and> header_start r = Some c
        \<and> a < b \<and> b \<le> c \<and> c < p)"
| "hl_inv p hl_space_after_value r \<longleftrightarrow> hl_base r \<and>
     (\<exists>a b c d. header_name_start r = Some a \<and> header_name_end r = Some b \<and> header_start r = Some c
        \<and> header_end r = Some d \<and> a < b \<and> b \<le> c \<and> c < d \<and> d < p)"
| "hl_inv p hl_ignore_line r \<longleftrightarrow> hl_base r"
| "hl_inv p hl_almost_done r \<longleftrightarrow> hl_base r \<and>
     (\<exists>a b c d. header_name_start r = Some a \<and> header_name_end r = Some b \<and> header_start r = Some c
        \<and> header_end r = Some d \<and> a < b \<and> b \<le> c \<and> c \<le> d \<and> d < p)"
| "hl_inv p hl_header_almost_done r \<longleftrightarrow> hl_base r \<and> (\<exists>d. header_end r = Some d \<and> d < p)"

fun hl_post :: "hl_label \<Rightarrow> nat \<Rightarrow> hl_request \<Rightarrow> bool" where
  "hl_post hl_done p r \<longleftrightarrow> hl_base r \<and>
     (\<exists>a b c d. header_name_start r = Some a \<and> header_name_end r = Some b \<and> header_start r = Some c
        \<and> header_end r = Some d \<and> a < b \<and> b \<le> c \<and> c \<le> d \<and> d \<le> p)"
| "hl_post hl_header_done p r \<longleftrightarrow> hl_base r \<and> (\<exists>d. header_end r = Some d \<and> d \<le> p)"

lemma and_31_less: "n AND (31::nat) < 32"
  using take_bit_nat_less_exp [of 5 n] by (simp add: take_bit_eq_mask mask_eq_exp_minus_1)

interpretation hl: sw_parser "hl_body au buf" "\<lambda>p ch. True" hl_inv hl_post for au buf
proof
  fix p s r ch s' r'
  assume "hl_inv p s r" "hl_body au buf p ch s r = Break s' r'"
  then show "hl_inv (Suc p) s' r'"
    by (cases s) (auto simp: hl_sw_defs hl_base_def and_31_less split: if_splits)
next
  fix p s r ch l r'
  assume "hl_inv p s r" "hl_body au buf p ch s r = Goto l r'"
  then show "hl_post l p r'"
    by (cases s) (auto simp: hl_sw_defs hl_base_def split: if_splits)
qed

lemma hl_body_codes: "hl_body au buf p ch s r = Return c r' \<Longrightarrow> c = HL_INVALID_HEADER"
  by (cases s) (auto simp: hl_sw_defs split: if_splits)

lemma hl_loop_codes: "sw_loop (hl_body au buf) p xs s r = Returned c q r' \<Longrightarrow> c = HL_INVALID_HEADER"
  by (rule sw_loop_returned [OF _ hl_body_codes])

lemma hl_save_simps [simp]:
  "header_name_start (hl_save r) = header_name_start r" "header_name_end (hl_save r) = header_name_end r"
  "header_start (hl_save r) = header_start r" "header_end (hl_save r) = header_end r"
  "lowcase_header (hl_save r) = lowcase_header r" "lowcase_index (hl_save r) = hl_i r"
  "header_hash (hl_save r) = hl_hash r" "invalid_header (hl_save r) = invalid_header r"
  by (simp_all add: hl_save_def)

text \<open>
  An accepted header line has a non-empty name followed by its value, both inside the
  received bytes and before the new \<open>b->pos\<close>, and the index into the 32-byte \<open>lowcase_header\<close>
  array stays in range whatever the length of the name, so the array is never overrun.
\<close>

theorem header_line_pointers:
  assumes "hl_st r = hl_start" and "length (lowcase_header r) = 32" and "lowcase_index r < 32"
    and "pos \<le> length buf"
    and "ngx_http_parse_header_line r buf pos au = (NGX_OK, r', pos')"
  shows "\<exists>a b c d. header_name_start r' = Some a \<and> header_name_end r' = Some b \<and> header_start r' = Some c
      \<and> header_end r' = Some d \<and> a < b \<and> b \<le> c \<and> c \<le> d \<and> d < pos' \<and> pos' \<le> length buf
      \<and> length (lowcase_header r') = 32 \<and> lowcase_index r' < 32 \<and> hl_st r' = hl_start"
proof -
  let ?r0 = "r\<lparr>hl_hash := header_hash r, hl_i := lowcase_index r\<rparr>"
  obtain p r1 where j: "sw_loop (hl_body au buf) pos (drop pos buf) (hl_st r) ?r0 = Jumped hl_done p r1"
    and r': "r' = hl_save (r1\<lparr>hl_st := hl_start\<rparr>)" "pos' = p + 1"
    using assms(5) hl_loop_codes
    by (fastforce simp: ngx_http_parse_header_line_def split: sw_exit.splits hl_label.splits)
  have "hl_inv pos (hl_st r) ?r0" using assms by (simp add: hl_base_def)
  then have "hl_post hl_done p r1" by (rule hl.loop_post [OF _ _ j]) simp
  moreover have "p < length buf" using sw_loop_jumped [OF j] assms(4) by simp
  ultimately show ?thesis using r' by (auto simp: hl_base_def hl_save_def)
qed

text \<open>The parser fields of a request just allocated (the pool clears it).\<close>

definition hl_init :: hl_request where
  "hl_init = \<lparr>hl_st = hl_start, header_hash = 0, lowcase_index = 0, lowcase_header = replicate 32 NUL,
      header_name_start = None, header_name_end = None, header_start = None, header_end = None,
      invalid_header = False, upstream = False, hl_hash = 0, hl_i = 0\<rparr>"

lemma hl_init_fresh:
  "hl_st hl_init = hl_start" "length (lowcase_header hl_init) = 32" "lowcase_index hl_init < 32"
  by (simp_all add: hl_init_def)

lemma header_line_example:
  "ngx_http_parse_header_line hl_init (''A: b'' @ [CR, LF]) 0 False =
   (NGX_OK, hl_init\<lparr>header_hash := 97, lowcase_index := 1,
     lowcase_header := CHR ''a'' # replicate 31 NUL,
     header_name_start := Some 0, header_name_end := Some 1, header_start := Some 3, header_end := Some 4,
     hl_hash := 97, hl_i := 1\<rparr>, 6)"
  by (simp add: ngx_http_parse_header_line_def hl_sw_defs hl_save_def lowcase_def ngx_hash_def
      digit_def less_eq_char_def numeral_eq_Suc hl_init_def)

theorem header_line_pointers_witness:
  "\<exists>a b c d. header_name_start (fst (snd
      (ngx_http_parse_header_line hl_init (''A: b'' @ [CR, LF]) 0 False))) = Some a
     \<and> a < b \<and> b \<le> c \<and> c \<le> d \<and> d < (6::nat)"
proof -
  obtain a b c d where "header_name_start (fst (snd
      (ngx_http_parse_header_line hl_init (''A: b'' @ [CR, LF]) 0 False))) = Some a"
    "a < b" "b \<le> c" "c \<le> d" "d < 6"
    unfolding header_line_example fst_conv snd_conv
    using header_line_pointers [OF hl_init_fresh le0 header_line_example] by blast
  then show ?thesis by blast
qed

section \<open>Well-formed header lines\<close>

definition hl_name_char :: "bool \<Rightarrow> char \<Rightarrow> bool" where
  "hl_name_char au c \<longleftrightarrow> lowcase c \<noteq> NUL \<or> au \<and> c = CHR ''_''"

definition hl_value_char :: "char \<Rightarrow> bool" where
  "hl_value_char c \<longleftrightarrow> c \<notin> {CR, LF, NUL}"

lemma lowcase_tolower: "lowcase c \<noteq> NUL \<Longrightarrow> lowcase c = ngx_tolower c"
  by (auto simp: lowcase_def ngx_tolower_def split: if_splits)

lemma hl_name_char_cases:
  "hl_name_char au c \<Longrightarrow> lowcase c = ngx_tolower c \<and> ngx_tolower c \<noteq> NUL \<or>
     lowcase c = NUL \<and> au \<and> c = CHR ''_'' \<and> ngx_tolower c = c"
  using lowcase_tolower [of c] by (auto simp: hl_name_char_def ngx_tolower_def less_eq_char_def)

lemma lowcase_CR_LF: "lowcase CR = NUL" "lowcase LF = NUL" "lowcase (CHR '':'') = NUL"
  by (simp_all add: lowcase_def digit_def less_eq_char_def)

lemma hl_loop_name:
  assumes "list_all (hl_name_char au) xs"
  shows "sw_loop (hl_body au buf) p (xs @ rest) hl_name r =
         sw_loop (hl_body au buf) (p + length xs) rest hl_name (fold hl_next_char (ngx_strlow xs) r)"
  using assms
proof (induction xs arbitrary: p r)
  case (Cons x xs)
  then have "hl_sw_name buf au p x r = Break hl_name (hl_next_char (ngx_tolower x) r)"
    using hl_name_char_cases [of au x] by (auto simp: hl_sw_name_def)
  with Cons show ?case by (simp add: ngx_strlow_def)
qed (simp add: ngx_strlow_def)

lemma hl_next_char_fields [simp]:
  "hl_hash (hl_next_char c r) = ngx_hash (hl_hash r) c"
  "lowcase_header (hl_next_char c r) = (lowcase_header r)[hl_i r := c]"
  "hl_i (hl_next_char c r) = Suc (hl_i r) AND 31"
  "header_name_start (hl_next_char c r) = header_name_start r"
  "invalid_header (hl_next_char c r) = invalid_header r"
  by (simp_all add: hl_next_char_def)

lemma hl_fold_fields [simp]:
  "header_name_start (fold hl_next_char cs r) = header_name_start r"
  "invalid_header (fold hl_next_char cs r) = invalid_header r"
  by (induction cs arbitrary: r) simp_all

lemma and_31: "n AND (31::nat) = n mod 32"
  using take_bit_eq_mod [of 5 n] by (simp add: take_bit_eq_mask mask_eq_exp_minus_1)

lemma hl_fold_name:
  assumes "length (lowcase_header r) = 32"
  shows "let r' = fold hl_next_char cs (hl_first_char c r) in
     hl_hash r' = foldl ngx_hash 0 (c # cs) \<and> hl_i r' = length (c # cs) mod 32
     \<and> length (lowcase_header r') = 32
     \<and> (length (c # cs) < 32 \<longrightarrow> take (length (c # cs)) (lowcase_header r') = c # cs)"
proof (induction cs rule: rev_induct)
  case Nil
  obtain y ys where "lowcase_header r = y # ys" using assms by (cases "lowcase_header r") auto
  with assms show ?case by (simp add: hl_first_char_def)
next
  case (snoc x cs)
  let ?r = "fold hl_next_char cs (hl_first_char c r)"
  from snoc have r: "hl_hash ?r = foldl ngx_hash 0 (c # cs)" "hl_i ?r = length (c # cs) mod 32"
    "length (lowcase_header ?r) = 32"
    "length (c # cs) < 32 \<Longrightarrow> take (length (c # cs)) (lowcase_header ?r) = c # cs"
    by (simp_all add: Let_def)
  have "take (Suc (length (c # cs))) ((lowcase_header ?r)[hl_i ?r := x]) = (c # cs) @ [x]"
    if "Suc (length (c # cs)) < 32"
    using that r by (simp add: take_Suc_conv_app_nth)
  with r show ?case
    by (simp add: Let_def and_31 mod_Suc_eq)
qed

lemma hl_loop_spaces:
  "sw_loop (hl_body au buf) p (replicate n SP @ rest) hl_space_before_value r =
   sw_loop (hl_body au buf) (p + n) rest hl_space_before_value r"
  by (induction n arbitrary: p) (simp_all add: hl_sw_space_before_value_def)

lemma hl_loop_value:
  assumes "list_all hl_value_char v" "v \<noteq> [] \<longrightarrow> last v \<noteq> SP"
    "s = hl_value \<or> s = hl_space_after_value \<and> v \<noteq> []"
  shows "sw_loop (hl_body au buf) p (v @ CR # LF # rest) s r =
         Jumped hl_done (p + length v + 1) (r\<lparr>header_end := Some (p + length v)\<rparr>)"
  using assms
proof (induction v arbitrary: p s r)
  case Nil
  then show ?case by (simp add: hl_sw_value_def hl_sw_almost_done_def)
next
  case (Cons x v)
  have IH: "sw_loop (hl_body au buf) (Suc p) (v @ CR # LF # rest) t r' =
      Jumped hl_done (p + length (x # v) + 1) (r'\<lparr>header_end := Some (p + length (x # v))\<rparr>)"
    if "t = hl_value \<or> t = hl_space_after_value \<and> x = SP" for t r'
    using Cons.prems that Cons.IH [of t "Suc p" r'] by (cases "v = []") auto
  from Cons.prems(1,3) show ?case
    by (auto simp: IH hl_sw_value_def hl_sw_space_after_value_def hl_value_char_def)
qed

text \<open>
  A header line \<open>name: value CR LF\<close>, with any number of spaces before the value, is accepted
  whatever follows it, and the element nginx pushes for it has exactly that name and value, the
  name in lower case, and the hash of the lower-case name that the header table is searched with,
  also when the name is longer than the 32 bytes \<open>lowcase_header\<close> holds.
\<close>

theorem header_line_accepts:
  assumes r: "hl_st r = hl_start" "length (lowcase_header r) = 32"
    and name: "name \<noteq> []" "list_all (hl_name_char au) name"
    and v: "list_all hl_value_char v" "v \<noteq> [] \<longrightarrow> hd v \<noteq> SP \<and> last v \<noteq> SP"
    and buf: "buf = pre @ name @ CHR '':'' # replicate n SP @ v @ CR # LF # rest"
    and res: "ngx_http_parse_header_line r buf (length pre) au = (rc, r', pos')"
  shows "rc = NGX_OK \<and> pos' = length buf - length rest \<and> \<not> invalid_header r' \<and>
     header_elt buf r' = \<lparr>elt_hash = foldl ngx_hash 0 (ngx_strlow name), elt_key = name, elt_value = v,
                         elt_lowcase_key = ngx_strlow name\<rparr>"
proof -
  let ?b = "hl_body au buf" and ?p = "length pre"
  let ?tl = "CHR '':'' # replicate n SP @ v @ CR # LF # rest"
  obtain x xs where nx: "name = x # xs" using name(1) by (cases name) auto
  define r0 where "r0 = r\<lparr>hl_hash := header_hash r, hl_i := lowcase_index r,
                         header_name_start := Some ?p, invalid_header := False\<rparr>"
  define r1 where "r1 = fold hl_next_char (ngx_strlow xs) (hl_first_char (ngx_tolower x) r0)"
  have r1: "hl_hash r1 = foldl ngx_hash 0 (ngx_strlow name)" "hl_i r1 = length name mod 32"
      "length name < 32 \<Longrightarrow> take (length name) (lowcase_header r1) = ngx_strlow name"
      "header_name_start r1 = Some ?p" "\<not> invalid_header r1"
    using hl_fold_name [of r0 "ngx_strlow xs" "ngx_tolower x"] r
    by (simp_all add: r1_def nx ngx_strlow_def Let_def r0_def hl_first_char_def)
  let ?e = "?p + length name" and ?vs = "?p + length name + 1 + n"
  define r2 where "r2 = r1\<lparr>header_name_end := Some ?e, header_start := Some ?vs,
                          header_end := Some (?vs + length v)\<rparr>"
  have "hl_sw_start au ?p x (r\<lparr>hl_hash := header_hash r, hl_i := lowcase_index r\<rparr>) =
        Break hl_name (hl_first_char (ngx_tolower x) r0)"
    using name(2) hl_name_char_cases [of au x]
    by (auto simp: nx hl_sw_start_def r0_def Let_def lowcase_CR_LF)
  then have "sw_loop ?b ?p (name @ ?tl) hl_start (r\<lparr>hl_hash := header_hash r, hl_i := lowcase_index r\<rparr>)
      = sw_loop ?b (Suc ?p) (xs @ ?tl) hl_name (hl_first_char (ngx_tolower x) r0)"
    by (simp add: nx)
  also have "\<dots> = sw_loop ?b ?e ?tl hl_name r1"
    using name(2) by (subst hl_loop_name) (simp_all add: nx r1_def)
  also have "\<dots> = sw_loop ?b ?vs (v @ CR # LF # rest) hl_space_before_value
      (r1\<lparr>header_name_end := Some ?e\<rparr>)"
    by (simp add: hl_sw_name_def lowcase_CR_LF hl_loop_spaces)
  also have "\<dots> = Jumped hl_done (?vs + length v + 1) r2"
  proof (cases v)
    case Nil
    then show ?thesis by (simp add: hl_sw_space_before_value_def hl_sw_almost_done_def r2_def)
  next
    case (Cons y ys)
    with v have y: "y \<notin> {SP, CR, LF, NUL}" "list_all hl_value_char ys" "ys \<noteq> [] \<longrightarrow> last ys \<noteq> SP"
      by (auto simp: hl_value_char_def)
    then show ?thesis
      by (simp add: Cons hl_sw_space_before_value_def hl_loop_value r2_def)
  qed
  finally have run: "sw_loop ?b ?p (drop ?p buf) hl_start
      (r\<lparr>hl_hash := header_hash r, hl_i := lowcase_index r\<rparr>) = Jumped hl_done (?vs + length v + 1) r2"
    by (simp add: buf)
  have sl: "slice buf ?p ?e = name" "slice buf ?vs (?vs + length v) = v"
    by (simp_all add: buf slice_def)
  have rc: "rc = NGX_OK" "r' = hl_save (r2\<lparr>hl_st := hl_start\<rparr>)" "pos' = ?vs + length v + 2"
    using res run by (simp_all add: ngx_http_parse_header_line_def r(1))
  have len: "length name < 32" if "length name = length name mod 32"
    using that by (metis mod_less_divisor zero_less_numeral)
  have "header_elt buf r' = \<lparr>elt_hash = foldl ngx_hash 0 (ngx_strlow name), elt_key = name, elt_value = v,
                         elt_lowcase_key = ngx_strlow name\<rparr>"
    using r1 sl by (auto simp: header_elt_def rc r2_def Let_def hl_save_def dest: len)
  moreover have "pos' = length buf - length rest" by (simp add: rc buf)
  ultimately show ?thesis using rc r1 by (simp add: r2_def hl_save_def)
qed

theorem header_line_accepts_witness:
  "header_elt (''A: b'' @ [CR, LF])
     (fst (snd (ngx_http_parse_header_line hl_init (''A: b'' @ [CR, LF]) 0 False))) =
       \<lparr>elt_hash = 97, elt_key = ''A'', elt_value = ''b'', elt_lowcase_key = ''a''\<rparr>"
proof -
  obtain r' where r': "ngx_http_parse_header_line hl_init (''A: b'' @ [CR, LF]) (length ([] :: bytes)) False = (NGX_OK, r', 6)"
    using header_line_example by simp
  have "list_all (hl_name_char False) ''A''" "list_all hl_value_char ''b''"
    by (simp_all add: hl_name_char_def hl_value_char_def lowcase_def less_eq_char_def)
  then have "header_elt (''A: b'' @ [CR, LF]) r' = \<lparr>elt_hash = foldl ngx_hash 0 (ngx_strlow ''A''),
      elt_key = ''A'', elt_value = ''b'', elt_lowcase_key = ngx_strlow ''A''\<rparr>"
    using header_line_accepts [where pre = "[]" and name = "''A''" and n = 1 and v = "''b''" and rest = "[]",
        OF hl_init_fresh(1,2) _ _ _ _ _ r'] by simp
  with r' show ?thesis by (simp add: ngx_strlow_def ngx_tolower_def ngx_hash_def less_eq_char_def)
qed

section \<open>Parsing in pieces\<close>

lemma hl_body_take: "p < k \<Longrightarrow> hl_body au (take k buf) p ch s r = hl_body au buf p ch s r"
  by (cases s) (simp_all add: hl_sw_name_def slice_take Let_def cong: if_cong)

interpretation hl_resume: resumable "hl_body au" for au
  by unfold_locales (rule hl_body_take)

text \<open>The body neither reads nor writes the fields the locals are saved in.\<close>

definition hl_stored :: "hl_state \<Rightarrow> 64 word \<Rightarrow> nat \<Rightarrow> hl_request \<Rightarrow> hl_request" where
  "hl_stored s h i r = r\<lparr>hl_st := s, header_hash := h, lowcase_index := i\<rparr>"

lemma hl_stored_simps:
  "(hl_stored t h i r)\<lparr>header_name_start := x\<rparr> = hl_stored t h i (r\<lparr>header_name_start := x\<rparr>)"
  "(hl_stored t h i r)\<lparr>header_name_end := x\<rparr> = hl_stored t h i (r\<lparr>header_name_end := x\<rparr>)"
  "(hl_stored t h i r)\<lparr>header_start := x\<rparr> = hl_stored t h i (r\<lparr>header_start := x\<rparr>)"
  "(hl_stored t h i r)\<lparr>header_end := x\<rparr> = hl_stored t h i (r\<lparr>header_end := x\<rparr>)"
  "(hl_stored t h i r)\<lparr>invalid_header := y\<rparr> = hl_stored t h i (r\<lparr>invalid_header := y\<rparr>)"
  "hl_first_char c (hl_stored t h i r) = hl_stored t h i (hl_first_char c r)"
  "hl_next_char c (hl_stored t h i r) = hl_stored t h i (hl_next_char c r)"
  "header_name_start (hl_stored t h i r) = header_name_start r"
  "upstream (hl_stored t h i r) = upstream r"
  by (simp_all add: hl_stored_def hl_first_char_def hl_next_char_def)

lemma hl_body_stored:
  "hl_body au buf p ch s (hl_stored t h i r) = map_sw id (hl_stored t h i) id (hl_body au buf p ch s r)"
  by (cases s) (simp_all add: hl_stored_simps hl_sw_start_def hl_sw_name_def
      hl_sw_space_before_value_def hl_sw_value_def hl_sw_space_after_value_def hl_sw_ignore_line_def
      hl_sw_almost_done_def hl_sw_header_almost_done_def Let_def)

lemma hl_loop_stored:
  "sw_loop (hl_body au buf) p xs s (hl_stored t h i r) =
     map_sw_exit id (hl_stored t h i) id (sw_loop (hl_body au buf) p xs s r)"
  by (induction xs arbitrary: p s r) (simp_all add: hl_body_stored split: sw.splits)

lemma hl_reload:
  "(hl_save (r\<lparr>hl_st := s\<rparr>))\<lparr>hl_hash := header_hash (hl_save (r\<lparr>hl_st := s\<rparr>)),
      hl_i := lowcase_index (hl_save (r\<lparr>hl_st := s\<rparr>))\<rparr> = hl_stored s (hl_hash r) (hl_i r) r"
  by (simp add: hl_save_def hl_stored_def)

lemma hl_save_stored:
  "hl_save ((hl_stored t h i r)\<lparr>hl_st := s\<rparr>) = hl_save (r\<lparr>hl_st := s\<rparr>)"
  by (simp add: hl_save_def hl_stored_def)

lemma hl_st_save [simp]: "hl_st (hl_save r) = hl_st r"
  by (simp add: hl_save_def)

text \<open>
  Header lines may arrive in pieces: if the parser answers \<open>NGX_AGAIN\<close> on the first \<open>k\<close> bytes,
  calling it again on the grown buffer with what it saved gives the code of a single call on the
  whole buffer, and the same request and position when that code is \<open>NGX_OK\<close> or \<open>NGX_AGAIN\<close>;
  any other answer on the first \<open>k\<close> bytes is already the answer on the whole buffer.
\<close>

theorem header_line_resumes:
  assumes k: "pos \<le> k" "k \<le> length buf"
    and part: "ngx_http_parse_header_line r (take k buf) pos au = (c1, r1, p1)"
    and whole: "ngx_http_parse_header_line r buf pos au = (c, r', p)"
  shows "if c1 = NGX_AGAIN
         then (case ngx_http_parse_header_line r1 buf p1 au of
                 (c2, r2, p2) \<Rightarrow> c = c2 \<and> (c \<in> {NGX_OK, NGX_AGAIN} \<longrightarrow> r' = r2 \<and> p = p2))
         else c = c1 \<and> r' = r1 \<and> p = p1"
proof -
  let ?r0 = "r\<lparr>hl_hash := header_hash r, hl_i := lowcase_index r\<rparr>"
  note split = hl_resume.loop_split [OF k, of au "hl_st r" ?r0]
  show ?thesis
  proof (cases "sw_loop (hl_body au (take k buf)) pos (drop pos (take k buf)) (hl_st r) ?r0")
    case (Exhausted q s2 r2)
    have q: "q = k" using sw_loop_exhausted [OF Exhausted] k by simp
    have p1: "c1 = NGX_AGAIN" "r1 = hl_save (r2\<lparr>hl_st := s2\<rparr>)" "p1 = k"
      using part q by (auto simp: ngx_http_parse_header_line_def Exhausted)
    have "ngx_http_parse_header_line r1 buf p1 au =
        (case sw_loop (hl_body au buf) k (drop k buf) s2 r2 of
           Exhausted p s r' \<Rightarrow> (NGX_AGAIN, hl_save (r'\<lparr>hl_st := s\<rparr>), p)
         | Returned c p r' \<Rightarrow> (c, hl_stored s2 (hl_hash r2) (hl_i r2) r', k)
         | Jumped l p r' \<Rightarrow>
             (case l of
                hl_done \<Rightarrow> (NGX_OK, hl_save (r'\<lparr>hl_st := hl_start\<rparr>), p + 1)
              | hl_header_done \<Rightarrow>
                  (HL_HEADER_DONE, (hl_stored s2 (hl_hash r2) (hl_i r2) r')\<lparr>hl_st := hl_start\<rparr>, p + 1)))"
      unfolding ngx_http_parse_header_line_def Let_def p1 hl_reload
      by (simp add: hl_loop_stored hl_save_stored split: sw_exit.split hl_label.split)
    with p1 whole split Exhausted show ?thesis
      using hl_loop_codes [of au buf k "drop k buf" s2 r2]
      by (auto simp: ngx_http_parse_header_line_def split: sw_exit.splits hl_label.splits)
  next
    case (Jumped l q r2)
    then have "c1 \<noteq> NGX_AGAIN" using part
      by (auto simp: ngx_http_parse_header_line_def split: hl_label.splits)
    with Jumped split show ?thesis
      using part whole by (simp add: ngx_http_parse_header_line_def)
  next
    case (Returned c2 q r2)
    then have "c1 \<noteq> NGX_AGAIN" using part hl_loop_codes [OF Returned]
      by (auto simp: ngx_http_parse_header_line_def)
    with Returned split show ?thesis
      using part whole by (simp add: ngx_http_parse_header_line_def)
  qed
qed

theorem header_line_resumes_witness:
  "case ngx_http_parse_header_line hl_init (take 3 (''A: b'' @ [CR, LF])) 0 False of
     (c1, r1, p1) \<Rightarrow> c1 = NGX_AGAIN \<and>
       fst (ngx_http_parse_header_line r1 (''A: b'' @ [CR, LF]) p1 False) = NGX_OK"
proof -
  obtain c1 r1 p1 where part:
      "ngx_http_parse_header_line hl_init (take 3 (''A: b'' @ [CR, LF])) 0 False = (c1, r1, p1)"
    by (rule prod_cases3)
  have again: "c1 = NGX_AGAIN"
    using part by (simp add: ngx_http_parse_header_line_def hl_sw_defs lowcase_def hl_init_def
        digit_def less_eq_char_def)
  show ?thesis
    using header_line_resumes [OF _ _ part header_line_example] again part
    by (simp split: prod.splits)
qed

end
