(* ===== verification/Ngx_Escape.thy ===== *)
theory Ngx_Escape
  imports Prelude
begin

text \<open>
  Percent escaping: \<open>ngx_escape_uri\<close> and \<open>ngx_unescape_uri\<close> of
  \<open>nginx-master/src/core/ngx_string.c\<close>, and the patched copies of
  \<open>set-misc-nginx-module-master\<close> behind the directives \<open>set_escape_uri\<close> and
  \<open>set_unescape_uri\<close>. Buffers written through \<open>dst\<close> are the returned byte lists.
\<close>

section \<open>Escaping\<close>

text \<open>\<open>escape[*src >> 5] & (1U << (*src & 0x1f))\<close>\<close>

definition mask_has :: "nat list \<Rightarrow> char \<Rightarrow> bool" where
  "mask_has tab ch \<longleftrightarrow> tab ! (drop_bit 5 (ord ch)) AND push_bit (ord ch AND 0x1f) 1 \<noteq> 0"

definition esc_uri :: "nat list" where
  "esc_uri = [0xffffffff, 0x80000029, 0, 0x80000000, 0xffffffff, 0xffffffff, 0xffffffff, 0xffffffff]"

definition esc_args :: "nat list" where
  "esc_args = [0xffffffff, 0x88000869, 0, 0x80000000, 0xffffffff, 0xffffffff, 0xffffffff, 0xffffffff]"

definition esc_uri_component :: "nat list" where
  "esc_uri_component = [0xffffffff, 0xfc009fff, 0x78000001, 0xb8000001,
     0xffffffff, 0xffffffff, 0xffffffff, 0xffffffff]"

definition esc_html :: "nat list" where
  "esc_html = [0xffffffff, 0x000000ad, 0, 0x80000000, 0xffffffff, 0xffffffff, 0xffffffff, 0xffffffff]"

definition esc_refresh :: "nat list" where
  "esc_refresh = [0xffffffff, 0x00000085, 0, 0x80000000, 0xffffffff, 0xffffffff, 0xffffffff, 0xffffffff]"

definition esc_memcached :: "nat list" where
  "esc_memcached = [0xffffffff, 0x00000021, 0, 0, 0, 0, 0, 0]"

definition esc_map :: "nat list list" where
  "esc_map = [esc_uri, esc_args, esc_uri_component, esc_html, esc_refresh, esc_memcached, esc_memcached]"

definition hex_upper :: "nat \<Rightarrow> char" where
  "hex_upper n = ''0123456789ABCDEF'' ! n"

text \<open>The call with \<open>dst == NULL\<close>: the number of characters to be escaped.\<close>

fun escape_count :: "nat list \<Rightarrow> bytes \<Rightarrow> nat" where
  "escape_count tab [] = 0"
| "escape_count tab (c # src) = (if mask_has tab c then 1 else 0) + escape_count tab src"

fun escape_write :: "nat list \<Rightarrow> bytes \<Rightarrow> bytes" where
  "escape_write tab [] = []"
| "escape_write tab (c # src) =
     (if mask_has tab c
      then CHR ''%'' # hex_upper (drop_bit 4 (ord c)) # hex_upper (ord c AND 0xf) # escape_write tab src
      else c # escape_write tab src)"

definition ngx_escape_uri_count :: "bytes \<Rightarrow> nat \<Rightarrow> nat" where
  "ngx_escape_uri_count src type = escape_count (esc_map ! type) src"

definition ngx_escape_uri :: "bytes \<Rightarrow> nat \<Rightarrow> bytes" where
  "ngx_escape_uri src type = escape_write (esc_map ! type) src"

section \<open>Unescaping\<close>

text \<open>
  The second quoted state carries \<open>decoded\<close> and the byte \<open>*(s - 2)\<close> it came from, which the
  redirect mode copies back.
\<close>

datatype un_state = un_usual | un_quoted | un_quoted_second nat char

abbreviation NGX_UNESCAPE_URI :: nat where "NGX_UNESCAPE_URI \<equiv> 1"
abbreviation NGX_UNESCAPE_REDIRECT :: nat where "NGX_UNESCAPE_REDIRECT \<equiv> 2"

text \<open>
  What one byte does: the bytes written to \<open>d\<close>, the next state, and whether the code jumps to
  \<open>done\<close>. \<open>pl\<close> selects the added case of the patched copy, which turns \<open>+\<close> into a space.
\<close>

definition un_sw_usual :: "bool \<Rightarrow> nat \<Rightarrow> char \<Rightarrow> bytes \<times> un_state \<times> bool" where
  "un_sw_usual pl type ch =
     (if ch = CHR ''?'' \<and> type AND (NGX_UNESCAPE_URI OR NGX_UNESCAPE_REDIRECT) \<noteq> 0
      then ([ch], un_usual, True)
      else if ch = CHR ''%'' then ([], un_quoted, False)
      else if pl \<and> ch = CHR ''+'' then ([SP], un_usual, False)
      else ([ch], un_usual, False))"

definition un_sw_quoted :: "char \<Rightarrow> bytes \<times> un_state \<times> bool" where
  "un_sw_quoted ch =
     (if digit ch then ([], un_quoted_second (digit_val ch) ch, False)
      else if hexalpha20 ch then ([], un_quoted_second (hexalpha_val ch) ch, False)
      else ([ch], un_usual, False))"

definition un_redirect :: "char \<Rightarrow> char \<Rightarrow> char \<Rightarrow> bytes" where
  "un_redirect ch s2 s1 =
     (if ch > CHR ''%'' \<and> ch < CHR 0x7F then [ch] else [CHR ''%'', s2, s1])"

definition un_sw_quoted_second :: "nat \<Rightarrow> nat \<Rightarrow> char \<Rightarrow> char \<Rightarrow> bytes \<times> un_state \<times> bool" where
  "un_sw_quoted_second type decoded s2 s1 =
     (if digit s1 then
        (let ch = chr (decoded * 16 + digit_val s1) in
         if type AND NGX_UNESCAPE_REDIRECT \<noteq> 0 then (un_redirect ch s2 s1, un_usual, False)
         else ([ch], un_usual, False))
      else if hexalpha20 s1 then
        (let ch = chr (decoded * 16 + hexalpha_val s1) in
         if type AND NGX_UNESCAPE_URI \<noteq> 0 then
           (if ch = CHR ''?'' then ([ch], un_usual, True) else ([ch], un_usual, False))
         else if type AND NGX_UNESCAPE_REDIRECT \<noteq> 0 then
           (if ch = CHR ''?'' then ([ch], un_usual, True) else (un_redirect ch s2 s1, un_usual, False))
         else ([ch], un_usual, False))
      else ([], un_usual, False))"

fun un_switch :: "bool \<Rightarrow> nat \<Rightarrow> un_state \<Rightarrow> char \<Rightarrow> bytes \<times> un_state \<times> bool" where
  "un_switch pl type un_usual ch = un_sw_usual pl type ch"
| "un_switch pl type un_quoted ch = un_sw_quoted ch"
| "un_switch pl type (un_quoted_second d s2) ch = un_sw_quoted_second type d s2 ch"

text \<open>The loop: the bytes written and the bytes of \<open>src\<close> not consumed.\<close>

fun unescape_loop :: "bool \<Rightarrow> nat \<Rightarrow> un_state \<Rightarrow> bytes \<Rightarrow> bytes \<times> bytes" where
  "unescape_loop pl type st [] = ([], [])"
| "unescape_loop pl type st (ch # src) =
     (case un_switch pl type st ch of
        (out, st', stop) \<Rightarrow>
          (if stop then (out, src)
           else (case unescape_loop pl type st' src of (d, s) \<Rightarrow> (out @ d, s))))"

definition ngx_unescape_uri :: "bytes \<Rightarrow> nat \<Rightarrow> bytes \<times> bytes" where
  "ngx_unescape_uri src type = unescape_loop False type un_usual src"

section \<open>The set-misc directives\<close>

definition ngx_unescape_uri_patched :: "bytes \<Rightarrow> nat \<Rightarrow> bytes \<times> bytes" where
  "ngx_unescape_uri_patched src type = unescape_loop True type un_usual src"

abbreviation NGX_UNESCAPE_URI_COMPONENT :: nat where "NGX_UNESCAPE_URI_COMPONENT \<equiv> 0"

text \<open>\<open>set_unescape_uri\<close>: \<open>None\<close> is \<open>NGX_ERROR\<close>; \<open>alloc\<close> is whether \<open>ngx_palloc\<close> succeeds.\<close>

definition ngx_http_set_misc_unescape_uri :: "bool \<Rightarrow> bytes \<Rightarrow> bytes option" where
  "ngx_http_set_misc_unescape_uri alloc v =
     (if \<not> alloc then None
      else (case ngx_unescape_uri_patched v NGX_UNESCAPE_URI_COMPONENT of
              (dst, rest) \<Rightarrow> if rest \<noteq> [] then None else Some dst))"

definition esc_uri_patched :: "nat list" where
  "esc_uri_patched = [0xffffffff, 0xfc00886d, 0x78000000, 0xa8000000,
     0xffffffff, 0xffffffff, 0xffffffff, 0xffffffff]"

definition esc_args_patched :: "nat list" where
  "esc_args_patched = [0xffffffff, 0x80000829, 0, 0x80000000, 0xffffffff, 0xffffffff, 0xffffffff, 0xffffffff]"

text \<open>The tables \<open>html\<close>, \<open>refresh\<close> and \<open>memcached\<close> of the copy have the words of the originals.\<close>

definition esc_map_patched :: "nat list list" where
  "esc_map_patched = [esc_uri_patched, esc_args_patched, esc_html, esc_refresh, esc_memcached, esc_memcached]"

definition ngx_escape_uri_patched_count :: "bytes \<Rightarrow> nat \<Rightarrow> nat" where
  "ngx_escape_uri_patched_count src type = escape_count (esc_map_patched ! type) src"

definition ngx_escape_uri_patched :: "bytes \<Rightarrow> nat \<Rightarrow> bytes" where
  "ngx_escape_uri_patched src type = escape_write (esc_map_patched ! type) src"

abbreviation NGX_ESCAPE_URI :: nat where "NGX_ESCAPE_URI \<equiv> 0"

text \<open>
  \<open>set_escape_uri\<close>: \<open>res->len\<close> is computed by the counting call, \<open>res->data\<close> is what the
  writing call (or the plain copy) left in the allocated bytes.
\<close>

definition ngx_http_set_misc_escape_uri :: "bool \<Rightarrow> bytes \<Rightarrow> (bytes \<times> nat) option" where
  "ngx_http_set_misc_escape_uri alloc v =
     (if v = [] then Some ([], 0)
      else
        (let escape = 2 * ngx_escape_uri_patched_count v NGX_ESCAPE_URI; len = escape + length v in
         if \<not> alloc then None
         else if escape = 0 then Some (v, len)
         else Some (ngx_escape_uri_patched v NGX_ESCAPE_URI, len)))"

lemma escape_uri_patched_uri [simp]:
  "ngx_escape_uri_patched_count v NGX_ESCAPE_URI = escape_count esc_uri_patched v"
  "ngx_escape_uri_patched v NGX_ESCAPE_URI = escape_write esc_uri_patched v"
  by (simp_all add: ngx_escape_uri_patched_count_def ngx_escape_uri_patched_def esc_map_patched_def)

section \<open>Round trips\<close>

lemma byte_split: "drop_bit 4 (ord c) * 16 + (ord c AND 0xf) = ord c"
  and byte_high: "drop_bit 4 (ord c) < 16" and byte_low: "ord c AND 0xf < 16"
  using nibbles [of c] by simp_all

lemma hex_upper_digit:
  assumes "n < 16"
  shows "if digit (hex_upper n) then digit_val (hex_upper n) = n
         else hexalpha20 (hex_upper n) \<and> hexalpha_val (hex_upper n) = n"
proof -
  from less_16_cases [OF assms] show ?thesis
    by (auto simp: hex_upper_def digit_def digit_val_def hexalpha20_def hexalpha_val_def)
qed

lemma unescape_escaped:
  "unescape_loop pl 0 un_usual
     (CHR ''%'' # hex_upper (drop_bit 4 (ord c)) # hex_upper (ord c AND 0xf) # src) =
   (case unescape_loop pl 0 un_usual src of (d, s) \<Rightarrow> (c # d, s))"
proof -
  have c: "chr (drop_bit 4 (ord c) * 16 + (ord c AND 0xf)) = c" by (simp add: byte_split)
  note h = hex_upper_digit [OF byte_high, of c] and l = hex_upper_digit [OF byte_low, of c]
  show ?thesis
    using h l c
    by (simp add: un_sw_usual_def un_sw_quoted_def un_sw_quoted_second_def split: prod.splits if_splits)
qed

lemma unescape_escape:
  assumes "mask_has tab (CHR ''%'')" and "pl \<longrightarrow> mask_has tab (CHR ''+'')"
  shows "unescape_loop pl 0 un_usual (escape_write tab src) = (src, [])"
proof (induction src)
  case (Cons c src)
  show ?case
  proof (cases "mask_has tab c")
    case True
    with Cons show ?thesis by (simp add: unescape_escaped del: unescape_loop.simps(2))
  next
    case False
    with assms have "c \<noteq> CHR ''%''" "pl \<longrightarrow> c \<noteq> CHR ''+''" by auto
    with Cons False show ?thesis by (auto simp: un_sw_usual_def)
  qed
qed simp

lemma length_escape_write: "length (escape_write tab src) = length src + 2 * escape_count tab src"
  by (induction src) auto

lemma escape_write_none: "escape_count tab src = 0 \<Longrightarrow> escape_write tab src = src"
  by (induction src) (auto split: if_splits)

lemmas esc_tables = esc_uri_def esc_args_def esc_uri_component_def esc_html_def esc_memcached_def
  esc_refresh_def esc_uri_patched_def

lemma percent_escaped:
  "type < 7 \<Longrightarrow> type \<noteq> 4 \<Longrightarrow> mask_has (esc_map ! type) (CHR ''%'')"
proof -
  assume "type < 7" "type \<noteq> 4"
  then have "type \<in> {0, 1, 2, 3, 5, 6}" by auto
  then show ?thesis by (auto simp: esc_map_def mask_has_def esc_tables)
qed

interpretation uri_codec: codec "\<lambda>s. ngx_escape_uri s type" "\<lambda>s. Some (fst (ngx_unescape_uri s 0))"
    "\<lambda>s. type < 7 \<and> type \<noteq> 4" for type
  by unfold_locales (simp add: ngx_escape_uri_def ngx_unescape_uri_def unescape_escape percent_escaped)

interpretation set_misc_uri_codec: codec "escape_write esc_uri_patched"
    "\<lambda>s. ngx_http_set_misc_unescape_uri True s" "\<lambda>s. True"
  by unfold_locales
    (simp add: ngx_http_set_misc_unescape_uri_def ngx_unescape_uri_patched_def unescape_escape
      mask_has_def esc_tables)

text \<open>
  Unescaping gives back exactly the bytes that \<open>ngx_escape_uri\<close> escaped, for every input
  and every escape type except \<open>NGX_ESCAPE_REFRESH\<close> (4), the whole input is consumed, and the
  counting call announces exactly the bytes the writing call adds.
\<close>

theorem escape_uri_roundtrip:
  assumes "type < 7" and "type \<noteq> 4"
  shows "ngx_unescape_uri (ngx_escape_uri src type) 0 = (src, []) \<and>
    length (ngx_escape_uri src type) = length src + 2 * ngx_escape_uri_count src type"
  using unescape_escape [OF percent_escaped [OF assms], of False]
  by (simp add: ngx_unescape_uri_def ngx_escape_uri_def ngx_escape_uri_count_def length_escape_write)

theorem escape_uri_roundtrip_witness:
  "ngx_unescape_uri (ngx_escape_uri ''a%b c'' 1) 0 = (''a%b c'', [])"
  using escape_uri_roundtrip [of 1 "''a%b c''"] by simp

text \<open>
  \<open>set_unescape_uri\<close> inverts \<open>set_escape_uri\<close> on every value, and the length
  \<open>set_escape_uri\<close> reports is the number of bytes it stored.
\<close>

theorem set_misc_uri_roundtrip:
  "\<exists>data. ngx_http_set_misc_escape_uri True v = Some (data, length data) \<and>
     ngx_http_set_misc_unescape_uri True data = Some v"
proof -
  have "escape_write esc_uri_patched v = v" if "escape_count esc_uri_patched v = 0"
    using that by (rule escape_write_none)
  then show ?thesis
    using set_misc_uri_codec.dec_enc [of v]
    by (auto simp: ngx_http_set_misc_escape_uri_def Let_def length_escape_write)
qed

text \<open>
  The refresh table does not contain the percent sign that its comment lists: a percent
  sign is copied, so a value such as \<open>%41\<close> does not survive escaping and unescaping.
\<close>

theorem escape_refresh_keeps_percent:
  "ngx_escape_uri ''%41'' 4 = ''%41'' \<and> fst (ngx_unescape_uri (ngx_escape_uri ''%41'' 4) 0) = ''A''"
  by (simp add: ngx_escape_uri_def esc_map_def esc_refresh_def mask_has_def ngx_unescape_uri_def
      un_sw_usual_def un_sw_quoted_def un_sw_quoted_second_def digit_def digit_val_def char_of_eq_iff take_bit_eq_mod)

definition un_credit :: "un_state \<Rightarrow> nat" where
  "un_credit st = (case st of un_usual \<Rightarrow> 0 | un_quoted \<Rightarrow> 1 | un_quoted_second d s \<Rightarrow> 2)"

lemma un_switch_credit:
  "un_switch pl type st ch = (out, st', stop) \<Longrightarrow> length out + un_credit st' \<le> Suc (un_credit st)"
  by (cases "(pl, type, st, ch)" rule: un_switch.cases)
    (auto simp: un_sw_usual_def un_sw_quoted_def un_sw_quoted_second_def un_redirect_def un_credit_def
      Let_def split: if_splits)

lemma unescape_loop_bound:
  "unescape_loop pl type st src = (d, s) \<Longrightarrow> length d + length s \<le> length src + un_credit st"
proof (induction src arbitrary: st d s)
  case (Cons ch src)
  obtain out st' stop where sw: "un_switch pl type st ch = (out, st', stop)" by (rule prod_cases3)
  obtain d' s' where rest: "unescape_loop pl type st' src = (d', s')" by (rule prod.exhaust)
  from Cons.IH [OF rest] Cons.prems un_switch_credit [OF sw] sw rest show ?case
    by (auto split: if_splits)
qed simp

text \<open>
  Unescaping in any mode never writes more bytes than it consumes, so the \<open>len\<close> bytes
  allocated for the result suffice.
\<close>

theorem unescape_uri_bound:
  "ngx_unescape_uri src type = (d, s) \<Longrightarrow> length d + length s \<le> length src"
  using unescape_loop_bound [of False type un_usual src d s]
  by (simp add: ngx_unescape_uri_def un_credit_def)

theorem unescape_uri_bound_witness:
  "ngx_unescape_uri ''a%41%20'' 2 = (''aA%20'', []) \<and> length ''aA%20'' + length [] \<le> length ''a%41%20''"
proof -
  have e: "ngx_unescape_uri ''a%41%20'' 2 = (''aA%20'', [])"
    by (simp add: ngx_unescape_uri_def un_sw_usual_def un_sw_quoted_def un_sw_quoted_second_def
        un_redirect_def digit_def digit_val_def char_of_eq_iff take_bit_eq_mod less_char_def Let_def)
  from unescape_uri_bound [OF e] e show ?thesis by simp
qed

end
