(* ===== verification/Ngx_Number.thy ===== *)
theory Ngx_Number
  imports Prelude
begin

text \<open>
  Numbers as text: the readers \<open>ngx_atoi\<close>, \<open>ngx_atosz\<close>, \<open>ngx_atoof\<close>, \<open>ngx_atotm\<close>,
  \<open>ngx_atofp\<close> and \<open>ngx_hextoi\<close>, and the printer \<open>ngx_sprintf_num\<close>, of
  \<open>nginx-master/src/core/ngx_string.c\<close>. The readers work on signed 64-bit integers and test for
  overflow before each multiplication; the model computes with unbounded integers, and that no
  intermediate value leaves the 64-bit range is part of what is shown.
\<close>

section \<open>Readers\<close>

text \<open>The largest value of \<open>ngx_int_t\<close>, \<open>ssize_t\<close>, \<open>off_t\<close> and \<open>time_t\<close> on a 64-bit platform.\<close>

definition NGX_MAX_INT_T_VALUE :: int where
  "NGX_MAX_INT_T_VALUE = 9223372036854775807"

text \<open>
  The loop the four decimal readers share, \<open>value\<close> so far: the guard
  \<open>value >= cutoff && (value > cutoff || *line - '0' > cutlim)\<close> comes before the update.
\<close>

fun ato_loop :: "int \<Rightarrow> bytes \<Rightarrow> int \<Rightarrow> ngx_int" where
  "ato_loop mx [] value = value"
| "ato_loop mx (c # line) value =
     (if c < CHR ''0'' \<or> c > CHR ''9'' then NGX_ERROR
      else if value \<ge> mx div 10 \<and> (value > mx div 10 \<or> int (digit_val c) > mx mod 10) then NGX_ERROR
      else ato_loop mx line (value * 10 + int (digit_val c)))"

definition ngx_atoi :: "bytes \<Rightarrow> ngx_int" where
  "ngx_atoi line = (if line = [] then NGX_ERROR else ato_loop NGX_MAX_INT_T_VALUE line 0)"

definition ngx_atosz :: "bytes \<Rightarrow> ngx_int" where
  "ngx_atosz line = (if line = [] then NGX_ERROR else ato_loop NGX_MAX_INT_T_VALUE line 0)"

definition ngx_atoof :: "bytes \<Rightarrow> ngx_int" where
  "ngx_atoof line = (if line = [] then NGX_ERROR else ato_loop NGX_MAX_INT_T_VALUE line 0)"

definition ngx_atotm :: "bytes \<Rightarrow> ngx_int" where
  "ngx_atotm line = (if line = [] then NGX_ERROR else ato_loop NGX_MAX_INT_T_VALUE line 0)"

text \<open>
  \<open>ngx_atofp\<close>: \<open>dot\<close> is whether the point has been read, \<open>point\<close> how many fractional digits
  are still wanted; the second loop scales by the missing ones.
\<close>

fun atofp_scale :: "nat \<Rightarrow> int \<Rightarrow> ngx_int" where
  "atofp_scale 0 value = value"
| "atofp_scale (Suc point) value =
     (if value > NGX_MAX_INT_T_VALUE div 10 then NGX_ERROR else atofp_scale point (value * 10))"

fun atofp_loop :: "bytes \<Rightarrow> nat \<Rightarrow> bool \<Rightarrow> int \<Rightarrow> ngx_int" where
  "atofp_loop [] point dot value = atofp_scale point value"
| "atofp_loop (c # line) point dot value =
     (if point = 0 then NGX_ERROR
      else if c = CHR ''.'' then (if dot then NGX_ERROR else atofp_loop line point True value)
      else if c < CHR ''0'' \<or> c > CHR ''9'' then NGX_ERROR
      else if value \<ge> NGX_MAX_INT_T_VALUE div 10 \<and>
              (value > NGX_MAX_INT_T_VALUE div 10 \<or> int (digit_val c) > NGX_MAX_INT_T_VALUE mod 10)
      then NGX_ERROR
      else atofp_loop line (if dot then point - 1 else point) dot (value * 10 + int (digit_val c)))"

definition ngx_atofp :: "bytes \<Rightarrow> nat \<Rightarrow> ngx_int" where
  "ngx_atofp line point = (if line = [] then NGX_ERROR else atofp_loop line point False 0)"

fun hextoi_loop :: "bytes \<Rightarrow> int \<Rightarrow> ngx_int" where
  "hextoi_loop [] value = value"
| "hextoi_loop (ch # line) value =
     (if value > NGX_MAX_INT_T_VALUE div 16 then NGX_ERROR
      else if digit ch then hextoi_loop line (value * 16 + int (digit_val ch))
      else if hexalpha20 ch then hextoi_loop line (value * 16 + int (hexalpha_val ch))
      else NGX_ERROR)"

definition ngx_hextoi :: "bytes \<Rightarrow> ngx_int" where
  "ngx_hextoi line = (if line = [] then NGX_ERROR else hextoi_loop line 0)"

section \<open>The printer\<close>

text \<open>\<open>do { *--p = (u_char) (ui % 10 + '0'); } while (ui /= 10);\<close>, \<open>p\<close> the digits written so far.\<close>

function num_dec :: "nat \<Rightarrow> bytes \<Rightarrow> bytes" where
  "num_dec ui p =
     (let p' = chr (ui mod 10 + ord (CHR ''0'')) # p in
      if ui div 10 \<noteq> 0 then num_dec (ui div 10) p' else p')"
  by pat_completeness auto
termination by (relation "measure fst") auto

text \<open>\<open>do { *--p = hex[(uint32_t) (ui64 & 0xf)]; } while (ui64 >>= 4);\<close>\<close>

function num_hex :: "bytes \<Rightarrow> nat \<Rightarrow> bytes \<Rightarrow> bytes" where
  "num_hex tab ui p =
     (let p' = tab ! (ui AND 0xf) # p in
      if drop_bit 4 ui \<noteq> 0 then num_hex tab (drop_bit 4 ui) p' else p')"
  by pat_completeness auto
termination
  by (relation "measure (\<lambda>(tab, ui, p). ui)") (auto simp: drop_bit_eq_div)

declare num_dec.simps [simp del] num_hex.simps [simp del]

text \<open>
  \<open>ngx_sprintf_num\<close> for a 64-bit \<open>ui64\<close>, with \<open>room = last - buf\<close>: the bytes written. Values up
  to \<open>NGX_MAX_UINT32_VALUE\<close> are printed through a 32-bit copy. The padding loop stops at
  \<open>last\<close>, and the copy is cut there too.
\<close>

definition num_digits :: "nat \<Rightarrow> nat \<Rightarrow> bytes" where
  "num_digits ui64 hexadecimal =
     (if hexadecimal = 0 then
        (if ui64 \<le> 0xffffffff then num_dec (ui64 mod 2 ^ 32) [] else num_dec ui64 [])
      else if hexadecimal = 1 then num_hex ''0123456789abcdef'' ui64 []
      else num_hex ''0123456789ABCDEF'' ui64 [])"

definition ngx_sprintf_num :: "nat \<Rightarrow> nat \<Rightarrow> char \<Rightarrow> nat \<Rightarrow> nat \<Rightarrow> bytes" where
  "ngx_sprintf_num room ui64 zero hexadecimal width =
     (let p = num_digits ui64 hexadecimal;
          pad = min (width - length p) room;
          len = (if pad + length p > room then room - pad else length p) in
      replicate pad zero @ take len p)"

section \<open>What the readers compute\<close>

definition dec_from :: "int \<Rightarrow> bytes \<Rightarrow> int" where
  "dec_from = foldl (\<lambda>v c. v * 10 + int (digit_val c))"

definition hexit_val :: "char \<Rightarrow> nat" where
  "hexit_val c = (if digit c then digit_val c else hexalpha_val c)"

definition hex_from :: "int \<Rightarrow> bytes \<Rightarrow> int" where
  "hex_from = foldl (\<lambda>v c. v * 16 + int (hexit_val c))"

lemma hexit_lower: "n < 16 \<Longrightarrow> (digit (''0123456789abcdef'' ! n) \<or> hexalpha20 (''0123456789abcdef'' ! n)) \<and>
    hexit_val (''0123456789abcdef'' ! n) = n"
  using less_16_cases [of n]
  by (auto simp: hexit_val_def digit_def hexalpha20_iff digit_val_def hexalpha_val_def less_eq_char_def)

lemma dec_from_simps [simp]:
  "dec_from v [] = v" "dec_from v (c # cs) = dec_from (v * 10 + int (digit_val c)) cs"
  by (simp_all add: dec_from_def)

lemma dec_from_append: "dec_from v (xs @ ys) = dec_from (dec_from v xs) ys"
  by (simp add: dec_from_def)

lemma hex_from_simps [simp]:
  "hex_from v [] = v" "hex_from v (c # cs) = hex_from (v * 16 + int (hexit_val c)) cs"
  by (simp_all add: hex_from_def)

lemma dec_from_ge: "0 \<le> v \<Longrightarrow> v \<le> dec_from v cs"
proof (induction cs arbitrary: v)
  case (Cons c cs)
  have "v * 10 + int (digit_val c) \<le> dec_from (v * 10 + int (digit_val c)) cs"
    using Cons.prems by (intro Cons.IH) simp
  then show ?case using Cons.prems by simp
qed simp

lemma hex_from_ge: "0 \<le> v \<Longrightarrow> v \<le> hex_from v cs"
proof (induction cs arbitrary: v)
  case (Cons c cs)
  have "v * 16 + int (hexit_val c) \<le> hex_from (v * 16 + int (hexit_val c)) cs"
    using Cons.prems by (intro Cons.IH) simp
  then show ?case using Cons.prems by simp
qed simp

lemma not_digit_iff: "(c < CHR ''0'' \<or> c > CHR ''9'') \<longleftrightarrow> \<not> digit c"
  by (auto simp: digit_def)

lemma dec_guard:
  fixes v d mx :: int
  assumes "0 \<le> d" "d \<le> 9"
  shows "(v \<ge> mx div 10 \<and> (v > mx div 10 \<or> d > mx mod 10)) \<longleftrightarrow> v * 10 + d > mx"
  using assms mult_div_mod_eq [of 10 mx] pos_mod_bound [of 10 mx] by linarith

lemma ato_loop_spec:
  assumes "0 \<le> v" "v \<le> mx"
  shows "ato_loop mx line v =
     (if list_all digit line \<and> dec_from v line \<le> mx then dec_from v line else NGX_ERROR)"
  using assms
proof (induction line arbitrary: v)
  case (Cons c line)
  show ?case
  proof (cases "digit c")
    case True
    let ?w = "v * 10 + int (digit_val c)"
    have d: "int (digit_val c) \<le> 9" using digit_val_le [OF True] by simp
    have ge: "?w \<le> dec_from ?w line" using Cons.prems by (intro dec_from_ge) simp
    show ?thesis
    proof (cases "?w > mx")
      case True
      with d \<open>digit c\<close> ge show ?thesis by (simp add: not_digit_iff dec_guard)
    next
      case False
      with Cons.prems d \<open>digit c\<close> show ?thesis by (simp add: not_digit_iff dec_guard Cons.IH)
    qed
  qed (simp add: not_digit_iff)
qed simp

text \<open>
  The contract of a decimal reader: the value of a non-empty string of digits that does not
  exceed \<open>mx\<close>, and \<open>NGX_ERROR\<close> for every other string.
\<close>

locale decimal_reader =
  fixes read :: "bytes \<Rightarrow> ngx_int" and mx :: int
  assumes mx_pos: "0 \<le> mx"
    and read_spec: "read line =
      (if line \<noteq> [] \<and> list_all digit line \<and> dec_from 0 line \<le> mx then dec_from 0 line else NGX_ERROR)"
begin

lemma read_range: "read line = NGX_ERROR \<or> 0 \<le> read line \<and> read line \<le> mx"
  using dec_from_ge [of 0 line] by (simp add: read_spec)

lemma read_digits:
  "line \<noteq> [] \<Longrightarrow> list_all digit line \<Longrightarrow> dec_from 0 line = int n \<Longrightarrow> int n \<le> mx \<Longrightarrow> read line = int n"
  by (simp add: read_spec)

end

interpretation atoi: decimal_reader ngx_atoi NGX_MAX_INT_T_VALUE
  by unfold_locales (simp_all add: ngx_atoi_def ato_loop_spec NGX_MAX_INT_T_VALUE_def)

interpretation atosz: decimal_reader ngx_atosz NGX_MAX_INT_T_VALUE
  by unfold_locales (simp_all add: ngx_atosz_def ato_loop_spec NGX_MAX_INT_T_VALUE_def)

interpretation atoof: decimal_reader ngx_atoof NGX_MAX_INT_T_VALUE
  by unfold_locales (simp_all add: ngx_atoof_def ato_loop_spec NGX_MAX_INT_T_VALUE_def)

interpretation atotm: decimal_reader ngx_atotm NGX_MAX_INT_T_VALUE
  by unfold_locales (simp_all add: ngx_atotm_def ato_loop_spec NGX_MAX_INT_T_VALUE_def)

lemma hextoi_loop_spec:
  assumes "0 \<le> v" "v \<le> NGX_MAX_INT_T_VALUE"
  shows "hextoi_loop line v =
     (if list_all (\<lambda>c. digit c \<or> hexalpha20 c) line \<and> hex_from v line \<le> NGX_MAX_INT_T_VALUE
      then hex_from v line else NGX_ERROR)"
  using assms
proof (induction line arbitrary: v)
  case (Cons c line)
  show ?case
  proof (cases "digit c \<or> hexalpha20 c")
    case True
    let ?w = "v * 16 + int (hexit_val c)"
    have d: "int (hexit_val c) \<le> 15"
      using True digit_val_le [of c] hexalpha_val_bounds [of c] by (auto simp: hexit_val_def)
    have ge: "?w \<le> hex_from ?w line" using Cons.prems by (intro hex_from_ge) simp
    have step: "hextoi_loop (c # line) v =
        (if v > NGX_MAX_INT_T_VALUE div 16 then NGX_ERROR else hextoi_loop line ?w)"
      using True by (auto simp: hexit_val_def)
    show ?thesis
    proof (cases "v > NGX_MAX_INT_T_VALUE div 16")
      case True
      then have "hex_from ?w line > NGX_MAX_INT_T_VALUE"
        using ge by (simp add: NGX_MAX_INT_T_VALUE_def)
      with step True show ?thesis by simp
    next
      case False
      then have "?w \<le> NGX_MAX_INT_T_VALUE" using d by (simp add: NGX_MAX_INT_T_VALUE_def)
      with False step True Cons show ?thesis by simp
    qed
  qed simp
qed simp

text \<open>
  \<open>ngx_hextoi\<close> returns the value of every non-empty string of hexadecimal digits of either
  case that fits a signed 64-bit integer, and \<open>NGX_ERROR\<close> on every other input.
\<close>

theorem hextoi_spec:
  "ngx_hextoi line =
     (if line \<noteq> [] \<and> list_all (\<lambda>c. digit c \<or> hexalpha20 c) line \<and> hex_from 0 line \<le> 2 ^ 63 - 1
      then hex_from 0 line else NGX_ERROR)"
  using hextoi_loop_spec [of 0 line]
  by (simp add: ngx_hextoi_def NGX_MAX_INT_T_VALUE_def)

section \<open>Fixed point\<close>

lemma atofp_scale_spec:
  "0 \<le> v \<Longrightarrow> v \<le> NGX_MAX_INT_T_VALUE \<Longrightarrow> atofp_scale point v =
     (if v * 10 ^ point \<le> NGX_MAX_INT_T_VALUE then v * 10 ^ point else NGX_ERROR)"
proof (induction point arbitrary: v)
  case (Suc point)
  show ?case
  proof (cases "v > NGX_MAX_INT_T_VALUE div 10")
    case True
    then have "NGX_MAX_INT_T_VALUE < v * 10" by (simp add: NGX_MAX_INT_T_VALUE_def)
    also have "\<dots> \<le> v * 10 * 10 ^ point"
      using Suc.prems mult_left_mono [of 1 "10 ^ point" "v * 10"] by simp
    finally show ?thesis using True by (simp add: mult.assoc)
  next
    case False
    then have "v * 10 \<le> NGX_MAX_INT_T_VALUE" by (simp add: NGX_MAX_INT_T_VALUE_def)
    with False Suc show ?thesis by (simp add: mult.assoc)
  qed
qed simp

lemma mono_scaled: "0 \<le> v \<Longrightarrow> v > mx \<Longrightarrow> v * 10 ^ k > (mx::int)"
  by (meson le_less_trans mult_le_cancel_left1 not_le one_le_power order.strict_trans2
      one_le_numeral order_le_less)

text \<open>The fractional part, after the point: each digit uses up one of \<open>point\<close>.\<close>

lemma atofp_frac:
  assumes "list_all digit fp" "length fp \<le> point" "0 \<le> v" "v \<le> NGX_MAX_INT_T_VALUE"
  shows "atofp_loop fp point True v =
     (let w = dec_from v fp * 10 ^ (point - length fp) in
      if w \<le> NGX_MAX_INT_T_VALUE then w else NGX_ERROR)"
  using assms
proof (induction fp arbitrary: point v)
  case Nil
  then show ?case by (simp add: atofp_scale_spec Let_def)
next
  case (Cons c fp)
  let ?w = "v * 10 + int (digit_val c)"
  from Cons.prems have c: "digit c" "point \<noteq> 0" "c \<noteq> CHR ''.''" "int (digit_val c) \<le> 9"
    using digit_val_le [of c] by (auto simp: digit_def less_eq_char_def)
  show ?case
  proof (cases "?w > NGX_MAX_INT_T_VALUE")
    case True
    have "?w \<le> dec_from ?w fp" using Cons.prems by (intro dec_from_ge) simp
    then have "dec_from ?w fp * 10 ^ (point - Suc (length fp)) > NGX_MAX_INT_T_VALUE"
      using True Cons.prems by (intro mono_scaled) auto
    with True c show ?thesis by (simp add: not_digit_iff dec_guard)
  next
    case False
    with c Cons show ?thesis by (simp add: not_digit_iff dec_guard)
  qed
qed

lemma atofp_int:
  assumes "list_all digit ip" "0 < point" "0 \<le> v" "v \<le> NGX_MAX_INT_T_VALUE"
  shows "atofp_loop (ip @ rest) point False v =
     (if dec_from v ip \<le> NGX_MAX_INT_T_VALUE then atofp_loop rest point False (dec_from v ip)
      else NGX_ERROR)"
  using assms
proof (induction ip arbitrary: v)
  case (Cons c ip)
  let ?w = "v * 10 + int (digit_val c)"
  from Cons.prems have c: "digit c" "c \<noteq> CHR ''.''" "int (digit_val c) \<le> 9"
    using digit_val_le [of c] by (auto simp: digit_def less_eq_char_def)
  have ge: "?w \<le> dec_from ?w ip" using Cons.prems by (intro dec_from_ge) simp
  with c Cons show ?case by (cases "?w > NGX_MAX_INT_T_VALUE") (simp_all add: not_digit_iff dec_guard)
qed simp

text \<open>
  \<open>ngx_atofp\<close> with at least one fractional digit asked for reads \<open>ip.fp\<close> as the integer
  \<open>ip fp\<close> scaled to \<open>point\<close> fractional digits (\<open>10.5\<close> with two is \<open>1050\<close>), and answers
  \<open>NGX_ERROR\<close> exactly when that integer does not fit 64 bits; no intermediate product overflows.
\<close>

theorem atofp_spec:
  assumes "list_all digit ip" "list_all digit fp" "0 < point" "length fp \<le> point"
  shows "ngx_atofp (ip @ CHR ''.'' # fp) point =
     (let w = dec_from 0 (ip @ fp) * 10 ^ (point - length fp) in if w \<le> 2 ^ 63 - 1 then w else NGX_ERROR)"
proof -
  let ?v = "dec_from 0 ip" and ?k = "10 ^ (point - length fp) :: int"
  have v: "0 \<le> ?v" using dec_from_ge [of 0 ip] by simp
  have run: "ngx_atofp (ip @ CHR ''.'' # fp) point =
      (if ?v \<le> NGX_MAX_INT_T_VALUE then atofp_loop fp point True ?v else NGX_ERROR)"
    using assms atofp_int [of ip point 0 "CHR ''.'' # fp"]
    by (simp add: ngx_atofp_def NGX_MAX_INT_T_VALUE_def)
  show ?thesis
  proof (cases "?v \<le> NGX_MAX_INT_T_VALUE")
    case True
    with run v assms show ?thesis
      by (simp add: atofp_frac Let_def dec_from_append NGX_MAX_INT_T_VALUE_def)
  next
    case False
    have "?v \<le> dec_from ?v fp" using v by (rule dec_from_ge)
    then have "dec_from ?v fp * ?k > NGX_MAX_INT_T_VALUE"
      using False v by (intro mono_scaled) auto
    with False run show ?thesis by (simp add: Let_def dec_from_append NGX_MAX_INT_T_VALUE_def)
  qed
qed

theorem atofp_spec_witness:
  "ngx_atofp ''10.5'' 2 = 1050"
  using atofp_spec [of "''10''" "''5''" 2]
  by (simp add: digit_def less_eq_char_def digit_val_def)

section \<open>Printing and reading\<close>

lemma digit_of_val: "n < 10 \<Longrightarrow> digit (chr (n + 48)) \<and> digit_val (chr (n + 48)) = n"
  by (simp add: digit_def digit_val_def less_eq_char_def)

lemma num_dec_app: "num_dec n p = num_dec n [] @ p"
proof (induction n arbitrary: p rule: less_induct)
  case (less n)
  show ?case
  proof (cases "n div 10 = 0")
    case True
    then show ?thesis by (simp add: num_dec.simps [of n])
  next
    case False
    then have "n div 10 < n" by simp
    from less.IH [OF this, of "chr (n mod 10 + 48) # p"] less.IH [OF this, of "[chr (n mod 10 + 48)]"]
    show ?thesis using False by (simp add: num_dec.simps [of n] Let_def)
  qed
qed

lemma num_dec_snoc:
  "num_dec n [] = (if n div 10 = 0 then [] else num_dec (n div 10) []) @ [chr (n mod 10 + 48)]"
  using num_dec_app [of "n div 10" "[chr (n mod 10 + 48)]"]
  by (simp add: num_dec.simps [of n] Let_def)

lemma num_dec_value: "list_all digit (num_dec n []) \<and> num_dec n [] \<noteq> [] \<and> dec_from 0 (num_dec n []) = int n"
proof (induction n rule: less_induct)
  case (less n)
  have d: "digit (chr (n mod 10 + 48))" "digit_val (chr (n mod 10 + 48)) = n mod 10"
    using digit_of_val [of "n mod 10"] by simp_all
  show ?case
  proof (cases "n div 10 = 0")
    case True
    then have "n mod 10 = n" by (simp add: div_eq_0_iff)
    with True d show ?thesis by (simp add: num_dec_snoc [of n])
  next
    case False
    then have "n div 10 < n" by simp
    moreover have "int (n div 10) * 10 + int (n mod 10) = int n" by presburger
    ultimately show ?thesis using less.IH [of "n div 10"] d False
      by (simp add: num_dec_snoc [of n] dec_from_append)
  qed
qed

lemma num_dec_length: "n < 10 ^ k \<Longrightarrow> 0 < k \<Longrightarrow> length (num_dec n []) \<le> k"
proof (induction k arbitrary: n)
  case (Suc k)
  show ?case
  proof (cases "n div 10 = 0")
    case True
    then show ?thesis by (simp add: num_dec_snoc [of n])
  next
    case False
    then have "0 < k" using Suc.prems by (cases k) auto
    moreover have "n div 10 < 10 ^ k" using Suc.prems by (intro less_mult_imp_div_less) (simp add: mult.commute)
    ultimately show ?thesis using Suc.IH [of "n div 10"] False by (simp add: num_dec_snoc [of n])
  qed
qed simp

lemma num_digits_dec: "num_digits n 0 = num_dec n []"
  by (simp add: num_digits_def)

lemma dec_from_zeros: "dec_from 0 (replicate k (CHR ''0'') @ xs) = dec_from 0 xs"
  by (induction k) (simp_all add: digit_val_def)

text \<open>
  \<open>ngx_sprintf_num\<close> writes no byte at or past \<open>last\<close>, and the decimal digits of a 64-bit
  number fit its 20-byte scratch buffer. Where the number fits the room, what it prints, zero
  padded or not, is read back by \<open>ngx_atoi\<close> as the same number.
\<close>

theorem sprintf_num_atoi:
  assumes "n < 2 ^ 64"
  shows "length (ngx_sprintf_num room n zero 0 width) \<le> room \<and> length (num_digits n 0) \<le> 20 \<and>
     (20 \<le> room \<longrightarrow> width \<le> room \<longrightarrow> n < 2 ^ 63 \<longrightarrow>
        ngx_atoi (ngx_sprintf_num room n (CHR ''0'') 0 width) = int n)"
proof -
  have len: "length (num_dec n []) \<le> 20"
    by (rule num_dec_length) (use assms in simp_all)
  have "ngx_atoi (ngx_sprintf_num room n (CHR ''0'') 0 width) = int n"
    if "20 \<le> room" "width \<le> room" "n < 2 ^ 63"
  proof -
    have "ngx_sprintf_num room n (CHR ''0'') 0 width =
        replicate (width - length (num_dec n [])) (CHR ''0'') @ num_dec n []"
      using that len le_trans [OF diff_le_self that(2)]
      by (simp add: ngx_sprintf_num_def num_digits_dec Let_def min.absorb1)
    moreover have "list_all digit (replicate k (CHR ''0''))" for k
      by (induction k) (simp_all add: digit_def)
    ultimately show ?thesis
      using num_dec_value [of n] that
      by (intro atoi.read_digits) (simp_all add: dec_from_zeros NGX_MAX_INT_T_VALUE_def)
  qed
  moreover have "length (ngx_sprintf_num room n zero 0 width) \<le> room"
    by (auto simp: ngx_sprintf_num_def Let_def min_def)
  ultimately show ?thesis using len by (simp add: num_digits_dec)
qed

theorem sprintf_num_atoi_witness:
  "ngx_atoi (ngx_sprintf_num 20 6379 (CHR ''0'') 0 5) = 6379"
  using sprintf_num_atoi [of 6379 20 "CHR ''0''" 5] by simp

end
