(* ===== verification/Http_Chunked.thy ===== *)
theory Http_Chunked
  imports Ngx_Number
begin

text \<open>
  Chunked transfer coding: the parser \<open>ngx_http_parse_chunked\<close> of
  \<open>nginx-master/src/http/ngx_http_parse.c\<close>, the request body filter
  \<open>ngx_http_request_body_chunked_filter\<close> of \<open>ngx_http_request_body.c\<close> that drives it over the
  received buffers, and the output filter of \<open>modules/ngx_http_chunked_filter_module.c\<close> that
  writes the coding. \<open>off_t\<close> values are natural numbers with the code's guards against
  \<open>NGX_MAX_OFF_T_VALUE\<close>.
\<close>

section \<open>The parser\<close>

datatype ck_state =
    ck_chunk_start | ck_chunk_size | ck_chunk_extension | ck_chunk_extension_almost_done
  | ck_chunk_data | ck_after_data | ck_after_data_almost_done | ck_last_chunk_extension
  | ck_last_chunk_extension_almost_done | ck_trailer | ck_trailer_almost_done
  | ck_trailer_header | ck_trailer_header_almost_done

record ngx_http_chunked =
  ck_st :: ck_state
  ck_size :: nat
  ck_length :: nat

datatype ck_label = ck_data | ck_done | ck_invalid

abbreviation NGX_MAX_OFF_T_VALUE :: nat where "NGX_MAX_OFF_T_VALUE \<equiv> 9223372036854775807"

type_synonym ck_out = "(ck_state, nat, ck_label) sw"

text \<open>The cases of the switch; the object carried along is \<open>ctx->size\<close>.\<close>

definition ck_sw_chunk_start :: "char \<Rightarrow> nat \<Rightarrow> ck_out" where
  "ck_sw_chunk_start ch sz =
     (if digit ch then Break ck_chunk_size (digit_val ch)
      else if hexalpha20 ch then Break ck_chunk_size (hexalpha_val ch)
      else Goto ck_invalid sz)"

definition ck_sw_chunk_size :: "char \<Rightarrow> nat \<Rightarrow> ck_out" where
  "ck_sw_chunk_size ch sz =
     (if sz > NGX_MAX_OFF_T_VALUE div 16 then Goto ck_invalid sz
      else if digit ch then Break ck_chunk_size (sz * 16 + digit_val ch)
      else if hexalpha20 ch then Break ck_chunk_size (sz * 16 + hexalpha_val ch)
      else if sz = 0 then
        (if ch = CR then Break ck_last_chunk_extension_almost_done sz
         else if ch = LF then Break ck_trailer sz
         else if ch = CHR '';'' \<or> ch = SP \<or> ch = HTAB then Break ck_last_chunk_extension sz
         else Goto ck_invalid sz)
      else if ch = CR then Break ck_chunk_extension_almost_done sz
      else if ch = LF then Break ck_chunk_data sz
      else if ch = CHR '';'' \<or> ch = SP \<or> ch = HTAB then Break ck_chunk_extension sz
      else Goto ck_invalid sz)"

text \<open>A line whose content is skipped, ended by \<open>LF\<close>, with \<open>almost\<close> the state after its \<open>CR\<close>.\<close>

definition ck_skip_line :: "ck_state \<Rightarrow> ck_state \<Rightarrow> ck_state \<Rightarrow> char \<Rightarrow> nat \<Rightarrow> ck_out" where
  "ck_skip_line here almost next ch sz =
     (if ch = CR then Break almost sz else if ch = LF then Break next sz else Break here sz)"

definition ck_expect_lf :: "ck_state \<Rightarrow> char \<Rightarrow> nat \<Rightarrow> ck_out" where
  "ck_expect_lf next ch sz = (if ch = LF then Break next sz else Goto ck_invalid sz)"

definition ck_sw_trailer :: "char \<Rightarrow> nat \<Rightarrow> ck_out" where
  "ck_sw_trailer ch sz =
     (if ch = CR then Break ck_trailer_almost_done sz
      else if ch = LF then Goto ck_done sz
      else Break ck_trailer_header sz)"

definition ck_sw_trailer_almost_done :: "char \<Rightarrow> nat \<Rightarrow> ck_out" where
  "ck_sw_trailer_almost_done ch sz = (if ch = LF then Goto ck_done sz else Goto ck_invalid sz)"

fun ck_body :: "nat \<Rightarrow> char \<Rightarrow> ck_state \<Rightarrow> nat \<Rightarrow> ck_out" where
  "ck_body p ch ck_chunk_start n = ck_sw_chunk_start ch n"
| "ck_body p ch ck_chunk_size n = ck_sw_chunk_size ch n"
| "ck_body p ch ck_chunk_extension n =
     ck_skip_line ck_chunk_extension ck_chunk_extension_almost_done ck_chunk_data ch n"
| "ck_body p ch ck_chunk_extension_almost_done n = ck_expect_lf ck_chunk_data ch n"
| "ck_body p ch ck_chunk_data n = Goto ck_data n"
| "ck_body p ch ck_after_data n =
     ck_skip_line ck_after_data ck_after_data_almost_done ck_chunk_start ch n"
| "ck_body p ch ck_after_data_almost_done n = ck_expect_lf ck_chunk_start ch n"
| "ck_body p ch ck_last_chunk_extension n =
     ck_skip_line ck_last_chunk_extension ck_last_chunk_extension_almost_done ck_trailer ch n"
| "ck_body p ch ck_last_chunk_extension_almost_done n = ck_expect_lf ck_trailer ch n"
| "ck_body p ch ck_trailer n = ck_sw_trailer ch n"
| "ck_body p ch ck_trailer_almost_done n = ck_sw_trailer_almost_done ch n"
| "ck_body p ch ck_trailer_header n =
     ck_skip_line ck_trailer_header ck_trailer_header_almost_done ck_trailer ch n"
| "ck_body p ch ck_trailer_header_almost_done n = ck_expect_lf ck_trailer ch n"

text \<open>The switch after label \<open>data\<close>: \<open>ctx->length\<close>.\<close>

fun ck_min_length :: "ck_state \<Rightarrow> nat \<Rightarrow> nat" where
  "ck_min_length ck_chunk_start sz = 3"
| "ck_min_length ck_chunk_size sz = 1 + (if sz \<noteq> 0 then sz + 4 else 1)"
| "ck_min_length ck_chunk_extension sz = 1 + sz + 4"
| "ck_min_length ck_chunk_extension_almost_done sz = 1 + sz + 4"
| "ck_min_length ck_chunk_data sz = sz + 4"
| "ck_min_length ck_after_data sz = 4"
| "ck_min_length ck_after_data_almost_done sz = 4"
| "ck_min_length ck_last_chunk_extension sz = 2"
| "ck_min_length ck_last_chunk_extension_almost_done sz = 2"
| "ck_min_length ck_trailer sz = 1"
| "ck_min_length ck_trailer_almost_done sz = 1"
| "ck_min_length ck_trailer_header sz = 2"
| "ck_min_length ck_trailer_header_almost_done sz = 2"

definition ck_data_label ::
    "ngx_http_chunked \<Rightarrow> ngx_int \<Rightarrow> ck_state \<Rightarrow> nat \<Rightarrow> nat \<Rightarrow> ngx_int \<times> ngx_http_chunked \<times> nat" where
  "ck_data_label ctx rc state sz pos =
     (let ctx1 = ctx\<lparr>ck_st := state, ck_size := sz\<rparr> in
      if sz > NGX_MAX_OFF_T_VALUE - 5 then (NGX_ERROR, ctx1, pos)
      else (rc, ctx1\<lparr>ck_length := ck_min_length state sz\<rparr>, pos))"

definition ck_enter :: "ck_state \<Rightarrow> nat \<Rightarrow> ck_state" where
  "ck_enter state sz = (if state = ck_chunk_data \<and> sz = 0 then ck_after_data else state)"

definition ngx_http_parse_chunked ::
    "ngx_http_chunked \<Rightarrow> bytes \<Rightarrow> nat \<Rightarrow> ngx_int \<times> ngx_http_chunked \<times> nat" where
  "ngx_http_parse_chunked ctx buf pos =
     (case sw_loop ck_body pos (drop pos buf) (ck_enter (ck_st ctx) (ck_size ctx)) (ck_size ctx) of
        Exhausted p s sz \<Rightarrow> ck_data_label ctx NGX_AGAIN s sz p
      | Returned c p sz \<Rightarrow> (c, ctx\<lparr>ck_size := sz\<rparr>, pos)
      | Jumped l p sz \<Rightarrow>
          (case l of
             ck_data \<Rightarrow> ck_data_label ctx NGX_OK ck_chunk_data sz p
           | ck_done \<Rightarrow> (NGX_DONE, ctx\<lparr>ck_st := ck_chunk_start, ck_size := sz\<rparr>, p + 1)
           | ck_invalid \<Rightarrow> (NGX_ERROR, ctx\<lparr>ck_size := sz\<rparr>, pos)))"

lemmas ck_defs = ck_sw_chunk_start_def ck_sw_chunk_size_def ck_skip_line_def ck_expect_lf_def
  ck_sw_trailer_def ck_sw_trailer_almost_done_def

section \<open>The request body filter\<close>

abbreviation NGX_HTTP_BAD_REQUEST :: ngx_int where "NGX_HTTP_BAD_REQUEST \<equiv> 400"
abbreviation NGX_HTTP_REQUEST_ENTITY_TOO_LARGE :: ngx_int where "NGX_HTTP_REQUEST_ENTITY_TOO_LARGE \<equiv> 413"
abbreviation NGX_HTTP_INTERNAL_SERVER_ERROR :: ngx_int where "NGX_HTTP_INTERNAL_SERVER_ERROR \<equiv> 500"

text \<open>
  \<open>rb->rest\<close> (\<open>-1\<close> before the first call), \<open>rb->chunked\<close>, the \<open>content_length_n\<close> counted so far,
  and the buffers passed on, as the bytes of each in order; \<open>rb_last\<close> is whether a buffer with
  \<open>last_buf\<close> was passed on.
\<close>

record chunked_rb =
  rb_rest :: int
  rb_chunked :: ngx_http_chunked
  content_length_n :: nat
  rb_out :: "bytes list"
  rb_last :: bool

lemma ck_body_not_return: "ck_body p ch s n \<noteq> Return c n'"
  by (cases s) (auto simp: ck_defs)

lemma ck_body_data: "ck_body p ch s n = Goto ck_data n' \<longleftrightarrow> s = ck_chunk_data \<and> n' = n"
  by (cases s) (auto simp: ck_defs)

lemma ck_loop_not_returned: "sw_loop ck_body p xs s n \<noteq> Returned c q n'"
  using sw_loop_returned [of ck_body p xs s n c q n' "\<lambda>_. False"] ck_body_not_return by blast

lemma parse_chunked_ok_progress:
  assumes "ngx_http_parse_chunked ctx buf pos = (NGX_OK, ctx', p)"
  shows "pos \<le> p \<and> p < length buf \<and> (pos < p \<or> ck_size ctx' \<noteq> 0)"
proof -
  let ?s = "ck_enter (ck_st ctx) (ck_size ctx)"
  obtain sz where jump: "sw_loop ck_body pos (drop pos buf) ?s (ck_size ctx) = Jumped ck_data p sz"
    and c: "ck_size ctx' = sz"
    using assms ck_loop_not_returned
    by (fastforce simp: ngx_http_parse_chunked_def ck_data_label_def Let_def
        split: sw_exit.splits ck_label.splits if_splits)
  have b: "pos \<le> p" "p < length buf" using sw_loop_jumped [OF jump] by auto
  then obtain ch xs where d: "drop pos buf = ch # xs" by (metis drop_eq_Nil le_less_trans leD list.exhaust)
  note jump' = jump [unfolded d]
  have "sz \<noteq> 0" if "pos = p"
  proof (cases "ck_body pos ch ?s (ck_size ctx)")
    case (Break s' n')
    then show ?thesis using jump' that sw_loop_jumped [of ck_body "Suc pos" xs s' n' ck_data p sz] by simp
  next
    case (Goto l n')
    with jump' have "ck_body pos ch ?s (ck_size ctx) = Goto ck_data sz" by simp
    then show ?thesis by (auto simp: ck_body_data ck_enter_def split: if_splits)
  next
    case (Return c n')
    then show ?thesis using ck_body_not_return by blast
  qed
  with b c show ?thesis by (cases "pos = p") auto
qed

text \<open>
  The inner loop on the buffer \<open>buf\<close> from \<open>cl->buf->pos = pos\<close>. \<open>mx\<close> is
  \<open>client_max_body_size\<close>, \<open>pool\<close> whether allocations succeed; \<open>Inl\<close> is the status returned.
\<close>

function chunked_buf :: "nat \<Rightarrow> bool \<Rightarrow> chunked_rb \<Rightarrow> bytes \<Rightarrow> nat \<Rightarrow> ngx_int + chunked_rb" where
  "chunked_buf mx pool rb buf pos =
     (case ngx_http_parse_chunked (rb_chunked rb) buf pos of
        (rc, ctx, p) \<Rightarrow>
          if rc = NGX_OK then
            (if mx \<noteq> 0 \<and> int mx - int (content_length_n rb) < int (ck_size ctx)
             then Inl NGX_HTTP_REQUEST_ENTITY_TOO_LARGE
             else if \<not> pool then Inl NGX_HTTP_INTERNAL_SERVER_ERROR
             else
               (let sz = length buf - p;
                    n = (if sz > ck_size ctx then ck_size ctx else sz) in
                chunked_buf mx pool
                  (rb\<lparr>rb_chunked := ctx\<lparr>ck_size := ck_size ctx - n\<rparr>,
                      content_length_n := content_length_n rb + n,
                      rb_out := rb_out rb @ [slice buf p (p + n)]\<rparr>)
                  buf (p + n)))
          else if rc = NGX_DONE then
            (if \<not> pool then Inl NGX_HTTP_INTERNAL_SERVER_ERROR
             else Inr (rb\<lparr>rb_chunked := ctx, rb_rest := 0, rb_last := True\<rparr>))
          else if rc = NGX_AGAIN then
            Inr (rb\<lparr>rb_chunked := ctx, rb_rest := int (ck_length ctx)\<rparr>)
          else Inl NGX_HTTP_BAD_REQUEST)"
  by pat_completeness auto
termination
proof (relation "measure (\<lambda>(mx, pool, rb, buf, pos). length buf - pos)", goal_cases)
  case (2 mx pool rb buf pos x y ctx p)
  then have "ngx_http_parse_chunked (rb_chunked rb) buf pos = (NGX_OK, ctx, p)" by simp
  from parse_chunked_ok_progress [OF this] 2 show ?case by (auto split: if_splits)
qed simp

declare chunked_buf.simps [simp del]

text \<open>The loop over the chain \<open>in\<close>, and the initialisation of the first call.\<close>

fun chunked_chain :: "nat \<Rightarrow> bool \<Rightarrow> chunked_rb \<Rightarrow> bytes list \<Rightarrow> ngx_int + chunked_rb" where
  "chunked_chain mx pool rb [] = Inr rb"
| "chunked_chain mx pool rb (b # bs) =
     (case chunked_buf mx pool rb b 0 of
        Inl e \<Rightarrow> Inl e
      | Inr rb' \<Rightarrow> chunked_chain mx pool rb' bs)"

definition ngx_http_request_body_chunked_filter ::
    "nat \<Rightarrow> bool \<Rightarrow> chunked_rb \<Rightarrow> bytes list \<Rightarrow> ngx_int + chunked_rb" where
  "ngx_http_request_body_chunked_filter mx pool rb bufs =
     (if rb_rest rb = - 1 then
        (if \<not> pool then Inl NGX_HTTP_INTERNAL_SERVER_ERROR
         else chunked_chain mx pool
                (rb\<lparr>rb_chunked := \<lparr>ck_st = ck_chunk_start, ck_size = 0, ck_length = 0\<rparr>,
                    content_length_n := 0, rb_rest := 3\<rparr>) bufs)
      else chunked_chain mx pool rb bufs)"

section \<open>The output filter\<close>

text \<open>
  A trailer is its \<open>hash\<close> (zero when removed), key and value. \<open>ngx_http_chunked_create_trailers\<close>
  computes the length first and has a fixed string for the common case without trailers.
\<close>

definition trailer_len :: "(nat \<times> bytes \<times> bytes) list \<Rightarrow> nat" where
  "trailer_len ts = sum_list (map (\<lambda>(h, k, v). if h = 0 then 0 else length k + 2 + length v + 2) ts)"

definition ngx_http_chunked_create_trailers :: "(nat \<times> bytes \<times> bytes) list \<Rightarrow> bytes" where
  "ngx_http_chunked_create_trailers ts =
     (if trailer_len ts = 0 then [CR, LF, CHR ''0'', CR, LF, CR, LF]
      else [CR, LF, CHR ''0'', CR, LF] @
           concat (map (\<lambda>(h, k, v). if h = 0 then [] else k @ '': '' @ v @ [CR, LF]) ts) @ [CR, LF])"

text \<open>
  The bytes \<open>ngx_http_chunked_body_filter\<close> sends down for one call: the buffers of the chain, and
  \<open>last\<close> the flag of the final one. \<open>tl->buf->pos += 2\<close> drops the leading line end when there is
  no data in front of the last chunk. This is the filter of a chunked response with a body; for any
  other response (\<open>!r->chunked\<close>, \<open>r->header_only\<close>) and for no chain at all it only calls the next filter.
\<close>

definition ngx_http_chunked_body_filter ::
    "(nat \<times> bytes \<times> bytes) list \<Rightarrow> bytes list \<Rightarrow> bool \<Rightarrow> bytes" where
  "ngx_http_chunked_body_filter ts bufs lst =
     (let sz = sum_list (map length bufs) in
      (if sz \<noteq> 0 then num_digits sz 1 @ [CR, LF] else []) @
      concat bufs @
      (if lst then (if sz = 0 then drop 2 else id) (ngx_http_chunked_create_trailers ts)
       else if sz > 0 then [CR, LF]
       else []))"

section \<open>The coding byte by byte\<close>

text \<open>
  The reference machine: one byte at a time, with the data bytes it passes on. It has no buffers,
  so it says what the coding means independently of how the bytes arrived.
\<close>

datatype ck_next = CkMore ck_state nat bytes | CkDone | CkBad

definition ck_feed :: "ck_state \<Rightarrow> nat \<Rightarrow> char \<Rightarrow> ck_next" where
  "ck_feed s n c =
     (let s' = ck_enter s n in
      if s' = ck_chunk_data then CkMore ck_chunk_data (n - 1) [c]
      else (case ck_body 0 c s' n of
              Break s2 n2 \<Rightarrow> CkMore s2 n2 []
            | Goto l _ \<Rightarrow> if l = ck_done then CkDone else CkBad
            | Return _ _ \<Rightarrow> CkBad))"

type_synonym ck_result = "(bool \<times> ck_state \<times> nat \<times> bytes \<times> bytes) option"

definition ck_prepend :: "bytes \<Rightarrow> ck_result \<Rightarrow> ck_result" where
  "ck_prepend o1 = map_option (\<lambda>(d, s, n, o2, rest). (d, s, n, o1 @ o2, rest))"

text \<open>Whether the end was reached, the state, the bytes passed on, and the bytes left over.\<close>

fun ck_run :: "ck_state \<Rightarrow> nat \<Rightarrow> bytes \<Rightarrow> ck_result" where
  "ck_run s n [] = Some (False, s, n, [], [])"
| "ck_run s n (c # cs) =
     (case ck_feed s n c of
        CkBad \<Rightarrow> None
      | CkDone \<Rightarrow> Some (True, ck_chunk_start, n, [], cs)
      | CkMore s' n' out \<Rightarrow> ck_prepend out (ck_run s' n' cs))"

lemma ck_prepend_simps [simp]:
  "ck_prepend o1 None = None" "ck_prepend o1 (Some (d, s, n, o2, rest)) = Some (d, s, n, o1 @ o2, rest)"
  "ck_prepend [] r = r" "ck_prepend o1 (ck_prepend o2 r) = ck_prepend (o1 @ o2) r"
  by (cases r; auto simp: ck_prepend_def)+

lemma ck_prepend_Some:
  "ck_prepend o1 r = Some (d, s, n, out, rest) \<longleftrightarrow> (\<exists>o2. r = Some (d, s, n, o2, rest) \<and> out = o1 @ o2)"
  by (cases r) (auto simp: ck_prepend_def)

lemma ck_enter_idem: "ck_enter (ck_enter s n) n = ck_enter s n"
  by (simp add: ck_enter_def)

lemma ck_run_enter: "ck_enter s n = ck_enter s' n \<Longrightarrow> xs \<noteq> [] \<Longrightarrow> ck_run s n xs = ck_run s' n xs"
  by (cases xs) (simp_all add: ck_feed_def)

lemma ck_body_pos: "ck_body p ch s n = ck_body 0 ch s n"
  by (cases s) simp_all

lemma ck_loop_run:
  "case sw_loop ck_body p xs s n of
     Exhausted q s' n' \<Rightarrow> ck_run s n xs = Some (False, s', n', [], [])
   | Jumped l q n' \<Rightarrow>
       (case l of
          ck_data \<Rightarrow> ck_run s n xs = ck_run ck_chunk_data n' (drop (q - p) xs)
        | ck_done \<Rightarrow> ck_run s n xs = Some (True, ck_chunk_start, n', [], drop (Suc (q - p)) xs)
        | ck_invalid \<Rightarrow> ck_run s n xs = None)
   | Returned c q n' \<Rightarrow> False"
proof (induction xs arbitrary: p s n)
  case (Cons c xs)
  show ?case
  proof (cases "s = ck_chunk_data")
    case False
    then have e: "ck_enter s n = s" by (simp add: ck_enter_def)
    show ?thesis
    proof (cases "ck_body p c s n")
      case (Break s1 n1)
      then have f: "ck_feed s n c = CkMore s1 n1 []"
        using False e ck_body_pos [of p c s n] by (simp add: ck_feed_def)
      show ?thesis
      proof (cases "sw_loop ck_body (Suc p) xs s1 n1")
        case (Jumped l q n2)
        then have "drop (q - p) (c # xs) = drop (q - Suc p) xs" "drop (Suc (q - p)) (c # xs) = drop (Suc (q - Suc p)) xs"
          using sw_loop_jumped [OF Jumped] by (simp_all add: Suc_diff_Suc drop_Cons')
        with Cons.IH [where p = "Suc p" and s = s1 and n = n1] Jumped Break f show ?thesis by (simp split: ck_label.splits)
      qed (use Cons.IH [where p = "Suc p" and s = s1 and n = n1] Break f in simp_all)
    next
      case (Goto l n1)
      then have "l \<noteq> ck_data" using False ck_body_data [of p c s n n1] by auto
      moreover have "n1 = n" if "l = ck_done"
        using Goto that by (cases s) (auto simp: ck_defs split: if_splits)
      ultimately show ?thesis using Goto False e ck_body_pos [of p c s n]
        by (cases l) (auto simp: ck_feed_def)
    next
      case (Return c n1)
      then show ?thesis using ck_body_not_return by blast
    qed
  qed simp
qed simp

lemma ck_run_data:
  "m \<le> n \<Longrightarrow> m \<le> length zs \<Longrightarrow>
     ck_run ck_chunk_data n zs = ck_prepend (take m zs) (ck_run ck_chunk_data (n - m) (drop m zs))"
proof (induction m arbitrary: n zs)
  case (Suc m)
  then obtain z zs' where z: "zs = z # zs'" by (cases zs) auto
  have "ck_run ck_chunk_data n zs = ck_prepend [z] (ck_run ck_chunk_data (n - 1) zs')"
    using Suc.prems by (simp add: z ck_feed_def ck_enter_def)
  also have "ck_run ck_chunk_data (n - 1) zs' =
      ck_prepend (take m zs') (ck_run ck_chunk_data (n - 1 - m) (drop m zs'))"
    using Suc.prems by (intro Suc.IH) (simp_all add: z)
  finally show ?case by (simp add: z)
qed simp

lemma ck_run_append:
  "ck_run s n (xs @ ys) =
     (case ck_run s n xs of
        None \<Rightarrow> None
      | Some (d, s', n', out, rest) \<Rightarrow>
          if d then Some (d, s', n', out, rest @ ys) else ck_prepend out (ck_run s' n' ys))"
proof (induction xs arbitrary: s n)
  case (Cons c xs)
  then show ?case by (cases "ck_feed s n c") (auto split: option.splits simp: ck_prepend_Some)
qed simp

lemma ck_run_done: "ck_run s n xs = Some (True, s', n', out, rest) \<Longrightarrow> s' = ck_chunk_start"
proof (induction xs arbitrary: s n out)
  case (Cons c xs)
  then show ?case by (cases "ck_feed s n c") (auto simp: ck_prepend_Some)
qed simp

lemma ck_run_data_ge:
  "ck_run ck_chunk_data n zs = Some (d, s', n', out, rest) \<Longrightarrow>
     n \<le> length out + (if s' = ck_chunk_data then n' else 0)"
proof (induction zs arbitrary: n out)
  case (Cons z zs)
  show ?case
  proof (cases n)
    case (Suc m)
    then obtain o2 where "ck_run ck_chunk_data m zs = Some (d, s', n', o2, rest)" "out = z # o2"
      using Cons.prems by (auto simp: ck_feed_def ck_enter_def ck_prepend_Some)
    with Cons.IH [of m o2] Suc show ?thesis by simp
  qed simp
qed simp

section \<open>The filter computes the coding, however it is cut into buffers\<close>

definition ck_ok :: "ck_state \<Rightarrow> nat \<Rightarrow> bool" where
  "ck_ok s n \<longleftrightarrow> (s \<noteq> ck_chunk_size \<longrightarrow> n \<le> NGX_MAX_OFF_T_VALUE div 16)"

lemma ck_feed_ok: "ck_ok s n \<Longrightarrow> ck_feed s n c = CkMore s' n' out \<Longrightarrow> ck_ok s' n'"
proof -
  assume ok: "ck_ok s n" and f: "ck_feed s n c = CkMore s' n' out"
  have "ck_ok s' n'" if b: "ck_body 0 c t n = Break s' n'" "ck_ok t n" for t
    using b by (cases t) (auto simp: ck_defs ck_ok_def split: if_splits)
  moreover have "ck_ok (ck_enter s n) n" using ok by (simp add: ck_ok_def ck_enter_def)
  moreover have "ck_ok s' n'" if "ck_enter s n = ck_chunk_data"
    using f ok that by (auto simp: ck_feed_def ck_ok_def ck_enter_def split: if_splits)
  ultimately show "ck_ok s' n'" using f
    by (cases "ck_enter s n = ck_chunk_data") (auto simp: ck_feed_def split: if_splits sw.splits)
qed

lemma ck_run_ok: "ck_ok s n \<Longrightarrow> ck_run s n xs = Some (False, s', n', out, rest) \<Longrightarrow> ck_ok s' n'"
proof (induction xs arbitrary: s n out)
  case (Cons c xs)
  then show ?case using ck_feed_ok [of s n c]
    by (cases "ck_feed s n c") (auto simp: ck_prepend_Some)
qed simp

text \<open>A state from which the coding goes on has a size the guards of the parser let pass.\<close>

lemma ck_run_small:
  assumes "ck_ok s n" "ck_run s n xs \<noteq> None" "xs \<noteq> []"
  shows "n \<le> NGX_MAX_OFF_T_VALUE div 16"
proof (cases "s = ck_chunk_size")
  case True
  with assms(2,3) show ?thesis
    by (cases xs) (auto simp: ck_feed_def ck_enter_def ck_sw_chunk_size_def split: if_splits)
next
  case False
  with assms(1) show ?thesis by (simp add: ck_ok_def)
qed

lemma ck_loop_data_ok:
  "sw_loop ck_body p xs s n = Jumped ck_data q n' \<Longrightarrow> ck_ok s n \<Longrightarrow> n' \<le> NGX_MAX_OFF_T_VALUE div 16"
proof (induction xs arbitrary: p s n)
  case (Cons c xs)
  show ?case
  proof (cases "ck_body p c s n")
    case (Break s1 n1)
    then have "ck_ok s1 n1"
      using Cons.prems(2) by (cases s) (auto simp: ck_defs ck_ok_def split: if_splits)
    with Cons Break show ?thesis by simp
  next
    case (Goto l n1)
    with Cons.prems(1) have "ck_body p c s n = Goto ck_data n'" by simp
    with Cons.prems(2) show ?thesis by (simp add: ck_body_data ck_ok_def)
  next
    case (Return c n1)
    then show ?thesis using ck_body_not_return by blast
  qed
qed simp

lemma chunked_buf_run:
  assumes "ck_run (ck_st (rb_chunked rb)) (ck_size (rb_chunked rb)) (drop pos buf) = Some (d, s', n', out, rest)"
    and "ck_ok (ck_st (rb_chunked rb)) (ck_size (rb_chunked rb))"
    and "\<not> d \<Longrightarrow> n' \<le> NGX_MAX_OFF_T_VALUE div 16"
    and "mx = 0 \<or> content_length_n rb + length out + (if s' = ck_chunk_data then n' else 0) \<le> mx"
  shows "\<exists>rb'. chunked_buf mx True rb buf pos = Inr rb' \<and>
      ck_enter (ck_st (rb_chunked rb')) n' = ck_enter s' n' \<and> ck_size (rb_chunked rb') = n' \<and>
      concat (rb_out rb') = concat (rb_out rb) @ out \<and>
      content_length_n rb' = content_length_n rb + length out \<and>
      rb_last rb' = (rb_last rb \<or> d) \<and> (d \<longrightarrow> rb_rest rb' = 0)"
  using assms
proof (induction "length buf - pos" arbitrary: rb pos out rule: less_induct)
  case less
  let ?ctx = "rb_chunked rb" and ?xs = "drop pos buf"
  let ?s = "ck_enter (ck_st ?ctx) (ck_size ?ctx)"
  have run: "ck_run ?s (ck_size ?ctx) ?xs = Some (d, if ?xs = [] then ?s else s', n', out, rest)"
    and s': "?xs = [] \<Longrightarrow> ck_st ?ctx = s'"
    using less.prems(1) ck_run_enter [of ?s "ck_size ?ctx" "ck_st ?ctx" ?xs] by (auto simp: ck_enter_idem)
  note loop = ck_loop_run [where p = pos and xs = ?xs and s = ?s and n = "ck_size ?ctx"]
  show ?case
  proof (cases "sw_loop ck_body pos ?xs ?s (ck_size ?ctx)")
    case (Exhausted q s1 n1)
    then have eq: "\<not> d" "n1 = n'" "out = []" "s1 = (if ?xs = [] then ?s else s')"
      using loop run by auto
    then have parse: "ngx_http_parse_chunked ?ctx buf pos =
        (NGX_AGAIN, ?ctx\<lparr>ck_st := s1, ck_size := n', ck_length := ck_min_length s1 n'\<rparr>, q)"
      using Exhausted less.prems(3) by (simp add: ngx_http_parse_chunked_def ck_data_label_def)
    have e: "ck_enter s1 n' = ck_enter s' n'"
      using eq s' Exhausted by (cases "?xs = []") (auto simp: ck_enter_idem)
    show ?thesis by (subst chunked_buf.simps) (simp add: parse e eq(1-3))
  next
    case (Jumped l q n1)
    have q: "pos \<le> q" "q < length buf" using sw_loop_jumped [OF Jumped] by auto
    then have ne: "?xs \<noteq> []" by simp
    have l: "l \<noteq> ck_invalid" using loop run Jumped by auto
    show ?thesis
    proof (cases "l = ck_done")
      case True
      then have "d" "s' = ck_chunk_start" "n' = n1" "out = []" using loop run Jumped ne by auto
      then show ?thesis using True Jumped
        by (subst chunked_buf.simps) (simp add: ngx_http_parse_chunked_def)
    next
      case False
      with l have lab: "l = ck_data" by (cases l) auto
      have xs: "drop (q - pos) ?xs = drop q buf" using q by simp
      then have run1: "ck_run ck_chunk_data n1 (drop q buf) = Some (d, s', n', out, rest)"
        using loop run Jumped lab ne by simp
      have "n1 \<le> NGX_MAX_OFF_T_VALUE div 16"
        by (rule ck_loop_data_ok [OF Jumped [unfolded lab]]) (use less.prems(2) in \<open>simp add: ck_ok_def ck_enter_def\<close>)
      then have parse: "ngx_http_parse_chunked ?ctx buf pos =
          (NGX_OK, ?ctx\<lparr>ck_st := ck_chunk_data, ck_size := n1, ck_length := n1 + 4\<rparr>, q)"
        using Jumped lab by (simp add: ngx_http_parse_chunked_def ck_data_label_def)
      let ?m = "min n1 (length buf - q)"
      have run2: "ck_run ck_chunk_data n1 (drop q buf) =
          ck_prepend (slice buf q (q + ?m)) (ck_run ck_chunk_data (n1 - ?m) (drop (q + ?m) buf))"
        using ck_run_data [of ?m n1 "drop q buf"] by (simp add: slice_def add.commute)
      then obtain o2 where o2: "out = slice buf q (q + ?m) @ o2"
        "ck_run ck_chunk_data (n1 - ?m) (drop (q + ?m) buf) = Some (d, s', n', o2, rest)"
        using run1 unfolding run2 ck_prepend_Some by blast
      have len: "length (slice buf q (q + ?m)) = ?m"
        using q by (subst length_slice) auto
      have fits: "\<not> (mx \<noteq> 0 \<and> int mx - int (content_length_n rb) < int n1)"
        using ck_run_data_ge [OF run1] less.prems(4) by auto
      define rb1 where "rb1 = rb\<lparr>rb_chunked := (?ctx\<lparr>ck_st := ck_chunk_data, ck_size := n1, ck_length := n1 + 4\<rparr>)\<lparr>ck_size := n1 - ?m\<rparr>,
          content_length_n := content_length_n rb + ?m, rb_out := rb_out rb @ [slice buf q (q + ?m)]\<rparr>"
      have step: "chunked_buf mx True rb buf pos = chunked_buf mx True rb1 buf (q + ?m)"
        using fits by (subst chunked_buf.simps) (auto simp: parse rb1_def Let_def min_def)
      have prog: "length buf - (q + ?m) < length buf - pos"
        using parse_chunked_ok_progress [OF parse] q by auto
      have "\<exists>rb'. chunked_buf mx True rb1 buf (q + ?m) = Inr rb' \<and>
          ck_enter (ck_st (rb_chunked rb')) n' = ck_enter s' n' \<and> ck_size (rb_chunked rb') = n' \<and>
          concat (rb_out rb') = concat (rb_out rb1) @ o2 \<and>
          content_length_n rb' = content_length_n rb1 + length o2 \<and>
          rb_last rb' = (rb_last rb1 \<or> d) \<and> (d \<longrightarrow> rb_rest rb' = 0)"
        by (rule less.hyps [OF prog])
          (use o2 len less.prems(3,4) \<open>n1 \<le> _\<close> in \<open>auto simp: rb1_def ck_ok_def\<close>)
      then show ?thesis using step o2(1) len by (auto simp: rb1_def)
    qed
  next
    case (Returned c q n1)
    then show ?thesis using ck_loop_not_returned by blast
  qed
qed

lemma chunked_chain_run:
  assumes "ck_run (ck_st (rb_chunked rb)) (ck_size (rb_chunked rb)) (concat bufs) = Some (True, s', n', out, [])"
    and "ck_ok (ck_st (rb_chunked rb)) (ck_size (rb_chunked rb))" "[] \<notin> set bufs"
    and "mx = 0 \<or> content_length_n rb + length out \<le> mx"
  shows "\<exists>rb'. chunked_chain mx True rb bufs = Inr rb' \<and> rb_rest rb' = 0 \<and> rb_last rb' \<and>
      concat (rb_out rb') = concat (rb_out rb) @ out \<and>
      content_length_n rb' = content_length_n rb + length out"
  using assms
proof (induction bufs arbitrary: rb out)
  case (Cons b bufs)
  let ?s = "ck_st (rb_chunked rb)" and ?n = "ck_size (rb_chunked rb)"
  obtain d s1 n1 o1 rest1 where b: "ck_run ?s ?n b = Some (d, s1, n1, o1, rest1)"
    and total: "Some (True, s', n', out, []) =
      (if d then Some (True, s1, n1, o1, rest1 @ concat bufs) else ck_prepend o1 (ck_run s1 n1 (concat bufs)))"
    using Cons.prems(1) by (auto simp: ck_run_append split: option.splits if_splits)
  show ?case
  proof (cases d)
    case True
    then have t: "out = o1" "s1 = s'" "n1 = n'" "bufs = []" "concat bufs = []"
      using total Cons.prems(3) by (cases bufs; auto)+
    have "s1 = ck_chunk_start" using b True by (auto dest: ck_run_done)
    then have "\<exists>rb'. chunked_buf mx True rb b 0 = Inr rb' \<and>
      ck_enter (ck_st (rb_chunked rb')) n1 = ck_enter s1 n1 \<and> ck_size (rb_chunked rb') = n1 \<and>
      concat (rb_out rb') = concat (rb_out rb) @ o1 \<and> content_length_n rb' = content_length_n rb + length o1 \<and>
      rb_last rb' = (rb_last rb \<or> d) \<and> (d \<longrightarrow> rb_rest rb' = 0)"
      using b Cons.prems t True by (intro chunked_buf_run) auto
    then show ?thesis using t True by auto
  next
    case False
    then obtain o2 where o2: "ck_run s1 n1 (concat bufs) = Some (True, s', n', o2, [])" "out = o1 @ o2"
      using total by (auto simp: ck_prepend_Some eq_commute)
    then have ne: "concat bufs \<noteq> []" by (cases "concat bufs") auto
    have ok1: "ck_ok s1 n1" using ck_run_ok [OF Cons.prems(2), of b s1 n1 o1 rest1] b False by simp
    then have small: "n1 \<le> NGX_MAX_OFF_T_VALUE div 16" using ck_run_small [OF ok1 _ ne] o2 by simp
    have pend: "(if s1 = ck_chunk_data then n1 else 0) \<le> length o2"
      using o2(1) ck_run_data_ge [of n1 "concat bufs"] ck_run_done [OF o2(1)] by (auto split: if_splits)
    have "\<exists>rb'. chunked_buf mx True rb b 0 = Inr rb' \<and>
      ck_enter (ck_st (rb_chunked rb')) n1 = ck_enter s1 n1 \<and> ck_size (rb_chunked rb') = n1 \<and>
      concat (rb_out rb') = concat (rb_out rb) @ o1 \<and> content_length_n rb' = content_length_n rb + length o1 \<and>
      rb_last rb' = (rb_last rb \<or> d) \<and> (d \<longrightarrow> rb_rest rb' = 0)"
      using b Cons.prems(2,4) small pend o2(2) by (intro chunked_buf_run) auto
    then obtain rb1 where rb1: "chunked_buf mx True rb b 0 = Inr rb1"
      "ck_enter (ck_st (rb_chunked rb1)) n1 = ck_enter s1 n1" "ck_size (rb_chunked rb1) = n1"
      "concat (rb_out rb1) = concat (rb_out rb) @ o1" "content_length_n rb1 = content_length_n rb + length o1"
      by blast
    have "ck_run (ck_st (rb_chunked rb1)) (ck_size (rb_chunked rb1)) (concat bufs) = Some (True, s', n', o2, [])"
      using ck_run_enter [OF rb1(2) ne] rb1(3) o2(1) by simp
    moreover have "ck_ok (ck_st (rb_chunked rb1)) (ck_size (rb_chunked rb1))"
      using small rb1(3) by (simp add: ck_ok_def)
    ultimately have "\<exists>rb'. chunked_chain mx True rb1 bufs = Inr rb' \<and> rb_rest rb' = 0 \<and> rb_last rb' \<and>
      concat (rb_out rb') = concat (rb_out rb1) @ o2 \<and> content_length_n rb' = content_length_n rb1 + length o2"
      using Cons.prems(3,4) rb1 o2 by (intro Cons.IH) auto
    then show ?thesis using rb1 o2 by auto
  qed
qed simp

section \<open>What the output filter writes\<close>

lemma ck_read_hexit:
  assumes "digit c \<or> hexalpha20 c"
  shows "ck_run ck_chunk_start m (c # xs) = ck_run ck_chunk_size (hexit_val c) xs"
    and "n \<le> NGX_MAX_OFF_T_VALUE div 16 \<Longrightarrow>
      ck_run ck_chunk_size n (c # xs) = ck_run ck_chunk_size (n * 16 + hexit_val c) xs"
  using assms by (auto simp: ck_feed_def ck_enter_def ck_defs hexit_val_def)

text \<open>The digits written by \<open>%xO\<close> are read back as the size.\<close>

lemma num_hex_app: "num_hex tab n p = num_hex tab n [] @ p"
proof (induction n arbitrary: p rule: less_induct)
  case (less n)
  show ?case
  proof (cases "drop_bit 4 n = 0")
    case True
    then show ?thesis by (simp add: num_hex.simps [of tab n])
  next
    case False
    then have "drop_bit 4 n < n" by (simp add: drop_bit_eq_div)
    from less.IH [OF this, of "tab ! (n AND 0xf) # p"] less.IH [OF this, of "[tab ! (n AND 0xf)]"]
    show ?thesis using False by (simp add: num_hex.simps [of tab n] Let_def)
  qed
qed

lemma and_15: "n AND (15::nat) = n mod 16"
  using take_bit_eq_mod [of 4 n] by (simp add: take_bit_eq_mask mask_eq_exp_minus_1)

lemma num_hex_snoc:
  "num_hex tab n [] = (if n div 16 = 0 then [] else num_hex tab (n div 16) []) @ [tab ! (n mod 16)]"
  using num_hex_app [of tab "n div 16" "[tab ! (n mod 16)]"]
  by (simp add: num_hex.simps [of tab n] Let_def drop_bit_eq_div and_15)

lemma ck_read_size:
  "n \<le> NGX_MAX_OFF_T_VALUE div 16 \<Longrightarrow>
     ck_run ck_chunk_start m (num_hex ''0123456789abcdef'' n [] @ xs) = ck_run ck_chunk_size n xs"
proof (induction n arbitrary: xs rule: less_induct)
  case (less n)
  let ?c = "''0123456789abcdef'' ! (n mod 16)"
  have c: "digit ?c \<or> hexalpha20 ?c" "hexit_val ?c = n mod 16" using hexit_lower [of "n mod 16"] by simp_all
  show ?case
  proof (cases "n div 16 = 0")
    case True
    then show ?thesis using c ck_read_hexit(1) [OF c(1)]
      by (simp add: num_hex_snoc [of _ n] div_eq_0_iff del: ck_run.simps)
  next
    case False
    then have "n div 16 < n" "n div 16 \<le> NGX_MAX_OFF_T_VALUE div 16" using less.prems by auto
    then have "ck_run ck_chunk_start m (num_hex ''0123456789abcdef'' (n div 16) [] @ ?c # xs) =
        ck_run ck_chunk_size (n div 16) (?c # xs)"
      using less.IH [of "n div 16"] by simp
    also have "\<dots> = ck_run ck_chunk_size (n div 16 * 16 + n mod 16) xs"
      using ck_read_hexit(2) [OF c(1)] c(2) \<open>n div 16 \<le> _\<close> by (simp del: ck_run.simps)
    finally show ?thesis using False by (simp add: num_hex_snoc [of _ n] del: ck_run.simps)
  qed
qed

text \<open>Trailers of the output filter: a name, and no line end inside name or value.\<close>

definition trailer_ok :: "nat \<times> bytes \<times> bytes \<Rightarrow> bool" where
  "trailer_ok t = (case t of (h, k, v) \<Rightarrow> k \<noteq> [] \<and> CR \<notin> set (k @ v) \<and> LF \<notin> set (k @ v))"

lemma ck_skip_trailer:
  "CR \<notin> set xs \<Longrightarrow> LF \<notin> set xs \<Longrightarrow> ck_run ck_trailer_header n (xs @ ys) = ck_run ck_trailer_header n ys"
  by (induction xs) (auto simp: ck_feed_def ck_enter_def ck_defs)

lemma ck_read_trailer:
  assumes "trailer_ok (h, k, v)"
  shows "ck_run ck_trailer n (k @ '': '' @ v @ CR # LF # ys) = ck_run ck_trailer n ys"
proof -
  obtain c k' where k: "k = c # k'" "c \<noteq> CR" "c \<noteq> LF" using assms by (cases k) (auto simp: trailer_ok_def)
  have "ck_run ck_trailer_header n ((k' @ '': '' @ v) @ CR # LF # ys) = ck_run ck_trailer n ys"
    using assms k by (subst ck_skip_trailer) (auto simp: trailer_ok_def ck_feed_def ck_enter_def ck_defs)
  then show ?thesis using k by (simp add: ck_feed_def ck_enter_def ck_defs)
qed

lemma ck_read_trailers:
  "\<forall>t\<in>set ts. trailer_ok t \<Longrightarrow>
     ck_run ck_trailer n (concat (map (\<lambda>(h, k, v). if h = 0 then [] else k @ '': '' @ v @ [CR, LF]) ts) @ ys) =
     ck_run ck_trailer n ys"
proof (induction ts)
  case (Cons t ts)
  obtain h k v where t: "t = (h, k, v)" by (cases t)
  show ?case
  proof (cases "h = 0")
    case False
    then show ?thesis using Cons ck_read_trailer [of h k v n] by (simp add: t del: ck_run.simps)
  qed (use Cons t in simp)
qed simp

lemma ck_read_last:
  assumes "\<forall>t\<in>set ts. trailer_ok t"
  shows "ck_run ck_chunk_start m (drop 2 (ngx_http_chunked_create_trailers ts)) =
     Some (True, ck_chunk_start, 0, [], [])"
proof -
  have zero: "ck_run ck_chunk_start m (CHR ''0'' # CR # LF # ys) = ck_run ck_trailer 0 ys" for ys
    by (simp add: ck_feed_def ck_enter_def ck_defs digit_def digit_val_def hexalpha20_iff less_eq_char_def)
  have fin: "ck_run ck_trailer 0 [CR, LF] = Some (True, ck_chunk_start, 0, [], [])"
    by (simp add: ck_feed_def ck_enter_def ck_defs)
  show ?thesis
    using zero fin ck_read_trailers [OF assms, of 0 "[CR, LF]"]
    by (simp add: ngx_http_chunked_create_trailers_def del: ck_run.simps)
qed

lemma ck_after_data_line: "ck_run ck_chunk_data 0 (CR # LF # ys) = ck_run ck_chunk_start 0 ys"
  by (simp add: ck_feed_def ck_enter_def ck_defs)

lemma num_digits_hex: "num_digits n 1 = num_hex ''0123456789abcdef'' n []"
  by (simp add: num_digits_def)

lemma ck_read_chunk:
  assumes "xs \<noteq> []" "length xs \<le> NGX_MAX_OFF_T_VALUE div 16"
  shows "ck_run ck_chunk_start m (num_digits (length xs) 1 @ CR # LF # xs @ CR # LF # ys) =
     ck_prepend xs (ck_run ck_chunk_start 0 ys)"
proof -
  let ?n = "length xs"
  have "ck_run ck_chunk_start m (num_digits ?n 1 @ CR # LF # xs @ CR # LF # ys) =
      ck_run ck_chunk_size ?n (CR # LF # xs @ CR # LF # ys)"
    unfolding num_digits_hex by (rule ck_read_size [OF assms(2)])
  also have "\<dots> = ck_run ck_chunk_data ?n (xs @ CR # LF # ys)"
    using assms by (simp add: ck_feed_def ck_enter_def ck_defs digit_def hexalpha20_iff less_eq_char_def)
  also have "\<dots> = ck_prepend xs (ck_run ck_chunk_data 0 (CR # LF # ys))"
    using ck_run_data [of ?n ?n "xs @ CR # LF # ys"] by simp
  finally show ?thesis by (simp only: ck_after_data_line)
qed

text \<open>One call of the output filter, with or without data, read from the start of a chunk.\<close>

lemma chunked_body_filter_eq:
  "ngx_http_chunked_body_filter ts bufs lst =
     (let x = concat bufs; tr = ngx_http_chunked_create_trailers ts in
      if x = [] then (if lst then drop 2 tr else [])
      else num_digits (length x) 1 @ CR # LF # x @ (if lst then tr else [CR, LF]))"
proof -
  have sz: "sum_list (map length bufs) = length (concat bufs)" by (simp add: length_concat)
  show ?thesis unfolding ngx_http_chunked_body_filter_def Let_def sz
    by (cases "concat bufs") (simp_all del: concat_eq_Nil_conv Nil_eq_concat_conv)
qed

lemma ck_read_call:
  assumes "sum_list (map length bufs) \<le> NGX_MAX_OFF_T_VALUE div 16"
  shows "ck_run ck_chunk_start 0 (ngx_http_chunked_body_filter ts bufs False @ ys) =
     ck_prepend (concat bufs) (ck_run ck_chunk_start 0 ys)"
  using assms ck_read_chunk [of "concat bufs" 0 ys]
  unfolding chunked_body_filter_eq Let_def length_concat [symmetric]
  by (cases "concat bufs = []") (simp_all del: concat_eq_Nil_conv ck_run.simps)

lemma ck_read_last_call:
  assumes "sum_list (map length bufs) \<le> NGX_MAX_OFF_T_VALUE div 16" "\<forall>t\<in>set ts. trailer_ok t"
  shows "ck_run ck_chunk_start 0 (ngx_http_chunked_body_filter ts bufs True) =
     Some (True, ck_chunk_start, 0, concat bufs, [])"
proof -
  let ?t = "ngx_http_chunked_create_trailers ts"
  have t: "CR # LF # drop 2 ?t = ?t" by (simp add: ngx_http_chunked_create_trailers_def)
  show ?thesis
    using assms(1) ck_read_last [OF assms(2), of 0] ck_read_chunk [of "concat bufs" 0 "drop 2 ?t", unfolded t]
    unfolding chunked_body_filter_eq Let_def length_concat [symmetric]
    by (cases "concat bufs = []") (simp_all del: concat_eq_Nil_conv ck_run.simps)
qed

lemma ck_read_calls:
  assumes "\<forall>bs\<in>set calls. sum_list (map length bs) \<le> NGX_MAX_OFF_T_VALUE div 16"
  shows "ck_run ck_chunk_start 0 (concat (map (\<lambda>bs. ngx_http_chunked_body_filter ts bs False) calls) @ ys) =
     ck_prepend (concat (concat calls)) (ck_run ck_chunk_start 0 ys)"
  using assms by (induction calls) (simp_all add: ck_read_call del: ck_run.simps)

text \<open>
  C8. What nginx's chunked output filter writes, in any number of calls and with any trailers, its
  chunked request body filter reads back as exactly the data, however the bytes on the wire are
  cut into buffers: it reaches the last buffer, wants no more bytes, and counts the body's
  length, provided the configured body limit is not exceeded.
\<close>

theorem chunked_roundtrip:
  assumes sizes: "\<forall>bs\<in>set (calls @ [final]). sum_list (map length bs) \<le> NGX_MAX_OFF_T_VALUE div 16"
    and ts: "\<forall>t\<in>set ts. trailer_ok t"
    and wire: "concat bufs = concat (map (\<lambda>bs. ngx_http_chunked_body_filter ts bs False) calls) @
        ngx_http_chunked_body_filter ts final True" "[] \<notin> set bufs"
    and rb: "rb_rest rb = - 1" "rb_out rb = []"
    and mx: "mx = 0 \<or> length (concat (concat (calls @ [final]))) \<le> mx"
  shows "\<exists>rb'. ngx_http_request_body_chunked_filter mx True rb bufs = Inr rb' \<and> rb_rest rb' = 0 \<and> rb_last rb' \<and>
     concat (rb_out rb') = concat (concat (calls @ [final])) \<and>
     content_length_n rb' = length (concat (concat (calls @ [final])))"
proof -
  have "ck_run ck_chunk_start 0 (concat bufs) =
      Some (True, ck_chunk_start, 0, concat (concat (calls @ [final])), [])"
    using sizes ts by (simp add: wire(1) ck_read_calls ck_read_last_call)
  with rb wire(2) mx show ?thesis
    using chunked_chain_run [of "rb\<lparr>rb_chunked := \<lparr>ck_st = ck_chunk_start, ck_size = 0, ck_length = 0\<rparr>,
        content_length_n := 0, rb_rest := 3\<rparr>" bufs ck_chunk_start 0 "concat (concat (calls @ [final]))" mx]
    by (simp add: ngx_http_request_body_chunked_filter_def ck_ok_def)
qed

theorem chunked_roundtrip_witness:
  "\<exists>rb'. ngx_http_request_body_chunked_filter 100 True
       \<lparr>rb_rest = - 1, rb_chunked = \<lparr>ck_st = ck_chunk_start, ck_size = 0, ck_length = 0\<rparr>,
        content_length_n = 0, rb_out = [], rb_last = False\<rparr>
       [ngx_http_chunked_body_filter [] [''ab'', ''c''] False, ngx_http_chunked_body_filter [] [] True] = Inr rb' \<and>
     concat (rb_out rb') = ''abc''"
proof -
  have "num_digits 3 1 \<noteq> []" unfolding num_digits_hex by (simp add: num_hex_snoc [of _ 3])
  then have "[] \<notin> set [ngx_http_chunked_body_filter [] [''ab'', ''c''] False, ngx_http_chunked_body_filter [] [] True]"
    by (simp add: ngx_http_chunked_body_filter_def ngx_http_chunked_create_trailers_def trailer_len_def)
  then show ?thesis
    using chunked_roundtrip [where calls = "[[''ab'', ''c'']]" and final = "[]" and ts = "[]" and mx = 100
        and bufs = "[ngx_http_chunked_body_filter [] [''ab'', ''c''] False, ngx_http_chunked_body_filter [] [] True]"
        and rb = "\<lparr>rb_rest = - 1, rb_chunked = \<lparr>ck_st = ck_chunk_start, ck_size = 0, ck_length = 0\<rparr>,
        content_length_n = 0, rb_out = [], rb_last = False\<rparr>"]
    by auto
qed

section \<open>How much is still to come\<close>

lemma ck_feed_min:
  "ck_feed s n c = CkMore s' n' out \<Longrightarrow> ck_min_length s n \<le> Suc (ck_min_length s' n')"
  "ck_feed s n c = CkDone \<Longrightarrow> ck_min_length s n \<le> 1"
  by (cases s; auto simp: ck_feed_def ck_enter_def ck_defs split: if_splits)+

lemma ck_run_min:
  "ck_run s n xs = Some (True, s', n', out, rest) \<Longrightarrow> ck_min_length s n + length rest \<le> length xs"
proof (induction xs arbitrary: s n out)
  case (Cons c xs)
  then show ?case using ck_feed_min [of s n c]
    by (cases "ck_feed s n c") (fastforce simp: ck_prepend_Some)+
qed simp

text \<open>
  The amount \<open>ctx->length\<close> the chunked parser asks for when it needs more input is a lower
  bound: no continuation of the body that completes it is shorter, so waiting for that many bytes
  never waits for bytes a complete body does not have.
\<close>

theorem chunked_length_lower_bound:
  assumes "ngx_http_parse_chunked ctx buf pos = (NGX_AGAIN, ctx', p)"
    and "ck_run (ck_st ctx') (ck_size ctx') tail = Some (True, s, n, out, rest)"
  shows "ck_length ctx' + length rest \<le> length tail \<and> 1 \<le> ck_length ctx'"
proof -
  have len: "ck_length ctx' = ck_min_length (ck_st ctx') (ck_size ctx')"
    using assms(1) ck_loop_not_returned
    by (fastforce simp: ngx_http_parse_chunked_def ck_data_label_def Let_def
        split: sw_exit.splits ck_label.splits if_splits)
  have "1 \<le> ck_min_length s n" for s n by (cases s) auto
  with ck_run_min [OF assms(2)] len show ?thesis by simp
qed

theorem chunked_length_lower_bound_witness:
  "ck_length (fst (snd (ngx_http_parse_chunked \<lparr>ck_st = ck_chunk_start, ck_size = 0, ck_length = 0\<rparr> ''1'' 0)))
     \<le> length [LF, CHR ''x'', LF, CHR ''0'', LF, LF]"
proof -
  have again: "ngx_http_parse_chunked \<lparr>ck_st = ck_chunk_start, ck_size = 0, ck_length = 0\<rparr> ''1'' 0 =
      (NGX_AGAIN, \<lparr>ck_st = ck_chunk_size, ck_size = 1, ck_length = 6\<rparr>, 1)"
    by (simp add: ngx_http_parse_chunked_def ck_data_label_def ck_enter_def ck_defs digit_def digit_val_def)
  have "ck_run ck_chunk_size 1 [LF, CHR ''x'', LF, CHR ''0'', LF, LF] = Some (True, ck_chunk_start, 0, ''x'', [])"
    by (simp add: ck_feed_def ck_enter_def ck_defs digit_def digit_val_def hexalpha20_iff less_eq_char_def)
  then show ?thesis
    using chunked_length_lower_bound [OF again, of "[LF, CHR ''x'', LF, CHR ''0'', LF, LF]"]
    unfolding again by simp
qed

end
