(* ===== verification/Ngx_Base64.thy ===== *)
theory Ngx_Base64
  imports Ngx_Number
begin

text \<open>
  The text codings of bytes: base64 and base64url of \<open>nginx-master/src/core/ngx_string.c\<close>, the
  hexadecimal dump, and the directives \<open>set_encode_base64\<close>, \<open>set_decode_base64\<close>,
  \<open>set_encode_hex\<close> and \<open>set_decode_hex\<close> of \<open>set-misc-nginx-module-master\<close>.
\<close>

section \<open>Base64\<close>

definition basis64_std :: bytes where
  "basis64_std = ''ABCDEFGHIJKLMNOPQRSTUVWXYZabcdefghijklmnopqrstuvwxyz0123456789+/''"

definition basis64_url :: bytes where
  "basis64_url = ''ABCDEFGHIJKLMNOPQRSTUVWXYZabcdefghijklmnopqrstuvwxyz0123456789-_''"

text \<open>\<open>ngx_encode_base64_internal\<close>: three bytes become four characters; one or two bytes are left.\<close>

fun ngx_encode_base64_internal :: "bytes \<Rightarrow> bool \<Rightarrow> bytes \<Rightarrow> bytes" where
  "ngx_encode_base64_internal basis padding (s0 # s1 # s2 # s) =
     basis ! (drop_bit 2 (ord s0) AND 0x3f) #
     basis ! (push_bit 4 (ord s0 AND 3) OR drop_bit 4 (ord s1)) #
     basis ! (push_bit 2 (ord s1 AND 0x0f) OR drop_bit 6 (ord s2)) #
     basis ! (ord s2 AND 0x3f) # ngx_encode_base64_internal basis padding s"
| "ngx_encode_base64_internal basis padding [] = []"
| "ngx_encode_base64_internal basis padding [s0] =
     [basis ! (drop_bit 2 (ord s0) AND 0x3f), basis ! (push_bit 4 (ord s0 AND 3))] @
     (if padding then [CHR ''=''] else []) @ (if padding then [CHR ''=''] else [])"
| "ngx_encode_base64_internal basis padding [s0, s1] =
     [basis ! (drop_bit 2 (ord s0) AND 0x3f),
      basis ! (push_bit 4 (ord s0 AND 3) OR drop_bit 4 (ord s1)),
      basis ! (push_bit 2 (ord s1 AND 0x0f))] @ (if padding then [CHR ''=''] else [])"

definition ngx_encode_base64 :: "bytes \<Rightarrow> bytes" where
  "ngx_encode_base64 src = ngx_encode_base64_internal basis64_std True src"

definition ngx_encode_base64url :: "bytes \<Rightarrow> bytes" where
  "ngx_encode_base64url src = ngx_encode_base64_internal basis64_url False src"

definition unbasis64_std :: "nat list" where
  "unbasis64_std = [
     77, 77, 77, 77, 77, 77, 77, 77, 77, 77, 77, 77, 77, 77, 77, 77,
     77, 77, 77, 77, 77, 77, 77, 77, 77, 77, 77, 77, 77, 77, 77, 77,
     77, 77, 77, 77, 77, 77, 77, 77, 77, 77, 77, 62, 77, 77, 77, 63,
     52, 53, 54, 55, 56, 57, 58, 59, 60, 61, 77, 77, 77, 77, 77, 77,
     77, 0, 1, 2, 3, 4, 5, 6, 7, 8, 9, 10, 11, 12, 13, 14,
     15, 16, 17, 18, 19, 20, 21, 22, 23, 24, 25, 77, 77, 77, 77, 77,
     77, 26, 27, 28, 29, 30, 31, 32, 33, 34, 35, 36, 37, 38, 39, 40,
     41, 42, 43, 44, 45, 46, 47, 48, 49, 50, 51, 77, 77, 77, 77, 77,
     77, 77, 77, 77, 77, 77, 77, 77, 77, 77, 77, 77, 77, 77, 77, 77,
     77, 77, 77, 77, 77, 77, 77, 77, 77, 77, 77, 77, 77, 77, 77, 77,
     77, 77, 77, 77, 77, 77, 77, 77, 77, 77, 77, 77, 77, 77, 77, 77,
     77, 77, 77, 77, 77, 77, 77, 77, 77, 77, 77, 77, 77, 77, 77, 77,
     77, 77, 77, 77, 77, 77, 77, 77, 77, 77, 77, 77, 77, 77, 77, 77,
     77, 77, 77, 77, 77, 77, 77, 77, 77, 77, 77, 77, 77, 77, 77, 77,
     77, 77, 77, 77, 77, 77, 77, 77, 77, 77, 77, 77, 77, 77, 77, 77,
     77, 77, 77, 77, 77, 77, 77, 77, 77, 77, 77, 77, 77, 77, 77, 77]"

definition unbasis64_url :: "nat list" where
  "unbasis64_url = [
     77, 77, 77, 77, 77, 77, 77, 77, 77, 77, 77, 77, 77, 77, 77, 77,
     77, 77, 77, 77, 77, 77, 77, 77, 77, 77, 77, 77, 77, 77, 77, 77,
     77, 77, 77, 77, 77, 77, 77, 77, 77, 77, 77, 77, 77, 62, 77, 77,
     52, 53, 54, 55, 56, 57, 58, 59, 60, 61, 77, 77, 77, 77, 77, 77,
     77, 0, 1, 2, 3, 4, 5, 6, 7, 8, 9, 10, 11, 12, 13, 14,
     15, 16, 17, 18, 19, 20, 21, 22, 23, 24, 25, 77, 77, 77, 77, 63,
     77, 26, 27, 28, 29, 30, 31, 32, 33, 34, 35, 36, 37, 38, 39, 40,
     41, 42, 43, 44, 45, 46, 47, 48, 49, 50, 51, 77, 77, 77, 77, 77,
     77, 77, 77, 77, 77, 77, 77, 77, 77, 77, 77, 77, 77, 77, 77, 77,
     77, 77, 77, 77, 77, 77, 77, 77, 77, 77, 77, 77, 77, 77, 77, 77,
     77, 77, 77, 77, 77, 77, 77, 77, 77, 77, 77, 77, 77, 77, 77, 77,
     77, 77, 77, 77, 77, 77, 77, 77, 77, 77, 77, 77, 77, 77, 77, 77,
     77, 77, 77, 77, 77, 77, 77, 77, 77, 77, 77, 77, 77, 77, 77, 77,
     77, 77, 77, 77, 77, 77, 77, 77, 77, 77, 77, 77, 77, 77, 77, 77,
     77, 77, 77, 77, 77, 77, 77, 77, 77, 77, 77, 77, 77, 77, 77, 77,
     77, 77, 77, 77, 77, 77, 77, 77, 77, 77, 77, 77, 77, 77, 77, 77]"

text \<open>
  The first loop of \<open>ngx_decode_base64_internal\<close>: the characters before the first \<open>=\<close>, \<open>None\<close> for
  one outside the alphabet.
\<close>

fun base64_scan :: "nat list \<Rightarrow> bytes \<Rightarrow> bytes option" where
  "base64_scan basis [] = Some []"
| "base64_scan basis (c # s) =
     (if c = CHR ''='' then Some []
      else if basis ! ord c = 77 then None
      else map_option ((#) c) (base64_scan basis s))"

text \<open>The decoding loop and its two tails.\<close>

fun base64_groups :: "nat list \<Rightarrow> bytes \<Rightarrow> bytes" where
  "base64_groups basis (s0 # s1 # s2 # s3 # s) =
     chr (push_bit 2 (basis ! ord s0) OR drop_bit 4 (basis ! ord s1)) #
     chr (push_bit 4 (basis ! ord s1) OR drop_bit 2 (basis ! ord s2)) #
     chr (push_bit 6 (basis ! ord s2) OR basis ! ord s3) # base64_groups basis s"
| "base64_groups basis [s0, s1, s2] =
     [chr (push_bit 2 (basis ! ord s0) OR drop_bit 4 (basis ! ord s1)),
      chr (push_bit 4 (basis ! ord s1) OR drop_bit 2 (basis ! ord s2))]"
| "base64_groups basis [s0, s1] = [chr (push_bit 2 (basis ! ord s0) OR drop_bit 4 (basis ! ord s1))]"
| "base64_groups basis s = []"

definition ngx_decode_base64_internal :: "nat list \<Rightarrow> bytes \<Rightarrow> bytes option" where
  "ngx_decode_base64_internal basis src =
     (case base64_scan basis src of
        None \<Rightarrow> None
      | Some s \<Rightarrow> if length s mod 4 = 1 then None else Some (base64_groups basis s))"

definition ngx_decode_base64 :: "bytes \<Rightarrow> bytes option" where
  "ngx_decode_base64 src = ngx_decode_base64_internal unbasis64_std src"

definition ngx_decode_base64url :: "bytes \<Rightarrow> bytes option" where
  "ngx_decode_base64url src = ngx_decode_base64_internal unbasis64_url src"

definition ngx_base64_encoded_length :: "nat \<Rightarrow> nat" where
  "ngx_base64_encoded_length len = ((len + 2) div 3) * 4"

definition ngx_base64_decoded_length :: "nat \<Rightarrow> nat" where
  "ngx_base64_decoded_length len = ((len + 3) div 4) * 3"

section \<open>Hexadecimal\<close>

fun ngx_hex_dump :: "bytes \<Rightarrow> bytes" where
  "ngx_hex_dump [] = []"
| "ngx_hex_dump (c # src) =
     ''0123456789abcdef'' ! (drop_bit 4 (ord c)) # ''0123456789abcdef'' ! (ord c AND 0xf) # ngx_hex_dump src"

text \<open>The loop of \<open>set_decode_hex\<close>, two digits at a time; \<open>None\<close> is \<open>NGX_ERROR\<close>.\<close>

fun decode_hex_loop :: "bytes \<Rightarrow> bytes option" where
  "decode_hex_loop (a # b # p) =
     (let n = ngx_hextoi [a, b] in
      if n = NGX_ERROR \<or> n > 255 then None
      else map_option ((#) (chr (nat n))) (decode_hex_loop p))"
| "decode_hex_loop p = Some []"

section \<open>The directives\<close>

definition ngx_http_set_misc_set_encode_base64 :: "bool \<Rightarrow> bytes \<Rightarrow> bytes option" where
  "ngx_http_set_misc_set_encode_base64 pool v = (if \<not> pool then None else Some (ngx_encode_base64 v))"

definition ngx_http_set_misc_set_decode_base64 :: "bool \<Rightarrow> bytes \<Rightarrow> bytes option" where
  "ngx_http_set_misc_set_decode_base64 pool v = (if \<not> pool then None else ngx_decode_base64 v)"

definition ngx_http_set_misc_set_encode_hex :: "bool \<Rightarrow> bytes \<Rightarrow> bytes option" where
  "ngx_http_set_misc_set_encode_hex pool v = (if \<not> pool then None else Some (ngx_hex_dump v))"

definition ngx_http_set_misc_set_decode_hex :: "bool \<Rightarrow> bytes \<Rightarrow> bytes option" where
  "ngx_http_set_misc_set_decode_hex pool v =
     (if length v mod 2 \<noteq> 0 then None else if \<not> pool then None else decode_hex_loop v)"

section \<open>Six bits at a time\<close>

lemma push_or:
  fixes a b :: nat
  assumes "b < 2 ^ n"
  shows "push_bit n a OR b = a * 2 ^ n + b"
proof -
  have "push_bit n a AND b = 0"
  proof (rule bit_eqI)
    fix m
    have "\<not> bit b m" if "n \<le> m"
      using assms that by (metis bit_take_bit_iff not_le take_bit_nat_eq_self)
    then show "bit (push_bit n a AND b) m \<longleftrightarrow> bit 0 m"
      by (auto simp: bit_simps)
  qed
  then have "push_bit n a + b = push_bit n a OR b" by (rule disjunctive_add_eq_or)
  then show ?thesis by (simp add: push_bit_eq_mult)
qed

lemma and_masks: "n AND (3::nat) = n mod 4" "n AND (15::nat) = n mod 16" "n AND (63::nat) = n mod 64"
  using take_bit_eq_mod [of 2 n] take_bit_eq_mod [of 4 n] take_bit_eq_mod [of 6 n]
  by (simp_all add: take_bit_eq_mask mask_eq_exp_minus_1)

lemma ord_less_256: "ord c < 256"
  by (rule nat_of_char_less_256)

text \<open>The values the encoder looks up.\<close>

lemma enc_values:
  "drop_bit 2 (ord a) AND 0x3f = ord a div 4"
  "push_bit 4 (ord a AND 3) OR drop_bit 4 (ord b) = ord a mod 4 * 16 + ord b div 16"
  "push_bit 2 (ord b AND 0x0f) OR drop_bit 6 (ord c) = ord b mod 16 * 4 + ord c div 64"
  "ord c AND 0x3f = ord c mod 64"
  "push_bit 4 (ord a AND 3) = ord a mod 4 * 16" "push_bit 2 (ord b AND 0x0f) = ord b mod 16 * 4"
proof -
  have "ord a div 4 < 64" "ord b div 16 < 16" "ord c div 64 < 4"
    using ord_less_256 [of a] ord_less_256 [of b] ord_less_256 [of c] by linarith+
  then show "drop_bit 2 (ord a) AND 0x3f = ord a div 4"
    "push_bit 4 (ord a AND 3) OR drop_bit 4 (ord b) = ord a mod 4 * 16 + ord b div 16"
    "push_bit 2 (ord b AND 0x0f) OR drop_bit 6 (ord c) = ord b mod 16 * 4 + ord c div 64"
    by (simp_all add: and_masks drop_bit_eq_div push_or)
  show "ord c AND 0x3f = ord c mod 64"
    "push_bit 4 (ord a AND 3) = ord a mod 4 * 16" "push_bit 2 (ord b AND 0x0f) = ord b mod 16 * 4"
    by (simp_all add: and_masks push_bit_eq_mult)
qed

lemma chr_mod: "n mod 256 = ord c \<Longrightarrow> chr n = c"
  by (metis char_of_char char_of_mod_256)

lemma encode_simps:
  "ngx_encode_base64_internal basis padding [] = []"
  "ngx_encode_base64_internal basis padding [a] = basis ! (ord a div 4) # basis ! (ord a mod 4 * 16) #
     (if padding then [CHR ''='', CHR ''=''] else [])"
  "ngx_encode_base64_internal basis padding [a, b] =
     basis ! (ord a div 4) # basis ! (ord a mod 4 * 16 + ord b div 16) # basis ! (ord b mod 16 * 4) #
     (if padding then [CHR ''=''] else [])"
  "ngx_encode_base64_internal basis padding (a # b # c # s) =
     basis ! (ord a div 4) # basis ! (ord a mod 4 * 16 + ord b div 16) #
     basis ! (ord b mod 16 * 4 + ord c div 64) # basis ! (ord c mod 64) #
     ngx_encode_base64_internal basis padding s"
  by (simp_all only: ngx_encode_base64_internal.simps enc_values(1-4)) (simp_all only: enc_values(5,6), auto)

declare ngx_encode_base64_internal.simps [simp del] encode_simps [simp]

text \<open>The values the decoder puts together again.\<close>

lemma dec_values:
  fixes a b c :: char
  defines "k0 \<equiv> ord a div 4" and "k1 \<equiv> ord a mod 4 * 16 + ord b div 16"
    and "k2 \<equiv> ord b mod 16 * 4 + ord c div 64" and "k3 \<equiv> ord c mod 64"
  shows "chr (push_bit 2 k0 OR drop_bit 4 k1) = a" "chr (push_bit 4 k1 OR drop_bit 2 k2) = b"
    "chr (push_bit 6 k2 OR k3) = c" "k0 < 64" "k1 < 64" "k2 < 64" "k3 < 64"
proof -
  have lt: "ord a < 256" "ord b < 256" "ord c < 256" by (rule ord_less_256)+
  then have d: "ord b div 16 < 16" "ord c div 64 < 4" by linarith+
  then have k: "k1 div 16 = ord a mod 4" "k2 div 4 = ord b mod 16" unfolding k1_def k2_def by simp_all
  have "push_bit 2 k0 OR drop_bit 4 k1 = k0 * 4 + ord a mod 4"
    using k by (simp add: push_or drop_bit_eq_div)
  then show "chr (push_bit 2 k0 OR drop_bit 4 k1) = a"
    using lt by (simp add: k0_def chr_mod)
  have "push_bit 4 k1 OR drop_bit 2 k2 = k1 * 16 + ord b mod 16"
    using k by (simp add: push_or drop_bit_eq_div)
  moreover have "k1 * 16 + ord b mod 16 = ord b + ord a mod 4 * 256"
    using div_mult_mod_eq [of "ord b" 16] unfolding k1_def by (simp add: add_mult_distrib)
  then have "(k1 * 16 + ord b mod 16) mod 256 = ord b" using lt by simp
  ultimately show "chr (push_bit 4 k1 OR drop_bit 2 k2) = b" by (simp add: chr_mod)
  have "push_bit 6 k2 OR k3 = k2 * 64 + k3" by (simp add: push_or k3_def)
  moreover have "k2 * 64 + k3 = ord c + ord b mod 16 * 256"
    using div_mult_mod_eq [of "ord c" 64] unfolding k2_def k3_def by (simp add: add_mult_distrib)
  then have "(k2 * 64 + k3) mod 256 = ord c" using lt by simp
  ultimately show "chr (push_bit 6 k2 OR k3) = c" by (simp add: chr_mod)
  show "k0 < 64" "k1 < 64" "k2 < 64" "k3 < 64"
    using lt d unfolding k0_def k1_def k2_def k3_def by linarith+
qed

text \<open>Tail of two bytes, and of one: the missing bytes count as zero.\<close>

lemma dec_values2:
  "chr (push_bit 4 (ord a mod 4 * 16 + ord b div 16) OR drop_bit 2 (ord b mod 16 * 4)) = b"
  using dec_values(2) [of a b NUL] by simp

lemma dec_values1: "chr (push_bit 2 (ord a div 4) OR drop_bit 4 (ord a mod 4 * 16)) = a"
  using dec_values(1) [of a NUL] by simp

lemma triples_induct [case_names Nil One Two Three]:
  assumes "P []" "\<And>a. P [a]" "\<And>a b. P [a, b]" "\<And>a b c s. P s \<Longrightarrow> P (a # b # c # s)"
  shows "P (s :: bytes)"
  using assms by (induction "[] :: bytes" False s rule: ngx_encode_base64_internal.induct) auto

lemma base64_encoded_exact:
  "length (ngx_encode_base64_internal basis True src) = ngx_base64_encoded_length (length src)"
proof (induction src rule: triples_induct)
  case (Three a b c s)
  have "(5 + length s) div 3 = Suc (Suc (Suc (length s)) div 3)" by simp
  with Three show ?case by (simp add: ngx_base64_encoded_length_def)
qed (simp_all add: ngx_base64_encoded_length_def)

lemma base64_groups_length: "length (base64_groups basis s) \<le> ngx_base64_decoded_length (length s)"
proof (induction basis s rule: base64_groups.induct)
  case (1 basis s0 s1 s2 s3 s)
  have "(7 + length s) div 4 = Suc ((length s + 3) div 4)" by simp
  with 1 show ?case by (simp add: ngx_base64_decoded_length_def)
qed (simp_all add: ngx_base64_decoded_length_def)

lemma base64_scan_length: "base64_scan basis src = Some s \<Longrightarrow> length s \<le> length src"
  by (induction src arbitrary: s) (auto split: if_splits)

text \<open>An alphabet of 64 characters and the table that inverts it.\<close>

locale base64_alphabet =
  fixes basis :: bytes and unbasis :: "nat list"
  assumes unbasis_basis: "k < 64 \<Longrightarrow> unbasis ! ord (basis ! k) = k"
    and basis_eq: "k < 64 \<Longrightarrow> basis ! k \<noteq> CHR ''=''"
begin

lemma scan_basis: "k < 64 \<Longrightarrow> base64_scan unbasis (basis ! k # s) = map_option ((#) (basis ! k)) (base64_scan unbasis s)"
  using unbasis_basis [of k] basis_eq [of k] by auto

lemma scan_encode:
  "base64_scan unbasis (ngx_encode_base64_internal basis padding src) =
     Some (ngx_encode_base64_internal basis False src)"
proof (induction src rule: triples_induct)
  case (Three s0 s1 s2 s)
  then show ?case
    using dec_values(4) [of s0] dec_values(5) [of s0 s1] dec_values(6) [of s1 s2] dec_values(7) [of s2]
    by (simp add: scan_basis del: base64_scan.simps)
next
  case (One s0)
  then show ?case
    using dec_values(4) [of s0] dec_values(5) [of s0 NUL] by (simp add: scan_basis del: base64_scan.simps(2)) simp
next
  case (Two s0 s1)
  then show ?case
    using dec_values(4) [of s0] dec_values(5) [of s0 s1] dec_values(6) [of s1 NUL]
    by (simp add: scan_basis del: base64_scan.simps(2)) simp
qed simp

lemma groups_encode: "base64_groups unbasis (ngx_encode_base64_internal basis False src) = src"
proof (induction src rule: triples_induct)
  case (Three s0 s1 s2 s)
  then show ?case
    using dec_values(1,5) [of s0 s1] dec_values(4) [of s0] dec_values(2) [of s0 s1 s2] dec_values(3,6) [of s1 s2] dec_values(7) [of s2]
    by (simp add: unbasis_basis)
next
  case (One s0)
  then show ?case
    using dec_values(4) [of s0] dec_values(5) [of s0 NUL] by (simp add: unbasis_basis dec_values1)
next
  case (Two s0 s1)
  then show ?case
    using dec_values(1,5) [of s0 s1] dec_values(4) [of s0] dec_values(6) [of s1 NUL]
    by (simp add: unbasis_basis dec_values2)
qed simp

lemma length_encode_False: "length (ngx_encode_base64_internal basis False src) mod 4 \<noteq> 1"
  by (induction src rule: triples_induct) auto

lemma decode_encode:
  "ngx_decode_base64_internal unbasis (ngx_encode_base64_internal basis padding src) = Some src"
  using length_encode_False by (simp add: ngx_decode_base64_internal_def scan_encode groups_encode)

end

lemma base64_tables:
  "list_all (\<lambda>k. unbasis64_std ! ord (basis64_std ! k) = k \<and> basis64_std ! k \<noteq> CHR ''='') [0..<64]"
  "list_all (\<lambda>k. unbasis64_url ! ord (basis64_url ! k) = k \<and> basis64_url ! k \<noteq> CHR ''='') [0..<64]"
  by (simp_all add: upt_conv_Cons basis64_std_def unbasis64_std_def basis64_url_def unbasis64_url_def)

interpretation std: base64_alphabet basis64_std unbasis64_std
  using base64_tables(1) by unfold_locales (auto simp: list_all_iff)

interpretation url: base64_alphabet basis64_url unbasis64_url
  using base64_tables(2) by unfold_locales (auto simp: list_all_iff)

text \<open>
  Decoding what \<open>ngx_encode_base64\<close> or \<open>ngx_encode_base64url\<close> wrote gives the original bytes,
  for every byte string. The padded encoding fills exactly the bytes
  \<open>ngx_base64_encoded_length\<close> reserves, and decoding any accepted input stays within
  \<open>ngx_base64_decoded_length\<close>, so neither directive overruns its result.
\<close>

theorem base64_roundtrip:
  "ngx_decode_base64 (ngx_encode_base64 src) = Some src \<and>
   ngx_decode_base64url (ngx_encode_base64url src) = Some src \<and>
   length (ngx_encode_base64 src) = ngx_base64_encoded_length (length src) \<and>
   (case ngx_decode_base64 v of None \<Rightarrow> True | Some d \<Rightarrow> length d \<le> ngx_base64_decoded_length (length v))"
proof -
  have "length d \<le> ngx_base64_decoded_length (length v)" if d: "ngx_decode_base64 v = Some d" for d
  proof -
    obtain s where s: "base64_scan unbasis64_std v = Some s" "d = base64_groups unbasis64_std s"
      using d by (auto simp: ngx_decode_base64_def ngx_decode_base64_internal_def split: option.splits if_splits)
    have "length d \<le> ngx_base64_decoded_length (length s)" using s base64_groups_length by simp
    also have "\<dots> \<le> ngx_base64_decoded_length (length v)"
      using base64_scan_length [OF s(1)] by (auto simp: ngx_base64_decoded_length_def intro!: div_le_mono)
    finally show ?thesis .
  qed
  then show ?thesis
    by (auto simp: ngx_decode_base64_def ngx_encode_base64_def ngx_decode_base64url_def
        ngx_encode_base64url_def std.decode_encode url.decode_encode base64_encoded_exact split: option.split)
qed

section \<open>Hexadecimal round trip\<close>

lemma hextoi_byte: "ngx_hextoi [''0123456789abcdef'' ! (ord c div 16), ''0123456789abcdef'' ! (ord c mod 16)] = int (ord c)"
proof -
  let ?a = "''0123456789abcdef'' ! (ord c div 16)" and ?b = "''0123456789abcdef'' ! (ord c mod 16)"
  have a: "digit ?a \<or> hexalpha20 ?a" "hexit_val ?a = ord c div 16"
    using hexit_lower [of "ord c div 16"] nibbles(3) [of c] by simp_all
  have b: "digit ?b \<or> hexalpha20 ?b" "hexit_val ?b = ord c mod 16"
    using hexit_lower [of "ord c mod 16"] by simp_all
  have v: "int (ord c div 16) * 16 + int (ord c mod 16) = int (ord c)" by presburger
  have "hex_from 0 [?a, ?b] = int (ord c)" using a(2) b(2) v by simp
  moreover have "int (ord c) \<le> NGX_MAX_INT_T_VALUE"
    unfolding NGX_MAX_INT_T_VALUE_def using ord_less_256 [of c] by linarith
  ultimately show ?thesis
    using hextoi_loop_spec [of 0 "[?a, ?b]"] a(1) b(1)
    by (simp add: ngx_hextoi_def NGX_MAX_INT_T_VALUE_def)
qed

lemma decode_hex_dump: "decode_hex_loop (ngx_hex_dump s) = Some s"
proof (induction s)
  case (Cons c s)
  moreover have "\<not> 255 < ord c" using ord_less_256 [of c] by linarith
  ultimately show ?case using hextoi_byte [of c] by (simp add: nibbles Let_def)
qed simp

lemma length_hex_dump: "length (ngx_hex_dump s) = 2 * length s"
  by (induction s) auto

text \<open>
  \<open>set_decode_hex\<close> reads back every value \<open>set_encode_hex\<close> wrote, and \<open>set_decode_base64\<close>
  every value \<open>set_encode_base64\<close> wrote.
\<close>

theorem set_misc_text_roundtrip:
  "Option.bind (ngx_http_set_misc_set_encode_hex True v) (ngx_http_set_misc_set_decode_hex True) = Some v \<and>
   Option.bind (ngx_http_set_misc_set_encode_base64 True v) (ngx_http_set_misc_set_decode_base64 True) = Some v"
  by (simp add: ngx_http_set_misc_set_encode_hex_def ngx_http_set_misc_set_decode_hex_def
      ngx_http_set_misc_set_encode_base64_def ngx_http_set_misc_set_decode_base64_def
      decode_hex_dump length_hex_dump ngx_encode_base64_def ngx_decode_base64_def std.decode_encode)

interpretation base64_codec: codec ngx_encode_base64 ngx_decode_base64 "\<lambda>_. True"
  by unfold_locales (simp add: ngx_encode_base64_def ngx_decode_base64_def std.decode_encode)

end
