(* ===== verification/Http_Args.thy ===== *)
theory Http_Args
  imports Ngx_String
begin

text \<open>
  Query arguments and header parameters of \<open>nginx-master/src/http/ngx_http_parse.c\<close>:
  \<open>ngx_http_arg\<close> behind the variables \<open>$arg_name\<close>, \<open>ngx_http_split_args\<close>, and the searches of
  a parameter in \<open>Cookie\<close>-like and \<open>Set-Cookie\<close> header lines. Strings the code walks past the end
  of are the zero-terminated ones.
\<close>

section \<open>Query arguments\<close>

lemma strlcasestrn_loop_bounds:
  "strlcasestrn_loop buf s1 lst c2 s2 n = Some q \<Longrightarrow> s1 \<le> q \<and> q < lst"
proof (induction buf s1 lst c2 s2 n rule: strlcasestrn_loop.induct)
  case (1 buf s1 lst c2 s2 n)
  from "1.prems" show ?case
    using "1.IH" by (subst (asm) strlcasestrn_loop.simps) (fastforce split: if_splits)
qed

text \<open>
  \<open>ngx_http_arg\<close> from the offset \<open>p\<close> of \<open>r->args\<close>: \<open>None\<close> is \<open>NGX_DECLINED\<close>, \<open>Some (v, e)\<close> is
  \<open>NGX_OK\<close> with \<open>value->data\<close> at \<open>v\<close> and \<open>value->len = e - v\<close>.
\<close>

function http_arg_loop :: "bytes \<Rightarrow> bytes \<Rightarrow> nat \<Rightarrow> (nat \<times> nat) option" where
  "http_arg_loop args name p =
     (if p < length args then
        (case ngx_strlcasestrn args p (length args - 1) name (length name - 1) of
           None \<Rightarrow> None
         | Some q \<Rightarrow>
             if (q = 0 \<or> args ! (q - 1) = CHR ''&'') \<and> args ! (q + length name) = CHR ''=''
             then Some (q + length name + 1,
                        case ngx_strlchr (drop q args) (CHR ''&'') of
                          None \<Rightarrow> length args | Some k \<Rightarrow> q + k)
             else http_arg_loop args name (Suc q))
      else None)"
  by pat_completeness auto
termination
  by (relation "measure (\<lambda>(args, name, p). length args - p)")
    (auto simp: ngx_strlcasestrn_def dest!: strlcasestrn_loop_bounds)

declare http_arg_loop.simps [simp del]

definition ngx_http_arg :: "bytes \<Rightarrow> bytes \<Rightarrow> (nat \<times> nat) option" where
  "ngx_http_arg args name = (if args = [] then None else http_arg_loop args name 0)"

text \<open>\<open>ngx_http_split_args\<close>: the URI cut at the first question mark, and the arguments after it.\<close>

definition ngx_http_split_args :: "bytes \<Rightarrow> bytes \<times> bytes" where
  "ngx_http_split_args uri =
     (case ngx_strlchr uri (CHR ''?'') of
        Some p \<Rightarrow> (take p uri, drop (Suc p) uri)
      | None \<Rightarrow> (uri, []))"

section \<open>Parameters of header lines\<close>

text \<open>
  \<open>skip:\<close> past the next semicolon or comma and the spaces after it; the argument is the text from
  \<open>start\<close> to \<open>end\<close>.
\<close>

fun skip_param :: "bytes \<Rightarrow> bytes" where
  "skip_param [] = []"
| "skip_param (ch # s) = (if ch = CHR '';'' \<or> ch = CHR '','' then s else skip_param s)"

definition skip_spaces :: "bytes \<Rightarrow> bytes" where
  "skip_spaces s = dropWhile (\<lambda>c. c = SP) s"

lemma length_skip_param: "length (skip_param s) \<le> length s" "s \<noteq> [] \<Longrightarrow> length (skip_param s) < length s"
  by (induction s) (auto simp: less_Suc_eq_le)

lemma length_skip_spaces: "length (skip_spaces s) \<le> length s"
  by (simp add: skip_spaces_def length_dropWhile_le)

text \<open>
  The loop over one header value of \<open>ngx_http_parse_multi_header_lines\<close>. \<open>want\<close> is
  \<open>value != NULL\<close>; the result is the value found (empty when none was asked for).
  \<open>*start++ != '='\<close> steps over the byte it looks at before skipping.
\<close>

definition mh_param :: "bool \<Rightarrow> bytes \<Rightarrow> bytes + bytes" where
  "mh_param want st =
     (if \<not> want then (if st = [] \<or> hd st = CHR '','' then Inr [] else Inl st)
      else if st = [] then Inl []
      else if hd st \<noteq> CHR ''='' then Inl (tl st)
      else Inr (takeWhile (\<lambda>c. c \<noteq> CHR '';'') (skip_spaces (tl st))))"

function mh_scan :: "bytes \<Rightarrow> bool \<Rightarrow> bytes \<Rightarrow> bytes option" where
  "mh_scan name want start =
     (if start = [] then None
      else if ngx_strncasecmp start name (length name) \<noteq> 0
      then mh_scan name want (skip_spaces (skip_param start))
      else (case mh_param want (skip_spaces (drop (length name) start)) of
              Inr v \<Rightarrow> Some v
            | Inl st \<Rightarrow> mh_scan name want (skip_spaces (skip_param st))))"
  by pat_completeness auto
termination
proof (relation "measure (\<lambda>(name, want, start). length start)", goal_cases)
  case (2 name want start)
  then show ?case
    using length_skip_spaces [of "skip_param start"] length_skip_param(2) [of start] by auto
next
  case (3 name want start st)
  let ?s = "skip_spaces (drop (length name) start)"
  have "length ?s \<le> length start"
    using length_skip_spaces [of "drop (length name) start"] by simp
  moreover have "length st \<le> length ?s" using 3 by (auto simp: mh_param_def split: if_splits)
  moreover have "length (skip_spaces (skip_param st)) < length st \<or> st = []"
    using length_skip_spaces [of "skip_param st"] length_skip_param(2) [of st] by linarith
  ultimately show ?case using 3 by (cases "st = []") (auto simp: skip_spaces_def)
qed simp

declare mh_scan.simps [simp del]

text \<open>\<open>None\<close> is \<open>NGX_DECLINED\<close>; otherwise the index of the line and the value found.\<close>

fun multi_header_from :: "nat \<Rightarrow> bytes list \<Rightarrow> bytes \<Rightarrow> bool \<Rightarrow> (nat \<times> bytes) option" where
  "multi_header_from i [] name want = None"
| "multi_header_from i (h # hs) name want =
     (if length name > length h then multi_header_from (Suc i) hs name want
      else (case mh_scan name want h of
              Some v \<Rightarrow> Some (i, v)
            | None \<Rightarrow> multi_header_from (Suc i) hs name want))"

definition ngx_http_parse_multi_header_lines ::
    "bytes list \<Rightarrow> bytes \<Rightarrow> bool \<Rightarrow> (nat \<times> bytes) option" where
  "ngx_http_parse_multi_header_lines headers name want = multi_header_from 0 headers name want"

text \<open>\<open>ngx_http_parse_set_cookie_lines\<close>: only the first parameter of each line is looked at.\<close>

fun set_cookie_from :: "nat \<Rightarrow> bytes list \<Rightarrow> bytes \<Rightarrow> (nat \<times> bytes) option" where
  "set_cookie_from i [] name = None"
| "set_cookie_from i (h # hs) name =
     (if length name \<ge> length h \<or> ngx_strncasecmp h name (length name) \<noteq> 0
      then set_cookie_from (Suc i) hs name
      else
        (let st = skip_spaces (drop (length name) h) in
         if st = [] \<or> hd st \<noteq> CHR ''='' then set_cookie_from (Suc i) hs name
         else Some (i, takeWhile (\<lambda>c. c \<noteq> CHR '';'') (skip_spaces (tl st)))))"

definition ngx_http_parse_set_cookie_lines :: "bytes list \<Rightarrow> bytes \<Rightarrow> (nat \<times> bytes) option" where
  "ngx_http_parse_set_cookie_lines headers name = set_cookie_from 0 headers name"

section \<open>Where a name occurs\<close>

definition name_at :: "bytes \<Rightarrow> bytes \<Rightarrow> nat \<Rightarrow> bool" where
  "name_at args name q \<longleftrightarrow> q + length name \<le> length args \<and>
     ngx_strlow (take (length name) (drop q args)) = ngx_strlow name"

definition arg_at :: "bytes \<Rightarrow> bytes \<Rightarrow> nat \<Rightarrow> bool" where
  "arg_at args name q \<longleftrightarrow> q + length name < length args \<and> name_at args name q \<and>
     (q = 0 \<or> args ! (q - 1) = CHR ''&'') \<and> args ! (q + length name) = CHR ''=''"

lemma take_cstr:
  "n \<le> length (cstr s) \<Longrightarrow> take n (cstr s) = take n s"
proof (induction s arbitrary: n)
  case (Cons c s)
  then show ?case by (cases n) (auto split: if_splits)
qed simp

lemma take_cstr_eq:
  assumes "NUL \<notin> set t" "length t \<le> length s"
  shows "ngx_strlow (take (length t) (cstr s)) = ngx_strlow t \<longleftrightarrow> ngx_strlow (take (length t) s) = ngx_strlow t"
proof
  assume "ngx_strlow (take (length t) (cstr s)) = ngx_strlow t"
  then have "length (take (length t) (cstr s)) = length t"
    by (metis length_map ngx_strlow_def)
  then have "length t \<le> length (cstr s)" by simp
  with \<open>ngx_strlow (take (length t) (cstr s)) = _\<close> show "ngx_strlow (take (length t) s) = ngx_strlow t"
    by (simp add: take_cstr)
next
  assume eq: "ngx_strlow (take (length t) s) = ngx_strlow t"
  have "\<And>t s. ngx_strlow (take (length t) s) = ngx_strlow t \<Longrightarrow> NUL \<notin> set t \<Longrightarrow> length t \<le> length (cstr s)"
  proof -
    fix t s show "ngx_strlow (take (length t) s) = ngx_strlow t \<Longrightarrow> NUL \<notin> set t \<Longrightarrow> length t \<le> length (cstr s)"
    proof (induction t arbitrary: s)
      case (Cons c t)
      then show ?case by (cases s) (auto simp: ngx_strlow_def)
    qed simp
  qed
  from this [OF eq assms(1)] eq show "ngx_strlow (take (length t) (cstr s)) = ngx_strlow t"
    by (simp add: take_cstr)
qed

lemma strncasecmp_name:
  assumes "NUL \<notin> set t" "length t \<le> length s"
  shows "ngx_strncasecmp s t (length t) = 0 \<longleftrightarrow> ngx_strlow (take (length t) s) = ngx_strlow t"
proof -
  have "cstr t = t" using assms(1) by (induction t) auto
  then show ?thesis using take_cstr_eq [OF assms] by (simp add: strncasecmp_zero_iff)
qed

lemma name_at_step:
  assumes "name \<noteq> []" "NUL \<notin> set name" "q + length name \<le> length buf"
  shows "name_at buf name q \<longleftrightarrow> ngx_tolower (buf ! q) = ngx_tolower (deref name) \<and>
     ngx_strncasecmp (drop (Suc q) buf) (tl name) (length name - 1) = 0"
proof -
  obtain c t where n: "name = c # t" using assms(1) by (cases name) auto
  have q: "q < length buf" using assms n by simp
  have "ngx_strncasecmp (drop (Suc q) buf) t (length t) = 0 \<longleftrightarrow>
      ngx_strlow (take (length t) (drop (Suc q) buf)) = ngx_strlow t"
    using assms n by (intro strncasecmp_name) auto
  moreover have "drop q buf = buf ! q # drop (Suc q) buf" using q by (simp add: Cons_nth_drop_Suc)
  ultimately show ?thesis using assms(3) by (simp add: name_at_def n ngx_strlow_def)
qed

lemma strlcasestrn_loop_find:
  assumes "name \<noteq> []" "NUL \<notin> set name" "lst + length name \<le> Suc (length buf)"
  shows "(strlcasestrn_loop buf s1 lst (ngx_tolower (deref name)) (tl name) (length name - 1) = None
            \<longrightarrow> (\<forall>q. s1 \<le> q \<and> q < lst \<longrightarrow> \<not> name_at buf name q)) \<and>
         (strlcasestrn_loop buf s1 lst (ngx_tolower (deref name)) (tl name) (length name - 1) = Some q
            \<longrightarrow> name_at buf name q \<and> (\<forall>q'. s1 \<le> q' \<and> q' < q \<longrightarrow> \<not> name_at buf name q'))"
proof (induction "lst - s1" arbitrary: s1 rule: less_induct)
  case less
  show ?case
  proof (cases "s1 < lst")
    case True
    then have at: "name_at buf name s1 \<longleftrightarrow> ngx_tolower (buf ! s1) = ngx_tolower (deref name) \<and>
       ngx_strncasecmp (drop (Suc s1) buf) (tl name) (length name - 1) = 0"
      using assms by (intro name_at_step) auto
    have step: "strlcasestrn_loop buf s1 lst (ngx_tolower (deref name)) (tl name) (length name - 1) =
       (if name_at buf name s1 then Some s1
        else strlcasestrn_loop buf (Suc s1) lst (ngx_tolower (deref name)) (tl name) (length name - 1))"
      using True at by (subst strlcasestrn_loop.simps) simp
    have "s1 \<le> q' \<longleftrightarrow> q' = s1 \<or> Suc s1 \<le> q'" for q' by auto
    with less [of "Suc s1"] step True show ?thesis by auto
  qed (auto simp: strlcasestrn_loop.simps)
qed

text \<open>A name that may be searched for: not empty, none of the separators, no terminator.\<close>

definition arg_name :: "bytes \<Rightarrow> bool" where
  "arg_name name \<longleftrightarrow> name \<noteq> [] \<and> NUL \<notin> set name \<and> CHR ''&'' \<notin> set name \<and> CHR ''='' \<notin> set name"

definition arg_value_at :: "bytes \<Rightarrow> bytes \<Rightarrow> nat \<Rightarrow> nat \<times> nat" where
  "arg_value_at args name q =
     (q + length name + 1, case ngx_strlchr (drop q args) (CHR ''&'') of None \<Rightarrow> length args | Some k \<Rightarrow> q + k)"

definition first_from :: "(nat \<Rightarrow> bool) \<Rightarrow> nat \<Rightarrow> nat option \<Rightarrow> bool" where
  "first_from P p r \<longleftrightarrow>
     (case r of None \<Rightarrow> \<forall>q. p \<le> q \<longrightarrow> \<not> P q
      | Some q \<Rightarrow> p \<le> q \<and> P q \<and> (\<forall>q'. p \<le> q' \<and> q' < q \<longrightarrow> \<not> P q'))"

lemma first_from_skip:
  assumes "p \<le> s" "\<And>q. p \<le> q \<Longrightarrow> q < s \<Longrightarrow> \<not> P q" "first_from P s r"
  shows "first_from P p r"
proof (cases r)
  case None
  then have "\<not> P q" if "p \<le> q" for q
    using assms that by (cases "q < s") (auto simp: first_from_def)
  then show ?thesis using None by (simp add: first_from_def)
next
  case (Some q)
  then have "\<not> P q'" if "p \<le> q'" "q' < q" for q'
    using assms that by (cases "q' < s") (auto simp: first_from_def)
  then show ?thesis using Some assms by (simp add: first_from_def)
qed

lemma http_arg_loop_find:
  assumes "arg_name name"
  shows "\<exists>r. first_from (arg_at args name) p r \<and>
             http_arg_loop args name p = map_option (arg_value_at args name) r"
proof (induction "length args - p" arbitrary: p rule: less_induct)
  case less
  let ?find = "ngx_strlcasestrn args p (length args - 1) name (length name - 1)"
  have n: "name \<noteq> []" "NUL \<notin> set name" using assms by (auto simp: arg_name_def)
  let ?lst = "length args - 1 - (length name - 1)"
  have lst: "arg_at args name q \<Longrightarrow> q < ?lst \<and> name_at args name q" for q
    using n by (cases name) (auto simp: arg_at_def)
  show ?case
  proof (cases "p < length args \<and> ?find \<noteq> None")
    case False
    have "\<not> arg_at args name q" if "p \<le> q" for q
    proof
      assume at: "arg_at args name q"
      then have "q < length args" "?lst + length name \<le> Suc (length args)"
        using lst [OF at] by (auto simp: arg_at_def)
      then show False
        using strlcasestrn_loop_find [OF n, of ?lst args p] False that lst [OF at]
        by (auto simp: ngx_strlcasestrn_def)
    qed
    then have "first_from (arg_at args name) p None" by (simp add: first_from_def)
    moreover have "http_arg_loop args name p = None"
      using False by (auto simp: http_arg_loop.simps [of args name p])
    ultimately show ?thesis by force
  next
    case True
    then obtain q where q: "?find = Some q" and p: "p < length args" by auto
    then have pq: "p \<le> q" "q < ?lst"
      using strlcasestrn_loop_bounds by (auto simp: ngx_strlcasestrn_def)
    then have small: "?lst + length name \<le> Suc (length args)" by linarith
    note find = strlcasestrn_loop_find [OF n small, of p q, folded ngx_strlcasestrn_def]
    have before: "\<not> arg_at args name q'" if "p \<le> q'" "q' < q" for q'
      using find q that by (auto simp: arg_at_def)
    have here: "arg_at args name q \<longleftrightarrow>
        (q = 0 \<or> args ! (q - 1) = CHR ''&'') \<and> args ! (q + length name) = CHR ''=''"
      using find q pq by (auto simp: arg_at_def)
    have step: "http_arg_loop args name p =
        (if arg_at args name q then Some (arg_value_at args name q) else http_arg_loop args name (Suc q))"
      using p q here by (simp add: http_arg_loop.simps [of args name p] arg_value_at_def)
    show ?thesis
    proof (cases "arg_at args name q")
      case at: True
      then have "first_from (arg_at args name) p (Some q)" using pq before by (simp add: first_from_def)
      then show ?thesis using step at by force
    next
      case at: False
      have "length args - Suc q < length args - p" using pq by linarith
      from less [OF this] obtain r where r: "first_from (arg_at args name) (Suc q) r"
        "http_arg_loop args name (Suc q) = map_option (arg_value_at args name) r" by blast
      have "first_from (arg_at args name) p r"
        using pq before at by (intro first_from_skip [OF _ _ r(1)]) (auto simp: less_Suc_eq)
      then show ?thesis using step at r by auto
    qed
  qed
qed

section \<open>Looking up an argument\<close>

text \<open>A query string written as \<open>k=v&k=v...\<close>, and the first value of a name in it.\<close>

fun arg_string :: "(bytes \<times> bytes) list \<Rightarrow> bytes" where
  "arg_string [] = []"
| "arg_string [(k, v)] = k @ CHR ''='' # v"
| "arg_string ((k, v) # kvs) = k @ CHR ''='' # v @ CHR ''&'' # arg_string kvs"

fun arg_lookup :: "(bytes \<times> bytes) list \<Rightarrow> bytes \<Rightarrow> bytes option" where
  "arg_lookup [] name = None"
| "arg_lookup ((k, v) # kvs) name = (if ngx_strlow k = ngx_strlow name then Some v else arg_lookup kvs name)"

definition arg_pair :: "bytes \<times> bytes \<Rightarrow> bool" where
  "arg_pair kv \<longleftrightarrow> CHR ''='' \<notin> set (fst kv) \<and> CHR ''&'' \<notin> set (fst kv) \<and> CHR ''&'' \<notin> set (snd kv)"

lemma tolower_amp: "ngx_tolower c = CHR ''&'' \<longleftrightarrow> c = CHR ''&''" "ngx_tolower c = CHR ''='' \<longleftrightarrow> c = CHR ''=''"
proof -
  have "(ngx_tolower c = CHR ''&'' \<longleftrightarrow> c = CHR ''&'') \<and> (ngx_tolower c = CHR ''='' \<longleftrightarrow> c = CHR ''='')"
  proof (cases c)
    case (Char b0 b1 b2 b3 b4 b5 b6 b7)
    then show ?thesis
      by (cases b0; cases b1; cases b2; cases b3; cases b4; cases b5; cases b6; cases b7)
        (simp_all add: ngx_tolower_def)
  qed
  then show "ngx_tolower c = CHR ''&'' \<longleftrightarrow> c = CHR ''&''" "ngx_tolower c = CHR ''='' \<longleftrightarrow> c = CHR ''=''"
    by simp_all
qed

lemma strlow_set:
  assumes "ngx_strlow s = ngx_strlow t"
  shows "CHR ''&'' \<in> set s \<longleftrightarrow> CHR ''&'' \<in> set t" "CHR ''='' \<in> set s \<longleftrightarrow> CHR ''='' \<in> set t"
    "length s = length t"
proof -
  from assms have m: "map ngx_tolower s = map ngx_tolower t" by (simp add: ngx_strlow_def)
  have "CHR ''&'' \<in> set (map ngx_tolower u) \<longleftrightarrow> CHR ''&'' \<in> set u"
    "CHR ''='' \<in> set (map ngx_tolower u) \<longleftrightarrow> CHR ''='' \<in> set u" for u
    by (induction u) (auto simp: tolower_amp eq_commute [of "CHR ''&''"] eq_commute [of "CHR ''=''"])
  then show "CHR ''&'' \<in> set s \<longleftrightarrow> CHR ''&'' \<in> set t" "CHR ''='' \<in> set s \<longleftrightarrow> CHR ''='' \<in> set t"
    using m by metis+
  show "length s = length t" using m by (metis length_map)
qed

text \<open>In a pair \<open>k=v\<close> that starts at the end of \<open>pre\<close>, a name can only be found at its start.\<close>

lemma arg_at_pair:
  assumes kv: "arg_pair (k, v)" and name: "arg_name name"
    and args: "args = pre @ k @ CHR ''='' # v @ rest" and rest: "rest = [] \<or> hd rest = CHR ''&''"
    and pre: "pre = [] \<or> last pre = CHR ''&''"
  shows "arg_at args name (length pre) \<longleftrightarrow> ngx_strlow k = ngx_strlow name"
    and "length pre < q \<Longrightarrow> q \<le> length pre + length k + 1 + length v \<Longrightarrow> \<not> arg_at args name q"
proof -
  let ?n = "length name"
  have d: "drop (length pre) args = k @ CHR ''='' # v @ rest" by (simp add: args)
  have start: "length pre = 0 \<or> args ! (length pre - 1) = CHR ''&''"
    using pre by (cases "pre = []") (auto simp: args nth_append last_conv_nth)
  have eq: "CHR ''='' \<notin> set k" "CHR ''='' \<notin> set name" using kv name by (auto simp: arg_pair_def arg_name_def)
  show "arg_at args name (length pre) \<longleftrightarrow> ngx_strlow k = ngx_strlow name"
  proof
    assume at: "arg_at args name (length pre)"
    then have low: "ngx_strlow (take ?n (k @ CHR ''='' # v @ rest)) = ngx_strlow name"
      and nth: "(k @ CHR ''='' # v @ rest) ! ?n = CHR ''=''"
      by (simp_all add: arg_at_def name_at_def d) (simp add: args nth_append)
    have "CHR ''='' \<notin> set (take ?n (k @ CHR ''='' # v @ rest))" using strlow_set(2) [OF low] eq(2) by simp
    then have "?n \<le> length k" by (cases "?n - length k") auto
    moreover have "\<not> ?n < length k" using nth eq(1) by (metis nth_append nth_mem)
    ultimately show "ngx_strlow k = ngx_strlow name" using low by simp
  next
    assume "ngx_strlow k = ngx_strlow name"
    with strlow_set(3) [OF this] start show "arg_at args name (length pre)"
      by (simp add: arg_at_def name_at_def d) (simp add: args nth_append)
  qed
  assume q: "length pre < q" "q \<le> length pre + length k + 1 + length v"
  let ?kv = "k @ CHR ''='' # v"
  obtain i where i: "q = Suc (length pre + i)" "i < length ?kv"
    using q less_imp_Suc_add [OF q(1)] by auto
  have "args = pre @ ?kv @ rest" by (simp add: args)
  then have "args ! (q - 1) = ?kv ! i" using i by (simp only: i diff_Suc_1 nth_append_length_plus) (simp only: nth_append i if_True)
  moreover have "?kv ! i \<in> set ?kv" using i(2) by (rule nth_mem)
  ultimately have "args ! (q - 1) \<noteq> CHR ''&''" using kv by (auto simp: arg_pair_def)
  with q show "\<not> arg_at args name q" by (simp add: arg_at_def)
qed

lemma first_from_later:
  assumes "p \<le> s" "\<And>q. p \<le> q \<Longrightarrow> q < s \<Longrightarrow> \<not> P q" "first_from P p r"
  shows "first_from P s r"
  using assms by (cases r) (force simp: first_from_def not_less [symmetric])+

lemma first_from_here: "P p \<Longrightarrow> first_from P p r \<Longrightarrow> r = Some p"
  by (cases r) (auto simp: first_from_def)

definition value_slice :: "bytes \<Rightarrow> bytes \<Rightarrow> nat \<Rightarrow> bytes" where
  "value_slice args name q = (case arg_value_at args name q of (v, e) \<Rightarrow> slice args v e)"

lemma value_slice_pair:
  assumes "arg_pair (k, v)" "length name = length k"
    and "args = pre @ k @ CHR ''='' # v @ rest" "rest = [] \<or> hd rest = CHR ''&''"
  shows "value_slice args name (length pre) = v"
proof -
  have "ngx_strlchr ((k @ CHR ''='' # v) @ rest) (CHR ''&'') =
      map_option (\<lambda>i. length (k @ CHR ''='' # v) + i) (ngx_strlchr rest (CHR ''&''))"
    using assms(1) by (intro strlchr_append) (auto simp: arg_pair_def)
  with assms show ?thesis
    by (cases rest) (auto simp: value_slice_def arg_value_at_def slice_def)
qed

lemma arg_string_Cons:
  "arg_string ((k, v) # kvs) =
     k @ CHR ''='' # v @ (if kvs = [] then [] else CHR ''&'' # arg_string kvs)"
  by (cases kvs) auto

lemma arg_lookup_from:
  assumes "arg_name name" "\<forall>kv\<in>set kvs. arg_pair kv" "args = pre @ arg_string kvs"
    "pre = [] \<or> last pre = CHR ''&''" "first_from (arg_at args name) (length pre) r"
  shows "map_option (value_slice args name) r = arg_lookup kvs name"
  using assms(2-5)
proof (induction kvs arbitrary: pre)
  case Nil
  then have "r = None" by (cases r) (auto simp: first_from_def arg_at_def)
  then show ?case by simp
next
  case (Cons kv kvs)
  obtain k v where kv: "kv = (k, v)" by (cases kv)
  let ?rest = "if kvs = [] then [] else CHR ''&'' # arg_string kvs"
  have pair: "arg_pair (k, v)" using Cons.prems kv by simp
  have args: "args = pre @ k @ CHR ''='' # v @ ?rest"
    using Cons.prems(2) by (simp add: kv arg_string_Cons del: arg_string.simps)
  have rest: "?rest = [] \<or> hd ?rest = CHR ''&''" by simp
  note at = arg_at_pair [OF pair assms(1) args rest Cons.prems(3)]
  show ?case
  proof (cases "ngx_strlow k = ngx_strlow name")
    case True
    then have "r = Some (length pre)" using at(1) first_from_here Cons.prems(4) by metis
    moreover have "length name = length k" using strlow_set(3) [OF True] by simp
    ultimately show ?thesis using value_slice_pair [OF pair _ args rest] True kv by simp
  next
    case False
    let ?s = "Suc (length pre + length k + 1 + length v)"
    have "\<not> arg_at args name q" if "length pre \<le> q" "q < ?s" for q
      using that at False by (cases "q = length pre") auto
    then have later: "first_from (arg_at args name) ?s r"
      by (intro first_from_later [OF _ _ Cons.prems(4)]) auto
    show ?thesis
    proof (cases "kvs = []")
      case True
      then have "r = None" using later args by (cases r) (auto simp: first_from_def arg_at_def)
      then show ?thesis using True False kv by simp
    next
      case ne: False
      let ?pre = "pre @ k @ CHR ''='' # v @ [CHR ''&'']"
      have "map_option (value_slice args name) r = arg_lookup kvs name"
        using Cons.prems args ne later by (intro Cons.IH [of ?pre]) (simp_all add: add.assoc)
      then show ?thesis using False kv by simp
    qed
  qed
qed

lemma arg_string_lookup:
  assumes "arg_name name" "\<forall>kv\<in>set kvs. arg_pair kv"
  shows "map_option (\<lambda>(v, e). slice (arg_string kvs) v e) (ngx_http_arg (arg_string kvs) name) =
     arg_lookup kvs name"
proof -
  let ?args = "arg_string kvs"
  obtain r where r: "first_from (arg_at ?args name) 0 r"
    "http_arg_loop ?args name 0 = map_option (arg_value_at ?args name) r"
    using http_arg_loop_find [OF assms(1)] by blast
  have "ngx_http_arg ?args name = http_arg_loop ?args name 0"
    by (simp add: ngx_http_arg_def http_arg_loop.simps)
  moreover have "map_option (value_slice ?args name) r = arg_lookup kvs name"
    using arg_lookup_from [OF assms, of ?args "[]" r] r by simp
  ultimately show ?thesis
    by (simp add: r option.map_comp comp_def value_slice_def [abs_def])
qed

text \<open>
  C38. On a query string \<open>k=v&k=v...\<close> the variable \<open>$arg_name\<close> is the value of the first pair
  whose key is the name up to case, and is not found exactly when no key is; keys or values that
  merely contain the name are never taken for it.
\<close>

theorem http_arg_lookup:
  assumes "arg_name name" "\<forall>kv\<in>set kvs. arg_pair kv"
  shows "map_option (\<lambda>(v, e). slice (arg_string kvs) v e) (ngx_http_arg (arg_string kvs) name) =
     arg_lookup kvs name"
  using assms by (rule arg_string_lookup)

theorem http_arg_lookup_witness:
  "map_option (\<lambda>(v, e). slice (arg_string [(''key'', ''o1''), (''Value'', ''s=2'')]) v e)
      (ngx_http_arg (arg_string [(''key'', ''o1''), (''Value'', ''s=2'')]) ''value'') = Some ''s=2''"
  using http_arg_lookup [of "''value''" "[(''key'', ''o1''), (''Value'', ''s=2'')]"]
  by (simp add: arg_name_def arg_pair_def ngx_strlow_def ngx_tolower_def less_eq_char_def)

text \<open>
  Whatever the query string, a value found for a name without separators lies inside it:
  the start does not pass the end and the end does not pass the string, so \<open>value->len\<close> does not
  wrap around.
\<close>

theorem http_arg_bounds:
  assumes "arg_name name" "ngx_http_arg args name = Some (v, e)"
  shows "length name < v \<and> v \<le> e \<and> e \<le> length args \<and> CHR ''&'' \<notin> set (slice args v e)"
proof -
  let ?n = "length name"
  have "http_arg_loop args name 0 = Some (v, e)" using assms(2) by (simp add: ngx_http_arg_def split: if_splits)
  then obtain q where at: "arg_at args name q" and ve: "(v, e) = arg_value_at args name q"
    using http_arg_loop_find [OF assms(1), of args 0] by (auto simp: first_from_def split: option.splits)
  let ?d = "drop q args"
  have low: "ngx_strlow (take ?n ?d) = ngx_strlow name" and q: "q + ?n < length args"
    and eq: "args ! (q + ?n) = CHR ''=''" using at by (auto simp: arg_at_def name_at_def)
  have "take (Suc ?n) ?d = take ?n ?d @ [CHR ''='']"
    using q eq by (simp add: take_Suc_conv_app_nth)
  then have amp: "CHR ''&'' \<notin> set (take (Suc ?n) ?d)"
    using strlow_set(1) [OF low] assms(1) by (simp add: arg_name_def)
  have "ngx_strlchr (take (Suc ?n) ?d @ drop (Suc ?n) ?d) (CHR ''&'') =
      map_option (\<lambda>i. length (take (Suc ?n) ?d) + i) (ngx_strlchr (drop (Suc ?n) ?d) (CHR ''&''))"
    by (rule strlchr_append [OF amp])
  then have find: "ngx_strlchr ?d (CHR ''&'') =
      map_option (\<lambda>i. Suc ?n + i) (ngx_strlchr (drop (Suc ?n + q) args) (CHR ''&''))"
    using q unfolding append_take_drop_id by (simp add: add.commute)
  have v: "v = Suc ?n + q" using ve by (simp add: arg_value_at_def)
  show ?thesis
  proof (cases "ngx_strlchr (drop v args) (CHR ''&'')")
    case None
    then have "e = length args" using ve find v by (simp add: arg_value_at_def)
    moreover have "CHR ''&'' \<notin> set (drop v args)" using None strlchr_find [where xs = "drop v args" and c = "CHR ''&''"] by simp
    ultimately show ?thesis using v q by (simp add: slice_def)
  next
    case (Some i)
    then have "e = v + i" using ve find v by (simp add: arg_value_at_def)
    moreover have "i < length (drop v args)" "CHR ''&'' \<notin> set (take i (drop v args))"
      using Some strlchr_find [where xs = "drop v args" and c = "CHR ''&''"] by simp_all
    ultimately show ?thesis using v by (simp add: slice_def)
  qed
qed

theorem http_arg_bounds_witness:
  "3 < (4::nat) \<and> (4::nat) \<le> 6 \<and> CHR ''&'' \<notin> set (slice ''key=o1&value=2'' 4 6)"
proof -
  have "ngx_http_arg ''key=o1&value=2'' ''key'' = Some (4, 6)"
    by (simp add: ngx_http_arg_def http_arg_loop.simps ngx_strlcasestrn_def strlcasestrn_loop.simps
        ngx_tolower_def less_eq_char_def)
  from http_arg_bounds [OF _ this] show ?thesis by (simp add: arg_name_def)
qed

section \<open>Looking up a cookie\<close>

fun cookie_string :: "(bytes \<times> bytes) list \<Rightarrow> bytes" where
  "cookie_string [] = []"
| "cookie_string [(k, v)] = k @ CHR ''='' # v"
| "cookie_string ((k, v) # kvs) = k @ CHR ''='' # v @ CHR '';'' # SP # cookie_string kvs"

definition cookie_name :: "bytes \<Rightarrow> bool" where
  "cookie_name k \<longleftrightarrow> k \<noteq> [] \<and> set k \<inter> {NUL, SP, CHR ''='', CHR '';'', CHR '',''} = {}"

definition cookie_pair :: "bytes \<times> bytes \<Rightarrow> bool" where
  "cookie_pair kv \<longleftrightarrow> cookie_name (fst kv) \<and> set (snd kv) \<inter> {CHR '';'', CHR '',''} = {} \<and>
     (snd kv \<noteq> [] \<longrightarrow> hd (snd kv) \<noteq> SP)"

lemma skip_param_append:
  "set xs \<inter> {CHR '';'', CHR '',''} = {} \<Longrightarrow> skip_param (xs @ ys) = skip_param ys"
  by (induction xs) auto

lemma skip_spaces_hd: "s = [] \<or> hd s \<noteq> SP \<Longrightarrow> skip_spaces s = s"
  by (cases s) (auto simp: skip_spaces_def)

lemma cstr_append: "NUL \<notin> set xs \<Longrightarrow> cstr (xs @ ys) = xs @ cstr ys"
  by (induction xs) auto

lemma cookie_prefix:
  assumes "cookie_name k" "cookie_name name"
  shows "ngx_strncasecmp (k @ CHR ''='' # w) name (length name) = 0 \<longleftrightarrow>
     length name \<le> length k \<and> ngx_strlow (take (length name) k) = ngx_strlow name"
proof -
  let ?n = "length name"
  have c: "cstr (k @ CHR ''='' # w) = k @ CHR ''='' # cstr w" "cstr name = name"
    using assms cstr_append [of k] cstr_append [of name "[]"] by (auto simp: cookie_name_def)
  have "?n \<le> length k" if low: "ngx_strlow (take ?n (k @ CHR ''='' # cstr w)) = ngx_strlow name"
  proof (rule ccontr)
    assume "\<not> ?n \<le> length k"
    then have "CHR ''='' \<in> set (take ?n (k @ CHR ''='' # cstr w))" by (cases "?n - length k") auto
    then show False using strlow_set(2) [OF low] assms(2) by (simp add: cookie_name_def)
  qed
  then have "ngx_strlow (take ?n (k @ CHR ''='' # cstr w)) = ngx_strlow name \<longleftrightarrow>
      ?n \<le> length k \<and> ngx_strlow (take ?n k) = ngx_strlow name"
    by (metis (no_types, lifting) append_Nil2 diff_is_0_eq take_0 take_append)
  then show ?thesis by (simp add: strncasecmp_zero_iff c)
qed

lemma mh_scan_pair:
  assumes pair: "cookie_pair (k, v)" and name: "cookie_name name"
    and rest: "rest = [] \<or> (\<exists>r. rest = CHR '';'' # SP # r)"
  shows "mh_scan name True (k @ CHR ''='' # v @ rest) =
     (if ngx_strlow k = ngx_strlow name then Some v
      else mh_scan name True (skip_spaces (skip_param rest)))"
proof -
  let ?s = "k @ CHR ''='' # v @ rest" and ?n = "length name"
  have k: "cookie_name k" "k \<noteq> []" and v: "set v \<inter> {CHR '';'', CHR '',''} = {}" "v \<noteq> [] \<longrightarrow> hd v \<noteq> SP"
    using pair by (auto simp: cookie_pair_def cookie_name_def)
  have skip: "skip_param (drop m k @ CHR ''='' # v @ rest) = skip_param rest" for m
    using skip_param_append [of "drop m k @ CHR ''='' # v" rest] k v
    by (auto simp: cookie_name_def dest: in_set_dropD)
  have val: "takeWhile (\<lambda>c. c \<noteq> CHR '';'') (skip_spaces (v @ rest)) = v"
  proof -
    have "skip_spaces (v @ rest) = v @ rest" using v(2) rest by (intro skip_spaces_hd) (cases v; auto)
    moreover have "takeWhile (\<lambda>c. c \<noteq> CHR '';'') (v @ rest) = v"
    proof -
      have "\<And>c. c \<in> set v \<Longrightarrow> c \<noteq> CHR '';''" using v(1) by auto
      then have "takeWhile (\<lambda>c. c \<noteq> CHR '';'') (v @ rest) = v @ takeWhile (\<lambda>c. c \<noteq> CHR '';'') rest"
        by (rule takeWhile_append2)
      then show ?thesis using rest by auto
    qed
    ultimately show ?thesis by simp
  qed
  consider (eq) "ngx_strlow k = ngx_strlow name"
    | (prefix) "?n < length k" "ngx_strlow (take ?n k) = ngx_strlow name"
    | (differ) "\<not> (?n \<le> length k \<and> ngx_strlow (take ?n k) = ngx_strlow name)"
    by (metis le_neq_implies_less take_all order_refl)
  then show ?thesis
  proof cases
    case eq
    then have "ngx_strncasecmp ?s name ?n = 0" "length k = ?n"
      using cookie_prefix [OF k(1) name] strlow_set(3) [OF eq] by auto
    then show ?thesis using eq k val
      by (subst mh_scan.simps) (simp add: mh_param_def skip_spaces_hd)
  next
    case prefix
    then have cmp: "ngx_strncasecmp ?s name ?n = 0" using cookie_prefix [OF k(1) name] by simp
    obtain c t where ct: "drop ?n k = c # t" using prefix(1) by (metis drop_eq_Nil list.exhaust not_le)
    then have "c \<in> set k" by (metis in_set_dropD list.set_intros(1))
    then have c: "c \<noteq> SP" "c \<noteq> CHR ''=''" using k(1) by (auto simp: cookie_name_def)
    have t: "t = drop (Suc ?n) k" using ct by (metis drop_Suc drop_tl list.sel(3))
    have "ngx_strlow k \<noteq> ngx_strlow name" using prefix(1) strlow_set(3) [of k name] by auto
    then show ?thesis using cmp c k prefix(1) skip [of "Suc ?n"]
      by (subst mh_scan.simps) (simp add: ct mh_param_def skip_spaces_hd flip: t)
  next
    case differ
    then have cmp: "ngx_strncasecmp ?s name ?n \<noteq> 0" using cookie_prefix [OF k(1) name] by auto
    have "ngx_strlow k \<noteq> ngx_strlow name" using differ strlow_set(3) [of k name] by (metis le_refl take_all)
    then show ?thesis using cmp k skip [of 0] by (subst mh_scan.simps) simp
  qed
qed

lemma cookie_string_Cons:
  "cookie_string ((k, v) # kvs) =
     k @ CHR ''='' # v @ (if kvs = [] then [] else CHR '';'' # SP # cookie_string kvs)"
  by (cases kvs) auto

lemma mh_scan_lookup:
  assumes "cookie_name name" "\<forall>kv\<in>set kvs. cookie_pair kv"
  shows "mh_scan name True (cookie_string kvs) = arg_lookup kvs name"
  using assms(2)
proof (induction kvs)
  case Nil
  then show ?case by (simp add: mh_scan.simps)
next
  case (Cons kv kvs)
  obtain k v where kv: "kv = (k, v)" by (cases kv)
  let ?rest = "if kvs = [] then [] else CHR '';'' # SP # cookie_string kvs"
  have "cookie_string kvs = [] \<or> hd (cookie_string kvs) \<noteq> SP"
  proof (cases kvs)
    case (Cons kv' kvs')
    obtain k' v' where kv': "kv' = (k', v')" by (cases kv')
    with Cons Cons.prems have k': "k' \<noteq> []" "SP \<notin> set k'"
      by (auto simp: cookie_pair_def cookie_name_def)
    then have "hd k' \<noteq> SP" using hd_in_set [of k'] by metis
    with Cons kv' k' show ?thesis by (simp add: cookie_string_Cons del: cookie_string.simps)
  qed simp
  then have "skip_spaces (SP # cookie_string kvs) = cookie_string kvs"
    using skip_spaces_hd [of "cookie_string kvs"] by (simp add: skip_spaces_def)
  then have "skip_spaces (skip_param ?rest) = cookie_string kvs" by (simp add: skip_spaces_hd)
  moreover have "mh_scan name True (k @ CHR ''='' # v @ ?rest) =
     (if ngx_strlow k = ngx_strlow name then Some v else mh_scan name True (skip_spaces (skip_param ?rest)))"
    using Cons.prems kv assms(1) by (intro mh_scan_pair) auto
  ultimately show ?case using Cons by (simp add: kv cookie_string_Cons del: cookie_string.simps)
qed

text \<open>
  Searching \<open>Cookie: k=v; k=v ...\<close> for a name gives the value of the first cookie of that
  name up to case and nothing when there is none, also when the name is a proper prefix of
  another cookie's name.
\<close>

theorem cookie_lookup:
  assumes "cookie_name name" "\<forall>kv\<in>set kvs. cookie_pair kv"
  shows "map_option snd (ngx_http_parse_multi_header_lines [cookie_string kvs] name True) =
     arg_lookup kvs name"
proof (cases "length name > length (cookie_string kvs)")
  case True
  have "arg_lookup kvs name = None"
  proof (rule ccontr)
    assume "arg_lookup kvs name \<noteq> None"
    then have "length name \<le> length (cookie_string kvs)"
    proof (induction kvs)
      case (Cons kv kvs)
      then show ?case using strlow_set(3) [of "fst kv" name]
        by (cases kv) (auto simp: cookie_string_Cons simp del: cookie_string.simps split: if_splits)
    qed simp
    with True show False by simp
  qed
  with True show ?thesis by (simp add: ngx_http_parse_multi_header_lines_def)
next
  case False
  then show ?thesis using mh_scan_lookup [OF assms]
    by (simp add: ngx_http_parse_multi_header_lines_def split: option.split)
qed

theorem cookie_lookup_witness:
  "map_option snd (ngx_http_parse_multi_header_lines [cookie_string [(''sidx'', ''1''), (''SID'', ''2'')]] ''sid'' True)
     = Some ''2''"
  using cookie_lookup [of "''sid''" "[(''sidx'', ''1''), (''SID'', ''2'')]"]
  by (simp add: cookie_name_def cookie_pair_def ngx_strlow_def ngx_tolower_def less_eq_char_def)

end
