(* ===== verification/Redis2_Query.thy ===== *)
theory Redis2_Query
  imports Ngx_Number
begin

text \<open>
  The request builder of \<open>redis2-nginx-module-master/src/ngx_http_redis2_util.c\<close>:
  \<open>ngx_http_redis2_build_query\<close> measures the evaluated arguments of all queries, allocates one
  buffer, writes the queries into it and compares the two lengths. The evaluation of a complex
  value in the request (\<open>ngx_http_complex_value\<close>) is the parameter \<open>cv\<close>, \<open>None\<close> its failure; the
  pool's answer to the two allocations is the parameter \<open>pool\<close>.
\<close>

section \<open>The builder\<close>

function ngx_get_num_size :: "nat \<Rightarrow> nat" where
  "ngx_get_num_size i = (if i div 10 > 0 then Suc (ngx_get_num_size (i div 10)) else 1)"
  by pat_completeness auto
termination by (relation "measure id") auto

declare ngx_get_num_size.simps [simp del]

text \<open>The measuring pass: the evaluated arguments, in the order of the array \<open>args\<close>, and \<open>len\<close>.\<close>

fun rq_measure_args :: "('v \<Rightarrow> bytes option) \<Rightarrow> 'v list \<Rightarrow> nat \<Rightarrow> (bytes list \<times> nat) option" where
  "rq_measure_args cv [] len = Some ([], len)"
| "rq_measure_args cv (v # vs) len =
     (case cv v of
        None \<Rightarrow> None
      | Some arg \<Rightarrow>
          (case rq_measure_args cv vs (len + 1 + ngx_get_num_size (length arg) + 2 + length arg + 2) of
             None \<Rightarrow> None
           | Some (args, len') \<Rightarrow> Some (arg # args, len')))"

fun rq_measure :: "('v \<Rightarrow> bytes option) \<Rightarrow> 'v list list \<Rightarrow> nat \<Rightarrow> (bytes list \<times> nat) option" where
  "rq_measure cv [] len = Some ([], len)"
| "rq_measure cv (q # qs) len =
     (case rq_measure_args cv q (len + 1 + ngx_get_num_size (length q) + 2) of
        None \<Rightarrow> None
      | Some (args, len') \<Rightarrow>
          (case rq_measure cv qs len' of
             None \<Rightarrow> None
           | Some (args', len'') \<Rightarrow> Some (args @ args', len'')))"

text \<open>\<open>p = ngx_sprintf(p, "%uz", n)\<close>: no end of buffer is given, so nothing is cut.\<close>

definition sprintf_uz :: "nat \<Rightarrow> bytes" where
  "sprintf_uz n = num_digits n 0"

text \<open>The writing pass: \<open>n\<close> arguments from the flat array, and what is left of it.\<close>

fun rq_write_args :: "nat \<Rightarrow> bytes list \<Rightarrow> bytes \<times> bytes list" where
  "rq_write_args 0 arg = ([], arg)"
| "rq_write_args (Suc n) [] = ([], [])"
| "rq_write_args (Suc n) (a # arg) =
     (case rq_write_args n arg of
        (p, rest) \<Rightarrow> (CHR ''$'' # sprintf_uz (length a) @ [CR, LF] @ a @ [CR, LF] @ p, rest))"

fun rq_write :: "'v list list \<Rightarrow> bytes list \<Rightarrow> bytes" where
  "rq_write [] arg = []"
| "rq_write (q # qs) arg =
     (case rq_write_args (length q) arg of
        (p, rest) \<Rightarrow> CHR ''*'' # sprintf_uz (length q) @ [CR, LF] @ p @ rq_write qs rest)"

definition ngx_http_redis2_build_query ::
    "('v \<Rightarrow> bytes option) \<Rightarrow> bool \<Rightarrow> 'v list list \<Rightarrow> bytes option" where
  "ngx_http_redis2_build_query cv pool queries =
     (if \<not> pool then None
      else
        (case rq_measure cv queries 0 of
           None \<Rightarrow> None
         | Some (args, len) \<Rightarrow>
             (let p = rq_write queries args in if length p \<noteq> len then None else Some p)))"

section \<open>The protocol\<close>

text \<open>
  The Redis request protocol, read the way a server does: a command is \<open>*n\<close> and then \<open>n\<close> bulk
  strings, a bulk string \<open>$n\<close> and then \<open>n\<close> bytes, every part ended by \<open>CR LF\<close>.
\<close>

definition resp_int :: "bytes \<Rightarrow> (nat \<times> bytes) option" where
  "resp_int s =
     (let ds = takeWhile digit s; rest = dropWhile digit s in
      if ds \<noteq> [] \<and> take 2 rest = [CR, LF] then Some (nat (dec_from 0 ds), drop 2 rest) else None)"

definition resp_bulk :: "bytes \<Rightarrow> (bytes \<times> bytes) option" where
  "resp_bulk s =
     (if s \<noteq> [] \<and> hd s = CHR ''$'' then
        (case resp_int (tl s) of
           None \<Rightarrow> None
         | Some (n, r) \<Rightarrow>
             if take 2 (drop n r) = [CR, LF] then Some (take n r, drop (n + 2) r) else None)
      else None)"

fun resp_bulks :: "nat \<Rightarrow> bytes \<Rightarrow> (bytes list \<times> bytes) option" where
  "resp_bulks 0 s = Some ([], s)"
| "resp_bulks (Suc n) s =
     (case resp_bulk s of
        None \<Rightarrow> None
      | Some (b, r) \<Rightarrow> map_option (\<lambda>(bs, r'). (b # bs, r')) (resp_bulks n r))"

definition resp_command :: "bytes \<Rightarrow> (bytes list \<times> bytes) option" where
  "resp_command s =
     (if s \<noteq> [] \<and> hd s = CHR ''*''
      then (case resp_int (tl s) of None \<Rightarrow> None | Some (n, r) \<Rightarrow> resp_bulks n r)
      else None)"

fun resp_commands :: "nat \<Rightarrow> bytes \<Rightarrow> (bytes list list \<times> bytes) option" where
  "resp_commands 0 s = Some ([], s)"
| "resp_commands (Suc n) s =
     (case resp_command s of
        None \<Rightarrow> None
      | Some (c, r) \<Rightarrow> map_option (\<lambda>(cs, r'). (c # cs, r')) (resp_commands n r))"

section \<open>The buffer is exact\<close>

lemma num_size_digits: "ngx_get_num_size n = length (sprintf_uz n)"
  unfolding sprintf_uz_def num_digits_dec
proof (induction n rule: less_induct)
  case (less n)
  then show ?case
    by (cases "n div 10 = 0") (simp_all add: ngx_get_num_size.simps [of n] num_dec_snoc [of n])
qed

definition rq_eval :: "('v \<Rightarrow> bytes option) \<Rightarrow> 'v list list \<Rightarrow> bytes list list" where
  "rq_eval cv qs = map (map (\<lambda>v. the (cv v))) qs"

definition bulk_of :: "bytes \<Rightarrow> bytes" where
  "bulk_of a = CHR ''$'' # sprintf_uz (length a) @ [CR, LF] @ a @ [CR, LF]"

definition command_of :: "bytes list \<Rightarrow> bytes" where
  "command_of as = CHR ''*'' # sprintf_uz (length as) @ [CR, LF] @ concat (map bulk_of as)"

lemma length_bulk_of: "length (bulk_of a) = 1 + ngx_get_num_size (length a) + 2 + length a + 2"
  by (simp add: bulk_of_def num_size_digits)

lemma rq_measure_args_eq:
  "\<forall>v\<in>set vs. cv v \<noteq> None \<Longrightarrow> rq_measure_args cv vs len =
     Some (map (\<lambda>v. the (cv v)) vs, len + length (concat (map (\<lambda>v. bulk_of (the (cv v))) vs)))"
  by (induction vs arbitrary: len) (auto simp: length_bulk_of)

lemma rq_write_args_eq:
  "rq_write_args (length as) (as @ rest) = (concat (map bulk_of as), rest)"
  by (induction as) (simp_all add: bulk_of_def)

lemma rq_measure_eq:
  "\<forall>q\<in>set qs. \<forall>v\<in>set q. cv v \<noteq> None \<Longrightarrow> rq_measure cv qs len =
     Some (concat (rq_eval cv qs), len + length (concat (map command_of (rq_eval cv qs))))"
  by (induction qs arbitrary: len)
    (auto simp: rq_measure_args_eq rq_eval_def command_of_def num_size_digits comp_def)

lemma rq_write_eq: "rq_write qs (concat (rq_eval cv qs)) = concat (map command_of (rq_eval cv qs))"
proof (induction qs)
  case (Cons q qs)
  have "rq_write_args (length q) (map (\<lambda>v. the (cv v)) q @ concat (rq_eval cv qs)) =
      (concat (map bulk_of (map (\<lambda>v. the (cv v)) q)), concat (rq_eval cv qs))"
    using rq_write_args_eq [of "map (\<lambda>v. the (cv v)) q"] by simp
  with Cons show ?case by (simp add: rq_eval_def command_of_def)
qed (simp add: rq_eval_def)

lemma build_query_eq:
  "\<forall>q\<in>set qs. \<forall>v\<in>set q. cv v \<noteq> None \<Longrightarrow>
     ngx_http_redis2_build_query cv True qs = Some (concat (map command_of (rq_eval cv qs)))"
  by (simp add: ngx_http_redis2_build_query_def rq_measure_eq rq_write_eq Let_def)

lemma resp_int_digits: "resp_int (sprintf_uz n @ CR # LF # s) = Some (n, s)"
proof -
  have d: "list_all digit (sprintf_uz n)" "sprintf_uz n \<noteq> []" "dec_from 0 (sprintf_uz n) = int n"
    using num_dec_value [of n] by (simp_all add: sprintf_uz_def num_digits_dec)
  have cr: "\<not> digit CR" by (simp add: digit_def less_eq_char_def)
  have "takeWhile digit (sprintf_uz n @ CR # LF # s) = sprintf_uz n"
    "dropWhile digit (sprintf_uz n @ CR # LF # s) = CR # LF # s"
    using d(1) cr by (simp_all add: takeWhile_append2 dropWhile_append2 list_all_iff)
  then show ?thesis using d by (simp add: resp_int_def)
qed

lemma resp_bulk_of: "resp_bulk (bulk_of a @ s) = Some (a, s)"
  by (simp add: resp_bulk_def bulk_of_def resp_int_digits)

lemma resp_bulks_of: "resp_bulks (length as) (concat (map bulk_of as) @ s) = Some (as, s)"
  by (induction as) (simp_all add: resp_bulk_of)

lemma resp_command_of: "resp_command (command_of as @ s) = Some (as, s)"
  by (simp add: resp_command_def command_of_def resp_int_digits resp_bulks_of)

lemma resp_commands_of: "resp_commands (length cs) (concat (map command_of cs) @ s) = Some (cs, s)"
  by (induction cs) (simp_all add: resp_command_of)

text \<open>
  C37. When every argument can be evaluated and memory is available, the builder succeeds: the
  measured buffer is filled exactly, so its length check never fires. A Redis server reads the
  bytes as exactly the configured commands with the evaluated arguments, whatever bytes those
  hold, so an argument can neither end its command nor start another.
\<close>

theorem redis2_query_framing:
  assumes "\<forall>q\<in>set queries. \<forall>v\<in>set q. cv v \<noteq> None"
  shows "\<exists>b. ngx_http_redis2_build_query cv True queries = Some b \<and>
     resp_commands (length queries) b = Some (rq_eval cv queries, [])"
  using build_query_eq [OF assms] resp_commands_of [of "rq_eval cv queries" "[]"]
  by (simp add: rq_eval_def)

theorem redis2_query_framing_witness:
  "\<exists>b. ngx_http_redis2_build_query (\<lambda>v. Some v) True [[''auth'', ''p''], [''set'', [CR, LF], ''*1'']] = Some b \<and>
     resp_commands 2 b = Some ([[''auth'', ''p''], [''set'', [CR, LF], ''*1'']], [])"
  using redis2_query_framing [of "[[''auth'', ''p''], [''set'', [CR, LF], ''*1'']]" "\<lambda>v. Some v"]
  by (simp add: rq_eval_def numeral_2_eq_2)

end
