(* ===== verification/Backend_Conf.thy ===== *)
theory Backend_Conf
  imports Ngx_Number
begin

text \<open>
  The backend module of \<open>nginx_http_back_end/src\<close>: its configuration (the structures of
  \<open>customer_backend_typedef.h\<close>, the directive handlers and command table of
  \<open>ngx_http_back_end_module.c\<close>, the configuration callbacks of
  \<open>http_module_customer_callback.c\<close>) and the helpers of \<open>sys_util.c\<close>. A string whose \<open>data\<close> is
  \<open>NULL\<close> is \<open>None\<close>. The connection to MySQL is a parameter, as are the system calls and the
  OpenSSL filters of \<open>sys_util.c\<close>.
\<close>

section \<open>Configuration data\<close>

record mysql_connect_conf =
  my_host :: "bytes option"
  my_user_name :: "bytes option"
  my_user_pwd :: "bytes option"
  my_db_name :: "bytes option"
  my_port :: "16 word"

record redis_connect_conf =
  rd_host :: "bytes option"
  rd_port :: "16 word"
  rd_pwd :: "bytes option"

record wx_backend_info =
  wx_app_id :: "bytes option"
  wx_secret :: "bytes option"

text \<open>\<open>ngx_http_cutomer_module_conf_t\<close>; a client is a connection handle, \<open>None\<close> is \<open>NULL\<close>.\<close>

record 'h customer_conf =
  mysql_info :: mysql_connect_conf
  mysql_client :: "'h option"
  redis_info :: redis_connect_conf
  redis_client :: "'h option"
  wx_info :: wx_backend_info

text \<open>What the directives act on: the main configuration, and the content handler of the location.\<close>

datatype content_handler = No_handler | Login_handler

record 'h conf_state =
  main_conf :: "'h customer_conf"
  loc_handler :: content_handler

section \<open>Directive handlers\<close>

text \<open>
  \<open>value = cf->args->elts; value[1]\<close>: the directive is \<open>value[0]\<close>. With \<open>NGX_CONF_ANY\<close> the number
  of arguments is not checked, and \<open>None\<close> is a read past the elements of the array.
\<close>

definition value1 :: "bytes list \<Rightarrow> bytes option" where
  "value1 args = (if 1 < length args then Some (args ! 1) else None)"

type_synonym 'h handler = "bytes list \<Rightarrow> 'h conf_state \<Rightarrow> 'h conf_state option"

definition set_mysql :: "(bytes \<Rightarrow> mysql_connect_conf \<Rightarrow> mysql_connect_conf) \<Rightarrow> 'h handler" where
  "set_mysql f args st =
     map_option (\<lambda>v. st\<lparr>main_conf := (main_conf st)\<lparr>mysql_info := f v (mysql_info (main_conf st))\<rparr>\<rparr>) (value1 args)"

definition set_redis :: "(bytes \<Rightarrow> redis_connect_conf \<Rightarrow> redis_connect_conf) \<Rightarrow> 'h handler" where
  "set_redis f args st =
     map_option (\<lambda>v. st\<lparr>main_conf := (main_conf st)\<lparr>redis_info := f v (redis_info (main_conf st))\<rparr>\<rparr>) (value1 args)"

definition set_wx :: "(bytes \<Rightarrow> wx_backend_info \<Rightarrow> wx_backend_info) \<Rightarrow> 'h handler" where
  "set_wx f args st =
     map_option (\<lambda>v. st\<lparr>main_conf := (main_conf st)\<lparr>wx_info := f v (wx_info (main_conf st))\<rparr>\<rparr>) (value1 args)"

text \<open>\<open>*field = ngx_atoi(value[1].data, value[1].len)\<close> with \<open>int16_t *field\<close>.\<close>

definition port_of :: "bytes \<Rightarrow> 16 word" where
  "port_of v = word_of_int (ngx_atoi v)"

definition ngx_http_get_mysql_conf :: "'h handler" where
  "ngx_http_get_mysql_conf args st = Some st"

definition ngx_http_get_mysql_host :: "'h handler" where
  "ngx_http_get_mysql_host = set_mysql (\<lambda>v m. m\<lparr>my_host := Some v\<rparr>)"

definition ngx_http_get_mysql_port :: "'h handler" where
  "ngx_http_get_mysql_port = set_mysql (\<lambda>v m. m\<lparr>my_port := port_of v\<rparr>)"

definition ngx_http_get_mysql_user_name :: "'h handler" where
  "ngx_http_get_mysql_user_name = set_mysql (\<lambda>v m. m\<lparr>my_user_name := Some v\<rparr>)"

definition ngx_http_get_mysql_user_pwd :: "'h handler" where
  "ngx_http_get_mysql_user_pwd = set_mysql (\<lambda>v m. m\<lparr>my_user_pwd := Some v\<rparr>)"

definition ngx_http_get_mysql_db_name :: "'h handler" where
  "ngx_http_get_mysql_db_name = set_mysql (\<lambda>v m. m\<lparr>my_db_name := Some v\<rparr>)"

definition ngx_http_get_redis_host :: "'h handler" where
  "ngx_http_get_redis_host = set_redis (\<lambda>v m. m\<lparr>rd_host := Some v\<rparr>)"

definition ngx_http_get_redis_pwd :: "'h handler" where
  "ngx_http_get_redis_pwd = set_redis (\<lambda>v m. m\<lparr>rd_pwd := Some v\<rparr>)"

definition ngx_http_get_redis_port :: "'h handler" where
  "ngx_http_get_redis_port = set_redis (\<lambda>v m. m\<lparr>rd_port := port_of v\<rparr>)"

definition ngx_http_get_wx_ma_app_id :: "'h handler" where
  "ngx_http_get_wx_ma_app_id = set_wx (\<lambda>v m. m\<lparr>wx_app_id := Some v\<rparr>)"

definition ngx_http_get_wx_ma_secret :: "'h handler" where
  "ngx_http_get_wx_ma_secret = set_wx (\<lambda>v m. m\<lparr>wx_secret := Some v\<rparr>)"

definition ngx_http_set_login_call_back :: "'h handler" where
  "ngx_http_set_login_call_back args st = Some (st\<lparr>loc_handler := Login_handler\<rparr>)"

definition ngx_http_commands :: "(string \<times> 'h handler) list" where
  "ngx_http_commands =
     [(''mysql'', ngx_http_get_mysql_conf),
      (''mysql_host'', ngx_http_get_mysql_host),
      (''mysql_port'', ngx_http_get_mysql_port),
      (''mysql_user_name'', ngx_http_get_mysql_user_name),
      (''mysql_user_pwd'', ngx_http_get_mysql_user_pwd),
      (''mysql_db_name'', ngx_http_get_mysql_db_name),
      (''redis_host'', ngx_http_get_redis_host),
      (''redis_port'', ngx_http_get_redis_port),
      (''redis_pwd'', ngx_http_get_redis_pwd),
      (''wx_ma_appid'', ngx_http_get_wx_ma_app_id),
      (''wx_ma_secret'', ngx_http_get_wx_ma_secret),
      (''login'', ngx_http_set_login_call_back)]"

section \<open>Callbacks\<close>

definition http_create_main_conf :: "bool \<Rightarrow> 'h customer_conf option" where
  "http_create_main_conf pool =
     (if \<not> pool then None
      else Some \<lparr>mysql_info = \<lparr>my_host = None, my_user_name = None, my_user_pwd = None, my_db_name = None,
                               my_port = 3306\<rparr>,
                 mysql_client = None,
                 redis_info = \<lparr>rd_host = None, rd_port = 6379, rd_pwd = None\<rparr>,
                 redis_client = None,
                 wx_info = \<lparr>wx_app_id = None, wx_secret = None\<rparr>\<rparr>)"

text \<open>\<open>connect\<close> is \<open>connect_mysql_db(host, port, user_name, pwd, db)\<close>; it gets the port as \<open>int16_t\<close>.\<close>

definition http_postconfiguration ::
    "(bytes \<Rightarrow> int \<Rightarrow> bytes \<Rightarrow> bytes \<Rightarrow> bytes \<Rightarrow> 'h option) \<Rightarrow> 'h customer_conf \<Rightarrow> ngx_int \<times> 'h customer_conf" where
  "http_postconfiguration connect ct =
     (let mysql = mysql_info ct; redis = redis_info ct; wx = wx_info ct in
      if my_host mysql = None \<or> my_user_name mysql = None \<or> my_user_pwd mysql = None \<or> my_db_name mysql = None
      then (NGX_ERROR, ct)
      else if rd_host redis = None \<or> rd_pwd redis = None then (NGX_ERROR, ct)
      else if wx_app_id wx = None \<or> wx_secret wx = None then (NGX_ERROR, ct)
      else
        (let client = connect (the (my_host mysql)) (sint (my_port mysql)) (the (my_user_name mysql))
                        (the (my_user_pwd mysql)) (the (my_db_name mysql));
             ct1 = ct\<lparr>mysql_client := client\<rparr> in
         if client = None then (NGX_ERROR, ct1) else (NGX_OK, ct1)))"

section \<open>Helpers of sys_util.c\<close>

text \<open>
  \<open>get_random_id\<close>: \<open>open_r\<close> is whether \<open>/dev/urandom\<close> can be opened, \<open>read_r\<close> what \<open>read\<close>
  returns; the second component is how many descriptors the call leaves open.
\<close>

definition get_random_id :: "bool \<Rightarrow> int \<Rightarrow> bool \<Rightarrow> int \<Rightarrow> int \<times> nat" where
  "get_random_id buf mx open_r read_r =
     (if \<not> buf \<or> 0 > mx then (- 1, 0)
      else if \<not> open_r then (- 2, 0)
      else if read_r < 0 then (- 3, 1)
      else (0, 0))"

text \<open>
  \<open>base64_encode\<close>: \<open>bio\<close> is the text the base64 filter leaves in the memory BIO; its last byte is
  replaced by the terminator, and the size returned counts it. \<open>None\<close> is a write before \<open>dst\<close>,
  when that text is empty.
\<close>

definition base64_encode :: "(bytes \<Rightarrow> bytes) \<Rightarrow> bytes option \<Rightarrow> bool \<Rightarrow> (int \<times> bytes) option" where
  "base64_encode bio src dst =
     (case src of
        None \<Rightarrow> Some (- 1, [])
      | Some s \<Rightarrow>
          if \<not> dst then Some (- 1, [])
          else if bio s = [] then None
          else Some (int (length (bio s)), (bio s)[length (bio s) - 1 := NUL]))"

text \<open>
  \<open>base64_decode\<close>: \<open>bio\<close> is what \<open>BIO_read\<close> through the base64 filter returns and stores; the
  result is the returned size and \<open>dst\<close>, \<open>None\<close> when \<open>dst[size] = 0\<close> is written before \<open>dst\<close>.
\<close>

definition base64_decode :: "(bytes \<Rightarrow> int \<times> bytes) \<Rightarrow> bytes option \<Rightarrow> bool \<Rightarrow> (int \<times> bytes) option" where
  "base64_decode bio src dst =
     (case src of
        None \<Rightarrow> Some (- 1, [])
      | Some s \<Rightarrow>
          if \<not> dst then Some (- 1, [])
          else (case bio s of (n, out) \<Rightarrow> if n < 0 then None else Some (n, take (nat n) out @ [NUL])))"

section \<open>Reading a configuration\<close>

text \<open>A directive with its one argument, dispatched by the command table; other names are not ours.\<close>

definition run_directive :: "string \<times> bytes \<Rightarrow> 'h conf_state \<Rightarrow> 'h conf_state option" where
  "run_directive d st =
     (case map_of ngx_http_commands (fst d) of
        None \<Rightarrow> Some st
      | Some h \<Rightarrow> h [fst d, snd d] st)"

fun run_directives :: "(string \<times> bytes) list \<Rightarrow> 'h conf_state \<Rightarrow> 'h conf_state option" where
  "run_directives [] st = Some st"
| "run_directives (d # ds) st = Option.bind (run_directive d st) (run_directives ds)"

lemmas handler_defs = ngx_http_get_mysql_conf_def ngx_http_get_mysql_host_def ngx_http_get_mysql_port_def
  ngx_http_get_mysql_user_name_def ngx_http_get_mysql_user_pwd_def ngx_http_get_mysql_db_name_def
  ngx_http_get_redis_host_def ngx_http_get_redis_pwd_def ngx_http_get_redis_port_def
  ngx_http_get_wx_ma_app_id_def ngx_http_get_wx_ma_secret_def ngx_http_set_login_call_back_def
  set_mysql_def set_redis_def set_wx_def value1_def

text \<open>The field a directive sets: the value of its last occurrence, or the old value.\<close>

definition given :: "(string \<times> bytes) list \<Rightarrow> string \<Rightarrow> bytes option \<Rightarrow> bytes option" where
  "given ds name old = (case map_of (rev ds) name of None \<Rightarrow> old | Some v \<Rightarrow> Some v)"

definition given_port :: "(string \<times> bytes) list \<Rightarrow> string \<Rightarrow> 16 word \<Rightarrow> 16 word" where
  "given_port ds name old = (case map_of (rev ds) name of None \<Rightarrow> old | Some v \<Rightarrow> port_of v)"

definition conf_by :: "(string \<times> bytes) list \<Rightarrow> 'h conf_state \<Rightarrow> 'h conf_state" where
  "conf_by ds st =
     (let c = main_conf st; m = mysql_info c; r = redis_info c; w = wx_info c in
      \<lparr>main_conf = c\<lparr>
         mysql_info := \<lparr>my_host = given ds ''mysql_host'' (my_host m),
                        my_user_name = given ds ''mysql_user_name'' (my_user_name m),
                        my_user_pwd = given ds ''mysql_user_pwd'' (my_user_pwd m),
                        my_db_name = given ds ''mysql_db_name'' (my_db_name m),
                        my_port = given_port ds ''mysql_port'' (my_port m)\<rparr>,
         redis_info := \<lparr>rd_host = given ds ''redis_host'' (rd_host r),
                        rd_port = given_port ds ''redis_port'' (rd_port r),
                        rd_pwd = given ds ''redis_pwd'' (rd_pwd r)\<rparr>,
         wx_info := \<lparr>wx_app_id = given ds ''wx_ma_appid'' (wx_app_id w),
                     wx_secret = given ds ''wx_ma_secret'' (wx_secret w)\<rparr>\<rparr>,
       loc_handler = (if map_of ds ''login'' = None then loc_handler st else Login_handler)\<rparr>)"

lemma given_Cons:
  "given (d # ds) n old = given ds n (if fst d = n then Some (snd d) else old)"
  "given_port (d # ds) n p = given_port ds n (if fst d = n then port_of (snd d) else p)"
  by (auto simp: given_def given_port_def map_add_def split: option.splits)

lemma given_Nil: "given [] n old = old" "given_port [] n p = p"
  by (simp_all add: given_def given_port_def)

lemma run_directive_by: "run_directive d st = Some (conf_by [d] st)"
proof -
  obtain n v where d: "d = (n, v)" by (cases d)
  show ?thesis
    unfolding run_directive_def ngx_http_commands_def d
    by (simp add: handler_defs conf_by_def given_Cons given_Nil Let_def)
qed

lemma conf_by_Cons: "conf_by (d # ds) st = conf_by ds (conf_by [d] st)"
  by (auto simp: conf_by_def given_Cons given_Nil Let_def)

lemma run_directives_by: "run_directives ds st = Some (conf_by ds st)"
proof (induction ds arbitrary: st)
  case Nil
  then show ?case by (simp add: conf_by_def given_Nil Let_def)
next
  case (Cons d ds)
  then show ?case by (simp add: run_directive_by conf_by_Cons [of d ds])
qed

text \<open>
  A configuration file is read directive by directive; whatever their order, each setting ends
  up with the value of its last directive, in its own field and no other, and \<open>login\<close> only
  installs the login handler.
\<close>

theorem configuration_read: "run_directives ds st = Some (conf_by ds st)"
  by (rule run_directives_by)

lemma sint_port:
  assumes "0 \<le> n" "n < 2 ^ 16"
  shows "sint (word_of_int n :: 16 word) = (if n < 2 ^ 15 then n else n - 2 ^ 16)"
proof -
  have "sint (word_of_int n :: 16 word) = (n + 2 ^ 15) mod 2 ^ 16 - 2 ^ 15"
    using int_word_sint [of n, where ?'a = 16] by simp
  moreover have "(n + 2 ^ 15) mod 2 ^ 16 = (if n < 2 ^ 15 then n + 2 ^ 15 else n - 2 ^ 15)"
  proof (cases "n < 2 ^ 15")
    case False
    have "(n + 2 ^ 15) mod 2 ^ 16 = (n - 2 ^ 15 + 2 ^ 16) mod 2 ^ 16" by (simp add: algebra_simps)
    also have "\<dots> = (n - 2 ^ 15) mod 2 ^ 16" by (rule mod_add_self2)
    also have "\<dots> = n - 2 ^ 15" using assms False by (intro mod_pos_pos_trivial) simp_all
    finally show ?thesis using False by simp
  qed (use assms in simp)
  ultimately show ?thesis by simp
qed

text \<open>
  A port directive with a decimal number below 65536 stores that number only up to 32767; a
  valid TCP port above it becomes a negative number. Text that is not a number is stored as
  \<open>-1\<close>, without an error.
\<close>

theorem configured_port:
  assumes "list_all digit v \<longrightarrow> dec_from 0 v < 2 ^ 16"
  shows "sint (port_of v) =
     (if v \<noteq> [] \<and> list_all digit v
      then (if dec_from 0 v < 2 ^ 15 then dec_from 0 v else dec_from 0 v - 2 ^ 16)
      else - 1)"
proof (cases "v \<noteq> [] \<and> list_all digit v")
  case True
  then have "ngx_atoi v = dec_from 0 v" "0 \<le> dec_from 0 v" "dec_from 0 v < 2 ^ 16"
    using assms dec_from_ge [of 0 v] by (simp_all add: atoi.read_spec NGX_MAX_INT_T_VALUE_def)
  with True show ?thesis by (simp add: port_of_def sint_port del: sint_sbintrunc')
next
  case False
  then have "ngx_atoi v = - 1" by (auto simp: atoi.read_spec)
  with False show ?thesis by (simp add: port_of_def if_not_P [OF False])
qed

theorem configured_port_witness:
  "sint (port_of ''3306'') = 3306 \<and> sint (port_of ''63790'') = - 1746"
  using configured_port [of "''3306''"] configured_port [of "''63790''"]
  by (simp add: digit_def less_eq_char_def digit_val_def)

text \<open>
  From an empty configuration and any list of directives, the module starts exactly when each
  MySQL, Redis and WeChat setting without a default has been given and the connection to MySQL
  with the last values given succeeds, the MySQL port being 3306 unless set.
\<close>

theorem module_starts:
  assumes "http_create_main_conf True = Some c"
    and "run_directives ds \<lparr>main_conf = c, loc_handler = No_handler\<rparr> = Some st"
  shows "fst (http_postconfiguration connect (main_conf st)) = NGX_OK \<longleftrightarrow>
     (\<exists>h u p d. map_of (rev ds) ''mysql_host'' = Some h \<and> map_of (rev ds) ''mysql_user_name'' = Some u \<and>
        map_of (rev ds) ''mysql_user_pwd'' = Some p \<and> map_of (rev ds) ''mysql_db_name'' = Some d \<and>
        {''redis_host'', ''redis_pwd'', ''wx_ma_appid'', ''wx_ma_secret''} \<subseteq> fst ` set ds \<and>
        connect h (sint (given_port ds ''mysql_port'' 3306)) u p d \<noteq> None)"
proof -
  let ?m = "map_of (rev ds)"
  have st: "st = conf_by ds \<lparr>main_conf = c, loc_handler = No_handler\<rparr>"
    using assms(2) by (simp add: run_directives_by)
  have given: "given ds n None = ?m n" for n by (simp add: given_def split: option.split)
  have dom: "n \<in> fst ` set ds \<longleftrightarrow> ?m n \<noteq> None" for n
    using map_of_eq_None_iff [of "rev ds" n] by simp
  have fields: "mysql_info (main_conf st) = \<lparr>my_host = ?m ''mysql_host'', my_user_name = ?m ''mysql_user_name'',
        my_user_pwd = ?m ''mysql_user_pwd'', my_db_name = ?m ''mysql_db_name'',
        my_port = given_port ds ''mysql_port'' 3306\<rparr>"
    "rd_host (redis_info (main_conf st)) = ?m ''redis_host''" "rd_pwd (redis_info (main_conf st)) = ?m ''redis_pwd''"
    "wx_info (main_conf st) = \<lparr>wx_app_id = ?m ''wx_ma_appid'', wx_secret = ?m ''wx_ma_secret''\<rparr>"
    using assms(1) by (auto simp: st http_create_main_conf_def conf_by_def given Let_def)
  show ?thesis
    by (auto simp: http_postconfiguration_def fields dom Let_def)
qed

theorem module_starts_witness:
  "fst (http_postconfiguration (\<lambda>h port u p d. Some ())
      (main_conf (the (run_directives
         [(''mysql_host'', ''localhost''), (''mysql_user_name'', ''root''), (''mysql_user_pwd'', ''x''),
          (''mysql_db_name'', ''customer''), (''redis_host'', ''localhost''), (''redis_pwd'', ''x''),
          (''wx_ma_appid'', ''wx''), (''wx_ma_secret'', ''s'')]
         \<lparr>main_conf = the (http_create_main_conf True), loc_handler = No_handler\<rparr>)))) = NGX_OK"
proof -
  let ?ds = "[(''mysql_host'', ''localhost''), (''mysql_user_name'', ''root''), (''mysql_user_pwd'', ''x''),
          (''mysql_db_name'', ''customer''), (''redis_host'', ''localhost''), (''redis_pwd'', ''x''),
          (''wx_ma_appid'', ''wx''), (''wx_ma_secret'', ''s'')]"
  obtain c :: "unit customer_conf" where c: "http_create_main_conf True = Some c"
    by (simp add: http_create_main_conf_def)
  obtain st where st: "run_directives ?ds \<lparr>main_conf = c, loc_handler = No_handler\<rparr> = Some st"
    by (simp add: run_directives_by)
  have "fst (http_postconfiguration (\<lambda>h port u p d. Some ()) (main_conf st)) = NGX_OK"
    using module_starts [OF c st, of "\<lambda>h port u p d. Some ()"] by simp
  then show ?thesis by (simp only: c st option.sel)
qed

text \<open>
  When reading \<open>/dev/urandom\<close> fails, \<open>get_random_id\<close> reports the error but leaves the descriptor
  it opened open; every other outcome leaves none.
\<close>

theorem random_id_descriptor:
  assumes "get_random_id buf mx open_r read_r = (rc, fds)"
  shows "fds = (if rc = - 3 then 1 else 0) \<and> (rc = - 3 \<longleftrightarrow> buf \<and> 0 \<le> mx \<and> open_r \<and> read_r < 0)"
  using assms by (auto simp: get_random_id_def split: if_splits)

theorem random_id_descriptor_witness:
  "snd (get_random_id True 24 True (- 1)) = 1"
  using random_id_descriptor [of True 24 True "- 1" "- 3" 1] by (simp add: get_random_id_def)

end
