(* ===== verification/Slothjson.thy ===== *)
theory Slothjson
  imports Prelude
begin

text \<open>
  The JSON codecs of the login service: the part of \<open>slothjson-master/include/slothjson.h\<close> and
  \<open>slothjson.cpp\<close> that its three structures use, and the generated \<open>decode\<close> and \<open>encode\<close> of
  \<open>nginx_http_back_end/schema/LoginParam.cpp\<close>, \<open>WXSessionInfo.cpp\<close> and \<open>LoginBackParam.cpp\<close>. They
  work on rapidjson values; rapidjson's reader and its pretty writer, between texts and values, are
  parameters. The lemmas say exactly which values decode: any object whose members of the given
  names, as far as there are any, have the type of the field.
\<close>

section \<open>Values\<close>

text \<open>
  \<open>rapidjson::Value\<close>. A number is an integer, which \<open>IsInt\<close>, \<open>IsUint\<close> and the like classify by its
  size, or a double, kept as its 64 bits. The members of an object are in their order, and a name
  may occur twice.
\<close>

datatype rj_value = RJ_Null | RJ_Bool bool | RJ_Int int | RJ_Double "64 word" | RJ_String bytes
  | RJ_Array "rj_value list" | RJ_Object "(bytes \<times> rj_value) list"

text \<open>What is left of a text that is handed over as a C string.\<close>

definition c_str :: "bytes \<Rightarrow> bytes" where
  "c_str s = takeWhile (\<lambda>c. c \<noteq> CHR 0x00) s"

definition is_int :: "int \<Rightarrow> bool" where
  "is_int n \<longleftrightarrow> - (2 ^ 31) \<le> n \<and> n < 2 ^ 31"

definition is_uint :: "int \<Rightarrow> bool" where
  "is_uint n \<longleftrightarrow> 0 \<le> n \<and> n < 2 ^ 32"

definition is_int64 :: "int \<Rightarrow> bool" where
  "is_int64 n \<longleftrightarrow> - (2 ^ 63) \<le> n \<and> n < 2 ^ 63"

definition is_uint64 :: "int \<Rightarrow> bool" where
  "is_uint64 n \<longleftrightarrow> 0 \<le> n \<and> n < 2 ^ 64"

text \<open>\<open>FindMember\<close>: the first member of that name.\<close>

fun find_member :: "bytes \<Rightarrow> (bytes \<times> rj_value) list \<Rightarrow> rj_value option" where
  "find_member name [] = None"
| "find_member name ((k, v) # ms) = (if k = name then Some v else find_member name ms)"

section \<open>The codecs of slothjson\<close>

fun decode_string :: "rj_value \<Rightarrow> bytes option" where
  "decode_string (RJ_String s) = Some (c_str s)"
| "decode_string _ = None"

fun decode_int32 :: "rj_value \<Rightarrow> int option" where
  "decode_int32 (RJ_Int n) = (if is_int n then Some n else None)"
| "decode_int32 _ = None"

definition encode_string :: "bytes \<Rightarrow> rj_value option" where
  "encode_string s = Some (RJ_String (c_str s))"

definition encode_int32 :: "int \<Rightarrow> rj_value option" where
  "encode_int32 n = Some (RJ_Int n)"

text \<open>\<open>decode_field\<close>: the field as it was, or as the member of that name decodes to, and whether there is one.\<close>

definition decode_field :: "(rj_value \<Rightarrow> 'a option) \<Rightarrow> rj_value \<Rightarrow> bytes \<Rightarrow> 'a \<Rightarrow> ('a \<times> bool) option" where
  "decode_field dec json_val field_name field =
     (case json_val of
        RJ_Object ms \<Rightarrow>
          (case find_member field_name ms of
             Some tmp \<Rightarrow> (case dec tmp of Some x \<Rightarrow> Some (x, True) | None \<Rightarrow> None)
           | None \<Rightarrow> Some (field, False))
      | _ \<Rightarrow> None)"

definition encode_field :: "('a \<Rightarrow> rj_value option) \<Rightarrow> 'a \<Rightarrow> bytes \<Rightarrow> rj_value \<Rightarrow> rj_value option" where
  "encode_field enc field field_name json_val =
     (case (enc field, json_val) of
        (Some tmp, RJ_Object ms) \<Rightarrow> Some (RJ_Object (ms @ [(field_name, tmp)]))
      | _ \<Rightarrow> None)"

text \<open>\<open>__convert\<close>, for what is neither an array nor an object.\<close>

fun rj_convert :: "rj_value \<Rightarrow> rj_value option" where
  "rj_convert (RJ_Bool b) = Some (RJ_Bool b)"
| "rj_convert (RJ_Int n) = (if is_int n \<or> is_uint n \<or> is_int64 n \<or> is_uint64 n then Some (RJ_Int n) else None)"
| "rj_convert (RJ_Double d) = Some (RJ_Double d)"
| "rj_convert (RJ_String s) = Some (RJ_String (c_str s))"
| "rj_convert RJ_Null = Some RJ_Null"
| "rj_convert _ = None"

text \<open>The loops over the elements and members move each one; a name goes through a C string.\<close>

fun encode_document :: "rj_value \<Rightarrow> rj_value option" where
  "encode_document (RJ_Array vs) = Some (RJ_Array vs)"
| "encode_document (RJ_Object ms) = Some (RJ_Object (map (\<lambda>(k, v). (c_str k, v)) ms))"
| "encode_document v = rj_convert v"

fun decode_document :: "rj_value \<Rightarrow> rj_value option" where
  "decode_document (RJ_Array vs) = Some (RJ_Array vs)"
| "decode_document (RJ_Object ms) = Some (RJ_Object (map (\<lambda>(k, v). (c_str k, v)) ms))"
| "decode_document v = rj_convert v"

text \<open>
  \<open>decode(const std::string&, T&)\<close>: \<open>parse\<close> is \<open>rapidjson::Document::Parse\<close>; a text that is not
  JSON leaves the document \<open>null\<close>. \<open>encode<true, T>\<close>: \<open>write\<close> is the pretty writer.
\<close>

definition sj_decode :: "(bytes \<Rightarrow> rj_value option) \<Rightarrow> (rj_value \<Rightarrow> 'a option) \<Rightarrow> bytes \<Rightarrow> 'a option" where
  "sj_decode parse dec json_val =
     (let doc = (case parse (c_str json_val) of Some v \<Rightarrow> v | None \<Rightarrow> RJ_Null) in
      case decode_document doc of None \<Rightarrow> None | Some v \<Rightarrow> dec v)"

definition sj_encode :: "(rj_value \<Rightarrow> bytes) \<Rightarrow> ('a \<Rightarrow> rj_value option) \<Rightarrow> 'a \<Rightarrow> bytes option" where
  "sj_encode write enc obj =
     (case enc obj of
        None \<Rightarrow> None
      | Some v \<Rightarrow> (case encode_document v of None \<Rightarrow> None | Some doc \<Rightarrow> Some (c_str (write doc))))"

section \<open>The structures of the login service\<close>

record wx_session =
  si_session_key :: bytes
  si_openid :: bytes
  si_unionid :: bytes
  si_expires_in :: int

record login_back =
  lb_expire :: int
  lb_session_id :: bytes
  lb_openid :: bytes

text \<open>\<open>LoginParam\<close> has the one field \<open>code\<close>. No \<open>skip\<close> flag is ever set, and the flags of the members
  found are never read.\<close>

definition LoginParam_decode :: "rj_value \<Rightarrow> bytes option" where
  "LoginParam_decode v = map_option fst (decode_field decode_string v ''code'' [])"

definition WXSessionInfo_decode :: "rj_value \<Rightarrow> wx_session option" where
  "WXSessionInfo_decode v =
     (case decode_field decode_string v ''session_key'' [] of
        None \<Rightarrow> None
      | Some (key, _) \<Rightarrow>
     (case decode_field decode_string v ''openid'' [] of
        None \<Rightarrow> None
      | Some (openid, _) \<Rightarrow>
     (case decode_field decode_string v ''unionid'' [] of
        None \<Rightarrow> None
      | Some (unionid, _) \<Rightarrow>
     (case decode_field decode_int32 v ''expires_in'' 0 of
        None \<Rightarrow> None
      | Some (expires, _) \<Rightarrow>
          Some \<lparr>si_session_key = key, si_openid = openid, si_unionid = unionid, si_expires_in = expires\<rparr>))))"

definition LoginBackParam_encode :: "login_back \<Rightarrow> rj_value option" where
  "LoginBackParam_encode b =
     (case encode_field encode_int32 (lb_expire b) ''expire'' (RJ_Object []) of
        None \<Rightarrow> None
      | Some v1 \<Rightarrow>
     (case encode_field encode_string (lb_session_id b) ''session_id'' v1 of
        None \<Rightarrow> None
      | Some v2 \<Rightarrow> encode_field encode_string (lb_openid b) ''openid'' v2))"

definition LoginBackParam_decode :: "rj_value \<Rightarrow> login_back option" where
  "LoginBackParam_decode v =
     (case decode_field decode_int32 v ''expire'' 0 of
        None \<Rightarrow> None
      | Some (expire, _) \<Rightarrow>
     (case decode_field decode_string v ''session_id'' [] of
        None \<Rightarrow> None
      | Some (sid, _) \<Rightarrow>
     (case decode_field decode_string v ''openid'' [] of
        None \<Rightarrow> None
      | Some (openid, _) \<Rightarrow> Some \<lparr>lb_expire = expire, lb_session_id = sid, lb_openid = openid\<rparr>)))"

section \<open>What decodes\<close>

text \<open>The members of the document a text is, as the decoders see them.\<close>

definition members_of :: "(bytes \<Rightarrow> rj_value option) \<Rightarrow> bytes \<Rightarrow> (bytes \<times> rj_value) list option" where
  "members_of parse text =
     (case parse (c_str text) of Some (RJ_Object ms) \<Rightarrow> Some (map (\<lambda>(k, v). (c_str k, v)) ms) | _ \<Rightarrow> None)"

definition field_of :: "(rj_value \<Rightarrow> 'a option) \<Rightarrow> 'a \<Rightarrow> bytes \<Rightarrow> (bytes \<times> rj_value) list \<Rightarrow> 'a option" where
  "field_of dec dflt name ms = (case find_member name ms of None \<Rightarrow> Some dflt | Some v \<Rightarrow> dec v)"

lemma decode_field_object:
  "map_option fst (decode_field dec (RJ_Object ms) name dflt) = field_of dec dflt name ms"
  by (auto simp: decode_field_def field_of_def split: option.splits)

lemma decode_field_other: "(\<forall>ms. v \<noteq> RJ_Object ms) \<Longrightarrow> decode_field dec v name dflt = None"
  by (auto simp: decode_field_def split: rj_value.splits)

lemma decode_field_Some:
  "decode_field dec (RJ_Object ms) name dflt = Some (x, b) \<Longrightarrow> field_of dec dflt name ms = Some x"
  by (metis decode_field_object fst_conv option.simps(9))

lemma decode_field_None:
  "decode_field dec (RJ_Object ms) name dflt = None \<longleftrightarrow> field_of dec dflt name ms = None"
  by (metis decode_field_object map_option_is_None)

lemma rj_convert_object: "rj_convert v \<noteq> Some (RJ_Object ms)"
  by (cases v) auto

lemma decode_document_object:
  "decode_document v = Some (RJ_Object ms) \<longleftrightarrow> (\<exists>ms'. v = RJ_Object ms' \<and> ms = map (\<lambda>(k, v). (c_str k, v)) ms')"
  by (cases v) (auto simp: rj_convert_object)

lemma sj_decode_object:
  assumes "\<And>v. (\<forall>ms. v \<noteq> RJ_Object ms) \<Longrightarrow> dec v = None"
  shows "sj_decode parse dec text = Option.bind (members_of parse text) (\<lambda>ms. dec (RJ_Object ms))"
proof (cases "members_of parse text")
  case None
  have "dec v = None" if "decode_document (case parse (c_str text) of Some v \<Rightarrow> v | None \<Rightarrow> RJ_Null) = Some v" for v
  proof (rule assms, rule notI [THEN allI])
    fix ms
    assume "v = RJ_Object ms"
    with that None show False
      by (auto simp: members_of_def decode_document_object split: option.splits)
  qed
  then show ?thesis using None by (auto simp: sj_decode_def Let_def split: option.splits)
next
  case (Some ms)
  then show ?thesis by (auto simp: members_of_def sj_decode_def split: option.splits rj_value.splits)
qed

lemma decode_login_eq:
  "sj_decode parse LoginParam_decode text = Option.bind (members_of parse text) (field_of decode_string [] ''code'')"
  by (subst sj_decode_object) (simp_all add: LoginParam_decode_def decode_field_other decode_field_object)

lemma decode_session_eq:
  "sj_decode parse WXSessionInfo_decode text = Some info \<longleftrightarrow>
     (\<exists>ms. members_of parse text = Some ms \<and>
        field_of decode_string [] ''session_key'' ms = Some (si_session_key info) \<and>
        field_of decode_string [] ''openid'' ms = Some (si_openid info) \<and>
        field_of decode_string [] ''unionid'' ms = Some (si_unionid info) \<and>
        field_of decode_int32 0 ''expires_in'' ms = Some (si_expires_in info))"
proof -
  have "WXSessionInfo_decode (RJ_Object ms) = Some info \<longleftrightarrow>
      field_of decode_string [] ''session_key'' ms = Some (si_session_key info) \<and>
      field_of decode_string [] ''openid'' ms = Some (si_openid info) \<and>
      field_of decode_string [] ''unionid'' ms = Some (si_unionid info) \<and>
      field_of decode_int32 0 ''expires_in'' ms = Some (si_expires_in info)" for ms
    unfolding WXSessionInfo_decode_def
    by (cases info) (auto simp: decode_field_None dest!: decode_field_Some split: option.splits)
  moreover have "WXSessionInfo_decode v = None" if "\<forall>ms. v \<noteq> RJ_Object ms" for v
    using that by (simp add: WXSessionInfo_decode_def decode_field_other)
  ultimately show ?thesis by (subst sj_decode_object) (auto simp: bind_eq_Some_conv)
qed

text \<open>A document without any of the members is the session whose fields are all empty.\<close>

lemma find_member_None: "find_member name ms = None \<longleftrightarrow> name \<notin> fst ` set ms"
  by (induction ms) (auto split: if_splits)

lemma decode_session_missing:
  assumes "parse (c_str text) = Some (RJ_Object ms)"
    and "c_str ` fst ` set ms \<inter> {''session_key'', ''openid'', ''unionid'', ''expires_in''} = {}"
  shows "sj_decode parse WXSessionInfo_decode text =
     Some \<lparr>si_session_key = [], si_openid = [], si_unionid = [], si_expires_in = 0\<rparr>"
proof -
  let ?ms = "map (\<lambda>(k, v). (c_str k, v)) ms"
  have "fst ` set ?ms = c_str ` fst ` set ms" by force
  with assms have "members_of parse text = Some ?ms" "find_member ''session_key'' ?ms = None"
    "find_member ''openid'' ?ms = None" "find_member ''unionid'' ?ms = None" "find_member ''expires_in'' ?ms = None"
    unfolding find_member_None by (auto simp: members_of_def)
  then show ?thesis unfolding decode_session_eq by (simp add: field_of_def)
qed

section \<open>The answer\<close>

lemma c_str_id [simp]: "CHR 0x00 \<notin> set s \<Longrightarrow> c_str s = s"
  by (auto simp: c_str_def takeWhile_eq_all_conv)

lemma c_str_no_nul [simp]: "CHR 0x00 \<notin> set (c_str s)"
  by (auto simp: c_str_def dest: set_takeWhileD)

lemma encode_back_eq:
  "sj_encode write LoginBackParam_encode b =
     Some (c_str (write (RJ_Object [(''expire'', RJ_Int (lb_expire b)), (''session_id'', RJ_String (c_str (lb_session_id b))),
        (''openid'', RJ_String (c_str (lb_openid b)))])))"
  by (simp add: sj_encode_def LoginBackParam_encode_def encode_field_def encode_int32_def encode_string_def)

text \<open>With a writer whose texts are read back, the answer decodes to what was encoded.\<close>

lemma encode_back_roundtrip:
  assumes "\<And>v. parse (c_str (write v)) = Some v" "is_int (lb_expire b)"
    and "CHR 0x00 \<notin> set (lb_session_id b)" "CHR 0x00 \<notin> set (lb_openid b)"
  shows "\<exists>text. sj_encode write LoginBackParam_encode b = Some text \<and> sj_decode parse LoginBackParam_decode text = Some b"
  using assms unfolding encode_back_eq
  by (cases b) (simp add: sj_decode_def LoginBackParam_decode_def decode_field_def)

lemma decoded_string_no_nul: "field_of decode_string [] name ms = Some s \<Longrightarrow> CHR 0x00 \<notin> set s"
  by (auto simp: field_of_def split: option.splits elim: decode_string.elims)

end
