(* ===== verification/Backend_Login.thy ===== *)
theory Backend_Login
  imports Backend_Conf Http_Args Ngx_Escape Redis2_Query Slothjson
begin

text \<open>
  The login service of \<open>nginx_http_back_end/src/Login.cpp\<close>: the content handler of
  \<open>/customerManager/login\<close>, the handler that runs when the body has been read, the callbacks of
  the subrequests to WeChat and to Redis, and the handlers of the parent request that run after
  them. A login request is a state machine driven by events of the server; what the pool, the
  subrequest and the output functions answer in one callback comes with the event. The JSON
  codecs are those of \<open>Slothjson\<close>, over rapidjson's reader and writer.
\<close>

section \<open>Data\<close>

text \<open>\<open>ngx_http_login_ctx_t\<close>: a response is \<open>None\<close> until it is set (\<open>ngx_palloc\<close> does not clear it).\<close>

record login_ctx =
  resp_wx :: "bytes option"
  resp_redis :: "bytes option"

text \<open>rapidjson's reader, \<open>None\<close> for a text that is not JSON, and its pretty writer.\<close>

record login_env =
  rj_parse :: "bytes \<Rightarrow> rj_value option"
  rj_write :: "rj_value \<Rightarrow> bytes"

text \<open>\<open>decode<LoginParam>\<close>, \<open>decode<WXSessionInfo>\<close> and \<open>encode<true, LoginBackParam>\<close> as \<open>Login.cpp\<close> calls them.\<close>

definition dec_login :: "login_env \<Rightarrow> bytes \<Rightarrow> bytes option" where
  "dec_login env = sj_decode (rj_parse env) LoginParam_decode"

definition dec_wx :: "login_env \<Rightarrow> bytes \<Rightarrow> wx_session option" where
  "dec_wx env = sj_decode (rj_parse env) WXSessionInfo_decode"

definition enc_back :: "login_env \<Rightarrow> login_back \<Rightarrow> bytes option" where
  "enc_back env = sj_encode (rj_write env) LoginBackParam_encode"

text \<open>The answers one callback gets: allocations, \<open>ngx_http_subrequest\<close>, the header and body output.\<close>

record login_res =
  rs_psr :: bool
  rs_ctx :: bool
  rs_args :: bool
  rs_sub :: ngx_int
  rs_header :: ngx_int
  rs_header_only :: bool
  rs_buf :: bool
  rs_out :: ngx_int

datatype post_handler = Wx_post | Redis_post
datatype write_handler = Empty_handler | Wx_father | Login_done
datatype login_end = Finalized ngx_int | Crashed

record subreq =
  sr_uri :: bytes
  sr_args :: bytes
  sr_post :: post_handler

text \<open>
  The login request: \<open>request_body->bufs\<close> (in memory; a buffer in a file has \<open>pos == last\<close>; the
  empty list is the null pointer, which \<open>ngx_http_read_client_request_body\<close>, not modelled here,
  leaves when the request has no body), the
  fields of \<open>headers_out\<close>, the module context, \<open>write_event_handler\<close>, the running subrequest, the
  subrequests started so far, the body given to the output filter, and how the request ended.
  \<open>lr_reading\<close> is that the body is being read, \<open>lr_posted\<close> that a finished subrequest has woken
  the parent (\<open>ngx_http_post_request\<close>).
\<close>

record login_req =
  lr_bufs :: "bytes list"
  lr_status :: nat
  lr_length :: int
  lr_type :: bytes
  lr_ctx :: "login_ctx option"
  lr_write :: write_handler
  lr_reading :: bool
  lr_posted :: bool
  lr_sub :: "subreq option"
  lr_started :: "(bytes \<times> bytes) list"
  lr_sent :: "bytes option"
  lr_end :: "login_end option"

abbreviation NGX_HTTP_OK :: nat where "NGX_HTTP_OK \<equiv> 200"
abbreviation NGX_HTTP_SPECIAL_RESPONSE :: ngx_int where "NGX_HTTP_SPECIAL_RESPONSE \<equiv> 300"
abbreviation NGX_HTTP_NOT_ALLOWED :: ngx_int where "NGX_HTTP_NOT_ALLOWED \<equiv> 405"
abbreviation NGX_HTTP_INTERNAL_SERVER_ERROR :: "'a::numeral" where "NGX_HTTP_INTERNAL_SERVER_ERROR \<equiv> 500"
abbreviation NGX_HTTP_POST :: nat where "NGX_HTTP_POST \<equiv> 0x0008"

definition login_init :: "bytes list \<Rightarrow> login_req" where
  "login_init bufs =
     \<lparr>lr_bufs = bufs, lr_status = 0, lr_length = - 1, lr_type = [], lr_ctx = None, lr_write = Empty_handler,
      lr_reading = True, lr_posted = False, lr_sub = None, lr_started = [], lr_sent = None, lr_end = None\<rparr>"

section \<open>Formatting\<close>

text \<open>
  \<open>ngx_snprintf(buf, max, "%V%V...", ...)\<close>: each string is cut to the room left, and the format
  loop stops when there is none.
\<close>

fun slprintf_V :: "nat \<Rightarrow> bytes list \<Rightarrow> bytes" where
  "slprintf_V room [] = []"
| "slprintf_V room (v # vs) =
     (if room = 0 then []
      else (let len = min room (length v) in take len v @ slprintf_V (room - len) vs))"

lemma slprintf_V_take: "slprintf_V room vs = take room (concat vs)"
  by (induction vs arbitrary: room) (auto simp: Let_def min_def)

text \<open>A configured string; one never given has \<open>len == 0\<close>.\<close>

definition str_of :: "bytes option \<Rightarrow> bytes" where
  "str_of s = (case s of None \<Rightarrow> [] | Some v \<Rightarrow> v)"

definition wx_location :: bytes where
  "wx_location = ''/wxMiniBuyPhone/login''"

definition redis_location :: bytes where
  "redis_location = ''/redis_set''"

definition wx_sub_args :: "'h customer_conf \<Rightarrow> bytes \<Rightarrow> bytes" where
  "wx_sub_args cf code =
     (let app_id = str_of (wx_app_id (wx_info cf)); secret = str_of (wx_secret (wx_info cf));
          len = length ''appid='' + length ''&secret='' + length ''&js_code=''
                + length ''&grant_type=authorization_code'' + length app_id + length secret + length code in
      slprintf_V len [''appid='', app_id, ''&secret='', secret, ''&js_code='', code,
                      ''&grant_type=authorization_code''])"

definition redis_sub_args :: "'h customer_conf \<Rightarrow> wx_session \<Rightarrow> bytes" where
  "redis_sub_args cf info =
     (let pwd = str_of (rd_pwd (redis_info cf));
          len = length ''key='' + length ''&value='' + length ''&pwd='' + length (si_openid info)
                + length (si_session_key info) + length pwd in
      slprintf_V len [''key='', si_openid info, ''&value='', si_session_key info, ''&pwd='', pwd])"

section \<open>The handlers\<close>

definition finalize :: "ngx_int \<Rightarrow> login_req \<Rightarrow> login_req" where
  "finalize rc r = r\<lparr>lr_end := Some (Finalized rc)\<rparr>"

text \<open>A null pointer is dereferenced, or memory is read that was never written.\<close>

definition crash :: "login_req \<Rightarrow> login_req" where
  "crash r = r\<lparr>lr_end := Some Crashed\<rparr>"

definition start_sub :: "bytes \<Rightarrow> bytes \<Rightarrow> post_handler \<Rightarrow> login_req \<Rightarrow> login_req" where
  "start_sub uri args h r =
     r\<lparr>lr_sub := Some \<lparr>sr_uri = uri, sr_args = args, sr_post = h\<rparr>, lr_started := lr_started r @ [(uri, args)]\<rparr>"

text \<open>The content handler: what it returns to the phase engine, \<open>read_rc\<close> being what
  \<open>ngx_http_read_client_request_body\<close> returned.\<close>

definition ngx_http_customer_manager_login :: "nat \<Rightarrow> ngx_int \<Rightarrow> ngx_int" where
  "ngx_http_customer_manager_login meth read_rc =
     (if meth AND NGX_HTTP_POST = 0 then NGX_HTTP_NOT_ALLOWED
      else if read_rc \<ge> NGX_HTTP_SPECIAL_RESPONSE then read_rc
      else NGX_DONE)"

definition ngx_http_customer_manager_login_handler ::
    "login_env \<Rightarrow> 'h customer_conf \<Rightarrow> login_res \<Rightarrow> login_req \<Rightarrow> login_req" where
  "ngx_http_customer_manager_login_handler env cf res r =
     (case lr_bufs r of
        [] \<Rightarrow> crash r
      | body # _ \<Rightarrow>
          if length body = 0 then finalize NGX_HTTP_INTERNAL_SERVER_ERROR r
          else
            (case dec_login env body of
               None \<Rightarrow> finalize NGX_HTTP_INTERNAL_SERVER_ERROR r
             | Some code \<Rightarrow>
                 if code = [] then finalize NGX_HTTP_INTERNAL_SERVER_ERROR r
                 else if \<not> rs_psr res then finalize NGX_HTTP_INTERNAL_SERVER_ERROR r
                 else if lr_ctx r = None \<and> \<not> rs_ctx res then finalize NGX_HTTP_INTERNAL_SERVER_ERROR r
                 else
                   (let r1 = (if lr_ctx r = None then r\<lparr>lr_ctx := Some \<lparr>resp_wx = None, resp_redis = None\<rparr>\<rparr> else r) in
                    if \<not> rs_args res then crash r1
                    else if rs_sub res \<noteq> NGX_OK then finalize NGX_HTTP_INTERNAL_SERVER_ERROR r1
                    else start_sub wx_location (wx_sub_args cf code) Wx_post r1)))"

text \<open>
  The callbacks of the subrequests. \<open>status\<close> is \<open>headers_out.status\<close> of the subrequest, \<open>buf\<close> the
  bytes of \<open>r->upstream->buffer\<close> (\<open>None\<close> without an upstream), and \<open>data\<close> points to the context
  of the parent. The code the subrequest was finalized with is not looked at.
\<close>

definition wx_login_subrequest_post_handler ::
    "nat \<Rightarrow> ngx_int \<Rightarrow> bytes option \<Rightarrow> login_req \<Rightarrow> login_req" where
  "wx_login_subrequest_post_handler status rc buf pr =
     (let pr1 = pr\<lparr>lr_status := status\<rparr> in
      if status = NGX_HTTP_OK then
        (case (buf, lr_ctx pr1) of
           (Some bak, Some ctx) \<Rightarrow> pr1\<lparr>lr_ctx := Some (ctx\<lparr>resp_wx := Some bak\<rparr>), lr_write := Wx_father\<rparr>
         | _ \<Rightarrow> crash pr1)
      else pr1\<lparr>lr_write := Wx_father\<rparr>)"

definition wx_login_subrequest_post_father_handler ::
    "login_env \<Rightarrow> 'h customer_conf \<Rightarrow> login_res \<Rightarrow> login_req \<Rightarrow> login_req" where
  "wx_login_subrequest_post_father_handler env cf res r =
     (if lr_status r \<noteq> NGX_HTTP_OK then finalize (int (lr_status r)) r
      else if \<not> rs_psr res then finalize NGX_HTTP_INTERNAL_SERVER_ERROR r
      else
        (case Option.bind (lr_ctx r) resp_wx of
           None \<Rightarrow> crash r
         | Some back \<Rightarrow>
             (case dec_wx env back of
                None \<Rightarrow> finalize NGX_HTTP_INTERNAL_SERVER_ERROR r
              | Some info \<Rightarrow>
                  if \<not> rs_args res then crash r
                  else if rs_sub res \<noteq> NGX_OK then finalize NGX_HTTP_INTERNAL_SERVER_ERROR r
                  else start_sub redis_location (redis_sub_args cf info) Redis_post r)))"

definition redis_ok_str :: bytes where
  "redis_ok_str = ''+OK'' @ [LF] @ ''+OK'' @ [LF]"

definition redis_ok_str2 :: bytes where
  "redis_ok_str2 = ''+OK'' @ [CR, LF] @ ''+OK'' @ [CR, LF]"

definition wx_login_set_redis_subrequest_done ::
    "nat \<Rightarrow> ngx_int \<Rightarrow> bytes option \<Rightarrow> login_req \<Rightarrow> login_req" where
  "wx_login_set_redis_subrequest_done status rc buf pr =
     (let pr1 = pr\<lparr>lr_status := status\<rparr> in
      if status = NGX_HTTP_OK then
        (case (buf, lr_ctx pr1) of
           (Some bak, Some ctx) \<Rightarrow>
             (let pr2 = pr1\<lparr>lr_ctx := Some (ctx\<lparr>resp_redis := Some bak\<rparr>)\<rparr>;
                  pr3 = (if bak \<noteq> redis_ok_str \<and> bak \<noteq> redis_ok_str2
                         then pr2\<lparr>lr_status := NGX_HTTP_INTERNAL_SERVER_ERROR\<rparr> else pr2) in
              pr3\<lparr>lr_write := Login_done\<rparr>)
         | _ \<Rightarrow> crash pr1)
      else pr1\<lparr>lr_write := Login_done\<rparr>)"

text \<open>The header and body of the answer: \<open>rc > NGX_OK\<close> or \<open>NGX_ERROR\<close> from the header ends it.\<close>

definition login_done :: "login_env \<Rightarrow> login_res \<Rightarrow> login_req \<Rightarrow> login_req" where
  "login_done env res r =
     (if lr_status r \<noteq> NGX_HTTP_OK then finalize (int (lr_status r)) r
      else
        (case Option.bind (lr_ctx r) resp_wx of
           None \<Rightarrow> crash r
         | Some json \<Rightarrow>
             (case dec_wx env json of
                None \<Rightarrow> finalize NGX_HTTP_INTERNAL_SERVER_ERROR r
              | Some info \<Rightarrow>
                  (case enc_back env \<lparr>lb_expire = 0, lb_session_id = si_openid info, lb_openid = si_openid info\<rparr> of
                     None \<Rightarrow> finalize NGX_HTTP_INTERNAL_SERVER_ERROR r
                   | Some back \<Rightarrow>
                       (let r1 = r\<lparr>lr_status := NGX_HTTP_OK, lr_length := int (length back), lr_type := ''text/json''\<rparr> in
                        if rs_header res = NGX_ERROR \<or> rs_header res > NGX_OK \<or> rs_header_only res
                        then finalize (rs_header res) r1
                        else if \<not> rs_buf res then finalize NGX_HTTP_INTERNAL_SERVER_ERROR r1
                        else finalize (rs_out res) (r1\<lparr>lr_sent := Some back\<rparr>))))))"

section \<open>The machine\<close>

text \<open>The dispatch through the function pointers \<open>post_subrequest->handler\<close> and \<open>write_event_handler\<close>.\<close>

fun run_post :: "post_handler \<Rightarrow> nat \<Rightarrow> ngx_int \<Rightarrow> bytes option \<Rightarrow> login_req \<Rightarrow> login_req" where
  "run_post Wx_post = wx_login_subrequest_post_handler"
| "run_post Redis_post = wx_login_set_redis_subrequest_done"

fun run_write :: "login_env \<Rightarrow> 'h customer_conf \<Rightarrow> login_res \<Rightarrow> write_handler \<Rightarrow> login_req \<Rightarrow> login_req" where
  "run_write env cf res Empty_handler r = r"
| "run_write env cf res Wx_father r = wx_login_subrequest_post_father_handler env cf res r"
| "run_write env cf res Login_done r = login_done env res r"

text \<open>
  The server's events: the body has been read; the running subrequest is finalized, its callback
  runs and the parent is posted; the posted parent's write handler runs.
\<close>

datatype login_event = Body_read login_res | Sub_done nat ngx_int "bytes option" | Woken login_res

inductive login_step :: "login_env \<Rightarrow> 'h customer_conf \<Rightarrow> login_event \<Rightarrow> login_req \<Rightarrow> login_req \<Rightarrow> bool"
  for env :: login_env and cf :: "'h customer_conf" where
  body_read: "lr_end r = None \<Longrightarrow> lr_reading r \<Longrightarrow>
     login_step env cf (Body_read res) r
       (ngx_http_customer_manager_login_handler env cf res (r\<lparr>lr_reading := False\<rparr>))"
| sub_done: "lr_end r = None \<Longrightarrow> lr_sub r = Some s \<Longrightarrow>
     login_step env cf (Sub_done status rc buf) r
       (run_post (sr_post s) status rc buf (r\<lparr>lr_sub := None, lr_posted := True\<rparr>))"
| woken: "lr_end r = None \<Longrightarrow> lr_posted r \<Longrightarrow> lr_sub r = None \<Longrightarrow>
     login_step env cf (Woken res) r (run_write env cf res (lr_write r) (r\<lparr>lr_posted := False\<rparr>))"

abbreviation login_run :: "login_env \<Rightarrow> 'h customer_conf \<Rightarrow> login_event list \<Rightarrow> login_req \<Rightarrow> login_req \<Rightarrow> bool" where
  "login_run env cf \<equiv> step_run (login_step env cf)"

inductive_cases body_readE: "login_step env cf (Body_read res) r r'"
inductive_cases sub_doneE: "login_step env cf (Sub_done status rc buf) r r'"
inductive_cases wokenE: "login_step env cf (Woken res) r r'"
inductive_simps login_step_simps [simp]:
  "login_step env cf (Body_read res) r r'"
  "login_step env cf (Sub_done status rc buf) r r'"
  "login_step env cf (Woken res) r r'"

section \<open>What the login went through\<close>

text \<open>The phases of a login, and what the request holds in each.\<close>

definition code_of :: "login_env \<Rightarrow> login_req \<Rightarrow> bytes option" where
  "code_of env r = (case lr_bufs r of [] \<Rightarrow> None | body # _ \<Rightarrow> if body = [] then None else dec_login env body)"

definition redis_ok :: "bytes \<Rightarrow> bool" where
  "redis_ok reply \<longleftrightarrow> reply = redis_ok_str \<or> reply = redis_ok_str2"

definition wx_asked :: "'h customer_conf \<Rightarrow> bytes \<Rightarrow> bytes \<times> bytes" where
  "wx_asked cf code = (wx_location, wx_sub_args cf code)"

definition redis_asked :: "'h customer_conf \<Rightarrow> wx_session \<Rightarrow> bytes \<times> bytes" where
  "redis_asked cf info = (redis_location, redis_sub_args cf info)"

definition back_of :: "wx_session \<Rightarrow> login_back" where
  "back_of info = \<lparr>lb_expire = 0, lb_session_id = si_openid info, lb_openid = si_openid info\<rparr>"

datatype login_phase = Reading | Asking bytes | Asked bytes | Storing bytes wx_session | Stored bytes wx_session | Over

text \<open>
  What an answer \<open>body\<close> rests on: the subrequests are those for the code of the request's body and for
  \<open>info\<close>, WeChat's location answered 200 with a text that decodes to \<open>info\<close> (a JSON object; a member
  it does not have leaves the field empty, whether or not it is an error object), Redis answered two
  \<open>+OK\<close> lines, and \<open>body\<close> is the encoding of the openid of \<open>info\<close>.
\<close>

definition earned :: "login_env \<Rightarrow> 'h customer_conf \<Rightarrow> login_req \<Rightarrow> bytes \<Rightarrow> bool" where
  "earned env cf r body \<longleftrightarrow>
     (\<exists>code reply info ok. code_of env r = Some code \<and> code \<noteq> [] \<and>
        lr_started r = [wx_asked cf code, redis_asked cf info] \<and>
        lr_ctx r = Some \<lparr>resp_wx = Some reply, resp_redis = Some ok\<rparr> \<and>
        dec_wx env reply = Some info \<and> redis_ok ok \<and> enc_back env (back_of info) = Some body \<and>
        lr_status r = NGX_HTTP_OK \<and> lr_length r = int (length body) \<and> lr_type r = ''text/json'')"

definition in_flight :: "login_env \<Rightarrow> bytes \<Rightarrow> login_req \<Rightarrow> bool" where
  "in_flight env code r \<longleftrightarrow> code_of env r = Some code \<and> code \<noteq> [] \<and> \<not> lr_reading r \<and>
     lr_sent r = None \<and> lr_end r = None"

fun login_at :: "login_env \<Rightarrow> 'h customer_conf \<Rightarrow> login_phase \<Rightarrow> login_req \<Rightarrow> bool" where
  "login_at env cf Reading r \<longleftrightarrow> (\<exists>bufs. r = login_init bufs)"
| "login_at env cf (Asking code) r \<longleftrightarrow> in_flight env code r \<and> \<not> lr_posted r \<and>
     lr_sub r = Some \<lparr>sr_uri = wx_location, sr_args = wx_sub_args cf code, sr_post = Wx_post\<rparr> \<and>
     lr_started r = [wx_asked cf code] \<and> lr_ctx r = Some \<lparr>resp_wx = None, resp_redis = None\<rparr>"
| "login_at env cf (Asked code) r \<longleftrightarrow> in_flight env code r \<and> lr_posted r \<and> lr_sub r = None \<and>
     lr_write r = Wx_father \<and> lr_started r = [wx_asked cf code] \<and>
     (lr_status r = NGX_HTTP_OK \<longrightarrow> (\<exists>reply. lr_ctx r = Some \<lparr>resp_wx = Some reply, resp_redis = None\<rparr>))"
| "login_at env cf (Storing code info) r \<longleftrightarrow> in_flight env code r \<and> \<not> lr_posted r \<and>
     lr_sub r = Some \<lparr>sr_uri = redis_location, sr_args = redis_sub_args cf info, sr_post = Redis_post\<rparr> \<and>
     lr_started r = [wx_asked cf code, redis_asked cf info] \<and>
     (\<exists>reply. lr_ctx r = Some \<lparr>resp_wx = Some reply, resp_redis = None\<rparr> \<and> dec_wx env reply = Some info)"
| "login_at env cf (Stored code info) r \<longleftrightarrow> in_flight env code r \<and> lr_posted r \<and> lr_sub r = None \<and>
     lr_write r = Login_done \<and> lr_started r = [wx_asked cf code, redis_asked cf info] \<and>
     (lr_status r = NGX_HTTP_OK \<longrightarrow>
        (\<exists>reply ok. lr_ctx r = Some \<lparr>resp_wx = Some reply, resp_redis = Some ok\<rparr> \<and>
           dec_wx env reply = Some info \<and> redis_ok ok))"
| "login_at env cf Over r \<longleftrightarrow> lr_end r \<noteq> None \<and> (\<forall>body. lr_sent r = Some body \<longrightarrow> earned env cf r body)"

definition login_inv :: "login_env \<Rightarrow> 'h customer_conf \<Rightarrow> login_req \<Rightarrow> bool" where
  "login_inv env cf r \<longleftrightarrow> (\<exists>ph. login_at env cf ph r)"

fun phase_rank :: "login_phase \<Rightarrow> nat" where
  "phase_rank Reading = 5"
| "phase_rank (Asking _) = 4"
| "phase_rank (Asked _) = 3"
| "phase_rank (Storing _ _) = 2"
| "phase_rank (Stored _ _) = 1"
| "phase_rank Over = 0"

text \<open>The number of events a request may still take.\<close>

definition login_rank :: "login_req \<Rightarrow> nat" where
  "login_rank r =
     (if lr_end r \<noteq> None then 0 else if lr_reading r then 5
      else (case lr_sub r of
              Some s \<Rightarrow> (case sr_post s of Wx_post \<Rightarrow> 4 | Redis_post \<Rightarrow> 2)
            | None \<Rightarrow> (case lr_write r of Wx_father \<Rightarrow> 3 | _ \<Rightarrow> 1)))"

lemma rank_of_phase: "login_at env cf ph r \<Longrightarrow> login_rank r = phase_rank ph"
  by (cases ph) (auto simp: login_rank_def in_flight_def login_init_def)

definition later :: "login_env \<Rightarrow> 'h customer_conf \<Rightarrow> login_phase \<Rightarrow> login_req \<Rightarrow> bool" where
  "later env cf ph r \<longleftrightarrow> (\<exists>ph'. login_at env cf ph' r \<and> phase_rank ph' < phase_rank ph)"

lemma laterI: "login_at env cf ph' r \<Longrightarrow> phase_rank ph' < phase_rank ph \<Longrightarrow> later env cf ph r"
  by (auto simp: later_def)

lemma later_over:
  "lr_sent r = None \<Longrightarrow> ph \<noteq> Over \<Longrightarrow> later env cf ph (finalize rc r)"
  "lr_sent r = None \<Longrightarrow> ph \<noteq> Over \<Longrightarrow> later env cf ph (crash r)"
  by (cases ph; auto intro!: laterI [where ph' = Over] simp: finalize_def crash_def)+

lemmas phase_defs = in_flight_def code_of_def wx_asked_def redis_asked_def start_sub_def

lemma body_read_later:
  "later env cf Reading (ngx_http_customer_manager_login_handler env cf res ((login_init bufs)\<lparr>lr_reading := False\<rparr>))"
proof -
  let ?r = "(login_init bufs)\<lparr>lr_reading := False\<rparr>"
  have over: "later env cf Reading (finalize rc ?r)" "later env cf Reading (crash ?r)"
    "later env cf Reading (finalize rc (?r\<lparr>lr_ctx := c\<rparr>))" "later env cf Reading (crash (?r\<lparr>lr_ctx := c\<rparr>))" for rc c
    by (simp_all add: later_over login_init_def)
  have go: "later env cf Reading (start_sub wx_location (wx_sub_args cf code) Wx_post
      (?r\<lparr>lr_ctx := Some \<lparr>resp_wx = None, resp_redis = None\<rparr>\<rparr>))"
    if "code_of env ?r = Some code" "code \<noteq> []" for code
    using that by (intro laterI [where ph' = "Asking code"]) (simp_all add: phase_defs login_init_def)
  have none: "lr_ctx ?r = None" by (simp add: login_init_def)
  show ?thesis
    unfolding ngx_http_customer_manager_login_handler_def Let_def none
    using over go by (auto simp: code_of_def split: list.splits option.splits)
qed

lemma wx_post_later:
  assumes "login_at env cf (Asking code) r"
  shows "later env cf (Asking code) (wx_login_subrequest_post_handler status rc buf (r\<lparr>lr_sub := None, lr_posted := True\<rparr>))"
    (is "later _ _ _ ?r'")
proof (cases "status = NGX_HTTP_OK \<and> buf = None")
  case True
  then show ?thesis using assms
    by (auto intro!: laterI [where ph' = Over] simp: Let_def wx_login_subrequest_post_handler_def crash_def in_flight_def)
next
  case False
  then have "login_at env cf (Asked code) ?r'" using assms
    by (auto simp: Let_def wx_login_subrequest_post_handler_def phase_defs)
  then show ?thesis by (rule laterI) simp
qed

lemma redis_post_later:
  assumes "login_at env cf (Storing code info) r"
  shows "later env cf (Storing code info)
     (wx_login_set_redis_subrequest_done status rc buf (r\<lparr>lr_sub := None, lr_posted := True\<rparr>))"
    (is "later _ _ _ ?r'")
proof (cases "status = NGX_HTTP_OK \<and> buf = None")
  case True
  then show ?thesis using assms
    by (auto intro!: laterI [where ph' = Over] simp: Let_def wx_login_set_redis_subrequest_done_def crash_def in_flight_def)
next
  case False
  then have "login_at env cf (Stored code info) ?r'" using assms
    by (auto simp: wx_login_set_redis_subrequest_done_def phase_defs redis_ok_def Let_def split: if_splits)
  then show ?thesis by (rule laterI) simp
qed

lemma wx_father_later:
  assumes "login_at env cf (Asked code) r"
  shows "later env cf (Asked code) (wx_login_subrequest_post_father_handler env cf res (r\<lparr>lr_posted := False\<rparr>))"
proof -
  let ?r = "r\<lparr>lr_posted := False\<rparr>"
  have over: "later env cf (Asked code) (finalize rc ?r)" "later env cf (Asked code) (crash ?r)" for rc
    using assms by (simp_all add: later_over in_flight_def)
  have go: "later env cf (Asked code) (start_sub redis_location (redis_sub_args cf info) Redis_post ?r)"
    if "lr_ctx r = Some ctx" "resp_wx ctx = Some json" "dec_wx env json = Some info" "lr_status r = NGX_HTTP_OK"
    for ctx json info
    using that assms by (intro laterI [where ph' = "Storing code info"]) (auto simp: phase_defs)
  show ?thesis
    unfolding wx_login_subrequest_post_father_handler_def
    using over go by (auto split: option.splits simp: bind_eq_Some_conv)
qed

lemma login_done_later:
  assumes "login_at env cf (Stored code info) r"
  shows "later env cf (Stored code info) (login_done env res (r\<lparr>lr_posted := False\<rparr>))" (is "later _ _ _ ?r'")
proof -
  have "login_at env cf Over ?r'" using assms
    by (cases "lr_status r = NGX_HTTP_OK")
      (auto simp: login_done_def finalize_def crash_def phase_defs earned_def back_of_def Let_def split: option.splits)
  then show ?thesis by (rule laterI) simp
qed

lemma login_step_later:
  assumes "login_at env cf ph r" "login_step env cf ev r r'"
  shows "later env cf ph r'"
  using assms(2,1)
proof cases
  case (body_read res)
  with assms(1) obtain bufs where "ph = Reading" "r = login_init bufs"
    by (cases ph) (auto simp: in_flight_def)
  then show ?thesis using body_read body_read_later by metis
next
  case (sub_done s status rc buf)
  then consider code where "ph = Asking code" "sr_post s = Wx_post"
    | code info where "ph = Storing code info" "sr_post s = Redis_post"
    using assms(1) by (cases ph) (auto simp: login_init_def)
  then show ?thesis
  proof cases
    case 1
    with assms(1) sub_done show ?thesis by (simp only: run_post.simps wx_post_later)
  next
    case 2
    with assms(1) sub_done show ?thesis by (simp only: run_post.simps redis_post_later)
  qed
next
  case (woken res)
  then consider code where "ph = Asked code" "lr_write r = Wx_father"
    | code info where "ph = Stored code info" "lr_write r = Login_done"
    using assms(1) by (cases ph) (auto simp: login_init_def)
  then show ?thesis
  proof cases
    case 1
    with assms(1) woken show ?thesis by (simp only: run_write.simps wx_father_later)
  next
    case 2
    with assms(1) woken show ?thesis by (simp only: run_write.simps login_done_later)
  qed
qed

interpretation login: event_machine "login_step env cf" "login_inv env cf" login_rank
  for env :: login_env and cf :: "'h customer_conf"
proof
  fix ev r r'
  assume "login_inv env cf r" "login_step env cf ev r r'"
  then show "login_inv env cf r'" "login_rank r' < login_rank r"
    using login_step_later [of env cf _ r ev r'] unfolding login_inv_def later_def by (metis rank_of_phase)+
qed

lemma login_inv_init: "login_inv env cf (login_init bufs)"
  by (auto simp: login_inv_def intro!: exI [of _ Reading])

lemmas login_handler_defs = ngx_http_customer_manager_login_handler_def wx_login_subrequest_post_handler_def
  wx_login_subrequest_post_father_handler_def wx_login_set_redis_subrequest_done_def login_done_def
  finalize_def crash_def start_sub_def Let_def

lemma run_post_bufs: "lr_bufs (run_post h status rc buf r) = lr_bufs r"
  by (cases h) (auto simp: login_handler_defs split: option.splits)

lemma run_write_bufs: "lr_bufs (run_write env cf res h r) = lr_bufs r"
  by (cases h) (auto simp: login_handler_defs split: option.splits)

lemma login_step_bufs: "login_step env cf ev r r' \<Longrightarrow> lr_bufs r' = lr_bufs r"
  by (induction rule: login_step.induct)
    (auto simp: run_post_bufs run_write_bufs ngx_http_customer_manager_login_handler_def finalize_def crash_def
       start_sub_def Let_def split: list.splits option.splits)

lemma login_run_bufs: "login_run env cf evs r r' \<Longrightarrow> lr_bufs r' = lr_bufs r"
  by (induction rule: step_run.induct) (auto dest: login_step_bufs)

lemma answer_earned_run:
  assumes "login_run env cf evs (login_init bufs) r" "lr_sent r = Some body"
  shows "lr_bufs r = bufs \<and> lr_end r \<noteq> None \<and> earned env cf r body"
proof -
  obtain ph where ph: "login_at env cf ph r"
    using login.run_inv [OF assms(1) login_inv_init] by (auto simp: login_inv_def)
  have "lr_bufs r = bufs" using login_run_bufs [OF assms(1)] by (simp add: login_init_def)
  with ph assms(2) show ?thesis by (cases ph) (auto simp: in_flight_def login_init_def)
qed


lemma login_progress:
  assumes "login_at env cf ph r"
  shows "(\<exists>ev r'. login_step env cf ev r r') \<longleftrightarrow> lr_end r = None"
proof
  assume "lr_end r = None"
  with assms show "\<exists>ev r'. login_step env cf ev r r'"
    by (cases ph) (auto simp: in_flight_def login_init_def
         intro: exI [of _ "Body_read _"] exI [of _ "Sub_done _ _ _"] exI [of _ "Woken _"])
qed (auto elim: login_step.cases)

text \<open>
  C35. A login takes at most five events, is stuck only when it has ended, and can always be run
  to its end, so no callback of the service is ever waited for in vain.
\<close>

theorem login_terminates:
  assumes "login_run env cf evs (login_init bufs) r"
  shows "length evs \<le> 5 \<and> ((\<exists>ev r'. login_step env cf ev r r') \<longleftrightarrow> lr_end r = None) \<and>
     (\<exists>evs' r'. login_run env cf evs' r r' \<and> lr_end r' \<noteq> None)"
proof -
  have inv: "login_inv env cf r" by (rule login.run_inv [OF assms login_inv_init])
  then obtain ph where ph: "login_at env cf ph r" by (auto simp: login_inv_def)
  have "length evs \<le> 5" using login.run_rank [OF assms login_inv_init] by (simp add: login_rank_def login_init_def)
  moreover have "\<exists>evs' r'. login_run env cf evs' r r' \<and> lr_end r' \<noteq> None"
    using login.run_reaches_stop [OF inv] login_progress unfolding login_inv_def by metis
  ultimately show ?thesis using login_progress [OF ph] by blast
qed

text \<open>The events under which nothing is dereferenced that is not there.\<close>

fun event_sound :: "login_event \<Rightarrow> bool" where
  "event_sound (Body_read res) \<longleftrightarrow> rs_args res"
| "event_sound (Sub_done status rc buf) \<longleftrightarrow> (status = NGX_HTTP_OK \<longrightarrow> buf \<noteq> None)"
| "event_sound (Woken res) \<longleftrightarrow> rs_args res"

lemma login_step_no_crash:
  assumes "login_at env cf ph r" "login_step env cf ev r r'" "lr_bufs r \<noteq> []" "event_sound ev"
  shows "lr_end r' \<noteq> Some Crashed"
  using assms(2)
proof cases
  case (body_read res)
  then show ?thesis using assms(3,4)
    by (auto simp: ngx_http_customer_manager_login_handler_def finalize_def start_sub_def Let_def
         split: list.splits option.splits)
next
  case (sub_done s status rc buf)
  then have "lr_ctx r \<noteq> None" using assms(1) by (cases ph) (auto simp: login_init_def)
  with sub_done assms(4) show ?thesis
    by (cases "sr_post s") (auto simp: login_handler_defs split: option.splits)
next
  case (woken res)
  then have "lr_status r = NGX_HTTP_OK \<Longrightarrow> lr_write r \<noteq> Empty_handler \<Longrightarrow> Option.bind (lr_ctx r) resp_wx \<noteq> None"
    using assms(1) by (cases ph) (auto simp: login_init_def)
  with woken assms(4) show ?thesis
    by (cases "lr_write r") (auto simp: login_handler_defs split: option.splits)
qed

lemma login_run_no_crash:
  assumes "login_run env cf evs r0 r" "login_inv env cf r0" "lr_bufs r0 \<noteq> []" "lr_end r0 \<noteq> Some Crashed"
    "list_all event_sound evs"
  shows "lr_end r \<noteq> Some Crashed"
  using assms
proof (induction rule: step_run.induct)
  case (run_snoc evs s s' ev s'')
  obtain ph where "login_at env cf ph s'"
    using login.run_inv [OF run_snoc.hyps(1) run_snoc.prems(1)] by (auto simp: login_inv_def)
  then show ?case
    using run_snoc login_run_bufs [OF run_snoc.hyps(1)] by (intro login_step_no_crash [OF _ run_snoc.hyps(2)]) auto
qed simp

text \<open>
  C36. With a body in the request, the argument buffers allocated and an upstream behind each
  successful subrequest, no login ends in a crash: in particular the context and WeChat's reply
  are only read after they were set.
\<close>

theorem login_never_crashes:
  assumes "login_run env cf evs (login_init bufs) r" "bufs \<noteq> []" "list_all event_sound evs"
  shows "lr_end r \<noteq> Some Crashed"
  using login_run_no_crash [OF assms(1) login_inv_init] assms by (simp add: login_init_def)

text \<open>With no buffer at all the handler dereferences the null pointer \<open>body->bufs\<close>.\<close>

lemma login_without_body: "\<exists>r. login_run env cf [Body_read res] (login_init []) r \<and> lr_end r = Some Crashed"
  by (simp add: ngx_http_customer_manager_login_handler_def login_init_def crash_def)

lemma login_sent_none:
  assumes "login_run env cf evs (login_init bufs) r" "lr_end r = None"
  shows "lr_sent r = None"
proof -
  obtain ph where "login_at env cf ph r"
    using login.run_inv [OF assms(1) login_inv_init] by (auto simp: login_inv_def)
  with assms(2) show ?thesis by (cases ph) (auto simp: in_flight_def login_init_def)
qed

text \<open>
  C39. When a subrequest fails, only the status its response header had is passed on, not the
  code it was finalized with: the login is finalized with that status and nothing is sent. An
  upstream that cannot be reached has no header and status 0, so the login is finalized with
  \<open>NGX_OK\<close> although no answer was produced.
\<close>

theorem login_upstream_failure:
  assumes "login_run env cf (evs @ [Sub_done status rc buf, Woken res]) (login_init bufs) r"
    and "status \<noteq> NGX_HTTP_OK"
  shows "lr_end r = Some (Finalized (int status)) \<and> lr_sent r = None"
proof -
  obtain r1 s where r1: "login_run env cf evs (login_init bufs) r1" "lr_end r1 = None" "lr_sub r1 = Some s"
    and step: "login_step env cf (Woken res) (run_post (sr_post s) status rc buf (r1\<lparr>lr_sub := None, lr_posted := True\<rparr>)) r"
    using assms(1) by (auto simp: step_run_append simp del: login_step_simps(3))
  have "lr_sent r1 = None" using login_sent_none [OF r1(1,2)] .
  with step assms(2) show ?thesis by (cases "sr_post s") (auto simp: login_handler_defs)
qed

definition all_well :: "login_res \<Rightarrow> bool" where
  "all_well res \<longleftrightarrow> rs_psr res \<and> rs_ctx res \<and> rs_args res \<and> rs_sub res = NGX_OK \<and> rs_header res = NGX_OK \<and>
     \<not> rs_header_only res \<and> rs_buf res"

definition well :: login_res where
  "well = \<lparr>rs_psr = True, rs_ctx = True, rs_args = True, rs_sub = NGX_OK, rs_header = NGX_OK,
           rs_header_only = False, rs_buf = True, rs_out = NGX_OK\<rparr>"

lemma login_run_to_redis:
  assumes "all_well res1" "all_well res2" "body \<noteq> []" "dec_login env body = Some code" "code \<noteq> []"
    and "dec_wx env reply = Some info"
  shows "\<exists>r. login_run env cf [Body_read res1, Sub_done NGX_HTTP_OK rc1 (Some reply), Woken res2]
           (login_init (body # bufs)) r \<and> lr_end r = None \<and> lr_ctx r = Some \<lparr>resp_wx = Some reply, resp_redis = None\<rparr> \<and>
           lr_sub r = Some \<lparr>sr_uri = redis_location, sr_args = redis_sub_args cf info, sr_post = Redis_post\<rparr>"
  using assms by (simp add: login_init_def login_handler_defs all_well_def)

lemma login_full_run:
  assumes "all_well res1" "all_well res2" "all_well res3" "body \<noteq> []" "dec_login env body = Some code" "code \<noteq> []"
    and "dec_wx env reply = Some info" "enc_back env (back_of info) = Some answer"
  shows "\<exists>r. login_run env cf [Body_read res1, Sub_done NGX_HTTP_OK rc1 (Some reply), Woken res2,
                Sub_done NGX_HTTP_OK rc2 (Some stored), Woken res3] (login_init (body # bufs)) r \<and>
     (if redis_ok stored then lr_sent r = Some answer \<and> lr_end r = Some (Finalized (rs_out res3))
      else lr_sent r = None \<and> lr_end r = Some (Finalized NGX_HTTP_INTERNAL_SERVER_ERROR))"
proof -
  let ?evs = "[Body_read res1, Sub_done NGX_HTTP_OK rc1 (Some reply), Woken res2]"
  obtain r where r: "login_run env cf ?evs (login_init (body # bufs)) r" "lr_end r = None"
    "lr_ctx r = Some \<lparr>resp_wx = Some reply, resp_redis = None\<rparr>"
    "lr_sub r = Some \<lparr>sr_uri = redis_location, sr_args = redis_sub_args cf info, sr_post = Redis_post\<rparr>"
    using login_run_to_redis [OF assms(1,2,4-7)] by blast
  have sent: "lr_sent r = None" by (rule login_sent_none [OF r(1,2)])
  let ?r' = "wx_login_set_redis_subrequest_done NGX_HTTP_OK rc2 (Some stored) (r\<lparr>lr_sub := None, lr_posted := True\<rparr>)"
  have post: "login_step env cf (Sub_done NGX_HTTP_OK rc2 (Some stored)) r ?r'" using r by simp
  have r': "lr_end ?r' = None" "lr_posted ?r'" "lr_sub ?r' = None" "lr_write ?r' = Login_done"
    using r by (simp_all add: wx_login_set_redis_subrequest_done_def Let_def)
  then have "login_step env cf (Woken res3) ?r' (login_done env res3 (?r'\<lparr>lr_posted := False\<rparr>))" by simp
  with r(1) post have "login_run env cf (?evs @ [Sub_done NGX_HTTP_OK rc2 (Some stored), Woken res3])
      (login_init (body # bufs)) (login_done env res3 (?r'\<lparr>lr_posted := False\<rparr>))"
    unfolding step_run_append step_run_Cons step_run_Nil by blast
  moreover have "if redis_ok stored
      then lr_sent (login_done env res3 (?r'\<lparr>lr_posted := False\<rparr>)) = Some answer \<and>
           lr_end (login_done env res3 (?r'\<lparr>lr_posted := False\<rparr>)) = Some (Finalized (rs_out res3))
      else lr_sent (login_done env res3 (?r'\<lparr>lr_posted := False\<rparr>)) = None \<and>
           lr_end (login_done env res3 (?r'\<lparr>lr_posted := False\<rparr>)) = Some (Finalized NGX_HTTP_INTERNAL_SERVER_ERROR)"
    using r sent assms
    by (auto simp: wx_login_set_redis_subrequest_done_def login_done_def finalize_def Let_def all_well_def redis_ok_def
         back_of_def)
  ultimately show ?thesis by auto
qed

text \<open>
  A concrete service: the texts of one request, of a session and of an error of WeChat, as a reader
  understands them, and the answer as a writer without spaces prints it.
\<close>

definition demo_body :: bytes where
  "demo_body = ''{\"code\":\"c\"}''"

definition demo_reply :: bytes where
  "demo_reply = ''{\"openid\":\"o1\",\"session_key\":\"k1\"}''"

definition demo_refusal :: bytes where
  "demo_refusal = ''{\"errcode\":40029}''"

definition demo_answer :: "bytes \<Rightarrow> bytes" where
  "demo_answer openid = ''{\"expire\":0,\"session_id\":\"'' @ openid @ ''\",\"openid\":\"'' @ openid @ ''\"}''"

definition demo_parse :: "bytes \<Rightarrow> rj_value option" where
  "demo_parse t =
     (if t = demo_body then Some (RJ_Object [(''code'', RJ_String ''c'')])
      else if t = demo_reply then Some (RJ_Object [(''openid'', RJ_String ''o1''), (''session_key'', RJ_String ''k1'')])
      else if t = demo_refusal then Some (RJ_Object [(''errcode'', RJ_Int 40029)])
      else None)"

fun demo_write :: "rj_value \<Rightarrow> bytes" where
  "demo_write (RJ_Object [_, _, (_, RJ_String openid)]) = demo_answer openid"
| "demo_write _ = ''null''"

definition demo_env :: login_env where
  "demo_env = \<lparr>rj_parse = demo_parse, rj_write = demo_write\<rparr>"

lemma demo_codecs:
  "dec_login demo_env demo_body = Some ''c''"
  "dec_wx demo_env demo_reply =
     Some \<lparr>si_session_key = ''k1'', si_openid = ''o1'', si_unionid = [], si_expires_in = 0\<rparr>"
  "enc_back demo_env (back_of \<lparr>si_session_key = key, si_openid = ''o1'', si_unionid = [], si_expires_in = 0\<rparr>) =
     Some (demo_answer ''o1'')"
proof -
  have "demo_reply \<noteq> demo_body" by (simp add: demo_reply_def demo_body_def)
  then have "demo_parse demo_body = Some (RJ_Object [(''code'', RJ_String ''c'')])"
    "demo_parse demo_reply = Some (RJ_Object [(''openid'', RJ_String ''o1''), (''session_key'', RJ_String ''k1'')])"
    by (simp_all add: demo_parse_def)
  moreover have "c_str demo_body = demo_body" "c_str demo_reply = demo_reply" "c_str (demo_answer ''o1'') = demo_answer ''o1''"
    by (simp_all add: demo_body_def demo_reply_def demo_answer_def)
  ultimately show "dec_login demo_env demo_body = Some ''c''"
    "dec_wx demo_env demo_reply =
       Some \<lparr>si_session_key = ''k1'', si_openid = ''o1'', si_unionid = [], si_expires_in = 0\<rparr>"
    "enc_back demo_env (back_of \<lparr>si_session_key = key, si_openid = ''o1'', si_unionid = [], si_expires_in = 0\<rparr>) =
       Some (demo_answer ''o1'')"
    by (simp_all add: dec_login_def decode_login_eq dec_wx_def decode_session_eq members_of_def field_of_def
        enc_back_def encode_back_eq back_of_def demo_env_def)
qed

lemma demo_body_ne: "demo_body \<noteq> []"
  by (simp add: demo_body_def)

definition demo_conf :: "unit customer_conf" where
  "demo_conf = the (http_create_main_conf True)"

definition demo_events :: "login_event list" where
  "demo_events = [Body_read well, Sub_done NGX_HTTP_OK NGX_OK (Some demo_reply), Woken well,
     Sub_done NGX_HTTP_OK NGX_OK (Some redis_ok_str2), Woken well]"

lemma well_ok: "all_well well"
  by (simp add: all_well_def well_def)

lemma demo_run:
  "\<exists>r. login_run demo_env demo_conf demo_events (login_init [demo_body]) r \<and> lr_sent r = Some (demo_answer ''o1'') \<and>
     lr_end r = Some (Finalized NGX_OK)"
  using login_full_run [OF well_ok well_ok well_ok demo_body_ne demo_codecs(1) _ demo_codecs(2,3), of demo_conf
      NGX_OK NGX_OK redis_ok_str2 "[]"]
  by (simp add: demo_events_def redis_ok_def well_def)

lemma run_write_resp_wx: "Option.bind (lr_ctx (run_write env cf res h r)) resp_wx = Option.bind (lr_ctx r) resp_wx"
  by (cases h) (auto simp: login_handler_defs split: option.splits)

lemma redis_post_resp_wx:
  "Option.bind (lr_ctx (run_post Redis_post status rc buf r)) resp_wx = Option.bind (lr_ctx r) resp_wx"
  by (auto simp: login_handler_defs split: option.splits)

text \<open>The reply a login keeps is the one its first subrequest ended with.\<close>

lemma demo_run_reply:
  assumes "login_run demo_env demo_conf demo_events (login_init [demo_body]) r"
  shows "Option.bind (lr_ctx r) resp_wx = Some demo_reply"
proof -
  let ?evs = "[Body_read well, Sub_done NGX_HTTP_OK NGX_OK (Some demo_reply), Woken well]"
  obtain r1 where "login_run demo_env demo_conf ?evs (login_init [demo_body]) r1"
    and rest: "login_run demo_env demo_conf [Sub_done NGX_HTTP_OK NGX_OK (Some redis_ok_str2), Woken well] r1 r"
    using assms step_run_append [of "login_step demo_env demo_conf" ?evs] unfolding demo_events_def by auto
  then have r1: "Option.bind (lr_ctx r1) resp_wx = Some demo_reply"
    "lr_sub r1 = Some \<lparr>sr_uri = redis_location, sr_args = redis_sub_args demo_conf
       \<lparr>si_session_key = ''k1'', si_openid = ''o1'', si_unionid = [], si_expires_in = 0\<rparr>, sr_post = Redis_post\<rparr>"
    by (simp_all add: login_init_def login_handler_defs demo_codecs demo_body_ne well_def)
  from rest show ?thesis using r1
    by (auto simp: run_write_resp_wx redis_post_resp_wx simp del: run_post.simps)
qed

lemma demo_failed_run:
  "\<exists>r. login_run demo_env demo_conf ([Body_read well] @ [Sub_done 0 502 None, Woken well]) (login_init [demo_body]) r"
  by (simp add: login_init_def login_handler_defs demo_codecs demo_body_ne well_def)

text \<open>
  C2. When everything goes well (the body decodes to a code, WeChat and Redis answer 200, their
  replies are a session and two \<open>+OK\<close> lines), the login is answered with the encoding of the
  session's openid. Any other reply of Redis, an error or a shortened or extended one, ends the
  login with 500 and nothing sent.
\<close>

theorem login_outcome:
  assumes "all_well res1" "all_well res2" "all_well res3" "body \<noteq> []" "dec_login env body = Some code" "code \<noteq> []"
    and "dec_wx env reply = Some info" "enc_back env (back_of info) = Some answer"
  shows "\<exists>r. login_run env cf [Body_read res1, Sub_done NGX_HTTP_OK rc1 (Some reply), Woken res2,
                Sub_done NGX_HTTP_OK rc2 (Some stored), Woken res3] (login_init (body # bufs)) r \<and>
     (if redis_ok stored then lr_sent r = Some answer \<and> lr_end r = Some (Finalized (rs_out res3))
      else lr_sent r = None \<and> lr_end r = Some (Finalized NGX_HTTP_INTERNAL_SERVER_ERROR))"
  using assms by (rule login_full_run)

theorem login_outcome_witness:
  "\<exists>r. login_run demo_env demo_conf [Body_read well, Sub_done NGX_HTTP_OK NGX_OK (Some demo_reply), Woken well,
       Sub_done NGX_HTTP_OK NGX_OK (Some ''-ERR''), Woken well] (login_init [demo_body]) r \<and>
     lr_sent r = None \<and> lr_end r = Some (Finalized 500)"
  using login_outcome [OF well_ok well_ok well_ok demo_body_ne demo_codecs(1) _ demo_codecs(2,3), of demo_conf
      NGX_OK NGX_OK "''-ERR''" "[]"]
  by (simp add: redis_ok_def redis_ok_str_def redis_ok_str2_def)


theorem login_terminates_witness:
  "length demo_events \<le> 5 \<and>
     (\<exists>r. login_run demo_env demo_conf demo_events (login_init [demo_body]) r \<and>
        (\<nexists>ev r'. login_step demo_env demo_conf ev r r'))"
proof -
  obtain r where r: "login_run demo_env demo_conf demo_events (login_init [demo_body]) r"
    "lr_end r = Some (Finalized NGX_OK)" using demo_run by blast
  from login_terminates [OF r(1)] r show ?thesis by auto
qed

theorem login_never_crashes_witness:
  "\<exists>r. login_run demo_env demo_conf demo_events (login_init [demo_body]) r \<and> lr_end r \<noteq> Some Crashed"
proof -
  obtain r where r: "login_run demo_env demo_conf demo_events (login_init [demo_body]) r" using demo_run by blast
  from login_never_crashes [OF this] show ?thesis using r
    by (auto simp: demo_events_def well_def)
qed

theorem login_upstream_failure_witness:
  "\<exists>r. login_run demo_env demo_conf ([Body_read well] @ [Sub_done 0 502 None, Woken well]) (login_init [demo_body]) r \<and>
     lr_end r = Some (Finalized NGX_OK) \<and> lr_sent r = None"
proof -
  obtain r where r: "login_run demo_env demo_conf ([Body_read well] @ [Sub_done 0 502 None, Woken well]) (login_init [demo_body]) r"
    using demo_failed_run by blast
  from login_upstream_failure [OF this] r show ?thesis by auto
qed

text \<open>
  An object of WeChat that has none of the members of a session, such as
  \<open>{"errcode":40029,"errmsg":"invalid code"}\<close>, sent with status 200 as WeChat does, counts as a
  session with an empty openid: the login is answered, and Redis is told to store an empty key.
\<close>

theorem login_refusal_answered:
  assumes "all_well res1" "all_well res2" "all_well res3" "body \<noteq> []" "dec_login env body = Some code" "code \<noteq> []"
    and "rj_parse env (c_str reply) = Some (RJ_Object ms)"
    and "c_str ` fst ` set ms \<inter> {''session_key'', ''openid'', ''unionid'', ''expires_in''} = {}"
    and "redis_ok stored"
  shows "\<exists>r. login_run env cf [Body_read res1, Sub_done NGX_HTTP_OK rc1 (Some reply), Woken res2,
                Sub_done NGX_HTTP_OK rc2 (Some stored), Woken res3] (login_init (body # bufs)) r \<and>
     lr_end r = Some (Finalized (rs_out res3)) \<and>
     lr_sent r = Some (c_str (rj_write env (RJ_Object [(''expire'', RJ_Int 0), (''session_id'', RJ_String []),
        (''openid'', RJ_String [])])))"
proof -
  have info: "dec_wx env reply = Some \<lparr>si_session_key = [], si_openid = [], si_unionid = [], si_expires_in = 0\<rparr>"
    unfolding dec_wx_def using assms(7,8) by (rule decode_session_missing)
  have "enc_back env (back_of \<lparr>si_session_key = [], si_openid = [], si_unionid = [], si_expires_in = 0\<rparr>) =
      Some (c_str (rj_write env (RJ_Object [(''expire'', RJ_Int 0), (''session_id'', RJ_String []),
        (''openid'', RJ_String [])])))"
    by (simp add: enc_back_def encode_back_eq back_of_def)
  from login_full_run [OF assms(1-6) info this, of cf rc1 rc2 stored bufs] assms(9) show ?thesis by auto
qed

end
