(* ===== verification/Redis_Set_Location.thy ===== *)
theory Redis_Set_Location
  imports Backend_Login
begin

text \<open>
  The location \<open>/redis_set\<close> of \<open>nginx_http_back_end/conf/nginx.conf\<close>, where the login's second
  subrequest goes: three \<open>set_unescape_uri\<close> directives over the variables \<open>$arg_key\<close>,
  \<open>$arg_value\<close>, \<open>$arg_pwd\<close> and two \<open>redis2_query\<close> directives, composed from the models of
  \<open>ngx_http_arg\<close>, \<open>set_unescape_uri\<close> and the Redis query builder.
\<close>

section \<open>The location\<close>

text \<open>\<open>ngx_http_variable_argument\<close>: the value of \<open>$arg_name\<close>, empty when there is no such argument.\<close>

definition ngx_http_variable_argument :: "bytes \<Rightarrow> bytes \<Rightarrow> bytes" where
  "ngx_http_variable_argument args name =
     (case ngx_http_arg args name of None \<Rightarrow> [] | Some (v, e) \<Rightarrow> slice args v e)"

text \<open>A part of a \<open>redis2_query\<close>: a word, or a variable set from the argument of that name.\<close>

datatype query_part = Word_part bytes | Unescaped_arg bytes

fun query_value :: "bytes \<Rightarrow> query_part \<Rightarrow> bytes option" where
  "query_value args (Word_part w) = Some w"
| "query_value args (Unescaped_arg name) =
     ngx_http_set_misc_unescape_uri True (ngx_http_variable_argument args name)"

definition redis_set_queries :: "query_part list list" where
  "redis_set_queries =
     [[Word_part ''auth'', Unescaped_arg ''pwd''],
      [Word_part ''set'', Unescaped_arg ''key'', Unescaped_arg ''value'']]"

definition redis_set_request :: "bytes \<Rightarrow> bytes option" where
  "redis_set_request args = ngx_http_redis2_build_query (query_value args) True redis_set_queries"

section \<open>What Redis is told\<close>

definition plus_to_space :: "bytes \<Rightarrow> bytes" where
  "plus_to_space v = map (\<lambda>c. if c = CHR ''+'' then SP else c) v"

lemma unescape_plain:
  assumes "CHR ''%'' \<notin> set v"
  shows "ngx_http_set_misc_unescape_uri True v = Some (plus_to_space v)"
proof -
  have "unescape_loop True 0 un_usual v = (plus_to_space v, [])" using assms
    by (induction v) (auto simp: un_sw_usual_def plus_to_space_def)
  then show ?thesis by (simp add: ngx_http_set_misc_unescape_uri_def ngx_unescape_uri_patched_def)
qed

lemma plus_to_space_same: "plus_to_space v = v \<longleftrightarrow> CHR ''+'' \<notin> set v"
  by (induction v) (auto simp: plus_to_space_def)

lemma variable_argument_string:
  assumes "arg_name name" "\<forall>kv\<in>set kvs. arg_pair kv"
  shows "ngx_http_variable_argument (arg_string kvs) name = str_of (arg_lookup kvs name)"
  using arg_string_lookup [OF assms, symmetric]
  by (auto simp: ngx_http_variable_argument_def str_of_def split: option.splits)

lemma redis_sub_args_string:
  "redis_sub_args cf info = arg_string [(''key'', si_openid info), (''value'', si_session_key info),
     (''pwd'', str_of (rd_pwd (redis_info cf)))]"
  by (simp add: redis_sub_args_def slprintf_V_take Let_def)

lemma wx_sub_args_string:
  "wx_sub_args cf code = arg_string [(''appid'', str_of (wx_app_id (wx_info cf))),
     (''secret'', str_of (wx_secret (wx_info cf))), (''js_code'', code), (''grant_type'', ''authorization_code'')]"
  by (simp add: wx_sub_args_def slprintf_V_take Let_def)

text \<open>Text that passes through a query argument as it is, but for plus signs.\<close>

definition plain_arg :: "bytes \<Rightarrow> bool" where
  "plain_arg v \<longleftrightarrow> CHR ''&'' \<notin> set v \<and> CHR ''%'' \<notin> set v"

lemma redis_set_request_of:
  assumes "plain_arg (si_openid info)" "plain_arg (si_session_key info)" "plain_arg (str_of (rd_pwd (redis_info cf)))"
  shows "\<exists>b. redis_set_request (redis_sub_args cf info) = Some b \<and>
     resp_commands 2 b =
       Some ([[''auth'', plus_to_space (str_of (rd_pwd (redis_info cf)))],
              [''set'', plus_to_space (si_openid info), plus_to_space (si_session_key info)]], [])"
proof -
  let ?pwd = "str_of (rd_pwd (redis_info cf))"
  let ?kvs = "[(''key'', si_openid info), (''value'', si_session_key info), (''pwd'', ?pwd)]"
  have pairs: "\<forall>kv\<in>set ?kvs. arg_pair kv" using assms by (auto simp: arg_pair_def plain_arg_def)
  have low: "ngx_strlow ''key'' = ''key''" "ngx_strlow ''value'' = ''value''" "ngx_strlow ''pwd'' = ''pwd''"
    by (simp_all add: ngx_strlow_def ngx_tolower_def less_eq_char_def)
  have names: "arg_name ''key''" "arg_name ''value''" "arg_name ''pwd''" by (simp_all add: arg_name_def)
  have var: "ngx_http_variable_argument (redis_sub_args cf info) ''key'' = si_openid info"
    "ngx_http_variable_argument (redis_sub_args cf info) ''value'' = si_session_key info"
    "ngx_http_variable_argument (redis_sub_args cf info) ''pwd'' = ?pwd"
    unfolding redis_sub_args_string names [THEN variable_argument_string, OF pairs]
    by (simp_all add: low str_of_def)
  let ?cmds = "[[''auth'', plus_to_space ?pwd], [''set'', plus_to_space (si_openid info), plus_to_space (si_session_key info)]]"
  have ev: "rq_eval (query_value (redis_sub_args cf info)) redis_set_queries = ?cmds"
    and ok: "\<forall>q\<in>set redis_set_queries. \<forall>v\<in>set q. query_value (redis_sub_args cf info) v \<noteq> None"
    using assms by (simp_all add: rq_eval_def redis_set_queries_def var unescape_plain plain_arg_def)
  show ?thesis
    using build_query_eq [OF ok] resp_commands_of [of ?cmds "[]"]
    by (simp add: redis_set_request_def ev numeral_2_eq_2)
qed

text \<open>
  C3. For values without ampersand and percent sign, the login's arguments make the location send
  Redis exactly two commands, \<open>auth\<close> with the configured password and \<open>set\<close> with the openid and
  the session key, except that every plus sign has become a space: a session key, which WeChat
  encodes in base64, is stored as it is only when it has no plus sign.
\<close>

theorem redis_stores_session:
  assumes "plain_arg (si_openid info)" "plain_arg (si_session_key info)" "plain_arg (str_of (rd_pwd (redis_info cf)))"
  shows "\<exists>b pwd key val. redis_set_request (redis_sub_args cf info) = Some b \<and>
     resp_commands 2 b = Some ([[''auth'', pwd], [''set'', key, val]], []) \<and>
     pwd = plus_to_space (str_of (rd_pwd (redis_info cf))) \<and> key = plus_to_space (si_openid info) \<and>
     val = plus_to_space (si_session_key info) \<and> (val = si_session_key info \<longleftrightarrow> CHR ''+'' \<notin> set (si_session_key info))"
  using redis_set_request_of [OF assms] by (auto simp: plus_to_space_same)

definition demo_session :: wx_session where
  "demo_session = \<lparr>si_session_key = ''a+b='', si_openid = ''o1'', si_unionid = [], si_expires_in = 0\<rparr>"

theorem redis_stores_session_witness:
  "\<exists>b. redis_set_request (redis_sub_args demo_conf demo_session) = Some b \<and>
     resp_commands 2 b = Some ([[''auth'', []], [''set'', ''o1'', ''a b='']], [])"
  using redis_stores_session [of demo_session demo_conf]
  by (simp add: demo_session_def demo_conf_def http_create_main_conf_def plain_arg_def str_of_def plus_to_space_def)

text \<open>
  An ampersand in a code is not escaped on its way into the arguments of the WeChat request:
  a code \<open>c&secret=x\<close> adds arguments of its own after the configured ones.
\<close>

theorem wx_code_unescaped:
  assumes "arg_pair (''js_code'', c)" "arg_pair (k, v)"
    and "plain_arg (str_of (wx_app_id (wx_info cf)))" "plain_arg (str_of (wx_secret (wx_info cf)))"
    and "ngx_strlow k \<notin> {''appid'', ''secret'', ''js_code''}" "arg_name k"
  shows "ngx_http_variable_argument (wx_sub_args cf (c @ CHR ''&'' # k @ CHR ''='' # v)) k = v"
proof -
  let ?kvs = "[(''appid'', str_of (wx_app_id (wx_info cf))), (''secret'', str_of (wx_secret (wx_info cf))),
     (''js_code'', c), (k, v), (''grant_type'', ''authorization_code'')]"
  have args: "wx_sub_args cf (c @ CHR ''&'' # k @ CHR ''='' # v) = arg_string ?kvs"
    by (simp add: wx_sub_args_string)
  have pairs: "\<forall>kv\<in>set ?kvs. arg_pair kv" using assms by (auto simp: arg_pair_def plain_arg_def)
  have low: "ngx_strlow ''appid'' = ''appid''" "ngx_strlow ''secret'' = ''secret''" "ngx_strlow ''js_code'' = ''js_code''"
    by (simp_all add: ngx_strlow_def ngx_tolower_def less_eq_char_def)
  have "arg_lookup ?kvs k = Some v" using assms(5) by (auto simp: low)
  then show ?thesis
    unfolding args variable_argument_string [OF assms(6) pairs] by (simp add: str_of_def)
qed

theorem wx_code_unescaped_witness:
  "ngx_http_variable_argument (wx_sub_args demo_conf ''c&grant_type=none'') ''grant_type'' = ''none''"
  using wx_code_unescaped [of "''c''" "''grant_type''" "''none''" demo_conf]
  by (simp add: arg_pair_def arg_name_def plain_arg_def str_of_def demo_conf_def http_create_main_conf_def
      ngx_strlow_def ngx_tolower_def less_eq_char_def)

end
