(* ===== verification/Upstream_Round_Robin.thy ===== *)
theory Upstream_Round_Robin
  imports Prelude "HOL-Library.Multiset"
begin

text \<open>
  The load balancer the upstream blocks use by default,
  \<open>nginx-master/src/http/ngx_http_upstream_round_robin.c\<close>: building the peers of an upstream from
  its servers, the per-request data, choosing a peer with smooth weighted round robin, falling
  back to the backup peers, and freeing a peer after success or failure. The linked list of peers
  is a list; the peers of an upstream and its backup peers are a list of groups. The wall clock is
  the parameter \<open>now\<close>. Locks of the shared zone are not modelled: one worker's view.
\<close>

section \<open>Data\<close>

record upstream_server =
  us_naddrs :: nat
  us_weight :: nat
  us_max_conns :: nat
  us_max_fails :: nat
  us_fail_timeout :: int
  us_down :: bool
  us_backup :: bool

text \<open>
  Weights and their sums are \<open>ngx_int_t\<close> in the code and unbounded here: the model is the code as long
  as the weights of a group sum up to less than \<open>2 ^ 62\<close>, which the configuration does not check.
\<close>

record rr_peer =
  rp_current_weight :: int
  rp_effective_weight :: int
  rp_weight :: int
  rp_conns :: nat
  rp_max_conns :: nat
  rp_fails :: nat
  rp_accessed :: int
  rp_checked :: int
  rp_max_fails :: nat
  rp_fail_timeout :: int
  rp_down :: bool

record rr_peers =
  rs_number :: nat
  rs_total_weight :: nat
  rs_single :: bool
  rs_weighted :: bool
  rs_peer :: "rr_peer list"

text \<open>\<open>ngx_http_upstream_rr_peer_data_t\<close>: \<open>peers\<close> as the number of the group, \<open>current\<close> as group and
  peer, \<open>tried\<close> as the words of the bit map.\<close>

record rr_data =
  rd_peers :: nat
  rd_current :: "(nat \<times> nat) option"
  rd_tried :: "64 word list"

section \<open>Building the peers\<close>

definition rr_new_peer :: "upstream_server \<Rightarrow> rr_peer" where
  "rr_new_peer s =
     \<lparr>rp_current_weight = 0, rp_effective_weight = int (us_weight s), rp_weight = int (us_weight s), rp_conns = 0,
      rp_max_conns = us_max_conns s, rp_fails = 0, rp_accessed = 0, rp_checked = 0, rp_max_fails = us_max_fails s,
      rp_fail_timeout = us_fail_timeout s, rp_down = us_down s\<rparr>"

definition rr_group :: "upstream_server list \<Rightarrow> rr_peers" where
  "rr_group servers =
     (let n = (\<Sum>s\<leftarrow>servers. us_naddrs s); w = (\<Sum>s\<leftarrow>servers. us_naddrs s * us_weight s) in
      \<lparr>rs_number = n, rs_total_weight = w, rs_single = (n = 1), rs_weighted = (w \<noteq> n),
       rs_peer = concat (map (\<lambda>s. replicate (us_naddrs s) (rr_new_peer s)) servers)\<rparr>)"

text \<open>\<open>None\<close> is \<open>NGX_ERROR\<close>; \<open>pool\<close> is whether the allocations succeed.\<close>

definition ngx_http_upstream_init_round_robin :: "bool \<Rightarrow> upstream_server list \<Rightarrow> rr_peers list option" where
  "ngx_http_upstream_init_round_robin pool servers =
     (let peers = rr_group (filter (\<lambda>s. \<not> us_backup s) servers); backup = rr_group (filter us_backup servers) in
      if rs_number peers = 0 then None
      else if \<not> pool then None
      else if rs_number backup = 0 then Some [peers]
      else Some [peers\<lparr>rs_single := False\<rparr>, backup\<lparr>rs_single := False\<rparr>])"

text \<open>An upstream defined implicitly by \<open>proxy_pass\<close>: \<open>naddrs\<close> is the result of resolving its host.\<close>

definition rr_implicit_server :: "nat \<Rightarrow> upstream_server" where
  "rr_implicit_server n = \<lparr>us_naddrs = n, us_weight = 1, us_max_conns = 0, us_max_fails = 1, us_fail_timeout = 10,
     us_down = False, us_backup = False\<rparr>"

definition rr_init_implicit :: "bool \<Rightarrow> nat \<Rightarrow> nat option \<Rightarrow> rr_peers list option" where
  "rr_init_implicit pool port naddrs =
     (if port = 0 then None
      else (case naddrs of
              None \<Rightarrow> None
            | Some n \<Rightarrow>
                if \<not> pool then None
                else Some [\<lparr>rs_number = n, rs_total_weight = n, rs_single = (n = 1), rs_weighted = False,
                            rs_peer = replicate n (rr_new_peer (rr_implicit_server n))\<rparr>]))"

abbreviation rr_word_bits :: nat where "rr_word_bits \<equiv> 64"

definition rr_words :: "nat \<Rightarrow> nat" where
  "rr_words n = (n + (rr_word_bits - 1)) div rr_word_bits"

text \<open>The data of one request, and \<open>peer.tries\<close>.\<close>

definition ngx_http_upstream_tries :: "rr_peers list \<Rightarrow> nat" where
  "ngx_http_upstream_tries groups =
     rs_number (groups ! 0) + (if 1 < length groups then rs_number (groups ! 1) else 0)"

definition ngx_http_upstream_init_round_robin_peer :: "bool \<Rightarrow> rr_peers list \<Rightarrow> (rr_data \<times> nat) option" where
  "ngx_http_upstream_init_round_robin_peer pool groups =
     (let n0 = rs_number (groups ! 0);
          n = (if 1 < length groups \<and> rs_number (groups ! 1) > n0 then rs_number (groups ! 1) else n0);
          tried = (if n \<le> rr_word_bits then [0] else replicate (rr_words n) 0) in
      if \<not> pool then None
      else Some (\<lparr>rd_peers = 0, rd_current = None, rd_tried = tried\<rparr>, ngx_http_upstream_tries groups))"

section \<open>Choosing a peer\<close>

definition tried_bit :: "64 word list \<Rightarrow> nat \<Rightarrow> bool" where
  "tried_bit tried i \<longleftrightarrow> tried ! (i div rr_word_bits) AND push_bit (i mod rr_word_bits) 1 \<noteq> 0"

definition set_tried :: "64 word list \<Rightarrow> nat \<Rightarrow> 64 word list" where
  "set_tried tried p =
     tried[p div rr_word_bits := tried ! (p div rr_word_bits) OR push_bit (p mod rr_word_bits) 1]"

definition rr_full :: "rr_peer \<Rightarrow> bool" where
  "rr_full p \<longleftrightarrow> rp_max_conns p \<noteq> 0 \<and> rp_conns p \<ge> rp_max_conns p"

definition rr_skip :: "int \<Rightarrow> 64 word list \<Rightarrow> nat \<Rightarrow> rr_peer \<Rightarrow> bool" where
  "rr_skip now tried i p \<longleftrightarrow> tried_bit tried i \<or> rp_down p \<or>
     (rp_max_fails p \<noteq> 0 \<and> rp_fails p \<ge> rp_max_fails p \<and> now - rp_checked p \<le> rp_fail_timeout p) \<or> rr_full p"

definition rr_bump :: "rr_peer \<Rightarrow> rr_peer" where
  "rr_bump p =
     (let p1 = p\<lparr>rp_current_weight := rp_current_weight p + rp_effective_weight p\<rparr> in
      if rp_effective_weight p1 < rp_weight p1
      then p1\<lparr>rp_effective_weight := rp_effective_weight p1 + 1\<rparr> else p1)"

text \<open>The loop: the peers as it leaves them, \<open>best\<close> with its current weight, and \<open>total\<close>.\<close>

fun rr_scan :: "int \<Rightarrow> 64 word list \<Rightarrow> nat \<Rightarrow> rr_peer list \<Rightarrow> (nat \<times> int) option \<Rightarrow> int
    \<Rightarrow> rr_peer list \<times> (nat \<times> int) option \<times> int" where
  "rr_scan now tried i [] best tot = ([], best, tot)"
| "rr_scan now tried i (p # ps) best tot =
     (if rr_skip now tried i p
      then (case rr_scan now tried (Suc i) ps best tot of (ps', b, t) \<Rightarrow> (p # ps', b, t))
      else
        (let p' = rr_bump p;
             best' = (if best = None \<or> rp_current_weight p' > snd (the best)
                      then Some (i, rp_current_weight p') else best) in
         (case rr_scan now tried (Suc i) ps best' (tot + rp_effective_weight p) of (ps', b, t) \<Rightarrow> (p' # ps', b, t))))"

definition rr_take :: "int \<Rightarrow> int \<Rightarrow> rr_peer \<Rightarrow> rr_peer" where
  "rr_take now tot p =
     (let p1 = p\<lparr>rp_current_weight := rp_current_weight p - tot\<rparr> in
      if now - rp_checked p1 > rp_fail_timeout p1 then p1\<lparr>rp_checked := now\<rparr> else p1)"

definition ngx_http_upstream_get_peer ::
    "int \<Rightarrow> 64 word list \<Rightarrow> rr_peer list \<Rightarrow> rr_peer list \<times> nat option \<times> 64 word list" where
  "ngx_http_upstream_get_peer now tried peers =
     (case rr_scan now tried 0 peers None 0 of
        (ps, None, tot) \<Rightarrow> (ps, None, tried)
      | (ps, Some (p, _), tot) \<Rightarrow> (ps[p := rr_take now tot (ps ! p)], Some p, set_tried tried p))"

definition rr_clear :: "nat \<Rightarrow> 64 word list \<Rightarrow> 64 word list" where
  "rr_clear n tried = replicate n 0 @ drop n tried"

text \<open>One attempt in the current group: the group, the peer chosen, the bit map.\<close>

definition rr_try_group :: "int \<Rightarrow> 64 word list \<Rightarrow> rr_peers \<Rightarrow> rr_peers \<times> nat option \<times> 64 word list" where
  "rr_try_group now tried g =
     (if rs_single g then
        (let p = rs_peer g ! 0 in
         if rp_down p then (g, None, tried)
         else if rr_full p then (g, None, tried)
         else (g, Some 0, tried))
      else
        (case ngx_http_upstream_get_peer now tried (rs_peer g) of
           (ps, sel, tried') \<Rightarrow> (g\<lparr>rs_peer := ps\<rparr>, sel, tried')))"

definition rr_inc_conns :: "nat \<Rightarrow> rr_peers \<Rightarrow> rr_peers" where
  "rr_inc_conns i g =
     g\<lparr>rs_peer := (rs_peer g)[i := (rs_peer g ! i)\<lparr>rp_conns := rp_conns (rs_peer g ! i) + 1\<rparr>]\<rparr>"

function ngx_http_upstream_get_round_robin_peer ::
    "int \<Rightarrow> rr_peers list \<Rightarrow> rr_data \<Rightarrow> ngx_int \<times> rr_peers list \<times> rr_data" where
  "ngx_http_upstream_get_round_robin_peer now groups d =
     (let k = rd_peers d in
      case rr_try_group now (rd_tried d) (groups ! k) of
        (g, Some i, tried) \<Rightarrow>
          (NGX_OK, groups[k := rr_inc_conns i g], d\<lparr>rd_current := Some (k, i), rd_tried := tried\<rparr>)
      | (g, None, tried) \<Rightarrow>
          if Suc k < length groups
          then ngx_http_upstream_get_round_robin_peer now (groups[k := g])
                 (d\<lparr>rd_peers := Suc k, rd_tried := rr_clear (rr_words (rs_number (groups ! Suc k))) tried\<rparr>)
          else (NGX_BUSY, groups[k := g], d\<lparr>rd_tried := tried\<rparr>))"
  by pat_completeness auto
termination
  by (relation "measure (\<lambda>(now, groups, d). length groups - rd_peers d)") auto

declare ngx_http_upstream_get_round_robin_peer.simps [simp del]

section \<open>Freeing a peer\<close>

text \<open>What a failed or a successful connection leaves of the peer.\<close>

definition rr_failed :: "int \<Rightarrow> rr_peer \<Rightarrow> rr_peer" where
  "rr_failed now p =
     (let p1 = p\<lparr>rp_fails := rp_fails p + 1, rp_accessed := now, rp_checked := now\<rparr>;
          p2 = (if rp_max_fails p1 \<noteq> 0
                then p1\<lparr>rp_effective_weight := rp_effective_weight p1 - rp_weight p1 div int (rp_max_fails p1)\<rparr>
                else p1) in
      if rp_effective_weight p2 < 0 then p2\<lparr>rp_effective_weight := 0\<rparr> else p2)"

definition rr_succeeded :: "rr_peer \<Rightarrow> rr_peer" where
  "rr_succeeded p = (if rp_accessed p < rp_checked p then p\<lparr>rp_fails := 0\<rparr> else p)"

definition rr_update :: "nat \<times> nat \<Rightarrow> (rr_peer \<Rightarrow> rr_peer) \<Rightarrow> rr_peers list \<Rightarrow> rr_peers list" where
  "rr_update ki f groups =
     (case ki of (k, i) \<Rightarrow>
        groups[k := (groups ! k)\<lparr>rs_peer := (rs_peer (groups ! k))[i := f (rs_peer (groups ! k) ! i)]\<rparr>])"

text \<open>\<open>failed\<close> is \<open>state & NGX_PEER_FAILED\<close>; \<open>tries\<close> is \<open>pc->tries\<close>.\<close>

definition ngx_http_upstream_free_round_robin_peer ::
    "int \<Rightarrow> bool \<Rightarrow> rr_peers list \<Rightarrow> rr_data \<Rightarrow> nat \<Rightarrow> rr_peers list \<times> nat" where
  "ngx_http_upstream_free_round_robin_peer now failed groups d tries =
     (let cur = the (rd_current d); dec = (\<lambda>p. p\<lparr>rp_conns := rp_conns p - 1\<rparr>) in
      if rs_single (groups ! rd_peers d) then (rr_update cur dec groups, 0)
      else (rr_update cur (\<lambda>p. dec (if failed then rr_failed now p else rr_succeeded p)) groups, tries - 1))"

section \<open>What one choice does\<close>

lemma tried_bit_iff: "tried_bit tried i \<longleftrightarrow> bit (tried ! (i div rr_word_bits)) (i mod rr_word_bits)"
  by (simp add: tried_bit_def bit_iff_and_push_bit_not_eq_0)

lemma tried_set:
  assumes "p div rr_word_bits < length tried"
  shows "tried_bit (set_tried tried p) i \<longleftrightarrow> i = p \<or> tried_bit tried i"
proof (cases "i div rr_word_bits = p div rr_word_bits")
  case True
  have "i = p \<longleftrightarrow> i mod rr_word_bits = p mod rr_word_bits"
    using True by (metis div_mult_mod_eq)
  moreover have "bit (push_bit (p mod rr_word_bits) 1 :: 64 word) (i mod rr_word_bits) \<longleftrightarrow>
      i mod rr_word_bits = p mod rr_word_bits"
    by (auto simp: bit_simps)
  ultimately show ?thesis using True assms by (auto simp: tried_bit_iff set_tried_def bit_or_iff)
next
  case False
  then show ?thesis by (auto simp: tried_bit_iff set_tried_def)
qed

lemma tried_clear: "i < rr_word_bits * length tried \<Longrightarrow> \<forall>w\<in>set tried. w = 0 \<Longrightarrow> \<not> tried_bit tried i"
proof -
  assume i: "i < rr_word_bits * length tried" and z: "\<forall>w\<in>set tried. w = 0"
  from i have "i div rr_word_bits < length tried" by (simp add: less_mult_imp_div_less mult.commute)
  with z have "tried ! (i div rr_word_bits) = 0" using nth_mem by blast
  then show ?thesis by (simp add: tried_bit_iff)
qed

lemma rr_bump_fields [simp]:
  "rp_current_weight (rr_bump p) = rp_current_weight p + rp_effective_weight p"
  "rp_weight (rr_bump p) = rp_weight p" "rp_down (rr_bump p) = rp_down p" "rp_conns (rr_bump p) = rp_conns p"
  "rp_max_conns (rr_bump p) = rp_max_conns p" "rp_fails (rr_bump p) = rp_fails p"
  "rp_max_fails (rr_bump p) = rp_max_fails p" "rp_checked (rr_bump p) = rp_checked p"
  "rp_fail_timeout (rr_bump p) = rp_fail_timeout p" "rp_accessed (rr_bump p) = rp_accessed p"
  by (simp_all add: rr_bump_def Let_def)

lemma rr_take_fields [simp]:
  "rp_current_weight (rr_take now t p) = rp_current_weight p - t"
  "rp_effective_weight (rr_take now t p) = rp_effective_weight p"
  "rp_weight (rr_take now t p) = rp_weight p" "rp_down (rr_take now t p) = rp_down p"
  "rp_conns (rr_take now t p) = rp_conns p" "rp_max_conns (rr_take now t p) = rp_max_conns p"
  "rp_fails (rr_take now t p) = rp_fails p" "rp_max_fails (rr_take now t p) = rp_max_fails p"
  by (simp_all add: rr_take_def Let_def)

definition rr_may :: "int \<Rightarrow> 64 word list \<Rightarrow> rr_peer list \<Rightarrow> nat \<Rightarrow> bool" where
  "rr_may now tried peers i \<longleftrightarrow> i < length peers \<and> \<not> rr_skip now tried i (peers ! i)"

lemma rr_scan_sum:
  "rr_scan now tried i ps best t0 = (ps', b, t) \<Longrightarrow>
     sum_list (map rp_current_weight ps') + t0 = sum_list (map rp_current_weight ps) + t"
  by (induction ps arbitrary: i best t0 ps' b t)
    (force simp: Let_def split: if_splits prod.splits)+

lemma rr_scan_nth:
  assumes "rr_scan now tried i ps best t0 = (ps', b, t)"
  shows "length ps' = length ps \<and>
    (\<forall>j < length ps. ps' ! j = (if rr_skip now tried (i + j) (ps ! j) then ps ! j else rr_bump (ps ! j)))"
  using assms
proof (induction ps arbitrary: i best t0 ps' b t)
  case (Cons p ps)
  from Cons.prems obtain b1 t1 ps1 where rest: "rr_scan now tried (Suc i) ps b1 t1 = (ps1, b, t)"
    and ps': "ps' = (if rr_skip now tried i p then p else rr_bump p) # ps1"
    by (auto simp: Let_def split: if_splits prod.splits)
  from Cons.IH [OF rest] ps' show ?case by (auto simp: nth_Cons split: nat.split)
qed simp

text \<open>The best so far: no weight seen is larger.\<close>

lemma rr_scan_best:
  assumes "rr_scan now tried i ps best t0 = (ps', b, t)"
  shows "(b = None \<longleftrightarrow> best = None \<and> (\<forall>j < length ps. rr_skip now tried (i + j) (ps ! j))) \<and>
    (\<forall>q c. b = Some (q, c) \<longrightarrow>
       (best = Some (q, c) \<or> (\<exists>j < length ps. q = i + j \<and> \<not> rr_skip now tried (i + j) (ps ! j) \<and> c = rp_current_weight (ps' ! j))) \<and>
       (\<forall>q0 c0. best = Some (q0, c0) \<longrightarrow> c0 \<le> c) \<and>
       (\<forall>j < length ps. \<not> rr_skip now tried (i + j) (ps ! j) \<longrightarrow> rp_current_weight (ps' ! j) \<le> c))"
  using assms
proof (induction ps arbitrary: i best t0 ps' b t)
  case (Cons p ps)
  let ?best = "if rr_skip now tried i p then best
    else if best = None \<or> rp_current_weight (rr_bump p) > snd (the best) then Some (i, rp_current_weight (rr_bump p)) else best"
  let ?p = "if rr_skip now tried i p then p else rr_bump p"
  from Cons.prems obtain t1 ps1 where rest: "rr_scan now tried (Suc i) ps ?best t1 = (ps1, b, t)" and ps': "ps' = ?p # ps1"
    by (auto simp: Let_def split: if_splits prod.splits)
  have all: "(\<forall>j < length (p # ps). P j) \<longleftrightarrow> P 0 \<and> (\<forall>j < length ps. P (Suc j))" for P
    by (simp add: All_less_Suc2)
  have ex: "(\<exists>j < length (p # ps). P j) \<longleftrightarrow> P 0 \<or> (\<exists>j < length ps. P (Suc j))" for P
    by (simp add: Ex_less_Suc2)
  note IH = Cons.IH [OF rest]
  show ?case unfolding all ex ps'
    using IH by (cases best) (auto split: if_splits)
qed simp

definition rr_weight_sum :: "rr_peer list \<Rightarrow> int" where
  "rr_weight_sum ps = sum_list (map rp_current_weight ps)"

text \<open>What one choice does: a peer that may be chosen has the largest weight of all that may be.\<close>

lemma get_peer_spec:
  assumes "ngx_http_upstream_get_peer now tried peers = (ps, sel, tried')"
  shows "length ps = length peers \<and> rr_weight_sum ps = rr_weight_sum peers \<and>
    (case sel of
       None \<Rightarrow> (\<forall>i. \<not> rr_may now tried peers i) \<and> ps = peers \<and> tried' = tried
     | Some p \<Rightarrow> rr_may now tried peers p \<and> tried' = set_tried tried p \<and>
         (\<exists>t. ps ! p = rr_take now t (rr_bump (peers ! p))) \<and>
         (\<forall>j < length peers. j \<noteq> p \<longrightarrow> ps ! j = (if rr_may now tried peers j then rr_bump (peers ! j) else peers ! j)) \<and>
         (\<forall>j. rr_may now tried peers j \<longrightarrow> rp_current_weight (rr_bump (peers ! j)) \<le> rp_current_weight (rr_bump (peers ! p))))"
proof -
  obtain ps1 b t where scan: "rr_scan now tried 0 peers None 0 = (ps1, b, t)" by (metis prod_cases3)
  note nth = rr_scan_nth [OF scan] and best = rr_scan_best [OF scan] and sum = rr_scan_sum [OF scan]
  have may: "rr_may now tried peers j \<longleftrightarrow> j < length peers \<and> \<not> rr_skip now tried (0 + j) (peers ! j)" for j
    by (simp add: rr_may_def)
  show ?thesis
  proof (cases b)
    case None
    then have skip: "\<forall>j < length peers. rr_skip now tried (0 + j) (peers ! j)" using best by blast
    then have same: "ps1 = peers" using nth by (intro nth_equalityI) auto
    have "ps = peers" "sel = None" "tried' = tried"
      using assms scan None same by (auto simp: ngx_http_upstream_get_peer_def)
    with skip show ?thesis by (auto simp: may)
  next
    case (Some qc)
    then obtain p c where b: "b = Some (p, c)" by (cases qc) auto
    from best b obtain may_p: "rr_may now tried peers p" and c: "c = rp_current_weight (ps1 ! p)"
      by (auto simp: may)
    then have p: "p < length ps1" "ps1 ! p = rr_bump (peers ! p)" using nth may by auto
    have out: "ps = ps1[p := rr_take now t (ps1 ! p)]" "sel = Some p" "tried' = set_tried tried p"
      using assms scan b by (auto simp: ngx_http_upstream_get_peer_def)
    have "rr_weight_sum ps = rr_weight_sum peers"
      using sum p by (simp add: out rr_weight_sum_def map_update sum_list_upd)
    moreover have "rp_current_weight (rr_bump (peers ! j)) \<le> rp_current_weight (rr_bump (peers ! p))"
      if "rr_may now tried peers j" for j
    proof -
      from that have j: "j < length peers" "\<not> rr_skip now tried (0 + j) (peers ! j)" unfolding may by blast+
      then have "rp_current_weight (ps1 ! j) \<le> c" using best b by blast
      moreover have "ps1 ! j = rr_bump (peers ! j)" using nth j by simp
      ultimately show ?thesis using c p(2) by simp
    qed
    moreover have "\<exists>t. ps ! p = rr_take now t (rr_bump (peers ! p))" using p by (auto simp: out)
    moreover have "ps ! j = (if rr_may now tried peers j then rr_bump (peers ! j) else peers ! j)"
      if "j < length peers" "j \<noteq> p" for j
      using that nth by (simp add: out may)
    ultimately show ?thesis using nth out may_p by simp
  qed
qed

text \<open>
  \<open>ngx_http_upstream_get_peer\<close> chooses a peer exactly when one may be chosen: not tried in this
  request, not down, not failed too often within its timeout, not at its connection limit. It
  chooses one of those with the largest current weight, marks it tried and nothing else, and
  leaves the sum of the current weights as it was.
\<close>

theorem round_robin_choice:
  assumes "ngx_http_upstream_get_peer now tried peers = (ps, sel, tried')"
    and "length peers \<le> rr_word_bits * length tried"
  shows "(sel = None \<longleftrightarrow> (\<forall>i. \<not> rr_may now tried peers i)) \<and>
    (\<forall>p. sel = Some p \<longrightarrow> rr_may now tried peers p \<and>
       (\<forall>j. rr_may now tried peers j \<longrightarrow> rp_current_weight (peers ! j) + rp_effective_weight (peers ! j)
              \<le> rp_current_weight (peers ! p) + rp_effective_weight (peers ! p)) \<and>
       (\<forall>i. tried_bit tried' i \<longleftrightarrow> i = p \<or> tried_bit tried i)) \<and>
    rr_weight_sum ps = rr_weight_sum peers"
proof -
  note spec = get_peer_spec [OF assms(1)]
  have "p div rr_word_bits < length tried" if "rr_may now tried peers p" for p
    using that assms(2) by (auto simp: rr_may_def intro!: less_mult_imp_div_less)
  then show ?thesis using spec by (auto simp: tried_set split: option.splits)
qed

text \<open>Peers that never fail and have no limits, with the weights \<open>ws\<close>.\<close>

definition rr_steady :: "int list \<Rightarrow> rr_peer list \<Rightarrow> bool" where
  "rr_steady ws ps \<longleftrightarrow> map rp_weight ps = ws \<and> map rp_effective_weight ps = ws \<and>
     list_all (\<lambda>p. \<not> rp_down p \<and> rp_max_conns p = 0 \<and> rp_fails p = 0) ps"

text \<open>\<open>n\<close> requests in a row, each with a fresh bit map, at the times \<open>now\<close>: the peers chosen.\<close>

fun rr_rounds :: "(nat \<Rightarrow> int) \<Rightarrow> 64 word list \<Rightarrow> nat \<Rightarrow> rr_peer list \<Rightarrow> nat list \<times> rr_peer list" where
  "rr_rounds now tried 0 ps = ([], ps)"
| "rr_rounds now tried (Suc n) ps =
     (case rr_rounds now tried n ps of
        (cs, ps1) \<Rightarrow>
          (case ngx_http_upstream_get_peer (now n) tried ps1 of
             (ps2, None, _) \<Rightarrow> (cs, ps2)
           | (ps2, Some p, _) \<Rightarrow> (cs @ [p], ps2)))"

lemma steady_length: "rr_steady ws ps \<Longrightarrow> length ps = length ws"
  by (auto simp: rr_steady_def)

lemma steady_may:
  assumes "rr_steady ws ps" "length ws \<le> rr_word_bits * length tried" "\<forall>w\<in>set tried. w = 0"
  shows "rr_may now tried ps i \<longleftrightarrow> i < length ws"
proof -
  have "length ps = length ws" using assms(1) by (auto simp: rr_steady_def)
  moreover have "\<not> tried_bit tried i" if "i < length ws" using that assms by (intro tried_clear) auto
  ultimately show ?thesis using assms(1)
    by (auto simp: rr_may_def rr_skip_def rr_full_def rr_steady_def list_all_length)
qed

lemma steady_bump:
  assumes "rr_steady ws ps" "i < length ws"
  shows "rp_effective_weight (rr_bump (ps ! i)) = ws ! i" "rp_effective_weight (ps ! i) = ws ! i"
    "rp_weight (ps ! i) = ws ! i"
  using assms by (auto simp: rr_steady_def rr_bump_def Let_def)

text \<open>One round among steady peers: the chosen one pays the sum of the weights.\<close>

lemma steady_round:
  assumes st: "rr_steady ws ps" and len: "length ws \<le> rr_word_bits * length tried" and z: "\<forall>w\<in>set tried. w = 0"
    and ne: "ws \<noteq> []"
  shows "\<exists>p ps'. ngx_http_upstream_get_peer now tried ps = (ps', Some p, set_tried tried p) \<and> p < length ws \<and>
     rr_steady ws ps' \<and>
     (\<forall>i < length ws. rp_current_weight (ps' ! i) =
        rp_current_weight (ps ! i) + ws ! i - (if i = p then sum_list ws else 0)) \<and>
     (\<forall>i < length ws. rp_current_weight (ps ! i) + ws ! i \<le> rp_current_weight (ps ! p) + ws ! p)"
proof -
  note may = steady_may [OF st len z]
  have lps: "length ps = length ws" using st by (auto simp: rr_steady_def)
  obtain ps' sel tried' where g: "ngx_http_upstream_get_peer now tried ps = (ps', sel, tried')"
    by (metis prod_cases3)
  note spec = get_peer_spec [OF g]
  obtain p where sel: "sel = Some p" using spec may ne by (cases sel) auto
  obtain t where p: "p < length ws" "ps' ! p = rr_take now t (rr_bump (ps ! p))" "tried' = set_tried tried p"
    using spec sel may by auto
  have other: "ps' ! i = rr_bump (ps ! i)" if "i < length ws" "i \<noteq> p" for i
    using spec sel may that lps by auto
  have len': "length ps' = length ws" using spec lps by simp
  have cur: "rp_current_weight (ps' ! i) = rp_current_weight (ps ! i) + ws ! i - (if i = p then t else 0)"
    if "i < length ws" for i
    using that other p steady_bump [OF st that] by (cases "i = p") auto
  have "map rp_current_weight ps' = (map2 (+) (map rp_current_weight ps) ws)[p := rp_current_weight (ps ! p) + ws ! p - t]"
    using cur len' lps by (intro nth_equalityI) (auto simp: nth_list_update)
  then have "rr_weight_sum ps' = rr_weight_sum ps + sum_list ws - t"
    using p lps by (simp add: rr_weight_sum_def sum_list_upd sum_list_map2_plus)
  then have t: "t = sum_list ws" using spec by simp
  have eff: "rp_effective_weight (ps' ! i) = ws ! i \<and> rp_weight (ps' ! i) = ws ! i \<and> \<not> rp_down (ps' ! i) \<and>
      rp_max_conns (ps' ! i) = 0 \<and> rp_fails (ps' ! i) = 0" if "i < length ws" for i
    using that other p steady_bump [OF st that] st lps
    by (cases "i = p") (auto simp: rr_steady_def list_all_length)
  then have "rr_steady ws ps'" using len'
    by (auto simp: rr_steady_def list_all_length intro!: nth_equalityI)
  moreover have "rp_current_weight (ps ! i) + ws ! i \<le> rp_current_weight (ps ! p) + ws ! p" if "i < length ws" for i
    using spec sel may that steady_bump(2) [OF st] p(1) by force
  ultimately show ?thesis using g sel p t cur by auto
qed

lemma rr_top_pos:
  assumes "rr_steady ws ps" "rr_weight_sum ps = 0" "0 < sum_list ws"
    and top: "\<forall>i < length ws. rp_current_weight (ps ! i) + ws ! i \<le> m"
  shows "0 < m"
proof (rule ccontr)
  assume "\<not> 0 < m"
  have len: "length ps = length ws" using assms(1) by (auto simp: rr_steady_def)
  let ?s = "map2 (+) (map rp_current_weight ps) ws"
  have "\<forall>x\<in>set ?s. x \<le> 0"
    using top len \<open>\<not> 0 < m\<close> by (force simp: in_set_conv_nth)
  then have "sum_list ?s \<le> 0" by (intro sum_list_nonpos) blast
  moreover have "sum_list ?s = sum_list ws"
    using assms(2) len by (simp add: sum_list_map2_plus rr_weight_sum_def)
  ultimately show False using assms(3) by simp
qed

lemma rounds_inv:
  assumes st: "rr_steady ws ps" and len: "length ws \<le> rr_word_bits * length tried" and z: "\<forall>w\<in>set tried. w = 0"
    and zero: "\<forall>i < length ws. rp_current_weight (ps ! i) = 0" and pos: "0 < sum_list ws"
    and nonneg: "\<And>i. i < length ws \<Longrightarrow> 0 \<le> ws ! i" and r: "rr_rounds now tried n ps = (cs, ps')"
  shows "rr_steady ws ps' \<and> length cs = n \<and> (\<forall>i < length ws.
    rp_current_weight (ps' ! i) = int n * ws ! i - sum_list ws * int (count_list cs i) \<and>
    - sum_list ws < rp_current_weight (ps' ! i)) \<and> rr_weight_sum ps' = 0"
  using r
proof (induction n arbitrary: cs ps')
  case 0
  have "map rp_current_weight ps = replicate (length ws) 0" using zero st
    by (intro nth_equalityI) (auto simp: rr_steady_def)
  then show ?case using 0 st zero pos by (simp add: rr_weight_sum_def sum_list_replicate)
next
  case (Suc n)
  let ?W = "sum_list ws"
  obtain cs1 ps1 where r1: "rr_rounds now tried n ps = (cs1, ps1)" by fastforce
  have ne: "ws \<noteq> []" using pos by auto
  have IH: "rr_steady ws ps1" "length cs1 = n" "rr_weight_sum ps1 = 0"
    "\<And>i. i < length ws \<Longrightarrow> rp_current_weight (ps1 ! i) = int n * ws ! i - ?W * int (count_list cs1 i)"
    "\<And>i. i < length ws \<Longrightarrow> - ?W < rp_current_weight (ps1 ! i)"
    using Suc.IH [OF r1] by auto
  obtain p ps2 where g: "ngx_http_upstream_get_peer (now n) tried ps1 = (ps2, Some p, set_tried tried p)" "p < length ws"
    "rr_steady ws ps2"
    "\<And>i. i < length ws \<Longrightarrow> rp_current_weight (ps2 ! i) = rp_current_weight (ps1 ! i) + ws ! i - (if i = p then ?W else 0)"
    "\<And>i. i < length ws \<Longrightarrow> rp_current_weight (ps1 ! i) + ws ! i \<le> rp_current_weight (ps1 ! p) + ws ! p"
    using steady_round [OF IH(1) len z ne, of "now n"] by auto
  have out: "cs = cs1 @ [p]" "ps' = ps2" using Suc.prems r1 g(1) by auto
  have sum: "rr_weight_sum ps2 = 0" using get_peer_spec [OF g(1)] IH(3) by simp
  have "0 < rp_current_weight (ps1 ! p) + ws ! p"
    using rr_top_pos [OF IH(1) IH(3) pos] g(2,5) by blast
  then have "- ?W < rp_current_weight (ps2 ! i)" if "i < length ws" for i
    using g(4) [OF that] IH(5) [OF that] nonneg [OF that] by (cases "i = p") auto
  moreover have "rp_current_weight (ps2 ! i) = int (Suc n) * ws ! i - ?W * int (count_list cs i)" if "i < length ws" for i
    using g(4) [OF that] IH(4) [OF that] by (cases "i = p") (simp_all add: out algebra_simps)
  ultimately show ?case using g(3) sum IH(2) out by auto
qed

text \<open>
  C5. Smooth weighted round robin is fair. Among peers that do not fail, whatever their number and
  weights, \<open>n\<close> requests give every peer fewer than its share \<open>n w / W\<close> plus one, and after \<open>W\<close>
  requests, \<open>W\<close> the sum of the weights, each peer has had exactly its weight of them and the
  balancer is back in its first state.
\<close>

theorem round_robin_fair:
  assumes "rr_steady ws ps" "length ws \<le> rr_word_bits * length tried" "\<forall>w\<in>set tried. w = 0"
    and "\<forall>i < length ws. rp_current_weight (ps ! i) = 0 \<and> 0 \<le> ws ! i" "0 < sum_list ws"
  shows "(\<forall>n. length (fst (rr_rounds now tried n ps)) = n \<and>
      (\<forall>i < length ws. sum_list ws * int (count_list (fst (rr_rounds now tried n ps)) i) < int n * ws ! i + sum_list ws)) \<and>
    (\<forall>i < length ws. int (count_list (fst (rr_rounds now tried (nat (sum_list ws)) ps)) i) = ws ! i \<and>
       rp_current_weight (snd (rr_rounds now tried (nat (sum_list ws)) ps) ! i) = 0)"
proof -
  let ?W = "sum_list ws"
  have inv: "rr_steady ws (snd (rr_rounds now tried n ps)) \<and> length (fst (rr_rounds now tried n ps)) = n \<and>
     (\<forall>i < length ws. rp_current_weight (snd (rr_rounds now tried n ps) ! i) =
        int n * ws ! i - ?W * int (count_list (fst (rr_rounds now tried n ps)) i) \<and>
        - ?W < rp_current_weight (snd (rr_rounds now tried n ps) ! i)) \<and>
     rr_weight_sum (snd (rr_rounds now tried n ps)) = 0" for n
    by (rule rounds_inv [OF assms(1-3) _ assms(5)]) (use assms(4) in simp_all)
  let ?cs = "fst (rr_rounds now tried (nat ?W) ps)" and ?ps = "snd (rr_rounds now tried (nat ?W) ps)"
  have full: "rp_current_weight (?ps ! i) = ?W * (ws ! i - int (count_list ?cs i))" "- ?W < rp_current_weight (?ps ! i)"
    if "i < length ws" for i
    using inv [of "nat ?W"] assms(5) that by (auto simp: algebra_simps)
  have nonneg: "0 \<le> rp_current_weight (?ps ! i)" if "i < length ws" for i
  proof -
    have "?W * (- 1) < ?W * (ws ! i - int (count_list ?cs i))" using full [OF that] by simp
    then have "- 1 < ws ! i - int (count_list ?cs i)" using assms(5) by (simp only: mult_less_cancel_left_pos)
    then show ?thesis using full(1) [OF that] assms(5) by (simp add: mult_nonneg_nonneg)
  qed
  have len: "length ?ps = length ws" using inv [of "nat ?W"] steady_length by blast
  have "\<forall>x\<in>set (map rp_current_weight ?ps). 0 \<le> x" using nonneg len by (auto simp: in_set_conv_nth)
  moreover have "sum_list (map rp_current_weight ?ps) = 0" using inv [of "nat ?W"] unfolding rr_weight_sum_def by blast
  ultimately have "\<forall>x\<in>set (map rp_current_weight ?ps). x = 0"
    using sum_list_nonneg_eq_0_iff [of "map rp_current_weight ?ps"] by blast
  then have zero: "rp_current_weight (?ps ! i) = 0" if "i < length ws" for i using that len by simp
  then have "int (count_list ?cs i) = ws ! i" if "i < length ws" for i
    using full(1) [OF that] zero [OF that] assms(5) by simp
  moreover have "?W * int (count_list (fst (rr_rounds now tried n ps)) i) < int n * ws ! i + ?W" if "i < length ws" for n i
    using inv [of n] that by auto
  ultimately show ?thesis using inv zero by blast
qed

definition demo_peers :: "rr_peer list" where
  "demo_peers = map (\<lambda>w. rr_new_peer (rr_implicit_server 1)\<lparr>rp_weight := w, rp_effective_weight := w\<rparr>) [5, 1, 1]"

theorem round_robin_fair_witness:
  "int (count_list (fst (rr_rounds (\<lambda>_. 0) [0] 7 demo_peers)) 0) = 5"
proof -
  have "rr_steady [5, 1, 1] demo_peers"
    by (simp add: rr_steady_def demo_peers_def rr_new_peer_def rr_implicit_server_def)
  moreover have "\<forall>i < length [5, 1, 1 :: int]. rp_current_weight (demo_peers ! i) = 0 \<and> 0 \<le> [5, 1, 1 :: int] ! i"
    by (auto simp: demo_peers_def rr_new_peer_def less_Suc_eq)
  ultimately show ?thesis using round_robin_fair [of "[5, 1, 1]" demo_peers "[0]" "\<lambda>_. 0"] by auto
qed

theorem round_robin_choice_witness:
  "\<exists>ps tried'. ngx_http_upstream_get_peer 0 [1] demo_peers = (ps, Some 1, tried') \<and> rr_may 0 [1] demo_peers 1"
proof -
  obtain ps sel tried' where g: "ngx_http_upstream_get_peer 0 [1] demo_peers = (ps, sel, tried')" by (metis prod_cases3)
  have "sel = Some 1"
    using arg_cong [OF g, of "\<lambda>x. fst (snd x)"]
    by (simp add: demo_peers_def ngx_http_upstream_get_peer_def rr_new_peer_def rr_implicit_server_def rr_skip_def
        tried_bit_def rr_full_def rr_bump_def Let_def)
  with round_robin_choice [OF g] g show ?thesis by (simp add: demo_peers_def)
qed

section \<open>Weights and connections\<close>

definition rr_weight_ok :: "rr_peer \<Rightarrow> bool" where
  "rr_weight_ok p \<longleftrightarrow> 0 \<le> rp_effective_weight p \<and> rp_effective_weight p \<le> rp_weight p"

definition rr_ok :: "rr_peers list \<Rightarrow> bool" where
  "rr_ok groups \<longleftrightarrow> (\<forall>g\<in>set groups. \<forall>p\<in>set (rs_peer g). rr_weight_ok p)"

definition rr_conns :: "rr_peers list \<Rightarrow> nat list list" where
  "rr_conns groups = map (\<lambda>g. map rp_conns (rs_peer g)) groups"

lemma get_peer_keeps:
  assumes "ngx_http_upstream_get_peer now tried peers = (ps, sel, tried')" "\<forall>p\<in>set peers. rr_weight_ok p"
  shows "(\<forall>p\<in>set ps. rr_weight_ok p) \<and> map rp_conns ps = map rp_conns peers \<and> (\<forall>i. sel = Some i \<longrightarrow> i < length peers)"
proof -
  note spec = get_peer_spec [OF assms(1)]
  have bump: "rr_weight_ok p \<Longrightarrow> rr_weight_ok (rr_bump p) \<and> rr_weight_ok (rr_take now t (rr_bump p))" for p t
    by (auto simp: rr_weight_ok_def rr_bump_def Let_def)
  have each: "rr_weight_ok (ps ! j) \<and> rp_conns (ps ! j) = rp_conns (peers ! j)" if "j < length peers" for j
  proof -
    have ok: "rr_weight_ok (peers ! j)" using that assms(2) by simp
    show ?thesis
    proof (cases "sel = Some j")
      case True
      then obtain t where "ps ! j = rr_take now t (rr_bump (peers ! j))" using spec by auto
      then show ?thesis using ok bump by auto
    next
      case False
      then have "ps ! j \<in> {peers ! j, rr_bump (peers ! j)}" using spec that by (cases sel) auto
      then show ?thesis using ok bump by auto
    qed
  qed
  have "length ps = length peers" using spec by simp
  with each have "\<forall>p\<in>set ps. rr_weight_ok p" "map rp_conns ps = map rp_conns peers"
    by (auto simp: in_set_conv_nth intro!: nth_equalityI)
  then show ?thesis using spec by (auto simp: rr_may_def)
qed

lemma try_group_keeps:
  assumes "rr_try_group now tried g = (g', sel, tried')" "\<forall>p\<in>set (rs_peer g). rr_weight_ok p" "rs_peer g \<noteq> []"
  shows "(\<forall>p\<in>set (rs_peer g'). rr_weight_ok p) \<and> map rp_conns (rs_peer g') = map rp_conns (rs_peer g) \<and>
    rs_single g' = rs_single g \<and> rs_number g' = rs_number g \<and> length (rs_peer g') = length (rs_peer g) \<and>
    (\<forall>i. sel = Some i \<longrightarrow> i < length (rs_peer g))"
proof (cases "rs_single g")
  case True
  with assms show ?thesis by (auto simp: rr_try_group_def Let_def split: if_splits)
next
  case False
  obtain ps sel1 t1 where g: "ngx_http_upstream_get_peer now tried (rs_peer g) = (ps, sel1, t1)" by (metis prod_cases3)
  from get_peer_keeps [OF g assms(2)] get_peer_spec [OF g] assms(1) False g show ?thesis
    by (auto simp: rr_try_group_def)
qed

definition rr_shape :: "rr_peers list \<Rightarrow> rr_peers list \<Rightarrow> bool" where
  "rr_shape groups groups' \<longleftrightarrow> length groups' = length groups \<and>
     (\<forall>k < length groups. rs_single (groups' ! k) = rs_single (groups ! k) \<and> rs_number (groups' ! k) = rs_number (groups ! k) \<and>
        length (rs_peer (groups' ! k)) = length (rs_peer (groups ! k)))"

text \<open>A connection more for the peer chosen, none otherwise.\<close>

definition add_conn :: "nat \<times> nat \<Rightarrow> nat list list \<Rightarrow> nat list list" where
  "add_conn ki cs = (case ki of (k, i) \<Rightarrow> cs[k := (cs ! k)[i := cs ! k ! i + 1]])"

lemma rr_ok_update: "rr_ok groups \<Longrightarrow> \<forall>p\<in>set (rs_peer g). rr_weight_ok p \<Longrightarrow> rr_ok (groups[k := g])"
  using set_update_subset_insert [of groups k g] by (auto simp: rr_ok_def)

lemma rr_shape_update:
  "rs_single g = rs_single (groups ! k) \<Longrightarrow> rs_number g = rs_number (groups ! k) \<Longrightarrow>
     length (rs_peer g) = length (rs_peer (groups ! k)) \<Longrightarrow> rr_shape groups (groups[k := g])"
  by (cases "k < length groups") (auto simp: rr_shape_def nth_list_update)

lemma rr_shape_trans: "rr_shape a b \<Longrightarrow> rr_shape b c \<Longrightarrow> rr_shape a c"
  by (auto simp: rr_shape_def)

lemma get_round_robin_keeps:
  assumes "ngx_http_upstream_get_round_robin_peer now groups d = (rc, groups', d')" "rr_ok groups"
    and "rd_peers d < length groups" "\<forall>g\<in>set groups. rs_peer g \<noteq> []"
  shows "rr_ok groups' \<and> rr_shape groups groups' \<and>
    (rc = NGX_OK \<and> (\<exists>k i. rd_current d' = Some (k, i) \<and> rd_peers d' = k \<and> k < length groups \<and> i < length (rs_peer (groups ! k)) \<and>
        rr_conns groups' = add_conn (k, i) (rr_conns groups)) \<or>
     rc = NGX_BUSY \<and> rr_conns groups' = rr_conns groups)"
  using assms
proof (induction now groups d rule: ngx_http_upstream_get_round_robin_peer.induct)
  case (1 now groups d)
  let ?k = "rd_peers d"
  obtain g sel tried where t: "rr_try_group now (rd_tried d) (groups ! ?k) = (g, sel, tried)" by (metis prod_cases3)
  have gk: "\<forall>p\<in>set (rs_peer (groups ! ?k)). rr_weight_ok p" "rs_peer (groups ! ?k) \<noteq> []"
    using 1(3-5) by (auto simp: rr_ok_def)
  note keep = try_group_keeps [OF t gk]
  have ok1: "rr_ok (groups[?k := g])" using rr_ok_update 1(3) keep by blast
  have shape1: "rr_shape groups (groups[?k := g])"
    using keep by (intro rr_shape_update) auto
  have conns1: "rr_conns (groups[?k := g]) = rr_conns groups"
    using keep 1(4) by (simp add: rr_conns_def map_update list_update_same_conv)
  show ?case
  proof (cases sel)
    case (Some i)
    have out: "rc = NGX_OK" "groups' = groups[?k := rr_inc_conns i g]" "d' = d\<lparr>rd_current := Some (?k, i), rd_tried := tried\<rparr>"
      using 1(2) t Some by (auto simp: ngx_http_upstream_get_round_robin_peer.simps [of now groups d] Let_def)
    have i: "i < length (rs_peer g)" "i < length (rs_peer (groups ! ?k))" using keep Some by auto
    have "\<forall>p\<in>set (rs_peer (rr_inc_conns i g)). rr_weight_ok p"
      using keep i set_update_subset_insert [of "rs_peer g" i] by (fastforce simp: rr_inc_conns_def rr_weight_ok_def)
    then have "rr_ok groups'" using rr_ok_update 1(3) out by blast
    moreover have "rr_shape groups groups'"
      unfolding out using keep by (intro rr_shape_update) (auto simp: rr_inc_conns_def)
    moreover have "map rp_conns (rs_peer (rr_inc_conns i g)) =
        (map rp_conns (rs_peer (groups ! ?k)))[i := map rp_conns (rs_peer (groups ! ?k)) ! i + 1]"
      using keep i by (simp add: rr_inc_conns_def map_update) (metis nth_map)
    then have "rr_conns groups' = add_conn (?k, i) (rr_conns groups)"
      using out 1(4) by (simp add: rr_conns_def add_conn_def map_update)
    ultimately show ?thesis using out i 1(4) by auto
  next
    case None
    show ?thesis
    proof (cases "Suc ?k < length groups")
      case True
      let ?d = "d\<lparr>rd_peers := Suc ?k, rd_tried := rr_clear (rr_words (rs_number (groups ! Suc ?k))) tried\<rparr>"
      have rec: "ngx_http_upstream_get_round_robin_peer now (groups[?k := g]) ?d = (rc, groups', d')"
        using 1(2) t None True by (simp add: ngx_http_upstream_get_round_robin_peer.simps [of now groups d] Let_def)
      have ne: "\<forall>g'\<in>set (groups[?k := g]). rs_peer g' \<noteq> []"
        using 1(5) keep gk set_update_subset_insert [of groups ?k g] by fastforce
      have len: "length (rs_peer (groups[?k := g] ! j)) = length (rs_peer (groups ! j))" if "j < length groups" for j
        using shape1 that by (auto simp: rr_shape_def)
      from 1(1) [OF refl t [symmetric] refl None True rec ok1 _ ne] True
      show ?thesis using len rr_shape_trans [OF shape1] unfolding conns1 by auto
    next
      case False
      then have "rc = NGX_BUSY" "groups' = groups[?k := g]"
        using 1(2) t None by (auto simp: ngx_http_upstream_get_round_robin_peer.simps [of now groups d] Let_def)
      then show ?thesis using ok1 shape1 conns1 by simp
    qed
  qed
qed

lemma rr_failed_ok: "rr_weight_ok p \<Longrightarrow> rr_weight_ok (rr_failed now p)" "rp_conns (rr_failed now p) = rp_conns p"
proof -
  assume ok: "rr_weight_ok p"
  then have "0 \<le> rp_weight p div int (rp_max_fails p)" by (intro pos_imp_zdiv_nonneg_iff [THEN iffD2] div_int_pos_iff [THEN iffD2]) (auto simp: rr_weight_ok_def)
  with ok show "rr_weight_ok (rr_failed now p)" by (auto simp: rr_failed_def rr_weight_ok_def Let_def)
qed (simp add: rr_failed_def Let_def)

lemma rr_succeeded_ok: "rr_weight_ok p \<Longrightarrow> rr_weight_ok (rr_succeeded p)" "rp_conns (rr_succeeded p) = rp_conns p"
  by (simp_all add: rr_succeeded_def rr_weight_ok_def)

lemma rr_update_keeps:
  assumes "rr_ok groups" "k < length groups" "i < length (rs_peer (groups ! k))"
    and f: "\<And>p. rr_weight_ok p \<Longrightarrow> rr_weight_ok (f p)" "\<And>p. rp_conns (f p) = rp_conns p - 1"
    and c: "rr_conns groups = add_conn (k, i) cs" "k < length cs" "i < length (cs ! k)"
  shows "rr_ok (rr_update (k, i) f groups) \<and> rr_conns (rr_update (k, i) f groups) = cs"
proof
  let ?ps = "rs_peer (groups ! k)"
  have gk: "\<forall>p\<in>set ?ps. rr_weight_ok p" using assms(1,2) by (auto simp: rr_ok_def)
  then have "\<forall>p\<in>set (?ps[i := f (?ps ! i)]). rr_weight_ok p"
    using f(1) assms(3) set_update_subset_insert [of ?ps i] by fastforce
  then show "rr_ok (rr_update (k, i) f groups)"
    unfolding rr_update_def using assms(1) by (simp add: rr_ok_update)
  have row: "map rp_conns ?ps = (cs ! k)[i := cs ! k ! i + 1]"
    using arg_cong [OF c(1), of "\<lambda>x. x ! k"] assms(2) c(2) by (simp add: rr_conns_def add_conn_def)
  then have "rp_conns (?ps ! i) = cs ! k ! i + 1" using c(3) assms(3) by (metis nth_list_update_eq nth_map)
  then have "map rp_conns (?ps[i := f (?ps ! i)]) = cs ! k"
    using row f(2) by (simp add: map_update)
  then have "rr_conns (rr_update (k, i) f groups) = (rr_conns groups)[k := cs ! k]"
    by (simp add: rr_update_def rr_conns_def map_update)
  then show "rr_conns (rr_update (k, i) f groups) = cs" by (simp add: c(1) add_conn_def)
qed

text \<open>
  Choosing and freeing peers keeps every effective weight between zero and the configured
  weight, whatever fails; and every connection counted when a peer is chosen, in the main or in
  the backup group, is uncounted when it is freed: afterwards all connection counters are what
  they were.
\<close>

theorem round_robin_balanced:
  assumes "ngx_http_upstream_get_round_robin_peer now groups d = (NGX_OK, groups', d')"
    and "rr_ok groups" "rd_peers d < length groups" "\<forall>g\<in>set groups. rs_peer g \<noteq> []"
    and "ngx_http_upstream_free_round_robin_peer now' failed groups' d' tries = (groups'', tries')"
  shows "rr_ok groups' \<and> rr_ok groups'' \<and> rr_conns groups'' = rr_conns groups \<and> (tries' < tries \<or> tries' = 0)"
proof -
  note keep = get_round_robin_keeps [OF assms(1-4)]
  then obtain k i where cur: "rd_current d' = Some (k, i)" "rd_peers d' = k" "k < length groups" "i < length (rs_peer (groups ! k))"
    "rr_conns groups' = add_conn (k, i) (rr_conns groups)" by auto
  then have in': "k < length groups'" "i < length (rs_peer (groups' ! k))"
    using keep by (auto simp: rr_shape_def)
  let ?dec = "\<lambda>p. p\<lparr>rp_conns := rp_conns p - 1\<rparr>"
  let ?f = "\<lambda>p. ?dec (if failed then rr_failed now' p else rr_succeeded p)"
  have dec: "rr_weight_ok p \<Longrightarrow> rr_weight_ok (?dec p)" for p by (simp add: rr_weight_ok_def)
  have f: "rr_weight_ok p \<Longrightarrow> rr_weight_ok (?f p)" "rp_conns (?f p) = rp_conns p - 1" for p
    using dec rr_failed_ok rr_succeeded_ok by auto
  have "groups'' = rr_update (k, i) ?dec groups' \<and> tries' = 0 \<or> groups'' = rr_update (k, i) ?f groups' \<and> tries' = tries - 1"
    using assms(5) cur by (auto simp: ngx_http_upstream_free_round_robin_peer_def Let_def split: if_splits)
  moreover have rows: "k < length (rr_conns groups)" "i < length (rr_conns groups ! k)" using cur by (simp_all add: rr_conns_def)
  ultimately show ?thesis
    using keep rr_update_keeps [OF _ in' dec _ cur(5) rows] rr_update_keeps [OF _ in' f cur(5) rows] by auto
qed

definition demo_group :: "rr_peers list" where
  "demo_group = [\<lparr>rs_number = 3, rs_total_weight = 7, rs_single = False, rs_weighted = True, rs_peer = demo_peers\<rparr>]"

theorem round_robin_balanced_witness:
  "\<exists>groups' d'. ngx_http_upstream_get_round_robin_peer 0 demo_group \<lparr>rd_peers = 0, rd_current = None, rd_tried = [0]\<rparr> =
     (NGX_OK, groups', d') \<and>
   rr_conns (fst (ngx_http_upstream_free_round_robin_peer 1 True groups' d' 3)) = [[0, 0, 0]]"
proof -
  let ?d = "\<lparr>rd_peers = 0, rd_current = None, rd_tried = [0]\<rparr>"
  obtain rc groups' d' where g: "ngx_http_upstream_get_round_robin_peer 0 demo_group ?d = (rc, groups', d')"
    by (metis prod_cases3)
  have rc: "rc = NGX_OK"
    using arg_cong [OF g, of fst]
    by (simp add: ngx_http_upstream_get_round_robin_peer.simps demo_group_def rr_try_group_def demo_peers_def
        ngx_http_upstream_get_peer_def rr_new_peer_def rr_implicit_server_def rr_skip_def tried_bit_def rr_full_def
        rr_bump_def Let_def)
  obtain groups'' tries' where f: "ngx_http_upstream_free_round_robin_peer 1 True groups' d' 3 = (groups'', tries')"
    by fastforce
  have "rr_conns groups'' = rr_conns demo_group"
    using round_robin_balanced [OF g [unfolded rc] _ _ _ f]
    by (simp add: rr_ok_def demo_group_def demo_peers_def rr_weight_ok_def rr_new_peer_def)
  moreover have "rr_conns demo_group = [[0, 0, 0]]"
    by (simp add: rr_conns_def demo_group_def demo_peers_def rr_new_peer_def)
  ultimately show ?thesis using g rc f by simp
qed

section \<open>Retries\<close>

text \<open>The peers a request may still be given: those of its group not tried, and the later groups.\<close>

definition rr_left :: "rr_peers list \<Rightarrow> rr_data \<Rightarrow> nat" where
  "rr_left groups d =
     card {i. i < length (rs_peer (groups ! rd_peers d)) \<and> \<not> tried_bit (rd_tried d) i} +
     (\<Sum>j \<in> {rd_peers d <..< length groups}. length (rs_peer (groups ! j)))"

definition rr_room :: "rr_peers list \<Rightarrow> rr_data \<Rightarrow> bool" where
  "rr_room groups d \<longleftrightarrow> rd_peers d < length groups \<and>
     (\<forall>k < length groups. \<not> rs_single (groups ! k) \<and> length (rs_peer (groups ! k)) \<le> rr_word_bits * length (rd_tried d))"

lemma rr_left_shape: "rr_shape groups groups' \<Longrightarrow> rd_peers d < length groups \<Longrightarrow> rr_left groups' d = rr_left groups d"
  by (auto simp: rr_left_def rr_shape_def intro!: sum.cong)

lemma rr_room_shape: "rr_shape groups groups' \<Longrightarrow> rr_room groups d \<Longrightarrow> rr_room groups' d"
  by (simp add: rr_room_def rr_shape_def)

lemma rr_left_group: "rd_peers d < length groups \<Longrightarrow>
    rr_left groups d \<le> (\<Sum>j \<in> {rd_peers d ..< length groups}. length (rs_peer (groups ! j)))"
proof -
  assume k: "rd_peers d < length groups"
  have "card {i. i < length (rs_peer (groups ! rd_peers d)) \<and> \<not> tried_bit (rd_tried d) i} \<le> length (rs_peer (groups ! rd_peers d))"
    using card_mono [of "{..< length (rs_peer (groups ! rd_peers d))}"
        "{i. i < length (rs_peer (groups ! rd_peers d)) \<and> \<not> tried_bit (rd_tried d) i}"] by (simp add: subset_iff)
  moreover have "{rd_peers d ..< length groups} = insert (rd_peers d) {rd_peers d <..< length groups}" using k by auto
  ultimately show ?thesis by (simp add: rr_left_def)
qed

lemma rr_left_tried:
  assumes "rr_room groups d" "p < length (rs_peer (groups ! rd_peers d))" "\<not> tried_bit (rd_tried d) p"
  shows "rr_left groups (d\<lparr>rd_tried := set_tried (rd_tried d) p\<rparr>) < rr_left groups d"
proof -
  let ?S = "{i. i < length (rs_peer (groups ! rd_peers d)) \<and> \<not> tried_bit (rd_tried d) i}"
  have "p div rr_word_bits < length (rd_tried d)"
    using assms(1,2) by (intro less_mult_imp_div_less) (auto simp: rr_room_def mult.commute intro: order_less_le_trans)
  then have "{i. i < length (rs_peer (groups ! rd_peers d)) \<and> \<not> tried_bit (set_tried (rd_tried d) p) i} = ?S - {p}"
    by (auto simp: tried_set)
  moreover have "card (?S - {p}) < card ?S" using assms(2,3) by (intro psubset_card_mono) auto
  ultimately show ?thesis by (simp add: rr_left_def)
qed

lemma get_round_robin_left:
  assumes "ngx_http_upstream_get_round_robin_peer now groups d = (NGX_OK, groups', d')" "rr_room groups d"
  shows "rr_shape groups groups' \<and> rr_room groups' d' \<and> rr_left groups' d' < rr_left groups d"
  using assms
proof (induction now groups d rule: ngx_http_upstream_get_round_robin_peer.induct)
  case (1 now groups d)
  let ?k = "rd_peers d"
  have k: "?k < length groups" "\<not> rs_single (groups ! ?k)" using 1(3) by (auto simp: rr_room_def)
  obtain ps sel tried where gp: "ngx_http_upstream_get_peer now (rd_tried d) (rs_peer (groups ! ?k)) = (ps, sel, tried)"
    by (metis prod_cases3)
  let ?g = "(groups ! ?k)\<lparr>rs_peer := ps\<rparr>"
  have t: "rr_try_group now (rd_tried d) (groups ! ?k) = (?g, sel, tried)"
    using k gp by (simp add: rr_try_group_def)
  note spec = get_peer_spec [OF gp]
  show ?case
  proof (cases sel)
    case (Some p)
    have out: "groups' = groups[?k := rr_inc_conns p ?g]" "d' = d\<lparr>rd_current := Some (?k, p), rd_tried := tried\<rparr>"
      using 1(2) t Some by (auto simp: ngx_http_upstream_get_round_robin_peer.simps [of now groups d] Let_def)
    have p: "p < length (rs_peer (groups ! ?k))" "\<not> tried_bit (rd_tried d) p" "tried = set_tried (rd_tried d) p"
      using spec Some by (auto simp: rr_may_def rr_skip_def)
    have shape: "rr_shape groups groups'"
      unfolding out using spec by (intro rr_shape_update) (auto simp: rr_inc_conns_def)
    have "rr_left groups' d' = rr_left groups (d\<lparr>rd_tried := tried\<rparr>)"
      using rr_left_shape [OF shape, of d'] k by (simp add: out rr_left_def)
    moreover have "rr_room groups d'" using 1(3) by (simp add: rr_room_def out p(3) set_tried_def)
    ultimately show ?thesis using shape rr_room_shape [OF shape] rr_left_tried [OF 1(3) p(1,2)] p(3) by simp
  next
    case None
    have same: "tried = rd_tried d" "ps = rs_peer (groups ! ?k)" using spec None by auto
    then have g: "groups[?k := ?g] = groups" by simp
    show ?thesis
    proof (cases "Suc ?k < length groups")
      case True
      let ?d = "d\<lparr>rd_peers := Suc ?k, rd_tried := rr_clear (rr_words (rs_number (groups ! Suc ?k))) tried\<rparr>"
      have rec: "ngx_http_upstream_get_round_robin_peer now (groups[?k := ?g]) ?d = (NGX_OK, groups', d')"
        using 1(2) t None True by (simp add: ngx_http_upstream_get_round_robin_peer.simps [of now groups d] Let_def)
      have "length (rd_tried d) \<le> length (rd_tried ?d)" by (simp add: rr_clear_def same)
      then have room: "rr_room groups ?d" using 1(3) True by (fastforce simp: rr_room_def)
      have "rr_left groups ?d \<le> (\<Sum>j \<in> {?k <..< length groups}. length (rs_peer (groups ! j)))"
        using rr_left_group [of ?d groups] True by (simp add: atLeastSucLessThan_greaterThanLessThan)
      then have "rr_left groups ?d \<le> rr_left groups d" by (simp add: rr_left_def)
      moreover have "rr_shape groups groups' \<and> rr_room groups' d' \<and> rr_left groups' d' < rr_left groups ?d"
        using 1(1) [OF refl t [symmetric] refl None True rec] room unfolding g by blast
      ultimately show ?thesis by auto
    next
      case False
      then show ?thesis using 1(2) t None
        by (simp add: ngx_http_upstream_get_round_robin_peer.simps [of now groups d] Let_def)
    qed
  qed
qed

text \<open>
  The attempts of one request: between two of them the peer is freed and other requests use the
  peers, which changes the peers' counters and weights but not which peers there are.
\<close>

inductive rr_session :: "rr_peers list \<Rightarrow> rr_data \<Rightarrow> nat \<Rightarrow> rr_peers list \<Rightarrow> rr_data \<Rightarrow> bool"
  for groups :: "rr_peers list" and d :: rr_data where
  session_start: "rr_session groups d 0 groups d"
| session_again: "rr_session groups d n groups1 d1 \<Longrightarrow> rr_shape groups1 groups2 \<Longrightarrow>
     ngx_http_upstream_get_round_robin_peer now groups2 d1 = (NGX_OK, groups3, d3) \<Longrightarrow>
     rr_session groups d (Suc n) groups3 d3"

lemma session_left:
  "rr_session groups d n groups' d' \<Longrightarrow> rr_room groups d \<Longrightarrow> rr_room groups' d' \<and> n + rr_left groups' d' \<le> rr_left groups d"
proof (induction rule: rr_session.induct)
  case (session_again n groups1 d1 groups2 now groups3 d3)
  then have "rr_room groups2 d1" "rr_left groups2 d1 = rr_left groups1 d1"
    using rr_room_shape rr_left_shape by (auto simp: rr_room_def)
  moreover from this(1) have "rr_room groups3 d3 \<and> rr_left groups3 d3 < rr_left groups2 d1"
    using get_round_robin_left [OF session_again.hyps(3)] by blast
  ultimately show ?case using session_again.IH [OF session_again.prems] by linarith
qed simp

text \<open>
  C6. A request is given at most \<open>peer.tries\<close> peers: with the data
  \<open>ngx_http_upstream_init_round_robin_peer\<close> sets up for an upstream of several peers, each attempt
  uses a peer not used before, in the main group and then in the backup group, so the retries end
  with \<open>NGX_BUSY\<close>.
\<close>

theorem round_robin_retries:
  assumes "ngx_http_upstream_init_round_robin True servers = Some groups" "\<not> rs_single (groups ! 0)"
    and "ngx_http_upstream_init_round_robin_peer True groups = Some (d, tries)"
    and "rr_session groups d n groups' d'"
  shows "n \<le> tries"
proof -
  have sizes: "rs_number (rr_group ss) = length (rs_peer (rr_group ss))" for ss
    by (induction ss) (simp_all add: rr_group_def Let_def)
  have g: "groups \<noteq> []" "length groups \<le> 2" "\<forall>g\<in>set groups. \<not> rs_single g \<and> rs_number g = length (rs_peer g)"
    using assms(1,2) sizes by (auto simp: ngx_http_upstream_init_round_robin_def Let_def split: if_splits)
  then obtain a bs where gs: "groups = a # bs" "length bs \<le> 1" by (cases groups) auto
  have fit: "l \<le> m \<Longrightarrow> l \<le> rr_word_bits * rr_words m" for l m by (simp add: rr_words_def)
  have d: "rd_peers d = 0" "tries = ngx_http_upstream_tries groups"
    "rd_tried d = (let n = (if bs \<noteq> [] \<and> rs_number (hd bs) > rs_number a then rs_number (hd bs) else rs_number a) in
       if n \<le> rr_word_bits then [0] else replicate (rr_words n) 0)"
    using assms(3) gs by (cases bs; auto simp: ngx_http_upstream_init_round_robin_peer_def Let_def)+
  have "rs_number g \<le> rr_word_bits * length (rd_tried d)" if "g \<in> set groups" for g
    using that gs d(3) by (cases bs) (auto simp: Let_def split: if_splits intro: fit)
  then have "rr_room groups d" using g d(1) by (auto simp: rr_room_def)
  moreover have "tries = (\<Sum>j \<in> {0 ..< length groups}. length (rs_peer (groups ! j)))"
    using gs g(3) d(2) by (cases bs) (auto simp: ngx_http_upstream_tries_def)
  ultimately show ?thesis using session_left [OF assms(4)] rr_left_group [of d groups] d(1) g(1) by fastforce
qed

definition demo_servers :: "upstream_server list" where
  "demo_servers = [(rr_implicit_server 2), (rr_implicit_server 1)\<lparr>us_backup := True\<rparr>]"

theorem round_robin_retries_witness:
  "\<exists>groups d groups' d'. ngx_http_upstream_init_round_robin True demo_servers = Some groups \<and>
     ngx_http_upstream_init_round_robin_peer True groups = Some (d, 3) \<and> rr_session groups d 1 groups' d' \<and> (1 :: nat) \<le> 3"
proof -
  obtain groups where g: "ngx_http_upstream_init_round_robin True demo_servers = Some groups"
    and groups: "groups = [(rr_group [rr_implicit_server 2])\<lparr>rs_single := False\<rparr>,
      (rr_group [(rr_implicit_server 1)\<lparr>us_backup := True\<rparr>])\<lparr>rs_single := False\<rparr>]"
    by (simp add: ngx_http_upstream_init_round_robin_def demo_servers_def rr_implicit_server_def rr_group_def Let_def)
  let ?d = "\<lparr>rd_peers = 0, rd_current = None, rd_tried = [0]\<rparr>"
  have d: "ngx_http_upstream_init_round_robin_peer True groups = Some (?d, 3)"
    by (simp add: ngx_http_upstream_init_round_robin_peer_def groups rr_group_def rr_implicit_server_def
        ngx_http_upstream_tries_def Let_def)
  have ok: "fst (ngx_http_upstream_get_round_robin_peer 0 groups ?d) = NGX_OK"
    by (simp add: ngx_http_upstream_get_round_robin_peer.simps groups rr_group_def rr_implicit_server_def rr_try_group_def
        ngx_http_upstream_get_peer_def rr_new_peer_def rr_skip_def tried_bit_def rr_full_def rr_bump_def numeral_2_eq_2 Let_def)
  then obtain groups' d' where "ngx_http_upstream_get_round_robin_peer 0 groups ?d = (NGX_OK, groups', d')"
    by (metis prod.collapse)
  from session_again [OF session_start _ this] have s: "rr_session groups ?d 1 groups' d'" by (simp add: rr_shape_def)
  from round_robin_retries [OF g _ d s] have "(1 :: nat) \<le> 3" by (simp add: groups)
  with g d s show ?thesis by blast
qed

end
