(* ===== verification/Ngx_Times.thy ===== *)
theory Ngx_Times
  imports Ngx_Number
begin

text \<open>
  HTTP dates: \<open>ngx_gmtime\<close> and \<open>ngx_http_time\<close> of \<open>nginx-master/src/core/ngx_times.c\<close>, which write
  the \<open>Date\<close>, \<open>Last-Modified\<close> and \<open>Expires\<close> headers, and \<open>ngx_parse_http_time\<close> of
  \<open>core/ngx_parse_time.c\<close>, which reads the dates of conditional requests. Calendar arithmetic is
  on unbounded integers in \<open>ngx_gmtime\<close>, whose values are small, and on 64-bit words in the parser,
  where an early year can wrap around.
\<close>

section \<open>Writing a date\<close>

record ngx_tm =
  tm_sec :: int
  tm_min :: int
  tm_hour :: int
  tm_mday :: int
  tm_mon :: int
  tm_year :: int
  tm_wday :: int

definition leap_year :: "int \<Rightarrow> int" where
  "leap_year year = (if year mod 4 = 0 \<and> (year mod 100 \<noteq> 0 \<or> year mod 400 = 0) then 1 else 0)"

text \<open>Days in the years before \<open>year\<close>, counted from March 1, 1 BC (Gauss' formula).\<close>

definition year_days :: "int \<Rightarrow> int" where
  "year_days year = 365 * year + year div 4 - year div 100 + year div 400"

text \<open>The year starting in March and the day in it, from the days since March 1, 1 BC.\<close>

definition gm_year_yday :: "int \<Rightarrow> int \<times> int" where
  "gm_year_yday days =
     (let year = (days + 2) * 400 div (365 * 400 + 100 - 4 + 1);
          yday = days - year_days year in
      if yday < 0 then (year - 1, 365 + leap_year year + yday) else (year, yday))"

definition ngx_gmtime :: "int \<Rightarrow> ngx_tm" where
  "ngx_gmtime t0 =
     (let t = (if t0 < 0 then 0 else t0);
          days0 = t div 86400; sec0 = t mod 86400;
          days = (if days0 > 2932896 then 2932896 else days0);
          sec = (if days0 > 2932896 then 86399 else sec0);
          wday = (4 + days) mod 7;
          hour = sec div 3600; sec1 = sec mod 3600;
          minute = sec1 div 60; sec2 = sec1 mod 60;
          (year, yday) = gm_year_yday (days - (31 + 28) + 719527);
          mon = (yday + 31) * 10 div 306;
          mday = yday - (367 * mon div 12 - 30) + 1 in
      \<lparr>tm_sec = sec2, tm_min = minute, tm_hour = hour, tm_mday = mday,
       tm_mon = (if yday \<ge> 306 then mon - 10 else mon + 2),
       tm_year = (if yday \<ge> 306 then year + 1 else year), tm_wday = wday\<rparr>)"

definition week :: "bytes list" where
  "week = [''Sun'', ''Mon'', ''Tue'', ''Wed'', ''Thu'', ''Fri'', ''Sat'']"

definition months :: "bytes list" where
  "months = [''Jan'', ''Feb'', ''Mar'', ''Apr'', ''May'', ''Jun'', ''Jul'', ''Aug'', ''Sep'', ''Oct'', ''Nov'', ''Dec'']"

text \<open>\<open>%02d\<close> and \<open>%4d\<close> of \<open>ngx_sprintf\<close>, for the numbers of a date, which are not negative.\<close>

definition sprintf_d :: "char \<Rightarrow> nat \<Rightarrow> int \<Rightarrow> bytes" where
  "sprintf_d zero width n = ngx_sprintf_num 20 (nat n) zero 0 width"

definition ngx_http_time :: "int \<Rightarrow> bytes" where
  "ngx_http_time t =
     (let tm = ngx_gmtime t in
      week ! nat (tm_wday tm) @ '', '' @ sprintf_d (CHR ''0'') 2 (tm_mday tm) @ '' '' @
      months ! nat (tm_mon tm - 1) @ '' '' @ sprintf_d SP 4 (tm_year tm) @ '' '' @
      sprintf_d (CHR ''0'') 2 (tm_hour tm) @ '':'' @ sprintf_d (CHR ''0'') 2 (tm_min tm) @ '':'' @
      sprintf_d (CHR ''0'') 2 (tm_sec tm) @ '' GMT'')"

section \<open>Reading a date\<close>

text \<open>
  The parser reads the buffer by pointers: \<open>buf ! p\<close> is \<open>*p\<close>, and \<open>len\<close> is \<open>end\<close>. The first loop:
  where the first comma or space is, and whether it is a space.
\<close>

fun time_scan :: "bytes \<Rightarrow> nat \<times> bool" where
  "time_scan [] = (0, False)"
| "time_scan (c # s) =
     (if c = CHR '','' then (0, False) else if c = SP then (0, True)
      else (case time_scan s of (k, isoc) \<Rightarrow> (Suc k, isoc)))"

definition digits2 :: "bytes \<Rightarrow> nat \<Rightarrow> nat option" where
  "digits2 buf p =
     (if digit (buf ! p) \<and> digit (buf ! (p + 1)) then Some (digit_val (buf ! p) * 10 + digit_val (buf ! (p + 1))) else None)"

definition digits4 :: "bytes \<Rightarrow> nat \<Rightarrow> nat option" where
  "digits4 buf p =
     (if digit (buf ! p) \<and> digit (buf ! (p + 1)) \<and> digit (buf ! (p + 2)) \<and> digit (buf ! (p + 3))
      then Some (digit_val (buf ! p) * 1000 + digit_val (buf ! (p + 1)) * 100 + digit_val (buf ! (p + 2)) * 10
                 + digit_val (buf ! (p + 3)))
      else None)"

definition time_month :: "bytes \<Rightarrow> nat \<Rightarrow> nat option" where
  "time_month buf p =
     (if buf ! p = CHR ''J'' then
        Some (if buf ! (p + 1) = CHR ''a'' then 0 else if buf ! (p + 2) = CHR ''n'' then 5 else 6)
      else if buf ! p = CHR ''F'' then Some 1
      else if buf ! p = CHR ''M'' then Some (if buf ! (p + 2) = CHR ''r'' then 2 else 4)
      else if buf ! p = CHR ''A'' then Some (if buf ! (p + 1) = CHR ''p'' then 3 else 7)
      else if buf ! p = CHR ''S'' then Some 8
      else if buf ! p = CHR ''O'' then Some 9
      else if buf ! p = CHR ''N'' then Some 10
      else if buf ! p = CHR ''D'' then Some 11
      else None)"

text \<open>\<open>SP hh:mm:ss\<close> from \<open>p\<close>.\<close>

definition time_hms :: "bytes \<Rightarrow> nat \<Rightarrow> (nat \<times> nat \<times> nat) option" where
  "time_hms buf p =
     (if buf ! p \<noteq> SP then None
      else (case digits2 buf (p + 1) of
              None \<Rightarrow> None
            | Some hour \<Rightarrow>
                if buf ! (p + 3) \<noteq> CHR '':'' then None
                else (case digits2 buf (p + 4) of
                        None \<Rightarrow> None
                      | Some minute \<Rightarrow>
                          if buf ! (p + 6) \<noteq> CHR '':'' then None
                          else map_option (\<lambda>sec. (hour, minute, sec)) (digits2 buf (p + 7)))))"

definition mday_tab :: "nat list" where
  "mday_tab = [31, 28, 31, 30, 31, 30, 31, 31, 30, 31, 30, 31]"

text \<open>The checks of the fields and Gauss' formula on \<open>uint64_t\<close>; \<open>year\<close> wraps below zero.\<close>

definition time_value :: "nat \<Rightarrow> nat \<Rightarrow> nat \<Rightarrow> nat \<times> nat \<times> nat \<Rightarrow> int" where
  "time_value day month year hms =
     (case hms of (hour, minute, sec) \<Rightarrow>
        if hour > 23 \<or> minute > 59 \<or> sec > 59 then NGX_ERROR
        else if (if day = 29 \<and> month = 1 then year mod 4 \<noteq> 0 \<or> (year mod 100 = 0 \<and> year mod 400 \<noteq> 0)
                 else day > mday_tab ! month) then NGX_ERROR
        else
          (let m = int month - 1;
               m' = (if m \<le> 0 then m + 12 else m);
               y = (if m \<le> 0 then of_nat year - 1 else of_nat year :: 64 word);
               time = (365 * y + y div 4 - y div 100 + y div 400 + word_of_int (367 * m' div 12) - 30
                       + of_nat day - 1 - 719527 + 31 + 28) * 86400
                      + of_nat hour * 3600 + of_nat minute * 60 + of_nat sec in
           sint (time :: 64 word)))"

definition time_rfc822 :: "bytes \<Rightarrow> nat \<Rightarrow> nat \<Rightarrow> int" where
  "time_rfc822 buf p day =
     (case time_month buf p of
        None \<Rightarrow> NGX_ERROR
      | Some month \<Rightarrow>
          if buf ! (p + 3) \<noteq> SP then NGX_ERROR
          else (case digits4 buf (p + 4) of
                  None \<Rightarrow> NGX_ERROR
                | Some year \<Rightarrow>
                    (case time_hms buf (p + 8) of None \<Rightarrow> NGX_ERROR | Some hms \<Rightarrow> time_value day month year hms)))"

definition time_rfc850 :: "bytes \<Rightarrow> nat \<Rightarrow> nat \<Rightarrow> int" where
  "time_rfc850 buf p day =
     (case time_month buf p of
        None \<Rightarrow> NGX_ERROR
      | Some month \<Rightarrow>
          if buf ! (p + 3) \<noteq> CHR ''-'' then NGX_ERROR
          else (case digits2 buf (p + 4) of
                  None \<Rightarrow> NGX_ERROR
                | Some yy \<Rightarrow>
                    (case time_hms buf (p + 6) of
                       None \<Rightarrow> NGX_ERROR
                     | Some hms \<Rightarrow> time_value day month (yy + (if yy < 70 then 2000 else 1900)) hms)))"

text \<open>The day of the \<open>asctime\<close> form, one or two digits after an optional space, and the next position.\<close>

definition isoc_day :: "bytes \<Rightarrow> nat \<Rightarrow> (nat \<times> nat) option" where
  "isoc_day buf p0 =
     (let p = (if buf ! p0 = SP then p0 + 1 else p0) in
      if \<not> digit (buf ! p) then None
      else if buf ! (p + 1) = SP then Some (digit_val (buf ! p), p + 1)
      else if \<not> digit (buf ! (p + 1)) then None
      else Some (digit_val (buf ! p) * 10 + digit_val (buf ! (p + 1)), p + 2))"

definition time_isoc :: "bytes \<Rightarrow> nat \<Rightarrow> nat \<Rightarrow> int" where
  "time_isoc buf len p =
     (case time_month buf p of
        None \<Rightarrow> NGX_ERROR
      | Some month \<Rightarrow>
          (case isoc_day buf (p + 4) of
             None \<Rightarrow> NGX_ERROR
           | Some (day, q) \<Rightarrow>
               if len < q + 14 then NGX_ERROR
               else (case time_hms buf q of
                       None \<Rightarrow> NGX_ERROR
                     | Some hms \<Rightarrow>
                         if buf ! (q + 9) \<noteq> SP then NGX_ERROR
                         else (case digits4 buf (q + 10) of
                                 None \<Rightarrow> NGX_ERROR
                               | Some year \<Rightarrow> time_value day month year hms))))"

definition ngx_parse_http_time :: "bytes \<Rightarrow> nat \<Rightarrow> int" where
  "ngx_parse_http_time buf len =
     (case time_scan (take len buf) of
        (k, isoc) \<Rightarrow>
          (let p = k + 1 + length (takeWhile (\<lambda>c. c = SP) (drop (k + 1) (take len buf))) in
           if len < p + 18 then NGX_ERROR
           else if isoc then time_isoc buf len p
           else (case digits2 buf p of
                   None \<Rightarrow> NGX_ERROR
                 | Some day \<Rightarrow>
                     if buf ! (p + 2) = SP then
                       (if len < p + 2 + 18 then NGX_ERROR else time_rfc822 buf (p + 3) day)
                     else if buf ! (p + 2) = CHR ''-'' then time_rfc850 buf (p + 3) day
                     else NGX_ERROR)))"

section \<open>The calendar\<close>

lemma leap_year_01: "leap_year y = 0 \<or> leap_year y = 1"
  by (simp add: leap_year_def)

lemma year_days_error:
  "\<exists>e. 400 * year_days y = 146097 * y + e \<and> - 591 \<le> e \<and> e \<le> 288"
proof -
  define q r where "q = y div 400" and "r = y mod 400"
  define c s where "c = r div 100" and "s = r mod 100"
  define u v where "u = s div 4" and "v = s mod 4"
  have y: "y = 400 * q + r" and r: "r = 100 * c + s" and s: "s = 4 * u + v"
    unfolding q_def r_def c_def s_def u_def v_def by (simp_all only: mult_div_mod_eq)
  have b1: "0 \<le> r" "r < 400" "0 \<le> s" "s < 100" "0 \<le> v" "v \<le> 3"
    unfolding r_def s_def v_def using pos_mod_bound [of 4 "r mod 100"] by (simp_all del: pos_mod_bound)
  then have b: "0 \<le> c" "c \<le> 3" "0 \<le> u" "u \<le> 24" using r s by linarith+
  have "y = 100 * (4 * q + c) + s" "y = 4 * (100 * q + 25 * c + u) + v" by (simp_all add: y r s)
  then have "y div 100 = 4 * q + c" "y div 4 = 100 * q + 25 * c + u"
    using b1 by (auto intro: int_div_pos_eq)
  then have "400 * year_days y = 146097 * y + (- 100 * c + 12 * u - 97 * v)"
    unfolding year_days_def q_def [symmetric] by (simp add: y r s)
  moreover have "- 591 \<le> - 100 * c + 12 * u - 97 * v" "- 100 * c + 12 * u - 97 * v \<le> 288" using b b1 by linarith+
  ultimately show ?thesis by blast
qed

lemma year_days_step: "year_days (y + 1) = year_days y + 365 + leap_year (y + 1)"
proof -
  have m: "(y + 1) mod 400 = 0 \<Longrightarrow> (y + 1) mod 100 = 0" "(y + 1) mod 100 = 0 \<Longrightarrow> (y + 1) mod 4 = 0"
    by (simp_all flip: dvd_eq_mod_eq_0) (rule dvd_trans [rotated], assumption, simp)+
  define x4 x100 x400 :: int where "x4 = (if (y + 1) mod 4 = 0 then 1 else 0)"
    and "x100 = (if (y + 1) mod 100 = 0 then 1 else 0)" and "x400 = (if (y + 1) mod 400 = 0 then 1 else 0)"
  have "(y + 1) div 4 = y div 4 + x4" "(y + 1) div 100 = y div 100 + x100" "(y + 1) div 400 = y div 400 + x400"
    unfolding x4_def x100_def x400_def by (rule int_div_step; simp)+
  then have "year_days (y + 1) = year_days y + 365 + (x4 - x100 + x400)"
    unfolding year_days_def distrib_left by linarith
  moreover have "x4 - x100 + x400 = leap_year (y + 1)"
  proof -
    have "(c \<longrightarrow> b) \<Longrightarrow> (b \<longrightarrow> a) \<Longrightarrow> (if a then 1 else 0) - (if b then 1 else 0) + (if c then 1 else 0 :: int) =
        (if a \<and> (\<not> b \<or> c) then 1 else 0)" for a b c by (cases a; cases b; cases c) simp_all
    from this [OF m(1) [THEN impI] m(2) [THEN impI]] show ?thesis unfolding x4_def x100_def x400_def leap_year_def .
  qed
  ultimately show ?thesis by linarith
qed

text \<open>The estimate of the year, corrected once, is the year the day lies in.\<close>

lemma gm_year_yday:
  assumes "gm_year_yday d = (y, yd)"
  shows "d = year_days y + yd \<and> 0 \<le> yd \<and> yd < 365 + leap_year (y + 1)"
proof -
  define est where "est = (d + 2) * 400 div 146097"
  have est: "146097 * est \<le> 400 * d + 800" "400 * d + 800 < 146097 * est + 146097"
    using int_div_bounds [of 146097 "(d + 2) * 400"] by (simp_all add: est_def algebra_simps)
  obtain e where e: "400 * year_days est = 146097 * est + e" "- 591 \<le> e" "e \<le> 288" using year_days_error by blast
  obtain e' where e': "400 * year_days (est + 1) = 146097 * est + 146097 + e'" "- 591 \<le> e'"
    using year_days_error [of "est + 1"] by auto
  have upper: "d < year_days (est + 1)" using est e' by linarith
  have lower: "year_days est \<le> d + 2" using est e by linarith
  have step: "year_days est = year_days (est - 1) + 365 + leap_year est" using year_days_step [of "est - 1"] by simp
  have "gm_year_yday d = (if d - year_days est < 0 then (est - 1, 365 + leap_year est + (d - year_days est))
      else (est, d - year_days est))"
    by (simp add: gm_year_yday_def est_def Let_def)
  then have out: "(y, yd) = (if d - year_days est < 0 then (est - 1, 365 + leap_year est + (d - year_days est))
      else (est, d - year_days est))" using assms by simp
  show ?thesis
  proof (cases "d - year_days est < 0")
    case True
    then have "y = est - 1" "yd = 365 + leap_year est + (d - year_days est)" using out by simp_all
    then show ?thesis using step lower True leap_year_01 [of est] by auto
  next
    case False
    then have "y = est" "yd = d - year_days est" using out by simp_all
    then show ?thesis using False upper year_days_step [of est] by simp
  qed
qed

text \<open>The lengths of the months from March on, and the days before them.\<close>

definition march_len :: "int \<Rightarrow> int \<Rightarrow> int" where
  "march_len leap m = (if m \<in> {2, 4, 7, 9} then 30 else if m = 12 then 28 + leap else 31)"

lemma month_of_yday:
  assumes "0 \<le> yd" "yd < 365 + leap" "leap = 0 \<or> leap = 1" "m = (yd + 31) * 10 div 306"
  shows "1 \<le> m \<and> m \<le> 12 \<and> (yd \<ge> 306 \<longleftrightarrow> m \<ge> 11) \<and>
     1 \<le> yd - (367 * m div 12 - 30) + 1 \<and> yd - (367 * m div 12 - 30) + 1 \<le> march_len leap m"
proof -
  have b: "306 * m \<le> (yd + 31) * 10" "(yd + 31) * 10 < 306 * m + 306"
    using int_div_bounds [of 306 "(yd + 31) * 10"] assms(4) by simp_all
  have "1 \<le> m" "m \<le> 12" using b assms(1-3) by auto
  then have "m = 1 \<or> m = 2 \<or> m = 3 \<or> m = 4 \<or> m = 5 \<or> m = 6 \<or> m = 7 \<or> m = 8 \<or> m = 9 \<or> m = 10 \<or> m = 11 \<or> m = 12"
    by presburger
  then show ?thesis using b assms(1-3) by (elim disjE) (auto simp: march_len_def)
qed

text \<open>
  A date, as the year and month of the calendar: the length of its month, and the days since
  January 1, 1970 by Gauss' formula with the year shifted to March 1.
\<close>

definition month_len :: "int \<Rightarrow> int \<Rightarrow> int" where
  "month_len y m = (if m = 2 then 28 + leap_year y else if m \<in> {4, 6, 9, 11} then 30 else 31)"

definition valid_date :: "int \<times> int \<times> int \<Rightarrow> bool" where
  "valid_date ymd = (case ymd of (y, m, d) \<Rightarrow> 1 \<le> m \<and> m \<le> 12 \<and> 1 \<le> d \<and> d \<le> month_len y m)"

definition date_days :: "int \<times> int \<times> int \<Rightarrow> int" where
  "date_days ymd =
     (case ymd of (y, m, d) \<Rightarrow>
        if m \<le> 2 then year_days (y - 1) + (367 * (m + 10) div 12 - 30) + d - 1 - 719527 + 31 + 28
        else year_days y + (367 * (m - 2) div 12 - 30) + d - 1 - 719527 + 31 + 28)"

definition tm_date :: "ngx_tm \<Rightarrow> int \<times> int \<times> int" where
  "tm_date tm = (tm_year tm, tm_mon tm, tm_mday tm)"

lemma gmtime_date:
  assumes "0 \<le> t" "t div 86400 \<le> 2932896"
  shows "valid_date (tm_date (ngx_gmtime t)) \<and> date_days (tm_date (ngx_gmtime t)) = t div 86400"
proof -
  let ?D = "t div 86400 - (31 + 28) + 719527"
  obtain y yd where g: "gm_year_yday ?D = (y, yd)" by fastforce
  note gd = gm_year_yday [OF g]
  define m where "m = (yd + 31) * 10 div 306"
  have leap: "leap_year (y + 1) = 0 \<or> leap_year (y + 1) = 1" by (rule leap_year_01)
  have mo: "1 \<le> m" "m \<le> 12" "yd \<ge> 306 \<longleftrightarrow> m \<ge> 11" "1 \<le> yd - (367 * m div 12 - 30) + 1"
    "yd - (367 * m div 12 - 30) + 1 \<le> march_len (leap_year (y + 1)) m"
    using month_of_yday [OF _ _ leap m_def] gd by auto
  have date: "tm_date (ngx_gmtime t) =
      (if m \<ge> 11 then (y + 1, m - 10, yd - (367 * m div 12 - 30) + 1) else (y, m + 2, yd - (367 * m div 12 - 30) + 1))"
    using assms g mo(3) by (simp add: ngx_gmtime_def tm_date_def m_def Let_def)
  show ?thesis
  proof (cases "m \<ge> 11")
    case True
    then have "m = 11 \<or> m = 12" using mo by linarith
    then show ?thesis using mo(4,5) gd by (elim disjE) (simp_all add: date valid_date_def date_days_def month_len_def march_len_def)
  next
    case False
    then have "m = 1 \<or> m = 2 \<or> m = 3 \<or> m = 4 \<or> m = 5 \<or> m = 6 \<or> m = 7 \<or> m = 8 \<or> m = 9 \<or> m = 10"
      using mo(1) by presburger
    then show ?thesis using mo(4,5) gd by (elim disjE) (simp_all add: date valid_date_def date_days_def month_len_def march_len_def)
  qed
qed

text \<open>The calendar by its rules: the date after a date.\<close>

definition next_day :: "int \<times> int \<times> int \<Rightarrow> int \<times> int \<times> int" where
  "next_day ymd =
     (case ymd of (y, m, d) \<Rightarrow>
        if d < month_len y m then (y, m, d + 1) else if m < 12 then (y, m + 1, 1) else (y + 1, 1, 1))"

lemma months_cases: "1 \<le> m \<Longrightarrow> m \<le> (12 :: int) \<Longrightarrow>
    m = 1 \<or> m = 2 \<or> m = 3 \<or> m = 4 \<or> m = 5 \<or> m = 6 \<or> m = 7 \<or> m = 8 \<or> m = 9 \<or> m = 10 \<or> m = 11 \<or> m = 12"
  by presburger

lemma next_day_days:
  assumes "valid_date ymd"
  shows "valid_date (next_day ymd) \<and> date_days (next_day ymd) = date_days ymd + 1"
proof -
  obtain y m d where ymd: "ymd = (y, m, d)" by (cases ymd)
  have m: "1 \<le> m" "m \<le> 12" and d: "1 \<le> d" "d \<le> month_len y m" using assms by (auto simp: ymd valid_date_def)
  have step: "year_days y = year_days (y - 1) + 365 + leap_year y" using year_days_step [of "y - 1"] by simp
  have leap: "leap_year y = 0 \<or> leap_year y = 1" by (rule leap_year_01)
  from months_cases [OF m] show ?thesis using d step leap
    by (elim disjE) (auto simp: ymd next_day_def date_days_def valid_date_def month_len_def)
qed

text \<open>Every valid date is a day of a year that starts in March.\<close>

lemma date_march:
  assumes "valid_date (y, m, d)"
  shows "\<exists>ys ms yd. ys = (if m \<le> 2 then y - 1 else y) \<and> ms = (if m \<le> 2 then m + 10 else m - 2) \<and>
     yd = 367 * ms div 12 - 30 + d - 1 \<and> date_days (y, m, d) = year_days ys + yd - 719468 \<and>
     0 \<le> yd \<and> yd < 365 + leap_year (ys + 1) \<and> ms = (yd + 31) * 10 div 306"
proof -
  have m: "1 \<le> m" "m \<le> 12" and d: "1 \<le> d" "d \<le> month_len y m" using assms by (auto simp: valid_date_def)
  have leap: "leap_year y = 0 \<or> leap_year y = 1" "leap_year (y + 1) = 0 \<or> leap_year (y + 1) = 1" by (rule leap_year_01)+
  have div: "ms = (yd + 31) * 10 div 306" if "306 * ms \<le> (yd + 31) * 10" "(yd + 31) * 10 < 306 * ms + 306" for ms yd :: int
    using int_div_pos_eq [of "(yd + 31) * 10" 306 ms "(yd + 31) * 10 - 306 * ms"] that by simp
  let ?ms = "if m \<le> 2 then m + 10 else m - 2" and ?ys = "if m \<le> 2 then y - 1 else y"
  let ?yd = "367 * ?ms div 12 - 30 + d - 1"
  have "0 \<le> ?yd \<and> ?yd < 365 + leap_year (?ys + 1) \<and> 306 * ?ms \<le> (?yd + 31) * 10 \<and> (?yd + 31) * 10 < 306 * ?ms + 306"
    using months_cases [OF m] d leap by (elim disjE) (simp_all add: month_len_def)
  moreover have "date_days (y, m, d) = year_days ?ys + ?yd - 719468" by (simp add: date_days_def)
  ultimately show ?thesis using div by blast
qed

lemma year_days_mono: "y \<le> z \<Longrightarrow> year_days y \<le> year_days z"
proof (induction z rule: int_ge_induct)
  case (step z)
  then show ?case using year_days_step [of z] leap_year_01 [of "z + 1"] by auto
qed simp

lemma date_days_inj:
  assumes "valid_date a" "valid_date b" "date_days a = date_days b"
  shows "a = b"
proof -
  obtain y m d y' m' d' where ab: "a = (y, m, d)" "b = (y', m', d')" by (cases a; cases b)
  obtain ys ms yd where 1: "ys = (if m \<le> 2 then y - 1 else y)" "ms = (if m \<le> 2 then m + 10 else m - 2)"
    "yd = 367 * ms div 12 - 30 + d - 1" "date_days (y, m, d) = year_days ys + yd - 719468"
    "0 \<le> yd" "yd < 365 + leap_year (ys + 1)" "ms = (yd + 31) * 10 div 306"
    using date_march assms(1) unfolding ab by blast
  obtain ys' ms' yd' where 2: "ys' = (if m' \<le> 2 then y' - 1 else y')" "ms' = (if m' \<le> 2 then m' + 10 else m' - 2)"
    "yd' = 367 * ms' div 12 - 30 + d' - 1" "date_days (y', m', d') = year_days ys' + yd' - 719468"
    "0 \<le> yd'" "yd' < 365 + leap_year (ys' + 1)" "ms' = (yd' + 31) * 10 div 306"
    using date_march assms(2) unfolding ab by blast
  have "year_days ys + yd = year_days ys' + yd'" using assms(3) 1(4) 2(4) unfolding ab by linarith
  moreover have "\<not> ys < ys'"
    using year_days_mono [of "ys + 1" ys'] year_days_step [of ys] 1(6) 2(5) calculation by fastforce
  moreover have "\<not> ys' < ys"
    using year_days_mono [of "ys' + 1" ys] year_days_step [of ys'] 2(6) 1(5) calculation(1) by fastforce
  ultimately have eq: "ys = ys'" "yd = yd'" by (linarith, simp add: linorder_neq_iff)
  then have "ms = ms'" using 1(7) 2(7) by simp
  moreover have "1 \<le> m" "m \<le> 12" "1 \<le> m'" "m' \<le> 12" using assms(1,2) by (auto simp: ab valid_date_def)
  ultimately have "m = m'" using 1(2) 2(2) by (auto split: if_splits)
  then show ?thesis using eq \<open>ms = ms'\<close> 1(1,3) 2(1,3) by (simp add: ab split: if_splits)
qed

lemma gmtime_clock:
  assumes "0 \<le> t" "t div 86400 \<le> 2932896"
  shows "t mod 86400 = tm_hour (ngx_gmtime t) * 3600 + tm_min (ngx_gmtime t) * 60 + tm_sec (ngx_gmtime t) \<and>
    0 \<le> tm_hour (ngx_gmtime t) \<and> tm_hour (ngx_gmtime t) \<le> 23 \<and> 0 \<le> tm_min (ngx_gmtime t) \<and> tm_min (ngx_gmtime t) \<le> 59 \<and>
    0 \<le> tm_sec (ngx_gmtime t) \<and> tm_sec (ngx_gmtime t) \<le> 59 \<and> tm_wday (ngx_gmtime t) = (4 + t div 86400) mod 7"
proof -
  obtain y yd where g: "gm_year_yday (t div 86400 - (31 + 28) + 719527) = (y, yd)" by fastforce
  let ?s = "t mod 86400"
  have f: "tm_hour (ngx_gmtime t) = ?s div 3600" "tm_min (ngx_gmtime t) = ?s mod 3600 div 60"
    "tm_sec (ngx_gmtime t) = ?s mod 3600 mod 60" "tm_wday (ngx_gmtime t) = (4 + t div 86400) mod 7"
    using assms g by (simp_all add: ngx_gmtime_def Let_def)
  have s: "0 \<le> ?s" "?s < 86400" by simp_all
  have "3600 * (?s div 3600) \<le> ?s" "?s < 3600 * (?s div 3600) + 3600" using int_div_bounds [of 3600 ?s] by simp_all
  moreover have "60 * (?s mod 3600 div 60) \<le> ?s mod 3600" using int_div_bounds [of 60 "?s mod 3600"] by simp
  moreover have "?s = 3600 * (?s div 3600) + ?s mod 3600" "?s mod 3600 = 60 * (?s mod 3600 div 60) + ?s mod 3600 mod 60"
    "0 \<le> ?s mod 3600" "?s mod 3600 < 3600" "0 \<le> ?s mod 3600 mod 60" "?s mod 3600 mod 60 < 60"
    by simp_all
  ultimately show ?thesis unfolding f using s by (intro conjI; linarith)
qed

text \<open>
  C16. \<open>ngx_gmtime\<close> computes the Gregorian calendar, up to the end of the year 9999: the first
  second of 1970 is January 1, 1970, a Thursday; 86400 seconds later the date is the next day of
  the calendar, with its month lengths and leap years; and the time of day is in range and adds
  up.
\<close>

theorem gmtime_calendar:
  assumes "0 \<le> t" "t < 253402214400"
  shows "tm_date (ngx_gmtime 0) = (1970, 1, 1) \<and> tm_wday (ngx_gmtime 0) = 4 \<and>
    tm_date (ngx_gmtime (t + 86400)) = next_day (tm_date (ngx_gmtime t)) \<and>
    t mod 86400 = tm_hour (ngx_gmtime t) * 3600 + tm_min (ngx_gmtime t) * 60 + tm_sec (ngx_gmtime t) \<and>
    tm_hour (ngx_gmtime t) \<in> {0..23} \<and> tm_min (ngx_gmtime t) \<in> {0..59} \<and> tm_sec (ngx_gmtime t) \<in> {0..59}"
proof -
  have days: "t div 86400 \<le> 2932895" "(t + 86400) div 86400 = t div 86400 + 1"
    using assms int_div_bounds [of 86400 t] by simp_all
  have "tm_date (ngx_gmtime (t + 86400)) = next_day (tm_date (ngx_gmtime t))"
  proof (rule date_days_inj)
    show "valid_date (tm_date (ngx_gmtime (t + 86400)))" using gmtime_date [of "t + 86400"] assms days by simp
    show "valid_date (next_day (tm_date (ngx_gmtime t)))" using gmtime_date [of t] next_day_days assms days by auto
    show "date_days (tm_date (ngx_gmtime (t + 86400))) = date_days (next_day (tm_date (ngx_gmtime t)))"
      using gmtime_date [of "t + 86400"] gmtime_date [of t] next_day_days assms days by auto
  qed
  moreover have "tm_date (ngx_gmtime 0) = (1970, 1, 1)" "tm_wday (ngx_gmtime 0) = 4"
    by (simp_all add: ngx_gmtime_def gm_year_yday_def year_days_def tm_date_def Let_def)
  ultimately show ?thesis using gmtime_clock [of t] assms days by auto
qed

theorem gmtime_calendar_witness:
  "tm_date (ngx_gmtime (951782400 + 86400)) = (2000, 3, 1)"
proof -
  have "tm_date (ngx_gmtime 951782400) = (2000, 2, 29)"
    by (simp add: ngx_gmtime_def gm_year_yday_def year_days_def tm_date_def leap_year_def Let_def)
  moreover have "next_day (2000, 2, 29) = (2000, 3, 1)" by (simp add: next_day_def month_len_def leap_year_def)
  moreover have "tm_date (ngx_gmtime (951782400 + 86400)) = next_day (tm_date (ngx_gmtime 951782400))"
    using gmtime_calendar [of 951782400] by linarith
  ultimately show ?thesis by (simp only:)
qed

section \<open>Dates survive the trip through a header\<close>

lemma time_value_date:
  assumes v: "valid_date (y, m, d)" and y: "1 \<le> y" "y \<le> 9999"
    and hms: "0 \<le> h" "h \<le> 23" "0 \<le> mi" "mi \<le> 59" "0 \<le> sec" "sec \<le> 59"
  shows "time_value (nat d) (nat (m - 1)) (nat y) (nat h, nat mi, nat sec) = date_days (y, m, d) * 86400 + h * 3600 + mi * 60 + sec"
proof -
  let ?ys = "if m \<le> 2 then y - 1 else y" and ?ms = "if m \<le> 2 then m + 10 else m - 2"
  have m: "1 \<le> m" "m \<le> 12" and d: "1 \<le> d" "d \<le> month_len y m" using v by (auto simp: valid_date_def)
  have fields: "int (nat d) = d" "int (nat (m - 1)) = m - 1" "int (nat y) = y" "int (nat h) = h" "int (nat mi) = mi" "int (nat sec) = sec"
    using m d y hms by simp_all
  have leap: "leap_year y = 1 \<Longrightarrow> \<not> (nat y mod 4 \<noteq> 0 \<or> (nat y mod 100 = 0 \<and> nat y mod 400 \<noteq> 0))"
  proof -
    have nm: "nat y mod 4 = nat (y mod 4)" "nat y mod 100 = nat (y mod 100)" "nat y mod 400 = nat (y mod 400)"
      using y by (simp_all add: nat_mod_distrib)
    have "0 \<le> y mod 100" by simp
    moreover assume "leap_year y = 1"
    ultimately show ?thesis unfolding nm leap_year_def by (smt (verit) nat_0_iff)
  qed
  have ok: "\<not> (if nat d = 29 \<and> nat (m - 1) = 1 then nat y mod 4 \<noteq> 0 \<or> (nat y mod 100 = 0 \<and> nat y mod 400 \<noteq> 0)
      else nat d > mday_tab ! nat (m - 1))"
  proof (cases "m = 2")
    case True
    then show ?thesis using d leap leap_year_01 [of y] by (auto simp: month_len_def mday_tab_def)
  next
    case False
    then show ?thesis using d months_cases [OF m] by (elim disjE) (simp_all add: month_len_def mday_tab_def)
  qed
  have ys: "0 \<le> ?ys" "?ys < 2 ^ 64" using y by auto
  let ?y = "of_int ?ys :: 64 word"
  have word: "?y div 4 = of_int (?ys div 4)" "?y div 100 = of_int (?ys div 100)" "?y div 400 = of_int (?ys div 400)"
    using word_div_small [OF ys] by simp_all
  let ?D = "year_days ?ys + (367 * ?ms div 12 - 30) + d - 1 - 719527 + 31 + 28"
  let ?e = "?D * 86400 + h * 3600 + mi * 60 + sec"
  have days: "date_days (y, m, d) = ?D" by (simp add: date_days_def)
  obtain e where e: "400 * year_days ?ys = 146097 * ?ys + e" "- 591 \<le> e" "e \<le> 288" using year_days_error by blast
  have ysb: "0 \<le> ?ys" "?ys \<le> 9999" using y by auto
  have "- 2 \<le> year_days ?ys" "year_days ?ys \<le> 4000000" using e ysb by linarith+
  moreover have "0 \<le> 367 * ?ms div 12" "367 * ?ms div 12 \<le> 367" using m by auto
  moreover have "d \<le> 31" using d leap_year_01 [of y] by (auto simp: month_len_def split: if_splits)
  ultimately have "- 1000000 \<le> ?D" "?D \<le> 5000000" using d by linarith+
  moreover have "- (2 ^ 63) \<le> D * 86400 + h * 3600 + mi * 60 + sec \<and> D * 86400 + h * 3600 + mi * 60 + sec < 2 ^ 63"
    if "- 1000000 \<le> D" "D \<le> 5000000" for D using that hms by simp
  ultimately have small: "- (2 ^ 63) \<le> ?e" "?e < 2 ^ 63" by blast+
  have y_word: "(if int (nat (m - 1)) - 1 \<le> 0 then of_nat (nat y) - 1 else of_nat (nat y) :: 64 word) = ?y"
    using fields m y by (simp add: of_nat_nat)
  have m_int: "(if int (nat (m - 1)) - 1 \<le> 0 then int (nat (m - 1)) - 1 + 12 else int (nat (m - 1)) - 1) = ?ms"
    using fields m by simp
  have nats: "of_nat (nat d) = (of_int d :: 64 word)" "of_nat (nat h) = (of_int h :: 64 word)"
    "of_nat (nat mi) = (of_int mi :: 64 word)" "of_nat (nat sec) = (of_int sec :: 64 word)"
    using d hms by (simp_all add: of_nat_nat)
  have "(365 * ?y + ?y div 4 - ?y div 100 + ?y div 400 + of_int (367 * ?ms div 12) - 30 + of_int d - 1 - 719527 + 31 + 28)
      * 86400 + of_int h * 3600 + of_int mi * 60 + of_int sec = (of_int ?e :: 64 word)"
    unfolding word year_days_def by simp
  moreover have "\<not> (nat h > 23 \<or> nat mi > 59 \<or> nat sec > 59)" using hms by auto
  ultimately have "time_value (nat d) (nat (m - 1)) (nat y) (nat h, nat mi, nat sec) = sint (of_int ?e :: 64 word)"
    unfolding time_value_def Let_def prod.case using ok by (simp only: y_word m_int nats if_False)
  then show ?thesis using sint_small [OF small] days by (simp only:)
qed

lemma digits2_of:
  assumes "n < 100" "buf ! p = chr (n div 10 + 48)" "buf ! (p + 1) = chr (n mod 10 + 48)"
  shows "digits2 buf p = Some n"
  using digit_of_val [of "n div 10"] digit_of_val [of "n mod 10"] assms by (simp add: digits2_def)

lemma digits4_of:
  assumes "n < 10000" "buf ! p = chr (n div 1000 + 48)" "buf ! (p + 1) = chr (n div 100 mod 10 + 48)"
    "buf ! (p + 2) = chr (n div 10 mod 10 + 48)" "buf ! (p + 3) = chr (n mod 10 + 48)"
  shows "digits4 buf p = Some n"
proof -
  have "n div 1000 < 10" using assms(1) by simp
  moreover have "n div 1000 * 1000 + n div 100 mod 10 * 100 + n div 10 mod 10 * 10 + n mod 10 = n"
    using mult_div_mod_eq [of 10 n] mult_div_mod_eq [of 10 "n div 10"] mult_div_mod_eq [of 10 "n div 100"]
      div_mult2_eq [of n 10 10, simplified] div_mult2_eq [of n 100 10, simplified] by linarith
  ultimately show ?thesis
    using digit_of_val [of "n div 1000"] digit_of_val [of "n div 100 mod 10"] digit_of_val [of "n div 10 mod 10"]
      digit_of_val [of "n mod 10"] assms(2-5) by (simp add: digits4_def)
qed

lemma sprintf_02:
  assumes "0 \<le> n" "n < 100"
  shows "sprintf_d (CHR ''0'') 2 n = [chr (nat n div 10 + 48), chr (nat n mod 10 + 48)]"
proof -
  have "num_dec (nat n) [] = (if nat n < 10 then [chr (nat n mod 10 + 48)] else [chr (nat n div 10 + 48), chr (nat n mod 10 + 48)])"
    using assms num_dec_snoc [of "nat n"] num_dec_snoc [of "nat n div 10"] by (auto simp: div_eq_0_iff)
  moreover have "chr 48 = CHR ''0''" using char_of_char [of "CHR ''0''"] by simp
  ultimately show ?thesis using assms
    by (auto simp: sprintf_d_def ngx_sprintf_num_def num_digits_dec Let_def numeral_2_eq_2)
qed

lemma sprintf_4:
  assumes "1000 \<le> n" "n < 10000"
  shows "sprintf_d SP 4 n = [chr (nat n div 1000 + 48), chr (nat n div 100 mod 10 + 48), chr (nat n div 10 mod 10 + 48), chr (nat n mod 10 + 48)]"
proof -
  let ?n = "nat n"
  have n: "1000 \<le> ?n" "?n < 10000" using assms by linarith+
  have d: "?n div 10 div 10 = ?n div 100" "?n div 100 div 10 = ?n div 1000" "?n div 1000 div 10 = 0"
    using div_mult2_eq [of ?n 10 10] div_mult2_eq [of ?n 100 10] div_mult2_eq [of ?n 1000 10] n(2) by simp_all
  have "1000 div 1000 \<le> ?n div 1000" "1000 div 100 \<le> ?n div 100" "1000 div 10 \<le> ?n div 10"
    using n(1) by (auto intro: div_le_mono)
  then have nz: "(?n div 10 = 0) = False" "(?n div 100 = 0) = False" "(?n div 1000 = 0) = False" by simp_all
  have top: "?n div 1000 mod 10 = ?n div 1000" using n(2) by simp
  have "num_dec (?n div 1000) [] = [chr (?n div 1000 + 48)]"
    using num_dec_snoc [of "?n div 1000"] unfolding d top by simp
  then have "num_dec (?n div 100) [] = [chr (?n div 1000 + 48), chr (?n div 100 mod 10 + 48)]"
    using num_dec_snoc [of "?n div 100"] unfolding d nz by simp
  then have "num_dec (?n div 10) [] = [chr (?n div 1000 + 48), chr (?n div 100 mod 10 + 48), chr (?n div 10 mod 10 + 48)]"
    using num_dec_snoc [of "?n div 10"] unfolding d nz by simp
  then have "num_dec ?n [] = [chr (?n div 1000 + 48), chr (?n div 100 mod 10 + 48), chr (?n div 10 mod 10 + 48), chr (?n mod 10 + 48)]"
    using num_dec_snoc [of ?n] unfolding nz by simp
  then show ?thesis by (simp add: sprintf_d_def ngx_sprintf_num_def num_digits_dec Let_def)
qed

lemma time_month_of: "i < 12 \<Longrightarrow> \<exists>a b c. months ! i = [a, b, c] \<and> (\<forall>buf p. buf ! p = a \<and> buf ! (p + 1) = b \<and>
    buf ! (p + 2) = c \<longrightarrow> time_month buf p = Some i)"
proof -
  assume "i < 12"
  then have "i \<in> {0, 1, 2, 3, 4, 5, 6, 7, 8, 9, 10, 11}" unfolding insert_iff empty_iff by arith
  then show ?thesis unfolding months_def time_month_def by (elim insertE emptyE) simp_all
qed

lemma week_of: "i < 7 \<Longrightarrow> \<exists>a b c. week ! i = [a, b, c] \<and> a \<notin> {CHR '','', SP} \<and> b \<notin> {CHR '','', SP} \<and> c \<notin> {CHR '','', SP}"
proof -
  assume "i < 7"
  then have "i \<in> {0, 1, 2, 3, 4, 5, 6}" unfolding insert_iff empty_iff by arith
  then show ?thesis unfolding week_def by (elim insertE emptyE) simp_all
qed

lemma parse_rfc822_text:
  assumes buf: "buf = w0 # w1 # w2 # CHR '','' # SP # d1 # d2 # SP # m0 # m1 # m2 # SP # y1 # y2 # y3 # y4 # SP #
      h1 # h2 # CHR '':'' # i1 # i2 # CHR '':'' # s1 # s2 # rest"
    and w: "{w0, w1, w2} \<inter> {CHR '','', SP} = {}" and d1: "d1 \<noteq> SP" and len: "25 \<le> len"
    and d: "digits2 buf 5 = Some day" and m: "time_month buf 8 = Some month" and y: "digits4 buf 12 = Some year"
    and h: "digits2 buf 17 = Some hour" and i: "digits2 buf 20 = Some minute" and s: "digits2 buf 23 = Some sec"
  shows "ngx_parse_http_time buf len = time_value day month year (hour, minute, sec)"
proof -
  obtain k where k: "len = 25 + k" using len le_Suc_ex by blast
  have take: "take len buf = w0 # w1 # w2 # CHR '','' # SP # d1 # d2 # SP # m0 # m1 # m2 # SP # y1 # y2 # y3 # y4 # SP #
      h1 # h2 # CHR '':'' # i1 # i2 # CHR '':'' # s1 # s2 # take k rest"
    unfolding buf k by (simp add: numeral_eq_Suc)
  have scan: "time_scan (take len buf) = (3, False)" using w by (auto simp: take)
  have spaces: "takeWhile (\<lambda>c. c = SP) (drop (3 + 1) (take len buf)) = [SP]" using d1 by (simp add: take)
  have at: "buf ! 7 = SP" "buf ! 11 = SP" "buf ! 16 = SP" "buf ! 19 = CHR '':''" "buf ! 22 = CHR '':''"
    unfolding buf by simp_all
  have hms: "time_hms buf 16 = Some (hour, minute, sec)" using at h i s by (simp add: time_hms_def)
  have "time_rfc822 buf 8 day = time_value day month year (hour, minute, sec)"
    using m at y hms by (simp add: time_rfc822_def)
  then show ?thesis
    unfolding ngx_parse_http_time_def scan spaces prod.case Let_def using d at len by simp
qed

lemma date_year_range:
  assumes "valid_date (y, m, d)" "0 \<le> date_days (y, m, d)" "date_days (y, m, d) \<le> 2932896"
  shows "1970 \<le> y \<and> y \<le> 9999"
proof -
  obtain ys ms yd where 1: "ys = (if m \<le> 2 then y - 1 else y)" "ms = (if m \<le> 2 then m + 10 else m - 2)"
    "yd = 367 * ms div 12 - 30 + d - 1" "date_days (y, m, d) = year_days ys + yd - 719468"
    "0 \<le> yd" "yd < 365 + leap_year (ys + 1)"
    using date_march [OF assms(1)] by blast
  have m: "1 \<le> m" "m \<le> 12" "1 \<le> d" "d \<le> month_len y m" using assms(1) by (auto simp: valid_date_def)
  have late: "m \<le> 2 \<Longrightarrow> 306 \<le> yd" "\<not> m \<le> 2 \<Longrightarrow> yd < 306"
    using months_cases [OF m(1,2)] m(3,4) unfolding 1(2,3) by (elim disjE; simp add: month_len_def)+
  have c: "year_days 1969 = 719162" "year_days 9999 = 3652059" by (simp_all add: year_days_def)
  have "\<not> y < 1970"
  proof
    assume y: "y < 1970"
    show False
    proof (cases "m \<le> 2")
      case True
      then have "year_days (ys + 1) \<le> year_days 1969" using y 1(1) by (intro year_days_mono) simp
      then show False using assms(2) 1(4,6) year_days_step [of ys] c by linarith
    next
      case False
      then have "year_days ys \<le> year_days 1969" using y 1(1) by (intro year_days_mono) simp
      then show False using assms(2) 1(4) late(2) [OF False] c by linarith
    qed
  qed
  moreover have "\<not> y > 9999"
  proof
    assume y: "y > 9999"
    show False
    proof (cases "m \<le> 2")
      case True
      then have "year_days 9999 \<le> year_days ys" using y 1(1) by (intro year_days_mono) simp
      then show False using assms(3) 1(4) late(1) [OF True] c by linarith
    next
      case False
      then have "year_days (9999 + 1) \<le> year_days ys" using y 1(1) by (intro year_days_mono) simp
      then show False using assms(3) 1(4,5) year_days_step [of 9999] leap_year_01 [of "9999 + 1"] c by linarith
    qed
  qed
  ultimately show ?thesis by linarith
qed

text \<open>
  C17. What \<open>ngx_http_time\<close> writes for any second of the years 1970 to 9999,
  \<open>ngx_parse_http_time\<close> reads back as that second, whatever bytes follow the date.
\<close>

theorem http_time_roundtrip:
  assumes "0 \<le> t" "t < 253402300800"
  shows "length (ngx_http_time t) = 29 \<and> ngx_parse_http_time (ngx_http_time t @ junk) 29 = t"
proof -
  let ?tm = "ngx_gmtime t"
  have days: "t div 86400 \<le> 2932896" using assms int_div_bounds [of 86400 t] by simp
  note clock = gmtime_clock [OF assms(1) days] and date = gmtime_date [OF assms(1) days]
  obtain y m d where ymd: "tm_year ?tm = y" "tm_mon ?tm = m" "tm_mday ?tm = d" by blast
  have v: "valid_date (y, m, d)" "date_days (y, m, d) = t div 86400" using date by (simp_all add: tm_date_def ymd)
  have md: "1 \<le> m" "m \<le> 12" "1 \<le> d" "d \<le> 31"
    using v(1) leap_year_01 [of y] by (auto simp: valid_date_def month_len_def split: if_splits)
  have "0 \<le> t div 86400" using assms(1) by simp
  then have y: "1970 \<le> y" "y \<le> 9999" using date_year_range [OF v(1)] v(2) days by auto
  obtain w0 w1 w2 where w: "week ! nat (tm_wday ?tm) = [w0, w1, w2]" "{w0, w1, w2} \<inter> {CHR '','', SP} = {}"
  proof -
    have "0 \<le> tm_wday ?tm" "tm_wday ?tm < 7" using clock by simp_all
    then have "nat (tm_wday ?tm) < 7" by simp
    from week_of [OF this] show ?thesis using that by blast
  qed
  let ?h = "nat (tm_hour ?tm)" and ?i = "nat (tm_min ?tm)" and ?s = "nat (tm_sec ?tm)" and ?d = "nat d" and ?y = "nat y"
  have hms: "0 \<le> tm_hour ?tm" "tm_hour ?tm \<le> 23" "0 \<le> tm_min ?tm" "tm_min ?tm \<le> 59" "0 \<le> tm_sec ?tm" "tm_sec ?tm \<le> 59"
    and secs: "t mod 86400 = tm_hour ?tm * 3600 + tm_min ?tm * 60 + tm_sec ?tm"
    using clock by blast+
  have "nat (m - 1) < 12" using md by simp
  then obtain m0 m1 m2 where mo: "months ! nat (m - 1) = [m0, m1, m2]"
    "\<And>buf p. buf ! p = m0 \<and> buf ! (p + 1) = m1 \<and> buf ! (p + 2) = m2 \<Longrightarrow> time_month buf p = Some (nat (m - 1))"
    using time_month_of by blast
  let ?two = "\<lambda>n. [chr (n div 10 + 48), chr (n mod 10 + 48)]"
  have http: "ngx_http_time t = [w0, w1, w2] @ '', '' @ ?two ?d @ '' '' @ [m0, m1, m2] @ '' '' @
      [chr (?y div 1000 + 48), chr (?y div 100 mod 10 + 48), chr (?y div 10 mod 10 + 48), chr (?y mod 10 + 48)] @ '' '' @
      ?two ?h @ '':'' @ ?two ?i @ '':'' @ ?two ?s @ '' GMT''"
    using hms md y by (simp add: ngx_http_time_def ymd w mo(1) sprintf_02 sprintf_4 Let_def)
  let ?buf = "ngx_http_time t @ junk"
  have buf: "?buf = w0 # w1 # w2 # CHR '','' # SP # chr (?d div 10 + 48) # chr (?d mod 10 + 48) # SP # m0 # m1 # m2 # SP #
      chr (?y div 1000 + 48) # chr (?y div 100 mod 10 + 48) # chr (?y div 10 mod 10 + 48) # chr (?y mod 10 + 48) # SP #
      chr (?h div 10 + 48) # chr (?h mod 10 + 48) # CHR '':'' # chr (?i div 10 + 48) # chr (?i mod 10 + 48) # CHR '':'' #
      chr (?s div 10 + 48) # chr (?s mod 10 + 48) # '' GMT'' @ junk"
    unfolding http by simp
  have lim: "?d < 100" "?y < 10000" "?h < 100" "?i < 100" "?s < 100" using md y hms by auto
  have read: "digits2 ?buf 5 = Some ?d" "time_month ?buf 8 = Some (nat (m - 1))" "digits4 ?buf 12 = Some ?y"
    "digits2 ?buf 17 = Some ?h" "digits2 ?buf 20 = Some ?i" "digits2 ?buf 23 = Some ?s"
    unfolding buf using lim by (auto intro!: digits2_of digits4_of mo(2))
  have "digit (chr (?d div 10 + 48))" using digit_of_val [of "?d div 10"] lim by auto
  moreover have "\<not> digit SP" by (simp add: digit_def less_eq_char_def)
  ultimately have "chr (?d div 10 + 48) \<noteq> SP" by metis
  from parse_rfc822_text [OF buf w(2) this _ read] have "ngx_parse_http_time ?buf 29 = time_value ?d (nat (m - 1)) ?y (?h, ?i, ?s)"
    by simp
  also have "\<dots> = t"
    using time_value_date [OF v(1) _ _ hms] y v(2) secs mult_div_mod_eq [of 86400 t] by linarith
  finally show ?thesis by (simp add: http)
qed

theorem http_time_roundtrip_witness:
  "ngx_parse_http_time (ngx_http_time 784111777 @ '';'') 29 = 784111777"
  using http_time_roundtrip [of 784111777 "'';''"] by simp

section \<open>The parser stays inside the date\<close>

definition same_upto :: "nat \<Rightarrow> bytes \<Rightarrow> bytes \<Rightarrow> bool" where
  "same_upto n a b \<longleftrightarrow> (\<forall>i < n. a ! i = b ! i)"

lemma same_reads:
  assumes "same_upto n a b"
  shows "p < n \<Longrightarrow> a ! p = b ! p"
    and "p + 1 < n \<Longrightarrow> digits2 a p = digits2 b p" and "p + 3 < n \<Longrightarrow> digits4 a p = digits4 b p"
    and "p + 2 < n \<Longrightarrow> time_month a p = time_month b p" and "p + 2 < n \<Longrightarrow> isoc_day a p = isoc_day b p"
    and "p + 8 < n \<Longrightarrow> time_hms a p = time_hms b p"
  using assms
  by (auto simp: same_upto_def digits2_def digits4_def time_month_def isoc_day_def time_hms_def Let_def
      intro!: option.case_cong)

lemma isoc_day_pos: "isoc_day buf p = Some (d, q) \<Longrightarrow> q \<le> p + 3"
  by (auto simp: isoc_day_def Let_def split: if_splits)

text \<open>
  \<open>ngx_parse_http_time\<close> reads no byte at or past \<open>value + len\<close>: its answer, on any input of any
  of the three formats, is the same whatever follows the value in memory.
\<close>

theorem parse_http_time_in_bounds:
  "ngx_parse_http_time (v @ junk) (length v) = ngx_parse_http_time (v @ junk') (length v)"
proof -
  let ?a = "v @ junk" and ?b = "v @ junk'" and ?n = "length v"
  have same: "same_upto ?n ?a ?b" by (simp add: same_upto_def nth_append)
  note reads = same_reads [OF same]
  have r822: "time_rfc822 ?a p day = time_rfc822 ?b p day" if "p + 17 \<le> ?n" for p day
    unfolding time_rfc822_def using that by (auto simp: reads split: option.split)
  have r850: "time_rfc850 ?a p day = time_rfc850 ?b p day" if "p + 15 \<le> ?n" for p day
    unfolding time_rfc850_def using that by (auto simp: reads split: option.split)
  have isoc: "time_isoc ?a ?n p = time_isoc ?b ?n p" if "p + 18 \<le> ?n" for p
    unfolding time_isoc_def using that by (auto simp: reads split: option.split)
  show ?thesis
    unfolding ngx_parse_http_time_def Let_def
    by (auto simp: reads r822 r850 isoc not_less split: prod.split option.split)
qed

end
