(* ===== verification/Http_Range.thy ===== *)
theory Http_Range
  imports Http_Args Ngx_Times
begin

text \<open>
  Byte ranges, \<open>nginx-master/src/http/modules/ngx_http_range_filter_module.c\<close>: the header filter
  with its conditions, the parser of the \<open>Range\<close> header, the single-part and multipart headers, and
  the body filters that cut the response to the ranges. A buffer is its bytes with its flags: the
  code moves \<open>pos\<close> and \<open>file_pos\<close> of a buffer together, so one list of bytes stands for both.
  Header values are zero-terminated strings. \<open>off_t\<close> values are integers; the parser's overflow
  checks are in the model.
\<close>

section \<open>Parsing the header\<close>

abbreviation NGX_HTTP_RANGE_NOT_SATISFIABLE :: ngx_int where "NGX_HTTP_RANGE_NOT_SATISFIABLE \<equiv> 416"

text \<open>\<open>NGX_MAX_OFF_T_VALUE\<close>.\<close>

definition max_off_t :: int where
  "max_off_t = 9223372036854775807"

type_synonym http_range = "int \<times> int"

text \<open>The loop over the digits of a number: \<open>None\<close> when it would overflow.\<close>

fun range_number :: "int \<Rightarrow> bytes \<Rightarrow> (int \<times> bytes) option" where
  "range_number n [] = Some (n, [])"
| "range_number n (c # s) =
     (if digit c then
        (let cutoff = max_off_t div 10; cutlim = max_off_t mod 10 in
         if n \<ge> cutoff \<and> (n > cutoff \<or> int (digit_val c) > cutlim) then None
         else range_number (n * 10 + int (digit_val c)) s)
      else Some (n, c # s))"

definition range_end :: "int \<Rightarrow> bool \<Rightarrow> int \<Rightarrow> bytes \<Rightarrow> (int \<times> int \<times> bytes) option" where
  "range_end content_length suffix start s =
     (if \<not> digit (deref s) then None
      else (case range_number 0 s of
              None \<Rightarrow> None
            | Some (e, s1) \<Rightarrow>
                (let p = skip_spaces s1 in
                 if deref p \<noteq> CHR '','' \<and> deref p \<noteq> NUL then None
                 else
                   (let start' = (if suffix then (if e < content_length then content_length - e else 0) else start);
                        e' = (if suffix then content_length - 1 else e) in
                    Some (start', if e' \<ge> content_length then content_length else e' + 1, p)))))"

text \<open>One range: its start and end, and \<open>p\<close> behind it; \<open>None\<close> is \<open>NGX_HTTP_RANGE_NOT_SATISFIABLE\<close>.\<close>

definition range_spec :: "int \<Rightarrow> bytes \<Rightarrow> (int \<times> int \<times> bytes) option" where
  "range_spec content_length s0 =
     (let s = skip_spaces s0 in
      if deref s \<noteq> CHR ''-'' then
        (if \<not> digit (deref s) then None
         else (case range_number 0 s of
                 None \<Rightarrow> None
               | Some (start, s1) \<Rightarrow>
                   (let s2 = skip_spaces s1 in
                    if deref s2 \<noteq> CHR ''-'' then None
                    else
                      (let s3 = skip_spaces (tl s2) in
                       if deref s3 = CHR '','' \<or> deref s3 = NUL then Some (start, content_length, s3)
                       else range_end content_length False start s3))))
      else range_end content_length True 0 (tl s))"

lemma range_number_length: "range_number n s = Some (e, s') \<Longrightarrow> length s' \<le> length s"
  by (induction s arbitrary: n) (auto simp: Let_def split: if_splits intro: le_SucI)

lemma range_end_length: "range_end cl suf st s = Some (a, b, s') \<Longrightarrow> length s' \<le> length s"
  using length_skip_spaces range_number_length
  by (fastforce simp: range_end_def Let_def split: if_splits option.splits intro: order_trans)

lemma range_spec_length: "range_spec cl s = Some (a, b, s') \<Longrightarrow> length s' \<le> length s"
proof -
  assume r: "range_spec cl s = Some (a, b, s')"
  let ?s = "skip_spaces s"
  have l0: "length ?s \<le> length s" by (rule length_skip_spaces)
  show ?thesis
  proof (cases "deref ?s = CHR ''-''")
    case True
    then show ?thesis using r l0 range_end_length [of cl True 0 "tl ?s" a b s']
      by (simp add: range_spec_def Let_def)
  next
    case False
    then obtain st s1 where n: "range_number 0 ?s = Some (st, s1)"
      and rest: "skip_spaces (tl (skip_spaces s1)) = s' \<or> range_end cl False st (skip_spaces (tl (skip_spaces s1))) = Some (a, b, s')"
      using r by (auto simp: range_spec_def Let_def split: if_splits option.splits)
    have "length (skip_spaces (tl (skip_spaces s1))) \<le> length s1"
      using length_skip_spaces [of "tl (skip_spaces s1)"] length_skip_spaces [of s1] by simp
    moreover have "length s1 \<le> length ?s" by (rule range_number_length [OF n])
    ultimately show ?thesis using rest l0 range_end_length [of cl False st] by fastforce
  qed
qed

text \<open>
  The loop over the ranges: \<open>ranges\<close> counts down, \<open>size\<close> adds up, \<open>acc\<close> is \<open>ctx->ranges\<close>. \<open>pool\<close> is
  whether \<open>ngx_array_push\<close> succeeds.
\<close>

definition range_finish :: "int \<Rightarrow> int \<Rightarrow> http_range list \<Rightarrow> ngx_int \<times> http_range list" where
  "range_finish content_length sz acc =
     (if acc = [] then (NGX_HTTP_RANGE_NOT_SATISFIABLE, acc)
      else if sz > content_length then (NGX_DECLINED, acc)
      else (NGX_OK, acc))"

function range_loop :: "bool \<Rightarrow> int \<Rightarrow> nat \<Rightarrow> int \<Rightarrow> http_range list \<Rightarrow> bytes \<Rightarrow> ngx_int \<times> http_range list" where
  "range_loop pool content_length ranges sz acc s =
     (case range_spec content_length s of
        None \<Rightarrow> (NGX_HTTP_RANGE_NOT_SATISFIABLE, acc)
      | Some (start, e, p) \<Rightarrow>
          if start < e then
            (if \<not> pool then (NGX_ERROR, acc)
             else if sz > max_off_t - (e - start) then (NGX_HTTP_RANGE_NOT_SATISFIABLE, acc @ [(start, e)])
             else if ranges = 0 then (NGX_DECLINED, acc @ [(start, e)])
             else if deref p = CHR '','' then
               range_loop pool content_length (ranges - 1) (sz + (e - start)) (acc @ [(start, e)]) (tl p)
             else range_finish content_length (sz + (e - start)) (acc @ [(start, e)]))
          else if start = 0 then (NGX_DECLINED, acc)
          else if deref p = CHR '','' then range_loop pool content_length ranges sz acc (tl p)
          else range_finish content_length sz acc)"
  by pat_completeness auto
termination
proof (relation "measure (\<lambda>(pool, cl, ranges, sz, acc, s). length s)", goal_cases)
  case 1
  show ?case by simp
next
  case (2 pool cl ranges sz acc s x start y e p)
  then have "length p \<le> length s" "p \<noteq> []" using range_spec_length by (auto dest: sym)
  then show ?case by (cases p) auto
next
  case (3 pool cl ranges sz acc s x start y e p)
  then have "length p \<le> length s" "p \<noteq> []" using range_spec_length by (auto dest: sym)
  then show ?case by (cases p) auto
qed

declare range_loop.simps [simp del]

text \<open>\<open>mctx\<close> is the context of the main request, when this is a subrequest and there is one.\<close>

definition ngx_http_range_parse ::
    "http_range list option \<Rightarrow> bool \<Rightarrow> bytes \<Rightarrow> int \<Rightarrow> nat \<Rightarrow> ngx_int \<times> http_range list" where
  "ngx_http_range_parse mctx pool v content_length ranges =
     (case mctx of
        Some rs \<Rightarrow> (NGX_OK, rs)
      | None \<Rightarrow> if \<not> pool then (NGX_ERROR, []) else range_loop pool content_length ranges 0 [] (drop 6 v))"

section \<open>Response headers\<close>

text \<open>The parts of the request and of the response header the filter reads and writes.\<close>

record range_req =
  rg_version :: nat
  rg_status :: nat
  rg_main :: bool
  rg_subrequest_ranges :: bool
  rg_allow_ranges :: bool
  rg_single_range :: bool
  rg_range :: "bytes option"
  rg_if_range :: "bytes option"
  rg_etag :: "bytes option"
  rg_last_modified :: int
  rg_content_length :: int
  rg_content_offset :: int
  rg_content_type :: bytes
  rg_content_type_len :: nat
  rg_charset :: bytes
  rg_content_range :: "bytes option"
  rg_accept_ranges :: bool

record range_ctx =
  rx_offset :: nat
  rx_boundary_header :: bytes
  rx_ranges :: "http_range list"
  rx_content_range :: "bytes list"

text \<open>\<open>%O\<close> of \<open>ngx_sprintf\<close>.\<close>

definition sprintf_O :: "int \<Rightarrow> bytes" where
  "sprintf_O n = (if n < 0 then CHR ''-'' # num_digits (nat (- n)) 0 else num_digits (nat n) 0)"

definition range_text :: "int \<Rightarrow> http_range \<Rightarrow> bytes" where
  "range_text content_length r =
     sprintf_O (fst r) @ ''-'' @ sprintf_O (snd r - 1) @ ''/'' @ sprintf_O content_length"

definition ngx_http_range_singlepart_header :: "http_range list \<Rightarrow> range_req \<Rightarrow> range_req" where
  "ngx_http_range_singlepart_header ranges r =
     (if \<not> rg_main r then r
      else
        (let rng = hd ranges in
         r\<lparr>rg_content_range := Some (''bytes '' @ range_text (rg_content_length r) rng),
           rg_content_length := snd rng - fst rng, rg_content_offset := fst rng\<rparr>))"

abbreviation CRLF :: bytes where "CRLF \<equiv> [CR, LF]"
abbreviation NGX_ATOMIC_T_LEN :: nat where "NGX_ATOMIC_T_LEN \<equiv> 20"

text \<open>\<open>%0muA\<close>: the number of the boundary, zero-padded to the width of an atomic integer.\<close>

definition boundary_text :: "nat \<Rightarrow> bytes" where
  "boundary_text boundary = ngx_sprintf_num NGX_ATOMIC_T_LEN boundary (CHR ''0'') 0 NGX_ATOMIC_T_LEN"

definition range_boundary_header :: "nat \<Rightarrow> range_req \<Rightarrow> bytes" where
  "range_boundary_header boundary r =
     (if rg_content_type_len r = length (rg_content_type r) \<and> rg_charset r \<noteq> [] then
        CRLF @ ''--'' @ boundary_text boundary @ CRLF @ ''Content-Type: '' @ rg_content_type r @ ''; charset='' @ rg_charset r
        @ CRLF @ ''Content-Range: bytes ''
      else if rg_content_type r \<noteq> [] then
        CRLF @ ''--'' @ boundary_text boundary @ CRLF @ ''Content-Type: '' @ rg_content_type r @ CRLF @ ''Content-Range: bytes ''
      else CRLF @ ''--'' @ boundary_text boundary @ CRLF @ ''Content-Range: bytes '')"

text \<open>The bytes reserved for the boundary header.\<close>

definition range_boundary_size :: "range_req \<Rightarrow> nat" where
  "range_boundary_size r =
     length (CRLF @ ''--'') + NGX_ATOMIC_T_LEN + length (CRLF @ ''Content-Type: '') + length (rg_content_type r)
     + length (CRLF @ ''Content-Range: bytes '')
     + (if rg_content_type_len r = length (rg_content_type r) \<and> rg_charset r \<noteq> []
        then length ''; charset='' + length (rg_charset r) else 0)"

definition ngx_http_range_multipart_header :: "nat \<Rightarrow> range_ctx \<Rightarrow> range_req \<Rightarrow> range_ctx \<times> range_req" where
  "ngx_http_range_multipart_header boundary ctx r =
     (let bh = range_boundary_header boundary r;
          ct = ''multipart/byteranges; boundary='' @ boundary_text boundary;
          crs = map (\<lambda>rng. range_text (rg_content_length r) rng @ CRLF @ CRLF) (rx_ranges ctx);
          len = int (length (CRLF @ ''--'') + NGX_ATOMIC_T_LEN + length (''--'' @ CRLF))
                + (\<Sum>(rng, cr)\<leftarrow>zip (rx_ranges ctx) crs. int (length bh + length cr) + (snd rng - fst rng)) in
      (ctx\<lparr>rx_boundary_header := bh, rx_content_range := crs\<rparr>,
       r\<lparr>rg_content_type := ct, rg_content_type_len := length ct, rg_charset := [], rg_content_length := len\<rparr>))"

definition ngx_http_range_not_satisfiable :: "range_req \<Rightarrow> range_req" where
  "ngx_http_range_not_satisfiable r =
     r\<lparr>rg_status := nat NGX_HTTP_RANGE_NOT_SATISFIABLE,
       rg_content_range := Some (''bytes */'' @ sprintf_O (rg_content_length r)), rg_content_length := - 1\<rparr>"

text \<open>
  What the header filter does: pass the response on untouched, pass it on with
  \<open>Accept-Ranges\<close>, turn it into a partial response, refuse it, or fail. \<open>mctx\<close>, \<open>pool\<close> and
  \<open>max_ranges\<close> are as above, \<open>boundary\<close> is \<open>ngx_next_temp_number\<close>.
\<close>

datatype range_action =
    Range_next range_req
  | Range_partial range_ctx range_req
  | Range_refused range_req
  | Range_error

definition if_range_passes :: "range_req \<Rightarrow> bool" where
  "if_range_passes r =
     (case rg_if_range r of
        None \<Rightarrow> True
      | Some ir \<Rightarrow>
          if length ir \<ge> 2 \<and> ir ! (length ir - 1) = CHR 0x22
          then (case rg_etag r of
                  None \<Rightarrow> False
                | Some etag \<Rightarrow> length ir = length etag \<and>
                    takeWhile (\<lambda>c. c \<noteq> NUL) ir = takeWhile (\<lambda>c. c \<noteq> NUL) etag)
          else rg_last_modified r \<noteq> - 1 \<and> ngx_parse_http_time ir (length ir) = rg_last_modified r)"

definition ngx_http_range_header_filter ::
    "http_range list option \<Rightarrow> bool \<Rightarrow> nat \<Rightarrow> nat \<Rightarrow> range_req \<Rightarrow> range_action" where
  "ngx_http_range_header_filter mctx pool max_ranges boundary r =
     (let next = (if \<not> pool then Range_error else Range_next (r\<lparr>rg_accept_ranges := True\<rparr>)) in
      if rg_version r < 1000 \<or> rg_status r \<noteq> 200 \<or> (\<not> rg_main r \<and> \<not> rg_subrequest_ranges r)
         \<or> rg_content_length r = - 1 \<or> \<not> rg_allow_ranges r then Range_next r
      else if max_ranges = 0 then Range_next r
      else
        (case rg_range r of
           None \<Rightarrow> next
         | Some v \<Rightarrow>
             if length v < 7 \<or> ngx_strncasecmp v ''bytes='' 6 \<noteq> 0 then next
             else if \<not> if_range_passes r then next
             else if \<not> pool then Range_error
             else
               (case ngx_http_range_parse (if rg_main r then None else mctx) pool v (rg_content_length r)
                       (if rg_single_range r then 1 else max_ranges) of
                  (rc, rs) \<Rightarrow>
                    if rc = NGX_OK then
                      (let ctx = \<lparr>rx_offset = nat (rg_content_offset r), rx_boundary_header = [], rx_ranges = rs,
                                  rx_content_range = []\<rparr>;
                           r1 = r\<lparr>rg_status := 206\<rparr> in
                       if length rs = 1 then Range_partial ctx (ngx_http_range_singlepart_header rs r1)
                       else (case ngx_http_range_multipart_header boundary ctx r1 of (ctx', r2) \<Rightarrow> Range_partial ctx' r2))
                    else if rc = NGX_HTTP_RANGE_NOT_SATISFIABLE then Range_refused (ngx_http_range_not_satisfiable r)
                    else if rc = NGX_ERROR then Range_error
                    else next)))"

section \<open>Response bodies\<close>

record rbuf =
  rb_data :: bytes
  rb_mem :: bool
  rb_file :: bool
  rb_flush :: bool
  rb_sync :: bool
  rb_last_buf :: bool
  rb_last_in_chain :: bool

definition ngx_buf_special :: "rbuf \<Rightarrow> bool" where
  "ngx_buf_special b \<longleftrightarrow> (rb_flush b \<or> rb_last_buf b \<or> rb_sync b) \<and> \<not> rb_mem b \<and> \<not> rb_file b"

text \<open>
  The loop of the single-part filter. A skipped buffer is emptied and left out, but when nothing
  kept follows it in the chain, it stays linked behind the last kept one: the second component is
  whether a buffer was kept. The third is \<open>ctx->offset\<close>.
\<close>

fun singlepart_loop :: "bool \<Rightarrow> nat \<Rightarrow> nat \<Rightarrow> nat \<Rightarrow> rbuf list \<Rightarrow> rbuf list \<times> bool \<times> nat" where
  "singlepart_loop main s e offset [] = ([], False, offset)"
| "singlepart_loop main s e offset (b # chain) =
     (let start = offset; lst = offset + length (rb_data b) in
      if ngx_buf_special b then
        (case singlepart_loop main s e lst chain of (out, _, off) \<Rightarrow> (b # out, True, off))
      else if e \<le> start \<or> s \<ge> lst then
        (case singlepart_loop main s e lst chain of
           (out, kept, off) \<Rightarrow> (if kept then out else b\<lparr>rb_data := [], rb_sync := True\<rparr> # out, kept, off))
      else
        (let b1 = (if s > start then b\<lparr>rb_data := drop (s - start) (rb_data b)\<rparr> else b) in
         if e \<le> lst then
           ([b1\<lparr>rb_data := take (length (rb_data b1) - (lst - e)) (rb_data b1), rb_last_buf := main,
                rb_last_in_chain := True\<rparr>], True, lst)
         else (case singlepart_loop main s e lst chain of (out, _, off) \<Rightarrow> (b1 # out, True, off))))"

text \<open>The chain given to the next filter, \<open>None\<close> when it is not called, and the new offset.\<close>

definition ngx_http_range_singlepart_body ::
    "bool \<Rightarrow> http_range \<Rightarrow> nat \<Rightarrow> rbuf list \<Rightarrow> rbuf list option \<times> nat" where
  "ngx_http_range_singlepart_body main rng offset chain =
     (case singlepart_loop main (nat (fst rng)) (nat (snd rng)) offset chain of
        (out, kept, off) \<Rightarrow> (if kept then Some out else None, off))"

definition ngx_http_range_test_overlapped :: "range_ctx \<Rightarrow> rbuf \<Rightarrow> range_ctx option" where
  "ngx_http_range_test_overlapped ctx buf =
     (if rx_offset ctx \<noteq> 0 then None
      else if \<not> rb_last_buf buf \<and>
              list_ex (\<lambda>rng. int (rx_offset ctx) > fst rng \<or> int (rx_offset ctx + length (rb_data buf)) < snd rng) (rx_ranges ctx)
      then None
      else Some (ctx\<lparr>rx_offset := length (rb_data buf)\<rparr>))"

definition mem_buf :: "bytes \<Rightarrow> rbuf" where
  "mem_buf d = \<lparr>rb_data = d, rb_mem = True, rb_file = False, rb_flush = False, rb_sync = False, rb_last_buf = False,
     rb_last_in_chain = False\<rparr>"

definition ngx_http_range_multipart_body :: "range_ctx \<Rightarrow> rbuf \<Rightarrow> rbuf list" where
  "ngx_http_range_multipart_body ctx buf =
     concat (map (\<lambda>(rng, cr).
        [mem_buf (rx_boundary_header ctx), mem_buf cr,
         (mem_buf (slice (rb_data buf) (nat (fst rng)) (nat (snd rng))))\<lparr>rb_mem := rb_mem buf, rb_file := rb_file buf\<rparr>])
        (zip (rx_ranges ctx) (rx_content_range ctx)))
     @ [(mem_buf (take (length (CRLF @ ''--'') + NGX_ATOMIC_T_LEN) (rx_boundary_header ctx) @ ''--'' @ CRLF))
          \<lparr>rb_last_buf := True\<rparr>]"

text \<open>
  The body filter: the chain is passed on as it is, replaced, or swallowed, or the request fails.
\<close>

datatype range_body = Body_next "rbuf list" | Body_ok | Body_error

definition ngx_http_range_body_filter ::
    "bool \<Rightarrow> bool \<Rightarrow> range_ctx option \<Rightarrow> rbuf list \<Rightarrow> range_body \<times> range_ctx option" where
  "ngx_http_range_body_filter main pool mctx chain =
     (case mctx of
        None \<Rightarrow> (Body_next chain, None)
      | Some ctx \<Rightarrow>
          if chain = [] then (Body_next chain, Some ctx)
          else if length (rx_ranges ctx) = 1 then
            (case ngx_http_range_singlepart_body main (hd (rx_ranges ctx)) (rx_offset ctx) chain of
               (out, off) \<Rightarrow> (case out of None \<Rightarrow> Body_ok | Some c \<Rightarrow> Body_next c, Some (ctx\<lparr>rx_offset := off\<rparr>)))
          else if ngx_buf_special (hd chain) then (Body_next chain, Some ctx)
          else
            (case ngx_http_range_test_overlapped ctx (hd chain) of
               None \<Rightarrow> (Body_error, Some ctx)
             | Some ctx' \<Rightarrow>
                 if \<not> pool then (Body_error, Some ctx')
                 else (Body_next (ngx_http_range_multipart_body ctx' (hd chain)), Some ctx')))"

section \<open>The ranges of a request\<close>

definition range_ok :: "int \<Rightarrow> http_range \<Rightarrow> bool" where
  "range_ok content_length r \<longleftrightarrow> 0 \<le> fst r \<and> fst r < snd r \<and> snd r \<le> content_length"

definition range_len :: "http_range \<Rightarrow> int" where
  "range_len r = snd r - fst r"

lemma range_number_bounds:
  "range_number n s = Some (e, s') \<Longrightarrow> 0 \<le> n \<Longrightarrow> n \<le> max_off_t \<Longrightarrow> n \<le> e \<and> e \<le> max_off_t"
proof (induction s arbitrary: n)
  case (Cons c s)
  show ?case
  proof (cases "digit c")
    case True
    let ?m = "n * 10 + int (digit_val c)"
    have step: "range_number ?m s = Some (e, s')" and lim: "\<not> (n \<ge> max_off_t div 10 \<and>
        (n > max_off_t div 10 \<or> int (digit_val c) > max_off_t mod 10))"
      using Cons.prems(1) True by (auto simp: Let_def split: if_splits)
    have "digit_val c \<le> 9" using True by (rule digit_val_le)
    then have "?m \<le> max_off_t" using lim by (auto simp: max_off_t_def)
    with Cons.IH [OF step] Cons.prems(2) show ?thesis by linarith
  qed (use Cons.prems in simp)
qed simp

lemma range_end_bounds:
  assumes "range_end cl suf st s = Some (a, b, p)" "0 \<le> cl" "0 \<le> st"
  shows "0 \<le> a \<and> b \<le> cl"
  using assms by (auto simp: range_end_def Let_def split: if_splits option.splits)

lemma range_spec_bounds:
  assumes "range_spec cl s = Some (a, b, p)" "0 \<le> cl"
  shows "0 \<le> a \<and> b \<le> cl"
proof (cases "deref (skip_spaces s) = CHR ''-''")
  case True
  then show ?thesis using assms range_end_bounds [of cl True 0 "tl (skip_spaces s)"] by (simp add: range_spec_def Let_def)
next
  case False
  then obtain st s1 where n: "range_number 0 (skip_spaces s) = Some (st, s1)"
    and rest: "a = st \<and> b = cl \<or> range_end cl False st (skip_spaces (tl (skip_spaces s1))) = Some (a, b, p)"
    using assms(1) by (auto simp: range_spec_def Let_def split: if_splits option.splits)
  have "0 \<le> st" using range_number_bounds [OF n] by (simp add: max_off_t_def)
  then show ?thesis using rest assms(2) range_end_bounds by blast
qed

lemma range_loop_bounds:
  assumes "range_loop pool cl ranges sz acc s = (NGX_OK, rs)" "0 \<le> cl"
    "list_all (range_ok cl) acc" "sz = sum_list (map range_len acc)" "length acc + ranges = n"
  shows "rs \<noteq> [] \<and> list_all (range_ok cl) rs \<and> sum_list (map range_len rs) \<le> cl \<and> length rs \<le> n"
  using assms
proof (induction pool cl ranges sz acc s rule: range_loop.induct)
  case (1 pool cl ranges sz acc s)
  obtain a b p where sp: "range_spec cl s = Some (a, b, p)"
    using "1.prems"(1) by (cases "range_spec cl s") (auto simp: range_loop.simps)
  have bd: "0 \<le> a" "b \<le> cl" using range_spec_bounds [OF sp] "1.prems"(2) by auto
  note eq = range_loop.simps [of pool cl ranges sz acc s, unfolded sp option.case prod.case]
  show ?case
  proof (cases "a < b")
    case True
    let ?acc = "acc @ [(a, b)]"
    have acc: "list_all (range_ok cl) ?acc" "sz + (b - a) = sum_list (map range_len ?acc)"
      using "1.prems"(3,4) bd True by (simp_all add: range_ok_def [of cl "(a, b)"] range_len_def [of "(a, b)"])
    have r: "ranges \<noteq> 0" "pool" and go: "\<not> sz > max_off_t - (b - a)"
      using "1.prems"(1) True by (auto simp: eq split: if_splits)
    then have n: "length ?acc + (ranges - 1) = n" using "1.prems"(5) by simp
    show ?thesis
    proof (cases "deref p = CHR '',''")
      case comma: True
      have "range_loop pool cl (ranges - 1) (sz + (b - a)) ?acc (tl p) = (NGX_OK, rs)"
        using "1.prems"(1) unfolding eq using r go \<open>a < b\<close> comma by simp
      then show ?thesis using "1.IH"(1) [OF sp refl refl] "1.prems"(2) acc n r go \<open>a < b\<close> comma by blast
    next
      case nocomma: False
      have "range_finish cl (sz + (b - a)) ?acc = (NGX_OK, rs)"
        using "1.prems"(1) unfolding eq using r go \<open>a < b\<close> nocomma by simp
      then show ?thesis using acc n by (auto simp: range_finish_def split: if_splits)
    qed
  next
    case empty: False
    show ?thesis
    proof (cases "deref p = CHR '',''")
      case True
      then have "a \<noteq> 0" "range_loop pool cl ranges sz acc (tl p) = (NGX_OK, rs)"
        using "1.prems"(1) unfolding eq using empty by (auto split: if_splits)
      then show ?thesis using "1.IH"(2) [OF sp refl refl empty] True "1.prems" by blast
    next
      case False
      then have "range_finish cl sz acc = (NGX_OK, rs)"
        using "1.prems"(1) unfolding eq using empty by (auto split: if_splits)
      then show ?thesis using "1.prems" by (auto simp: range_finish_def split: if_splits)
    qed
  qed
qed

text \<open>
  C14. When the parser accepts a \<open>Range\<close> header, the request has at least one and at most
  \<open>max_ranges\<close> ranges, each of them is not empty and lies inside the response, and together they
  are no longer than the response; so no filter behind it cuts a buffer outside its bounds and a
  client cannot ask for more bytes than the plain response has.
\<close>

theorem range_parse_bounds:
  assumes "ngx_http_range_parse None pool v content_length ranges = (NGX_OK, rs)" "0 \<le> content_length"
  shows "rs \<noteq> [] \<and> list_all (range_ok content_length) rs \<and> sum_list (map range_len rs) \<le> content_length \<and>
    length rs \<le> ranges"
  using assms range_loop_bounds [of pool content_length ranges 0 "[]" "drop 6 v" rs ranges]
  by (auto simp: ngx_http_range_parse_def split: if_splits)

theorem range_parse_bounds_witness:
  "ngx_http_range_parse None True ''bytes=0-1, -2'' 10 5 = (NGX_OK, [(0, 2), (8, 10)]) \<and>
   list_all (range_ok 10) [(0, 2), (8, 10)]"
proof -
  have "ngx_http_range_parse None True ''bytes=0-1, -2'' 10 5 = (NGX_OK, [(0, 2), (8, 10)])"
    by code_simp
  with range_parse_bounds [OF this] show ?thesis by simp
qed

section \<open>Every well-formed header is accepted\<close>

text \<open>The \<open>Range\<close> header of a client that asks for the ranges \<open>rs\<close>.\<close>

definition range_spec_text :: "http_range \<Rightarrow> bytes" where
  "range_spec_text r = num_dec (nat (fst r)) [] @ ''-'' @ num_dec (nat (snd r - 1)) []"

fun ranges_text :: "http_range list \<Rightarrow> bytes" where
  "ranges_text [] = []"
| "ranges_text [r] = range_spec_text r"
| "ranges_text (r # rs) = range_spec_text r @ '','' @ ranges_text rs"

lemma range_number_digits:
  "list_all digit ds \<Longrightarrow> 0 \<le> n \<Longrightarrow> dec_from n ds \<le> max_off_t \<Longrightarrow> \<not> digit (deref rest) \<Longrightarrow>
   range_number n (ds @ rest) = Some (dec_from n ds, rest)"
proof (induction ds arbitrary: n)
  case Nil
  then show ?case by (cases rest) auto
next
  case (Cons c ds)
  let ?m = "n * 10 + int (digit_val c)"
  have "?m \<le> dec_from ?m ds" using Cons.prems by (intro dec_from_ge) simp
  then have "?m \<le> max_off_t" using Cons.prems by simp
  then have "\<not> (n \<ge> max_off_t div 10 \<and>
        (n > max_off_t div 10 \<or> int (digit_val c) > max_off_t mod 10))"
    by (auto simp: max_off_t_def)
  then show ?case using Cons.IH [of ?m] Cons.prems by (auto simp: Let_def)
qed

lemma range_number_dec:
  assumes "int n \<le> max_off_t" "\<not> digit (deref rest)"
  shows "range_number 0 (num_dec n [] @ rest) = Some (int n, rest)"
  using range_number_digits [of "num_dec n []" 0 rest] num_dec_value [of n] assms by simp

lemma num_dec_head: "\<exists>c cs. num_dec n [] = c # cs \<and> digit c \<and> c \<noteq> SP \<and> c \<noteq> CHR ''-'' \<and> c \<noteq> CHR '','' \<and> c \<noteq> NUL"
proof -
  obtain c cs where "num_dec n [] = c # cs" "digit c"
    using num_dec_value [of n] by (cases "num_dec n []") auto
  then show ?thesis by (auto simp: digit_def less_eq_char_def)
qed

lemma skip_spaces_dec [simp]: "skip_spaces (num_dec n [] @ rest) = num_dec n [] @ rest"
  using num_dec_head [of n] by (auto simp: skip_spaces_def)

lemma range_spec_of_text:
  assumes "range_ok cl r" "cl \<le> max_off_t" "rest = [] \<or> deref rest = CHR '',''"
  shows "range_spec cl (range_spec_text r @ rest) = Some (fst r, snd r, rest)"
proof -
  let ?a = "nat (fst r)" and ?b = "nat (snd r - 1)"
  have ab: "int ?a = fst r" "int ?b = snd r - 1" "int ?a \<le> max_off_t" "int ?b \<le> max_off_t"
      "\<not> snd r - 1 \<ge> cl"
    using assms(1,2) by (auto simp: range_ok_def)
  have rest: "\<not> digit (deref rest)" "skip_spaces rest = rest" "deref rest = CHR '','' \<or> deref rest = NUL"
    using assms(3) by (cases rest; auto simp: digit_def less_eq_char_def skip_spaces_def)+
  have n1: "range_number 0 (num_dec ?a [] @ CHR ''-'' # num_dec ?b [] @ rest) = Some (fst r, CHR ''-'' # num_dec ?b [] @ rest)"
    using range_number_dec [of ?a "CHR ''-'' # num_dec ?b [] @ rest"] ab by (simp add: digit_def less_eq_char_def)
  have n2: "range_number 0 (num_dec ?b [] @ rest) = Some (snd r - 1, rest)"
    using range_number_dec [of ?b rest] ab rest by simp
  have "skip_spaces (CHR ''-'' # xs) = CHR ''-'' # xs" for xs by (simp add: skip_spaces_def)
  moreover have "range_end cl False (fst r) (num_dec ?b [] @ rest) = Some (fst r, snd r, rest)"
    using num_dec_head [of ?b] n2 rest ab by (auto simp: range_end_def Let_def)
  ultimately show ?thesis
    using num_dec_head [of ?a] num_dec_head [of ?b] n1
    by (auto simp: range_spec_def range_spec_text_def Let_def)
qed

lemma range_loop_of_text:
  assumes "rs \<noteq> []" "list_all (range_ok cl) rs" "cl \<le> max_off_t" "length rs \<le> n" "0 \<le> sz"
    "sz + sum_list (map range_len rs) \<le> cl"
  shows "range_loop True cl n sz acc (ranges_text rs) = (NGX_OK, acc @ rs)"
  using assms
proof (induction rs arbitrary: n sz acc rule: ranges_text.induct)
  case (2 r)
  then have "range_spec cl (ranges_text [r]) = Some (fst r, snd r, [])"
    using range_spec_of_text [of cl r "[]"] by simp
  then show ?case using 2 by (subst range_loop.simps) (auto simp: range_ok_def range_len_def range_finish_def)
next
  case (3 r r' rs)
  let ?rest = "CHR '','' # ranges_text (r' # rs)"
  have sp: "range_spec cl (ranges_text (r # r' # rs)) = Some (fst r, snd r, ?rest)"
    using range_spec_of_text [of cl r ?rest] "3.prems" by simp
  have r: "fst r < snd r" "range_len r = snd r - fst r" using "3.prems" by (auto simp: range_ok_def range_len_def)
  have tl: "0 \<le> sum_list (map range_len (r' # rs))"
    by (rule sum_list_nonneg) (use "3.prems"(2) in \<open>auto simp: list_all_iff range_ok_def range_len_def\<close>)
  have "range_loop True cl (n - 1) (sz + (snd r - fst r)) (acc @ [r]) (ranges_text (r' # rs)) = (NGX_OK, (acc @ [r]) @ r' # rs)"
    using "3.prems" r by (intro "3.IH") auto
  then show ?case using "3.prems" r tl by (subst range_loop.simps, simp only: sp) auto
qed simp

text \<open>
  The parser accepts every well-formed header: for ranges that lie in the response, are no
  more than \<open>max_ranges\<close> and together no longer than the response, it reads back from
  \<open>bytes=first-last,...\<close> exactly these ranges, in their order.
\<close>

theorem range_parse_complete:
  assumes "rs \<noteq> []" "list_all (range_ok content_length) rs" "content_length \<le> max_off_t"
    "length rs \<le> ranges" "sum_list (map range_len rs) \<le> content_length"
  shows "ngx_http_range_parse None True (''bytes='' @ ranges_text rs) content_length ranges = (NGX_OK, rs)"
  using range_loop_of_text [of rs content_length ranges 0 "[]"] assms
  by (simp add: ngx_http_range_parse_def numeral_eq_Suc)

theorem range_parse_complete_witness:
  "ngx_http_range_parse None True (''bytes='' @ ranges_text [(500, 600), (601, 1000)]) 10000 2
   = (NGX_OK, [(500, 600), (601, 1000)])"
  by (rule range_parse_complete) (simp_all add: range_ok_def range_len_def max_off_t_def)

section \<open>The bytes of a single range\<close>

lemma slice_append: "slice (xs @ ys) a b = slice xs a b @ slice ys (a - length xs) (b - length xs)"
  by (cases "a \<le> length xs") (simp_all add: slice_def)

text \<open>The bytes of a chain, and the chains the single-part filter passes on for a sequence of chains.\<close>

definition chain_data :: "rbuf list \<Rightarrow> bytes" where
  "chain_data chain = concat (map rb_data chain)"

lemma chain_data_simps [simp]:
  "chain_data [] = []" "chain_data (b # chain) = rb_data b @ chain_data chain"
  "chain_data (xs @ ys) = chain_data xs @ chain_data ys"
  by (simp_all add: chain_data_def)

definition rbuf_ok :: "rbuf \<Rightarrow> bool" where
  "rbuf_ok b \<longleftrightarrow> (ngx_buf_special b \<longrightarrow> rb_data b = [])"

fun singlepart_bodies :: "bool \<Rightarrow> http_range \<Rightarrow> nat \<Rightarrow> rbuf list list \<Rightarrow> rbuf list" where
  "singlepart_bodies main rng offset [] = []"
| "singlepart_bodies main rng offset (chain # cs) =
     (case ngx_http_range_singlepart_body main rng offset chain of
        (out, off) \<Rightarrow> (case out of None \<Rightarrow> [] | Some c \<Rightarrow> c) @ singlepart_bodies main rng off cs)"

lemma slice_outside: "b \<le> a \<or> length xs \<le> a \<Longrightarrow> slice xs a b = []"
  by (auto simp: slice_def)

lemma singlepart_loop_data:
  assumes "s < e" "list_all rbuf_ok chain" "singlepart_loop main s e off chain = (out, kept, off')"
  shows "chain_data out = slice (chain_data chain) (s - off) (e - off) \<and>
    (kept \<or> chain_data out = []) \<and>
    (off' = off + length (chain_data chain) \<or> e \<le> off' \<and> e \<le> off + length (chain_data chain))"
  using assms(2,3)
proof (induction chain arbitrary: off out kept off')
  case Nil
  then show ?case by (simp add: slice_def)
next
  case (Cons b chain)
  let ?lst = "off + length (rb_data b)"
  obtain o1 k1 f1 where rec: "singlepart_loop main s e ?lst chain = (o1, k1, f1)" by (metis prod_cases3)
  have ih: "chain_data o1 = slice (chain_data chain) (s - ?lst) (e - ?lst)" "k1 \<or> chain_data o1 = []"
      "f1 = ?lst + length (chain_data chain) \<or> e \<le> f1 \<and> e \<le> ?lst + length (chain_data chain)"
    using Cons.IH [OF _ rec] Cons.prems(1) by auto
  have sl: "slice (rb_data b @ chain_data chain) (s - off) (e - off)
      = slice (rb_data b) (s - off) (e - off) @ slice (chain_data chain) (s - ?lst) (e - ?lst)"
    by (simp add: slice_append)
  consider (special) "ngx_buf_special b" | (skip) "\<not> ngx_buf_special b" "e \<le> off \<or> s \<ge> ?lst"
    | (final) "\<not> ngx_buf_special b" "\<not> (e \<le> off \<or> s \<ge> ?lst)" "e \<le> ?lst"
    | (keep) "\<not> ngx_buf_special b" "\<not> (e \<le> off \<or> s \<ge> ?lst)" "\<not> e \<le> ?lst" by blast
  then show ?case
  proof cases
    case special
    then have "rb_data b = []" using Cons.prems(1) by (simp add: rbuf_ok_def)
    with special show ?thesis using Cons.prems(2) ih rec by (auto simp: Let_def)
  next
    case skip
    then have "slice (rb_data b) (s - off) (e - off) = []" by (auto intro: slice_outside)
    with skip show ?thesis using Cons.prems ih by (auto simp: rec Let_def sl split: if_splits)
  next
    case final
    have "slice (chain_data chain) (s - ?lst) (e - ?lst) = []" using final(3) by (auto intro: slice_outside)
    with final show ?thesis using Cons.prems by (auto simp: Let_def sl slice_def min_def)
  next
    case keep
    then have "take (e - off - (s - off)) (drop (s - off) (rb_data b)) = drop (s - off) (rb_data b)" by simp
    with keep show ?thesis using Cons.prems ih by (auto simp: rec Let_def sl slice_def [of "rb_data b"])
  qed
qed

lemma singlepart_bodies_slice:
  assumes "0 \<le> fst rng" "fst rng < snd rng" "list_all (list_all rbuf_ok) cs"
  shows "chain_data (singlepart_bodies main rng off cs)
    = slice (chain_data (concat cs)) (nat (fst rng) - off) (nat (snd rng) - off)"
  using assms(3)
proof (induction cs arbitrary: off)
  case Nil
  then show ?case by (simp add: slice_def)
next
  case (Cons chain cs)
  let ?s = "nat (fst rng)" and ?e = "nat (snd rng)"
  have se: "?s < ?e" using assms(1,2) by simp
  obtain out kept off' where l: "singlepart_loop main ?s ?e off chain = (out, kept, off')"
    by (metis prod_cases3)
  from singlepart_loop_data [OF se _ l] Cons.prems
  have d: "chain_data out = slice (chain_data chain) (?s - off) (?e - off)" "kept \<or> chain_data out = []"
    and f: "off' = off + length (chain_data chain) \<or> ?e \<le> off' \<and> ?e \<le> off + length (chain_data chain)"
    by auto
  from f have tail: "slice (chain_data (concat cs)) (?s - off') (?e - off')
      = slice (chain_data (concat cs)) (?s - off - length (chain_data chain)) (?e - off - length (chain_data chain))"
    by (auto simp: slice_outside)
  show ?case
    using Cons.IH [of off'] Cons.prems d tail
    by (auto simp: ngx_http_range_singlepart_body_def l slice_append)
qed

lemma length_range_slice:
  assumes "range_ok (int (length d)) rng"
  shows "int (length (slice d (nat (fst rng)) (nat (snd rng)))) = range_len rng"
proof -
  have "nat (snd rng) \<le> length d" "0 \<le> fst rng" "fst rng < snd rng" using assms by (auto simp: range_ok_def)
  then show ?thesis by (simp add: range_len_def)
qed

text \<open>
  C13. However the response is cut into chains and buffers, what the single-part filter passes on
  over the whole response is exactly the bytes of the range.
\<close>

theorem range_singlepart_exact:
  assumes "range_ok (int (length (chain_data (concat cs)))) rng" "list_all (list_all rbuf_ok) cs"
  shows "chain_data (singlepart_bodies main rng 0 cs) = slice (chain_data (concat cs)) (nat (fst rng)) (nat (snd rng)) \<and>
    int (length (chain_data (singlepart_bodies main rng 0 cs))) = range_len rng"
proof -
  have "chain_data (singlepart_bodies main rng 0 cs) = slice (chain_data (concat cs)) (nat (fst rng)) (nat (snd rng))"
    using singlepart_bodies_slice [of rng cs main 0] assms by (simp add: range_ok_def)
  then show ?thesis using length_range_slice [OF assms(1)] by simp
qed

theorem range_singlepart_exact_witness:
  "chain_data (singlepart_bodies True (2, 5) 0 [[mem_buf ''abc''], [mem_buf ''de'', mem_buf ''fg'']]) = ''cde''"
proof -
  have "list_all (list_all rbuf_ok) [[mem_buf ''abc''], [mem_buf ''de'', mem_buf ''fg'']]"
    by (simp add: rbuf_ok_def mem_buf_def ngx_buf_special_def)
  from range_singlepart_exact [OF _ this, of "(2, 5)" True]
  show ?thesis by (simp add: mem_buf_def range_ok_def slice_def numeral_eq_Suc)
qed

section \<open>The length announced and the length sent\<close>

lemma singlepart_kept:
  assumes "\<not> ngx_buf_special buf" "range_ok (int (length (rb_data buf))) rng"
  shows "\<exists>out off. ngx_http_range_singlepart_body main rng 0 [buf] = (Some out, off)"
proof -
  have "\<not> nat (snd rng) \<le> 0" "\<not> length (rb_data buf) \<le> nat (fst rng)" "nat (snd rng) \<le> length (rb_data buf)"
    using assms(2) by (auto simp: range_ok_def)
  then show ?thesis using assms(1) by (simp add: ngx_http_range_singlepart_body_def Let_def)
qed

lemma length_boundary_text:
  assumes "boundary < 2 ^ 64"
  shows "length (boundary_text boundary) = NGX_ATOMIC_T_LEN"
proof -
  have "length (num_dec boundary []) \<le> 20" by (rule num_dec_length) (use assms in simp_all)
  then show ?thesis by (simp add: boundary_text_def ngx_sprintf_num_def num_digits_dec Let_def)
qed

lemma range_boundary_prefix:
  assumes "boundary < 2 ^ 64"
  shows "take (length (CRLF @ ''--'') + NGX_ATOMIC_T_LEN) (range_boundary_header boundary r) = CRLF @ ''--'' @ boundary_text boundary"
  using length_boundary_text [OF assms] by (auto simp: range_boundary_header_def)

lemma range_boundary_fits:
  assumes "boundary < 2 ^ 64"
  shows "length (range_boundary_header boundary r) \<le> range_boundary_size r"
  using length_boundary_text [OF assms] by (auto simp: range_boundary_header_def range_boundary_size_def)

lemma multipart_parts_length:
  assumes "list_all (range_ok (int (length (rb_data buf)))) rs" "length crs = length rs"
  shows "int (length (chain_data (concat (map (\<lambda>(rng, cr).
        [mem_buf bh, mem_buf cr, (mem_buf (slice (rb_data buf) (nat (fst rng)) (nat (snd rng))))\<lparr>rb_mem := m, rb_file := f\<rparr>])
        (zip rs crs)))))
    = (\<Sum>(rng, cr)\<leftarrow>zip rs crs. int (length bh + length cr) + (snd rng - fst rng))"
  using assms(2,1)
proof (induction crs rs rule: list_induct2)
  case (Cons cr crs rng rs)
  then show ?case using length_range_slice [of "rb_data buf" rng] by (simp add: mem_buf_def range_len_def)
qed simp

lemma multipart_body_length:
  assumes "list_all (range_ok (int (length (rb_data buf)))) (rx_ranges ctx)"
    "length (rx_content_range ctx) = length (rx_ranges ctx)"
    "length (take (length (CRLF @ ''--'') + NGX_ATOMIC_T_LEN) (rx_boundary_header ctx) @ ''--'' @ CRLF) = 28"
  shows "int (length (chain_data (ngx_http_range_multipart_body ctx buf))) = 28 +
    (\<Sum>(rng, cr)\<leftarrow>zip (rx_ranges ctx) (rx_content_range ctx). int (length (rx_boundary_header ctx) + length cr) + (snd rng - fst rng))"
  unfolding ngx_http_range_multipart_body_def chain_data_simps length_append of_nat_add
    multipart_parts_length [OF assms(1,2)]
  using assms(3) by (simp add: mem_buf_def)

text \<open>
  C12. The \<open>Content-Length\<close> of a partial response is the number of bytes the body filter sends. When
  the header filter turns the response to a main request into a partial one, and the body is one
  buffer of the length the response had, the body filter accepts it and sends as many bytes as the
  header announces, with one range as with several; the boundary header fits the memory taken for it.
\<close>

theorem range_announced_length:
  assumes "ngx_http_range_header_filter mctx True max_ranges boundary r = Range_partial ctx r'"
    "rg_main r" "0 \<le> rg_content_length r" "rg_content_offset r = 0" "boundary < 2 ^ 64"
    "rbuf_ok buf" "\<not> ngx_buf_special buf" "int (length (rb_data buf)) = rg_content_length r"
  shows "\<exists>out ctx'. ngx_http_range_body_filter True True (Some ctx) [buf] = (Body_next out, ctx') \<and>
    int (length (chain_data out)) = rg_content_length r' \<and> rg_status r' = 206 \<and>
    length (rx_boundary_header ctx) \<le> range_boundary_size r"
proof -
  let ?cl = "rg_content_length r" and ?n = "if rg_single_range r then 1 else max_ranges"
  obtain v rs where p: "ngx_http_range_parse None True v ?cl ?n = (NGX_OK, rs)"
    and act: "(let c = \<lparr>rx_offset = 0, rx_boundary_header = [], rx_ranges = rs, rx_content_range = []\<rparr>;
                   r1 = r\<lparr>rg_status := 206\<rparr> in
       if length rs = 1 then Range_partial c (ngx_http_range_singlepart_header rs r1)
       else (case ngx_http_range_multipart_header boundary c r1 of (ctx', r2) \<Rightarrow> Range_partial ctx' r2))
      = Range_partial ctx r'"
    using assms(1,2,4) by (auto simp: ngx_http_range_header_filter_def Let_def split: option.splits if_splits prod.splits)
  from p assms(3) range_loop_bounds [of True ?cl ?n 0 "[]" "drop 6 v" rs ?n]
  have ok: "rs \<noteq> []" "list_all (range_ok ?cl) rs" by (auto simp: ngx_http_range_parse_def)
  have ok': "list_all (range_ok (int (length (rb_data buf)))) rs" using ok(2) assms(8) by simp
  show ?thesis
  proof (cases "length rs = 1")
    case True
    then obtain rng where rs: "rs = [rng]" by (auto simp: length_Suc_conv)
    have ctx: "ctx = \<lparr>rx_offset = 0, rx_boundary_header = [], rx_ranges = rs, rx_content_range = []\<rparr>"
      and r': "rg_content_length r' = range_len rng" "rg_status r' = 206"
      using act True assms(2) rs by (auto simp: ngx_http_range_singlepart_header_def range_len_def Let_def)
    obtain out off where b: "ngx_http_range_singlepart_body True rng 0 [buf] = (Some out, off)"
      using singlepart_kept [of buf rng True] assms(7) ok' rs by auto
    have "chain_data out = slice (rb_data buf) (nat (fst rng)) (nat (snd rng))"
      using singlepart_bodies_slice [of rng "[[buf]]" True 0] ok' rs assms(6) b by (simp add: range_ok_def)
    then have "int (length (chain_data out)) = range_len rng"
      using length_range_slice [of "rb_data buf" rng] ok' rs by simp
    then show ?thesis using b rs r' by (simp add: ngx_http_range_body_filter_def ctx)
  next
    case False
    let ?bh = "range_boundary_header boundary r"
    let ?crs = "map (\<lambda>rng. range_text ?cl rng @ CRLF @ CRLF) rs"
    have bh: "range_boundary_header boundary (r\<lparr>rg_status := 206\<rparr>) = ?bh"
      by (simp add: range_boundary_header_def)
    have ctx: "ctx = \<lparr>rx_offset = 0, rx_boundary_header = ?bh, rx_ranges = rs, rx_content_range = ?crs\<rparr>"
      and r': "rg_status r' = 206" "rg_content_length r' = 28
        + (\<Sum>(rng, cr)\<leftarrow>zip rs ?crs. int (length ?bh + length cr) + (snd rng - fst rng))"
      using act False by (auto simp: ngx_http_range_multipart_header_def bh Let_def)
    have t: "ngx_http_range_test_overlapped ctx buf = Some (ctx\<lparr>rx_offset := length (rb_data buf)\<rparr>)"
      using ok' by (auto simp: ngx_http_range_test_overlapped_def ctx list_ex_iff list_all_iff range_ok_def)
    have "length (take (length (CRLF @ ''--'') + NGX_ATOMIC_T_LEN) ?bh @ ''--'' @ CRLF) = 28"
      using length_boundary_text [OF assms(5)] by (simp only: range_boundary_prefix [OF assms(5)]) simp
    then have "int (length (chain_data (ngx_http_range_multipart_body (ctx\<lparr>rx_offset := length (rb_data buf)\<rparr>) buf)))
        = rg_content_length r'"
      using multipart_body_length [of buf "ctx\<lparr>rx_offset := length (rb_data buf)\<rparr>"] ok' unfolding r' ctx by simp
    moreover have "length (rx_boundary_header ctx) \<le> range_boundary_size r"
      using range_boundary_fits [OF assms(5)] by (simp add: ctx)
    ultimately show ?thesis using t r' False assms(7) by (simp add: ngx_http_range_body_filter_def ctx)
  qed
qed

definition example_request :: range_req where
  "example_request = \<lparr>rg_version = 1001, rg_status = 200, rg_main = True, rg_subrequest_ranges = False,
     rg_allow_ranges = True, rg_single_range = False, rg_range = Some ''bytes=0-1,3-4'', rg_if_range = None,
     rg_etag = None, rg_last_modified = - 1, rg_content_length = 6, rg_content_offset = 0,
     rg_content_type = ''text/plain'', rg_content_type_len = 10, rg_charset = [], rg_content_range = None,
     rg_accept_ranges = False\<rparr>"

lemma example_partial:
  "\<exists>ctx r'. ngx_http_range_header_filter None True 5 42 example_request = Range_partial ctx r' \<and> length (rx_ranges ctx) = 2"
proof -
  have "ngx_http_range_parse None True ''bytes=0-1,3-4'' 6 5 = (NGX_OK, [(0, 2), (3, 5)])" by code_simp
  moreover have "ngx_strncasecmp ''bytes=0-1,3-4'' ''bytes='' 6 = 0" by code_simp
  ultimately show ?thesis
    by (simp add: ngx_http_range_header_filter_def example_request_def if_range_passes_def
        ngx_http_range_multipart_header_def Let_def)
qed

theorem range_announced_length_witness:
  "\<exists>ctx r' out ctx'. ngx_http_range_header_filter None True 5 42 example_request = Range_partial ctx r' \<and>
     ngx_http_range_body_filter True True (Some ctx) [mem_buf ''abcdef''] = (Body_next out, ctx') \<and>
     int (length (chain_data out)) = rg_content_length r'"
proof -
  obtain ctx r' where f: "ngx_http_range_header_filter None True 5 42 example_request = Range_partial ctx r'"
    using example_partial by blast
  have "\<exists>out ctx'. ngx_http_range_body_filter True True (Some ctx) [mem_buf ''abcdef''] = (Body_next out, ctx') \<and>
    int (length (chain_data out)) = rg_content_length r' \<and> rg_status r' = 206 \<and>
    length (rx_boundary_header ctx) \<le> range_boundary_size example_request"
    by (rule range_announced_length [OF f])
      (simp_all add: example_request_def mem_buf_def rbuf_ok_def ngx_buf_special_def)
  with f show ?thesis by blast
qed

end
