(* ===== verification/Set_Misc_Quote.thy ===== *)
theory Set_Misc_Quote
  imports Prelude
begin

text \<open>
  The quoting directives of \<open>set-misc-nginx-module-master/src\<close>: \<open>set_quote_sql_str\<close> and
  \<open>set_quote_pgsql_str\<close> (\<open>ngx_http_set_quote_sql.c\<close>) and \<open>set_quote_json_str\<close>
  (\<open>ngx_http_set_quote_json.c\<close>). A variable value is \<open>None\<close> when it is not found; \<open>pool\<close> is whether
  allocations succeed; a result \<open>None\<close> is \<open>NGX_ERROR\<close>. The readers of string literals the theorems
  speak of follow the manuals of MySQL, PostgreSQL and JSON; they are not code of the module.
\<close>

section \<open>MySQL strings\<close>

abbreviation BSL :: char where "BSL \<equiv> CHR 0x5C"
abbreviation APOS :: char where "APOS \<equiv> CHR 0x27"
abbreviation DQUOT :: char where "DQUOT \<equiv> CHR 0x22"
abbreviation BS :: char where "BS \<equiv> CHR 0x08"
abbreviation FF :: char where "FF \<equiv> CHR 0x0C"
abbreviation SUB :: char where "SUB \<equiv> CHR 0x1A"

text \<open>The two passes of \<open>ngx_http_set_misc_escape_sql_str\<close>: with \<open>dst == NULL\<close> and with a buffer.\<close>

definition sql_special :: "char \<Rightarrow> bool" where
  "sql_special c \<longleftrightarrow> c = NUL \<or> c = BS \<or> c = LF \<or> c = CR \<or> c = HTAB \<or> c = BSL \<or> c = APOS \<or> c = DQUOT \<or>
     c = CHR ''$'' \<or> c = SUB"

definition escape_sql_count :: "bytes \<Rightarrow> nat" where
  "escape_sql_count src = length (filter (\<lambda>c. ord c AND 0x80 = 0 \<and> sql_special c) src)"

definition sql_escape :: "char \<Rightarrow> bytes" where
  "sql_escape c =
     (if ord c AND 0x80 = 0 then
        (if c = NUL then [BSL, CHR ''0'']
         else if c = BS then [BSL, CHR ''b'']
         else if c = LF then [BSL, CHR ''n'']
         else if c = CR then [BSL, CHR ''r'']
         else if c = HTAB then [BSL, CHR ''t'']
         else if c = BSL then [BSL, BSL]
         else if c = APOS then [BSL, APOS]
         else if c = DQUOT then [BSL, DQUOT]
         else if c = CHR ''$'' then [BSL, CHR ''$'']
         else if c = SUB then [BSL, CHR ''Z'']
         else [c])
      else [c])"

definition ngx_http_set_misc_escape_sql_str :: "bytes \<Rightarrow> bytes" where
  "ngx_http_set_misc_escape_sql_str src = concat (map sql_escape src)"

definition ngx_http_set_misc_quote_sql_str :: "bool \<Rightarrow> bytes option \<Rightarrow> bytes option" where
  "ngx_http_set_misc_quote_sql_str pool v =
     (case v of
        None \<Rightarrow> Some [APOS, APOS]
      | Some d \<Rightarrow>
          if d = [] then Some [APOS, APOS]
          else if \<not> pool then None
          else
            (let escape = escape_sql_count d; len = 2 + length d + escape;
                 res = [APOS] @ (if escape = 0 then d else ngx_http_set_misc_escape_sql_str d) @ [APOS] in
             if length res \<noteq> len then None else Some res))"

section \<open>PostgreSQL strings\<close>

definition ngx_http_pg_utf_mblen :: "char \<Rightarrow> nat" where
  "ngx_http_pg_utf_mblen c =
     (if ord c AND 0x80 = 0 then 1
      else if ord c AND 0xe0 = 0xc0 then 2
      else if ord c AND 0xf0 = 0xe0 then 3
      else if ord c AND 0xf8 = 0xf0 then 4
      else 1)"

text \<open>The \<open>switch\<close> of \<open>ngx_http_pg_utf_islegal\<close>: each case ends in a \<open>break\<close>.\<close>

definition pg_utf_char_ok :: "bytes \<Rightarrow> nat \<Rightarrow> bool" where
  "pg_utf_char_ok s mblen =
     (if mblen = 4 then \<not> (ord (s ! 3) < 0x80 \<or> ord (s ! 3) > 0xBF)
      else if mblen = 3 then \<not> (ord (s ! 2) < 0x80 \<or> ord (s ! 2) > 0xBF)
      else if mblen = 2 then
        (let a = ord (s ! 1) in
         if ord (s ! 0) = 0xE0 then \<not> (a < 0xA0 \<or> a > 0xBF)
         else if ord (s ! 0) = 0xED then \<not> (a < 0x80 \<or> a > 0x9F)
         else if ord (s ! 0) = 0xF0 then \<not> (a < 0x90 \<or> a > 0xBF)
         else if ord (s ! 0) = 0xF4 then \<not> (a < 0x80 \<or> a > 0x8F)
         else \<not> (a < 0x80 \<or> a > 0xBF))
      else if mblen = 1 then
        (let a = ord (s ! 0) in \<not> (a \<ge> 0x80 \<and> a < 0xC2) \<and> \<not> a > 0xF4)
      else False)"

function ngx_http_pg_utf_islegal :: "bytes \<Rightarrow> bool" where
  "ngx_http_pg_utf_islegal s =
     (if s = [] then True
      else
        (let mblen = ngx_http_pg_utf_mblen (s ! 0) in
         if length s < mblen then False
         else if \<not> pg_utf_char_ok s mblen then False
         else ngx_http_pg_utf_islegal (drop mblen s)))"
  by pat_completeness auto
termination
  by (relation "measure length") (auto simp: ngx_http_pg_utf_mblen_def)

declare ngx_http_pg_utf_islegal.simps [simp del]

definition pg_octal :: "char \<Rightarrow> bytes" where
  "pg_octal c =
     (if ord c AND 0x80 \<noteq> 0 then
        [BSL, BSL, chr (drop_bit 6 (ord c) + 48), chr ((drop_bit 3 (ord c) AND 7) + 48), chr ((ord c AND 7) + 48)]
      else [c])"

definition pg_escape_count :: "bytes \<Rightarrow> nat" where
  "pg_escape_count s = (\<Sum>c\<leftarrow>s. (if ord c AND 0x80 \<noteq> 0 then 4 else 0) + 1)"

text \<open>The memory taken is \<open>count\<close> bytes and the result is declared to be that long.\<close>

definition ngx_http_pg_utf_escape :: "bool \<Rightarrow> bytes \<Rightarrow> bytes option" where
  "ngx_http_pg_utf_escape pool s =
     (if \<not> pool then None else Some (take (pg_escape_count s) (concat (map pg_octal s))))"

text \<open>
  The result of \<open>ngx_http_set_misc_quote_sql_str\<close> is not looked at: when that call fails, \<open>res\<close> is
  what it was before, \<open>old\<close>.
\<close>

definition ngx_http_set_misc_quote_pgsql_str :: "bool \<Rightarrow> bytes \<Rightarrow> bytes option \<Rightarrow> bytes option" where
  "ngx_http_set_misc_quote_pgsql_str pool old v =
     (if v = None \<or> v = Some [] then Some [APOS, APOS]
      else
        (let q = (case ngx_http_set_misc_quote_sql_str pool v of None \<Rightarrow> old | Some q \<Rightarrow> q) in
         if \<not> pool then None
         else if ngx_http_pg_utf_islegal (CHR ''E'' # q) then Some (CHR ''E'' # q)
         else ngx_http_pg_utf_escape pool (CHR ''E'' # q)))"

section \<open>JSON strings\<close>

definition escape_json_count :: "bytes \<Rightarrow> nat" where
  "escape_json_count src =
     (\<Sum>c\<leftarrow>src. if ord c AND 0x80 = 0 then
         (if c = CR \<or> c = LF \<or> c = BSL \<or> c = DQUOT \<or> c = FF \<or> c = BS \<or> c = HTAB then 1
          else if ord c < 32 then 5 else 0)
        else 0)"

definition json_escape :: "char \<Rightarrow> bytes" where
  "json_escape c =
     (if ord c AND 0x80 = 0 then
        (if c = CR then [BSL, CHR ''r'']
         else if c = LF then [BSL, CHR ''n'']
         else if c = BSL then [BSL, BSL]
         else if c = DQUOT then [BSL, DQUOT]
         else if c = FF then [BSL, CHR ''f'']
         else if c = BS then [BSL, CHR ''b'']
         else if c = HTAB then [BSL, CHR ''t'']
         else if ord c < 32 then
           [BSL, CHR ''u'', CHR ''0'', CHR ''0'', ''0123456789abcdef'' ! drop_bit 4 (ord c),
            ''0123456789abcdef'' ! (ord c AND 0x0f)]
         else [c])
      else [c])"

definition ngx_http_set_misc_escape_json_str :: "bytes \<Rightarrow> bytes" where
  "ngx_http_set_misc_escape_json_str src = concat (map json_escape src)"

definition ngx_http_set_misc_quote_json_str :: "bool \<Rightarrow> bytes option \<Rightarrow> bytes option" where
  "ngx_http_set_misc_quote_json_str pool v =
     (case v of
        None \<Rightarrow> Some ''null''
      | Some d \<Rightarrow>
          if d = [] then Some ''null''
          else if \<not> pool then None
          else
            (let escape = escape_json_count d; len = 2 + length d + escape;
                 res = [DQUOT] @ (if escape = 0 then d else ngx_http_set_misc_escape_json_str d) @ [DQUOT] in
             if length res \<noteq> len then None else Some res))"

section \<open>Reading literals\<close>

text \<open>
  A MySQL string literal behind its opening quote: the bytes it denotes and what follows it. A
  doubled quote stands for one; \<open>\\%\<close> and \<open>\\_\<close> stand for themselves.
\<close>

definition mysql_unescape :: "char \<Rightarrow> bytes" where
  "mysql_unescape d =
     (if d = CHR ''0'' then [NUL] else if d = CHR ''b'' then [BS] else if d = CHR ''n'' then [LF]
      else if d = CHR ''r'' then [CR] else if d = CHR ''t'' then [HTAB] else if d = CHR ''Z'' then [SUB]
      else if d = CHR ''%'' \<or> d = CHR ''_'' then [BSL, d] else [d])"

fun mysql_body :: "bytes \<Rightarrow> (bytes \<times> bytes) option" where
  "mysql_body [] = None"
| "mysql_body (c # s) =
     (if c = APOS then
        (case s of
           [] \<Rightarrow> Some ([], [])
         | d # s' \<Rightarrow> if d = APOS then map_option (apfst ((#) APOS)) (mysql_body s') else Some ([], s))
      else if c = BSL then
        (case s of [] \<Rightarrow> None | d # s' \<Rightarrow> map_option (apfst ((@) (mysql_unescape d))) (mysql_body s'))
      else map_option (apfst ((#) c)) (mysql_body s))"

definition mysql_string :: "bytes \<Rightarrow> (bytes \<times> bytes) option" where
  "mysql_string s = (if s \<noteq> [] \<and> hd s = APOS then mysql_body (tl s) else None)"

text \<open>What follows a PostgreSQL escape string behind its opening quote.\<close>

fun pg_literal_end :: "bytes \<Rightarrow> bytes option" where
  "pg_literal_end [] = None"
| "pg_literal_end (c # s) =
     (if c = APOS then
        (case s of [] \<Rightarrow> Some [] | d # s' \<Rightarrow> if d = APOS then pg_literal_end s' else Some s)
      else if c = BSL then (case s of [] \<Rightarrow> None | d # s' \<Rightarrow> pg_literal_end s')
      else pg_literal_end s)"

text \<open>
  A JSON string behind its opening quote. A control character is an error; of the escapes by code
  point those below 128 are read, which are one byte.
\<close>

definition hex_of :: "char \<Rightarrow> nat option" where
  "hex_of c = (if digit c then Some (digit_val c) else if hexalpha20 c then Some (hexalpha_val c) else None)"

definition json_simple :: "char \<Rightarrow> char option" where
  "json_simple d =
     (if d = CHR ''b'' then Some BS else if d = CHR ''f'' then Some FF else if d = CHR ''n'' then Some LF
      else if d = CHR ''r'' then Some CR else if d = CHR ''t'' then Some HTAB
      else if d = DQUOT \<or> d = BSL \<or> d = CHR ''/'' then Some d else None)"

fun json_body :: "bytes \<Rightarrow> (bytes \<times> bytes) option" where
  "json_body [] = None"
| "json_body (c # s) =
     (if c = DQUOT then Some ([], s)
      else if c = BSL then
        (case s of
           a # b1 # b2 # b3 # b4 # s' \<Rightarrow>
             if a = CHR ''u'' then
               (case (hex_of b1, hex_of b2, hex_of b3, hex_of b4) of
                  (Some h1, Some h2, Some h3, Some h4) \<Rightarrow>
                    (let n = ((h1 * 16 + h2) * 16 + h3) * 16 + h4 in
                     if n < 128 then map_option (apfst ((#) (chr n))) (json_body s') else None)
                | _ \<Rightarrow> None)
             else
               (case json_simple a of
                  None \<Rightarrow> None
                | Some d \<Rightarrow> map_option (apfst ((#) d)) (json_body (b1 # b2 # b3 # b4 # s')))
         | a # s' \<Rightarrow>
             (case json_simple a of None \<Rightarrow> None | Some d \<Rightarrow> map_option (apfst ((#) d)) (json_body s'))
         | [] \<Rightarrow> None)
      else if ord c < 32 then None
      else map_option (apfst ((#) c)) (json_body s))"

definition json_string :: "bytes \<Rightarrow> (bytes \<times> bytes) option" where
  "json_string s = (if s \<noteq> [] \<and> hd s = DQUOT then json_body (tl s) else None)"

text \<open>UTF-8, RFC 3629.\<close>

definition u8_in :: "nat \<Rightarrow> nat \<Rightarrow> char \<Rightarrow> bool" where
  "u8_in lo hi c \<longleftrightarrow> lo \<le> ord c \<and> ord c \<le> hi"

abbreviation u8_tail :: "char \<Rightarrow> bool" where "u8_tail \<equiv> u8_in 0x80 0xBF"

fun utf8_ok :: "bytes \<Rightarrow> bool" where
  "utf8_ok [] = True"
| "utf8_ok (c # s) =
     (if ord c < 0x80 then utf8_ok s
      else if u8_in 0xC2 0xDF c then (case s of a # s' \<Rightarrow> u8_tail a \<and> utf8_ok s' | _ \<Rightarrow> False)
      else if u8_in 0xE0 0xEF c then
        (case s of
           a # b # s' \<Rightarrow> (if ord c = 0xE0 then u8_in 0xA0 0xBF a else if ord c = 0xED then u8_in 0x80 0x9F a else u8_tail a)
             \<and> u8_tail b \<and> utf8_ok s'
         | _ \<Rightarrow> False)
      else if u8_in 0xF0 0xF4 c then
        (case s of
           a # b # d # s' \<Rightarrow> (if ord c = 0xF0 then u8_in 0x90 0xBF a else if ord c = 0xF4 then u8_in 0x80 0x8F a else u8_tail a)
             \<and> u8_tail b \<and> u8_tail d \<and> utf8_ok s'
         | _ \<Rightarrow> False)
      else False)"

section \<open>Quoted strings are read back\<close>

lemma high_bit: "ord c AND 0x80 = 0 \<longleftrightarrow> ord c < 128"
proof (cases c)
  case (Char b0 b1 b2 b3 b4 b5 b6 b7)
  then show ?thesis
    by (cases b0; cases b1; cases b2; cases b3; cases b4; cases b5; cases b6; cases b7)
      (simp_all flip: numeral_2_eq_2 numeral_3_eq_3)
qed

lemma sql_escape_alt:
  "sql_escape c = (if c = NUL then [BSL, CHR ''0''] else if c = BS then [BSL, CHR ''b'']
      else if c = LF then [BSL, CHR ''n''] else if c = CR then [BSL, CHR ''r'']
      else if c = HTAB then [BSL, CHR ''t''] else if c = SUB then [BSL, CHR ''Z'']
      else if c = BSL \<or> c = APOS \<or> c = DQUOT \<or> c = CHR ''$'' then [BSL, c] else [c])"
  by (auto simp: sql_escape_def high_bit)

lemma sql_special_ascii: "sql_special c \<Longrightarrow> ord c < 128"
  by (auto simp: sql_special_def)

lemma sql_escape_length: "length (sql_escape c) = (if sql_special c then 2 else 1)"
  by (simp add: sql_escape_alt sql_special_def)

lemma sql_escape_plain: "\<not> sql_special c \<Longrightarrow> sql_escape c = [c]"
  by (simp add: sql_escape_alt sql_special_def)

lemma escape_sql_count_simps [simp]:
  "escape_sql_count [] = 0" "escape_sql_count (c # d) = (if sql_special c then 1 else 0) + escape_sql_count d"
  using sql_special_ascii [of c] by (auto simp: escape_sql_count_def high_bit)

lemma escape_sql_simps [simp]:
  "ngx_http_set_misc_escape_sql_str [] = []"
  "ngx_http_set_misc_escape_sql_str (c # d) = sql_escape c @ ngx_http_set_misc_escape_sql_str d"
  by (simp_all add: ngx_http_set_misc_escape_sql_str_def)

lemma escape_sql_length: "length (ngx_http_set_misc_escape_sql_str d) = length d + escape_sql_count d"
  by (induction d) (simp_all add: sql_escape_length)

lemma escape_sql_plain: "escape_sql_count d = 0 \<Longrightarrow> ngx_http_set_misc_escape_sql_str d = d"
  by (induction d) (simp_all add: sql_escape_plain split: if_splits)

lemma quote_sql_str:
  "ngx_http_set_misc_quote_sql_str True (Some d) = Some ([APOS] @ ngx_http_set_misc_escape_sql_str d @ [APOS])"
  using escape_sql_plain [of d] escape_sql_length [of d]
  by (auto simp: ngx_http_set_misc_quote_sql_str_def Let_def)

lemma mysql_body_escape:
  "mysql_body (sql_escape c @ s) = map_option (apfst ((#) c)) (mysql_body s)"
proof -
  have "(@) [x] = (#) x" for x :: char by auto
  then show ?thesis by (simp add: sql_escape_alt mysql_unescape_def)
qed

lemma mysql_body_escapes:
  assumes "take 1 rest \<noteq> [APOS]"
  shows "mysql_body (ngx_http_set_misc_escape_sql_str d @ APOS # rest) = Some (d, rest)"
proof (induction d)
  case Nil
  then show ?case using assms by (cases rest) auto
next
  case (Cons c d)
  then show ?case by (simp add: mysql_body_escape)
qed

text \<open>
  C32. \<open>set_quote_sql_str\<close> keeps a value inside its literal. For every value, with quotes,
  backslashes and zero bytes, it fills exactly the memory it measured and a MySQL server reads the
  result as one string literal that denotes the value, whatever the query goes on with but another
  quote: nothing of the value is read as SQL.
\<close>

theorem quote_sql_reads_back:
  assumes "take 1 rest \<noteq> [APOS]"
  shows "\<exists>q. ngx_http_set_misc_quote_sql_str True (Some d) = Some q \<and> length q = 2 + length d + escape_sql_count d \<and>
    mysql_string (q @ rest) = Some (d, rest)"
  using mysql_body_escapes [OF assms, of d] escape_sql_length [of d]
  by (simp add: quote_sql_str mysql_string_def)

theorem quote_sql_reads_back_witness:
  "\<exists>q. ngx_http_set_misc_quote_sql_str True (Some ([APOS] @ '' or 1=1'' @ [BSL])) = Some q \<and> length q = 13 \<and>
     mysql_string (q @ '' limit 1'') = Some ([APOS] @ '' or 1=1'' @ [BSL], '' limit 1'')"
  using quote_sql_reads_back [of "'' limit 1''" "[APOS] @ '' or 1=1'' @ [BSL]"]
  by (simp add: sql_special_def)

lemma json_escape_alt:
  "json_escape c = (if c = CR then [BSL, CHR ''r''] else if c = LF then [BSL, CHR ''n'']
      else if c = BSL \<or> c = DQUOT then [BSL, c] else if c = FF then [BSL, CHR ''f'']
      else if c = BS then [BSL, CHR ''b''] else if c = HTAB then [BSL, CHR ''t'']
      else if ord c < 32 then [BSL, CHR ''u'', CHR ''0'', CHR ''0'', ''0123456789abcdef'' ! (ord c div 16),
        ''0123456789abcdef'' ! (ord c mod 16)]
      else [c])"
  by (auto simp: json_escape_def high_bit nibbles)

definition json_extra :: "char \<Rightarrow> nat" where
  "json_extra c = (if c = CR \<or> c = LF \<or> c = BSL \<or> c = DQUOT \<or> c = FF \<or> c = BS \<or> c = HTAB then 1
     else if ord c < 32 then 5 else 0)"

lemma json_escape_length: "length (json_escape c) = 1 + json_extra c"
  by (simp add: json_escape_alt json_extra_def)

lemma json_escape_plain: "json_extra c = 0 \<Longrightarrow> json_escape c = [c]"
  by (simp add: json_escape_alt json_extra_def split: if_splits)

lemma escape_json_count_simps [simp]:
  "escape_json_count [] = 0" "escape_json_count (c # d) = json_extra c + escape_json_count d"
  by (auto simp: escape_json_count_def json_extra_def high_bit)

lemma escape_json_simps [simp]:
  "ngx_http_set_misc_escape_json_str [] = []"
  "ngx_http_set_misc_escape_json_str (c # d) = json_escape c @ ngx_http_set_misc_escape_json_str d"
  by (simp_all add: ngx_http_set_misc_escape_json_str_def)

lemma escape_json_length: "length (ngx_http_set_misc_escape_json_str d) = length d + escape_json_count d"
  by (induction d) (simp_all add: json_escape_length)

lemma escape_json_plain: "escape_json_count d = 0 \<Longrightarrow> ngx_http_set_misc_escape_json_str d = d"
  by (induction d) (simp_all add: json_escape_plain)

lemma json_body_simple:
  assumes "json_simple a = Some d"
  shows "json_body (BSL # a # s) = map_option (apfst ((#) d)) (json_body s)"
proof -
  have "a \<noteq> CHR ''u''" using assms by (auto simp: json_simple_def)
  then show ?thesis using assms by (simp split: list.split)
qed

lemma hex_of_digit: "n < 16 \<Longrightarrow> hex_of (''0123456789abcdef'' ! n) = Some n"
  using less_16_cases [of n]
  by (auto simp: hex_of_def digit_def digit_val_def hexalpha20_def hexalpha_val_def less_eq_char_def)

lemma json_body_control:
  assumes "hex_of x = Some a" "hex_of y = Some b" "a * 16 + b < 128"
  shows "json_body (BSL # CHR ''u'' # CHR ''0'' # CHR ''0'' # x # y # s) = map_option (apfst ((#) (chr (a * 16 + b)))) (json_body s)"
proof -
  have "hex_of (CHR ''0'') = Some 0" by (simp add: hex_of_def digit_def digit_val_def)
  then show ?thesis using assms by simp
qed

lemma json_body_plain:
  "c \<noteq> DQUOT \<Longrightarrow> c \<noteq> BSL \<Longrightarrow> \<not> ord c < 32 \<Longrightarrow> json_body (c # s) = map_option (apfst ((#) c)) (json_body s)"
  by simp

lemma json_body_escape: "json_body (json_escape c @ s) = map_option (apfst ((#) c)) (json_body s)"
proof (cases "ord c < 32 \<and> c \<noteq> CR \<and> c \<noteq> LF \<and> c \<noteq> FF \<and> c \<noteq> BS \<and> c \<noteq> HTAB")
  case True
  let ?x = "''0123456789abcdef'' ! (ord c div 16)" and ?y = "''0123456789abcdef'' ! (ord c mod 16)"
  have h: "hex_of ?x = Some (ord c div 16)" "hex_of ?y = Some (ord c mod 16)"
    using hex_of_digit [of "ord c div 16"] hex_of_digit [of "ord c mod 16"] nibbles(3) [of c] by auto
  have "ord c < 32" using True by (rule conjunct1)
  then have ne: "c \<noteq> BSL" "c \<noteq> DQUOT" by auto
  have "json_escape c = [BSL, CHR ''u'', CHR ''0'', CHR ''0'', ?x, ?y]"
    using True ne by (simp add: json_escape_alt)
  then show ?thesis using json_body_control [OF h] True by (simp del: json_body.simps)
next
  case False
  then show ?thesis
    by (auto simp: json_escape_alt json_body_simple json_body_plain json_simple_def simp del: json_body.simps)
qed

lemma json_body_escapes: "json_body (ngx_http_set_misc_escape_json_str d @ DQUOT # rest) = Some (d, rest)"
  by (induction d) (simp_all add: json_body_escape)

text \<open>
  \<open>set_quote_json_str\<close> fills exactly the memory it measured, and what it writes of a value is
  one JSON string that denotes the value: no control character, quote or backslash of the value
  escapes from it.
\<close>

theorem quote_json_reads_back:
  assumes "d \<noteq> []"
  shows "\<exists>q. ngx_http_set_misc_quote_json_str True (Some d) = Some q \<and> length q = 2 + length d + escape_json_count d \<and>
    json_string (q @ rest) = Some (d, rest)"
proof -
  have "ngx_http_set_misc_quote_json_str True (Some d) = Some ([DQUOT] @ ngx_http_set_misc_escape_json_str d @ [DQUOT])"
    using assms escape_json_plain [of d] escape_json_length [of d]
    by (auto simp: ngx_http_set_misc_quote_json_str_def Let_def)
  then show ?thesis
    using json_body_escapes [of d rest] escape_json_length [of d] by (simp add: json_string_def)
qed

theorem quote_json_reads_back_witness:
  "\<exists>q. ngx_http_set_misc_quote_json_str True (Some [DQUOT, LF, CHR 0x01]) = Some q \<and> length q = 12 \<and>
     json_string (q @ ''}'') = Some ([DQUOT, LF, CHR 0x01], ''}'')"
  using quote_json_reads_back [of "[DQUOT, LF, CHR 0x01]" "''}''"] by (simp add: json_extra_def)

section \<open>PostgreSQL literals\<close>

text \<open>Pieces of a literal the reader passes over.\<close>

definition pg_inside :: "bytes \<Rightarrow> bool" where
  "pg_inside p \<longleftrightarrow> (\<forall>s. pg_literal_end (p @ s) = pg_literal_end s)"

lemma pg_inside_append: "pg_inside p \<Longrightarrow> pg_inside q \<Longrightarrow> pg_inside (p @ q)"
  by (simp add: pg_inside_def)

lemma sql_escape_inside: "pg_inside (sql_escape c)"
  by (simp add: pg_inside_def sql_escape_alt)

lemma octal_digit:
  assumes "n < 8"
  shows "chr (n + 48) \<noteq> APOS \<and> chr (n + 48) \<noteq> BSL"
proof -
  have "ord (chr (n + 48)) = n + 48" using assms by simp
  then have "chr (n + 48) \<noteq> c" if "ord c < 48 \<or> 55 < ord c" for c using that assms by auto
  from this [of APOS] this [of BSL] show ?thesis by simp
qed

lemma pg_octal_escape_inside: "pg_inside (concat (map pg_octal (sql_escape c)))"
proof (cases "ord c < 128")
  case True
  then have "concat (map pg_octal (sql_escape c)) = sql_escape c"
    by (simp add: sql_escape_alt pg_octal_def high_bit)
  then show ?thesis by (simp add: sql_escape_inside)
next
  case False
  have d: "drop_bit 6 (ord c) < 8" "drop_bit 3 (ord c) AND 7 < 8" "ord c AND 7 < 8"
    using less_trans [OF nat_of_char_less_256 [of c], of 512] less_mult_imp_div_less [of "ord c" 8 64] take_bit_eq_mod [of 3 "ord c"]
      take_bit_eq_mod [of 3 "drop_bit 3 (ord c)"]
    by (simp_all add: drop_bit_eq_div take_bit_eq_mask mask_eq_exp_minus_1)
  have "sql_escape c = [c]" using False by (intro sql_escape_plain) (auto dest: sql_special_ascii)
  then show ?thesis
    using False d [THEN octal_digit] by (simp add: pg_inside_def pg_octal_def high_bit)
qed

lemma pg_escape_exact: "ngx_http_pg_utf_escape True s = Some (concat (map pg_octal s))"
proof -
  have "length (concat (map pg_octal s)) = pg_escape_count s"
    by (induction s) (auto simp: pg_octal_def pg_escape_count_def)
  then show ?thesis by (simp add: ngx_http_pg_utf_escape_def)
qed

lemma pg_utf_mblen_ord:
  "ngx_http_pg_utf_mblen c = (if ord c < 0xC0 then 1 else if ord c < 0xE0 then 2 else if ord c < 0xF0 then 3
     else if ord c < 0xF8 then 4 else 1)"
proof (cases c)
  case (Char b0 b1 b2 b3 b4 b5 b6 b7)
  then show ?thesis
    by (cases b0; cases b1; cases b2; cases b3; cases b4; cases b5; cases b6; cases b7)
      (simp_all add: ngx_http_pg_utf_mblen_def flip: numeral_2_eq_2 numeral_3_eq_3)
qed

lemma utf8_ok_legal: "utf8_ok s \<Longrightarrow> ngx_http_pg_utf_islegal s"
proof (induction s rule: utf8_ok.induct)
  case 1
  show ?case by (simp add: ngx_http_pg_utf_islegal.simps)
next
  case (2 c s)
  consider (one) "ord c < 0x80" "utf8_ok s"
    | (two) a s' where "u8_in 0xC2 0xDF c" "s = a # s'" "u8_tail a" "utf8_ok s'"
    | (three) a b s' where "u8_in 0xE0 0xEF c" "s = a # b # s'" "u8_tail b" "utf8_ok s'"
    | (four) a b d s' where "u8_in 0xF0 0xF4 c" "s = a # b # d # s'" "u8_tail d" "utf8_ok s'"
    using "2.prems" by (auto split: if_splits list.splits)
  then show ?case
  proof cases
    case one
    then show ?thesis
      using "2.IH"(1) by (subst ngx_http_pg_utf_islegal.simps) (simp add: pg_utf_mblen_ord pg_utf_char_ok_def Let_def)
  next
    case two
    then have "ngx_http_pg_utf_islegal s'" using "2.IH"(2) by (auto simp: u8_in_def)
    with two show ?thesis
      by (subst ngx_http_pg_utf_islegal.simps) (auto simp: pg_utf_mblen_ord pg_utf_char_ok_def Let_def u8_in_def)
  next
    case three
    then have "ngx_http_pg_utf_islegal s'" using "2.IH"(3) by (auto simp: u8_in_def)
    with three show ?thesis
      by (subst ngx_http_pg_utf_islegal.simps) (auto simp: pg_utf_mblen_ord pg_utf_char_ok_def Let_def u8_in_def)
  next
    case four
    then have "ngx_http_pg_utf_islegal s'" using "2.IH"(4) by (auto simp: u8_in_def)
    with four show ?thesis
      by (subst ngx_http_pg_utf_islegal.simps) (auto simp: pg_utf_mblen_ord pg_utf_char_ok_def Let_def u8_in_def)
  qed
qed

lemma utf8_ok_escape: "utf8_ok d \<Longrightarrow> utf8_ok (ngx_http_set_misc_escape_sql_str d @ [APOS])"
proof (induction d rule: utf8_ok.induct)
  case (2 c s)
  have high: "sql_escape x = [x]" if "\<not> ord x < 128" for x
    using that by (intro sql_escape_plain) (auto dest: sql_special_ascii)
  have tail: "u8_in lo hi x \<Longrightarrow> 128 \<le> lo \<Longrightarrow> sql_escape x = [x]" for lo hi x
    by (rule high) (simp add: u8_in_def)
  have low: "utf8_ok (sql_escape c @ t) = utf8_ok t" if "ord c < 128" for t
    using that by (simp add: sql_escape_alt)
  consider (one) "ord c < 0x80" "utf8_ok s"
    | (two) a s' where "\<not> ord c < 0x80" "u8_in 0xC2 0xDF c" "s = a # s'" "u8_tail a" "utf8_ok s'"
    | (three) a b s' where "\<not> ord c < 0x80" "\<not> u8_in 0xC2 0xDF c" "u8_in 0xE0 0xEF c" "s = a # b # s'"
        "if ord c = 0xE0 then u8_in 0xA0 0xBF a else if ord c = 0xED then u8_in 0x80 0x9F a else u8_tail a" "u8_tail b" "utf8_ok s'"
    | (four) a b d s' where "\<not> ord c < 0x80" "\<not> u8_in 0xC2 0xDF c" "\<not> u8_in 0xE0 0xEF c" "u8_in 0xF0 0xF4 c" "s = a # b # d # s'"
        "if ord c = 0xF0 then u8_in 0x90 0xBF a else if ord c = 0xF4 then u8_in 0x80 0x8F a else u8_tail a" "u8_tail b" "u8_tail d" "utf8_ok s'"
    using "2.prems" by (auto split: if_splits list.splits)
  then show ?case
  proof cases
    case one
    then show ?thesis using "2.IH"(1) by (simp add: low)
  next
    case two
    then show ?thesis using "2.IH"(2) by (simp add: high [of c] tail)
  next
    case three
    then have "128 \<le> ord a" by (auto simp: u8_in_def split: if_splits)
    with three show ?thesis using "2.IH"(3) by (simp add: high [of c] high [of a] tail)
  next
    case four
    then have "128 \<le> ord a" by (auto simp: u8_in_def split: if_splits)
    with four show ?thesis using "2.IH"(4) by (simp add: high [of c] high [of a] tail)
  qed
qed simp

text \<open>
  \<open>set_quote_pgsql_str\<close> keeps a value inside its literal, whatever its bytes: the result is one
  escape string that ends at its own closing quote, also where bytes that are not UTF-8 are replaced
  by octal digits. A value in UTF-8 is quoted and not replaced.
\<close>

theorem quote_pgsql_contained:
  assumes "d \<noteq> []" "take 1 rest \<noteq> [APOS]"
  shows "\<exists>body. ngx_http_set_misc_quote_pgsql_str True old (Some d) = Some ([CHR ''E'', APOS] @ body @ [APOS]) \<and>
      pg_literal_end (body @ APOS # rest) = Some rest \<and>
      (utf8_ok d \<longrightarrow> body = ngx_http_set_misc_escape_sql_str d)"
proof -
  let ?q = "ngx_http_set_misc_escape_sql_str d" and ?e = "CHR ''E'' # APOS # ngx_http_set_misc_escape_sql_str d @ [APOS]"
  have close: "pg_literal_end (APOS # rest) = Some rest" using assms(2) by (cases rest) auto
  have esc: "pg_inside ?q" "pg_inside (concat (map pg_octal ?q))"
    by (induction d) (simp_all add: pg_inside_append sql_escape_inside pg_octal_escape_inside, simp_all add: pg_inside_def)
  have legal: "ngx_http_pg_utf_islegal ?e" if "utf8_ok d"
    using utf8_ok_escape [OF that] by (intro utf8_ok_legal) simp
  show ?thesis
  proof (cases "ngx_http_pg_utf_islegal ?e")
    case True
    then show ?thesis
      using assms(1) esc(1) close
      by (intro exI [of _ ?q]) (simp add: ngx_http_set_misc_quote_pgsql_str_def quote_sql_str Let_def pg_inside_def)
  next
    case False
    then show ?thesis
      using assms(1) esc(2) close legal
      by (intro exI [of _ "concat (map pg_octal ?q)"])
        (auto simp: ngx_http_set_misc_quote_pgsql_str_def quote_sql_str Let_def pg_inside_def pg_escape_exact pg_octal_def)
  qed
qed

theorem quote_pgsql_contained_witness:
  "\<exists>body. ngx_http_set_misc_quote_pgsql_str True [] (Some [APOS, CHR 0xFF, CHR ''x'']) = Some ([CHR ''E'', APOS] @ body @ [APOS]) \<and>
     pg_literal_end (body @ [APOS, CHR '';'']) = Some '';''"
  using quote_pgsql_contained [of "[APOS, CHR 0xFF, CHR ''x'']" "'';''" "[]"] by auto

text \<open>
  The converse fails: the cases of \<open>ngx_http_pg_utf_islegal\<close> do not fall through, so of a character
  of three or four bytes only the last is looked at, and bytes that are not UTF-8 pass.
\<close>

theorem pg_utf_islegal_lax:
  "ngx_http_pg_utf_islegal [CHR 0xE2, CHR 0x28, CHR 0xA1] \<and> \<not> utf8_ok [CHR 0xE2, CHR 0x28, CHR 0xA1]"
  by (simp add: ngx_http_pg_utf_islegal.simps pg_utf_mblen_ord pg_utf_char_ok_def u8_in_def)

end
