(* ===== verification/Set_Misc_Base32.thy ===== *)
theory Set_Misc_Base32
  imports Ngx_Base64 Ngx_String
begin

text \<open>
  Base32 and the value directives of \<open>set-misc-nginx-module-master/src\<close>: \<open>ngx_http_set_base32.c\<close> with
  the configuration of its alphabet (\<open>ngx_http_set_misc_module.c\<close>), \<open>set_rotate\<close>
  (\<open>ngx_http_set_rotate.c\<close>), \<open>set_random\<close> (\<open>ngx_http_set_random.c\<close>), \<open>set_if_empty\<close>
  (\<open>ngx_http_set_default_value.c\<close>) and \<open>set_hashed_upstream\<close> (\<open>ngx_http_set_hashed_upstream.c\<close>).
\<close>

section \<open>Configuration\<close>

text \<open>
  \<open>current\<close> and \<open>base32_padding\<close> are \<open>None\<close> while \<open>NGX_CONF_UNSET\<close>. The configuration is allocated by
  \<open>ngx_palloc\<close>, which does not clear it: \<open>basis32\<close> starts as what the memory holds.
\<close>

record set_misc_conf =
  base32_padding :: "bool option"
  base32_alphabet :: bytes
  basis32 :: "nat list"
  rotate_current :: "int option"

definition ngx_http_set_misc_create_loc_conf :: "nat list \<Rightarrow> set_misc_conf" where
  "ngx_http_set_misc_create_loc_conf memory =
     \<lparr>base32_padding = None, base32_alphabet = [], basis32 = memory, rotate_current = None\<rparr>"

text \<open>The loop that inverts the alphabet.\<close>

definition basis32_of :: "bytes \<Rightarrow> nat list \<Rightarrow> nat list" where
  "basis32_of alphabet table = fold (\<lambda>i t. t[ord (alphabet ! i) := i]) [0..<32] table"

definition ngx_http_set_misc_merge_loc_conf :: "set_misc_conf \<Rightarrow> set_misc_conf \<Rightarrow> set_misc_conf" where
  "ngx_http_set_misc_merge_loc_conf prev conf =
     (let padding = (case base32_padding conf of
                       Some b \<Rightarrow> b | None \<Rightarrow> (case base32_padding prev of Some b \<Rightarrow> b | None \<Rightarrow> True));
          alphabet = (if base32_alphabet conf \<noteq> [] then base32_alphabet conf
                      else if base32_alphabet prev \<noteq> [] then base32_alphabet prev
                      else ''0123456789abcdefghijklmnopqrstuv'');
          current = (case rotate_current conf of Some c \<Rightarrow> Some c | None \<Rightarrow> rotate_current prev) in
      conf\<lparr>base32_padding := Some padding, base32_alphabet := alphabet, rotate_current := current,
           basis32 := basis32_of alphabet (basis32 conf)\<rparr>)"

text \<open>The directive \<open>set_base32_alphabet\<close>: \<open>None\<close> is \<open>NGX_CONF_ERROR\<close>; a second one is a duplicate.\<close>

definition ngx_http_set_misc_base32_alphabet :: "bytes \<Rightarrow> set_misc_conf \<Rightarrow> set_misc_conf option" where
  "ngx_http_set_misc_base32_alphabet value conf =
     (if length value \<noteq> 32 then None
      else if base32_alphabet conf \<noteq> [] then None
      else Some (conf\<lparr>base32_alphabet := value\<rparr>))"

section \<open>Base32\<close>

definition base32_encoded_length :: "nat \<Rightarrow> nat" where
  "base32_encoded_length len = ((len + 4) div 5) * 8"

definition base32_decoded_length :: "nat \<Rightarrow> nat" where
  "base32_decoded_length len = ((len + 7) div 8) * 5"

text \<open>Five bytes become eight characters; one to four bytes are left.\<close>

fun encode_base32 :: "bytes \<Rightarrow> bool \<Rightarrow> bytes \<Rightarrow> bytes" where
  "encode_base32 basis padding (s0 # s1 # s2 # s3 # s4 # s) =
     basis ! drop_bit 3 (ord s0) #
     basis ! (push_bit 2 (ord s0 AND 7) OR drop_bit 6 (ord s1)) #
     basis ! (drop_bit 1 (ord s1) AND 0x1f) #
     basis ! (push_bit 4 (ord s1 AND 1) OR drop_bit 4 (ord s2)) #
     basis ! (push_bit 1 (ord s2 AND 0x0f) OR drop_bit 7 (ord s3)) #
     basis ! (drop_bit 2 (ord s3) AND 0x1f) #
     basis ! (push_bit 3 (ord s3 AND 3) OR drop_bit 5 (ord s4)) #
     basis ! (ord s4 AND 0x1f) # encode_base32 basis padding s"
| "encode_base32 basis padding [] = []"
| "encode_base32 basis padding [s0] =
     [basis ! drop_bit 3 (ord s0), basis ! push_bit 2 (ord s0 AND 7)] @
     (if padding then ''====='' else []) @ (if padding then ''='' else [])"
| "encode_base32 basis padding [s0, s1] =
     [basis ! drop_bit 3 (ord s0), basis ! (push_bit 2 (ord s0 AND 7) OR drop_bit 6 (ord s1)),
      basis ! (drop_bit 1 (ord s1) AND 0x1f), basis ! push_bit 4 (ord s1 AND 1)] @
     (if padding then ''==='' else []) @ (if padding then ''='' else [])"
| "encode_base32 basis padding [s0, s1, s2] =
     [basis ! drop_bit 3 (ord s0), basis ! (push_bit 2 (ord s0 AND 7) OR drop_bit 6 (ord s1)),
      basis ! (drop_bit 1 (ord s1) AND 0x1f), basis ! (push_bit 4 (ord s1 AND 1) OR drop_bit 4 (ord s2)),
      basis ! push_bit 1 (ord s2 AND 0x0f)] @
     (if padding then ''=='' else []) @ (if padding then ''='' else [])"
| "encode_base32 basis padding [s0, s1, s2, s3] =
     [basis ! drop_bit 3 (ord s0), basis ! (push_bit 2 (ord s0 AND 7) OR drop_bit 6 (ord s1)),
      basis ! (drop_bit 1 (ord s1) AND 0x1f), basis ! (push_bit 4 (ord s1 AND 1) OR drop_bit 4 (ord s2)),
      basis ! (push_bit 1 (ord s2 AND 0x0f) OR drop_bit 7 (ord s3)), basis ! (drop_bit 2 (ord s3) AND 0x1f),
      basis ! push_bit 3 (ord s3 AND 3)] @ (if padding then ''='' else [])"

text \<open>
  The decoding loop and its tails; a byte is what fits \<open>u_char\<close>. The characters before the first \<open>=\<close>
  are those \<open>base64_scan\<close> finds: the two decoders begin with the same loop.
\<close>

fun base32_groups :: "nat list \<Rightarrow> bytes \<Rightarrow> bytes" where
  "base32_groups b (s0 # s1 # s2 # s3 # s4 # s5 # s6 # s7 # s) =
     chr (push_bit 3 (b ! ord s0) OR (drop_bit 2 (b ! ord s1) AND 7)) #
     chr (push_bit 6 (b ! ord s1 AND 3) OR push_bit 1 (b ! ord s2) OR (drop_bit 4 (b ! ord s3) AND 1)) #
     chr (push_bit 4 (b ! ord s3 AND 0x0f) OR (drop_bit 1 (b ! ord s4) AND 0x0f)) #
     chr (push_bit 7 (b ! ord s4 AND 1) OR push_bit 2 (b ! ord s5 AND 0x1f) OR (drop_bit 3 (b ! ord s6) AND 3)) #
     chr (push_bit 5 (b ! ord s6 AND 7) OR (b ! ord s7 AND 0x1f)) # base32_groups b s"
| "base32_groups b (s0 # s1 # s) =
     chr (push_bit 3 (b ! ord s0) OR (drop_bit 2 (b ! ord s1) AND 7)) #
     (case s of
        s2 # s3 # t \<Rightarrow>
          chr (push_bit 6 (b ! ord s1 AND 3) OR push_bit 1 (b ! ord s2 AND 0x1f) OR (drop_bit 4 (b ! ord s3) AND 1)) #
          (case t of
             [] \<Rightarrow> []
           | s4 # u \<Rightarrow>
               chr (push_bit 4 (b ! ord s3 AND 0x0f) OR (drop_bit 1 (b ! ord s4) AND 0x0f)) #
               (case u of
                  s5 # s6 # _ \<Rightarrow>
                    [chr (push_bit 7 (b ! ord s4 AND 1) OR push_bit 2 (b ! ord s5 AND 0x1f) OR (drop_bit 3 (b ! ord s6) AND 3))]
                | _ \<Rightarrow> []))
      | _ \<Rightarrow> [])"
| "base32_groups b s = []"

definition decode_base32 :: "nat list \<Rightarrow> bytes \<Rightarrow> bytes option" where
  "decode_base32 b src =
     (case base64_scan b src of
        None \<Rightarrow> None
      | Some s \<Rightarrow>
          let m = length s mod 8 in
          if m = 1 \<or> m = 3 \<or> m = 6 then None else Some (base32_groups b s))"

text \<open>The directives; a value that cannot be decoded becomes the empty string.\<close>

definition ngx_http_set_misc_encode_base32 :: "bool \<Rightarrow> set_misc_conf \<Rightarrow> bytes \<Rightarrow> bytes option" where
  "ngx_http_set_misc_encode_base32 pool conf v =
     (if \<not> pool then None
      else Some (encode_base32 (base32_alphabet conf) (base32_padding conf \<noteq> Some False) v))"

definition ngx_http_set_misc_decode_base32 :: "bool \<Rightarrow> set_misc_conf \<Rightarrow> bytes \<Rightarrow> bytes option" where
  "ngx_http_set_misc_decode_base32 pool conf v =
     (if \<not> pool then None
      else (case decode_base32 (basis32 conf) v of Some d \<Rightarrow> Some d | None \<Rightarrow> Some []))"

section \<open>Values\<close>

definition ngx_http_set_misc_set_if_empty :: "bytes option \<Rightarrow> bytes \<Rightarrow> bytes" where
  "ngx_http_set_misc_set_if_empty cur_v default_v =
     (case cur_v of None \<Rightarrow> default_v | Some d \<Rightarrow> if d = [] then default_v else d)"

definition rotate_unknown :: "set_misc_conf \<Rightarrow> int \<Rightarrow> int" where
  "rotate_unknown conf int_from = (case rotate_current conf of Some c \<Rightarrow> c | None \<Rightarrow> int_from - 1)"

text \<open>
  \<open>set_rotate\<close>: the text of the next number and the configuration that remembers it. \<open>int_current++\<close>
  at the largest number is out of range and begins again, as it does in unbounded arithmetic.
\<close>

definition ngx_http_set_misc_set_rotate ::
    "bool \<Rightarrow> bytes \<Rightarrow> bytes \<Rightarrow> bytes \<Rightarrow> set_misc_conf \<Rightarrow> bytes option \<times> set_misc_conf" where
  "ngx_http_set_misc_set_rotate pool rotate_num rotate_from rotate_to conf =
     (let a = ngx_atoi rotate_from in
      if a = NGX_ERROR then (None, conf)
      else
        (let b = ngx_atoi rotate_to in
         if b = NGX_ERROR then (None, conf)
         else
           (let int_from = min a b; int_to = max a b;
                cur0 = (if rotate_num = [] then rotate_unknown conf int_from
                        else if ngx_atoi rotate_num = NGX_ERROR then rotate_unknown conf int_from
                        else ngx_atoi rotate_num);
                cur1 = cur0 + 1;
                int_current = (if cur1 > int_to \<or> cur1 < int_from then int_from else cur1);
                conf' = conf\<lparr>rotate_current := Some int_current\<rparr> in
            if \<not> pool then (None, conf') else (Some (num_digits (nat int_current) 0), conf'))))"

text \<open>\<open>random\<close> is the number \<open>rand\<close> returns, not negative.\<close>

definition ngx_http_set_misc_set_random :: "bool \<Rightarrow> nat \<Rightarrow> bytes \<Rightarrow> bytes \<Rightarrow> bytes option" where
  "ngx_http_set_misc_set_random pool random rand_from rand_to =
     (let a = ngx_atoi rand_from in
      if a = NGX_ERROR then None
      else
        (let b = ngx_atoi rand_to in
         if b = NGX_ERROR then None
         else
           (let int_from = min a b; int_to = max a b in
            if \<not> pool then None
            else Some (num_digits (nat (int random mod (int_to - int_from + 1) + int_from)) 0))))"

definition ngx_hash_key_lc :: "bytes \<Rightarrow> 64 word" where
  "ngx_hash_key_lc d = foldl (\<lambda>key c. key * 31 + of_nat (ord (ngx_tolower c))) 0 d"

definition ngx_http_set_misc_apply_distribution :: "64 word \<Rightarrow> nat \<Rightarrow> nat" where
  "ngx_http_set_misc_apply_distribution hash nelts = unat ((ucast hash :: 32 word) mod of_nat nelts)"

text \<open>
  \<open>ul\<close> is the list the directive was given, \<open>None\<close> when its name holds variables: then \<open>upstreams\<close> is
  searched for the value of the name.
\<close>

definition ngx_http_set_misc_set_hashed_upstream ::
    "(bytes \<Rightarrow> bytes list option) \<Rightarrow> bytes list option \<Rightarrow> bytes \<Rightarrow> bytes \<Rightarrow> bytes option" where
  "ngx_http_set_misc_set_hashed_upstream upstreams ul name key =
     (case (case ul of Some u \<Rightarrow> Some u | None \<Rightarrow> upstreams name) of
        None \<Rightarrow> None
      | Some u \<Rightarrow>
          if u = [] then Some []
          else if length u = 1 then Some (u ! 0)
          else Some (u ! ngx_http_set_misc_apply_distribution (ngx_hash_key_lc key) (length u)))"

section \<open>Five bits at a time\<close>

lemma and_low:
  fixes x :: nat
  shows "x AND 1 = take_bit 1 x" "x AND 3 = take_bit 2 x" "x AND 7 = take_bit 3 x" "x AND 15 = take_bit 4 x"
    "x AND 31 = take_bit 5 x"
  by (simp_all add: take_bit_eq_mask mask_eq_exp_minus_1)

lemma bit_iffs:
  fixes x y :: nat
  shows "bit (x OR y) m \<longleftrightarrow> bit x m \<or> bit y m" "bit (push_bit n x) m \<longleftrightarrow> n \<le> m \<and> bit x (m - n)"
    "bit (drop_bit n x) m \<longleftrightarrow> bit x (n + m)" "bit (take_bit n x) m \<longleftrightarrow> m < n \<and> bit x m"
  by (auto simp: bit_simps)

lemma bit_ord: "bit (ord c) m \<Longrightarrow> m < 8"
proof -
  assume b: "bit (ord c) m"
  have "take_bit 8 (ord c) = ord c" using nat_of_char_less_256 [of c] by (intro take_bit_nat_eq_self) simp
  with b show "m < 8" by (metis bit_take_bit_iff)
qed

lemma less_32I:
  fixes n :: nat
  assumes "\<And>m. bit n m \<Longrightarrow> m < 5"
  shows "n < 32"
proof -
  have "take_bit 5 n = n" by (rule bit_eqI) (use assms in \<open>auto simp: bit_iffs\<close>)
  moreover have "take_bit 5 n < 2 ^ 5" by (rule take_bit_nat_less_exp)
  ultimately show ?thesis by simp
qed

lemma chr_bitI:
  assumes "\<forall>m\<in>{0, 1, 2, 3, 4, 5, 6, 7}. bit n m \<longleftrightarrow> bit (ord c) m"
  shows "chr n = c"
proof (rule chr_mod)
  have "bit n m \<longleftrightarrow> bit (ord c) m" if "m < 8" for m
  proof -
    have "m \<in> {0, 1, 2, 3, 4, 5, 6, 7}" using that by auto
    with assms show ?thesis by blast
  qed
  then have "take_bit 8 n = ord c"
    by (intro bit_eqI) (auto simp: bit_iffs dest: bit_ord)
  then show "n mod 256 = ord c" by (simp add: take_bit_eq_mod)
qed

text \<open>The eight values of a group of five bytes.\<close>

definition b32_0 :: "char \<Rightarrow> nat" where "b32_0 a = drop_bit 3 (ord a)"
definition b32_1 :: "char \<Rightarrow> char \<Rightarrow> nat" where "b32_1 a b = push_bit 2 (ord a AND 7) OR drop_bit 6 (ord b)"
definition b32_2 :: "char \<Rightarrow> nat" where "b32_2 b = drop_bit 1 (ord b) AND 0x1f"
definition b32_3 :: "char \<Rightarrow> char \<Rightarrow> nat" where "b32_3 b c = push_bit 4 (ord b AND 1) OR drop_bit 4 (ord c)"
definition b32_4 :: "char \<Rightarrow> char \<Rightarrow> nat" where "b32_4 c d = push_bit 1 (ord c AND 0x0f) OR drop_bit 7 (ord d)"
definition b32_5 :: "char \<Rightarrow> nat" where "b32_5 d = drop_bit 2 (ord d) AND 0x1f"
definition b32_6 :: "char \<Rightarrow> char \<Rightarrow> nat" where "b32_6 d e = push_bit 3 (ord d AND 3) OR drop_bit 5 (ord e)"
definition b32_7 :: "char \<Rightarrow> nat" where "b32_7 e = ord e AND 0x1f"

lemmas b32_defs = b32_0_def b32_1_def b32_2_def b32_3_def b32_4_def b32_5_def b32_6_def b32_7_def

lemma b32_less:
  "b32_0 a < 32" "b32_1 a b < 32" "b32_2 b < 32" "b32_3 b c < 32" "b32_4 c d < 32" "b32_5 d < 32" "b32_6 d e < 32" "b32_7 e < 32"
  unfolding b32_defs and_low by (rule less_32I; unfold bit_iffs; auto dest: bit_ord)+

lemma b32_tail:
  "push_bit 2 (ord a AND 7) = b32_1 a NUL" "push_bit 4 (ord b AND 1) = b32_3 b NUL"
  "push_bit 1 (ord c AND 0x0f) = b32_4 c NUL" "push_bit 3 (ord d AND 3) = b32_6 d NUL"
  by (simp_all add: b32_defs)

lemma b32_bytes:
  "chr (push_bit 3 (b32_0 a) OR (drop_bit 2 (b32_1 a b) AND 7)) = a"
  "chr (push_bit 6 (b32_1 a b AND 3) OR push_bit 1 (b32_2 b) OR (drop_bit 4 (b32_3 b c) AND 1)) = b"
  "chr (push_bit 6 (b32_1 a b AND 3) OR push_bit 1 (b32_2 b AND 0x1f) OR (drop_bit 4 (b32_3 b c) AND 1)) = b"
  "chr (push_bit 4 (b32_3 b c AND 0x0f) OR (drop_bit 1 (b32_4 c d) AND 0x0f)) = c"
  "chr (push_bit 7 (b32_4 c d AND 1) OR push_bit 2 (b32_5 d AND 0x1f) OR (drop_bit 3 (b32_6 d e) AND 3)) = d"
  "chr (push_bit 5 (b32_6 d e AND 7) OR (b32_7 e AND 0x1f)) = e"
  unfolding b32_defs and_low by (rule chr_bitI; unfold bit_iffs; auto simp: numeral_eq_Suc dest: bit_ord)+

lemma encode32_simps:
  "encode_base32 basis padding (s0 # s1 # s2 # s3 # s4 # s) =
     basis ! b32_0 s0 # basis ! b32_1 s0 s1 # basis ! b32_2 s1 # basis ! b32_3 s1 s2 # basis ! b32_4 s2 s3 #
     basis ! b32_5 s3 # basis ! b32_6 s3 s4 # basis ! b32_7 s4 # encode_base32 basis padding s"
  "encode_base32 basis padding [] = []"
  "encode_base32 basis padding [s0] =
     [basis ! b32_0 s0, basis ! b32_1 s0 NUL] @ (if padding then ''======'' else [])"
  "encode_base32 basis padding [s0, s1] =
     [basis ! b32_0 s0, basis ! b32_1 s0 s1, basis ! b32_2 s1, basis ! b32_3 s1 NUL] @ (if padding then ''===='' else [])"
  "encode_base32 basis padding [s0, s1, s2] =
     [basis ! b32_0 s0, basis ! b32_1 s0 s1, basis ! b32_2 s1, basis ! b32_3 s1 s2, basis ! b32_4 s2 NUL] @
     (if padding then ''==='' else [])"
  "encode_base32 basis padding [s0, s1, s2, s3] =
     [basis ! b32_0 s0, basis ! b32_1 s0 s1, basis ! b32_2 s1, basis ! b32_3 s1 s2, basis ! b32_4 s2 s3, basis ! b32_5 s3,
      basis ! b32_6 s3 NUL] @ (if padding then ''='' else [])"
  by (simp_all only: encode_base32.simps b32_tail, simp_all add: b32_defs)

declare encode_base32.simps [simp del] encode32_simps [simp]

lemma fives_induct [case_names Nil One Two Three Four Five]:
  assumes "P []" "\<And>a. P [a]" "\<And>a b. P [a, b]" "\<And>a b c. P [a, b, c]" "\<And>a b c d. P [a, b, c, d]"
    "\<And>a b c d e s. P s \<Longrightarrow> P (a # b # c # d # e # s)"
  shows "P (s :: bytes)"
  using assms by (induction "[] :: bytes" False s rule: encode_base32.induct) auto

text \<open>An alphabet of 32 characters and a table that inverts it.\<close>

locale alphabet32 =
  fixes basis :: bytes and unbasis :: "nat list"
  assumes unbasis_basis: "k < 32 \<Longrightarrow> unbasis ! ord (basis ! k) = k"
    and basis_eq: "k < 32 \<Longrightarrow> basis ! k \<noteq> CHR ''=''"
begin

lemma scan_basis: "k < 32 \<Longrightarrow> base64_scan unbasis (basis ! k # s) = map_option ((#) (basis ! k)) (base64_scan unbasis s)"
  using unbasis_basis [of k] basis_eq [of k] by auto

lemma scan_pad: "base64_scan unbasis (if padding then CHR ''='' # s else []) = Some []"
  by simp

lemma scan_encode:
  "base64_scan unbasis (encode_base32 basis padding src) = Some (encode_base32 basis False src)"
  by (induction src rule: fives_induct)
    (simp_all add: scan_basis b32_less scan_pad del: base64_scan.simps(2))

lemma groups_encode: "base32_groups unbasis (encode_base32 basis False src) = src"
  by (induction src rule: fives_induct) (simp_all only: encode32_simps base32_groups.simps append_Nil2 append_Cons append_Nil
      if_False list.case unbasis_basis b32_less b32_bytes)

lemma length_encode_False: "length (encode_base32 basis False src) mod 8 \<notin> {1, 3, 6}"
  by (induction src rule: fives_induct) auto

lemma decode_encode: "decode_base32 unbasis (encode_base32 basis padding src) = Some src"
  using length_encode_False [of src] by (simp add: decode_base32_def scan_encode groups_encode Let_def)

end

lemma basis32_of_nth:
  assumes "distinct alphabet" "length alphabet = 32" "length table = 256" "n \<le> 32"
  shows "length (fold (\<lambda>i t. t[ord (alphabet ! i) := i]) [0..<n] table) = 256 \<and>
    (\<forall>k < n. fold (\<lambda>i t. t[ord (alphabet ! i) := i]) [0..<n] table ! ord (alphabet ! k) = k)"
  using assms(4)
proof (induction n)
  case 0
  then show ?case using assms(3) by simp
next
  case (Suc n)
  have "ord (alphabet ! n) \<noteq> ord (alphabet ! k)" if "k < n" for k
    using that Suc.prems assms(1,2) by (simp add: nth_eq_iff_index_eq)
  with Suc show ?case by (auto simp: less_Suc_eq)
qed

lemma basis32_alphabet:
  assumes "distinct alphabet" "length alphabet = 32" "length table = 256" "CHR ''='' \<notin> set alphabet"
  shows "alphabet32 alphabet (basis32_of alphabet table)"
proof
  fix k :: nat
  assume k: "k < 32"
  show "basis32_of alphabet table ! ord (alphabet ! k) = k"
    using basis32_of_nth [OF assms(1-3), of 32] k by (simp add: basis32_of_def del: upt_rec_numeral)
  show "alphabet ! k \<noteq> CHR ''=''" using k assms(2,4) nth_mem by metis
qed

text \<open>The alphabet of a location without directives, over any memory.\<close>

interpretation default32: alphabet32 "''0123456789abcdefghijklmnopqrstuv''"
  "basis32_of ''0123456789abcdefghijklmnopqrstuv'' (take 256 (memory @ replicate 256 0))" for memory
  by (rule basis32_alphabet) simp_all

lemma encode32_length: "length (encode_base32 basis padding src) \<le> base32_encoded_length (length src)"
  "length (encode_base32 basis True src) = base32_encoded_length (length src)"
proof -
  have step: "(9 + n) div 5 = Suc ((n + 4) div 5)" for n :: nat by simp
  show "length (encode_base32 basis padding src) \<le> base32_encoded_length (length src)"
    by (induction src rule: fives_induct) (simp_all add: base32_encoded_length_def step)
  show "length (encode_base32 basis True src) = base32_encoded_length (length src)"
    by (induction src rule: fives_induct) (simp_all add: base32_encoded_length_def step)
qed

lemma groups32_length: "length (base32_groups b s) \<le> base32_decoded_length (length s)"
proof (induction b s rule: base32_groups.induct)
  case (1 b s0 s1 s2 s3 s4 s5 s6 s7 s)
  have "(15 + length s) div 8 = Suc ((length s + 7) div 8)" by simp
  with 1 show ?case by (simp add: base32_decoded_length_def)
qed (auto simp: base32_decoded_length_def split: list.split)

text \<open>
  C33. With any alphabet of 32 distinct characters other than the padding character, whatever the
  memory of the configuration held before, \<open>set_decode_base32\<close> gives back every value
  \<open>set_encode_base32\<close> wrote, padded or not. The encoder stays in the memory taken for it and fills
  it when it pads, and the decoder stays in its memory on any input.
\<close>

theorem base32_roundtrip:
  assumes "c = ngx_http_set_misc_merge_loc_conf prev conf" "length (basis32 conf) = 256"
    and "distinct (base32_alphabet c)" "length (base32_alphabet c) = 32" "CHR ''='' \<notin> set (base32_alphabet c)"
  shows "\<exists>e. ngx_http_set_misc_encode_base32 True c v = Some e \<and> ngx_http_set_misc_decode_base32 True c e = Some v \<and>
      length e \<le> base32_encoded_length (length v) \<and>
      (base32_padding c = Some True \<longrightarrow> length e = base32_encoded_length (length v)) \<and>
      (\<forall>w d. ngx_http_set_misc_decode_base32 True c w = Some d \<longrightarrow> length d \<le> base32_decoded_length (length w))"
proof -
  have "basis32 c = basis32_of (base32_alphabet c) (basis32 conf)"
    by (simp add: assms(1) ngx_http_set_misc_merge_loc_conf_def Let_def)
  then have "alphabet32 (base32_alphabet c) (basis32 c)"
    using basis32_alphabet [OF assms(3,4,2,5)] by simp
  note dec = alphabet32.decode_encode [OF this]
  have "length d \<le> base32_decoded_length (length w)" if d: "ngx_http_set_misc_decode_base32 True c w = Some d" for w d
  proof (cases "decode_base32 (basis32 c) w")
    case (Some d')
    then obtain t where t: "base64_scan (basis32 c) w = Some t" "d = base32_groups (basis32 c) t"
      using d by (auto simp: ngx_http_set_misc_decode_base32_def decode_base32_def Let_def split: option.splits if_splits)
    have "base32_decoded_length (length t) \<le> base32_decoded_length (length w)"
      using base64_scan_length [OF t(1)] by (auto simp: base32_decoded_length_def intro!: div_le_mono)
    with t(2) show ?thesis using groups32_length le_trans by blast
  qed (use d in \<open>simp add: ngx_http_set_misc_decode_base32_def\<close>)
  then show ?thesis
    using dec encode32_length [where src = v]
    by (simp add: ngx_http_set_misc_encode_base32_def ngx_http_set_misc_decode_base32_def [of True c "encode_base32 a b v" for a b])
qed

theorem base32_roundtrip_witness:
  "\<exists>e. ngx_http_set_misc_encode_base32 True (ngx_http_set_misc_merge_loc_conf (ngx_http_set_misc_create_loc_conf [])
        (ngx_http_set_misc_create_loc_conf (replicate 256 7))) ''hello!'' = Some e \<and>
     ngx_http_set_misc_decode_base32 True (ngx_http_set_misc_merge_loc_conf (ngx_http_set_misc_create_loc_conf [])
        (ngx_http_set_misc_create_loc_conf (replicate 256 7))) e = Some ''hello!''"
  using base32_roundtrip [OF refl, of "ngx_http_set_misc_create_loc_conf (replicate 256 7)"
      "ngx_http_set_misc_create_loc_conf []" "''hello!''"]
  by (auto simp: ngx_http_set_misc_create_loc_conf_def ngx_http_set_misc_merge_loc_conf_def Let_def)

text \<open>
  The table of the alphabet is not initialised before it is filled, so what
  \<open>set_decode_base32\<close> makes of a character outside the alphabet depends on what the memory held: the
  same value is refused over one memory and decoded to a byte over another.
\<close>

theorem base32_decodes_garbage:
  "let prev = ngx_http_set_misc_create_loc_conf []; conf = (\<lambda>m. ngx_http_set_misc_merge_loc_conf prev (ngx_http_set_misc_create_loc_conf m)) in
   ngx_http_set_misc_decode_base32 True (conf (replicate 256 77)) ''!!'' = Some [] \<and>
   ngx_http_set_misc_decode_base32 True (conf (replicate 256 0)) ''!!'' = Some [NUL]"
  by code_simp

section \<open>Rotation\<close>

lemma set_rotate_next:
  assumes "ngx_atoi f = a" "ngx_atoi t = b" "0 \<le> a" "a \<le> b"
    and "rotate_current conf = (if k = 0 then None else Some (a + int (k - 1) mod (b - a + 1)))"
  shows "ngx_http_set_misc_set_rotate True [] f t conf =
    (Some (num_digits (nat (a + int k mod (b - a + 1))) 0), conf\<lparr>rotate_current := Some (a + int k mod (b - a + 1))\<rparr>)"
proof -
  let ?n = "b - a + 1"
  have n: "0 < ?n" using assms(4) by simp
  have "(let cur1 = rotate_unknown conf a + 1 in if cur1 > b \<or> cur1 < a then a else cur1) = a + int k mod ?n"
  proof (cases k)
    case 0
    then show ?thesis using assms(4,5) by (simp add: rotate_unknown_def)
  next
    case (Suc j)
    have m: "0 \<le> int j mod ?n" "int j mod ?n < ?n"
      by (rule pos_mod_sign [OF n], rule pos_mod_bound [OF n])
    have "int k mod ?n = (int j mod ?n + 1) mod ?n" using Suc by (simp add: mod_simps add.commute)
    also have "\<dots> = (if int j mod ?n + 1 = ?n then 0 else int j mod ?n + 1)"
      using m by (auto simp: mod_pos_pos_trivial)
    finally show ?thesis using Suc assms(5) m by (auto simp: rotate_unknown_def Let_def)
  qed
  then show ?thesis
    using assms by (simp add: ngx_http_set_misc_set_rotate_def Let_def)
qed

text \<open>The texts of \<open>n\<close> calls one after the other.\<close>

fun rotate_calls :: "nat \<Rightarrow> bytes \<Rightarrow> bytes \<Rightarrow> set_misc_conf \<Rightarrow> bytes option list" where
  "rotate_calls 0 f t conf = []"
| "rotate_calls (Suc n) f t conf =
     (case ngx_http_set_misc_set_rotate True [] f t conf of (v, conf') \<Rightarrow> v # rotate_calls n f t conf')"

lemma rotate_calls_from:
  assumes "ngx_atoi f = a" "ngx_atoi t = b" "0 \<le> a" "a \<le> b"
    "rotate_current conf = (if k = 0 then None else Some (a + int (k - 1) mod (b - a + 1)))"
  shows "rotate_calls n f t conf = map (\<lambda>i. Some (num_digits (nat (a + int i mod (b - a + 1))) 0)) [k..<k + n]"
  using assms(5)
proof (induction n arbitrary: conf k)
  case (Suc n)
  have "rotate_calls n f t (conf\<lparr>rotate_current := Some (a + int k mod (b - a + 1))\<rparr>) =
      map (\<lambda>i. Some (num_digits (nat (a + int i mod (b - a + 1))) 0)) [Suc k..<Suc k + n]"
    by (rule Suc.IH) simp
  then show ?case
    using set_rotate_next [OF assms(1-4) Suc.prems] by (simp add: upt_rec [of k])
qed simp

text \<open>
  \<open>set_rotate\<close> counts round and round: over any number of requests the variable takes every
  number from the first to the last in order, beginning again after the last.
\<close>

theorem set_rotate_cycles:
  assumes "ngx_atoi f = a" "ngx_atoi t = b" "0 \<le> a" "a \<le> b" "rotate_current conf = None"
  shows "rotate_calls n f t conf = map (\<lambda>i. Some (num_digits (nat (a + int i mod (b - a + 1))) 0)) [0..<n]"
  using rotate_calls_from [OF assms(1-4), of conf 0 n] assms(5) by simp

theorem set_rotate_cycles_witness:
  "rotate_calls 4 ''1'' ''3'' (ngx_http_set_misc_create_loc_conf []) =
     [Some ''1'', Some ''2'', Some ''3'', Some ''1'']"
proof -
  have "ngx_atoi ''1'' = 1" "ngx_atoi ''3'' = 3" by code_simp+
  moreover have "map (\<lambda>i. Some (num_digits (nat (1 + int i mod (3 - 1 + 1))) 0)) [0..<4] =
      [Some ''1'', Some ''2'', Some ''3'', Some ''1'']"
    by (simp add: upt_conv_Cons num_digits_dec num_dec.simps Let_def, code_simp)
  ultimately show ?thesis
    using set_rotate_cycles [of "''1''" 1 "''3''" 3 "ngx_http_set_misc_create_loc_conf []" 4]
    by (simp add: ngx_http_set_misc_create_loc_conf_def)
qed

end
