(* ===== verification/Ngx_Queue.thy ===== *)
theory Ngx_Queue
  imports Ngx_String
begin

text \<open>
  The doubly linked queues of \<open>nginx-master/src/core/ngx_queue.h\<close> and \<open>ngx_queue.c\<close>. The memory is
  explicit: \<open>prev\<close> and \<open>next\<close> of every address. Each macro is its assignments in their order, each
  reading the memory the one before it left. The queue at \<open>h\<close> holds the list \<open>xs\<close> when following
  \<open>next\<close> from \<open>h\<close> visits \<open>xs\<close> and comes back to \<open>h\<close>, and \<open>prev\<close> goes the same way backwards. The
  loops over a queue end only on such a memory: they are partial functions, and it is proved that
  they return.
\<close>

section \<open>The memory and the macros\<close>

record 'p qmem =
  q_prev :: "'p \<Rightarrow> 'p"
  q_next :: "'p \<Rightarrow> 'p"

definition set_prev :: "'p \<Rightarrow> 'p \<Rightarrow> 'p qmem \<Rightarrow> 'p qmem" where
  "set_prev x v m = m\<lparr>q_prev := (q_prev m)(x := v)\<rparr>"

definition set_next :: "'p \<Rightarrow> 'p \<Rightarrow> 'p qmem \<Rightarrow> 'p qmem" where
  "set_next x v m = m\<lparr>q_next := (q_next m)(x := v)\<rparr>"

definition ngx_queue_init :: "'p \<Rightarrow> 'p qmem \<Rightarrow> 'p qmem" where
  "ngx_queue_init q m = (let m1 = set_prev q q m in set_next q q m1)"

definition ngx_queue_empty :: "'p \<Rightarrow> 'p qmem \<Rightarrow> bool" where
  "ngx_queue_empty h m \<longleftrightarrow> h = q_prev m h"

definition ngx_queue_insert_head :: "'p \<Rightarrow> 'p \<Rightarrow> 'p qmem \<Rightarrow> 'p qmem" where
  "ngx_queue_insert_head h x m =
     (let m1 = set_next x (q_next m h) m;
          m2 = set_prev (q_next m1 x) x m1;
          m3 = set_prev x h m2 in
      set_next h x m3)"

definition ngx_queue_insert_after :: "'p \<Rightarrow> 'p \<Rightarrow> 'p qmem \<Rightarrow> 'p qmem" where
  "ngx_queue_insert_after = ngx_queue_insert_head"

definition ngx_queue_insert_tail :: "'p \<Rightarrow> 'p \<Rightarrow> 'p qmem \<Rightarrow> 'p qmem" where
  "ngx_queue_insert_tail h x m =
     (let m1 = set_prev x (q_prev m h) m;
          m2 = set_next (q_prev m1 x) x m1;
          m3 = set_next x h m2 in
      set_prev h x m3)"

definition ngx_queue_head :: "'p \<Rightarrow> 'p qmem \<Rightarrow> 'p" where
  "ngx_queue_head h m = q_next m h"

definition ngx_queue_last :: "'p \<Rightarrow> 'p qmem \<Rightarrow> 'p" where
  "ngx_queue_last h m = q_prev m h"

text \<open>The macro of a build without \<open>NGX_DEBUG\<close>; the one for debugging also clears the links of \<open>x\<close>.\<close>

definition ngx_queue_remove :: "'p \<Rightarrow> 'p qmem \<Rightarrow> 'p qmem" where
  "ngx_queue_remove x m =
     (let m1 = set_prev (q_next m x) (q_prev m x) m in
      set_next (q_prev m1 x) (q_next m1 x) m1)"

definition ngx_queue_split :: "'p \<Rightarrow> 'p \<Rightarrow> 'p \<Rightarrow> 'p qmem \<Rightarrow> 'p qmem" where
  "ngx_queue_split h q n m =
     (let m1 = set_prev n (q_prev m h) m;
          m2 = set_next (q_prev m1 n) n m1;
          m3 = set_next n q m2;
          m4 = set_prev h (q_prev m3 q) m3;
          m5 = set_next (q_prev m4 h) h m4 in
      set_prev q n m5)"

definition ngx_queue_add :: "'p \<Rightarrow> 'p \<Rightarrow> 'p qmem \<Rightarrow> 'p qmem" where
  "ngx_queue_add h n m =
     (let m1 = set_next (q_prev m h) (q_next m n) m;
          m2 = set_prev (q_next m1 n) (q_prev m1 h) m1;
          m3 = set_prev h (q_prev m2 n) m2 in
      set_next (q_prev m3 h) h m3)"

section \<open>The functions\<close>

text \<open>The loop of \<open>ngx_queue_middle\<close>.\<close>

partial_function (option) queue_middle_loop :: "'p qmem \<Rightarrow> 'p \<Rightarrow> 'p \<Rightarrow> 'p \<Rightarrow> 'p option" where
  "queue_middle_loop m queue middle nxt =
     (let middle1 = q_next m middle; nxt1 = q_next m nxt in
      if nxt1 = ngx_queue_last queue m then Some middle1
      else
        (let nxt2 = q_next m nxt1 in
         if nxt2 = ngx_queue_last queue m then Some middle1
         else queue_middle_loop m queue middle1 nxt2))"

definition ngx_queue_middle :: "'p \<Rightarrow> 'p qmem \<Rightarrow> 'p option" where
  "ngx_queue_middle queue m =
     (let middle = ngx_queue_head queue m in
      if middle = ngx_queue_last queue m then Some middle
      else queue_middle_loop m queue middle (ngx_queue_head queue m))"

text \<open>
  The inner loop of \<open>ngx_queue_sort\<close>, a \<open>do\<close> loop that looks at \<open>prev\<close> before it tests for the
  sentinel, and the outer one.
\<close>

partial_function (option) queue_sort_find :: "('p \<Rightarrow> 'p \<Rightarrow> int) \<Rightarrow> 'p qmem \<Rightarrow> 'p \<Rightarrow> 'p \<Rightarrow> 'p \<Rightarrow> 'p option" where
  "queue_sort_find cmp m queue q prev =
     (if cmp prev q \<le> 0 then Some prev
      else
        (let prev' = q_prev m prev in
         if prev' \<noteq> queue then queue_sort_find cmp m queue q prev' else Some prev'))"

partial_function (option) queue_sort_loop :: "('p \<Rightarrow> 'p \<Rightarrow> int) \<Rightarrow> 'p \<Rightarrow> 'p \<Rightarrow> 'p qmem \<Rightarrow> 'p qmem option" where
  "queue_sort_loop cmp queue q m =
     (if q \<noteq> queue then
        (let prev = q_prev m q; nxt = q_next m q; m1 = ngx_queue_remove q m in
         Option.bind (queue_sort_find cmp m1 queue q prev)
           (\<lambda>p. queue_sort_loop cmp queue nxt (ngx_queue_insert_after p q m1)))
      else Some m)"

definition ngx_queue_sort :: "('p \<Rightarrow> 'p \<Rightarrow> int) \<Rightarrow> 'p \<Rightarrow> 'p qmem \<Rightarrow> 'p qmem option" where
  "ngx_queue_sort cmp queue m =
     (let q = ngx_queue_head queue m in
      if q = ngx_queue_last queue m then Some m
      else queue_sort_loop cmp queue (q_next m q) m)"

section \<open>Queues and the lists they hold\<close>

fun linked :: "'p qmem \<Rightarrow> 'p list \<Rightarrow> bool" where
  "linked m (a # b # s) \<longleftrightarrow> q_next m a = b \<and> q_prev m b = a \<and> linked m (b # s)"
| "linked m s \<longleftrightarrow> True"

definition queue_holds :: "'p qmem \<Rightarrow> 'p \<Rightarrow> 'p list \<Rightarrow> bool" where
  "queue_holds m h xs \<longleftrightarrow> distinct (h # xs) \<and> linked m (h # xs @ [h])"

lemma field_simps_q [simp]:
  "q_prev (set_prev x v m) = (q_prev m)(x := v)" "q_next (set_prev x v m) = q_next m"
  "q_next (set_next x v m) = (q_next m)(x := v)" "q_prev (set_next x v m) = q_prev m"
  by (simp_all add: set_prev_def set_next_def)

lemma linked_append: "linked m (xs @ a # ys) \<longleftrightarrow> linked m (xs @ [a]) \<and> linked m (a # ys)"
  by (induction m xs rule: linked.induct) auto

lemma linked_cong:
  "(\<And>x. x \<in> set (butlast s) \<Longrightarrow> q_next m' x = q_next m x) \<Longrightarrow> (\<And>x. x \<in> set (tl s) \<Longrightarrow> q_prev m' x = q_prev m x) \<Longrightarrow>
   linked m' s \<longleftrightarrow> linked m s"
  by (induction m s rule: linked.induct) auto

lemma linked_Cons: "s \<noteq> [] \<Longrightarrow> linked m (a # s) \<longleftrightarrow> q_next m a = hd s \<and> q_prev m (hd s) = a \<and> linked m s"
  by (cases s) auto

lemma linked_snoc: "s \<noteq> [] \<Longrightarrow> linked m (s @ [b]) \<longleftrightarrow> q_next m (last s) = b \<and> q_prev m b = last s \<and> linked m s"
  by (cases s rule: rev_cases) (auto simp: linked_append [of m _ _ "[b]"])

text \<open>A ring may be looked at from any of its members.\<close>

lemma queue_rotate: "queue_holds m h (xs @ p # ys) \<longleftrightarrow> queue_holds m p (ys @ h # xs)"
proof -
  have "linked m (h # (xs @ p # ys) @ [h]) \<longleftrightarrow> linked m ((h # xs) @ [p]) \<and> linked m ((p # ys) @ [h])"
    using linked_append [of m "h # xs" p "ys @ [h]"] by simp
  also have "\<dots> \<longleftrightarrow> linked m (p # (ys @ h # xs) @ [p])"
    using linked_append [of m "p # ys" h "xs @ [p]"] by auto
  finally show ?thesis by (auto simp: queue_holds_def)
qed

lemma queue_insert_head:
  assumes "queue_holds m h xs" "x \<notin> set (h # xs)"
  shows "queue_holds (ngx_queue_insert_head h x m) h (x # xs)"
proof -
  let ?m = "ngx_queue_insert_head h x m" and ?s = "xs @ [h]"
  have s: "linked m ?s" "q_next m h = hd ?s" "q_prev m (hd ?s) = h"
    using assms(1) linked_Cons [of ?s m h] by (auto simp: queue_holds_def)
  have x: "x \<noteq> h" "x \<notin> set ?s" "hd ?s \<in> set ?s" using assms(2) by (auto simp: hd_append)
  have "linked ?m ?s \<longleftrightarrow> linked m ?s"
  proof (rule linked_cong)
    fix y assume "y \<in> set (butlast ?s)"
    then show "q_next ?m y = q_next m y"
      using assms by (auto simp: queue_holds_def ngx_queue_insert_head_def Let_def)
  next
    fix y assume y: "y \<in> set (tl ?s)"
    then have "y \<noteq> hd ?s" using assms(1) by (cases xs) (auto simp: queue_holds_def)
    moreover have "y \<in> set ?s" using y by (cases ?s) auto
    then have "y \<noteq> x" using x(2) by auto
    ultimately show "q_prev ?m y = q_prev m y"
      using x s(2) by (auto simp: ngx_queue_insert_head_def Let_def)
  qed
  moreover have "q_next ?m h = x" "q_prev ?m x = h" "q_next ?m x = hd ?s" "q_prev ?m (hd ?s) = x"
    using x s by (auto simp: ngx_queue_insert_head_def Let_def)
  ultimately show ?thesis
    using s(1) assms x(1) by (auto simp: queue_holds_def linked_Cons [of ?s])
qed

text \<open>The same queue read backwards.\<close>

definition mirror :: "'p qmem \<Rightarrow> 'p qmem" where
  "mirror m = m\<lparr>q_prev := q_next m, q_next := q_prev m\<rparr>"

lemma mirror_simps [simp]: "q_prev (mirror m) = q_next m" "q_next (mirror m) = q_prev m" "mirror (mirror m) = m"
  by (simp_all add: mirror_def)

lemma linked_mirror: "linked (mirror m) s \<longleftrightarrow> linked m (rev s)"
proof (induction "mirror m" s rule: linked.induct)
  case (1 a b s)
  then show ?case using linked_append [of m "rev s" b "[a]"] by auto
qed auto

lemma queue_mirror: "queue_holds (mirror m) h xs \<longleftrightarrow> queue_holds m h (rev xs)"
  by (simp add: queue_holds_def linked_mirror)

lemma insert_tail_mirror: "ngx_queue_insert_tail h x m = mirror (ngx_queue_insert_head h x (mirror m))"
  by (simp add: ngx_queue_insert_tail_def ngx_queue_insert_head_def Let_def mirror_def set_prev_def set_next_def)

lemma queue_insert_tail:
  assumes "queue_holds m h xs" "x \<notin> set (h # xs)"
  shows "queue_holds (ngx_queue_insert_tail h x m) h (xs @ [x])"
  using queue_insert_head [of "mirror m" h "rev xs" x] assms
  by (simp add: insert_tail_mirror queue_mirror)

lemma queue_insert_after:
  assumes "queue_holds m h (xs @ p # ys)" "x \<notin> set (h # xs @ p # ys)"
  shows "queue_holds (ngx_queue_insert_after p x m) h (xs @ p # x # ys)"
  using queue_insert_head [of m p "ys @ h # xs" x] assms
  by (simp add: queue_rotate [of _ h] ngx_queue_insert_after_def)

lemma queue_remove_first:
  assumes "queue_holds m p (x # zs)"
  shows "queue_holds (ngx_queue_remove x m) p zs"
proof -
  let ?m = "ngx_queue_remove x m" and ?s = "zs @ [p]"
  have s: "linked m ?s" "q_next m p = x" "q_prev m x = p" "q_next m x = hd ?s" "q_prev m (hd ?s) = x"
    using assms linked_Cons [of ?s m x] by (auto simp: queue_holds_def)
  have d: "x \<noteq> p" "x \<notin> set zs" "p \<notin> set zs" "distinct zs" using assms by (auto simp: queue_holds_def)
  then have "hd ?s \<noteq> x" by (auto simp: hd_append)
  then have f: "q_next ?m = (q_next m)(p := hd ?s)" "q_prev ?m = (q_prev m)(hd ?s := p)"
    using s by (auto simp: ngx_queue_remove_def Let_def)
  have "linked ?m ?s \<longleftrightarrow> linked m ?s"
  proof (rule linked_cong)
    fix y assume "y \<in> set (tl ?s)"
    then have "y \<noteq> hd ?s" using d by (cases zs) auto
    then show "q_prev ?m y = q_prev m y" by (simp add: f)
  qed (use d f in auto)
  then show ?thesis using s(1) d f by (simp add: queue_holds_def linked_Cons [of ?s])
qed

lemma queue_remove:
  assumes "queue_holds m h (xs @ x # ys)"
  shows "queue_holds (ngx_queue_remove x m) h (xs @ ys)"
proof (cases xs rule: rev_cases)
  case Nil
  then show ?thesis using assms queue_remove_first by auto
next
  case (snoc us p)
  then have "queue_holds m p (x # ys @ h # us)" using assms queue_rotate [of m h us p "x # ys"] by simp
  then have "queue_holds (ngx_queue_remove x m) p (ys @ h # us)" by (rule queue_remove_first)
  then show ?thesis using snoc by (simp add: queue_rotate [of _ h])
qed

lemma queue_ring:
  "queue_holds m h xs \<longleftrightarrow> distinct (h # xs) \<and> linked m (h # xs) \<and> q_next m (last (h # xs)) = h \<and> q_prev m h = last (h # xs)"
  using linked_snoc [of "h # xs" m h] by (auto simp: queue_holds_def)

lemma queue_split:
  assumes "queue_holds m h (xs @ q # ys)" "n \<notin> set (h # xs @ q # ys)"
  shows "queue_holds (ngx_queue_split h q n m) h xs \<and> queue_holds (ngx_queue_split h q n m) n (q # ys)"
proof -
  let ?m = "ngx_queue_split h q n m"
  obtain us a where us: "h # xs = us @ [a]" by (cases "h # xs" rule: rev_cases) auto
  obtain vs b where vs: "q # ys = vs @ [b]" by (cases "q # ys" rule: rev_cases) auto
  have whole: "h # xs @ q # ys = us @ a # vs @ [b]" using us vs by simp
  have d: "distinct (us @ a # vs @ [b])" "n \<notin> set (us @ a # vs @ [b])" using assms whole by (auto simp: queue_holds_def)
  have l: "linked m (us @ [a])" "linked m (vs @ [b])" "q_next m a = q" "q_prev m q = a" "q_next m b = h" "q_prev m h = b"
  proof -
    have r: "linked m (h # xs @ q # ys)" "q_next m (last (h # xs @ q # ys)) = h" "q_prev m h = last (h # xs @ q # ys)"
      using assms(1) unfolding queue_ring by blast+
    have "h # xs @ q # ys = us @ a # q # ys" using us by simp
    with r(1) show "linked m (us @ [a])" "q_next m a = q" "q_prev m q = a" "linked m (vs @ [b])"
      using linked_append [of m us a "q # ys"] by (auto simp flip: vs)
    have "last (h # xs @ q # ys) = b" by (simp only: whole) simp
    with r(2,3) show "q_next m b = h" "q_prev m h = b" by simp_all
  qed
  have hq: "h \<in> set (us @ [a])" "q \<in> set (vs @ [b])" "h \<notin> set xs" "q \<notin> set ys" "q \<notin> set xs" "h \<notin> set ys" "h \<noteq> q"
    using us vs assms(1) by (auto simp: queue_holds_def simp flip: us vs)
  have f: "q_next ?m = (q_next m)(b := n, n := q, a := h)" "q_prev ?m = (q_prev m)(n := b, h := a, q := n)"
    using l d hq by (auto simp: ngx_queue_split_def Let_def fun_eq_iff)
  have bl: "butlast (h # xs) = us" "butlast (q # ys) = vs" by (simp_all only: us vs butlast_snoc)
  have "linked ?m (h # xs) \<longleftrightarrow> linked m (h # xs)"
    by (rule linked_cong; unfold bl list.sel; use d hq assms(2) in \<open>auto simp: f\<close>)
  moreover have "linked ?m (q # ys) \<longleftrightarrow> linked m (q # ys)"
    by (rule linked_cong; unfold bl list.sel; use d hq assms(2) in \<open>auto simp: f\<close>)
  moreover have "linked m (h # xs)" "linked m (q # ys)" using l(1,2) us vs by simp_all
  ultimately have lm: "linked ?m (h # xs)" "linked ?m (q # ys)" by blast+
  have la: "last (h # xs) = a" "last (q # ys) = b" by (simp_all only: us vs last_snoc)
  then have lb: "last (n # q # ys) = b" by simp
  have ne: "a \<noteq> b" "a \<noteq> n" "b \<noteq> n" "h \<noteq> n" "q \<noteq> n" "h \<noteq> q" using d hq assms(2) by auto
  have "queue_holds ?m h xs"
    unfolding queue_ring la using lm(1) ne assms(1) by (simp add: f queue_holds_def)
  moreover have "queue_holds ?m n (q # ys)"
    unfolding queue_ring lb using lm(2) ne assms by (simp add: f queue_holds_def)
  ultimately show ?thesis ..
qed

lemma queue_add:
  assumes "queue_holds m h xs" "queue_holds m n ys" "set (h # xs) \<inter> set (n # ys) = {}"
  shows "queue_holds (ngx_queue_add h n m) h (xs @ ys)"
proof (cases ys)
  case Nil
  have "q_next m n = n" "q_prev m n = n" using assms(2) Nil by (auto simp: queue_ring)
  then have f: "q_next (ngx_queue_add h n m) = q_next m" "q_prev (ngx_queue_add h n m) = (q_prev m)(n := q_prev m h)"
    using assms by (auto simp: ngx_queue_add_def Let_def queue_ring fun_eq_iff)
  have "linked (ngx_queue_add h n m) (h # xs) \<longleftrightarrow> linked m (h # xs)"
    using assms(3) by (intro linked_cong) (auto simp: f)
  then show ?thesis using assms Nil by (auto simp: queue_ring f)
next
  case (Cons y zs)
  let ?m = "ngx_queue_add h n m"
  obtain us a where us: "h # xs = us @ [a]" by (cases "h # xs" rule: rev_cases) auto
  obtain vs b where vs: "ys = vs @ [b]" using Cons by (metis rev_exhaust list.distinct(1))
  have a: "linked m (h # xs)" "q_next m a = h" "q_prev m h = a" using assms(1) us by (auto simp: queue_ring)
  have lb: "last (n # ys) = b" using vs by simp
  have b: "linked m ys" "q_next m n = y" "q_prev m y = n" "q_next m b = n" "q_prev m n = b"
    using assms(2) Cons lb unfolding queue_ring by auto
  have d: "distinct (us @ [a])" "distinct (vs @ [b])" "n \<notin> set (vs @ [b])" "set (us @ [a]) \<inter> set (vs @ [b]) = {}" "n \<notin> set (us @ [a])"
    unfolding us [symmetric] vs [symmetric] using assms by (auto simp: queue_holds_def)
  have h: "h \<in> set (us @ [a])" "h \<notin> set xs" "y \<in> set (vs @ [b])" "y \<notin> set zs" "h \<notin> set ys" "y \<notin> set (h # xs)"
    unfolding us [symmetric] vs [symmetric] using assms Cons by (auto simp: queue_holds_def)
  have ne: "n \<noteq> a" "n \<noteq> y" "y \<noteq> h" using d h by auto
  have f: "q_next ?m = (q_next m)(a := y, b := h)" "q_prev ?m = (q_prev m)(y := a, h := b)"
    using ne by (simp_all add: ngx_queue_add_def Let_def a(3) b(2,5))
  have bl: "butlast (h # xs) = us" "butlast ys = vs" by (simp_all only: us vs butlast_snoc)
  have tl: "tl ys = zs" by (simp add: Cons)
  have "linked ?m (h # xs) \<longleftrightarrow> linked m (h # xs)"
    by (rule linked_cong; unfold bl list.sel; use d h in \<open>auto simp: f\<close>)
  moreover have "linked ?m ys \<longleftrightarrow> linked m ys"
    by (rule linked_cong; unfold bl tl; use d h Cons in \<open>auto simp: f\<close>)
  moreover have "linked ?m ((h # xs) @ ys) \<longleftrightarrow> linked ?m (us @ [a]) \<and> linked ?m (a # ys)"
    using linked_append [of ?m us a ys] us by simp
  moreover have "linked ?m (a # ys) \<longleftrightarrow> linked ?m ys" using d h Cons by (auto simp: f)
  ultimately have "linked ?m ((h # xs) @ ys)" using a(1) b(1) us by metis
  then have lm: "linked ?m (h # xs @ ys)" by simp
  have la: "last (h # xs @ ys) = b" using vs by simp
  have "distinct (h # xs @ ys)" using assms by (auto simp: queue_holds_def)
  then show ?thesis
    unfolding queue_ring la using lm d h by (auto simp: f)
qed

section \<open>The middle\<close>

lemma queue_nth:
  assumes "queue_holds m h xs" "i < length xs"
  shows "q_next m (xs ! i) = (if Suc i < length xs then xs ! Suc i else h)"
proof -
  have xs: "xs = take i xs @ xs ! i # drop (Suc i) xs" using assms(2) by (rule id_take_nth_drop)
  have "linked m ((h # take i xs) @ xs ! i # drop (Suc i) xs @ [h])"
    using assms(1) xs by (metis queue_holds_def append.assoc append_Cons)
  then have "linked m (xs ! i # drop (Suc i) xs @ [h])" using linked_append [of m "h # take i xs"] by blast
  then show ?thesis by (cases "drop (Suc i) xs") (auto simp: Cons_nth_drop_Suc [symmetric])
qed

lemma queue_ends:
  assumes "queue_holds m h xs"
  shows "ngx_queue_head h m = (if xs = [] then h else hd xs)" "ngx_queue_last h m = (if xs = [] then h else last xs)"
    "ngx_queue_empty h m \<longleftrightarrow> xs = []"
  using assms linked_Cons [of "xs @ [h]" m h]
  by (cases xs; auto simp: ngx_queue_head_def ngx_queue_last_def ngx_queue_empty_def queue_ring)+

lemma queue_middle_from:
  assumes "queue_holds m h xs" "2 * i < length xs - 1"
  shows "queue_middle_loop m h (xs ! i) (xs ! (2 * i)) = Some (xs ! (length xs div 2))"
  using assms(2)
proof (induction "length xs - i" arbitrary: i rule: less_induct)
  case less
  have d: "distinct xs" "xs \<noteq> []" using assms(1) less.prems by (auto simp: queue_holds_def)
  have eq: "xs ! j = ngx_queue_last h m \<longleftrightarrow> j = length xs - 1" if "j < length xs" for j
    using that d queue_ends(2) [OF assms(1)] by (simp add: last_conv_nth nth_eq_iff_index_eq)
  have n: "q_next m (xs ! i) = xs ! Suc i" "q_next m (xs ! (2 * i)) = xs ! Suc (2 * i)"
    using queue_nth [OF assms(1)] less.prems by auto
  show ?case
  proof (cases "Suc (2 * i) = length xs - 1")
    case True
    then have "Suc i = length xs div 2" by simp
    then show ?thesis using n eq [of "Suc (2 * i)"] True less.prems by (subst queue_middle_loop.simps) (simp add: Let_def)
  next
    case False
    then have lt: "2 * Suc i < length xs" using less.prems by presburger
    then have n2: "q_next m (xs ! Suc (2 * i)) = xs ! (2 * Suc i)"
      using queue_nth [OF assms(1), of "Suc (2 * i)"] by simp
    show ?thesis
    proof (cases "2 * Suc i = length xs - 1")
      case True
      then have "Suc i = length xs div 2" by simp
      then show ?thesis
        using n n2 eq [of "Suc (2 * i)"] eq [of "2 * Suc i"] True False less.prems by (subst queue_middle_loop.simps) (simp add: Let_def)
    next
      case False2: False
      have "queue_middle_loop m h (xs ! Suc i) (xs ! (2 * Suc i)) = Some (xs ! (length xs div 2))"
        using False False2 less.prems by (intro less.hyps) auto
      then show ?thesis
        using n n2 eq [of "Suc (2 * i)"] eq [of "2 * Suc i"] False False2 less.prems
        by (subst queue_middle_loop.simps) (simp add: Let_def)
    qed
  qed
qed

lemma queue_middle:
  assumes "queue_holds m h xs" "xs \<noteq> []"
  shows "ngx_queue_middle h m = Some (xs ! (length xs div 2))"
proof (cases "length xs = 1")
  case True
  then obtain x where "xs = [x]" by (auto simp: length_Suc_conv)
  then show ?thesis using queue_ends [OF assms(1)] by (simp add: ngx_queue_middle_def Let_def)
next
  case False
  then have "2 * 0 < length xs - 1" using assms(2) by (cases xs; cases "tl xs") auto
  moreover from this have "hd xs \<noteq> last xs"
    using assms by (auto simp: queue_holds_def hd_conv_nth last_conv_nth nth_eq_iff_index_eq)
  ultimately show ?thesis
    using queue_ends [OF assms(1)] queue_middle_from [OF assms(1), of 0] assms(2)
    by (simp add: ngx_queue_middle_def Let_def hd_conv_nth)
qed

section \<open>Sorting\<close>

lemma queue_prev:
  assumes "queue_holds m h (xs @ p # ys)"
  shows "q_prev m p = last (h # xs)" "q_next m p = hd (ys @ [h])"
proof -
  have "linked m ((h # xs) @ p # ys @ [h])" using assms by (simp add: queue_holds_def)
  then have l: "linked m ((h # xs) @ [p])" "linked m (p # ys @ [h])" using linked_append [of m "h # xs" p "ys @ [h]"] by blast+
  show "q_prev m p = last (h # xs)" using l(1) linked_snoc [of "h # xs" m p] by blast
  show "q_next m p = hd (ys @ [h])" using l(2) linked_Cons [of "ys @ [h]" m p] by blast
qed

text \<open>Where the inner loop stops: behind the part of the sorted prefix that stays before \<open>q\<close>.\<close>

lemma insert_right_split:
  "\<exists>as bs. rev zs = as @ bs \<and> rev (insert_right cmp q zs) = as @ q # bs \<and> (as = [] \<or> cmp (last as) q \<le> 0) \<and>
     (\<forall>b\<in>set bs. \<not> cmp b q \<le> 0)"
proof (induction zs)
  case (Cons z zs)
  show ?case
  proof (cases "cmp z q > 0")
    case True
    obtain as bs where "rev zs = as @ bs" "rev (insert_right cmp q zs) = as @ q # bs" "as = [] \<or> cmp (last as) q \<le> 0"
      "\<forall>b\<in>set bs. \<not> cmp b q \<le> 0" using Cons.IH by blast
    with True show ?thesis by (intro exI [of _ as] exI [of _ "bs @ [z]"]) auto
  next
    case False
    then show ?thesis by (intro exI [of _ "rev (z # zs)"] exI [of _ "[]"]) auto
  qed
qed simp

lemma sort_find_stops:
  assumes "queue_holds m h (as @ bs @ ys)" "as = [] \<or> cmp (last as) q \<le> 0" "\<forall>b\<in>set bs. \<not> cmp b q \<le> 0" "as @ bs \<noteq> []"
  shows "queue_sort_find cmp m h q (last (as @ bs)) = Some (last (h # as))"
  using assms
proof (induction bs arbitrary: ys rule: rev_induct)
  case Nil
  then show ?case by (subst queue_sort_find.simps) auto
next
  case (snoc b bs)
  have p: "q_prev m b = last (h # as @ bs)" using queue_prev(1) [of m h "as @ bs" b ys] snoc.prems(1) by simp
  show ?case
  proof (cases "as @ bs = []")
    case True
    then show ?thesis using p snoc.prems(3) by (subst queue_sort_find.simps) simp
  next
    case False
    then have "last (as @ bs) \<noteq> h" using snoc.prems(1) last_in_set [OF False] by (auto simp: queue_holds_def)
    moreover have "queue_sort_find cmp m h q (last (as @ bs)) = Some (last (h # as))"
      using snoc.prems False snoc.IH [of "b # ys"] by simp
    moreover have "q_prev m b = last (as @ bs)" using p last_ConsR [OF False, of h] by simp
    ultimately show ?thesis using snoc.prems(3) by (subst queue_sort_find.simps) (simp add: Let_def del: last_append)
  qed
qed

lemma queue_sort_from:
  assumes "queue_holds m h (zs @ ys)" "zs \<noteq> []"
  shows "\<exists>m'. queue_sort_loop cmp h (hd (ys @ [h])) m = Some m' \<and>
    queue_holds m' h (foldl (\<lambda>acc p. rev (insert_right cmp p (rev acc))) zs ys)"
  using assms
proof (induction ys arbitrary: zs m)
  case Nil
  then show ?case by (subst queue_sort_loop.simps) simp
next
  case (Cons q ys)
  let ?m1 = "ngx_queue_remove q m"
  have qh: "q \<noteq> h" using Cons.prems(1) by (auto simp: queue_holds_def)
  have pn: "q_prev m q = last zs" "q_next m q = hd (ys @ [h])"
    using queue_prev [of m h zs q ys] Cons.prems by auto
  obtain as bs where ab: "zs = as @ bs" "rev (insert_right cmp q (rev zs)) = as @ q # bs" "as = [] \<or> cmp (last as) q \<le> 0"
    "\<forall>b\<in>set bs. \<not> cmp b q \<le> 0"
    using insert_right_split [of "rev zs" cmp q] unfolding rev_rev_ident by blast
  have r: "queue_holds ?m1 h (as @ bs @ ys)" using queue_remove [of m h zs q ys] Cons.prems(1) ab(1) by simp
  have find: "queue_sort_find cmp ?m1 h q (last zs) = Some (last (h # as))"
    using sort_find_stops [of ?m1 h as bs ys cmp q] r ab Cons.prems(2) by simp
  have fresh: "q \<notin> set (h # as @ bs @ ys)" using Cons.prems(1) ab(1) by (auto simp: queue_holds_def)
  have "queue_holds (ngx_queue_insert_after (last (h # as)) q ?m1) h (as @ q # bs @ ys)"
  proof (cases as rule: rev_cases)
    case Nil
    then show ?thesis using queue_insert_head [of ?m1 h "bs @ ys" q] r fresh by (simp add: ngx_queue_insert_after_def)
  next
    case (snoc us p)
    then show ?thesis using queue_insert_after [of ?m1 h us p "bs @ ys" q] r fresh by simp
  qed
  then have "queue_holds (ngx_queue_insert_after (last (h # as)) q ?m1) h (rev (insert_right cmp q (rev zs)) @ ys)"
    using ab(2) by simp
  moreover have "rev (insert_right cmp q (rev zs)) \<noteq> []" using ab(2) by simp
  ultimately show ?case
    using Cons.IH [of _ "rev (insert_right cmp q (rev zs))"] qh pn find
    by (subst queue_sort_loop.simps) (simp add: Let_def del: last.simps)
qed

lemma queue_sort_insertion:
  assumes "queue_holds m h xs"
  shows "\<exists>m'. ngx_queue_sort cmp h m = Some m' \<and> queue_holds m' h (insertion_sort cmp xs)"
proof (cases xs)
  case Nil
  then show ?thesis using assms queue_ends [OF assms] by (simp add: ngx_queue_sort_def insertion_sort_def Let_def)
next
  case (Cons x ys)
  show ?thesis
  proof (cases "ys = []")
    case True
    then show ?thesis using assms Cons queue_ends [OF assms] by (simp add: ngx_queue_sort_def insertion_sort_def Let_def)
  next
    case False
    then have "x \<noteq> last ys" using assms Cons by (auto simp: queue_holds_def)
    then show ?thesis
      using queue_sort_from [of m h "[x]" ys cmp] assms Cons False queue_ends [OF assms] queue_prev(2) [of m h "[]" x ys]
      by (simp add: ngx_queue_sort_def insertion_sort_def Let_def)
  qed
qed

section \<open>The interface\<close>

text \<open>
  What the code that keeps its nodes in a queue relies on: the head and tail insertions, the removal
  of any member, and the two ends, on the list the queue holds.
\<close>

locale node_queue =
  fixes holds :: "'m \<Rightarrow> 'p \<Rightarrow> 'p list \<Rightarrow> bool"
    and insert_head insert_tail :: "'p \<Rightarrow> 'p \<Rightarrow> 'm \<Rightarrow> 'm" and remove :: "'p \<Rightarrow> 'm \<Rightarrow> 'm" and front :: "'p \<Rightarrow> 'm \<Rightarrow> 'p"
    and back_end :: "'p \<Rightarrow> 'm \<Rightarrow> 'p"
  assumes holds_distinct: "holds m h xs \<Longrightarrow> distinct (h # xs)"
    and insert_head_holds: "holds m h xs \<Longrightarrow> x \<notin> set (h # xs) \<Longrightarrow> holds (insert_head h x m) h (x # xs)"
    and insert_tail_holds: "holds m h xs \<Longrightarrow> x \<notin> set (h # xs) \<Longrightarrow> holds (insert_tail h x m) h (xs @ [x])"
    and remove_holds: "holds m h (xs @ x # ys) \<Longrightarrow> holds (remove x m) h (xs @ ys)"
    and front_holds: "holds m h (x # xs) \<Longrightarrow> front h m = x"
    and back_holds: "holds m h (xs @ [x]) \<Longrightarrow> back_end h m = x"
begin

text \<open>Moving a member to the head, the step of every least-recently-used cache.\<close>

lemma touch_holds:
  assumes "holds m h xs" "x \<in> set xs"
  shows "holds (insert_head h x (remove x m)) h (x # removeAll x xs)"
proof -
  obtain as bs where xs: "xs = as @ x # bs" using assms(2) by (meson split_list)
  have d: "distinct (h # xs)" using assms(1) by (rule holds_distinct)
  then have "removeAll x xs = as @ bs" using xs by simp
  moreover have "holds (remove x m) h (as @ bs)" using assms(1) xs remove_holds by simp
  ultimately show ?thesis using insert_head_holds [of "remove x m" h "as @ bs" x] d xs by auto
qed

text \<open>Inserting at the head and taking from the tail is first in, first out.\<close>

lemma fifo:
  assumes "holds m h xs" "x \<notin> set (h # xs)"
  shows "back_end h (insert_head h x m) = (if xs = [] then x else last xs)"
proof -
  have "holds (insert_head h x m) h (x # xs)" using assms by (rule insert_head_holds)
  then have "holds (insert_head h x m) h (butlast (x # xs) @ [last (x # xs)])"
    by (simp only: append_butlast_last_id list.distinct not_False_eq_True)
  from back_holds [OF this] show ?thesis by simp
qed

end

interpretation ngx_queue: node_queue queue_holds ngx_queue_insert_head ngx_queue_insert_tail ngx_queue_remove
  ngx_queue_head ngx_queue_last
proof
  fix m :: "'a qmem" and h x :: 'a and xs ys
  show "queue_holds m h xs \<Longrightarrow> distinct (h # xs)" by (simp add: queue_holds_def)
  show "queue_holds m h (x # xs) \<Longrightarrow> ngx_queue_head h m = x" using queue_ends(1) [of m h "x # xs"] by simp
  show "queue_holds m h (xs @ [x]) \<Longrightarrow> ngx_queue_last h m = x" using queue_ends(2) [of m h "xs @ [x]"] by simp
qed (rule queue_insert_head queue_insert_tail queue_remove; assumption)+

text \<open>
  C31. The queue macros do on the pointers what they promise on the list: on a memory where the
  queue at \<open>h\<close> holds \<open>xs\<close>, insertion at the head and at the tail, behind any member and the removal of any
  member give a queue that holds the list with the element inserted or removed; splitting a queue
  and adding one to another split and append the lists; and the middle is returned, after finitely
  many steps, as the element at half the length.
\<close>

theorem queue_refines_list:
  assumes "queue_holds m h (xs @ p # ys)" "x \<notin> set (h # xs @ p # ys)"
  shows "queue_holds (ngx_queue_insert_head h x m) h (x # xs @ p # ys) \<and>
    queue_holds (ngx_queue_insert_tail h x m) h (xs @ p # ys @ [x]) \<and>
    queue_holds (ngx_queue_insert_after p x m) h (xs @ p # x # ys) \<and>
    queue_holds (ngx_queue_remove p m) h (xs @ ys) \<and>
    queue_holds (ngx_queue_split h p x m) h xs \<and> queue_holds (ngx_queue_split h p x m) x (p # ys) \<and>
    queue_holds (ngx_queue_add h x (ngx_queue_split h p x m)) h (xs @ p # ys) \<and>
    ngx_queue_middle h m = Some ((xs @ p # ys) ! (length (xs @ p # ys) div 2))"
proof -
  have s: "queue_holds (ngx_queue_split h p x m) h xs" "queue_holds (ngx_queue_split h p x m) x (p # ys)"
    using queue_split [OF assms] by blast+
  have "set (h # xs) \<inter> set (x # p # ys) = {}" using assms by (auto simp: queue_holds_def)
  with s have "queue_holds (ngx_queue_add h x (ngx_queue_split h p x m)) h (xs @ p # ys)" by (rule queue_add)
  then show ?thesis
    using s queue_insert_head [OF assms] queue_insert_tail [OF assms] queue_insert_after [OF assms]
      queue_remove [OF assms(1)] queue_middle [OF assms(1)] by simp
qed

text \<open>
  \<open>ngx_queue_sort\<close> returns on every queue and leaves it holding exactly the list \<open>ngx_sort\<close> makes of
  the members: all of them, and in order when the comparison is a total preorder.
\<close>

theorem queue_sort_sorts:
  assumes "queue_holds m h xs"
  shows "\<exists>m'. ngx_queue_sort cmp h m = Some m' \<and> queue_holds m' h (ngx_sort True cmp xs) \<and>
    mset (ngx_sort True cmp xs) = mset xs \<and>
    (sort_order cmp (\<lambda>x. x \<in> set xs) \<longrightarrow> sorted_wrt (\<lambda>x y. cmp x y \<le> 0) (ngx_sort True cmp xs))"
  using queue_sort_insertion [OF assms, of cmp] sort_order.insertion_sort_sorted [of cmp "\<lambda>x. x \<in> set xs" xs]
  by (simp add: ngx_sort_eq)

text \<open>A queue of three nodes, built by the macros.\<close>

definition demo_queue :: "nat qmem" where
  "demo_queue = ngx_queue_insert_tail 0 1 (ngx_queue_insert_tail 0 2 (ngx_queue_insert_tail 0 3
     (ngx_queue_init 0 \<lparr>q_prev = (\<lambda>_. 0), q_next = (\<lambda>_. 0)\<rparr>)))"

lemma queue_init: "queue_holds (ngx_queue_init h m) h []"
  by (simp add: queue_holds_def ngx_queue_init_def)

lemma demo_queue_holds: "queue_holds demo_queue 0 [3, 2, 1]"
proof -
  have "queue_holds demo_queue 0 ((([] @ [3]) @ [2]) @ [1])"
    unfolding demo_queue_def by (intro queue_insert_tail queue_init) auto
  then show ?thesis by simp
qed

theorem queue_refines_list_witness:
  "queue_holds (ngx_queue_remove 2 demo_queue) 0 [3, 1] \<and> ngx_queue_middle 0 demo_queue = Some 2"
  using queue_refines_list [of demo_queue 0 "[3]" 2 "[1]" 7] demo_queue_holds by simp

theorem queue_sort_sorts_witness:
  "\<exists>m'. ngx_queue_sort (\<lambda>a b. int a - int b) 0 demo_queue = Some m' \<and> queue_holds m' 0 [1, 2, 3]"
proof -
  have "ngx_sort True (\<lambda>a b. int a - int b) [3, 2, 1 :: nat] = [1, 2, 3]" by (simp add: ngx_sort_eq insertion_sort_def)
  with queue_sort_sorts [OF demo_queue_holds, of "\<lambda>a b. int a - int b"] show ?thesis by auto
qed

end
