(* ===== verification/Http_Limit_Req.thy ===== *)
theory Http_Limit_Req
  imports Ngx_Queue
begin

text \<open>
  Limiting the rate of requests, \<open>nginx-master/src/http/modules/ngx_http_limit_req_module.c\<close>: the leaky
  bucket of a key, the shared zone with its nodes and its queue of recently used nodes, and the
  handler that goes through the limits of a location. Nodes are named by their keys: the tree is
  searched by the hash of a key and then by the key, so it is a map from keys to nodes. The queue is
  the linked one, with the key of a node as the address of its link and \<open>None\<close> as the sentinel.
  Times, rates and excesses are 64-bit words, computed as the code does.
\<close>

section \<open>Zones\<close>

text \<open>
  The count of a node is the number of requests that hold it. It is a number here, and a count is only
  taken back by the request that has raised it, so that \<open>count--\<close> never meets a zero (\<open>held_node\<close>).
\<close>

record lr_node =
  ln_last :: "64 word"
  ln_excess :: "64 word"
  ln_count :: nat

record lr_zone =
  lz_nodes :: "bytes \<Rightarrow> lr_node option"
  lz_queue :: "bytes option qmem"
  lz_rate :: "64 word"
  lz_node :: "bytes option"

record lr_limit =
  ll_zone :: nat
  ll_burst :: "64 word"
  ll_nodelay :: bool

definition lz_remove :: "bytes \<Rightarrow> lr_zone \<Rightarrow> lr_zone" where
  "lz_remove key z =
     z\<lparr>lz_queue := ngx_queue_remove (Some key) (lz_queue z), lz_nodes := (lz_nodes z)(key := None)\<rparr>"

text \<open>A zone set up anew by \<open>ngx_http_limit_req_init_zone\<close>: the tree is empty, the queue initialised.\<close>

definition limit_req_new_zone :: "64 word \<Rightarrow> bytes option qmem \<Rightarrow> lr_zone" where
  "limit_req_new_zone rate m =
     \<lparr>lz_nodes = (\<lambda>_. None), lz_queue = ngx_queue_init None m, lz_rate = rate, lz_node = None\<rparr>"

text \<open>The signed excess after the time since \<open>last\<close>, without the request itself and with it.\<close>

definition limit_req_ms :: "64 word \<Rightarrow> 64 word \<Rightarrow> 64 word" where
  "limit_req_ms now lst = word_of_int \<bar>sint (now - lst)\<bar>"

definition limit_req_leak :: "64 word \<Rightarrow> lr_node \<Rightarrow> 64 word \<Rightarrow> 64 word" where
  "limit_req_leak rate lr now = ln_excess lr - rate * limit_req_ms now (ln_last lr) div 1000"

definition limit_req_excess :: "64 word \<Rightarrow> lr_node \<Rightarrow> 64 word \<Rightarrow> int" where
  "limit_req_excess rate lr now =
     (let excess = sint (limit_req_leak rate lr now + 1000) in if excess < 0 then 0 else excess)"

text \<open>
  \<open>ngx_http_limit_req_expire\<close>: the oldest nodes are removed while they are not in use and, but for
  the first when \<open>n\<close> is 0, unused for a minute and empty.
\<close>

function ngx_http_limit_req_expire :: "64 word \<Rightarrow> nat \<Rightarrow> lr_zone \<Rightarrow> lr_zone" where
  "ngx_http_limit_req_expire now n z =
     (if n < 3 then
        (if ngx_queue_empty None (lz_queue z) then z
         else
           (let key = the (ngx_queue_last None (lz_queue z)); lr = the (lz_nodes z key) in
            if ln_count lr \<noteq> 0 then z
            else if n \<noteq> 0 \<and> (limit_req_ms now (ln_last lr) < 60000 \<or> sint (limit_req_leak (lz_rate z) lr now) > 0) then z
            else ngx_http_limit_req_expire now (Suc n) (lz_remove key z)))
      else z)"
  by pat_completeness auto
termination
  by (relation "measure (\<lambda>(now, n, z). 3 - n)") auto

declare ngx_http_limit_req_expire.simps [simp del]

text \<open>A new node.\<close>

definition limit_req_new :: "64 word \<Rightarrow> bytes \<Rightarrow> bool \<Rightarrow> lr_zone \<Rightarrow> ngx_int \<times> 64 word \<times> lr_zone" where
  "limit_req_new now key account z =
     (let z1 = z\<lparr>lz_nodes := (lz_nodes z)(key \<mapsto>
                    \<lparr>ln_last = (if account then now else 0), ln_excess = 0, ln_count = (if account then 0 else 1)\<rparr>),
                 lz_queue := ngx_queue_insert_head None (Some key) (lz_queue z)\<rparr> in
      if account then (NGX_OK, 0, z1) else (NGX_AGAIN, 0, z1\<lparr>lz_node := Some key\<rparr>))"

text \<open>
  \<open>ngx_http_limit_req_lookup\<close>: the return code, \<open>*ep\<close> and the zone. \<open>slab\<close> tells whether the zone
  has memory for a node of the key.
\<close>

definition ngx_http_limit_req_lookup ::
    "(lr_zone \<Rightarrow> bytes \<Rightarrow> bool) \<Rightarrow> 64 word \<Rightarrow> 64 word \<Rightarrow> bytes \<Rightarrow> bool \<Rightarrow> lr_zone \<Rightarrow> ngx_int \<times> 64 word \<times> lr_zone" where
  "ngx_http_limit_req_lookup slab now burst key account z =
     (case lz_nodes z key of
        Some lr \<Rightarrow>
          (let z1 = z\<lparr>lz_queue := ngx_queue_insert_head None (Some key) (ngx_queue_remove (Some key) (lz_queue z))\<rparr>;
               excess = limit_req_excess (lz_rate z) lr now; ep = word_of_int excess in
           if ep > burst then (NGX_BUSY, ep, z1)
           else if account then
             (NGX_OK, ep, z1\<lparr>lz_nodes := (lz_nodes z)(key \<mapsto> lr\<lparr>ln_excess := ep, ln_last := now\<rparr>)\<rparr>)
           else
             (NGX_AGAIN, ep, z1\<lparr>lz_nodes := (lz_nodes z)(key \<mapsto> lr\<lparr>ln_count := Suc (ln_count lr)\<rparr>), lz_node := Some key\<rparr>))
      | None \<Rightarrow>
          (let z1 = ngx_http_limit_req_expire now 1 z in
           if slab z1 key then limit_req_new now key account z1
           else
             (let z2 = ngx_http_limit_req_expire now 0 z1 in
              if slab z2 key then limit_req_new now key account z2 else (NGX_ERROR, 0, z2))))"

section \<open>The handler\<close>

text \<open>
  What the handler is given: the time, the memory of the zones, the value of the key of each zone
  (\<open>None\<close> when it cannot be computed) and whether the read event can be handled.
\<close>

record lr_env =
  le_now :: "64 word"
  le_slab :: "lr_zone \<Rightarrow> bytes \<Rightarrow> bool"
  le_key :: "nat \<Rightarrow> bytes option"
  le_read :: bool

text \<open>
  The loop over the limits: \<open>None\<close> in the first component when a key fails; otherwise the code, the
  index and the limit it stopped at, and \<open>excess\<close>.
\<close>

fun limit_req_loop ::
    "lr_env \<Rightarrow> lr_limit list \<Rightarrow> nat \<Rightarrow> ngx_int \<times> 64 word \<times> lr_limit option \<Rightarrow> (nat \<Rightarrow> lr_zone) \<Rightarrow>
     (ngx_int \<times> nat \<times> 64 word \<times> lr_limit option) option \<times> (nat \<Rightarrow> lr_zone)" where
  "limit_req_loop env [] n (rc, ep, lim) zs = (Some (rc, n, ep, lim), zs)"
| "limit_req_loop env (l # ls) n (rc, ep, lim) zs =
     (case le_key env (ll_zone l) of
        None \<Rightarrow> (None, zs)
      | Some key \<Rightarrow>
          if key = [] \<or> length key > 65535 then limit_req_loop env ls (Suc n) (rc, ep, Some l) zs
          else
            (case ngx_http_limit_req_lookup (le_slab env) (le_now env) (ll_burst l) key (ls = []) (zs (ll_zone l)) of
               (rc', ep', z) \<Rightarrow>
                 if rc' \<noteq> NGX_AGAIN then (Some (rc', n, ep', Some l), zs(ll_zone l := z))
                 else limit_req_loop env ls (Suc n) (rc', ep', Some l) (zs(ll_zone l := z))))"

text \<open>Giving back the nodes of the first limits, the last of them first.\<close>

definition limit_req_release :: "lr_limit \<Rightarrow> (nat \<Rightarrow> lr_zone) \<Rightarrow> (nat \<Rightarrow> lr_zone)" where
  "limit_req_release l zs =
     (let z = zs (ll_zone l) in
      case lz_node z of
        None \<Rightarrow> zs
      | Some key \<Rightarrow>
          zs(ll_zone l := z\<lparr>lz_nodes := (lz_nodes z)(key := map_option (\<lambda>lr. lr\<lparr>ln_count := ln_count lr - 1\<rparr>) (lz_nodes z key)),
                            lz_node := None\<rparr>))"

text \<open>One turn of the loop of \<open>ngx_http_limit_req_account\<close> with the delay found so far.\<close>

definition limit_req_account_step :: "64 word \<Rightarrow> lr_limit \<Rightarrow> (nat \<Rightarrow> lr_zone) \<times> 64 word \<Rightarrow> (nat \<Rightarrow> lr_zone) \<times> 64 word" where
  "limit_req_account_step now l st =
     (case st of
        (zs, max_delay) \<Rightarrow>
          (let z = zs (ll_zone l) in
           case lz_node z of
             None \<Rightarrow> (zs, max_delay)
           | Some key \<Rightarrow>
               (let lr = the (lz_nodes z key); excess = limit_req_excess (lz_rate z) lr now;
                    lr' = lr\<lparr>ln_last := now, ln_excess := word_of_int excess, ln_count := ln_count lr - 1\<rparr>;
                    zs' = zs(ll_zone l := z\<lparr>lz_nodes := (lz_nodes z)(key \<mapsto> lr'), lz_node := None\<rparr>);
                    delay = word_of_int (excess * 1000) div lz_rate z in
                (zs', if ll_nodelay l then max_delay else if delay > max_delay then delay else max_delay))))"

definition ngx_http_limit_req_account ::
    "64 word \<Rightarrow> lr_limit list \<Rightarrow> nat \<Rightarrow> 64 word \<Rightarrow> lr_limit option \<Rightarrow> (nat \<Rightarrow> lr_zone) \<Rightarrow> (nat \<Rightarrow> lr_zone) \<times> 64 word" where
  "ngx_http_limit_req_account now limits n ep lim zs =
     fold (limit_req_account_step now) (rev (take n limits))
       (zs, if ep = 0 then 0
            else (case lim of
                    None \<Rightarrow> 0
                  | Some l \<Rightarrow> if ll_nodelay l then 0 else ep * 1000 div lz_rate (zs (ll_zone l))))"

text \<open>
  \<open>ngx_http_limit_req_handler\<close>: its result, the delay of the timer it sets (0 for none), the flag
  \<open>limit_req_set\<close> of the main request and the zones.
\<close>

definition ngx_http_limit_req_handler ::
    "lr_env \<Rightarrow> nat \<Rightarrow> lr_limit list \<Rightarrow> bool \<Rightarrow> (nat \<Rightarrow> lr_zone) \<Rightarrow> ngx_int \<times> 64 word \<times> bool \<times> (nat \<Rightarrow> lr_zone)" where
  "ngx_http_limit_req_handler env status_code limits limit_req_set zs =
     (if limit_req_set then (NGX_DECLINED, 0, limit_req_set, zs)
      else
        (case limit_req_loop env limits 0 (NGX_DECLINED, 0, None) zs of
           (None, zs1) \<Rightarrow> (500, 0, False, zs1)
         | (Some (rc, n, ep, lim), zs1) \<Rightarrow>
             if rc = NGX_DECLINED then (NGX_DECLINED, 0, False, zs1)
             else if rc = NGX_BUSY \<or> rc = NGX_ERROR then
               (int status_code, 0, True, fold limit_req_release (rev (take n limits)) zs1)
             else
               (case ngx_http_limit_req_account (le_now env) limits n (if rc = NGX_AGAIN then 0 else ep) lim zs1 of
                  (zs2, delay) \<Rightarrow>
                    if delay = 0 then (NGX_DECLINED, 0, True, zs2)
                    else if \<not> le_read env then (500, 0, True, zs2)
                    else (NGX_AGAIN, delay, True, zs2))))"

section \<open>The nodes and their queue\<close>

text \<open>The queue of a zone holds exactly the keys of its nodes.\<close>

definition zone_holds :: "lr_zone \<Rightarrow> bytes list \<Rightarrow> bool" where
  "zone_holds z ks \<longleftrightarrow> queue_holds (lz_queue z) None (map Some ks) \<and> set ks = dom (lz_nodes z)"

definition zone_ok :: "lr_zone \<Rightarrow> bool" where
  "zone_ok z \<longleftrightarrow> (\<exists>ks. zone_holds z ks)"

lemma zone_distinct: "zone_holds z ks \<Longrightarrow> distinct ks"
  by (auto simp: zone_holds_def queue_holds_def distinct_map)

lemma zone_remove:
  assumes "zone_holds z (as @ k # bs)"
  shows "zone_holds (lz_remove k z) (as @ bs)"
proof -
  have "k \<notin> set (as @ bs)" using zone_distinct [OF assms] by auto
  then show ?thesis
    using assms ngx_queue.remove_holds [of "lz_queue z" None "map Some as" "Some k" "map Some bs"]
    by (auto simp: zone_holds_def lz_remove_def)
qed

lemma zone_insert:
  assumes "zone_holds z ks" "k \<notin> set ks"
  shows "zone_holds (z\<lparr>lz_nodes := (lz_nodes z)(k \<mapsto> lr), lz_queue := ngx_queue_insert_head None (Some k) (lz_queue z)\<rparr>) (k # ks)"
  using assms ngx_queue.insert_head_holds [of "lz_queue z" None "map Some ks" "Some k"]
  by (auto simp: zone_holds_def)

lemma zone_touch:
  assumes "zone_holds z ks" "k \<in> set ks"
  shows "queue_holds (ngx_queue_insert_head None (Some k) (ngx_queue_remove (Some k) (lz_queue z))) None (map Some (k # removeAll k ks))"
proof -
  have "map Some (removeAll k ks) = removeAll (Some k) (map Some ks)" by (induction ks) auto
  then show ?thesis
    using assms ngx_queue.touch_holds [of "lz_queue z" None "map Some ks" "Some k"] by (auto simp: zone_holds_def)
qed

lemma init_zone_ok: "zone_ok (limit_req_new_zone rate m)"
  using queue_init [of None m] by (auto simp: zone_ok_def zone_holds_def limit_req_new_zone_def intro!: exI [of _ "[]"])

text \<open>What expiry and lookup may do to the other nodes: nothing, or remove them when they are not in use.\<close>

definition node_kept :: "lr_zone \<Rightarrow> lr_zone \<Rightarrow> bytes \<Rightarrow> bool" where
  "node_kept z z' k \<longleftrightarrow> lz_nodes z' k = lz_nodes z k \<or>
     lz_nodes z' k = None \<and> (\<exists>lr. lz_nodes z k = Some lr \<and> ln_count lr = 0)"

lemma node_kept_trans: "node_kept z z' k \<Longrightarrow> node_kept z' z'' k \<Longrightarrow> node_kept z z'' k"
  unfolding node_kept_def by metis

lemma zone_last:
  assumes "zone_holds z ks" "\<not> ngx_queue_empty None (lz_queue z)"
  shows "\<exists>as k lr. ks = as @ [k] \<and> ngx_queue_last None (lz_queue z) = Some k \<and> lz_nodes z k = Some lr"
proof -
  have q: "queue_holds (lz_queue z) None (map Some ks)" using assms(1) by (simp add: zone_holds_def)
  then have "ks \<noteq> []" using assms(2) queue_ends(3) [of "lz_queue z" None "map Some ks"] by auto
  then obtain as k where ks: "ks = as @ [k]" by (metis rev_exhaust)
  then have "ngx_queue_last None (lz_queue z) = Some k" using q ngx_queue.back_holds [of "lz_queue z" None "map Some as"] by simp
  moreover have "k \<in> dom (lz_nodes z)" using assms(1) ks by (auto simp: zone_holds_def)
  ultimately show ?thesis using ks by blast
qed

lemma limit_req_expire_keeps:
  assumes "zone_ok z"
  shows "zone_ok (ngx_http_limit_req_expire now n z) \<and> node_kept z (ngx_http_limit_req_expire now n z) k \<and>
    lz_rate (ngx_http_limit_req_expire now n z) = lz_rate z \<and> lz_node (ngx_http_limit_req_expire now n z) = lz_node z"
  using assms
proof (induction now n z rule: ngx_http_limit_req_expire.induct)
  case (1 now n z)
  let ?key = "the (ngx_queue_last None (lz_queue z))" and ?lr = "the (lz_nodes z (the (ngx_queue_last None (lz_queue z))))"
  show ?case
  proof (cases "n < 3 \<and> \<not> ngx_queue_empty None (lz_queue z) \<and> \<not> ln_count ?lr \<noteq> 0 \<and>
      \<not> (n \<noteq> 0 \<and> (limit_req_ms now (ln_last ?lr) < 60000 \<or> sint (limit_req_leak (lz_rate z) ?lr now) > 0))")
    case True
    obtain ks where ks: "zone_holds z ks" using "1.prems" by (auto simp: zone_ok_def)
    obtain as key lr where l: "ks = as @ [key]" "ngx_queue_last None (lz_queue z) = Some key" "lz_nodes z key = Some lr"
      using zone_last [OF ks] True by blast
    let ?z = "lz_remove key z"
    have z: "zone_ok ?z" using zone_remove [of z as key "[]"] ks l(1) by (auto simp: zone_ok_def)
    have eq: "ngx_http_limit_req_expire now n z = ngx_http_limit_req_expire now (Suc n) ?z"
      using True l by (subst ngx_http_limit_req_expire.simps) (auto simp: Let_def)
    have "node_kept z ?z k" using True l by (auto simp: node_kept_def lz_remove_def)
    moreover have "lz_rate ?z = lz_rate z" "lz_node ?z = lz_node z" by (simp_all add: lz_remove_def)
    moreover have "zone_ok (ngx_http_limit_req_expire now (Suc n) ?z) \<and> node_kept ?z (ngx_http_limit_req_expire now (Suc n) ?z) k \<and>
        lz_rate (ngx_http_limit_req_expire now (Suc n) ?z) = lz_rate ?z \<and> lz_node (ngx_http_limit_req_expire now (Suc n) ?z) = lz_node ?z"
      using "1.IH" [OF _ _ refl refl] True l z by simp
    ultimately show ?thesis unfolding eq using node_kept_trans by auto
  next
    case False
    then have "ngx_http_limit_req_expire now n z = z"
      by (subst ngx_http_limit_req_expire.simps) (auto simp: Let_def)
    then show ?thesis using "1.prems" by (simp add: node_kept_def)
  qed
qed

lemma limit_req_new_ok:
  assumes "zone_ok z" "lz_nodes z key = None" "limit_req_new now key account z = (rc, ep, z')"
  shows "zone_ok z' \<and> (\<forall>k. k \<noteq> key \<longrightarrow> lz_nodes z' k = lz_nodes z k) \<and> lz_rate z' = lz_rate z \<and> ep = 0 \<and>
    lz_nodes z' key = Some \<lparr>ln_last = (if account then now else 0), ln_excess = 0, ln_count = (if account then 0 else 1)\<rparr> \<and>
    rc = (if account then NGX_OK else NGX_AGAIN) \<and> lz_node z' = (if account then lz_node z else Some key)"
proof -
  obtain ks where ks: "zone_holds z ks" using assms(1) by (auto simp: zone_ok_def)
  have "key \<notin> set ks" using ks assms(2) by (auto simp: zone_holds_def)
  note ins = zone_insert [OF ks this]
  have "zone_ok (z\<lparr>lz_nodes := (lz_nodes z)(key \<mapsto> lr), lz_queue := ngx_queue_insert_head None (Some key) (lz_queue z), lz_node := nd\<rparr>)"
    for lr nd using ins [of lr] unfolding zone_ok_def zone_holds_def by (intro exI [of _ "key # ks"]) simp
  moreover have "zone_ok (z\<lparr>lz_nodes := (lz_nodes z)(key \<mapsto> lr), lz_queue := ngx_queue_insert_head None (Some key) (lz_queue z)\<rparr>)"
    for lr using ins [of lr] unfolding zone_ok_def by blast
  ultimately show ?thesis using assms(3) by (auto simp: limit_req_new_def Let_def split: if_splits)
qed

text \<open>A lookup of a key that has a node, and of one that has none.\<close>

lemma limit_req_lookup_found:
  assumes "zone_ok z" "lz_nodes z key = Some lr" "ngx_http_limit_req_lookup slab now burst key account z = (rc, ep, z')"
  shows "zone_ok z' \<and> (\<forall>k. k \<noteq> key \<longrightarrow> lz_nodes z' k = lz_nodes z k) \<and> lz_rate z' = lz_rate z \<and>
    ep = word_of_int (limit_req_excess (lz_rate z) lr now) \<and>
    (if ep > burst then rc = NGX_BUSY \<and> lz_nodes z' key = Some lr \<and> lz_node z' = lz_node z
     else if account then rc = NGX_OK \<and> lz_nodes z' key = Some (lr\<lparr>ln_excess := ep, ln_last := now\<rparr>) \<and> lz_node z' = lz_node z
     else rc = NGX_AGAIN \<and> lz_nodes z' key = Some (lr\<lparr>ln_count := Suc (ln_count lr)\<rparr>) \<and> lz_node z' = Some key)"
proof -
  obtain ks where ks: "zone_holds z ks" using assms(1) by (auto simp: zone_ok_def)
  then have k: "key \<in> set ks" using assms(2) by (auto simp: zone_holds_def)
  have q: "queue_holds (ngx_queue_insert_head None (Some key) (ngx_queue_remove (Some key) (lz_queue z))) None (map Some (key # removeAll key ks))"
    by (rule zone_touch [OF ks k])
  have ok: "zone_ok z1" if "lz_queue z1 = ngx_queue_insert_head None (Some key) (ngx_queue_remove (Some key) (lz_queue z))"
    "dom (lz_nodes z1) = dom (lz_nodes z)" for z1
    unfolding zone_ok_def zone_holds_def using that q ks k by (intro exI [of _ "key # removeAll key ks"]) (auto simp: zone_holds_def)
  have "dom (lz_nodes z) = insert key (dom (lz_nodes z))" using assms(2) by auto
  then have "zone_ok z'"
    using assms(2,3) by (intro ok) (auto simp: ngx_http_limit_req_lookup_def Let_def split: if_splits)
  then show ?thesis using assms(2,3) by (auto simp: ngx_http_limit_req_lookup_def Let_def split: if_splits)
qed

lemma limit_req_lookup_new:
  assumes "zone_ok z" "lz_nodes z key = None" "ngx_http_limit_req_lookup slab now burst key account z = (rc, ep, z')"
  shows "zone_ok z' \<and> (\<forall>k. k \<noteq> key \<longrightarrow> node_kept z z' k) \<and> lz_rate z' = lz_rate z \<and> ep = 0 \<and>
    (rc = NGX_ERROR \<and> lz_nodes z' key = None \<and> lz_node z' = lz_node z \<or>
     rc = (if account then NGX_OK else NGX_AGAIN) \<and> lz_node z' = (if account then lz_node z else Some key) \<and>
     lz_nodes z' key = Some \<lparr>ln_last = (if account then now else 0), ln_excess = 0, ln_count = (if account then 0 else 1)\<rparr>)"
proof -
  define z1 where "z1 = ngx_http_limit_req_expire now 1 z"
  define z2 where "z2 = ngx_http_limit_req_expire now 0 z1"
  have z1: "zone_ok z1" "lz_rate z1 = lz_rate z" "lz_node z1 = lz_node z" "node_kept z z1 k" for k
    unfolding z1_def using limit_req_expire_keeps [OF assms(1), of now 1 k] by auto
  have z2: "zone_ok z2" "lz_rate z2 = lz_rate z" "lz_node z2 = lz_node z" "node_kept z z2 k" for k
    unfolding z2_def using limit_req_expire_keeps [OF z1(1), of now 0 k] z1 node_kept_trans [OF z1(4) [of k]] by auto
  have none: "lz_nodes z1 key = None" "lz_nodes z2 key = None"
    using z1(4) [of key] z2(4) [of key] assms(2) by (auto simp: node_kept_def)
  have look: "(if slab z1 key then limit_req_new now key account z1
       else if slab z2 key then limit_req_new now key account z2 else (NGX_ERROR, 0, z2)) = (rc, ep, z')"
    using assms(3) by (simp only: ngx_http_limit_req_lookup_def assms(2) option.case Let_def z1_def z2_def)
  have kept: "node_kept z z'' k" if "node_kept z z0 k" "lz_nodes z'' k = lz_nodes z0 k" for z0 z'' k
    using that by (simp add: node_kept_def)
  show ?thesis
  proof (cases "slab z1 key")
    case True
    then have "limit_req_new now key account z1 = (rc, ep, z')" using look by simp
    note new = limit_req_new_ok [OF z1(1) none(1) this]
    then have "\<forall>k. k \<noteq> key \<longrightarrow> node_kept z z' k" using kept [OF z1(4)] by blast
    with new show ?thesis using z1 by auto
  next
    case no: False
    show ?thesis
    proof (cases "slab z2 key")
      case True
      then have "limit_req_new now key account z2 = (rc, ep, z')" using look no by simp
      note new = limit_req_new_ok [OF z2(1) none(2) this]
      then have "\<forall>k. k \<noteq> key \<longrightarrow> node_kept z z' k" using kept [OF z2(4)] by blast
      with new show ?thesis using z2 by auto
    next
      case False
      then show ?thesis using look no z2 none by auto
    qed
  qed
qed

section \<open>The rate of a key\<close>

text \<open>Where nothing wraps around, the excess leaks at the rate and grows by a request.\<close>

lemma limit_req_excess_int:
  assumes "uint (ln_last lr) \<le> uint now" "uint now < 2 ^ 62" "uint rate * uint now < 2 ^ 62" "uint (ln_excess lr) < 2 ^ 61"
  shows "limit_req_excess rate lr now =
    max 0 (uint (ln_excess lr) - uint rate * (uint now - uint (ln_last lr)) div 1000 + 1000)"
proof -
  let ?d = "uint now - uint (ln_last lr)" and ?e = "uint (ln_excess lr)"
  have d: "0 \<le> ?d" "?d \<le> uint now" using assms(1) by (auto simp: uint_nonnegative)
  have small: "?d < 2 ^ 62" using d(2) assms(2) by (rule order_le_less_trans)
  have "now - ln_last lr = of_int ?d" by simp
  moreover have "sint (of_int ?d :: 64 word) = ?d" by (rule sint_small) (use d(1) small in simp_all)
  ultimately have "sint (now - ln_last lr) = ?d" by metis
  then have ms: "limit_req_ms now (ln_last lr) = of_int ?d" using d by (simp add: limit_req_ms_def)
  have prod: "0 \<le> uint rate * ?d" "uint rate * ?d \<le> uint rate * uint now"
    using d by (auto intro!: mult_left_mono simp: uint_nonnegative)
  have "rate * limit_req_ms now (ln_last lr) = of_int (uint rate * ?d)" by (simp add: ms)
  then have "rate * limit_req_ms now (ln_last lr) div 1000 = of_int (uint rate * ?d div 1000)"
    using word_div_small [of "uint rate * ?d" 1000] prod assms(3) by simp
  then have sum: "limit_req_leak rate lr now + 1000 = of_int (?e - uint rate * ?d div 1000 + 1000)"
    by (simp add: limit_req_leak_def)
  define x where "x = uint rate * ?d div 1000"
  have "0 \<le> x" "x \<le> uint rate * ?d"
    using prod int_div_bounds [of 1000 "uint rate * ?d"] by (auto simp: pos_imp_zdiv_nonneg_iff x_def)
  then have "0 \<le> x" "x < 2 ^ 62" "0 \<le> ?e" "?e < 2 ^ 61" using prod(2) assms(3,4) by (auto simp: uint_nonnegative)
  moreover have "- (2 ^ 63) \<le> e - x + 1000 \<and> e - x + 1000 < 2 ^ 63" if "0 \<le> x" "x < 2 ^ 62" "0 \<le> e" "e < 2 ^ 61" for e x :: int
    using that by simp
  ultimately have "- (2 ^ 63) \<le> ?e - x + 1000" "?e - x + 1000 < 2 ^ 63" by blast+
  then have "sint (of_int (?e - x + 1000) :: 64 word) = ?e - x + 1000" by (rule sint_small)
  then have "sint (limit_req_leak rate lr now + 1000) = ?e - x + 1000" using sum unfolding x_def by metis
  then show ?thesis by (simp add: limit_req_excess_def Let_def max_def x_def)
qed

text \<open>
  A run of requests to a zone, each with its time and key, all counted at once; for a key, how many
  were accepted and how often a node was made for it.
\<close>

fun limit_req_run ::
    "(lr_zone \<Rightarrow> bytes \<Rightarrow> bool) \<Rightarrow> 64 word \<Rightarrow> (64 word \<times> bytes) list \<Rightarrow> lr_zone \<Rightarrow> ngx_int list \<times> lr_zone" where
  "limit_req_run slab burst [] z = ([], z)"
| "limit_req_run slab burst ((now, key) # rs) z =
     (case ngx_http_limit_req_lookup slab now burst key True z of
        (rc, ep, z1) \<Rightarrow> (case limit_req_run slab burst rs z1 of (rcs, z2) \<Rightarrow> (rc # rcs, z2)))"

fun limit_req_made :: "(lr_zone \<Rightarrow> bytes \<Rightarrow> bool) \<Rightarrow> 64 word \<Rightarrow> bytes \<Rightarrow> (64 word \<times> bytes) list \<Rightarrow> lr_zone \<Rightarrow> nat" where
  "limit_req_made slab burst k [] z = 0"
| "limit_req_made slab burst k ((now, key) # rs) z =
     (case ngx_http_limit_req_lookup slab now burst key True z of
        (rc, ep, z1) \<Rightarrow> (if key = k \<and> lz_nodes z k = None \<and> rc = NGX_OK then 1 else 0) + limit_req_made slab burst k rs z1)"

definition accepted :: "bytes \<Rightarrow> (64 word \<times> bytes) list \<Rightarrow> ngx_int list \<Rightarrow> nat" where
  "accepted k rs rcs = length (filter (\<lambda>((now, key), rc). key = k \<and> rc = NGX_OK) (zip rs rcs))"

lemma accepted_simps [simp]:
  "accepted k [] rcs = 0" "accepted k ((now, key) # rs) (rc # rcs) = (if key = k \<and> rc = NGX_OK then 1 else 0) + accepted k rs rcs"
  by (simp_all add: accepted_def)

text \<open>
  The account of a key: \<open>lr_room\<close> is what may still be accepted from time \<open>t\<close> until \<open>t1\<close>, in millionths
  of a request: what leaks until then, and what the bucket of the node has left.
\<close>

definition lr_sane :: "64 word \<Rightarrow> int \<Rightarrow> lr_zone \<Rightarrow> bytes \<Rightarrow> bool" where
  "lr_sane burst t z k \<longleftrightarrow> zone_ok z \<and> (case lz_nodes z k of None \<Rightarrow> True
     | Some lr \<Rightarrow> uint (ln_last lr) \<le> t \<and> uint (ln_excess lr) \<le> uint burst)"

definition lr_room :: "64 word \<Rightarrow> int \<Rightarrow> int \<Rightarrow> lr_zone \<Rightarrow> bytes \<Rightarrow> int" where
  "lr_room burst t1 t z k = (case lz_nodes z k of None \<Rightarrow> uint (lz_rate z) * (t1 - t)
     | Some lr \<Rightarrow> 1000 * (uint burst - uint (ln_excess lr)) + uint (lz_rate z) * (t1 - uint (ln_last lr)))"

text \<open>The bounds under which nothing wraps around.\<close>

definition lr_small :: "64 word \<Rightarrow> 64 word \<Rightarrow> int \<Rightarrow> bool" where
  "lr_small burst rate t1 \<longleftrightarrow> t1 < 2 ^ 62 \<and> uint rate * t1 < 2 ^ 62 \<and> uint burst < 2 ^ 61"

lemma lr_small_excess:
  assumes "lr_small burst rate t1" "uint (ln_last lr) \<le> uint now" "uint now \<le> t1" "uint (ln_excess lr) \<le> uint burst"
  shows "limit_req_excess rate lr now =
      max 0 (uint (ln_excess lr) - uint rate * (uint now - uint (ln_last lr)) div 1000 + 1000)"
    and "uint (word_of_int (limit_req_excess rate lr now) :: 64 word) = limit_req_excess rate lr now"
proof -
  have "uint rate * uint now \<le> uint rate * t1" using assms(3) by (intro mult_left_mono) auto
  then have b: "uint now < 2 ^ 62" "uint rate * uint now < 2 ^ 62" "uint (ln_excess lr) < 2 ^ 61"
    using assms by (auto simp: lr_small_def)
  show e: "limit_req_excess rate lr now =
      max 0 (uint (ln_excess lr) - uint rate * (uint now - uint (ln_last lr)) div 1000 + 1000)"
    by (rule limit_req_excess_int [OF assms(2) b])
  have "0 \<le> uint rate * (uint now - uint (ln_last lr))" using assms(2) by simp
  then have "0 \<le> uint rate * (uint now - uint (ln_last lr)) div 1000" by (simp add: pos_imp_zdiv_nonneg_iff)
  then have "limit_req_excess rate lr now < 2 ^ 62" "0 \<le> limit_req_excess rate lr now"
    unfolding e using b(3) by (simp_all add: max_def)
  then show "uint (word_of_int (limit_req_excess rate lr now) :: 64 word) = limit_req_excess rate lr now"
    by (simp add: uint_word_of_int_eq take_bit_int_eq_self_iff)
qed

text \<open>One request to the zone: the room of any key.\<close>

lemma limit_req_step_other:
  assumes "lr_sane burst t z k" "t \<le> uint now" "key \<noteq> k"
    and "ngx_http_limit_req_lookup slab now burst key True z = (rc, ep, z1)"
  shows "lr_sane burst (uint now) z1 k \<and> lz_rate z1 = lz_rate z \<and> lr_room burst t1 (uint now) z1 k \<le> lr_room burst t1 t z k"
proof -
  have ok: "zone_ok z" using assms(1) by (simp add: lr_sane_def)
  have z1: "zone_ok z1 \<and> node_kept z z1 k \<and> lz_rate z1 = lz_rate z"
  proof (cases "lz_nodes z key")
    case None
    have "zone_ok z1 \<and> (\<forall>k. k \<noteq> key \<longrightarrow> node_kept z z1 k) \<and> lz_rate z1 = lz_rate z"
      using limit_req_lookup_new [OF ok None assms(4)] by (elim conjE) (intro conjI)
    then show ?thesis using assms(3) by simp
  next
    case (Some lr)
    then show ?thesis using limit_req_lookup_found [OF ok Some assms(4)] assms(3) by (simp add: node_kept_def)
  qed
  have "uint (lz_rate z) * (t1 - uint now) \<le> uint (lz_rate z) * (t1 - s)" if "s \<le> t" for s
    using that assms(2) by (intro mult_left_mono) auto
  then show ?thesis
    using z1 assms(1,2) unfolding lr_sane_def lr_room_def node_kept_def by (fastforce split: option.splits)
qed

lemma limit_req_step_same:
  assumes "lr_sane burst t z k" "t \<le> uint now" "uint now \<le> t1" "lr_small burst (lz_rate z) t1"
    and "ngx_http_limit_req_lookup slab now burst k True z = (rc, ep, z1)"
  shows "lr_sane burst (uint now) z1 k \<and> lz_rate z1 = lz_rate z \<and>
    (if rc = NGX_OK then 1000000 else 0) + lr_room burst t1 (uint now) z1 k \<le>
    (if lz_nodes z k = None \<and> rc = NGX_OK then 1000 * (uint burst + 1000) else 0) + lr_room burst t1 t z k"
proof (cases "lz_nodes z k")
  case None
  have ok: "zone_ok z" using assms(1) by (simp add: lr_sane_def)
  have "uint (lz_rate z) * (t1 - uint now) \<le> uint (lz_rate z) * (t1 - t)"
    using assms(2) by (intro mult_left_mono) auto
  then show ?thesis
    using limit_req_lookup_new [OF ok None assms(5)] None by (auto simp: lr_sane_def lr_room_def)
next
  case (Some lr)
  have ok: "zone_ok z" using assms(1) by (simp add: lr_sane_def)
  have lr: "uint (ln_last lr) \<le> uint now" "uint (ln_excess lr) \<le> uint burst"
    using assms(1,2) Some by (auto simp: lr_sane_def)
  note e = lr_small_excess [OF assms(4) lr(1) assms(3) lr(2)]
  define d where "d = uint (lz_rate z) * (uint now - uint (ln_last lr))"
  define x where "x = limit_req_excess (lz_rate z) lr now"
  have "d div 1000 * 1000 \<le> d" using int_div_bounds [of 1000 d] by simp
  then have x: "1000 * uint (ln_excess lr) - d + 1000000 \<le> 1000 * x" using e(1) by (simp add: x_def d_def max_def)
  have d: "uint (lz_rate z) * (t1 - uint (ln_last lr)) = uint (lz_rate z) * (t1 - uint now) + d"
    by (simp add: d_def algebra_simps)
  have u: "uint (word_of_int x :: 64 word) = x" using e(2) by (simp add: x_def)
  have f: "zone_ok z1" "lz_rate z1 = lz_rate z" "ep = word_of_int x"
    "if ep > burst then rc = NGX_BUSY \<and> lz_nodes z1 k = Some lr \<and> lz_node z1 = lz_node z
     else rc = NGX_OK \<and> lz_nodes z1 k = Some (lr\<lparr>ln_excess := ep, ln_last := now\<rparr>) \<and> lz_node z1 = lz_node z"
    using limit_req_lookup_found [OF ok Some assms(5)] by (simp_all add: x_def)
  show ?thesis
  proof (cases "ep > burst")
    case True
    then show ?thesis using f Some lr by (auto simp: lr_sane_def lr_room_def)
  next
    case False
    then have "uint ep \<le> uint burst" by (simp add: word_less_def)
    then show ?thesis using f False Some lr x u by (simp add: lr_sane_def lr_room_def d)
  qed
qed

lemma limit_req_run_room:
  assumes "lr_sane burst t z k" "sorted (t # map (\<lambda>r. uint (fst r)) rs @ [t1])" "lr_small burst (lz_rate z) t1"
    and "limit_req_run slab burst rs z = (rcs, z')"
  shows "1000000 * int (accepted k rs rcs) \<le>
    1000 * (uint burst + 1000) * int (limit_req_made slab burst k rs z) + lr_room burst t1 t z k"
  using assms
proof (induction rs arbitrary: t z rcs)
  case Nil
  then have "uint (lz_rate z) * (t1 - s) \<ge> 0" if "s \<le> t" for s using that by simp
  then show ?case using Nil by (fastforce simp: lr_room_def lr_sane_def split: option.splits)
next
  case (Cons r rs)
  obtain now key where r: "r = (now, key)" by fastforce
  obtain rc ep z1 where look: "ngx_http_limit_req_lookup slab now burst key True z = (rc, ep, z1)" by (metis prod_cases3)
  obtain rcs1 where run: "limit_req_run slab burst rs z1 = (rcs1, z')" "rcs = rc # rcs1"
    using Cons.prems(4) r look by (auto split: prod.splits)
  have t: "t \<le> uint now" "uint now \<le> t1" "sorted (uint now # map (\<lambda>r. uint (fst r)) rs @ [t1])"
    using Cons.prems(2) r by auto
  let ?a = "if key = k \<and> rc = NGX_OK then 1 else 0 :: int" and ?m = "if key = k \<and> lz_nodes z k = None \<and> rc = NGX_OK then 1 else 0 :: int"
  have step: "lr_sane burst (uint now) z1 k" "lz_rate z1 = lz_rate z"
    "1000000 * ?a + lr_room burst t1 (uint now) z1 k \<le> 1000 * (uint burst + 1000) * ?m + lr_room burst t1 t z k"
    using limit_req_step_other [OF Cons.prems(1) t(1) _ look, of t1]
      limit_req_step_same [OF Cons.prems(1) t(1,2) Cons.prems(3), of slab rc ep z1] look by (cases "key = k"; auto)+
  have "1000000 * int (accepted k rs rcs1) \<le>
      1000 * (uint burst + 1000) * int (limit_req_made slab burst k rs z1) + lr_room burst t1 (uint now) z1 k"
    using Cons.IH [OF step(1) t(3) _ run(1)] step(2) Cons.prems(3) by simp
  moreover have "int (accepted k (r # rs) rcs) = ?a + int (accepted k rs rcs1)"
    "int (limit_req_made slab burst k (r # rs) z) = ?m + int (limit_req_made slab burst k rs z1)"
    using r run(2) look by simp_all
  ultimately show ?case using step(3) by (simp add: distrib_left)
qed

text \<open>
  C20. Of the requests of a key from \<open>t0\<close> to \<open>t1\<close>, among any requests with other keys, a single limit on
  a zone (\<open>account\<close> set) lets pass at most what the rate gives in that time, a burst and one request for
  each time the node of the key was made anew, and, when the key has a node at \<open>t0\<close>, what is left of the
  burst in it and what has leaked since it was last used (rates, bursts and excesses are in
  thousandths of a request, times in milliseconds; such a node's last use is not after \<open>t0\<close> and its
  excess is within the burst, and nothing is so large that it wraps around).
\<close>

theorem limit_req_rate:
  assumes "zone_ok z" "\<forall>lr. lz_nodes z k = Some lr \<longrightarrow> uint (ln_last lr) \<le> t0 \<and> uint (ln_excess lr) \<le> uint burst"
    and "sorted (t0 # map (\<lambda>r. uint (fst r)) rs @ [t1])"
    and "lr_small burst (lz_rate z) t1" "limit_req_run slab burst rs z = (rcs, z')"
  shows "1000000 * int (accepted k rs rcs) \<le>
    1000 * (uint burst + 1000) * int (limit_req_made slab burst k rs z) + uint (lz_rate z) * (t1 - t0) +
    (case lz_nodes z k of None \<Rightarrow> 0
     | Some lr \<Rightarrow> 1000 * (uint burst - uint (ln_excess lr)) + uint (lz_rate z) * (t0 - uint (ln_last lr)))"
  using limit_req_run_room [OF _ assms(3-5), of k] assms(1,2)
  by (auto simp: lr_sane_def lr_room_def algebra_simps split: option.splits)

section \<open>Requests at the rate\<close>

text \<open>Requests with key \<open>k\<close> that come no faster than the rate, the last of them at \<open>lst\<close>.\<close>

fun paced :: "int \<Rightarrow> bytes \<Rightarrow> int option \<Rightarrow> (64 word \<times> bytes) list \<Rightarrow> bool" where
  "paced rate k lst [] \<longleftrightarrow> True"
| "paced rate k lst ((now, key) # rs) \<longleftrightarrow>
     (if key = k then (case lst of None \<Rightarrow> True | Some l \<Rightarrow> 1000000 \<le> rate * (uint now - l)) \<and> paced rate k (Some (uint now)) rs
      else paced rate k lst rs)"

lemma limit_req_paced_step:
  assumes "lr_sane burst t z k" "t \<le> uint now" "uint now \<le> t1" "lr_small burst (lz_rate z) t1" "\<forall>z. slab z k"
    and "\<And>lr. lz_nodes z k = Some lr \<Longrightarrow> 1000000 \<le> uint (lz_rate z) * (uint now - uint (ln_last lr))"
    and "ngx_http_limit_req_lookup slab now burst k True z = (rc, ep, z1)"
  shows "rc = NGX_OK \<and> (\<exists>lr. lz_nodes z1 k = Some lr \<and> ln_last lr = now)"
proof (cases "lz_nodes z k")
  case None
  then have "rc \<noteq> NGX_ERROR"
    using assms(5,7) by (auto simp: ngx_http_limit_req_lookup_def limit_req_new_def Let_def)
  then show ?thesis using limit_req_lookup_new [OF _ None assms(7)] assms(1) by (auto simp: lr_sane_def)
next
  case (Some lr)
  have ok: "zone_ok z" using assms(1) by (simp add: lr_sane_def)
  have lr: "uint (ln_last lr) \<le> uint now" "uint (ln_excess lr) \<le> uint burst"
    using assms(1,2) Some by (auto simp: lr_sane_def)
  note e = lr_small_excess [OF assms(4) lr(1) assms(3) lr(2)]
  define d where "d = uint (lz_rate z) * (uint now - uint (ln_last lr))"
  have "1000 \<le> d div 1000" using assms(6) [OF Some] by (simp add: d_def)
  then have "limit_req_excess (lz_rate z) lr now \<le> uint burst"
    using e(1) lr(2) by (simp add: d_def max_def)
  then have "\<not> ep > burst"
    using limit_req_lookup_found [OF ok Some assms(7)] e(2) by (simp add: word_less_def)
  then show ?thesis using limit_req_lookup_found [OF ok Some assms(7)] by simp
qed

lemma limit_req_run_paced:
  assumes "lr_sane burst t z k" "sorted (t # map (\<lambda>r. uint (fst r)) rs @ [t1])" "lr_small burst (lz_rate z) t1" "\<forall>z. slab z k"
    and "\<And>lr. lz_nodes z k = Some lr \<Longrightarrow> lst = Some (uint (ln_last lr))" "paced (uint (lz_rate z)) k lst rs"
    and "limit_req_run slab burst rs z = (rcs, z')"
  shows "accepted k rs rcs = length (filter (\<lambda>r. snd r = k) rs)"
  using assms
proof (induction rs arbitrary: t z rcs lst)
  case Nil
  then show ?case by simp
next
  case (Cons r rs)
  obtain now key where r: "r = (now, key)" by fastforce
  obtain rc ep z1 where look: "ngx_http_limit_req_lookup slab now burst key True z = (rc, ep, z1)" by (metis prod_cases3)
  obtain rcs1 where run: "limit_req_run slab burst rs z1 = (rcs1, z')" "rcs = rc # rcs1"
    using Cons.prems(7) r look by (auto split: prod.splits)
  have t: "t \<le> uint now" "uint now \<le> t1" "sorted (uint now # map (\<lambda>r. uint (fst r)) rs @ [t1])"
    using Cons.prems(2) r by auto
  show ?case
  proof (cases "key = k")
    case True
    have step: "lr_sane burst (uint now) z1 k" "lz_rate z1 = lz_rate z"
      using limit_req_step_same [OF Cons.prems(1) t(1,2) Cons.prems(3), of slab rc ep z1] look True by auto
    have ok: "rc = NGX_OK \<and> (\<exists>lr. lz_nodes z1 k = Some lr \<and> ln_last lr = now)"
      using Cons.prems(4-6) True r look
      by (intro limit_req_paced_step [where slab = slab, OF Cons.prems(1) t(1,2) Cons.prems(3), where ep = ep]) auto
    then have "accepted k rs rcs1 = length (filter (\<lambda>r. snd r = k) rs)"
      using Cons.prems(3,6) True r step(2)
      by (intro Cons.IH [of "uint now" z1 "Some (uint now)" rcs1] step(1) t(3) Cons.prems(4) run(1)) auto
    then show ?thesis using ok r run(2) True by simp
  next
    case False
    have step: "lr_sane burst (uint now) z1 k" "lz_rate z1 = lz_rate z"
      using limit_req_step_other [OF Cons.prems(1) t(1) False look] by auto
    have ok: "zone_ok z" using Cons.prems(1) by (simp add: lr_sane_def)
    have "node_kept z z1 k"
      using limit_req_lookup_new [OF ok _ look] limit_req_lookup_found [OF ok _ look] False
      by (cases "lz_nodes z key") (auto simp: node_kept_def)
    then have "accepted k rs rcs1 = length (filter (\<lambda>r. snd r = k) rs)"
      using Cons.prems(3,5,6) False r step(2)
      by (intro Cons.IH [of "uint now" z1 lst rcs1] step(1) t(3) Cons.prems(4) run(1)) (auto simp: node_kept_def)
    then show ?thesis using r run(2) False by simp
  qed
qed

text \<open>
  C21. A client that keeps to the rate is never turned away: when the requests of a key come at least
  \<open>1000000 / rate\<close> milliseconds apart and the zone has memory for its node, every one of them is
  accepted, whatever the requests of the other keys and whatever expires in between.
\<close>

theorem limit_req_paced_accepted:
  assumes "zone_ok z" "lz_nodes z k = None" "sorted (t0 # map (\<lambda>r. uint (fst r)) rs @ [t1])"
    and "lr_small burst (lz_rate z) t1" "\<forall>z. slab z k" "paced (uint (lz_rate z)) k None rs"
    and "limit_req_run slab burst rs z = (rcs, z')"
  shows "accepted k rs rcs = length (filter (\<lambda>r. snd r = k) rs)"
  using assms by (intro limit_req_run_paced [where lst = None]) (auto simp: lr_sane_def)

section \<open>The counts of the nodes in use\<close>

definition pins :: "lr_zone \<Rightarrow> bytes \<Rightarrow> nat" where
  "pins z k = (case lz_nodes z k of None \<Rightarrow> 0 | Some lr \<Rightarrow> ln_count lr)"

text \<open>The node a zone remembers for the request is counted once more than before; the other nodes are as before.\<close>

definition held :: "lr_zone \<Rightarrow> lr_zone \<Rightarrow> bool" where
  "held z0 z \<longleftrightarrow> zone_ok z \<and> (\<forall>k. pins z k = pins z0 k + (if lz_node z = Some k then 1 else 0))"

text \<open>A node that was not charged: its bucket is as before, unless it is new, empty and unused, or expired.\<close>

definition uncharged :: "lr_zone \<Rightarrow> lr_zone \<Rightarrow> bytes \<Rightarrow> bool" where
  "uncharged z0 z k \<longleftrightarrow> (case lz_nodes z k of
     None \<Rightarrow> pins z0 k = 0
   | Some lr \<Rightarrow>
       (case lz_nodes z0 k of
          None \<Rightarrow> ln_last lr = 0 \<and> ln_excess lr = 0
        | Some lr0 \<Rightarrow> ln_last lr = ln_last lr0 \<and> ln_excess lr = ln_excess lr0))"

lemma node_kept_pins: "node_kept z z' k \<Longrightarrow> pins z' k = pins z k \<and> uncharged z z' k"
  by (auto simp: node_kept_def pins_def uncharged_def split: option.splits)

lemma held_at:
  assumes "zone_ok z'" "\<And>k. k \<noteq> key \<Longrightarrow> node_kept z z' k" "lz_node z' = None \<or> lz_node z' = Some key"
    and "pins z' key = pins z key + (if lz_node z' = Some key then 1 else 0)" "P \<Longrightarrow> uncharged z z' key"
  shows "held z z' \<and> (P \<longrightarrow> (\<forall>k. uncharged z z' k))"
proof -
  have "pins z' k = pins z k + (if lz_node z' = Some k then 1 else 0)" for k
    using assms(3,4) node_kept_pins [OF assms(2), of k] by (cases "k = key") auto
  moreover have "uncharged z z' k" if P for k
    using assms(5) that node_kept_pins [OF assms(2), of k] by (cases "k = key") auto
  ultimately show ?thesis using assms(1) by (simp add: held_def)
qed

lemma limit_req_lookup_held:
  assumes "zone_ok z" "lz_node z = None" "ngx_http_limit_req_lookup slab now burst key account z = (rc, ep, z')"
  shows "(held z z' \<and> (rc \<noteq> NGX_OK \<longrightarrow> (\<forall>k. uncharged z z' k))) \<and> (lz_node z' \<noteq> None \<longrightarrow> rc = NGX_AGAIN) \<and>
    rc \<in> {NGX_OK, NGX_AGAIN, NGX_BUSY, NGX_ERROR}"
proof (cases "lz_nodes z key")
  case None
  note new = limit_req_lookup_new [OF assms(1) None assms(3)]
  have "held z z' \<and> (rc \<noteq> NGX_OK \<longrightarrow> (\<forall>k. uncharged z z' k))"
    using new assms(2) None by (intro held_at) (auto simp: pins_def uncharged_def split: if_splits)
  then show ?thesis using new assms(2) by (auto split: if_splits)
next
  case (Some lr)
  note f = limit_req_lookup_found [OF assms(1) Some assms(3)]
  have "held z z' \<and> (rc \<noteq> NGX_OK \<longrightarrow> (\<forall>k. uncharged z z' k))"
    using f assms(2) Some by (intro held_at) (auto simp: pins_def uncharged_def node_kept_def split: if_splits)
  then show ?thesis using f assms(2) by (auto split: if_splits)
qed

text \<open>Giving a node back, with or without charging it, undoes the count.\<close>

lemma zone_ok_update:
  assumes "zone_ok z" "dom (lz_nodes z') = dom (lz_nodes z)" "lz_queue z' = lz_queue z"
  shows "zone_ok z'"
  using assms by (simp add: zone_ok_def zone_holds_def)

lemma held_node: "held z0 z \<Longrightarrow> lz_node z = Some key \<Longrightarrow> \<exists>lr. lz_nodes z key = Some lr \<and> ln_count lr = Suc (pins z0 key)"
proof -
  assume "held z0 z" "lz_node z = Some key"
  then have "pins z key = Suc (pins z0 key)" by (simp add: held_def)
  then show ?thesis by (simp add: pins_def [of z] split: option.splits)
qed

lemma held_give_back:
  assumes "held z0 z" "lz_node z = Some key" "lz_nodes z key = Some lr" "ln_count lr' = ln_count lr - 1"
    and "z' = z\<lparr>lz_nodes := (lz_nodes z)(key \<mapsto> lr'), lz_node := None\<rparr>"
  shows "held z0 z' \<and> lz_node z' = None"
proof -
  have ok: "zone_ok z" using assms(1) by (simp add: held_def)
  have "zone_ok z'" unfolding assms(5) by (rule zone_ok_update [OF ok]) (use assms(3) in auto)
  moreover have "pins z' k = pins z0 k" for k
  proof (cases "k = key")
    case True
    then show ?thesis using assms(3-5) held_node [OF assms(1,2)] unfolding assms(5) by (simp add: pins_def [of "lz_node_update _ _"])
  next
    case False
    then have "pins z' k = pins z k" using assms(5) by (simp add: pins_def)
    then show ?thesis using False assms(1,2) by (simp add: held_def)
  qed
  ultimately show ?thesis using assms(5) by (simp add: held_def)
qed

text \<open>The zones while the limits up to some point may hold a node.\<close>

definition holding :: "(nat \<Rightarrow> lr_zone) \<Rightarrow> (nat \<Rightarrow> lr_zone) \<Rightarrow> nat set \<Rightarrow> bool" where
  "holding zs0 zs I \<longleftrightarrow> (\<forall>i. held (zs0 i) (zs i) \<and> (lz_node (zs i) \<noteq> None \<longrightarrow> i \<in> I))"

definition all_uncharged :: "(nat \<Rightarrow> lr_zone) \<Rightarrow> (nat \<Rightarrow> lr_zone) \<Rightarrow> bool" where
  "all_uncharged zs0 zs \<longleftrightarrow> (\<forall>i k. uncharged (zs0 i) (zs i) k)"

lemma holding_release:
  assumes "holding zs0 zs I"
  shows "holding zs0 (limit_req_release l zs) (I - {ll_zone l}) \<and> (all_uncharged zs0 zs \<longrightarrow> all_uncharged zs0 (limit_req_release l zs))"
proof (cases "lz_node (zs (ll_zone l))")
  case None
  then show ?thesis using assms by (auto simp: holding_def limit_req_release_def)
next
  case (Some key)
  let ?i = "ll_zone l"
  have h: "held (zs0 ?i) (zs ?i)" using assms by (simp add: holding_def)
  obtain lr where lr: "lz_nodes (zs ?i) key = Some lr" using held_node [OF h Some] by blast
  define lr' where "lr' = lr\<lparr>ln_count := ln_count lr - 1\<rparr>"
  have r: "limit_req_release l zs = zs(?i := (zs ?i)\<lparr>lz_nodes := (lz_nodes (zs ?i))(key \<mapsto> lr'), lz_node := None\<rparr>)"
    using Some lr by (simp add: limit_req_release_def Let_def lr'_def)
  have "held (zs0 ?i) (limit_req_release l zs ?i) \<and> lz_node (limit_req_release l zs ?i) = None"
    unfolding r by (rule held_give_back [OF h Some lr]) (simp_all add: lr'_def)
  then have "holding zs0 (limit_req_release l zs) (I - {?i})"
    using assms r by (auto simp: holding_def)
  moreover have "uncharged (zs0 ?i) (limit_req_release l zs ?i) k" if "uncharged (zs0 ?i) (zs ?i) k" for k
    using that lr unfolding r by (auto simp: uncharged_def lr'_def split: option.splits)
  ultimately show ?thesis unfolding all_uncharged_def using r by (metis fun_upd_other)
qed

lemma holding_release_all:
  "holding zs0 zs I \<Longrightarrow> holding zs0 (fold limit_req_release ls zs) (I - ll_zone ` set ls) \<and>
    (all_uncharged zs0 zs \<longrightarrow> all_uncharged zs0 (fold limit_req_release ls zs))"
proof (induction ls arbitrary: zs I)
  case Nil
  then show ?case by simp
next
  case (Cons l ls)
  note r = holding_release [OF Cons.prems, of l]
  have "I - {ll_zone l} - ll_zone ` set ls = I - ll_zone ` set (l # ls)" by auto
  then show ?case using Cons.IH [of "limit_req_release l zs" "I - {ll_zone l}"] r by simp
qed

lemma holding_account:
  assumes "holding zs0 zs I" "limit_req_account_step now l (zs, d) = (zs', d')"
  shows "holding zs0 zs' (I - {ll_zone l})"
proof (cases "lz_node (zs (ll_zone l))")
  case None
  then show ?thesis using assms by (auto simp: holding_def limit_req_account_step_def)
next
  case (Some key)
  let ?i = "ll_zone l"
  have h: "held (zs0 ?i) (zs ?i)" using assms(1) by (simp add: holding_def)
  obtain lr where lr: "lz_nodes (zs ?i) key = Some lr" using held_node [OF h Some] by blast
  define lr' where "lr' = lr\<lparr>ln_last := now, ln_excess := word_of_int (limit_req_excess (lz_rate (zs ?i)) lr now), ln_count := ln_count lr - 1\<rparr>"
  have r: "zs' = zs(?i := (zs ?i)\<lparr>lz_nodes := (lz_nodes (zs ?i))(key \<mapsto> lr'), lz_node := None\<rparr>)"
    using Some lr assms(2) by (auto simp: limit_req_account_step_def Let_def lr'_def)
  have "held (zs0 ?i) (zs' ?i) \<and> lz_node (zs' ?i) = None"
    unfolding r by (rule held_give_back [OF h Some lr]) (simp_all add: lr'_def)
  then show ?thesis using assms(1) r by (auto simp: holding_def)
qed

lemma holding_account_all:
  "holding zs0 zs I \<Longrightarrow> fold (limit_req_account_step now) ls (zs, d) = (zs', d') \<Longrightarrow> holding zs0 zs' (I - ll_zone ` set ls)"
proof (induction ls arbitrary: zs I d)
  case Nil
  then show ?case by simp
next
  case (Cons l ls)
  obtain zs1 d1 where s: "limit_req_account_step now l (zs, d) = (zs1, d1)" by fastforce
  have "I - {ll_zone l} - ll_zone ` set ls = I - ll_zone ` set (l # ls)" by auto
  then show ?case using Cons.IH [OF holding_account [OF Cons.prems(1) s], of d1] Cons.prems(2) s by simp
qed

text \<open>The loop over the limits: \<open>ps\<close> are those it has been through.\<close>

lemma limit_req_loop_holding:
  assumes "holding zs0 zs (ll_zone ` set ps)" "distinct (map ll_zone (ps @ ls))" "all_uncharged zs0 zs"
    and "\<forall>i. zone_ok (zs0 i) \<and> lz_node (zs0 i) = None" "\<And>l. l \<in> set ls \<Longrightarrow> zs (ll_zone l) = zs0 (ll_zone l)"
    and "limit_req_loop env ls (length ps) (rc, ep, lim) zs = (Some (rc', n', ep', lim'), zs')"
  shows "holding zs0 zs' (ll_zone ` set (take n' (ps @ ls))) \<and> (rc' \<noteq> NGX_OK \<longrightarrow> all_uncharged zs0 zs') \<and>
    (rc' = NGX_DECLINED \<longrightarrow> rc = NGX_DECLINED \<and> zs' = zs)"
  using assms
proof (induction ls arbitrary: ps rc ep lim zs)
  case Nil
  then show ?case by auto
next
  case (Cons l ls)
  let ?i = "ll_zone l"
  obtain key where key: "le_key env ?i = Some key" using Cons.prems(6) by (cases "le_key env ?i") auto
  have mono: "holding zs0 zs1 (insert j J)" if "holding zs0 zs1 J" for zs1 j J using that by (auto simp: holding_def)
  show ?case
  proof (cases "key = [] \<or> length key > 65535")
    case True
    then show ?thesis
      using Cons.IH [of zs "ps @ [l]" rc ep "Some l"] Cons.prems key mono by simp
  next
    case False
    obtain rc1 ep1 z where look: "ngx_http_limit_req_lookup (le_slab env) (le_now env) (ll_burst l) key (ls = []) (zs ?i) = (rc1, ep1, z)"
      by (metis prod_cases3)
    have zi: "zs ?i = zs0 ?i" using Cons.prems(5) by simp
    have h: "held (zs0 ?i) z" "lz_node z \<noteq> None \<Longrightarrow> rc1 = NGX_AGAIN" "rc1 \<noteq> NGX_OK \<Longrightarrow> uncharged (zs0 ?i) z k"
      "rc1 \<in> {NGX_OK, NGX_AGAIN, NGX_BUSY, NGX_ERROR}" for k
      using limit_req_lookup_held [OF _ _ look] Cons.prems(4) zi by auto
    have h2: "holding zs0 (zs(?i := z)) (insert ?i (ll_zone ` set ps))" "rc1 \<noteq> NGX_AGAIN \<Longrightarrow> holding zs0 (zs(?i := z)) (ll_zone ` set ps)"
      "rc1 \<noteq> NGX_OK \<Longrightarrow> all_uncharged zs0 (zs(?i := z))"
      using h Cons.prems(1,3) by (auto simp: holding_def all_uncharged_def)
    show ?thesis
    proof (cases "rc1 = NGX_AGAIN")
      case True
      then have "limit_req_loop env ls (length (ps @ [l])) (rc1, ep1, Some l) (zs(?i := z)) = (Some (rc', n', ep', lim'), zs')"
        using Cons.prems(6) key False look by simp
      note run = this
      have "(zs(?i := z)) (ll_zone m) = zs0 (ll_zone m)" if "m \<in> set ls" for m
      proof -
        have "?i \<notin> ll_zone ` set ls" using Cons.prems(2) by simp
        then have "ll_zone m \<noteq> ?i" using that by (metis imageI)
        then show ?thesis using Cons.prems(5) that by simp
      qed
      then have "holding zs0 zs' (ll_zone ` set (take n' ((ps @ [l]) @ ls))) \<and> (rc' \<noteq> NGX_OK \<longrightarrow> all_uncharged zs0 zs') \<and>
          (rc' = NGX_DECLINED \<longrightarrow> rc1 = NGX_DECLINED \<and> zs' = zs(?i := z))"
        using Cons.prems(2,4) h2(1,3) True by (intro Cons.IH [OF _ _ _ _ _ run]) (simp_all add: fun_upd_def)
      then show ?thesis using True by auto
    next
      case no: False
      then have "rc' = rc1" "n' = length ps" "zs' = zs(?i := z)"
        using Cons.prems(6) key False look by auto
      then show ?thesis using h2(2,3) no h(4) by (auto simp: fun_upd_def)
    qed
  qed
qed

text \<open>The handler starts with zones that remember no node.\<close>

definition zones_idle :: "(nat \<Rightarrow> lr_zone) \<Rightarrow> bool" where
  "zones_idle zs \<longleftrightarrow> (\<forall>i. zone_ok (zs i) \<and> lz_node (zs i) = None)"

lemma idle_holding: "zones_idle zs \<Longrightarrow> holding zs zs {}"
  by (auto simp: zones_idle_def holding_def held_def)

lemma holding_idle: "holding zs0 zs {} \<Longrightarrow> zones_idle zs \<and> (\<forall>i k. pins (zs i) k = pins (zs0 i) k)"
  by (auto simp: zones_idle_def holding_def held_def)

lemma limit_req_loop_keys:
  "\<forall>l \<in> set ls. le_key env (ll_zone l) \<noteq> None \<Longrightarrow> fst (limit_req_loop env ls n acc zs) \<noteq> None"
  by (induction env ls n acc zs rule: limit_req_loop.induct) (auto split: option.splits prod.splits)

lemma limit_req_handler_loop:
  assumes "zones_idle zs" "distinct (map ll_zone limits)"
    and "limit_req_loop env limits 0 (NGX_DECLINED, 0, None) zs = (Some (rc, n, ep, lim), zs1)"
  shows "holding zs zs1 (ll_zone ` set (take n limits))" "rc \<noteq> NGX_OK \<Longrightarrow> all_uncharged zs zs1" "rc = NGX_DECLINED \<Longrightarrow> zs1 = zs"
proof -
  have "all_uncharged zs zs" by (auto simp: all_uncharged_def uncharged_def pins_def split: option.splits)
  then have *: "holding zs zs1 (ll_zone ` set (take n ([] @ limits))) \<and> (rc \<noteq> NGX_OK \<longrightarrow> all_uncharged zs zs1) \<and>
      (rc = NGX_DECLINED \<longrightarrow> NGX_DECLINED = NGX_DECLINED \<and> zs1 = zs)"
    using assms idle_holding [OF assms(1)]
    by (intro limit_req_loop_holding [where ps = "[]" and rc = NGX_DECLINED and lim = None and ep = 0 and env = env])
      (auto simp: zones_idle_def)
  show "holding zs zs1 (ll_zone ` set (take n limits))" "rc \<noteq> NGX_OK \<Longrightarrow> all_uncharged zs zs1" "rc = NGX_DECLINED \<Longrightarrow> zs1 = zs"
    using * by simp_all
qed

lemma limit_req_handler_cases:
  assumes "zones_idle zs" "distinct (map ll_zone limits)" "\<forall>l \<in> set limits. le_key env (ll_zone l) \<noteq> None"
    and "ngx_http_limit_req_handler env status_code limits limit_req_set zs = (r, delay, limit_req_set', zs')"
  shows "holding zs zs' {} \<and> (r = NGX_DECLINED \<or> r = NGX_AGAIN \<or> r = 500 \<and> \<not> le_read env \<or> r = int status_code \<and> all_uncharged zs zs')"
proof (cases limit_req_set)
  case True
  then show ?thesis using assms idle_holding [OF assms(1)] by (simp add: ngx_http_limit_req_handler_def)
next
  case not_set: False
  obtain rc n ep lim zs1 where loop: "limit_req_loop env limits 0 (NGX_DECLINED, 0, None) zs = (Some (rc, n, ep, lim), zs1)"
    using limit_req_loop_keys [OF assms(3), of 0 "(NGX_DECLINED, 0, None)" zs]
    by (cases "limit_req_loop env limits 0 (NGX_DECLINED, 0, None) zs") auto
  note l = limit_req_handler_loop [OF assms(1,2) loop]
  obtain zs2 d2 where account:
      "ngx_http_limit_req_account (le_now env) limits n (if rc = NGX_AGAIN then 0 else ep) lim zs1 = (zs2, d2)" by fastforce
  have z2: "holding zs zs2 {}"
    using holding_account_all [OF l(1) account [unfolded ngx_http_limit_req_account_def]] by simp
  have rel: "holding zs (fold limit_req_release (rev (take n limits)) zs1) {}"
    "rc \<noteq> NGX_OK \<Longrightarrow> all_uncharged zs (fold limit_req_release (rev (take n limits)) zs1)"
    using holding_release_all [OF l(1), of "rev (take n limits)"] l(2) by auto
  show ?thesis
    using assms(4) not_set loop account z2 rel l(3) idle_holding [OF assms(1)]
    by (auto simp: ngx_http_limit_req_handler_def split: if_splits)
qed

text \<open>
  C22. The handler gives back every node it takes: with the limits in different zones and every
  key computed (a key that fails is excluded: see \<open>limit_req_key_failure_pins\<close>), whichever of its
  other returns it takes, the counts of all nodes of all zones are what they were
  before, no zone remembers a node, and the queues still hold exactly the nodes.
\<close>

theorem limit_req_balanced:
  assumes "zones_idle zs" "distinct (map ll_zone limits)" "\<forall>l \<in> set limits. le_key env (ll_zone l) \<noteq> None"
    and "ngx_http_limit_req_handler env status_code limits limit_req_set zs = (r, delay, limit_req_set', zs')"
  shows "zones_idle zs' \<and> (\<forall>i k. pins (zs' i) k = pins (zs i) k)"
  using limit_req_handler_cases [OF assms] holding_idle by blast

text \<open>
  A request that is turned away by one limit is charged to none: when the handler
  answers with a status, it is the configured one, and each bucket is as it was, new and empty, or gone
  when its node was not in use.
\<close>

theorem limit_req_rejected_uncharged:
  assumes "zones_idle zs" "distinct (map ll_zone limits)" "\<forall>l \<in> set limits. le_key env (ll_zone l) \<noteq> None" "le_read env"
    and "ngx_http_limit_req_handler env status_code limits limit_req_set zs = (r, delay, limit_req_set', zs')" "0 \<le> r"
  shows "r = int status_code \<and> (\<forall>i k. uncharged (zs i) (zs' i) k)"
  using limit_req_handler_cases [OF assms(1-3,5)] assms(4,6) by (auto simp: all_uncharged_def)

text \<open>
  When the key of a later limit cannot be computed, the handler answers 500 at once and the node it took for
  an earlier limit stays counted, so that it can never expire.
\<close>

theorem limit_req_key_failure_pins:
  assumes "zones_idle zs" "ll_zone l1 \<noteq> ll_zone l2" "le_key env (ll_zone l1) = Some key" "key \<noteq> []" "length key \<le> 65535"
    and "le_key env (ll_zone l2) = None" "\<forall>z. le_slab env z key" "lz_nodes (zs (ll_zone l1)) key = None"
    and "ngx_http_limit_req_handler env status_code [l1, l2] False zs = (r, delay, limit_req_set', zs')"
  shows "r = 500 \<and> pins (zs' (ll_zone l1)) key = 1 \<and> lz_node (zs' (ll_zone l1)) = Some key"
proof -
  obtain rc ep z where look:
      "ngx_http_limit_req_lookup (le_slab env) (le_now env) (ll_burst l1) key False (zs (ll_zone l1)) = (rc, ep, z)"
    by (metis prod_cases3)
  have "zone_ok (zs (ll_zone l1))" using assms(1) by (simp add: zones_idle_def)
  note new = limit_req_lookup_new [OF this assms(8) look]
  have "rc \<noteq> NGX_ERROR"
    using look assms(7,8) by (auto simp: ngx_http_limit_req_lookup_def limit_req_new_def Let_def)
  then have "rc = NGX_AGAIN" "lz_node z = Some key" "pins z key = 1" using new by (auto simp: pins_def)
  then show ?thesis using assms(2-6,9) look by (auto simp: ngx_http_limit_req_handler_def)
qed

section \<open>A zone at work\<close>

definition lr_zone0 :: lr_zone where
  "lr_zone0 = limit_req_new_zone 1000 \<lparr>q_prev = (\<lambda>_. None), q_next = (\<lambda>_. None)\<rparr>"

definition lr_requests0 :: "(64 word \<times> bytes) list" where
  "lr_requests0 = [(100, ''A''), (600, ''A''), (700, ''B''), (1100, ''A'')]"

definition lr_requests1 :: "(64 word \<times> bytes) list" where
  "lr_requests1 = [(100, ''A''), (700, ''B''), (1100, ''A'')]"

lemma lr_zone0_run:
  "fst (limit_req_run (\<lambda>z k. True) 0 lr_requests0 lr_zone0) = [NGX_OK, NGX_BUSY, NGX_OK, NGX_OK]"
  "limit_req_made (\<lambda>z k. True) 0 ''A'' lr_requests0 lr_zone0 = 1"
  by code_simp+

lemma lr_zone0_ok: "zone_ok lr_zone0" "lz_nodes lr_zone0 k = None" "lz_rate lr_zone0 = 1000" "lz_node lr_zone0 = None"
  by (simp_all add: lr_zone0_def init_zone_ok) (simp_all add: limit_req_new_zone_def)

lemma limit_req_rate_witness:
  "fst (limit_req_run (\<lambda>z k. True) 0 lr_requests0 lr_zone0) = [NGX_OK, NGX_BUSY, NGX_OK, NGX_OK] \<and>
    1000000 * int (accepted ''A'' lr_requests0 [NGX_OK, NGX_BUSY, NGX_OK, NGX_OK]) \<le> 1000 * (0 + 1000) * 1 + 1000 * (1100 - 100)"
proof -
  have "1000000 * int (accepted ''A'' lr_requests0 (fst (limit_req_run (\<lambda>z k. True) 0 lr_requests0 lr_zone0))) \<le>
      1000 * (uint (0 :: 64 word) + 1000) * int (limit_req_made (\<lambda>z k. True) 0 ''A'' lr_requests0 lr_zone0) + uint (lz_rate lr_zone0) * (1100 - 100)"
    using limit_req_rate [OF lr_zone0_ok(1) _ _ _ surjective_pairing, where k = "''A''" and ?t0.0 = 100 and ?t1.0 = 1100
        and slab = "\<lambda>z k. True" and burst = 0 and rs = lr_requests0]
    by (simp add: lr_zone0_ok lr_small_def lr_requests0_def)
  then show ?thesis by (simp add: lr_zone0_run lr_zone0_ok)
qed

lemma limit_req_paced_accepted_witness:
  "accepted ''A'' lr_requests1 (fst (limit_req_run (\<lambda>z k. True) 0 lr_requests1 lr_zone0)) = 2"
proof -
  have "accepted ''A'' lr_requests1 (fst (limit_req_run (\<lambda>z k. True) 0 lr_requests1 lr_zone0)) = length (filter (\<lambda>r. snd r = ''A'') lr_requests1)"
    by (rule limit_req_paced_accepted [where ?t0.0 = 0 and ?t1.0 = 2000, OF lr_zone0_ok(1,2) _ _ _ _ surjective_pairing])
      (simp_all add: lr_zone0_ok lr_small_def lr_requests1_def)
  then show ?thesis by (simp add: lr_requests1_def)
qed

text \<open>
  Two limits: the key is new to the zone of the first; the zone of the second has its node, and no
  burst, and turns the request away.
\<close>

definition lr_zones0 :: "nat \<Rightarrow> lr_zone" where
  "lr_zones0 i = (if i = 1
     then lr_zone0\<lparr>lz_nodes := (lz_nodes lr_zone0)(''A'' \<mapsto> \<lparr>ln_last = 100, ln_excess = 0, ln_count = 0\<rparr>),
                   lz_queue := ngx_queue_insert_head None (Some ''A'') (lz_queue lr_zone0)\<rparr>
     else lr_zone0)"

definition lr_limits0 :: "lr_limit list" where
  "lr_limits0 = [\<lparr>ll_zone = 0, ll_burst = 5000, ll_nodelay = True\<rparr>, \<lparr>ll_zone = 1, ll_burst = 0, ll_nodelay = False\<rparr>]"

definition lr_env0 :: "bytes option \<Rightarrow> lr_env" where
  "lr_env0 key1 = \<lparr>le_now = 200, le_slab = (\<lambda>z k. True), le_key = (\<lambda>i. if i = 1 then key1 else Some ''A''), le_read = True\<rparr>"

lemma lr_lookups0:
  "fst (ngx_http_limit_req_lookup (\<lambda>z k. True) 200 5000 ''A'' False (lr_zones0 0)) = NGX_AGAIN"
  "fst (ngx_http_limit_req_lookup (\<lambda>z k. True) 200 0 ''A'' True (lr_zones0 1)) = NGX_BUSY"
  by code_simp+

lemma lr_handler0:
  "fst (ngx_http_limit_req_handler (lr_env0 (Some ''A'')) 503 lr_limits0 False lr_zones0) = 503"
  using lr_lookups0 by (auto simp: ngx_http_limit_req_handler_def lr_limits0_def lr_env0_def split: prod.splits)

lemma lr_zones0_idle: "zones_idle lr_zones0"
proof -
  have "zone_holds lr_zone0 []" using queue_init [of None]
    by (simp add: zone_holds_def lr_zone0_def limit_req_new_zone_def)
  then have "zone_ok (lr_zones0 1)" using zone_insert [of lr_zone0 "[]" "''A''"] by (auto simp: zone_ok_def lr_zones0_def)
  then show ?thesis using lr_zone0_ok by (simp add: zones_idle_def lr_zones0_def)
qed

lemma limit_req_balanced_witness:
  "case ngx_http_limit_req_handler (lr_env0 (Some ''B'')) 503 lr_limits0 False lr_zones0 of
     (r, delay, f, zs) \<Rightarrow> zones_idle zs \<and> pins (zs 1) ''A'' = pins (lr_zones0 1) ''A''"
proof -
  obtain r d f zs where h: "ngx_http_limit_req_handler (lr_env0 (Some ''B'')) 503 lr_limits0 False lr_zones0 = (r, d, f, zs)"
    by (metis prod_cases4)
  have "zones_idle zs \<and> (\<forall>i k. pins (zs i) k = pins (lr_zones0 i) k)"
    by (rule limit_req_balanced [OF lr_zones0_idle _ _ h]) (simp_all add: lr_limits0_def lr_env0_def)
  then show ?thesis using h by simp
qed

lemma limit_req_rejected_uncharged_witness:
  "case ngx_http_limit_req_handler (lr_env0 (Some ''A'')) 503 lr_limits0 False lr_zones0 of
     (r, delay, f, zs) \<Rightarrow> r = 503 \<and> uncharged (lr_zones0 1) (zs 1) ''A''"
proof -
  obtain r d f zs where h: "ngx_http_limit_req_handler (lr_env0 (Some ''A'')) 503 lr_limits0 False lr_zones0 = (r, d, f, zs)"
    by (metis prod_cases4)
  have "r = int 503 \<and> (\<forall>i k. uncharged (lr_zones0 i) (zs i) k)"
    by (rule limit_req_rejected_uncharged [OF lr_zones0_idle _ _ _ h])
      (use h lr_handler0 in \<open>simp_all add: lr_limits0_def lr_env0_def\<close>)
  then show ?thesis using h by simp
qed

lemma limit_req_key_failure_pins_witness:
  "case ngx_http_limit_req_handler (lr_env0 None) 503 lr_limits0 False lr_zones0 of
     (r, delay, f, zs) \<Rightarrow> r = 500 \<and> pins (zs 0) ''A'' = 1"
proof -
  obtain r d f zs where h: "ngx_http_limit_req_handler (lr_env0 None) 503 lr_limits0 False lr_zones0 = (r, d, f, zs)"
    by (metis prod_cases4)
  have "r = 500 \<and> pins (zs (ll_zone \<lparr>ll_zone = 0, ll_burst = 5000, ll_nodelay = True\<rparr>)) ''A'' = 1 \<and>
      lz_node (zs (ll_zone \<lparr>ll_zone = 0, ll_burst = 5000, ll_nodelay = True\<rparr>)) = Some ''A''"
    by (rule limit_req_key_failure_pins [OF lr_zones0_idle _ _ _ _ _ _ _ h [unfolded lr_limits0_def]])
      (simp_all add: lr_env0_def lr_zones0_def lr_zone0_ok)
  then show ?thesis using h by simp
qed

end
