(* ===== verification/Http_Locations.thy ===== *)
theory Http_Locations
  imports Ngx_Queue "HOL-Library.Sublist"
begin

text \<open>
  Locations, \<open>nginx-master/src/http/ngx_http.c\<close> and \<open>nginx-master/src/http/ngx_http_core_module.c\<close>: the \<open>location\<close>
  directive, the sorting of the locations of a block, the tree of the static ones and the search of the
  location of a request. The queues of locations are lists: \<open>Ngx_Queue\<close> shows that the pointer operations
  are those of lists. Declared locations are trees of declarations; \<open>init_location\<close> turns them into the
  locations with their tables that requests are served from.
\<close>

section \<open>Locations and their trees\<close>

text \<open>The fields of \<open>ngx_http_core_loc_conf_t\<close> the search depends on; a regular expression is named by a number.\<close>

record loc_flags =
  lf_name :: bytes
  lf_exact_match :: bool
  lf_noregex :: bool
  lf_named :: bool
  lf_noname :: bool
  lf_auto_redirect :: bool
  lf_internal :: bool
  lf_max_body :: int
  lf_regex :: "nat option"

datatype loc_decl = Decl (decl_flags: loc_flags) (decl_locations: "loc_decl list")

text \<open>
  An initialised location has its tree of static locations, its locations with regular expressions
  and its named ones.
\<close>

datatype loc = Loc (loc_conf: loc_flags) (static_locations: loc_tree) (regex_locations: "loc list") (named_locations: "loc list")
and loc_tree =
    LNull
  | LNode (ln_left: loc_tree) (ln_right: loc_tree) (ln_tree: loc_tree) (ln_exact: "loc option") (ln_inclusive: "loc option")
      (ln_auto_redirect: bool) (ln_len: nat) (ln_name: bytes)

abbreviation loc_name :: "loc \<Rightarrow> bytes" where
  "loc_name l \<equiv> lf_name (loc_conf l)"

section \<open>The location directive\<close>

text \<open>
  The modifier and the name, from two or three arguments of the directive. Tokens are followed by a
  terminator. \<open>compile\<close> is the regular expression compiler, told whether to ignore case.
\<close>

definition ngx_http_core_regex_location :: "(bytes \<Rightarrow> bool \<Rightarrow> nat option) \<Rightarrow> loc_flags \<Rightarrow> bytes \<Rightarrow> bool \<Rightarrow> loc_flags option" where
  "ngx_http_core_regex_location compile clcf regex caseless =
     (case compile regex caseless of
        None \<Rightarrow> None
      | Some re \<Rightarrow> Some (clcf\<lparr>lf_regex := Some re, lf_name := regex\<rparr>))"

definition location_args :: "(bytes \<Rightarrow> bool \<Rightarrow> nat option) \<Rightarrow> loc_flags \<Rightarrow> bytes list \<Rightarrow> loc_flags option" where
  "location_args compile clcf value =
     (if length value = 3 then
        (let md = value ! 1; name = value ! 2 in
         if md = ''='' then Some (clcf\<lparr>lf_name := name, lf_exact_match := True\<rparr>)
         else if md = ''^~'' then Some (clcf\<lparr>lf_name := name, lf_noregex := True\<rparr>)
         else if md = ''~'' then ngx_http_core_regex_location compile clcf name False
         else if md = ''~*'' then ngx_http_core_regex_location compile clcf name True
         else None)
      else
        (let name = value ! 1; c0 = deref name; c1 = deref (tl name) in
         if c0 = CHR ''='' then Some (clcf\<lparr>lf_name := drop 1 name, lf_exact_match := True\<rparr>)
         else if c0 = CHR ''^'' \<and> c1 = CHR ''~'' then Some (clcf\<lparr>lf_name := drop 2 name, lf_noregex := True\<rparr>)
         else if c0 = CHR ''~'' then
           (if c1 = CHR ''*'' then ngx_http_core_regex_location compile clcf (drop 2 name) True
            else ngx_http_core_regex_location compile clcf (drop 1 name) False)
         else Some (clcf\<lparr>lf_name := name, lf_named := (c0 = CHR ''@'' \<or> lf_named clcf)\<rparr>)))"

text \<open>The checks of a location inside another one.\<close>

definition location_nested :: "loc_flags \<Rightarrow> loc_flags \<Rightarrow> bool" where
  "location_nested pclcf clcf \<longleftrightarrow>
     \<not> lf_exact_match pclcf \<and> \<not> lf_named pclcf \<and> \<not> lf_named clcf \<and>
     \<not> (lf_regex clcf = None \<and> ngx_filename_cmp (lf_name clcf) (lf_name pclcf) (length (lf_name pclcf)) \<noteq> 0)"

definition ngx_http_core_location :: "(bytes \<Rightarrow> bool \<Rightarrow> nat option) \<Rightarrow> loc_flags option \<Rightarrow> loc_flags \<Rightarrow> bytes list \<Rightarrow> loc_flags option" where
  "ngx_http_core_location compile parent new value =
     (case location_args compile new value of
        None \<Rightarrow> None
      | Some clcf \<Rightarrow>
          (case parent of
             None \<Rightarrow> Some clcf
           | Some pclcf \<Rightarrow> if location_nested pclcf clcf then Some clcf else None))"

section \<open>Sorting\<close>

function ngx_strcmp :: "bytes \<Rightarrow> bytes \<Rightarrow> int" where
  "ngx_strcmp s1 s2 =
     (let c1 = deref s1; c2 = deref s2 in
      if c1 = c2 then (if c1 \<noteq> NUL then ngx_strcmp (tl s1) (tl s2) else 0)
      else int (ord c1) - int (ord c2))"
  by pat_completeness auto
termination
  by (relation "measure (\<lambda>(s1, s2). length s1)") (auto dest: deref_not_NUL)

declare ngx_strcmp.simps [simp del]

definition ngx_http_cmp_locations :: "loc_flags \<Rightarrow> loc_flags \<Rightarrow> int" where
  "ngx_http_cmp_locations first second =
     (if lf_noname first \<and> \<not> lf_noname second then 1
      else if \<not> lf_noname first \<and> lf_noname second then -1
      else if lf_noname first \<or> lf_noname second then 0
      else if lf_named first \<and> \<not> lf_named second then 1
      else if \<not> lf_named first \<and> lf_named second then -1
      else if lf_named first \<and> lf_named second then ngx_strcmp (lf_name first) (lf_name second)
      else if lf_regex first \<noteq> None \<and> lf_regex second = None then 1
      else if lf_regex first = None \<and> lf_regex second \<noteq> None then -1
      else if lf_regex first \<noteq> None \<or> lf_regex second \<noteq> None then 0
      else
        (let rc = ngx_filename_cmp (lf_name first) (lf_name second)
                    (min (length (lf_name first)) (length (lf_name second)) + 1) in
         if rc = 0 \<and> \<not> lf_exact_match first \<and> lf_exact_match second then 1 else rc))"

text \<open>
  The loop of \<open>ngx_http_init_locations\<close> with its splits: the static locations, those with regular
  expressions and the named ones.
\<close>

definition queue_cut :: "('a \<Rightarrow> bool) \<Rightarrow> 'a list \<Rightarrow> 'a list \<times> 'a list" where
  "queue_cut P qs = (takeWhile (\<lambda>q. \<not> P q) qs, dropWhile (\<lambda>q. \<not> P q) qs)"

definition ngx_http_init_locations :: "loc_decl list \<Rightarrow> loc_decl list \<times> loc_decl list \<times> loc_decl list" where
  "ngx_http_init_locations locations =
     (let qs = ngx_sort True (\<lambda>a b. ngx_http_cmp_locations (decl_flags a) (decl_flags b)) locations;
          (qs1, tail) = queue_cut (\<lambda>d. lf_regex (decl_flags d) = None \<and> \<not> lf_named (decl_flags d) \<and> lf_noname (decl_flags d)) qs;
          (qs2, named) = queue_cut (\<lambda>d. lf_regex (decl_flags d) = None \<and> lf_named (decl_flags d)) qs1;
          (qs3, regex) = queue_cut (\<lambda>d. lf_regex (decl_flags d) \<noteq> None) qs2 in
      (qs3, regex, named))"

section \<open>The tree of static locations\<close>

datatype lq = LQ (lq_exact: "loc option") (lq_inclusive: "loc option") (lq_name: bytes) (lq_list: "lq list")

definition ngx_http_add_location :: "loc \<Rightarrow> lq" where
  "ngx_http_add_location l =
     (let clcf = loc_conf l in
      if lf_exact_match clcf \<or> lf_regex clcf \<noteq> None \<or> lf_named clcf \<or> lf_noname clcf
      then LQ (Some l) None (lf_name clcf) [] else LQ None (Some l) (lf_name clcf) [])"

text \<open>\<open>ngx_http_join_exact_locations\<close>: \<open>None\<close> for a duplicate location.\<close>

fun ngx_http_join_exact_locations :: "lq list \<Rightarrow> lq list option" where
  "ngx_http_join_exact_locations (q # x # qs) =
     (if length (lq_name q) = length (lq_name x) \<and> ngx_filename_cmp (lq_name q) (lq_name x) (length (lq_name x)) = 0 then
        (if lq_exact q \<noteq> None \<and> lq_exact x \<noteq> None \<or> lq_inclusive q \<noteq> None \<and> lq_inclusive x \<noteq> None then None
         else ngx_http_join_exact_locations (LQ (lq_exact q) (lq_inclusive x) (lq_name q) (lq_list q) # qs))
      else map_option (\<lambda>r. q # r) (ngx_http_join_exact_locations (x # qs)))"
| "ngx_http_join_exact_locations qs = Some qs"

text \<open>
  \<open>ngx_http_create_locations_list\<close> from a node of the queue on: the locations behind an inclusive one that
  begin with its name are moved into its list.
\<close>

function (sequential) ngx_http_create_locations_list :: "lq list \<Rightarrow> lq list" where
  "ngx_http_create_locations_list (q # x # qs) =
     (if lq_inclusive q = None then q # ngx_http_create_locations_list (x # qs)
      else
        (let (below, rest) =
           queue_cut (\<lambda>y. length (lq_name q) > length (lq_name y) \<or>
                        ngx_filename_cmp (lq_name q) (lq_name y) (length (lq_name q)) \<noteq> 0) (x # qs) in
         if below = [] then q # ngx_http_create_locations_list rest
         else LQ (lq_exact q) (lq_inclusive q) (lq_name q) (ngx_http_create_locations_list (lq_list q @ below))
              # ngx_http_create_locations_list rest))"
| "ngx_http_create_locations_list qs = qs"
  by pat_completeness auto

text \<open>The locations of a queue with those in the lists, as a measure.\<close>

fun lq_size :: "lq \<Rightarrow> nat" where
  "lq_size (LQ e i n l) = Suc (sum_list (map lq_size l))"

lemma lq_size_list: "sum_list (map lq_size (lq_list q)) < lq_size q"
  by (cases q) simp

lemma queue_cut_append: "queue_cut P qs = (as, bs) \<Longrightarrow> qs = as @ bs \<and> (\<forall>q \<in> set as. \<not> P q) \<and> (bs \<noteq> [] \<longrightarrow> P (hd bs))"
  unfolding queue_cut_def using set_takeWhileD hd_dropWhile [of "\<lambda>q. \<not> P q" qs] by fastforce

termination ngx_http_create_locations_list
proof (relation "measure (\<lambda>qs. sum_list (map lq_size qs))", goal_cases)
  case (2 q x qs)
  then show ?case using lq_size_list [of q] by (cases q) simp
next
  case (3 q x qs cut below rest)
  then have "x # qs = below @ rest" using queue_cut_append by metis
  then have "sum_list (map lq_size (x # qs)) = sum_list (map lq_size below) + sum_list (map lq_size rest)" by simp
  then show ?case using lq_size_list [of q] by simp
next
  case (4 q x qs cut below rest)
  then have "x # qs = below @ rest" using queue_cut_append by metis
  then have "sum_list (map lq_size (x # qs)) = sum_list (map lq_size below) + sum_list (map lq_size rest)" by simp
  then show ?case using lq_size_list [of q] by simp
next
  case (5 q x qs cut below rest)
  then have "x # qs = below @ rest" using queue_cut_append by metis
  then have "sum_list (map lq_size (x # qs)) = sum_list (map lq_size below) + sum_list (map lq_size rest)" by simp
  then show ?case using lq_size_list [of q] by simp
qed simp_all

text \<open>
  \<open>ngx_http_create_locations_tree\<close>: the middle of the queue is the root. The length of a name is
  stored in a byte. \<open>alloc\<close> tells whether allocations succeed.
\<close>

definition redirects :: "loc option \<Rightarrow> bool" where
  "redirects lo = (case lo of None \<Rightarrow> False | Some l \<Rightarrow> lf_auto_redirect (loc_conf l))"

function ngx_http_create_locations_tree :: "bool \<Rightarrow> lq list \<Rightarrow> nat \<Rightarrow> loc_tree" where
  "ngx_http_create_locations_tree alloc locations pfx =
     (if locations = [] \<or> \<not> alloc then LNull
      else
        (let m = length locations div 2; q = locations ! m; len = length (lq_name q) - pfx;
             before = take m locations; after = drop (Suc m) locations in
         LNode (if before = [] then LNull else ngx_http_create_locations_tree alloc before pfx)
               (if before = [] \<or> after = [] then LNull else ngx_http_create_locations_tree alloc after pfx)
               (if lq_list q = [] then LNull else ngx_http_create_locations_tree alloc (lq_list q) (pfx + len))
               (lq_exact q) (lq_inclusive q)
               (redirects (lq_exact q) \<or> redirects (lq_inclusive q))
               (len mod 256) (drop pfx (lq_name q))))"
  by pat_completeness auto

lemma middle_split: "qs \<noteq> [] \<Longrightarrow> qs = take (length qs div 2) qs @ qs ! (length qs div 2) # drop (Suc (length qs div 2)) qs"
  by (metis id_take_nth_drop length_greater_0_conv less_numeral_extra(3) div_less_dividend one_less_numeral_iff semiring_norm(76))

lemma middle_size:
  assumes "qs \<noteq> []"
  shows "sum_list (map lq_size (take (length qs div 2) qs)) < sum_list (map lq_size qs)"
    and "sum_list (map lq_size (drop (Suc (length qs div 2)) qs)) < sum_list (map lq_size qs)"
    and "sum_list (map lq_size (lq_list (qs ! (length qs div 2)))) < sum_list (map lq_size qs)"
proof -
  let ?m = "length qs div 2"
  have "sum_list (map lq_size qs) =
      sum_list (map lq_size (take ?m qs)) + (lq_size (qs ! ?m) + sum_list (map lq_size (drop (Suc ?m) qs)))"
    by (subst (1) middle_split [OF assms]) simp
  then show "sum_list (map lq_size (take ?m qs)) < sum_list (map lq_size qs)"
    "sum_list (map lq_size (drop (Suc ?m) qs)) < sum_list (map lq_size qs)"
    "sum_list (map lq_size (lq_list (qs ! ?m))) < sum_list (map lq_size qs)"
    using lq_size_list [of "qs ! ?m"] by simp_all
qed

termination ngx_http_create_locations_tree
  by (relation "measure (\<lambda>(alloc, qs, pfx). sum_list (map lq_size qs))") (simp_all add: middle_size)

declare ngx_http_create_locations_tree.simps [simp del]

section \<open>Initialising a location\<close>

abbreviation decl_cmp :: "loc_decl \<Rightarrow> loc_decl \<Rightarrow> int" where
  "decl_cmp a b \<equiv> ngx_http_cmp_locations (decl_flags a) (decl_flags b)"

lemma init_locations_split:
  assumes "ngx_http_init_locations ds = (ls, rs, ns)"
  obtains tail where "ngx_sort True decl_cmp ds = ls @ rs @ ns @ tail"
    and "\<forall>d \<in> set (ls @ rs @ ns). lf_regex (decl_flags d) \<noteq> None \<or> lf_named (decl_flags d) \<or> \<not> lf_noname (decl_flags d)"
    and "\<forall>d \<in> set (ls @ rs). lf_regex (decl_flags d) \<noteq> None \<or> \<not> lf_named (decl_flags d)"
    and "\<forall>d \<in> set ls. lf_regex (decl_flags d) = None" "rs \<noteq> [] \<longrightarrow> lf_regex (decl_flags (hd rs)) \<noteq> None"
    and "ns \<noteq> [] \<longrightarrow> lf_regex (decl_flags (hd ns)) = None \<and> lf_named (decl_flags (hd ns))"
    and "tail \<noteq> [] \<longrightarrow> lf_noname (decl_flags (hd tail))"
proof -
  let ?N = "\<lambda>d. lf_regex (decl_flags d) = None \<and> \<not> lf_named (decl_flags d) \<and> lf_noname (decl_flags d)"
    and ?M = "\<lambda>d. lf_regex (decl_flags d) = None \<and> lf_named (decl_flags d)" and ?R = "\<lambda>d. lf_regex (decl_flags d) \<noteq> None"
  obtain qs1 tail where c1: "queue_cut ?N (ngx_sort True decl_cmp ds) = (qs1, tail)" by fastforce
  obtain qs2 ns' where c2: "queue_cut ?M qs1 = (qs2, ns')" by fastforce
  obtain qs3 rs' where c3: "queue_cut ?R qs2 = (qs3, rs')" by fastforce
  have eq: "qs3 = ls" "rs' = rs" "ns' = ns" using assms c1 c2 c3 by (simp_all add: ngx_http_init_locations_def Let_def)
  show ?thesis
    using queue_cut_append [OF c1] queue_cut_append [OF c2] queue_cut_append [OF c3] unfolding eq
    by (intro that [of tail]) auto
qed

lemma init_locations_subset:
  assumes "ngx_http_init_locations ds = (ls, rs, ns)"
  shows "set ls \<subseteq> set ds" "set rs \<subseteq> set ds" "set ns \<subseteq> set ds"
proof -
  obtain tail where "ngx_sort True decl_cmp ds = ls @ rs @ ns @ tail" by (rule init_locations_split [OF assms])
  moreover have "set (ngx_sort True decl_cmp ds) = set ds" by (simp add: ngx_sort_eq)
  ultimately show "set ls \<subseteq> set ds" "set rs \<subseteq> set ds" "set ns \<subseteq> set ds" by auto
qed

text \<open>
  \<open>ngx_http_init_locations\<close> and \<open>ngx_http_init_static_location_trees\<close> for a location: the first goes down into all
  locations, the second, with \<open>static\<close>, only into those left in the queue, which are the static
  ones. \<open>None\<close> when either reports an error.
\<close>

function init_location :: "bool \<Rightarrow> bool \<Rightarrow> loc_decl \<Rightarrow> loc option" where
  "init_location alloc static (Decl clcf locations) =
     (case ngx_http_init_locations locations of
        (ls, rs, ns) \<Rightarrow>
          (case (those (map (init_location alloc static) ls), those (map (init_location alloc False) rs),
                 those (map (init_location alloc False) ns)) of
             (Some ls', Some regex, Some named) \<Rightarrow>
               if \<not> alloc \<and> (regex \<noteq> [] \<or> named \<noteq> []) then None
               else if \<not> static \<or> ls' = [] then Some (Loc clcf LNull regex named)
               else
                 (case ngx_http_join_exact_locations (map ngx_http_add_location ls') of
                    None \<Rightarrow> None
                  | Some qs \<Rightarrow>
                      (case ngx_http_create_locations_tree alloc (ngx_http_create_locations_list qs) 0 of
                         LNull \<Rightarrow> None
                       | LNode l r t e i a n nm \<Rightarrow> Some (Loc clcf (LNode l r t e i a n nm) regex named)))
           | _ \<Rightarrow> None))"
  by pat_completeness auto

lemma decl_size: "d \<in> set ds \<Longrightarrow> size d < Suc (size_list size ds)"
  by (induction ds) auto

lemma init_locations_size:
  assumes "(ls, rs, ns) = ngx_http_init_locations ds" "d \<in> set ls \<or> d \<in> set rs \<or> d \<in> set ns"
  shows "size d < Suc (size_list size ds)"
  using assms(2) init_locations_subset [OF assms(1) [symmetric]] by (intro decl_size) auto

termination init_location
  by (relation "measure (\<lambda>(alloc, static, d). size d)") (auto dest: init_locations_size)

section \<open>The location of a request\<close>

text \<open>
  \<open>ngx_http_core_find_static_location\<close>: the code and \<open>r->loc_conf\<close>. Every node has an exact or an inclusive
  location; for one with neither, where the code would follow a null pointer, the state is left alone.
\<close>

fun ngx_http_core_find_static_location :: "bytes \<Rightarrow> loc_tree \<Rightarrow> ngx_int \<times> loc \<Rightarrow> ngx_int \<times> loc" where
  "ngx_http_core_find_static_location uri LNull st = st"
| "ngx_http_core_find_static_location uri (LNode left right tree exact inclusive auto_redirect nlen name) st =
     (let len = length uri; n = (if len \<le> nlen then len else nlen); rc = ngx_filename_cmp uri name n in
      if rc \<noteq> 0 then
        (if rc < 0 then ngx_http_core_find_static_location uri left st else ngx_http_core_find_static_location uri right st)
      else if len > nlen then
        (case inclusive of
           Some l \<Rightarrow> ngx_http_core_find_static_location (drop n uri) tree (NGX_AGAIN, l)
         | None \<Rightarrow> ngx_http_core_find_static_location uri right st)
      else if len = nlen then
        (case exact of
           Some l \<Rightarrow> (NGX_OK, l)
         | None \<Rightarrow> (case inclusive of Some l \<Rightarrow> (NGX_AGAIN, l) | None \<Rightarrow> st))
      else
        ngx_http_core_find_static_location uri left
          (if len + 1 = nlen \<and> auto_redirect then
             (case exact of
                Some l \<Rightarrow> (NGX_DONE, l)
              | None \<Rightarrow> (case inclusive of Some l \<Rightarrow> (NGX_DONE, l) | None \<Rightarrow> st))
           else st))"

text \<open>
  The loop over the locations with regular expressions: the first that matches, or an error.
  \<open>regex_exec\<close> is \<open>ngx_http_regex_exec\<close>.
\<close>

fun find_regex :: "(nat \<Rightarrow> bytes \<Rightarrow> ngx_int) \<Rightarrow> bytes \<Rightarrow> loc list \<Rightarrow> (ngx_int \<times> loc) option" where
  "find_regex regex_exec uri [] = None"
| "find_regex regex_exec uri (l # ls) =
     (let n = regex_exec (the (lf_regex (loc_conf l))) uri in
      if n = NGX_OK then Some (NGX_OK, l)
      else if n = NGX_DECLINED then find_regex regex_exec uri ls
      else Some (NGX_ERROR, l))"

lemma find_regex_mem: "find_regex regex_exec uri ls = Some (n, l) \<Longrightarrow> l \<in> set ls"
  by (induction ls) (auto simp: Let_def split: if_splits)

text \<open>The search ends: the locations found are parts of the one the search is in.\<close>

lemma find_static_size:
  "ngx_http_core_find_static_location uri t st = (NGX_AGAIN, l) \<Longrightarrow> st = (NGX_AGAIN, l) \<or> size l < size t"
  by (induction uri t st rule: ngx_http_core_find_static_location.induct)
    (fastforce simp: Let_def split: if_splits option.splits)+

lemma static_size: "size (static_locations p) < size p"
  by (cases p) simp

lemma regex_size: "l \<in> set (regex_locations p) \<Longrightarrow> size l < size p"
  by (cases p) (auto dest: size_list_estimation' [of l _ "size l" size])

function ngx_http_core_find_location :: "(nat \<Rightarrow> bytes \<Rightarrow> ngx_int) \<Rightarrow> bytes \<Rightarrow> loc \<Rightarrow> ngx_int \<times> loc" where
  "ngx_http_core_find_location regex_exec uri pclcf =
     (case ngx_http_core_find_static_location uri (static_locations pclcf) (NGX_DECLINED, pclcf) of
        (rc0, l0) \<Rightarrow>
          (let noregex = (rc0 = NGX_AGAIN \<and> lf_noregex (loc_conf l0));
               (rc, l) = (if rc0 = NGX_AGAIN then ngx_http_core_find_location regex_exec uri l0 else (rc0, l0)) in
           if rc = NGX_OK \<or> rc = NGX_DONE then (rc, l)
           else if noregex then (rc, l)
           else
             (case find_regex regex_exec uri (regex_locations pclcf) of
                None \<Rightarrow> (rc, l)
              | Some (n, m) \<Rightarrow>
                  if n = NGX_OK then
                    (case ngx_http_core_find_location regex_exec uri m of
                       (rc', l') \<Rightarrow> (if rc' = NGX_ERROR then rc' else NGX_OK, l'))
                  else (NGX_ERROR, l))))"
  by pat_completeness auto

termination
  by (relation "measure (\<lambda>(regex_exec, uri, l). size l)") 
    (auto dest!: find_static_size [OF sym] find_regex_mem regex_size intro: less_trans [OF _ static_size])

declare ngx_http_core_find_location.simps [simp del]

text \<open>\<open>ngx_http_core_find_config_phase\<close>: how it goes on, with \<open>r->loc_conf\<close>.\<close>

datatype config_phase =
    Finalize int
  | Redirect bytes
  | Next_Phase

definition ngx_http_core_find_config_phase ::
    "(nat \<Rightarrow> bytes \<Rightarrow> ngx_int) \<Rightarrow> bool \<Rightarrow> bool \<Rightarrow> bytes \<Rightarrow> bytes \<Rightarrow> int \<Rightarrow> bool \<Rightarrow> loc \<Rightarrow> config_phase \<times> loc" where
  "ngx_http_core_find_config_phase regex_exec alloc internal uri args content_length_n discard_body srv =
     (case ngx_http_core_find_location regex_exec uri srv of
        (rc, l) \<Rightarrow>
          (let clcf = loc_conf l in
           (if rc = NGX_ERROR then Finalize 500
            else if \<not> internal \<and> lf_internal clcf then Finalize 404
            else if content_length_n \<noteq> -1 \<and> \<not> discard_body \<and> lf_max_body clcf \<noteq> 0 \<and> lf_max_body clcf < content_length_n then Finalize 413
            else if rc = NGX_DONE then
              (if \<not> alloc then Finalize 500
               else Redirect (if args = [] then lf_name clcf else lf_name clcf @ ''?'' @ args))
            else Next_Phase, l)))"

section \<open>The order of names\<close>

text \<open>Names have no terminator inside; a slash comes before every other character.\<close>

abbreviation name_ok :: "bytes \<Rightarrow> bool" where
  "name_ok s \<equiv> NUL \<notin> set s"

abbreviation fkeys :: "bytes \<Rightarrow> bytes" where
  "fkeys \<equiv> map slash_key"

lemma slash_key_inj: "a \<noteq> NUL \<Longrightarrow> b \<noteq> NUL \<Longrightarrow> slash_key a = slash_key b \<longleftrightarrow> a = b"
  by (auto simp: slash_key_def)

lemma fkeys_inj: "name_ok a \<Longrightarrow> name_ok b \<Longrightarrow> fkeys a = fkeys b \<longleftrightarrow> a = b"
proof (induction a arbitrary: b)
  case (Cons x a)
  then show ?case by (cases b) (auto simp: slash_key_inj)
qed auto

text \<open>Comparing names with their terminators is the lexicographic order.\<close>

lemma filename_cmp_names:
  assumes "name_ok a" "name_ok b" "n > min (length a) (length b)"
  shows "(ngx_filename_cmp a b n < 0 \<longleftrightarrow> fkeys a < fkeys b) \<and> (ngx_filename_cmp a b n = 0 \<longleftrightarrow> a = b)"
  using assms
proof (induction a b n rule: ngx_filename_cmp.induct)
  case (2 a b n)
  show ?case
  proof (cases a)
    case Nil
    then show ?thesis using 2(3) by (cases b) (auto simp: Let_def)
  next
    case (Cons x xs)
    then show ?thesis using 2 by (cases b) (auto simp: Let_def slash_key_inj less_char_def)
  qed
qed simp

text \<open>Comparing the first \<open>n\<close> bytes of strings that have as many.\<close>

lemma filename_cmp_take:
  assumes "name_ok a" "name_ok b" "n \<le> length a" "n \<le> length b"
  shows "(ngx_filename_cmp a b n < 0 \<longleftrightarrow> fkeys (take n a) < fkeys (take n b)) \<and> (ngx_filename_cmp a b n = 0 \<longleftrightarrow> take n a = take n b)"
  using assms
proof (induction a b n rule: ngx_filename_cmp.induct)
  case (2 a b n)
  obtain x xs y ys where [simp]: "a = x # xs" "b = y # ys" using 2(4,5) by (cases a; cases b) auto
  show ?case using 2 by (auto simp: Let_def slash_key_inj less_char_def)
qed simp

lemma append_less [simp]: "p @ a < p @ b \<longleftrightarrow> a < b" "p @ a \<le> p @ b \<longleftrightarrow> a \<le> b" for a :: "'a :: linorder list"
  by (induction p) auto

lemma prefix_fkeys: "prefix a b \<Longrightarrow> fkeys a \<le> fkeys b"
proof (induction a arbitrary: b)
  case (Cons x a)
  then show ?case by (cases b) auto
qed simp

text \<open>The names that begin with \<open>p\<close> are an interval, and nothing is between a name and the name with a slash.\<close>

lemma prefix_between:
  assumes "name_ok p" "name_ok x" "prefix p u" "fkeys p \<le> fkeys x" "fkeys x \<le> fkeys u"
  shows "prefix p x"
  using assms
proof (induction p arbitrary: x u)
  case (Cons a p)
  obtain u' where u: "u = a # u'" "prefix p u'" using Cons.prems(3) by (cases u) auto
  obtain b x' where x: "x = b # x'" using Cons.prems(4) by (cases x) auto
  have "slash_key b = slash_key a" using Cons.prems(4,5) u x by auto
  then have "b = a" using Cons.prems(1,2) x by (auto simp: slash_key_inj)
  then show ?case using Cons.IH [of x' u'] Cons.prems u x by simp
qed simp

lemma slash_next: "fkeys u < fkeys x \<Longrightarrow> fkeys (u @ ''/'') \<le> fkeys x"
proof (induction u arbitrary: x)
  case Nil
  then show ?case by (cases x) (auto simp: slash_key_def less_char_def less_eq_char_def)
next
  case (Cons a u)
  then show ?case by (cases x) auto
qed

lemma prefix_iff_take: "prefix a b \<longleftrightarrow> length a \<le> length b \<and> a = take (length a) b"
  by (metis append_eq_conv_conj prefix_def prefix_length_le take_is_prefix)

text \<open>What the comparison of the search says of the names.\<close>

lemma filename_cmp_search:
  assumes "name_ok u" "name_ok nm" "n = min (length u) (length nm)" "rc = ngx_filename_cmp u nm n"
  shows "rc < 0 \<Longrightarrow> fkeys u < fkeys nm \<and> \<not> prefix u nm \<and> \<not> prefix nm u"
    and "rc > 0 \<Longrightarrow> fkeys nm < fkeys u \<and> \<not> prefix nm u \<and> \<not> prefix u nm"
    and "rc = 0 \<Longrightarrow> (length u \<le> length nm \<longrightarrow> prefix u nm) \<and> (length nm \<le> length u \<longrightarrow> prefix nm u)"
proof -
  have c: "rc < 0 \<longleftrightarrow> fkeys (take n u) < fkeys (take n nm)" "rc = 0 \<longleftrightarrow> take n u = take n nm"
    using filename_cmp_take [of u nm n] assms by simp_all
  have less: "fkeys a < fkeys b" if "fkeys (take n a) < fkeys (take n b)" for a b n
    using that
  proof (induction n arbitrary: a b)
    case (Suc n)
    then show ?case by (cases a; cases b) auto
  qed simp
  have pre: "take n a = take n b" if "prefix a b \<or> prefix b a" "n \<le> length a" "n \<le> length b" for a b :: bytes
    using that by (auto simp: prefix_def)
  have n: "n \<le> length u" "n \<le> length nm" using assms(3) by auto
  show "rc < 0 \<Longrightarrow> fkeys u < fkeys nm \<and> \<not> prefix u nm \<and> \<not> prefix nm u"
    using c less [of n u nm] pre [of u nm] n by fastforce
  have "fkeys (take n nm) < fkeys (take n u)" if "rc > 0"
    using that c fkeys_inj [of "take n u" "take n nm"] assms(1,2) by (metis in_set_takeD linorder_neqE not_less_iff_gr_or_eq)
  then show "rc > 0 \<Longrightarrow> fkeys nm < fkeys u \<and> \<not> prefix nm u \<and> \<not> prefix u nm"
    using less [of n nm u] pre [of u nm] n by fastforce
  show "rc = 0 \<Longrightarrow> (length u \<le> length nm \<longrightarrow> prefix u nm) \<and> (length nm \<le> length u \<longrightarrow> prefix nm u)"
    using c(2) assms(3) by (metis min.absorb1 min.absorb2 take_all_iff take_is_prefix order_refl)
qed

section \<open>The search of the tree\<close>

text \<open>
  A search through a queue from its head, going down into the list of an inclusive location that the URI
  begins with.
\<close>

definition lq_found :: "lq \<Rightarrow> ngx_int \<times> loc" where
  "lq_found q = (case lq_exact q of Some l \<Rightarrow> (NGX_OK, l) | None \<Rightarrow> (NGX_AGAIN, the (lq_inclusive q)))"

definition lq_redirect :: "lq \<Rightarrow> ngx_int \<times> loc" where
  "lq_redirect q = (NGX_DONE, (case lq_exact q of Some l \<Rightarrow> l | None \<Rightarrow> the (lq_inclusive q)))"

definition lq_redirects :: "lq \<Rightarrow> bool" where
  "lq_redirects q \<longleftrightarrow> redirects (lq_exact q) \<or> redirects (lq_inclusive q)"

function scan :: "bytes \<Rightarrow> lq list \<Rightarrow> ngx_int \<times> loc \<Rightarrow> ngx_int \<times> loc" where
  "scan uri [] st = st"
| "scan uri (q # qs) st =
     (if lq_name q = uri then lq_found q
      else if lq_inclusive q \<noteq> None \<and> prefix (lq_name q) uri then scan uri (lq_list q) (NGX_AGAIN, the (lq_inclusive q))
      else if lq_redirects q \<and> lq_name q = uri @ ''/'' then lq_redirect q
      else scan uri qs st)"
  by pat_completeness auto
termination
proof (relation "measure (\<lambda>(uri, qs, st). sum_list (map lq_size qs))", goal_cases)
  case (2 uri q qs st)
  then show ?case using lq_size_list [of q] by simp
next
  case (3 uri q qs st)
  then show ?case using lq_size_list [of q] by simp
qed simp

lemma scan_append: "scan uri (as @ bs) st = scan uri as (scan uri bs st)"
  by (induction as) auto

definition skipped :: "bytes \<Rightarrow> lq \<Rightarrow> bool" where
  "skipped uri q \<longleftrightarrow> lq_name q \<noteq> uri \<and> \<not> (lq_inclusive q \<noteq> None \<and> prefix (lq_name q) uri) \<and>
     \<not> (lq_redirects q \<and> lq_name q = uri @ ''/'')"

lemma scan_skipped: "\<forall>q \<in> set qs. skipped uri q \<Longrightarrow> scan uri qs st = st"
  by (induction qs) (auto simp: skipped_def)

text \<open>
  A queue whose names are in order and begin with \<open>pre\<close>, none of them with the name of an
  inclusive location before it.
\<close>

definition name_less :: "lq \<Rightarrow> lq \<Rightarrow> bool" where
  "name_less a b \<longleftrightarrow> fkeys (lq_name a) < fkeys (lq_name b)"

definition group :: "bytes \<Rightarrow> lq list \<Rightarrow> bool" where
  "group pre qs \<longleftrightarrow> sorted_wrt name_less qs \<and> (\<forall>q \<in> set qs. prefix pre (lq_name q)) \<and>
     sorted_wrt (\<lambda>a b. lq_inclusive a \<noteq> None \<longrightarrow> \<not> prefix (lq_name a) (lq_name b)) qs"

text \<open>Locations as the directives make them, with the length of a name fitting its byte.\<close>

definition lq_base :: "lq \<Rightarrow> bool" where
  "lq_base q \<longleftrightarrow> name_ok (lq_name q) \<and> length (lq_name q) < 256 \<and> (lq_exact q \<noteq> None \<or> lq_inclusive q \<noteq> None) \<and>
     (lq_redirects q \<longrightarrow> suffix ''/'' (lq_name q))"

fun lq_ok :: "lq \<Rightarrow> bool" where
  "lq_ok (LQ e i n l) \<longleftrightarrow> lq_base (LQ e i n l) \<and> group n l \<and> (\<forall>q \<in> set l. lq_ok q)"

lemma lq_okD: "lq_ok q \<Longrightarrow> lq_base q \<and> group (lq_name q) (lq_list q) \<and> (\<forall>x \<in> set (lq_list q). lq_ok x)"
  by (cases q) simp

text \<open>What is skipped, before and behind a name.\<close>

lemma skipped_before:
  assumes "group pre (as @ q # bs)" "x \<in> set as" "\<forall>y \<in> set (as @ q # bs). name_ok (lq_name y)" "name_ok uri" "fkeys (lq_name q) \<le> fkeys uri"
  shows "skipped uri x"
proof -
  have x: "fkeys (lq_name x) < fkeys (lq_name q)" "lq_inclusive x \<noteq> None \<Longrightarrow> \<not> prefix (lq_name x) (lq_name q)"
    using assms(1,2) by (auto simp: group_def sorted_wrt_append name_less_def)
  then have less: "fkeys (lq_name x) < fkeys uri" using assms(5) by simp
  have "lq_name x \<noteq> uri @ ''/''" using less prefix_fkeys [of uri "uri @ ''/''"] by auto
  moreover have "\<not> prefix (lq_name x) uri" if "lq_inclusive x \<noteq> None"
    using prefix_between [of "lq_name x" "lq_name q" uri] x less_imp_le [OF x(1)] that assms(2,3,5) by auto
  ultimately show ?thesis using less by (auto simp: skipped_def)
qed

lemma skipped_behind:
  assumes "fkeys uri < fkeys x" "lq_name q = x" "lq_redirects q \<Longrightarrow> lq_name q \<noteq> uri @ ''/''"
  shows "skipped uri q"
  using assms prefix_fkeys [of x uri] by (auto simp: skipped_def)

lemma group_parts:
  assumes "group pre (as @ q # bs)"
  shows "group pre as" "group pre bs" "prefix pre (lq_name q)" "\<And>x. x \<in> set bs \<Longrightarrow> fkeys (lq_name q) < fkeys (lq_name x)"
  using assms by (auto simp: group_def sorted_wrt_append name_less_def)

text \<open>The turn of the search at a node, in terms of names.\<close>

lemma find_static_node:
  fixes pre u nm :: bytes
  assumes "name_ok u" "name_ok nm" "length nm < 256" "t = LNode left right tree exact inclusive ar (length nm) nm"
  shows "ngx_http_core_find_static_location u t st =
    (if u = nm then (case exact of Some l \<Rightarrow> (NGX_OK, l) | None \<Rightarrow> (case inclusive of Some l \<Rightarrow> (NGX_AGAIN, l) | None \<Rightarrow> st))
     else if prefix nm u then
       (case inclusive of Some l \<Rightarrow> ngx_http_core_find_static_location (drop (length nm) u) tree (NGX_AGAIN, l)
        | None \<Rightarrow> ngx_http_core_find_static_location u right st)
     else if prefix u nm then
       ngx_http_core_find_static_location u left
         (if length u + 1 = length nm \<and> ar then
            (case exact of Some l \<Rightarrow> (NGX_DONE, l) | None \<Rightarrow> (case inclusive of Some l \<Rightarrow> (NGX_DONE, l) | None \<Rightarrow> st))
          else st)
     else if fkeys u < fkeys nm then ngx_http_core_find_static_location u left st
     else ngx_http_core_find_static_location u right st)"
proof -
  let ?n = "min (length u) (length nm)" and ?rc = "ngx_filename_cmp u nm (min (length u) (length nm))"
  note c = filename_cmp_search [OF assms(1,2) refl refl]
  have n: "(if length u \<le> length nm then length u else length nm) = ?n" by simp
  consider "?rc < 0" | "?rc > 0" | "?rc = 0" "length nm < length u" | "?rc = 0" "length nm = length u" | "?rc = 0" "length u < length nm"
    by linarith
  then show ?thesis
  proof cases
    case 1
    then show ?thesis using c(1) unfolding assms(4) by (auto simp: Let_def n)
  next
    case 2
    then show ?thesis using c(2) unfolding assms(4) by (auto simp: Let_def n)
  next
    case 3
    then have "prefix nm u" "u \<noteq> nm" using c(3) by auto
    then show ?thesis using 3 unfolding assms(4) by (simp add: Let_def split: option.splits)
  next
    case 4
    then have u: "u = nm" using c(3) prefix_order.antisym by auto
    moreover have "ngx_filename_cmp nm nm (length nm) = 0" using 4(1) by (simp add: u)
    ultimately show ?thesis unfolding assms(4) by (simp add: Let_def split: option.splits)
  next
    case 5
    have "prefix u nm" using c(3) 5 by simp
    moreover have "u \<noteq> nm" "\<not> prefix nm u" using 5 prefix_length_le [of nm u] by auto
    ultimately show ?thesis using 5 unfolding assms(4) by (simp add: Let_def split: option.splits)
  qed
qed

lemma tree_node:
  assumes "qs \<noteq> []" "m = length qs div 2" "q = qs ! m" "length (lq_name q) < 256"
  shows "ngx_http_create_locations_tree True qs pfx =
    LNode (ngx_http_create_locations_tree True (take m qs) pfx) (ngx_http_create_locations_tree True (drop (Suc m) qs) pfx)
      (ngx_http_create_locations_tree True (lq_list q) (pfx + (length (lq_name q) - pfx)))
      (lq_exact q) (lq_inclusive q) (lq_redirects q) (length (drop pfx (lq_name q))) (drop pfx (lq_name q))"
proof -
  have "drop (Suc m) qs = []" if "take m qs = []" using that assms(1,2) by (cases qs; cases "tl qs") auto
  moreover have "ngx_http_create_locations_tree True [] p = LNull" for p by (simp add: ngx_http_create_locations_tree.simps)
  ultimately show ?thesis
    using assms by (subst ngx_http_create_locations_tree.simps) (auto simp: Let_def lq_redirects_def)
qed

lemma find_static_tree:
  assumes "group pre qs" "\<forall>q \<in> set qs. lq_ok q" "name_ok (pre @ u)"
  shows "ngx_http_core_find_static_location u (ngx_http_create_locations_tree True qs (length pre)) st = scan (pre @ u) qs st"
  using assms
proof (induction "sum_list (map lq_size qs)" arbitrary: pre qs u st rule: less_induct)
  case less
  show ?case
  proof (cases "qs = []")
    case True
    then show ?thesis by (simp add: ngx_http_create_locations_tree.simps)
  next
    case False
    define m where "m = length qs div 2"
    define q where "q = qs ! m"
    define as where "as = take m qs"
    define bs where "bs = drop (Suc m) qs"
    let ?uri = "pre @ u"
    have qs: "qs = as @ q # bs" using middle_split [OF False] by (simp add: as_def bs_def q_def m_def)
    note g = group_parts [OF less.prems(1) [unfolded qs]]
    have q: "lq_ok q" "lq_base q" using less.prems(2) qs lq_okD by auto
    obtain nm where nm: "lq_name q = pre @ nm" using g(3) by (auto simp: prefix_def)
    have base: "name_ok nm" "length (lq_name q) < 256" "length nm < 256" "name_ok u" using q(2) nm less.prems(3) by (auto simp: lq_base_def)
    let ?f = ngx_http_core_find_static_location and ?t = "\<lambda>qs. ngx_http_create_locations_tree True qs"
    have tree: "ngx_http_create_locations_tree True qs (length pre) = LNode (?t as (length pre)) (?t bs (length pre)) (?t (lq_list q) (length (lq_name q)))
        (lq_exact q) (lq_inclusive q) (lq_redirects q) (length nm) nm"
      using tree_node [OF False m_def q_def base(2), of "length pre"] nm by (simp add: as_def bs_def)
    have IH: "?f u' (?t as (length pre)) st' = scan (pre @ u') as st'" "?f u' (?t bs (length pre)) st' = scan (pre @ u') bs st'"
      if "name_ok (pre @ u')" for u' st'
    proof -
      have "\<forall>q \<in> set as. lq_ok q" "\<forall>q \<in> set bs. lq_ok q" using less.prems(2) qs by auto
      then show "?f u' (?t as (length pre)) st' = scan (pre @ u') as st'" "?f u' (?t bs (length pre)) st' = scan (pre @ u') bs st'"
        using less.hyps [OF _ g(1) _ that] less.hyps [OF _ g(2) _ that] middle_size(1,2) [OF False]
        unfolding as_def bs_def m_def by blast+
    qed
    have IHt: "?f u' (?t (lq_list q) (length (lq_name q))) st' = scan (lq_name q @ u') (lq_list q) st'" if "name_ok u'" for u' st'
      using lq_okD [OF q(1)] that middle_size(3) [OF False]
      by (intro less.hyps) (auto simp: q_def m_def lq_base_def)
    have behind: "skipped ?uri x" if "fkeys ?uri < fkeys (lq_name q)" "x \<in> set bs" for x
    proof (rule skipped_behind [OF _ refl])
      show "fkeys ?uri < fkeys (lq_name x)" using that g(4) by (meson less_trans)
      show "lq_name x \<noteq> ?uri @ ''/''"
        using slash_next [OF that(1)] g(4) [OF that(2)] by auto
    qed
    have before: "skipped ?uri x" if "fkeys (lq_name q) \<le> fkeys ?uri" "x \<in> set as" for x
      using skipped_before [OF less.prems(1) [unfolded qs] that(2) _ less.prems(3) that(1)] less.prems(2) lq_okD qs
      by (auto simp: lq_base_def)
    have scan: "scan ?uri qs st = scan ?uri as (scan ?uri (q # bs) st)" unfolding qs by (rule scan_append)
    have ei: "lq_exact q \<noteq> None \<or> lq_inclusive q \<noteq> None" using q(2) by (simp add: lq_base_def)
    note node = find_static_node [OF base(4,1,3) tree, of st]
    consider "u = nm" | "u \<noteq> nm" "prefix nm u" | "u \<noteq> nm" "\<not> prefix nm u" "prefix u nm" | "\<not> prefix nm u" "\<not> prefix u nm" "fkeys u < fkeys nm"
      | "\<not> prefix nm u" "\<not> prefix u nm" "\<not> fkeys u < fkeys nm" by blast
    then show ?thesis
    proof cases
      case 1
      then have "\<forall>x \<in> set as. skipped ?uri x" using before nm by auto
      then show ?thesis using node scan scan_skipped 1 nm ei by (simp add: lq_found_def split: option.splits)
    next
      case 2
      then have le: "fkeys (lq_name q) \<le> fkeys ?uri" using prefix_fkeys [of "lq_name q" ?uri] nm by simp
      then have sk: "scan ?uri as st' = st'" for st' using before scan_skipped by simp
      obtain v where v: "u = nm @ v" using 2(2) by (auto simp: prefix_def)
      show ?thesis
      proof (cases "lq_inclusive q")
        case None
        have "lq_name q \<noteq> ?uri @ ''/''" using 2 nm v by auto
        then show ?thesis using node scan 2 nm None sk IH(2) less.prems(3) by simp
      next
        case (Some l)
        then show ?thesis using node scan 2 nm sk IHt [of v] v base(4) by simp
      qed
    next
      case 3
      then have "fkeys u < fkeys nm" using prefix_fkeys [of u nm] fkeys_inj base by force
      then have "fkeys ?uri < fkeys (lq_name q)" using nm by simp
      then have sk: "scan ?uri bs st' = st'" for st' using behind scan_skipped by simp
      have slash: "lq_redirects q \<and> length u + 1 = length nm \<longleftrightarrow> lq_redirects q \<and> nm = u @ ''/''"
      proof -
        have "nm = u @ ''/''" if red: "lq_redirects q" and len: "length u + 1 = length nm"
        proof -
          obtain zs where zs: "nm = u @ zs" using 3(3) by (auto simp: prefix_def)
          then obtain c where "zs = [c]" using len by (cases zs) auto
          then show ?thesis using zs q(2) red nm by (auto simp: lq_base_def suffix_def)
        qed
        then show ?thesis by auto
      qed
      have "scan ?uri (q # bs) st = (if lq_redirects q \<and> nm = u @ ''/'' then lq_redirect q else st)"
        using 3 nm sk by (auto simp: prefix_def)
      then show ?thesis
        using node scan 3 IH(1) [OF less.prems(3)] slash ei nm
        by (auto simp: lq_redirect_def split: option.splits)
    next
      case 4
      then have "fkeys ?uri < fkeys (lq_name q)" using nm by simp
      then have "scan ?uri (q # bs) st = st" using behind scan_skipped [of bs] 4 nm by (auto simp: prefix_def)
      then show ?thesis using node scan 4 IH(1) [OF less.prems(3)] nm by auto
    next
      case 5
      then have "fkeys (lq_name q) \<le> fkeys ?uri" using nm by (simp add: not_less [symmetric])
      then have "scan ?uri as st' = st'" for st' using before scan_skipped by simp
      moreover have "scan ?uri (q # bs) st = scan ?uri bs st" using 5 nm by (auto simp: prefix_def)
      ultimately show ?thesis using node scan 5 IH(2) [OF less.prems(3)] nm by auto
    qed
  qed
qed

section \<open>The lists of inclusive locations\<close>

text \<open>The search through the queue before the lists are made.\<close>

fun flat :: "bytes \<Rightarrow> lq list \<Rightarrow> ngx_int \<times> loc \<Rightarrow> ngx_int \<times> loc" where
  "flat uri [] st = st"
| "flat uri (q # qs) st =
     (if lq_name q = uri then lq_found q
      else if lq_inclusive q \<noteq> None \<and> prefix (lq_name q) uri then flat uri qs (NGX_AGAIN, the (lq_inclusive q))
      else if lq_redirects q \<and> lq_name q = uri @ ''/'' then lq_redirect q
      else flat uri qs st)"

lemma flat_skipped: "\<forall>q \<in> set qs. skipped uri q \<Longrightarrow> flat uri (qs @ rs) st = flat uri rs st" "\<forall>q \<in> set rs. skipped uri q \<Longrightarrow> flat uri (qs @ rs) st = flat uri qs st"
proof -
  show "\<forall>q \<in> set qs. skipped uri q \<Longrightarrow> flat uri (qs @ rs) st = flat uri rs st"
    by (induction qs) (auto simp: skipped_def)
  have "\<forall>q \<in> set rs. skipped uri q \<Longrightarrow> flat uri rs st = st" for st
    by (induction rs) (auto simp: skipped_def)
  then show "\<forall>q \<in> set rs. skipped uri q \<Longrightarrow> flat uri (qs @ rs) st = flat uri qs st"
    by (induction qs arbitrary: st) auto
qed

text \<open>A sorted queue with empty lists, as the joining leaves it.\<close>

definition joined :: "lq list \<Rightarrow> bool" where
  "joined qs \<longleftrightarrow> sorted_wrt name_less qs \<and> (\<forall>q \<in> set qs. lq_base q \<and> lq_list q = [])"

lemma joined_Cons: "joined (q # qs) \<longleftrightarrow> (\<forall>x \<in> set qs. name_less q x) \<and> lq_base q \<and> lq_list q = [] \<and> joined qs"
  by (auto simp: joined_def)

lemma joined_append: "joined (as @ bs) \<Longrightarrow> joined as \<and> joined bs \<and> (\<forall>a \<in> set as. \<forall>b \<in> set bs. name_less a b)"
  by (auto simp: joined_def sorted_wrt_append)

text \<open>What \<open>ngx_http_create_locations_list\<close> does with the locations behind an inclusive one.\<close>

lemma cut_below:
  assumes "joined (q # qs)" and cut: "queue_cut (\<lambda>y. length (lq_name q) > length (lq_name y) \<or>
      ngx_filename_cmp (lq_name q) (lq_name y) (length (lq_name q)) \<noteq> 0) qs = (below, rest)"
  shows "qs = below @ rest" "\<forall>x \<in> set below. prefix (lq_name q) (lq_name x)" "\<forall>x \<in> set rest. \<not> prefix (lq_name q) (lq_name x)"
proof -
  note c = queue_cut_append [OF cut]
  show qs: "qs = below @ rest" using c by simp
  have pre: "prefix (lq_name q) (lq_name x) \<longleftrightarrow>
      \<not> (length (lq_name q) > length (lq_name x) \<or> ngx_filename_cmp (lq_name q) (lq_name x) (length (lq_name q)) \<noteq> 0)"
    if "x \<in> set qs" for x
  proof -
    have "name_ok (lq_name q)" "name_ok (lq_name x)" using assms(1) that by (auto simp: joined_def lq_base_def)
    then have "ngx_filename_cmp (lq_name q) (lq_name x) (length (lq_name q)) = 0 \<longleftrightarrow> lq_name q = take (length (lq_name q)) (lq_name x)"
      if "length (lq_name q) \<le> length (lq_name x)" using filename_cmp_take [of "lq_name q" "lq_name x" "length (lq_name q)"] that by auto
    then show ?thesis by (auto simp: not_less prefix_iff_take)
  qed
  show "\<forall>x \<in> set below. prefix (lq_name q) (lq_name x)" using c pre qs by auto
  show "\<forall>x \<in> set rest. \<not> prefix (lq_name q) (lq_name x)"
  proof (cases rest)
    case (Cons y ys)
    have y: "\<not> prefix (lq_name q) (lq_name y)" using c pre [of y] qs Cons by auto
    have "\<not> prefix (lq_name q) (lq_name x)" if "x \<in> set ys" for x
    proof
      assume "prefix (lq_name q) (lq_name x)"
      moreover have "fkeys (lq_name q) \<le> fkeys (lq_name y)" "fkeys (lq_name y) \<le> fkeys (lq_name x)" "name_ok (lq_name q)" "name_ok (lq_name y)"
        using assms(1) that qs Cons by (auto simp: joined_def sorted_wrt_append name_less_def lq_base_def less_imp_le)
      ultimately show False using prefix_between [of "lq_name q" "lq_name y" "lq_name x"] y by blast
    qed
    then show ?thesis using y Cons by simp
  qed simp
qed

lemma create_list_eq:
  assumes "joined (q # qs)"
  obtains "lq_inclusive q = None" "ngx_http_create_locations_list (q # qs) = q # ngx_http_create_locations_list qs"
  | below rest where "lq_inclusive q \<noteq> None" "qs = below @ rest" "\<forall>x \<in> set below. prefix (lq_name q) (lq_name x)"
      "\<forall>x \<in> set rest. \<not> prefix (lq_name q) (lq_name x)"
      "ngx_http_create_locations_list (q # qs) =
         LQ (lq_exact q) (lq_inclusive q) (lq_name q) (ngx_http_create_locations_list below) # ngx_http_create_locations_list rest"
proof (cases "lq_inclusive q")
  case None
  then show ?thesis using that(1) by (cases qs) auto
next
  case (Some l)
  obtain below rest where cut: "queue_cut (\<lambda>y. length (lq_name q) > length (lq_name y) \<or>
      ngx_filename_cmp (lq_name q) (lq_name y) (length (lq_name q)) \<noteq> 0) qs = (below, rest)" by fastforce
  have q: "lq_list q = []" using assms by (simp add: joined_def)
  then have eq: "LQ (lq_exact q) (lq_inclusive q) (lq_name q) [] = q" by (cases q) simp
  have "ngx_http_create_locations_list (q # qs) =
      LQ (lq_exact q) (lq_inclusive q) (lq_name q) (ngx_http_create_locations_list below) # ngx_http_create_locations_list rest"
  proof (cases qs)
    case Nil
    then have "below = []" "rest = []" using cut by (simp_all add: queue_cut_def)
    then show ?thesis using Nil eq by simp
  next
    case (Cons x xs)
    then show ?thesis using cut Some q eq by auto
  qed
  then show ?thesis using that(2) cut_below [OF assms cut] Some by auto
qed

lemma create_list_names: "joined qs \<Longrightarrow> lq_name ` set (ngx_http_create_locations_list qs) \<subseteq> lq_name ` set qs"
proof (induction "length qs" arbitrary: qs rule: less_induct)
  case less
  show ?case
  proof (cases qs)
    case (Cons q xs)
    have q: "joined (q # xs)" using less.prems Cons by simp
    then have xs: "joined xs" by (simp add: joined_Cons)
    show ?thesis
    proof (cases rule: create_list_eq [OF q])
      case 1
      then show ?thesis using less.hyps [OF _ xs] Cons by auto
    next
      case (2 below rest)
      then have "joined rest" using xs joined_append by blast
      then show ?thesis using less.hyps [of rest] 2 Cons by auto
    qed
  qed simp
qed

lemma group_Cons:
  assumes "group pre qs" "prefix pre (lq_name q)" "\<forall>x \<in> set qs. name_less q x \<and> (lq_inclusive q \<noteq> None \<longrightarrow> \<not> prefix (lq_name q) (lq_name x))"
  shows "group pre (q # qs)"
  using assms by (auto simp: group_def)

lemma create_list_group:
  "joined qs \<Longrightarrow> \<forall>q \<in> set qs. prefix pre (lq_name q) \<Longrightarrow>
    group pre (ngx_http_create_locations_list qs) \<and> (\<forall>q \<in> set (ngx_http_create_locations_list qs). lq_ok q)"
proof (induction "length qs" arbitrary: pre qs rule: less_induct)
  case less
  show ?case
  proof (cases qs)
    case Nil
    then show ?thesis by (simp add: group_def)
  next
    case (Cons q xs)
    have q: "joined (q # xs)" using less.prems Cons by simp
    then have xs: "joined xs" "lq_base q" "lq_list q = []" "\<forall>x \<in> set xs. name_less q x" by (simp_all add: joined_Cons)
    have later: "\<forall>x \<in> set (ngx_http_create_locations_list ys). name_less q x \<and> (lq_inclusive q \<noteq> None \<longrightarrow> \<not> prefix (lq_name q) (lq_name x))"
      if "joined ys" "set ys \<subseteq> set xs" "lq_inclusive q \<noteq> None \<Longrightarrow> \<forall>x \<in> set ys. \<not> prefix (lq_name q) (lq_name x)" for ys
      using create_list_names [OF that(1)] that(2,3) xs(4) by (fastforce simp: name_less_def)
    show ?thesis
    proof (cases rule: create_list_eq [OF q])
      case 1
      have "lq_ok q" using xs(2,3) by (cases q) (simp add: group_def)
      moreover have "group pre (ngx_http_create_locations_list xs) \<and> (\<forall>q \<in> set (ngx_http_create_locations_list xs). lq_ok q)"
        using less.hyps [of xs pre] less.prems Cons xs(1) by simp
      ultimately show ?thesis using 1 Cons less.prems(2) group_Cons [of pre _ q] later [OF xs(1)] by auto
    next
      case (2 below rest)
      let ?q = "LQ (lq_exact q) (lq_inclusive q) (lq_name q) (ngx_http_create_locations_list below)"
      have j: "joined below" "joined rest" using xs(1) 2(2) joined_append by blast+
      have "group (lq_name q) (ngx_http_create_locations_list below) \<and> (\<forall>q \<in> set (ngx_http_create_locations_list below). lq_ok q)"
        using less.hyps [of below "lq_name q"] j 2 Cons by simp
      moreover have "lq_base ?q" using xs(2) by (simp add: lq_base_def lq_redirects_def)
      ultimately have "lq_ok ?q" by simp
      moreover have "group pre (ngx_http_create_locations_list rest) \<and> (\<forall>q \<in> set (ngx_http_create_locations_list rest). lq_ok q)"
        using less.hyps [of rest pre] less.prems 2 Cons j by simp
      moreover have "\<forall>x \<in> set (ngx_http_create_locations_list rest). name_less ?q x \<and> (lq_inclusive ?q \<noteq> None \<longrightarrow> \<not> prefix (lq_name ?q) (lq_name x))"
        using later [OF j(2)] 2 by (auto simp: name_less_def)
      ultimately show ?thesis using 2 Cons less.prems(2) group_Cons [of pre "ngx_http_create_locations_list rest" ?q] by auto
    qed
  qed
qed

lemma create_list_scan:
  "joined qs \<Longrightarrow> name_ok uri \<Longrightarrow> scan uri (ngx_http_create_locations_list qs) st = flat uri qs st"
proof (induction "length qs" arbitrary: qs st rule: less_induct)
  case less
  show ?case
  proof (cases qs)
    case (Cons q xs)
    have q: "joined (q # xs)" using less.prems Cons by simp
    then have xs: "joined xs" "lq_base q" "\<forall>x \<in> set xs. name_less q x \<and> name_ok (lq_name x)" by (simp_all add: joined_Cons) (auto simp: joined_def lq_base_def)
    show ?thesis
    proof (cases rule: create_list_eq [OF q])
      case 1
      then show ?thesis using less.hyps [of xs] less.prems Cons xs(1) by simp
    next
      case (2 below rest)
      have j: "joined below" "joined rest" using xs(1) 2(2) joined_append by blast+
      have IH: "scan uri (ngx_http_create_locations_list below) st' = flat uri below st'"
        "scan uri (ngx_http_create_locations_list rest) st' = flat uri rest st'" for st'
        using less.hyps [of below] less.hyps [of rest] j less.prems(2) Cons 2(2) by simp_all
      have below: "\<forall>x \<in> set below. skipped uri x" if "\<not> prefix (lq_name q) uri"
      proof
        fix x assume "x \<in> set below"
        then have "prefix (lq_name q) (lq_name x)" "fkeys (lq_name q) < fkeys (lq_name x)" using 2(2,3) xs(3) by (auto simp: name_less_def)
        then have "prefix (lq_name q) (lq_name x)" "lq_name x \<noteq> lq_name q" by auto
        then show "skipped uri x" using that by (auto simp: skipped_def dest: prefix_order.trans)
      qed
      have rest: "\<forall>x \<in> set rest. skipped uri x" if "prefix (lq_name q) uri"
      proof
        fix x assume "x \<in> set rest"
        then have x: "\<not> prefix (lq_name q) (lq_name x)" "fkeys (lq_name q) < fkeys (lq_name x)"
          using 2(2,4) xs(3) by (auto simp: name_less_def)
        then have "\<not> prefix (lq_name x) uri" using prefix_same_cases [OF that, of "lq_name x"] prefix_fkeys [of "lq_name x" "lq_name q"] by auto
        moreover have "lq_name x \<noteq> uri @ ''/''" "lq_name x \<noteq> uri" using that x(1) by (auto simp: prefix_def)
        ultimately show "skipped uri x" by (auto simp: skipped_def)
      qed
      define q' where "q' = LQ (lq_exact q) (lq_inclusive q) (lq_name q) (ngx_http_create_locations_list below)"
      have q': "lq_found q' = lq_found q" "lq_redirects q' = lq_redirects q" "lq_redirect q' = lq_redirect q" "lq_name q' = lq_name q"
        "lq_inclusive q' = lq_inclusive q" "lq_list q' = ngx_http_create_locations_list below"
        by (simp_all add: q'_def lq_found_def lq_redirects_def lq_redirect_def split: option.split)
      have "scan uri (q' # ngx_http_create_locations_list rest) st = flat uri (q # below @ rest) st"
        unfolding scan.simps flat.simps q' IH using 2(1) flat_skipped(1) [OF below, of rest] flat_skipped(2) [OF rest, of below] by simp
      then show ?thesis using 2(2,5) Cons by (simp add: q'_def)
    qed
  qed simp
qed

section \<open>Joining exact and inclusive locations\<close>

text \<open>The location of a name, exact or inclusive, in a queue.\<close>

fun first_of :: "(lq \<Rightarrow> loc option) \<Rightarrow> bytes \<Rightarrow> lq list \<Rightarrow> loc option" where
  "first_of f n [] = None"
| "first_of f n (q # qs) = (if lq_name q = n \<and> f q \<noteq> None then f q else first_of f n qs)"

text \<open>A queue in the order of the names, exact locations first, with one or the other in each node.\<close>

definition in_order :: "lq \<Rightarrow> lq \<Rightarrow> bool" where
  "in_order a b \<longleftrightarrow> fkeys (lq_name a) \<le> fkeys (lq_name b) \<and> (lq_name a = lq_name b \<longrightarrow> lq_exact b \<noteq> None \<longrightarrow> lq_exact a \<noteq> None)"

definition sorted_queue :: "lq list \<Rightarrow> bool" where
  "sorted_queue qs \<longleftrightarrow> sorted_wrt in_order qs \<and> (\<forall>q \<in> set qs. lq_base q \<and> lq_list q = [])"

lemma same_name:
  assumes "lq_base q" "lq_base x"
  shows "length (lq_name q) = length (lq_name x) \<and> ngx_filename_cmp (lq_name q) (lq_name x) (length (lq_name x)) = 0 \<longleftrightarrow> lq_name q = lq_name x"
  using filename_cmp_take [of "lq_name q" "lq_name x" "length (lq_name x)"] assms by (auto simp: lq_base_def)

lemma first_of_absent: "n \<notin> lq_name ` set qs \<Longrightarrow> first_of f n qs = None"
  by (induction qs) auto

text \<open>Two locations of the same name and kind.\<close>

definition clash :: "lq \<Rightarrow> lq \<Rightarrow> bool" where
  "clash a b \<longleftrightarrow> lq_name a = lq_name b \<and> (lq_exact a \<noteq> None \<and> lq_exact b \<noteq> None \<or> lq_inclusive a \<noteq> None \<and> lq_inclusive b \<noteq> None)"

text \<open>Joining succeeds only without duplicates, and then keeps the locations of every name.\<close>

lemma join_correct:
  assumes "sorted_queue qs" "ngx_http_join_exact_locations qs = Some rs"
  shows "joined rs \<and> lq_name ` set rs = lq_name ` set qs \<and> (\<forall>n. first_of lq_exact n rs = first_of lq_exact n qs \<and> first_of lq_inclusive n rs = first_of lq_inclusive n qs) \<and>
    sorted_wrt (\<lambda>a b. \<not> clash a b) qs"
  using assms
proof (induction qs arbitrary: rs rule: ngx_http_join_exact_locations.induct)
  case (1 q x qs)
  have base: "lq_base q" "lq_base x" "lq_list q = []" "in_order q x" "\<forall>y \<in> set qs. in_order q y \<and> in_order x y" "sorted_queue (x # qs)"
    "sorted_wrt in_order qs" "\<forall>y \<in> set qs. lq_base y \<and> lq_list y = []"
    using "1.prems"(1) by (auto simp: sorted_queue_def)
  show ?case
  proof (cases "lq_name q = lq_name x")
    case True
    let ?q = "LQ (lq_exact q) (lq_inclusive x) (lq_name q) (lq_list q)"
    have one: "\<not> (lq_exact q \<noteq> None \<and> lq_exact x \<noteq> None)" "\<not> (lq_inclusive q \<noteq> None \<and> lq_inclusive x \<noteq> None)"
      and rs: "ngx_http_join_exact_locations (?q # qs) = Some rs"
      using "1.prems"(2) True same_name [OF base(1,2)] by (auto split: if_splits)
    have kinds: "lq_exact q \<noteq> None" "lq_exact x = None" "lq_inclusive x \<noteq> None" "lq_inclusive q = None"
      using one base(1,2,4) True by (auto simp: lq_base_def in_order_def)
    then have "lq_base ?q" using base(1,2) True by (auto simp: lq_base_def lq_redirects_def)
    then have "sorted_queue (?q # qs)" using base by (auto simp: sorted_queue_def in_order_def)
    then have "joined rs \<and> lq_name ` set rs = lq_name ` set (?q # qs) \<and>
        (\<forall>n. first_of lq_exact n rs = first_of lq_exact n (?q # qs) \<and> first_of lq_inclusive n rs = first_of lq_inclusive n (?q # qs)) \<and>
        sorted_wrt (\<lambda>a b. \<not> clash a b) (?q # qs)"
      using "1.IH"(1) rs True same_name [OF base(1,2)] one by blast
    then show ?thesis using kinds True by (auto simp: clash_def)
  next
    case False
    then obtain r where r: "rs = q # r" "ngx_http_join_exact_locations (x # qs) = Some r"
      using "1.prems"(2) same_name [OF base(1,2)] by (auto split: if_splits)
    have IH: "joined r" "lq_name ` set r = lq_name ` set (x # qs)"
      "\<And>n. first_of lq_exact n r = first_of lq_exact n (x # qs) \<and> first_of lq_inclusive n r = first_of lq_inclusive n (x # qs)" "sorted_wrt (\<lambda>a b. \<not> clash a b) (x # qs)"
      using "1.IH"(2) [OF _ base(6) r(2)] False same_name [OF base(1,2)] by auto
    have "name_ok (lq_name q)" "name_ok (lq_name x)" using base(1,2) by (simp_all add: lq_base_def)
    then have "fkeys (lq_name q) \<noteq> fkeys (lq_name x)" using False fkeys_inj by blast
    then have less: "fkeys (lq_name q) < fkeys (lq_name x)" using base(4) by (simp add: in_order_def less_le)
    have "fkeys (lq_name q) < fkeys n" if "n \<in> lq_name ` set (x # qs)" for n
      using that less base(5) by (auto simp: in_order_def intro: less_le_trans)
    then have less: "\<forall>y \<in> set r. name_less q y" "\<forall>y \<in> set (x # qs). fkeys (lq_name q) < fkeys (lq_name y)"
      using IH(2) unfolding name_less_def by blast+
    then have "\<forall>y \<in> set (x # qs). \<not> clash q y" by (fastforce simp: clash_def)
    then have "sorted_wrt (\<lambda>a b. \<not> clash a b) (q # x # qs)" using IH(4) by simp
    then show ?thesis using IH(1-3) less(1) r(1) base by (auto simp: joined_Cons)
  qed
qed (auto simp: joined_def sorted_queue_def)

section \<open>The specification of the search\<close>

fun first_some :: "('a \<Rightarrow> 'b option) \<Rightarrow> 'a list \<Rightarrow> 'b option" where
  "first_some f [] = None"
| "first_some f (x # xs) = (case f x of Some y \<Rightarrow> Some y | None \<Rightarrow> first_some f xs)"

text \<open>
  With the exact and the inclusive location of every name: a location of the URI itself, an exact one first; or
  a redirect to the name with a slash; or the inclusive location with the longest name the URI
  begins with.
\<close>

definition static_choice :: "(bytes \<Rightarrow> loc option) \<Rightarrow> (bytes \<Rightarrow> loc option) \<Rightarrow> bytes \<Rightarrow> ngx_int \<times> loc \<Rightarrow> ngx_int \<times> loc" where
  "static_choice exact inclusive uri st =
     (case (exact uri, inclusive uri) of
        (Some l, _) \<Rightarrow> (NGX_OK, l)
      | (None, Some l) \<Rightarrow> (NGX_AGAIN, l)
      | (None, None) \<Rightarrow>
          if redirects (exact (uri @ ''/'')) \<or> redirects (inclusive (uri @ ''/'')) then
            (NGX_DONE, (case exact (uri @ ''/'') of Some l \<Rightarrow> l | None \<Rightarrow> the (inclusive (uri @ ''/''))))
          else
            (case first_some (\<lambda>k. inclusive (take k uri)) (rev [0..<Suc (length uri)]) of
               Some l \<Rightarrow> (NGX_AGAIN, l)
             | None \<Rightarrow> st))"

lemma joined_first_of:
  assumes "joined (as @ q # bs)"
  shows "first_of f (lq_name q) (as @ q # bs) = f q"
proof -
  have "lq_name q \<notin> lq_name ` set as" "lq_name q \<notin> lq_name ` set bs"
    using assms by (auto simp: joined_def sorted_wrt_append name_less_def)
  then show ?thesis by (induction as) (auto simp: first_of_absent)
qed

definition inc_prefix :: "bytes \<Rightarrow> lq \<Rightarrow> bool" where
  "inc_prefix uri q \<longleftrightarrow> lq_inclusive q \<noteq> None \<and> prefix (lq_name q) uri"

definition longest :: "bytes \<Rightarrow> lq list \<Rightarrow> ngx_int \<times> loc \<Rightarrow> ngx_int \<times> loc" where
  "longest uri qs st = (case find (inc_prefix uri) (rev qs) of Some q \<Rightarrow> (NGX_AGAIN, the (lq_inclusive q)) | None \<Rightarrow> st)"

lemma find_append: "find P (xs @ ys) = (case find P xs of Some x \<Rightarrow> Some x | None \<Rightarrow> find P ys)"
  by (induction xs) auto

lemma flat_longest:
  "\<forall>q \<in> set as. lq_name q \<noteq> uri \<and> \<not> (lq_redirects q \<and> lq_name q = uri @ ''/'') \<Longrightarrow> flat uri (as @ bs) st = flat uri bs (longest uri as st)"
proof (induction as arbitrary: st)
  case (Cons q as)
  then show ?case by (auto simp: longest_def find_append inc_prefix_def split: option.split)
qed (simp add: longest_def)

text \<open>The last inclusive location that the URI begins with has the longest name.\<close>

lemma first_some_append: "first_some f (xs @ ys) = (case first_some f xs of Some y \<Rightarrow> Some y | None \<Rightarrow> first_some f ys)"
  by (induction xs) (auto split: option.splits)

lemma first_some_None: "first_some f xs = None \<longleftrightarrow> (\<forall>x \<in> set xs. f x = None)"
  by (induction xs) (auto split: option.splits)

lemma find_split: "find P xs = Some x \<Longrightarrow> \<exists>cs ds. xs = cs @ x # ds \<and> P x \<and> (\<forall>c \<in> set cs. \<not> P c)"
proof (induction xs)
  case (Cons a xs)
  show ?case
  proof (cases "P a")
    case True
    then have "a # xs = [] @ x # xs \<and> P x" using Cons.prems by simp
    then show ?thesis by fastforce
  next
    case False
    then obtain cs ds where "xs = cs @ x # ds" "P x" "\<forall>c \<in> set cs. \<not> P c" using Cons by auto
    then have "a # xs = (a # cs) @ x # ds \<and> P x \<and> (\<forall>c \<in> set (a # cs). \<not> P c)" using False by simp
    then show ?thesis by blast
  qed
qed simp

lemma first_of_mem: "first_of f n qs \<noteq> None \<Longrightarrow> \<exists>q \<in> set qs. lq_name q = n \<and> f q \<noteq> None"
  by (induction qs) (auto split: if_splits)

lemma longest_first_some:
  assumes "joined qs"
  shows "longest uri qs st = (case first_some (\<lambda>k. first_of lq_inclusive (take k uri) qs) (rev [0..<Suc (length uri)]) of
     Some l \<Rightarrow> (NGX_AGAIN, l) | None \<Rightarrow> st)"
proof (cases "find (inc_prefix uri) (rev qs)")
  case None
  have "first_of lq_inclusive (take k uri) qs = None" for k
  proof (rule ccontr)
    assume "first_of lq_inclusive (take k uri) qs \<noteq> None"
    then obtain q where "q \<in> set qs" "lq_name q = take k uri" "lq_inclusive q \<noteq> None" using first_of_mem by blast
    then show False using None by (auto simp: find_None_iff inc_prefix_def take_is_prefix)
  qed
  then have "first_some (\<lambda>k. first_of lq_inclusive (take k uri) qs) (rev [0..<Suc (length uri)]) = None"
    by (simp only: first_some_None) simp
  then show ?thesis using None by (simp add: longest_def)
next
  case (Some q)
  then obtain cs ds where rev: "rev qs = cs @ q # ds" and q: "inc_prefix uri q" and cs: "\<forall>c \<in> set cs. \<not> inc_prefix uri c"
    using find_split by metis
  have qs: "qs = rev ds @ q # rev cs" using arg_cong [OF rev, of rev] by simp
  let ?k = "length (lq_name q)" and ?f = "\<lambda>k. first_of lq_inclusive (take k uri) qs"
  have k: "?k \<le> length uri" "take ?k uri = lq_name q" using q by (auto simp: inc_prefix_def prefix_iff_take)
  have "?f k = None" if "?k < k" "k \<le> length uri" for k
  proof (rule ccontr)
    assume "?f k \<noteq> None"
    then obtain x where x: "x \<in> set qs" "lq_name x = take k uri" "lq_inclusive x \<noteq> None" using first_of_mem by blast
    then have "inc_prefix uri x" "x \<noteq> q" using that k by (auto simp: inc_prefix_def take_is_prefix)
    then have "x \<in> set ds" using x(1) qs cs by auto
    then have "fkeys (lq_name x) < fkeys (lq_name q)" using assms qs by (auto simp: joined_def sorted_wrt_append name_less_def)
    moreover have "prefix (lq_name q) (lq_name x)" using that(1) k(2) x(2) by (metis less_imp_le min.absorb1 take_is_prefix take_take)
    ultimately show False using prefix_fkeys by force
  qed
  then have "first_some ?f (rev [Suc ?k..<Suc (length uri)]) = None" by (auto simp: first_some_None simp del: upt_Suc)
  moreover have "?f ?k = lq_inclusive q" using joined_first_of [of "rev ds" q "rev cs"] assms qs k(2) by simp
  moreover have "[0..<Suc (length uri)] = [0..<?k] @ ?k # [Suc ?k..<Suc (length uri)]"
    using upt_add_eq_append [of 0 ?k "Suc (length uri) - ?k"] upt_conv_Cons [of ?k "Suc (length uri)"] k(1) by (simp del: upt_Suc)
  ultimately show ?thesis using q Some by (auto simp: longest_def inc_prefix_def first_some_append simp del: upt_Suc)
qed

lemma flat_choice:
  assumes "joined qs" "name_ok uri"
  shows "flat uri qs st = static_choice (\<lambda>n. first_of lq_exact n qs) (\<lambda>n. first_of lq_inclusive n qs) uri st"
proof (cases "uri \<in> lq_name ` set qs")
  case True
  then obtain as q bs where q: "qs = as @ q # bs" "lq_name q = uri" by (metis imageE split_list)
  have "\<forall>x \<in> set as. lq_name x \<noteq> uri \<and> \<not> (lq_redirects x \<and> lq_name x = uri @ ''/'')"
    using assms(1) q prefix_fkeys [of uri "uri @ ''/''"] by (fastforce simp: joined_def sorted_wrt_append name_less_def)
  then have "flat uri qs st = lq_found q" unfolding q(1) by (subst flat_longest) (auto simp: q(2))
  moreover have "lq_base q" using assms(1) q(1) by (simp add: joined_def)
  moreover have "first_of f uri qs = f q" for f using joined_first_of [of as q bs f] assms(1) q by simp
  ultimately show ?thesis by (auto simp: static_choice_def lq_found_def lq_base_def split: option.splits)
next
  case False
  then have none: "first_of f uri qs = None" for f by (simp add: first_of_absent)
  show ?thesis
  proof (cases "\<exists>q \<in> set qs. lq_name q = uri @ ''/'' \<and> lq_redirects q")
    case True
    then obtain as q bs where q: "qs = as @ q # bs" "lq_name q = uri @ ''/''" "lq_redirects q" by (metis split_list)
    have "\<forall>x \<in> set as. lq_name x \<noteq> uri \<and> \<not> (lq_redirects x \<and> lq_name x = uri @ ''/'')"
      using assms(1) q False by (auto simp: joined_def sorted_wrt_append name_less_def)
    then have "flat uri qs st = lq_redirect q" unfolding q(1) by (subst flat_longest) (auto simp: q(2,3) inc_prefix_def)
    moreover have "first_of f (uri @ ''/'') qs = f q" for f using joined_first_of [of as q bs f] assms(1) q by simp
    ultimately show ?thesis using none q(3) by (simp add: static_choice_def lq_redirects_def lq_redirect_def split: option.split)
  next
    case no: False
    then have "flat uri qs st = longest uri qs st" using flat_longest [of qs uri "[]" st] False by auto
    moreover have "\<not> (redirects (first_of lq_exact (uri @ ''/'') qs) \<or> redirects (first_of lq_inclusive (uri @ ''/'') qs))"
    proof (cases "uri @ ''/'' \<in> lq_name ` set qs")
      case True
      then obtain as q bs where q: "qs = as @ q # bs" "lq_name q = uri @ ''/''" by (metis imageE split_list)
      have "first_of f (uri @ ''/'') qs = f q" for f using joined_first_of [of as q bs f] assms(1) q by simp
      then show ?thesis using no q by (auto simp: lq_redirects_def)
    qed (simp add: first_of_absent redirects_def)
    ultimately show ?thesis using none longest_first_some [OF assms(1)] by (simp add: static_choice_def)
  qed
qed

section \<open>The order of the locations\<close>

definition loc_rank :: "loc_flags \<Rightarrow> nat" where
  "loc_rank c = (if lf_noname c then 3 else if lf_named c then 2 else if lf_regex c \<noteq> None then 1 else 0)"

lemma strcmp_lex:
  assumes "name_ok a" "name_ok b"
  shows "ngx_strcmp a b \<le> 0 \<longleftrightarrow> a \<le> b"
  using assms
proof (induction a arbitrary: b)
  case Nil
  then show ?case by (cases b) (auto simp: ngx_strcmp.simps [of "[]"])
next
  case (Cons x a)
  then show ?case by (cases b) (auto simp: ngx_strcmp.simps [of "x # a"] less_char_def le_less)
qed

lemma cmp_locations_le:
  assumes "name_ok (lf_name a)" "name_ok (lf_name b)"
  shows "ngx_http_cmp_locations a b \<le> 0 \<longleftrightarrow>
    loc_rank a < loc_rank b \<or> loc_rank a = loc_rank b \<and> (loc_rank a = 2 \<longrightarrow> lf_name a \<le> lf_name b) \<and>
      (loc_rank a = 0 \<longrightarrow> fkeys (lf_name a) < fkeys (lf_name b) \<or> lf_name a = lf_name b \<and> (lf_exact_match b \<longrightarrow> lf_exact_match a))"
proof -
  define rc where "rc = ngx_filename_cmp (lf_name a) (lf_name b) (min (length (lf_name a)) (length (lf_name b)) + 1)"
  have rc: "rc < 0 \<longleftrightarrow> fkeys (lf_name a) < fkeys (lf_name b)" "rc = 0 \<longleftrightarrow> lf_name a = lf_name b"
    using filename_cmp_names [OF assms, of "min (length (lf_name a)) (length (lf_name b)) + 1"] by (simp_all add: rc_def)
  then have le: "rc \<le> 0 \<longleftrightarrow> fkeys (lf_name a) < fkeys (lf_name b) \<or> lf_name a = lf_name b" by linarith
  have plain: "ngx_http_cmp_locations a b = (if rc = 0 \<and> \<not> lf_exact_match a \<and> lf_exact_match b then 1 else rc)"
    if "loc_rank a = 0" "loc_rank b = 0"
    using that by (auto simp: ngx_http_cmp_locations_def loc_rank_def rc_def Let_def split: if_splits)
  show ?thesis
  proof (cases "loc_rank a = 0 \<and> loc_rank b = 0")
    case True
    then show ?thesis using plain le rc(2) by auto
  next
    case False
    then show ?thesis using strcmp_lex [OF assms]
      by (auto simp: ngx_http_cmp_locations_def loc_rank_def split: if_splits)
  qed
qed

interpretation decl_order: sort_order decl_cmp "\<lambda>d. name_ok (lf_name (decl_flags d))"
proof
  fix x y assume n: "name_ok (lf_name (decl_flags x))" "name_ok (lf_name (decl_flags y))" and "decl_cmp x y > 0"
  then have "\<not> decl_cmp x y \<le> 0" by simp
  then show "decl_cmp y x \<le> 0" unfolding cmp_locations_le [OF n] cmp_locations_le [OF n(2,1)]
    using fkeys_inj [OF n] by (auto simp: not_less neq_iff)
next
  fix x y z assume n: "name_ok (lf_name (decl_flags x))" "name_ok (lf_name (decl_flags y))" "name_ok (lf_name (decl_flags z))"
    and "decl_cmp x y \<le> 0" "decl_cmp y z \<le> 0"
  then show "decl_cmp x z \<le> 0"
    unfolding cmp_locations_le [OF n(1,2)] cmp_locations_le [OF n(2,3)] cmp_locations_le [OF n(1,3)]
    by (auto intro: less_trans order_trans)
qed

section \<open>The tables of a location\<close>

text \<open>Locations as the directives declare them.\<close>

definition decl_ok :: "loc_decl \<Rightarrow> bool" where
  "decl_ok d \<longleftrightarrow> name_ok (lf_name (decl_flags d)) \<and> length (lf_name (decl_flags d)) < 256 \<and>
     (lf_auto_redirect (decl_flags d) \<longrightarrow> suffix ''/'' (lf_name (decl_flags d))) \<and>
     (lf_regex (decl_flags d) \<noteq> None \<longrightarrow> \<not> lf_named (decl_flags d) \<and> \<not> lf_noname (decl_flags d)) \<and>
     (lf_named (decl_flags d) \<longrightarrow> \<not> lf_noname (decl_flags d))"

abbreviation decl_rank :: "loc_decl \<Rightarrow> nat" where
  "decl_rank d \<equiv> loc_rank (decl_flags d)"

definition is_static :: "loc_decl \<Rightarrow> bool" where
  "is_static d \<longleftrightarrow> loc_rank (decl_flags d) = 0"

lemma init_location_conf: "init_location alloc static d = Some l \<Longrightarrow> loc_conf l = decl_flags d"
  by (cases d) (auto split: prod.splits option.splits if_splits loc_tree.splits)

lemma insertion_sort_filter:
  assumes "\<And>x y. P x \<Longrightarrow> P y \<Longrightarrow> cmp x y \<le> 0"
  shows "filter P (insertion_sort cmp xs) = filter P xs"
proof -
  have ins: "filter P (insert_right cmp p ys) = (if P p then p # filter P ys else filter P ys)" for p ys
    by (induction ys) (use assms in \<open>fastforce+\<close>)
  show ?thesis
    by (induction xs rule: rev_induct) (auto simp: insertion_sort_simps ins rev_filter [symmetric])
qed

lemma init_locations_ranks:
  assumes "\<forall>d \<in> set ds. decl_ok d" "ngx_http_init_locations ds = (ls, rs, ns)"
  obtains tail where "insertion_sort decl_cmp ds = ls @ rs @ ns @ tail" "sorted_wrt (\<lambda>a b. decl_cmp a b \<le> 0) (ls @ rs @ ns @ tail)"
    "\<forall>d \<in> set ls. decl_rank d = 0" "\<forall>d \<in> set rs. decl_rank d = 1" "\<forall>d \<in> set ns. decl_rank d = 2" "\<forall>d \<in> set tail. decl_rank d = 3"
proof -
  obtain tail where "ngx_sort True decl_cmp ds = ls @ rs @ ns @ tail"
    and c: "\<forall>d \<in> set (ls @ rs @ ns). lf_regex (decl_flags d) \<noteq> None \<or> lf_named (decl_flags d) \<or> \<not> lf_noname (decl_flags d)"
    "\<forall>d \<in> set (ls @ rs). lf_regex (decl_flags d) \<noteq> None \<or> \<not> lf_named (decl_flags d)"
    "\<forall>d \<in> set ls. lf_regex (decl_flags d) = None" "rs \<noteq> [] \<longrightarrow> lf_regex (decl_flags (hd rs)) \<noteq> None"
    "ns \<noteq> [] \<longrightarrow> lf_regex (decl_flags (hd ns)) = None \<and> lf_named (decl_flags (hd ns))"
    "tail \<noteq> [] \<longrightarrow> lf_noname (decl_flags (hd tail))"
    using init_locations_split [OF assms(2)] by blast
  then have t: "insertion_sort decl_cmp ds = ls @ rs @ ns @ tail" by (simp add: ngx_sort_eq)
  have names: "\<forall>d \<in> set ds. name_ok (lf_name (decl_flags d))" using assms(1) by (simp add: decl_ok_def)
  have s: "sorted_wrt (\<lambda>a b. decl_cmp a b \<le> 0) (ls @ rs @ ns @ tail)"
    using decl_order.insertion_sort_sorted [OF names] t by simp
  have set: "set (ls @ rs @ ns @ tail) = set ds" using set_insertion_sort [of decl_cmp ds] t by simp
  then have ok: "decl_ok d" if "d \<in> set (ls @ rs @ ns @ tail)" for d using that assms(1) by auto
  have "sorted_wrt (\<lambda>a b. decl_rank a \<le> decl_rank b) (ls @ rs @ ns @ tail)"
    by (rule sorted_wrt_mono_rel [OF _ s]) (use ok cmp_locations_le in \<open>auto simp: decl_ok_def\<close>)
  then have ranks: "\<forall>d \<in> set xs. decl_rank (hd xs) \<le> decl_rank d" if "xs \<in> {rs, ns, tail}" for xs
    using that by (cases xs) (auto simp: sorted_wrt_append)
  have "\<forall>d \<in> set ls. decl_rank d = 0"
  proof
    fix d assume "d \<in> set ls"
    then show "decl_rank d = 0" using bspec [OF c(1), of d] bspec [OF c(2), of d] c(3) by (auto simp: loc_rank_def)
  qed
  moreover have "\<forall>d \<in> set rs. decl_rank d = 1"
  proof
    fix d assume d: "d \<in> set rs"
    then have "decl_rank (hd rs) = 1" using c(4) ok [of "hd rs"] by (cases rs) (auto simp: loc_rank_def decl_ok_def)
    then have "1 \<le> decl_rank d" using ranks [of rs] d by auto
    then show "decl_rank d = 1" using bspec [OF c(1), of d] bspec [OF c(2), of d] d ok [of d] by (auto simp: loc_rank_def decl_ok_def split: if_splits)
  qed
  moreover have "\<forall>d \<in> set ns. decl_rank d = 2"
  proof
    fix d assume d: "d \<in> set ns"
    then have "decl_rank (hd ns) = 2" using c(5) ok [of "hd ns"] by (cases ns) (auto simp: loc_rank_def decl_ok_def)
    then have "2 \<le> decl_rank d" using ranks [of ns] d by auto
    then show "decl_rank d = 2" using bspec [OF c(1), of d] d ok [of d] by (auto simp: loc_rank_def decl_ok_def split: if_splits)
  qed
  moreover have "\<forall>d \<in> set tail. decl_rank d = 3"
  proof
    fix d assume d: "d \<in> set tail"
    then have "decl_rank (hd tail) = 3" using c(6) by (cases tail) (auto simp: loc_rank_def)
    then show "decl_rank d = 3" using ranks [of tail] d by (force simp: loc_rank_def split: if_splits)
  qed
  ultimately show ?thesis using that t s by blast
qed

lemma init_locations_parts:
  assumes "\<forall>d \<in> set ds. decl_ok d" "ngx_http_init_locations ds = (ls, rs, ns)"
  shows "mset ls = mset (filter is_static ds)" "sorted_wrt (\<lambda>a b. decl_cmp a b \<le> 0) ls"
    "rs = filter (\<lambda>d. decl_rank d = 1) ds"
proof -
  obtain tail where t: "insertion_sort decl_cmp ds = ls @ rs @ ns @ tail" "sorted_wrt (\<lambda>a b. decl_cmp a b \<le> 0) (ls @ rs @ ns @ tail)"
    "\<forall>d \<in> set ls. decl_rank d = 0" "\<forall>d \<in> set rs. decl_rank d = 1" "\<forall>d \<in> set ns. decl_rank d = 2" "\<forall>d \<in> set tail. decl_rank d = 3"
    by (rule init_locations_ranks [OF assms])
  have "filter is_static (ls @ rs @ ns @ tail) = ls" using t(3-6) by (auto simp: is_static_def filter_empty_conv filter_id_conv)
  then have "mset ls = mset (filter is_static (insertion_sort decl_cmp ds))" unfolding t(1) by simp
  then show "mset ls = mset (filter is_static ds)" unfolding mset_filter mset_insertion_sort .
  show "sorted_wrt (\<lambda>a b. decl_cmp a b \<le> 0) ls" using t(2) by (simp add: sorted_wrt_append)
  have "filter (\<lambda>d. decl_rank d = 1) (insertion_sort decl_cmp ds) = rs"
    unfolding t(1) using t(3-6) by (auto simp: filter_empty_conv filter_id_conv)
  moreover have "decl_cmp x y \<le> 0" if "decl_rank x = 1" "decl_rank y = 1" for x y
  proof -
    have "\<not> lf_noname (decl_flags d) \<and> \<not> lf_named (decl_flags d) \<and> lf_regex (decl_flags d) \<noteq> None" if "decl_rank d = 1" for d
      using that by (auto simp: loc_rank_def split: if_splits)
    then show ?thesis using that by (simp add: ngx_http_cmp_locations_def)
  qed
  ultimately show "rs = filter (\<lambda>d. decl_rank d = 1) ds" using insertion_sort_filter [of "\<lambda>d. decl_rank d = 1" decl_cmp ds] by simp
qed

lemma find_unique:
  assumes "sorted_wrt (\<lambda>a b. \<not> (P a \<and> P b)) xs" "mset ys = mset xs"
  shows "find P ys = find P xs"
proof -
  have find: "find P zs = (case filter P zs of [] \<Rightarrow> None | z # _ \<Rightarrow> Some z)" for zs by (induction zs) auto
  have "length (filter P xs) \<le> 1" using assms(1) by (induction xs) (auto simp: filter_empty_conv)
  moreover have m: "mset (filter P ys) = mset (filter P xs)" using assms(2) by simp
  ultimately have "filter P ys = filter P xs"
    using mset_eq_length [OF m] by (cases "filter P xs"; cases "filter P ys") auto
  then show ?thesis by (simp add: find)
qed

text \<open>The static locations in the order they are declared, and the one of a name.\<close>

definition static_children :: "loc_decl list \<Rightarrow> loc list" where
  "static_children ds = map (\<lambda>d. the (init_location True True d)) (filter is_static ds)"

definition loc_of :: "bool \<Rightarrow> loc list \<Rightarrow> bytes \<Rightarrow> loc option" where
  "loc_of exact ls n = find (\<lambda>l. lf_exact_match (loc_conf l) = exact \<and> loc_name l = n) ls"

lemma those_map: "those (map f xs) = Some ys \<Longrightarrow> ys = map (\<lambda>x. the (f x)) xs \<and> (\<forall>x \<in> set xs. f x \<noteq> None)"
  by (induction xs arbitrary: ys) (auto split: option.splits)

lemma add_location_static:
  assumes "loc_rank (loc_conf l) = 0"
  shows "ngx_http_add_location l = (if lf_exact_match (loc_conf l) then LQ (Some l) None (loc_name l) [] else LQ None (Some l) (loc_name l) [])"
  using assms by (auto simp: ngx_http_add_location_def loc_rank_def Let_def split: if_splits)

lemma first_of_static:
  assumes "\<forall>l \<in> set ls. loc_rank (loc_conf l) = 0"
  shows "first_of lq_exact n (map ngx_http_add_location ls) = loc_of True ls n"
    "first_of lq_inclusive n (map ngx_http_add_location ls) = loc_of False ls n"
  using assms by (induction ls) (auto simp: loc_of_def add_location_static)

text \<open>The queue of the static locations of a block.\<close>

definition static_ok :: "loc \<Rightarrow> bool" where
  "static_ok l \<longleftrightarrow> loc_rank (loc_conf l) = 0 \<and> name_ok (loc_name l) \<and> length (loc_name l) < 256 \<and>
     (lf_auto_redirect (loc_conf l) \<longrightarrow> suffix ''/'' (loc_name l))"

definition loc_key :: "loc_flags \<Rightarrow> bytes \<times> bool" where
  "loc_key c = (lf_name c, lf_exact_match c)"

lemma distinct_sorted_wrt: "distinct (map f xs) \<longleftrightarrow> sorted_wrt (\<lambda>a b. f a \<noteq> f b) xs"
  by (induction xs) auto

lemma sorted_wrt_cong_on: "(\<And>a b. a \<in> set xs \<Longrightarrow> b \<in> set xs \<Longrightarrow> P a b \<longleftrightarrow> Q a b) \<Longrightarrow> sorted_wrt P xs \<longleftrightarrow> sorted_wrt Q xs"
  by (induction xs) auto

lemma static_queue:
  assumes sorted: "sorted_wrt (\<lambda>a b. ngx_http_cmp_locations (loc_conf a) (loc_conf b) \<le> 0) ls" and ls: "\<forall>l \<in> set ls. static_ok l"
  shows "sorted_queue (map ngx_http_add_location ls)"
    and "sorted_wrt (\<lambda>a b. \<not> clash a b) (map ngx_http_add_location ls) \<longleftrightarrow> distinct (map (\<lambda>l. loc_key (loc_conf l)) ls)"
proof -
  have "sorted_wrt (\<lambda>a b. in_order (ngx_http_add_location a) (ngx_http_add_location b)) ls"
    by (rule sorted_wrt_mono_rel [OF _ sorted])
      (use ls cmp_locations_le in \<open>auto simp: static_ok_def in_order_def add_location_static split: if_splits\<close>)
  moreover have "\<forall>l \<in> set ls. lq_base (ngx_http_add_location l) \<and> lq_list (ngx_http_add_location l) = []"
    using ls by (auto simp: static_ok_def lq_base_def lq_redirects_def redirects_def add_location_static)
  ultimately show "sorted_queue (map ngx_http_add_location ls)" by (auto simp: sorted_queue_def sorted_wrt_map)
  show "sorted_wrt (\<lambda>a b. \<not> clash a b) (map ngx_http_add_location ls) \<longleftrightarrow> distinct (map (\<lambda>l. loc_key (loc_conf l)) ls)"
    unfolding distinct_sorted_wrt sorted_wrt_map
    by (rule sorted_wrt_cong_on) (use ls in \<open>auto simp: static_ok_def clash_def loc_key_def add_location_static split: if_splits\<close>)
qed

lemma static_tree_choice:
  assumes sorted: "sorted_wrt (\<lambda>a b. ngx_http_cmp_locations (loc_conf a) (loc_conf b) \<le> 0) ls" and ls: "\<forall>l \<in> set ls. static_ok l"
    and join: "ngx_http_join_exact_locations (map ngx_http_add_location ls) = Some qs" and uri: "name_ok uri" and perm: "mset cs = mset ls"
  shows "ngx_http_core_find_static_location uri (ngx_http_create_locations_tree True (ngx_http_create_locations_list qs) 0) st =
    static_choice (loc_of True cs) (loc_of False cs) uri st"
proof -
  note j = join_correct [OF static_queue(1) [OF sorted ls] join]
  then have qs: "joined qs" by simp
  have "sorted_wrt (\<lambda>a b. loc_key (loc_conf a) \<noteq> loc_key (loc_conf b)) ls"
    using j static_queue(2) [OF sorted ls] by (simp add: distinct_sorted_wrt)
  then have uniq: "sorted_wrt (\<lambda>a b. \<not> (P a \<and> P b)) ls" if "P = (\<lambda>l. lf_exact_match (loc_conf l) = exact \<and> loc_name l = n)" for P exact n
    by (rule sorted_wrt_mono_rel [rotated]) (auto simp: that loc_key_def)
  have same: "loc_of exact cs n = loc_of exact ls n" for exact n
    unfolding loc_of_def using perm by (intro find_unique uniq refl) simp
  have "ngx_http_core_find_static_location uri (ngx_http_create_locations_tree True (ngx_http_create_locations_list qs) 0) st =
      scan uri (ngx_http_create_locations_list qs) st"
    using find_static_tree [of "[]" "ngx_http_create_locations_list qs" uri st] create_list_group [OF qs, of "[]"] uri by simp
  also have "\<dots> = static_choice (\<lambda>n. first_of lq_exact n qs) (\<lambda>n. first_of lq_inclusive n qs) uri st"
    using create_list_scan [OF qs uri] flat_choice [OF qs uri] by simp
  also have "\<dots> = static_choice (loc_of True ls) (loc_of False ls) uri st"
    using j first_of_static [of ls] ls by (simp add: static_ok_def)
  finally show ?thesis by (simp add: same [abs_def])
qed

text \<open>The initialised static locations of a block, in the order of the sorted queue.\<close>

lemma static_children_sorted:
  assumes "\<forall>d \<in> set ds. decl_ok d" "ngx_http_init_locations ds = (ls, rs, ns)" "those (map (init_location True True) ls) = Some ls'"
  shows "mset (static_children ds) = mset ls'" "\<forall>l \<in> set ls'. static_ok l"
    "sorted_wrt (\<lambda>a b. ngx_http_cmp_locations (loc_conf a) (loc_conf b) \<le> 0) ls'" "map loc_conf ls' = map decl_flags ls"
proof -
  note parts = init_locations_parts [OF assms(1,2)]
  have eq: "ls' = map (\<lambda>d. the (init_location True True d)) ls" and some: "\<forall>d \<in> set ls. init_location True True d \<noteq> None"
    using those_map [OF assms(3)] by auto
  have conf: "loc_conf (the (init_location True True d)) = decl_flags d" if "d \<in> set ls" for d
    using some that init_location_conf by fastforce
  show "mset (static_children ds) = mset ls'" using parts(1) by (simp add: static_children_def eq)
  have "set ls \<subseteq> set ds" using init_locations_subset [OF assms(2)] by simp
  then have "\<forall>d \<in> set ls. decl_ok d \<and> is_static d"
    using assms(1) parts(1) by (metis mset_eq_setD mem_Collect_eq set_filter subsetD)
  then show "\<forall>l \<in> set ls'. static_ok l" by (auto simp: eq conf static_ok_def decl_ok_def is_static_def)
  show "sorted_wrt (\<lambda>a b. ngx_http_cmp_locations (loc_conf a) (loc_conf b) \<le> 0) ls'"
    unfolding eq sorted_wrt_map by (rule sorted_wrt_mono_rel [OF _ parts(2)]) (simp add: conf)
  show "map loc_conf ls' = map decl_flags ls" using conf by (simp add: eq)
qed

lemma static_search:
  assumes "init_location True True (Decl clcf ds) = Some l" "\<forall>d \<in> set ds. decl_ok d" "name_ok uri"
  shows "ngx_http_core_find_static_location uri (static_locations l) st =
    static_choice (loc_of True (static_children ds)) (loc_of False (static_children ds)) uri st"
proof -
  obtain ls rs ns where i: "ngx_http_init_locations ds = (ls, rs, ns)" by (metis prod_cases3)
  obtain ls' where ls': "those (map (init_location True True) ls) = Some ls'" using assms(1) i by (auto split: option.splits)
  note c = static_children_sorted [OF assms(2) i ls']
  show ?thesis
  proof (cases "ls' = []")
    case True
    then have "static_children ds = []" using c(1) by simp
    moreover have "first_some (\<lambda>k. None :: loc option) xs = None" for xs :: "nat list" by (simp add: first_some_None)
    ultimately have "static_choice (loc_of True (static_children ds)) (loc_of False (static_children ds)) uri st = st"
      by (simp add: static_choice_def loc_of_def redirects_def del: upt_Suc)
    moreover have "static_locations l = LNull" using assms(1) i ls' True by (auto split: option.splits if_splits)
    ultimately show ?thesis by simp
  next
    case False
    obtain qs where qs: "ngx_http_join_exact_locations (map ngx_http_add_location ls') = Some qs"
      "static_locations l = ngx_http_create_locations_tree True (ngx_http_create_locations_list qs) 0"
      using assms(1) i ls' False by (auto split: option.splits if_splits loc_tree.splits)
    then show ?thesis using static_tree_choice [OF c(3,2) qs(1) assms(3) c(1)] by simp
  qed
qed

text \<open>
  C18. For every accepted configuration whose location names have fewer than 256 bytes (the tree keeps
  a length in one byte) and flags as the directives set them, and for every URI, neither with a NUL, the search of the tree of static locations, built by sorting,
  joining, nesting and halving the declared locations, gives what the declarations say: the exact
  location of the URI, or the inclusive one of that name, or a redirect to its name with a slash, or
  the inclusive location with the longest name that the URI begins with.
\<close>

theorem static_location_choice:
  assumes "init_location True True (Decl clcf ds) = Some l" "\<forall>d \<in> set ds. decl_ok d" "name_ok uri"
  shows "ngx_http_core_find_static_location uri (static_locations l) st =
    static_choice (loc_of True (static_children ds)) (loc_of False (static_children ds)) uri st"
  by (rule static_search [OF assms])

section \<open>Accepted configurations\<close>

text \<open>Joining fails exactly for duplicates.\<close>

lemma join_total:
  assumes "sorted_queue qs" "sorted_wrt (\<lambda>a b. \<not> clash a b) qs"
  shows "ngx_http_join_exact_locations qs \<noteq> None"
  using assms
proof (induction qs rule: ngx_http_join_exact_locations.induct)
  case (1 q x qs)
  have base: "lq_base q" "lq_base x" "lq_list q = []" "in_order q x" "\<forall>y \<in> set qs. in_order q y \<and> in_order x y" "sorted_queue (x # qs)"
    "sorted_wrt in_order qs" "\<forall>y \<in> set qs. lq_base y \<and> lq_list y = []"
    using "1.prems"(1) by (auto simp: sorted_queue_def)
  show ?case
  proof (cases "lq_name q = lq_name x")
    case True
    let ?q = "LQ (lq_exact q) (lq_inclusive x) (lq_name q) (lq_list q)"
    have one: "\<not> (lq_exact q \<noteq> None \<and> lq_exact x \<noteq> None)" "\<not> (lq_inclusive q \<noteq> None \<and> lq_inclusive x \<noteq> None)"
      using "1.prems"(2) True by (auto simp: clash_def)
    then have kinds: "lq_exact q \<noteq> None" "lq_inclusive x \<noteq> None"
      using base(1,2,4) True by (auto simp: lq_base_def in_order_def)
    then have "lq_base ?q" using base(1,2) True by (auto simp: lq_base_def lq_redirects_def)
    then have "sorted_queue (?q # qs)" using base by (auto simp: sorted_queue_def in_order_def)
    moreover have "sorted_wrt (\<lambda>a b. \<not> clash a b) (?q # qs)" using "1.prems"(2) True by (auto simp: clash_def)
    ultimately show ?thesis using "1.IH"(1) True same_name [OF base(1,2)] one by simp
  next
    case False
    then show ?thesis using "1.IH"(2) [OF _ base(6)] "1.prems"(2) same_name [OF base(1,2)] by auto
  qed
qed simp_all

lemma tree_not_null: "ngx_http_create_locations_tree True (ngx_http_create_locations_list qs) 0 = LNull \<longleftrightarrow> qs = []"
proof -
  have "ngx_http_create_locations_list qs = [] \<longleftrightarrow> qs = []"
    by (cases qs rule: ngx_http_create_locations_list.cases) (auto simp: split_beta Let_def)
  then show ?thesis by (subst ngx_http_create_locations_tree.simps) (auto simp: Let_def)
qed

text \<open>Without the trees nothing is refused.\<close>

lemma those_Some: "(\<forall>x \<in> set xs. f x \<noteq> None) \<Longrightarrow> those (map f xs) = Some (map (\<lambda>x. the (f x)) xs)"
  by (induction xs) auto

lemma init_regex_location: "\<exists>l. init_location True False d = Some l \<and> static_locations l = LNull"
proof (induction d)
  case (Decl clcf ds)
  obtain ls rs ns where i: "ngx_http_init_locations ds = (ls, rs, ns)" by (metis prod_cases3)
  have "\<forall>d \<in> set ls \<union> set rs \<union> set ns. init_location True False d \<noteq> None"
    using Decl init_locations_subset [OF i] by blast
  then have "those (map (init_location True False) xs) = Some (map (\<lambda>x. the (init_location True False x)) xs)"
    if "xs \<in> {ls, rs, ns}" for xs using that by (intro those_Some) auto
  then show ?case by (simp add: i)
qed

text \<open>No two static locations of the same name and kind in a block.\<close>

fun no_duplicates :: "loc_decl \<Rightarrow> bool" where
  "no_duplicates (Decl clcf ds) \<longleftrightarrow>
     distinct (map (\<lambda>d. (lf_name (decl_flags d), lf_exact_match (decl_flags d))) (filter is_static ds)) \<and>
     (\<forall>d \<in> set ds. is_static d \<longrightarrow> no_duplicates d)"

fun decl_all_ok :: "loc_decl \<Rightarrow> bool" where
  "decl_all_ok (Decl clcf ds) \<longleftrightarrow> (\<forall>d \<in> set ds. decl_ok d \<and> decl_all_ok d)"

text \<open>
  A configuration is refused exactly for a duplicate: two static locations of a block with the same
  name, both exact or both inclusive, at any depth outside the locations with regular expressions.
\<close>

theorem locations_accepted:
  assumes "decl_all_ok d"
  shows "init_location True True d \<noteq> None \<longleftrightarrow> no_duplicates d"
  using assms
proof (induction d)
  case (Decl clcf ds)
  obtain ls rs ns where i: "ngx_http_init_locations ds = (ls, rs, ns)" by (metis prod_cases3)
  have ds: "\<forall>d \<in> set ds. decl_ok d" using Decl.prems by simp
  note parts = init_locations_parts [OF ds i]
  have static: "set ls = {d \<in> set ds. is_static d}" using mset_eq_setD [OF parts(1)] by simp
  have IH: "init_location True True d \<noteq> None \<longleftrightarrow> no_duplicates d" if "d \<in> set ls" for d
    using Decl that static by auto
  have regex: "those (map (init_location True False) xs) = Some (map (\<lambda>x. the (init_location True False x)) xs)" for xs
    using init_regex_location by (intro those_Some) fastforce
  show ?case
  proof (cases "\<forall>d \<in> set ls. no_duplicates d")
    case True
    then obtain ls' where ls': "those (map (init_location True True) ls) = Some ls'" using IH those_Some [of ls "init_location True True"] by auto
    note c = static_children_sorted [OF ds i ls']
    let ?j = "ngx_http_join_exact_locations (map ngx_http_add_location ls')"
    have "?j \<noteq> None \<longleftrightarrow> distinct (map (\<lambda>l. loc_key (loc_conf l)) ls')"
      using join_total [OF static_queue(1) [OF c(3,2)]] join_correct [OF static_queue(1) [OF c(3,2)]] static_queue(2) [OF c(3,2)] by blast
    also have "\<dots> \<longleftrightarrow> distinct (map (\<lambda>d. loc_key (decl_flags d)) ls)"
      using arg_cong [OF c(4), of "map loc_key"] by (simp add: comp_def)
    also have "\<dots> \<longleftrightarrow> distinct (map (\<lambda>d. loc_key (decl_flags d)) (filter is_static ds))"
      using parts(1) by (metis mset_map mset_eq_imp_distinct_iff)
    finally have j: "?j \<noteq> None \<longleftrightarrow> distinct (map (\<lambda>d. loc_key (decl_flags d)) (filter is_static ds))" .
    have "qs \<noteq> []" if "ls' \<noteq> []" "?j = Some qs" for qs using join_correct [OF static_queue(1) [OF c(3,2)] that(2)] that(1) by auto
    then have "init_location True True (Decl clcf ds) \<noteq> None \<longleftrightarrow> ls' = [] \<or> ?j \<noteq> None"
      using i ls' regex tree_not_null by (fastforce split: option.split loc_tree.split)
    moreover have "ls' = [] \<Longrightarrow> ?j \<noteq> None" by simp
    ultimately show ?thesis using j True static by (auto simp: loc_key_def)
  next
    case False
    then obtain d where d: "d \<in> set ls" "init_location True True d = None" using IH by blast
    then have "those (map (init_location True True) ls) = None" using those_map [of "init_location True True" ls] by (cases "those (map (init_location True True) ls)") auto
    then show ?thesis using i False static by auto
  qed
qed

section \<open>Precedence\<close>

lemma init_leaf: "init_location True static (Decl clcf []) = Some (Loc clcf LNull [] [])"
proof -
  have "ngx_http_init_locations [] = ([], [], [])" by (simp add: ngx_http_init_locations_def queue_cut_def ngx_sort_def)
  then show ?thesis by simp
qed

lemma find_location_leaf: "ngx_http_core_find_location regex_exec uri (Loc clcf LNull [] ns) = (NGX_DECLINED, Loc clcf LNull [] ns)"
  by (simp add: ngx_http_core_find_location.simps)

lemma find_regex_find:
  "find_regex regex_exec uri ls =
    map_option (\<lambda>l. (if regex_exec (the (lf_regex (loc_conf l))) uri = NGX_OK then NGX_OK else NGX_ERROR, l))
      (find (\<lambda>l. regex_exec (the (lf_regex (loc_conf l))) uri \<noteq> NGX_DECLINED) ls)"
  by (induction ls) (auto simp: Let_def)

text \<open>The locations with regular expressions in the order they are declared.\<close>

definition regex_children :: "loc_decl list \<Rightarrow> loc list" where
  "regex_children ds = map (\<lambda>d. the (init_location True False d)) (filter (\<lambda>d. decl_rank d = 1) ds)"

lemma static_choice_mem:
  assumes "static_choice (loc_of True ls) (loc_of False ls) uri (NGX_DECLINED, cur) = (rc, l)"
  shows "rc = NGX_DECLINED \<and> l = cur \<or> rc \<in> {NGX_OK, NGX_AGAIN, NGX_DONE} \<and> l \<in> set ls"
proof -
  have mem: "l \<in> set ls" if "loc_of e ls n = Some l" for e n l using that by (auto simp: loc_of_def find_Some_iff)
  have first: "l \<in> set ls" if "first_some (\<lambda>k. loc_of False ls (take k uri)) ks = Some l" for ks l
    using that by (induction ks) (auto split: option.splits dest: mem)
  show ?thesis
    using assms by (auto simp: static_choice_def redirects_def split: option.splits if_splits dest: mem first simp del: upt_Suc)
qed

text \<open>
  C19. The order in which nginx documents locations to be chosen, for a server whose locations have no locations
  inside, names of fewer than 256 bytes and flags as the directives set them, and a URI without NUL: an exact location, or a redirect, ends the search; a location with the longest prefix that was declared with
  \<open>^~\<close> is used at once; otherwise the first regular expression, in the order of the declarations,
  that matches decides, and when none does, the location with the longest prefix.
\<close>

theorem location_precedence:
  assumes "init_location True True (Decl clcf ds) = Some srv" "\<forall>d \<in> set ds. decl_ok d \<and> decl_locations d = []" "name_ok uri"
    and "static_choice (loc_of True (static_children ds)) (loc_of False (static_children ds)) uri (NGX_DECLINED, srv) = (rc, l)"
  shows "ngx_http_core_find_location regex_exec uri srv =
    (if rc = NGX_OK \<or> rc = NGX_DONE then (rc, l)
     else if rc = NGX_AGAIN \<and> lf_noregex (loc_conf l) then (NGX_DECLINED, l)
     else
       (case find (\<lambda>m. regex_exec (the (lf_regex (loc_conf m))) uri \<noteq> NGX_DECLINED) (regex_children ds) of
          None \<Rightarrow> (NGX_DECLINED, l)
        | Some m \<Rightarrow> if regex_exec (the (lf_regex (loc_conf m))) uri = NGX_OK then (NGX_OK, m) else (NGX_ERROR, l)))"
proof -
  have leaf: "init_location True st d = Some (Loc (decl_flags d) LNull [] [])" if "d \<in> set ds" for d st
    using assms(2) that init_leaf [of st "decl_flags d"] by (cases d) auto
  obtain ls rs ns where i: "ngx_http_init_locations ds = (ls, rs, ns)" by (metis prod_cases3)
  have "\<forall>d \<in> set ds. decl_ok d" using assms(2) by simp
  then have rs: "rs = filter (\<lambda>d. decl_rank d = 1) ds" by (rule init_locations_parts(3) [OF _ i])
  have "regex_locations srv = map (\<lambda>d. the (init_location True False d)) rs"
    using assms(1) i those_map [of "init_location True False" rs] by (auto split: option.splits if_splits loc_tree.splits)
  then have regex: "regex_locations srv = regex_children ds" by (simp add: regex_children_def rs)
  have search: "ngx_http_core_find_static_location uri (static_locations srv) (NGX_DECLINED, srv) = (rc, l)"
    using static_search [OF assms(1) _ assms(3)] assms(2,4) by simp
  have nested: "ngx_http_core_find_location regex_exec uri m = (NGX_DECLINED, m)" if "m \<in> set (static_children ds) \<union> set (regex_children ds)" for m
    using that leaf by (auto simp: static_children_def regex_children_def find_location_leaf)
  have m: "m \<in> set (regex_children ds)"
    if "find (\<lambda>m. regex_exec (the (lf_regex (loc_conf m))) uri \<noteq> NGX_DECLINED) (regex_children ds) = Some m" for m
    using that by (auto simp: find_Some_iff)
  show ?thesis
    using static_choice_mem [OF assms(4)] nested m
    by (subst ngx_http_core_find_location.simps) (auto simp: search regex find_regex_find split: option.splits)
qed

section \<open>Limits of the search\<close>

text \<open>
  The length of a name is kept in one byte. The only location of a server, when its name has a
  multiple of 256 bytes, is searched as if its name were empty: it is used for every URI, also for
  those that do not begin with its name. (Beside a location that is a prefix of it, it is nested
  there and only its remaining bytes are counted.)
\<close>

theorem location_name_truncated:
  assumes "lf_name (decl_flags d) = name" "length name mod 256 = 0" "is_static d" "\<not> lf_exact_match (decl_flags d)"
    "decl_locations d = []" "uri \<noteq> []"
  shows "\<exists>srv. init_location True True (Decl clcf [d]) = Some srv \<and>
    ngx_http_core_find_static_location uri (static_locations srv) (NGX_DECLINED, srv) = (NGX_AGAIN, Loc (decl_flags d) LNull [] [])"
proof -
  let ?l = "Loc (decl_flags d) LNull [] []" and ?q = "LQ None (Some (Loc (decl_flags d) LNull [] [])) name []"
  have d: "init_location True True d = Some ?l" using assms(5) init_leaf [of True "decl_flags d"] by (cases d) simp
  have "ngx_sort True decl_cmp [d] = [d]" by (simp add: ngx_sort_eq insertion_sort_def)
  then have i: "ngx_http_init_locations [d] = ([d], [], [])"
    using assms(3) by (simp add: ngx_http_init_locations_def queue_cut_def is_static_def loc_rank_def split: if_splits)
  have q: "ngx_http_add_location ?l = ?q" using assms(1,3,4) by (simp add: add_location_static is_static_def)
  have "ngx_http_create_locations_tree True [?q] 0 = LNode LNull LNull LNull None (Some ?l) (redirects (Some ?l)) 0 name"
    using assms(2) by (simp add: ngx_http_create_locations_tree.simps redirects_def)
  then show ?thesis using i d q assms(6) by (simp add: Let_def)
qed

text \<open>
  Static locations inside a location with a regular expression are accepted by the directive when their
  names begin with the text of the expression, but the tree for them is never made: whatever is
  declared inside, such a location has none.
\<close>

theorem regex_location_has_no_tree:
  assumes "init_location True True (Decl clcf ds) = Some srv" "m \<in> set (regex_locations srv)"
  shows "static_locations m = LNull"
proof -
  obtain ls rs ns where i: "ngx_http_init_locations ds = (ls, rs, ns)" by (metis prod_cases3)
  have "regex_locations srv = map (\<lambda>d. the (init_location True False d)) rs"
    using assms(1) i those_map [of "init_location True False" rs] by (auto split: option.splits if_splits loc_tree.splits)
  then show ?thesis using assms(2) init_regex_location by (auto) (metis option.sel)
qed

section \<open>A server\<close>

definition flags0 :: loc_flags where
  "flags0 = \<lparr>lf_name = [], lf_exact_match = False, lf_noregex = False, lf_named = False, lf_noname = False,
     lf_auto_redirect = False, lf_internal = False, lf_max_body = 0, lf_regex = None\<rparr>"

definition re0 :: "bytes \<Rightarrow> bool \<Rightarrow> nat option" where
  "re0 re caseless = Some (length re)"

definition location0 :: "bytes list \<Rightarrow> loc_decl" where
  "location0 args = Decl (the (ngx_http_core_location re0 None flags0 (''location'' # args))) []"

definition locations0 :: "loc_decl list" where
  "locations0 = [location0 [''/''], location0 [''^~'', ''/static/''], location0 [''~'', ''[.]php''], location0 [''='', ''/login''], location0 [''/login'']]"

lemma location0_name: "decl_flags (location0 [''/'']) = flags0\<lparr>lf_name := ''/''\<rparr>"
  "decl_flags (location0 [''^~'', ''/static/'']) = flags0\<lparr>lf_name := ''/static/'', lf_noregex := True\<rparr>"
  "decl_flags (location0 [''~'', ''[.]php'']) = flags0\<lparr>lf_name := ''[.]php'', lf_regex := Some 6\<rparr>"
  "decl_flags (location0 [''='', ''/login'']) = flags0\<lparr>lf_name := ''/login'', lf_exact_match := True\<rparr>"
  "decl_flags (location0 [''/login'']) = flags0\<lparr>lf_name := ''/login''\<rparr>"
  by (simp_all add: location0_def ngx_http_core_location_def location_args_def ngx_http_core_regex_location_def re0_def flags0_def Let_def)

lemma locations0_ok: "\<forall>d \<in> set locations0. decl_ok d \<and> decl_locations d = []"
  by (simp add: locations0_def decl_ok_def location0_name flags0_def) (simp add: location0_def)

lemma locations0_init: "init_location True True (Decl flags0 locations0) \<noteq> None"
  by code_simp

lemma locations0_choice:
  "static_choice (loc_of True (static_children locations0)) (loc_of False (static_children locations0)) ''/login'' st =
     (NGX_OK, Loc (decl_flags (location0 [''='', ''/login''])) LNull [] [])"
  "static_choice (loc_of True (static_children locations0)) (loc_of False (static_children locations0)) ''/static/a.php'' st =
     (NGX_AGAIN, Loc (decl_flags (location0 [''^~'', ''/static/''])) LNull [] [])"
  by code_simp+

lemma static_location_choice_witness:
  "\<exists>srv. init_location True True (Decl flags0 locations0) = Some srv \<and>
    ngx_http_core_find_static_location ''/login'' (static_locations srv) (NGX_DECLINED, srv) =
      (NGX_OK, Loc (decl_flags (location0 [''='', ''/login''])) LNull [] [])"
proof -
  obtain srv where srv: "init_location True True (Decl flags0 locations0) = Some srv" using locations0_init by blast
  show ?thesis
    using srv static_location_choice [OF srv, of "''/login''" "(NGX_DECLINED, srv)"] locations0_ok locations0_choice(1) by simp
qed

lemma location_precedence_witness:
  "\<exists>srv. init_location True True (Decl flags0 locations0) = Some srv \<and>
    ngx_http_core_find_location (\<lambda>re s. NGX_OK) ''/static/a.php'' srv =
      (NGX_DECLINED, Loc (decl_flags (location0 [''^~'', ''/static/''])) LNull [] [])"
proof -
  obtain srv where srv: "init_location True True (Decl flags0 locations0) = Some srv" using locations0_init by blast
  show ?thesis
    using srv location_precedence [OF srv locations0_ok _ locations0_choice(2), of "\<lambda>re s. NGX_OK"] by (simp add: location0_name)
qed

lemma locations_accepted_witness:
  "init_location True True (Decl flags0 (location0 [''/''] # locations0)) = None"
proof -
  have "decl_all_ok (Decl flags0 (location0 [''/''] # locations0))"
    using locations0_ok by (auto simp: locations0_def location0_def)
  moreover have "\<not> no_duplicates (Decl flags0 (location0 [''/''] # locations0))" by code_simp
  ultimately show ?thesis using locations_accepted by blast
qed

lemma location_name_truncated_witness:
  "\<exists>srv. init_location True True (Decl flags0 [location0 [replicate 256 CHR ''/'']]) = Some srv \<and>
    ngx_http_core_find_static_location ''index'' (static_locations srv) (NGX_DECLINED, srv) =
      (NGX_AGAIN, Loc (flags0\<lparr>lf_name := replicate 256 CHR ''/''\<rparr>) LNull [] [])"
proof -
  let ?d = "location0 [replicate 256 CHR ''/'']"
  have d: "decl_flags ?d = flags0\<lparr>lf_name := replicate 256 CHR ''/''\<rparr>" "decl_locations ?d = []" "is_static ?d"
    by (simp_all add: location0_def ngx_http_core_location_def location_args_def flags0_def Let_def is_static_def loc_rank_def numeral_eq_Suc)
  have "length (replicate 256 CHR ''/'') mod 256 = 0" by (simp only: length_replicate mod_self)
  then show ?thesis
    using location_name_truncated [of ?d "replicate 256 CHR ''/''" "''index''" flags0] d by (simp add: flags0_def del: replicate.simps)
qed

text \<open>A static location inside one with a regular expression.\<close>

definition nested0 :: loc_decl where
  "nested0 = Decl (decl_flags (location0 [''~'', ''/a''])) [location0 [''/a/b'']]"

lemma regex_location_has_no_tree_witness:
  "\<exists>srv m. ngx_http_core_location re0 (Some (decl_flags nested0)) flags0 [''location'', ''/a/b''] \<noteq> None \<and>
    init_location True True (Decl flags0 [nested0]) = Some srv \<and> m \<in> set (regex_locations srv) \<and> static_locations m = LNull"
proof -
  have "map_option regex_locations (init_location True True (Decl flags0 [nested0])) \<notin> {None, Some []}" by code_simp
  then obtain srv where s: "init_location True True (Decl flags0 [nested0]) = Some srv" "regex_locations srv \<noteq> []"
    by (cases "init_location True True (Decl flags0 [nested0])") (simp_all del: init_location.simps)
  then obtain m where "m \<in> set (regex_locations srv)" by (cases "regex_locations srv") auto
  note srv = s(1) this
  have "ngx_http_core_location re0 (Some (decl_flags nested0)) flags0 [''location'', ''/a/b''] \<noteq> None" by code_simp
  then show ?thesis using srv regex_location_has_no_tree [OF srv] by blast
qed

end
