(* ===== verification/Ngx_Inet.thy ===== *)
theory Ngx_Inet
  imports Ngx_Number Ngx_String
begin

text \<open>
  Internet addresses, \<open>nginx-master/src/core/ngx_inet.c\<close>: reading and printing IPv4 and IPv6 addresses, address
  ranges and their matching, socket addresses with ports. An address is the list of its bytes in
  memory, in network order; \<open>in_addr_t\<close> is such a list of four, so \<open>htonl\<close> cuts a number into its bytes
  whatever the byte order of the machine is. A conversion to \<open>u_char\<close> is a remainder modulo 256.
\<close>

section \<open>Reading addresses\<close>

definition INADDR_NONE :: "nat list" where
  "INADDR_NONE = [255, 255, 255, 255]"

definition htonl :: "nat \<Rightarrow> nat list" where
  "htonl w = [w div 2 ^ 24 mod 256, w div 2 ^ 16 mod 256, w div 2 ^ 8 mod 256, w mod 256]"

definition ntohl :: "nat list \<Rightarrow> nat" where
  "ntohl a = a ! 0 * 2 ^ 24 + a ! 1 * 2 ^ 16 + a ! 2 * 2 ^ 8 + a ! 3"

text \<open>The loop of \<open>ngx_inet_addr\<close>; \<open>addr\<close> has 32 bits.\<close>

fun inet_addr_loop :: "bytes \<Rightarrow> nat \<Rightarrow> nat \<Rightarrow> nat \<Rightarrow> nat list" where
  "inet_addr_loop [] addr octet n = (if n = 3 then htonl ((addr * 256 + octet) mod 2 ^ 32) else INADDR_NONE)"
| "inet_addr_loop (c # text) addr octet n =
     (if digit c then
        (let octet' = octet * 10 + digit_val c in
         if octet' > 255 then INADDR_NONE else inet_addr_loop text addr octet' n)
      else if c = CHR ''.'' then inet_addr_loop text ((addr * 256 + octet) mod 2 ^ 32) 0 (Suc n)
      else INADDR_NONE)"

definition ngx_inet_addr :: "bytes \<Rightarrow> nat list" where
  "ngx_inet_addr text = inet_addr_loop text 0 0 0"

text \<open>
  \<open>ngx_inet6_addr\<close>: \<open>addr\<close> are the bytes written, \<open>zero\<close> is the offset of the double colon, \<open>dig\<close> the text
  behind the last colon, of \<open>len4 - 1\<close> bytes. \<open>None\<close> is \<open>NGX_ERROR\<close>.
\<close>

record inet6_state =
  i6_addr :: "nat list"
  i6_zero :: "nat option"
  i6_digit :: "bytes option"
  i6_nibbles :: nat
  i6_word :: nat
  i6_n :: nat

definition i6_write :: "inet6_state \<Rightarrow> inet6_state" where
  "i6_write s = s\<lparr>i6_addr := i6_addr s @ [i6_word s div 256 mod 256, i6_word s mod 256], i6_n := i6_n s - 1\<rparr>"

fun inet6_loop :: "bytes \<Rightarrow> inet6_state \<Rightarrow> inet6_state option" where
  "inet6_loop [] s = Some s"
| "inet6_loop (c # p) s =
     (if c = CHR '':'' then
        (if i6_nibbles s \<noteq> 0 then
           (let s1 = i6_write (s\<lparr>i6_digit := Some p\<rparr>) in
            if i6_n s1 \<noteq> 0 then inet6_loop p (s1\<lparr>i6_nibbles := 0, i6_word := 0\<rparr>) else None)
         else if i6_zero s = None then inet6_loop p (s\<lparr>i6_digit := Some p, i6_zero := Some (length (i6_addr s))\<rparr>)
         else None)
      else if c = CHR ''.'' \<and> i6_nibbles s \<noteq> 0 then
        (case i6_digit s of
           None \<Rightarrow> None
         | Some dig \<Rightarrow>
             if i6_n s < 2 then None
             else
               (let w = ngx_inet_addr dig in
                if w = INADDR_NONE then None
                else
                  (let word = ntohl w in
                   Some (s\<lparr>i6_word := word, i6_addr := i6_addr s @ [word div 2 ^ 24 mod 256, word div 2 ^ 16 mod 256],
                           i6_n := i6_n s - 1\<rparr>))))
      else if i6_nibbles s + 1 > 4 then None
      else if digit c then inet6_loop p (s\<lparr>i6_nibbles := i6_nibbles s + 1, i6_word := i6_word s * 16 + digit_val c\<rparr>)
      else if hexalpha20 c then inet6_loop p (s\<lparr>i6_nibbles := i6_nibbles s + 1, i6_word := i6_word s * 16 + hexalpha_val c\<rparr>)
      else None)"

definition ngx_inet6_addr :: "bytes \<Rightarrow> nat list option" where
  "ngx_inet6_addr p =
     (if p = [] then None
      else
        (case inet6_loop (if hd p = CHR '':'' then tl p else p)
                \<lparr>i6_addr = [], i6_zero = None, i6_digit = None, i6_nibbles = 0, i6_word = 0, i6_n = 8\<rparr> of
           None \<Rightarrow> None
         | Some s \<Rightarrow>
             if i6_nibbles s = 0 \<and> i6_zero s = None then None
             else
               (let s1 = i6_write s; addr = i6_addr s1; n = i6_n s1 in
                case i6_zero s1 of
                  Some z \<Rightarrow> if n \<noteq> 0 then Some (take z addr @ replicate (n * 2) 0 @ drop z addr) else None
                | None \<Rightarrow> if n \<noteq> 0 then None else Some addr)))"

section \<open>Printing addresses\<close>

definition dotted :: "nat list \<Rightarrow> bytes" where
  "dotted p = num_digits (p ! 0) 0 @ ''.'' @ num_digits (p ! 1) 0 @ ''.'' @ num_digits (p ! 2) 0 @ ''.'' @ num_digits (p ! 3) 0"

text \<open>The first loop of \<open>ngx_inet6_ntop\<close>: the longest run of zero words, from word \<open>i\<close> on.\<close>

record zero_run =
  zr_zero :: "nat option"
  zr_last :: nat
  zr_max :: nat
  zr_n :: nat

definition zr_close :: "zero_run \<Rightarrow> zero_run" where
  "zr_close z = (if zr_max z < zr_n z then z\<lparr>zr_zero := Some (zr_last z), zr_max := zr_n z\<rparr> else z)"

definition zr_step :: "nat list \<Rightarrow> nat \<Rightarrow> zero_run \<Rightarrow> zero_run" where
  "zr_step p i z =
     (if p ! i \<noteq> 0 \<or> p ! (i + 1) \<noteq> 0 then (zr_close z)\<lparr>zr_n := 0\<rparr>
      else (if zr_n z = 0 then z\<lparr>zr_last := i, zr_n := 1\<rparr> else z\<lparr>zr_n := zr_n z + 1\<rparr>))"

definition zr_find :: "nat list \<Rightarrow> zero_run" where
  "zr_find p = zr_close (fold (zr_step p) [0, 2, 4, 6, 8, 10, 12, 14] \<lparr>zr_zero = None, zr_last = 0, zr_max = 1, zr_n = 0\<rparr>)"

text \<open>The second loop, up to \<open>n\<close>.\<close>

function ntop_loop :: "nat list \<Rightarrow> nat option \<Rightarrow> nat \<Rightarrow> nat \<Rightarrow> nat \<Rightarrow> bytes" where
  "ntop_loop p zero mx n i =
     (if i < n then
        (if zero = Some i then '':'' @ ntop_loop p zero mx n (i + (mx - 1) * 2 + 2)
         else num_digits (p ! i * 256 + p ! (i + 1)) 1 @ (if i < 14 then '':'' else []) @ ntop_loop p zero mx n (i + 2))
      else [])"
  by pat_completeness auto
termination
  by (relation "measure (\<lambda>(p, zero, mx, n, i). n - i)") auto

declare ntop_loop.simps [simp del]

definition NGX_INET6_ADDRSTRLEN :: nat where
  "NGX_INET6_ADDRSTRLEN = length ''ffff:ffff:ffff:ffff:ffff:ffff:255.255.255.255''"

definition ngx_inet6_ntop :: "nat list \<Rightarrow> nat \<Rightarrow> bytes" where
  "ngx_inet6_ntop p len =
     (if len < NGX_INET6_ADDRSTRLEN then []
      else
        (let z = zr_find p; zero = zr_zero z; mx = zr_max z;
             n = (if zero = Some 0 \<and> (mx = 5 \<and> p ! 10 = 0xff \<and> p ! 11 = 0xff \<or> mx = 6 \<or> mx = 7 \<and> p ! 14 \<noteq> 0 \<and> p ! 15 \<noteq> 1)
                  then 12 else 16) in
         (if zero = Some 0 then '':'' else []) @ ntop_loop p zero mx n 0 @ (if n = 12 then dotted (drop 12 p) else [])))"

text \<open>\<open>ngx_inet_ntop\<close> for \<open>AF_INET\<close>; \<open>ngx_snprintf\<close> cuts the text at \<open>len\<close>.\<close>

definition ngx_inet_ntop :: "nat list \<Rightarrow> nat \<Rightarrow> bytes" where
  "ngx_inet_ntop p len = take len (dotted p)"

section \<open>Address ranges\<close>

datatype cidr =
    Cidr_In (cidr_addr: "nat list") (cidr_mask: "nat list")
  | Cidr_In6 (cidr_addr: "nat list") (cidr_mask: "nat list")
  | Cidr_Unix

definition and_bytes :: "nat list \<Rightarrow> nat list \<Rightarrow> nat list" where
  "and_bytes a m = map (\<lambda>(x, y). x AND y) (zip a m)"

text \<open>The loop over the bytes of an IPv6 mask.\<close>

fun mask6 :: "nat \<Rightarrow> nat \<Rightarrow> nat list" where
  "mask6 0 shift = []"
| "mask6 (Suc k) shift = (let s = (if shift > 8 then 8 else shift) in push_bit (8 - s) 0xff mod 256 # mask6 k (shift - s))"

definition mask4 :: "nat \<Rightarrow> nat list" where
  "mask4 shift = (if shift \<noteq> 0 then htonl (push_bit (32 - shift) 0xffffffff mod 2 ^ 32) else [0, 0, 0, 0])"

text \<open>
  \<open>ngx_ptocidr\<close>: \<open>None\<close> is \<open>NGX_ERROR\<close>, and \<open>NGX_DONE\<close> tells that bits of the address were cut off.
\<close>

definition cidr_masked :: "nat list \<Rightarrow> nat list \<Rightarrow> ngx_int" where
  "cidr_masked addr msk = (if and_bytes addr msk = addr then NGX_OK else NGX_DONE)"

definition ngx_ptocidr :: "bytes \<Rightarrow> (ngx_int \<times> cidr) option" where
  "ngx_ptocidr text =
     (let msk = ngx_strlchr text (CHR ''/'');
          addr = (case msk of None \<Rightarrow> text | Some k \<Rightarrow> take k text);
          a4 = ngx_inet_addr addr;
          shift = (case msk of None \<Rightarrow> 0 | Some k \<Rightarrow> ngx_atoi (drop (Suc k) text)) in
      if a4 \<noteq> INADDR_NONE then
        (if msk = None then Some (NGX_OK, Cidr_In a4 [255, 255, 255, 255])
         else if shift = NGX_ERROR \<or> shift > 32 then None
         else
           (let m = mask4 (nat shift) in Some (cidr_masked a4 m, Cidr_In (and_bytes a4 m) m)))
      else
        (case ngx_inet6_addr addr of
           None \<Rightarrow> None
         | Some a6 \<Rightarrow>
             if msk = None then Some (NGX_OK, Cidr_In6 a6 (replicate 16 255))
             else if shift = NGX_ERROR \<or> shift > 128 then None
             else
               (let m = mask6 16 (nat shift) in Some (cidr_masked a6 m, Cidr_In6 (and_bytes a6 m) m))))"

text \<open>Socket addresses; a port is a number, \<open>htons\<close> and \<open>ntohs\<close> undo each other.\<close>

datatype sockaddr =
    Sin (sin_addr: "nat list") (sin_port: nat)
  | Sin6 (sin_addr: "nat list") (sin_port: nat)
  | Sun (sun_path: bytes)

definition IN6_IS_ADDR_V4MAPPED :: "nat list \<Rightarrow> bool" where
  "IN6_IS_ADDR_V4MAPPED a \<longleftrightarrow> take 12 a = replicate 10 0 @ [255, 255]"

text \<open>\<open>ngx_cidr_match\<close>; a range of unix sockets is written by its users, \<open>ngx_ptocidr\<close> gives none.\<close>

fun cidr_match_one :: "sockaddr \<Rightarrow> cidr \<Rightarrow> bool" where
  "cidr_match_one (Sin a port) (Cidr_In addr msk) \<longleftrightarrow> and_bytes a msk = addr"
| "cidr_match_one (Sin6 a port) (Cidr_In6 addr msk) \<longleftrightarrow> and_bytes a msk = addr"
| "cidr_match_one (Sun path) Cidr_Unix \<longleftrightarrow> True"
| "cidr_match_one sa c \<longleftrightarrow> False"

definition ngx_cidr_match :: "sockaddr \<Rightarrow> cidr list \<Rightarrow> ngx_int" where
  "ngx_cidr_match sa cidrs =
     (let sa' = (case sa of
                   Sin6 a port \<Rightarrow>
                     if IN6_IS_ADDR_V4MAPPED a
                     then Sin (htonl (a ! 12 * 2 ^ 24 + a ! 13 * 2 ^ 16 + a ! 14 * 2 ^ 8 + a ! 15)) port else sa
                 | _ \<Rightarrow> sa) in
      if list_ex (cidr_match_one sa') cidrs then NGX_OK else NGX_DECLINED)"

section \<open>Socket addresses\<close>

text \<open>\<open>ngx_parse_addr\<close> and \<open>ngx_parse_addr_port\<close>: the code and the socket address.\<close>

definition ngx_parse_addr :: "bool \<Rightarrow> bytes \<Rightarrow> ngx_int \<times> sockaddr option" where
  "ngx_parse_addr alloc text =
     (let a4 = ngx_inet_addr text in
      if a4 \<noteq> INADDR_NONE then (if alloc then (NGX_OK, Some (Sin a4 0)) else (NGX_ERROR, None))
      else
        (case ngx_inet6_addr text of
           None \<Rightarrow> (NGX_DECLINED, None)
         | Some a6 \<Rightarrow> if alloc then (NGX_OK, Some (Sin6 a6 0)) else (NGX_ERROR, None)))"

fun ngx_inet_set_port :: "sockaddr \<Rightarrow> nat \<Rightarrow> sockaddr" where
  "ngx_inet_set_port (Sin a p) port = Sin a port"
| "ngx_inet_set_port (Sin6 a p) port = Sin6 a port"
| "ngx_inet_set_port (Sun path) port = Sun path"

fun ngx_inet_get_port :: "sockaddr \<Rightarrow> nat" where
  "ngx_inet_get_port (Sin a port) = port"
| "ngx_inet_get_port (Sin6 a port) = port"
| "ngx_inet_get_port (Sun path) = 0"

text \<open>The offsets of the address and of the colon before the port, with the length the address has left.\<close>

definition ngx_parse_addr_port :: "bool \<Rightarrow> bytes \<Rightarrow> ngx_int \<times> sockaddr option" where
  "ngx_parse_addr_port alloc text =
     (case ngx_parse_addr alloc text of
        (rc, sa) \<Rightarrow>
          if rc \<noteq> NGX_DECLINED then (rc, sa)
          else
            (let found =
               (if text \<noteq> [] \<and> hd text = CHR ''['' then
                  (case ngx_strlchr text (CHR '']'') of
                     None \<Rightarrow> None
                   | Some k \<Rightarrow> if k = length text - 1 \<or> text ! (k + 1) \<noteq> CHR '':'' then None else Some (1, length text - 2, k + 1))
                else
                  (case ngx_strlchr text (CHR '':'') of None \<Rightarrow> None | Some k \<Rightarrow> Some (0, length text, k))) in
             case found of
               None \<Rightarrow> (NGX_DECLINED, None)
             | Some (start, len, colon) \<Rightarrow>
                 (let ptext = drop (colon + 1) text; port = ngx_atoi ptext in
                  if port < 1 \<or> port > 65535 then (NGX_DECLINED, None)
                  else
                    (case ngx_parse_addr alloc (take (len - (length ptext + 1)) (drop start text)) of
                       (rc', None) \<Rightarrow> (rc', None)
                     | (rc', Some sa') \<Rightarrow> if rc' \<noteq> NGX_OK then (rc', None) else (NGX_OK, Some (ngx_inet_set_port sa' (nat port)))))))"

text \<open>\<open>ngx_sock_ntop\<close>, with the port or without; a path ends at its terminator.\<close>

definition ngx_sock_ntop :: "sockaddr \<Rightarrow> nat \<Rightarrow> bool \<Rightarrow> bytes" where
  "ngx_sock_ntop sa len port =
     (case sa of
        Sin p n \<Rightarrow> take len (dotted p @ (if port then '':'' @ num_digits n 0 else []))
      | Sin6 p n \<Rightarrow> if port then ''['' @ ngx_inet6_ntop p len @ '']:'' @ num_digits n 0 else ngx_inet6_ntop p len
      | Sun path \<Rightarrow>
          (let t = take len (''unix:'' @ takeWhile (\<lambda>c. c \<noteq> NUL) path @ [NUL]) in take (length t - 1) t))"

fun ngx_cmp_sockaddr :: "sockaddr \<Rightarrow> sockaddr \<Rightarrow> bool \<Rightarrow> ngx_int" where
  "ngx_cmp_sockaddr (Sin a p) (Sin b q) cmp_port = (if cmp_port \<and> p \<noteq> q \<or> a \<noteq> b then NGX_DECLINED else NGX_OK)"
| "ngx_cmp_sockaddr (Sin6 a p) (Sin6 b q) cmp_port = (if cmp_port \<and> p \<noteq> q \<or> a \<noteq> b then NGX_DECLINED else NGX_OK)"
| "ngx_cmp_sockaddr (Sun a) (Sun b) cmp_port =
     (let len = min (min (length a) (length b)) 108 in if take len a \<noteq> take len b then NGX_DECLINED else NGX_OK)"
| "ngx_cmp_sockaddr sa1 sa2 cmp_port = NGX_DECLINED"

section \<open>IPv4 addresses are read back\<close>

abbreviation byte_list :: "nat list \<Rightarrow> bool" where
  "byte_list \<equiv> list_all (\<lambda>x. x < 256)"

lemma list_all_take: "list_all P xs \<Longrightarrow> list_all P (take k xs)"
  and list_all_drop: "list_all P xs \<Longrightarrow> list_all P (drop k xs)"
  by (auto simp: list_all_iff dest: in_set_takeD in_set_dropD)

lemma list_all_replicate: "list_all P (replicate n x) \<longleftrightarrow> n = 0 \<or> P x"
  by (induction n) auto

lemma inet_addr_digits:
  assumes "list_all digit ds" "dec_from (int oc) ds \<le> 255"
  shows "inet_addr_loop (ds @ t) a oc n = inet_addr_loop t a (nat (dec_from (int oc) ds)) n"
  using assms
proof (induction ds arbitrary: oc)
  case (Cons d ds)
  let ?o = "oc * 10 + digit_val d"
  have eq: "dec_from (int oc) (d # ds) = dec_from (int ?o) ds" by simp
  then have "int ?o \<le> dec_from (int oc) (d # ds)" using dec_from_ge [of "int ?o" ds] unfolding eq by simp
  then have "?o \<le> 255" using Cons.prems(2) by linarith
  moreover have "inet_addr_loop (ds @ t) a ?o n = inet_addr_loop t a (nat (dec_from (int ?o) ds)) n"
    using Cons.IH [of ?o] Cons.prems unfolding eq by simp
  ultimately show ?case using Cons.prems(1) unfolding eq by (simp add: Let_def)
qed simp

lemma inet_addr_octet: "x < 256 \<Longrightarrow> inet_addr_loop (num_digits x 0 @ t) a 0 n = inet_addr_loop t a x n"
  using inet_addr_digits [of "num_dec x []" 0 t a n] num_dec_value [of x] by (simp add: num_digits_dec)

lemma four_bytes: "length p = 4 \<Longrightarrow> \<exists>a b c d. p = [a, b, c, d]"
  by (auto simp: numeral_eq_Suc length_Suc_conv)

lemma htonl_ntohl:
  assumes "length p = 4" "byte_list p"
  shows "htonl (ntohl p) = p" "ntohl p < 2 ^ 32"
proof -
  obtain a b c d where p: "p = [a, b, c, d]" using four_bytes assms(1) by blast
  then have b: "a < 256" "b < 256" "c < 256" "d < 256" using assms(2) by simp_all
  have "(a * 16777216 + b * 65536 + c * 256 + d) div 16777216 = a" "(a * 16777216 + b * 65536 + c * 256 + d) div 65536 = a * 256 + b"
    "(a * 16777216 + b * 65536 + c * 256 + d) div 256 = a * 65536 + b * 256 + c" using b by simp_all
  moreover have "(a * 65536 + b * 256 + c) mod 256 = c" "(a * 16777216 + b * 65536 + c * 256 + d) mod 256 = d"
    using b mod_mult_self3 [of "a * 256 + b" 256 c] mod_mult_self3 [of "a * 65536 + b * 256 + c" 256 d] by (simp_all add: algebra_simps)
  ultimately show "htonl (ntohl p) = p" using b by (simp add: htonl_def ntohl_def p)
  show "ntohl p < 2 ^ 32" using b by (simp add: ntohl_def p)
qed

lemma inet_addr_dotted:
  assumes "length p = 4" "byte_list p"
  shows "ngx_inet_addr (dotted p) = p"
proof -
  obtain a b c d where p: "p = [a, b, c, d]" using four_bytes assms(1) by blast
  then have b: "a < 256" "b < 256" "c < 256" "d < 256" using assms(2) by simp_all
  have dot: "inet_addr_loop (''.'' @ t) x y n = inet_addr_loop t ((x * 256 + y) mod 2 ^ 32) 0 (Suc n)" for t x y n
    by (simp add: digit_def less_eq_char_def)
  have "dotted p = num_digits a 0 @ ''.'' @ num_digits b 0 @ ''.'' @ num_digits c 0 @ ''.'' @ num_digits d 0 @ []"
    by (simp add: dotted_def p)
  then have "ngx_inet_addr (dotted p) = inet_addr_loop [] ((((0 * 256 + a) mod 2 ^ 32 * 256 + b) mod 2 ^ 32 * 256 + c) mod 2 ^ 32) d (Suc (Suc (Suc 0)))"
    by (simp only: ngx_inet_addr_def inet_addr_octet [OF b(1)] inet_addr_octet [OF b(2)] inet_addr_octet [OF b(3)] inet_addr_octet [OF b(4)] dot)
  also have "\<dots> = htonl (((a * 256 + b) * 256 + c) * 256 + d)"
  proof -
    have "a mod 2 ^ 32 = a" "(a * 256 + b) mod 2 ^ 32 = a * 256 + b" "((a * 256 + b) * 256 + c) mod 2 ^ 32 = (a * 256 + b) * 256 + c"
      "(((a * 256 + b) * 256 + c) * 256 + d) mod 2 ^ 32 = ((a * 256 + b) * 256 + c) * 256 + d" using b by simp_all
    then show ?thesis by (simp only: inet_addr_loop.simps mult_0 add_0) simp
  qed
  also have "((a * 256 + b) * 256 + c) * 256 + d = ntohl p" by (simp add: ntohl_def p)
  finally show ?thesis using htonl_ntohl [OF assms] by simp
qed

section \<open>IPv6 addresses are read back\<close>

abbreviation hexit :: "char \<Rightarrow> bool" where
  "hexit c \<equiv> digit c \<or> hexalpha20 c"

abbreviation hex_value :: "nat \<Rightarrow> bytes \<Rightarrow> nat" where
  "hex_value \<equiv> foldl (\<lambda>v c. v * 16 + hexit_val c)"

lemma num_hex_step: "num_hex tab n p = (if n div 16 = 0 then [] else num_hex tab (n div 16) []) @ tab ! (n mod 16) # p"
proof (induction n arbitrary: p rule: less_induct)
  case (less n)
  have bits: "n AND 15 = n mod 16" "drop_bit 4 n = n div 16"
    using take_bit_eq_mask [of 4 n] by (simp_all add: take_bit_eq_mod mask_eq_exp_minus_1 drop_bit_eq_div)
  show ?case
  proof (cases "n div 16 = 0")
    case True
    then show ?thesis by (subst num_hex.simps) (simp add: bits)
  next
    case False
    then have "n div 16 < n" by simp
    then show ?thesis
      using less.IH [of "n div 16" "tab ! (n mod 16) # p"] less.IH [of "n div 16" "[]"] False
      by (subst num_hex.simps) (simp add: bits Let_def)
  qed
qed

abbreviation hexs :: "nat \<Rightarrow> bytes" where
  "hexs n \<equiv> num_hex ''0123456789abcdef'' n []"

lemma num_digits_hex1 [simp]: "num_digits n (Suc 0) = hexs n"
  by (simp add: num_digits_def)

lemma num_hex_value:
  "list_all hexit (hexs n) \<and> hexs n \<noteq> [] \<and> hex_value 0 (hexs n) = n"
proof (induction n rule: less_induct)
  case (less n)
  have h: "hexs n = (if n div 16 = 0 then [] else hexs (n div 16)) @ [''0123456789abcdef'' ! (n mod 16)]"
    using num_hex_step [of "''0123456789abcdef''" n "[]"] by simp
  have d: "hexit (''0123456789abcdef'' ! (n mod 16))" "hexit_val (''0123456789abcdef'' ! (n mod 16)) = n mod 16"
    using hexit_lower [of "n mod 16"] by simp_all
  show ?case
  proof (cases "n div 16 = 0")
    case True
    then have "n mod 16 = n" by (simp add: div_eq_0_iff)
    then show ?thesis using True d by (simp add: h)
  next
    case False
    then have "n div 16 < n" by simp
    then show ?thesis using less.IH [of "n div 16"] d False by (simp add: h)
  qed
qed

lemma num_hex_length: "n < 16 ^ k \<Longrightarrow> 0 < k \<Longrightarrow> length (hexs n) \<le> k"
proof (induction k arbitrary: n)
  case (Suc k)
  have h: "hexs n = (if n div 16 = 0 then [] else hexs (n div 16)) @ [''0123456789abcdef'' ! (n mod 16)]"
    using num_hex_step [of "''0123456789abcdef''" n "[]"] by simp
  show ?case
  proof (cases "n div 16 = 0")
    case False
    then have "0 < k" using Suc.prems by (cases k) auto
    moreover have "n div 16 < 16 ^ k" using Suc.prems by (intro less_mult_imp_div_less) (simp add: mult.commute)
    ultimately show ?thesis using Suc.IH [of "n div 16"] False by (simp add: h)
  qed (simp add: h)
qed simp

lemma hexit_not_sep: "hexit c \<Longrightarrow> c \<noteq> CHR '':'' \<and> c \<noteq> CHR ''.''"
  by (auto simp: digit_def hexalpha20_iff less_eq_char_def)

text \<open>A run of hexadecimal digits.\<close>

lemma inet6_hex:
  assumes "list_all hexit hs" "i6_nibbles s + length hs \<le> 4"
  shows "inet6_loop (hs @ t) s = inet6_loop t (s\<lparr>i6_nibbles := i6_nibbles s + length hs, i6_word := hex_value (i6_word s) hs\<rparr>)"
  using assms
proof (induction hs arbitrary: s)
  case (Cons c hs)
  have c: "c \<noteq> CHR '':''" "c \<noteq> CHR ''.''" "hexit c" using hexit_not_sep Cons.prems(1) by auto
  let ?s = "s\<lparr>i6_nibbles := i6_nibbles s + 1, i6_word := i6_word s * 16 + hexit_val c\<rparr>"
  have "inet6_loop ((c # hs) @ t) s = inet6_loop (hs @ t) ?s"
    using c Cons.prems(2) by (auto simp: hexit_val_def)
  then show ?case using Cons.IH [of ?s] Cons.prems by simp
qed simp

text \<open>A word with the colon behind it, and a list of them.\<close>

definition word_bytes :: "nat \<Rightarrow> nat list" where
  "word_bytes w = [w div 256, w mod 256]"

lemma inet6_word:
  assumes "w < 65536" "i6_nibbles s = 0" "i6_word s = 0"
  obtains k where "0 < k" "inet6_loop (hexs w @ t) s = inet6_loop t (s\<lparr>i6_nibbles := k, i6_word := w\<rparr>)"
proof -
  note v = num_hex_value [of w]
  have "length (hexs w) \<le> 4" using num_hex_length [of w 4] assms(1) by simp
  then have "inet6_loop (hexs w @ t) s = inet6_loop t (s\<lparr>i6_nibbles := length (hexs w), i6_word := w\<rparr>)"
    using inet6_hex [of "hexs w" s t] v assms(2,3) by simp
  moreover have "0 < length (hexs w)" using v by simp
  ultimately show ?thesis using that by blast
qed

lemma inet6_words:
  assumes "list_all (\<lambda>w. w < 65536) ws" "i6_nibbles s = 0" "i6_word s = 0" "length ws < i6_n s"
  shows "\<exists>dig. (ws \<noteq> [] \<longrightarrow> dig = Some t) \<and> (ws = [] \<longrightarrow> dig = i6_digit s) \<and>
    inet6_loop (concat (map (\<lambda>w. hexs w @ '':'') ws) @ t) s =
    inet6_loop t (s\<lparr>i6_addr := i6_addr s @ concat (map word_bytes ws), i6_n := i6_n s - length ws, i6_digit := dig\<rparr>)"
  using assms
proof (induction ws arbitrary: s)
  case Nil
  then show ?case by simp
next
  case (Cons w ws)
  let ?t = "concat (map (\<lambda>w. hexs w @ '':'') ws) @ t"
  let ?s = "s\<lparr>i6_addr := i6_addr s @ word_bytes w, i6_n := i6_n s - 1, i6_digit := Some ?t\<rparr>"
  obtain k where k: "0 < k" "inet6_loop (hexs w @ '':'' @ ?t) s = inet6_loop ('':'' @ ?t) (s\<lparr>i6_nibbles := k, i6_word := w\<rparr>)"
    using inet6_word [of w s "'':'' @ ?t"] Cons.prems by auto
  have "w div 256 < 256" using Cons.prems(1) by auto
  then have "inet6_loop ('':'' @ ?t) (s\<lparr>i6_nibbles := k, i6_word := w\<rparr>) = inet6_loop ?t ?s"
    using k(1) Cons.prems by (cases s) (simp add: i6_write_def Let_def word_bytes_def)
  moreover have prem: "list_all (\<lambda>w. w < 65536) ws" "i6_nibbles ?s = 0" "i6_word ?s = 0" "length ws < i6_n ?s" using Cons.prems by auto
  obtain dig where "(ws \<noteq> [] \<longrightarrow> dig = Some t) \<and> (ws = [] \<longrightarrow> dig = i6_digit ?s)"
    "inet6_loop ?t ?s = inet6_loop t (?s\<lparr>i6_addr := i6_addr ?s @ concat (map word_bytes ws), i6_n := i6_n ?s - length ws, i6_digit := dig\<rparr>)"
    using Cons.IH [OF prem] by blast
  ultimately show ?case using k(2) by (intro exI [of _ dig]) auto
qed

text \<open>What the text of an address without and with a double colon is read as.\<close>

definition i6_init :: inet6_state where
  "i6_init = \<lparr>i6_addr = [], i6_zero = None, i6_digit = None, i6_nibbles = 0, i6_word = 0, i6_n = 8\<rparr>"

definition i6_finish :: "inet6_state \<Rightarrow> nat list option" where
  "i6_finish s =
     (if i6_nibbles s = 0 \<and> i6_zero s = None then None
      else
        (let s1 = i6_write s; addr = i6_addr s1; n = i6_n s1 in
         case i6_zero s1 of
           Some z \<Rightarrow> if n \<noteq> 0 then Some (take z addr @ replicate (n * 2) 0 @ drop z addr) else None
         | None \<Rightarrow> if n \<noteq> 0 then None else Some addr))"

lemma inet6_addr_finish:
  "ngx_inet6_addr p = (if p = [] then None else Option.bind (inet6_loop (if hd p = CHR '':'' then tl p else p) i6_init) i6_finish)"
  by (simp add: ngx_inet6_addr_def i6_init_def i6_finish_def Let_def bind_eq_None_conv split: option.splits)

text \<open>The words behind a double colon, and those of an address without one.\<close>

definition colons :: "nat list \<Rightarrow> bytes" where
  "colons ws = concat (map (\<lambda>w. hexs w @ '':'') ws)"

definition tail_words :: "nat list \<Rightarrow> bytes" where
  "tail_words ws = (if ws = [] then [] else colons (butlast ws) @ hexs (last ws))"

lemma inet6_tail_words:
  assumes "list_all (\<lambda>w. w < 65536) ws" "i6_nibbles s = 0" "i6_word s = 0" "length ws \<le> i6_n s" "ws \<noteq> []"
  shows "\<exists>dig k. 0 < k \<and> inet6_loop (tail_words ws) s =
    Some (s\<lparr>i6_addr := i6_addr s @ concat (map word_bytes (butlast ws)), i6_n := i6_n s - (length ws - 1), i6_digit := dig,
            i6_nibbles := k, i6_word := last ws\<rparr>)"
proof -
  have "list_all (\<lambda>w. w < 65536) (butlast ws)" "last ws < 65536" "length (butlast ws) < i6_n s"
    using assms(1,4) length_greater_0_conv [of ws] assms(5) by (auto simp: list_all_iff dest: in_set_butlastD simp del: length_greater_0_conv)
  then obtain dig where d: "inet6_loop (colons (butlast ws) @ hexs (last ws)) s =
      inet6_loop (hexs (last ws)) (s\<lparr>i6_addr := i6_addr s @ concat (map word_bytes (butlast ws)), i6_n := i6_n s - length (butlast ws), i6_digit := dig\<rparr>)"
    using inet6_words [of "butlast ws" s "hexs (last ws)"] assms(2,3) unfolding colons_def by blast
  let ?s = "s\<lparr>i6_addr := i6_addr s @ concat (map word_bytes (butlast ws)), i6_n := i6_n s - length (butlast ws), i6_digit := dig\<rparr>"
  obtain k where "0 < k" "inet6_loop (hexs (last ws) @ []) ?s = inet6_loop [] (?s\<lparr>i6_nibbles := k, i6_word := last ws\<rparr>)"
    using inet6_word [of "last ws" ?s "[]"] \<open>last ws < 65536\<close> assms(2,3) by auto
  then show ?thesis using d assms(5) by (intro exI [of _ dig] exI [of _ k]) (simp add: tail_words_def)
qed

lemma word_bytes_last:
  assumes "ws \<noteq> []" "list_all (\<lambda>w. w < 65536) ws"
  shows "concat (map word_bytes (butlast ws)) @ [last ws div 256 mod 256, last ws mod 256] = concat (map word_bytes ws)"
proof -
  have "last ws < 65536" using assms by (simp add: list_all_iff)
  then have "last ws div 256 < 256" by simp
  then show ?thesis using assms(1) by (subst (3) append_butlast_last_id [OF assms(1), symmetric]) (simp add: word_bytes_def del: append_butlast_last_id)
qed

lemma length_words [simp]: "length (concat (map word_bytes ws)) = 2 * length ws"
  by (induction ws) (simp_all add: word_bytes_def)

lemma hexs_hd: "\<exists>c cs. hexs w = c # cs \<and> c \<noteq> CHR '':''"
  using num_hex_value [of w] hexit_not_sep by (cases "hexs w") auto

lemma read_plain:
  assumes "length ws = 8" "list_all (\<lambda>w. w < 65536) ws"
  shows "ngx_inet6_addr (tail_words ws) = Some (concat (map word_bytes ws))"
proof -
  have ws: "ws \<noteq> []" using assms(1) by auto
  obtain w ws' where "ws = w # ws'" using ws by (cases ws) auto
  then have "\<exists>c t. tail_words ws = c # t \<and> c \<noteq> CHR '':''" using hexs_hd [of w] by (auto simp: tail_words_def colons_def)
  then have hd: "tail_words ws \<noteq> []" "hd (tail_words ws) \<noteq> CHR '':''" by auto
  obtain dig k where "0 < k" "inet6_loop (tail_words ws) i6_init =
      Some (i6_init\<lparr>i6_addr := i6_addr i6_init @ concat (map word_bytes (butlast ws)), i6_n := i6_n i6_init - (length ws - 1), i6_digit := dig,
            i6_nibbles := k, i6_word := last ws\<rparr>)"
    using inet6_tail_words [OF assms(2), of i6_init] assms(1) ws unfolding i6_init_def by force
  then show ?thesis
    using hd assms word_bytes_last [OF ws assms(2)] by (simp add: inet6_addr_finish i6_finish_def i6_write_def i6_init_def)
qed

text \<open>Up to the double colon.\<close>

definition before_zero :: "nat list \<Rightarrow> bytes" where
  "before_zero hs = (if hs = [] then '':'' else colons hs) @ '':''"

lemma read_before_zero:
  assumes "list_all (\<lambda>w. w < 65536) hs" "length hs < 8"
  shows "ngx_inet6_addr (before_zero hs @ t) = Option.bind
    (inet6_loop t \<lparr>i6_addr = concat (map word_bytes hs), i6_zero = Some (2 * length hs), i6_digit = Some t, i6_nibbles = 0, i6_word = 0, i6_n = 8 - length hs\<rparr>) i6_finish"
proof (cases "hs = []")
  case True
  then show ?thesis by (simp add: inet6_addr_finish before_zero_def i6_init_def)
next
  case False
  then obtain w hs' where "hs = w # hs'" by (cases hs) auto
  then have "\<exists>c u. before_zero hs @ t = c # u \<and> c \<noteq> CHR '':''" using hexs_hd [of w] by (auto simp: before_zero_def colons_def)
  then have hd: "before_zero hs @ t \<noteq> []" "hd (before_zero hs @ t) \<noteq> CHR '':''" by auto
  obtain dig where "inet6_loop (colons hs @ '':'' @ t) i6_init =
      inet6_loop ('':'' @ t) (i6_init\<lparr>i6_addr := i6_addr i6_init @ concat (map word_bytes hs), i6_n := i6_n i6_init - length hs, i6_digit := dig\<rparr>)"
    using inet6_words [OF assms(1), of i6_init "'':'' @ t"] assms(2) unfolding colons_def by (auto simp: i6_init_def)
  then show ?thesis using hd False by (simp add: inet6_addr_finish before_zero_def i6_init_def)
qed

lemma read_zero:
  assumes "list_all (\<lambda>w. w < 65536) (hs @ ts)" "length hs + length ts < 7"
  shows "ngx_inet6_addr (before_zero hs @ tail_words ts) =
    Some (concat (map word_bytes hs) @ replicate (2 * (8 - length hs - length ts)) 0 @ concat (map word_bytes ts))"
proof (cases "ts = []")
  case True
  have "replicate ((8 - length hs) * 2) (0 :: nat) = replicate ((8 - length hs - 1) * 2) 0 @ [0, 0]"
  proof -
    obtain k where "8 - length hs = Suc k" using assms(2) by (cases "8 - length hs") auto
    then have "(8 - length hs) * 2 = (8 - length hs - 1) * 2 + 2" by simp
    then show ?thesis by (simp only: replicate_add) (simp add: numeral_2_eq_2)
  qed
  then show ?thesis
    using read_before_zero [of hs "[]"] assms True by (simp add: tail_words_def i6_finish_def i6_write_def Let_def mult.commute)
next
  case False
  let ?s = "\<lparr>i6_addr = concat (map word_bytes hs), i6_zero = Some (2 * length hs), i6_digit = Some (tail_words ts), i6_nibbles = 0, i6_word = 0, i6_n = 8 - length hs\<rparr>"
  have ts: "list_all (\<lambda>w. w < 65536) ts" using assms(1) by simp
  obtain dig k where "0 < k" "inet6_loop (tail_words ts) ?s =
      Some (?s\<lparr>i6_addr := i6_addr ?s @ concat (map word_bytes (butlast ts)), i6_n := i6_n ?s - (length ts - 1), i6_digit := dig,
            i6_nibbles := k, i6_word := last ts\<rparr>)"
    using inet6_tail_words [OF ts, of ?s] assms(2) False by force
  moreover have "8 - length hs - (length ts - 1) - 1 = 8 - length hs - length ts" using False by (cases ts) auto
  ultimately show ?thesis
    using read_before_zero [of hs "tail_words ts"] assms word_bytes_last [OF False ts] False
    by (simp add: i6_finish_def i6_write_def Let_def mult.commute)
qed

lemma read_dotted:
  assumes "list_all (\<lambda>w. w < 65536) ms" "length ms < 6" "length q = 4" "byte_list q"
  shows "ngx_inet6_addr (before_zero [] @ colons ms @ dotted q) =
    (if q = INADDR_NONE then None else Some (replicate (2 * (6 - length ms)) 0 @ concat (map word_bytes ms) @ q))"
proof -
  obtain a b c d where q: "q = [a, b, c, d]" using four_bytes assms(3) by blast
  then have b: "a < 256" "b < 256" "c < 256" "d < 256" using assms(4) by simp_all
  let ?s = "\<lparr>i6_addr = [], i6_zero = Some 0, i6_digit = Some (colons ms @ dotted q), i6_nibbles = 0, i6_word = 0, i6_n = 8\<rparr>"
  obtain dig where dig: "(ms \<noteq> [] \<longrightarrow> dig = Some (dotted q)) \<and> (ms = [] \<longrightarrow> dig = i6_digit ?s)"
    "inet6_loop (colons ms @ dotted q) ?s =
      inet6_loop (dotted q) (?s\<lparr>i6_addr := i6_addr ?s @ concat (map word_bytes ms), i6_n := i6_n ?s - length ms, i6_digit := dig\<rparr>)"
    using inet6_words [OF assms(1), of ?s "dotted q"] assms(2) unfolding colons_def by force
  then have "dig = Some (dotted q)" by (cases "ms = []") (auto simp: colons_def)
  note loop = dig(2) [unfolded this]
  let ?t = "\<lparr>i6_addr = concat (map word_bytes ms), i6_zero = Some 0, i6_digit = Some (dotted q), i6_nibbles = 0, i6_word = 0, i6_n = 8 - length ms\<rparr>"
  define ds where "ds = num_digits a 0"
  have ds: "list_all digit ds" "ds \<noteq> []" "length ds \<le> 3"
    using num_dec_value [of a] num_dec_length [of a 3] b(1) by (simp_all add: ds_def num_digits_dec)
  obtain u where u: "dotted q = ds @ ''.'' @ u" by (simp add: dotted_def q ds_def)
  have "list_all hexit ds" using ds(1) by (simp add: list_all_iff)
  then have "inet6_loop (dotted q) ?t = inet6_loop (''.'' @ u) (?t\<lparr>i6_nibbles := length ds, i6_word := hex_value 0 ds\<rparr>)"
    using inet6_hex [of ds ?t "''.'' @ u"] ds(3) by (simp add: u)
  also have "\<dots> = (if q = INADDR_NONE then None
      else Some (?t\<lparr>i6_nibbles := length ds, i6_word := ntohl q, i6_addr := concat (map word_bytes ms) @ take 2 q, i6_n := 7 - length ms\<rparr>))"
  proof -
    have "ntohl q div 2 ^ 24 mod 256 = a" "ntohl q div 2 ^ 16 mod 256 = b" "take 2 q = [a, b]"
      using htonl_ntohl(1) [OF assms(3,4)] unfolding htonl_def by (simp_all add: q)
    moreover have "\<not> 8 - length ms < 2" using assms(2) by simp
    ultimately show ?thesis using ds(2) inet_addr_dotted [OF assms(3,4)] by (simp add: Let_def)
  qed
  finally have fin: "inet6_loop (colons ms @ dotted q) ?s = (if q = INADDR_NONE then None
      else Some (?t\<lparr>i6_nibbles := length ds, i6_word := ntohl q, i6_addr := concat (map word_bytes ms) @ take 2 q, i6_n := 7 - length ms\<rparr>))"
    using loop by simp
  have "ntohl q div 256 mod 256 = c" "ntohl q mod 256 = d" using htonl_ntohl [OF assms(3,4)] by (simp_all add: q htonl_def)
  then show ?thesis
    using read_before_zero [of "[]" "colons ms @ dotted q"] fin assms(2) by (simp add: i6_finish_def i6_write_def Let_def q mult.commute)
qed

text \<open>The words of an address.\<close>

definition words :: "nat list \<Rightarrow> nat list" where
  "words p = map (\<lambda>j. p ! (2 * j) * 256 + p ! (2 * j + 1)) [0..<8]"

lemma length_words8 [simp]: "length (words p) = 8"
  by (simp add: words_def)

lemma words_nth: "j < 8 \<Longrightarrow> words p ! j = p ! (2 * j) * 256 + p ! (2 * j + 1)"
  by (simp add: words_def del: upt_Suc)

lemma words_small:
  assumes "length p = 16" "byte_list p"
  shows "list_all (\<lambda>w. w < 65536) (words p)"
proof -
  have "p ! (2 * j) * 256 + p ! (2 * j + 1) < 65536" if "j < 8" for j
  proof -
    have "p ! (2 * j) < 256" "p ! (2 * j + 1) < 256" using assms that by (auto simp: list_all_length)
    then show ?thesis by linarith
  qed
  then show ?thesis by (auto simp: words_def list_all_iff simp del: upt_Suc)
qed

lemma pairs_take: "2 * k \<le> length p \<Longrightarrow> concat (map (\<lambda>j. [p ! (2 * j), p ! (2 * j + 1)]) [0..<k]) = take (2 * k) p"
proof (induction k)
  case (Suc k)
  then have "take (2 * Suc k) p = take (2 * k) p @ [p ! (2 * k), p ! (2 * k + 1)]"
    by (simp add: take_Suc_conv_app_nth)
  then show ?case using Suc by simp
qed simp

lemma words_bytes:
  assumes "length p = 16" "byte_list p"
  shows "concat (map word_bytes (words p)) = p"
proof -
  have "word_bytes (p ! (2 * j) * 256 + p ! (2 * j + 1)) = [p ! (2 * j), p ! (2 * j + 1)]" if "j < 8" for j
    using assms that by (auto simp: list_all_length word_bytes_def)
  then have "map word_bytes (words p) = map (\<lambda>j. [p ! (2 * j), p ! (2 * j + 1)]) [0..<8]" by (simp add: words_def del: upt_Suc)
  then show ?thesis using pairs_take [of 8 p] assms(1) by simp
qed

text \<open>The loop without a run of zeros ahead, and with one.\<close>

lemma tail_words_Cons: "tail_words (w # ws) = (if ws = [] then hexs w else hexs w @ '':'' @ tail_words ws)"
  by (simp add: tail_words_def colons_def)

lemma drop_words: "j < 8 \<Longrightarrow> drop j (words p) = (p ! (2 * j) * 256 + p ! (2 * j + 1)) # drop (Suc j) (words p)"
  by (simp add: Cons_nth_drop_Suc [symmetric] words_nth)

lemma ntop_tail:
  assumes "j \<le> 8" "\<And>k. zero = Some k \<Longrightarrow> k < 2 * j"
  shows "ntop_loop p zero mx 16 (2 * j) = tail_words (drop j (words p))"
  using assms
proof (induction "8 - j" arbitrary: j)
  case 0
  then show ?case by (simp add: ntop_loop.simps tail_words_def)
next
  case (Suc n)
  then have j: "j < 8" "zero \<noteq> Some (2 * j)" by auto
  have "ntop_loop p zero mx 16 (2 * Suc j) = tail_words (drop (Suc j) (words p))"
    using Suc.hyps(1) [of "Suc j"] Suc.hyps(2) Suc.prems(2) j(1) by fastforce
  then have "ntop_loop p zero mx 16 (2 * j + 2) = tail_words (drop (Suc j) (words p))" by simp
  moreover have "2 * j < 14 \<longleftrightarrow> drop (Suc j) (words p) \<noteq> []" using j(1) by auto
  ultimately show ?case
    using j ntop_loop.simps [of p zero mx 16 "2 * j"] by (auto simp: drop_words [OF j(1)] tail_words_Cons) (simp add: tail_words_def)
qed

lemma ntop_zero:
  assumes "j \<le> k" "k + mx \<le> 8" "0 < mx" "2 * k < n"
  shows "ntop_loop p (Some (2 * k)) mx n (2 * j) =
    colons (take (k - j) (drop j (words p))) @ '':'' @ ntop_loop p (Some (2 * k)) mx n (2 * (k + mx))"
  using assms
proof (induction "k - j" arbitrary: j)
  case 0
  then have j: "j = k" and eq: "2 * k + (mx - 1) * 2 + 2 = 2 * (k + mx)" by auto
  have "ntop_loop p (Some (2 * k)) mx n (2 * k) = '':'' @ ntop_loop p (Some (2 * k)) mx n (2 * (k + mx))"
    using ntop_loop.simps [of p "Some (2 * k)" mx n "2 * k"] 0 unfolding eq by simp
  then show ?case by (simp add: j colons_def)
next
  case (Suc d)
  then have j: "j < 8" "j < k" "k - j = Suc (k - Suc j)" by auto
  have IH: "ntop_loop p (Some (2 * k)) mx n (2 * Suc j) =
      colons (take (k - Suc j) (drop (Suc j) (words p))) @ '':'' @ ntop_loop p (Some (2 * k)) mx n (2 * (k + mx))"
    using Suc.hyps(1) [of "Suc j"] Suc.hyps(2) Suc.prems j by auto
  have "2 * j < n" "2 * j < 14" using j Suc.prems by auto
  then show ?case
    using IH j by (subst ntop_loop.simps) (simp add: drop_words [OF j(1)] colons_def)
qed

text \<open>What the search of the runs has found after \<open>j\<close> words.\<close>

definition zero_words :: "nat list \<Rightarrow> nat \<Rightarrow> nat \<Rightarrow> bool" where
  "zero_words p k m \<longleftrightarrow> (\<forall>i. k \<le> i \<longrightarrow> i < k + m \<longrightarrow> p ! (2 * i) = 0 \<and> p ! (2 * i + 1) = 0)"

definition run_found :: "nat list \<Rightarrow> nat \<Rightarrow> zero_run \<Rightarrow> bool" where
  "run_found p j z \<longleftrightarrow> (zr_zero z = None \<and> zr_max z = 1 \<or> (\<exists>k. zr_zero z = Some (2 * k) \<and> 2 \<le> zr_max z \<and> k + zr_max z \<le> j \<and> zero_words p k (zr_max z)))"

definition run_inv :: "nat list \<Rightarrow> nat \<Rightarrow> zero_run \<Rightarrow> bool" where
  "run_inv p j z \<longleftrightarrow> run_found p j z \<and> (zr_n z = 0 \<or> (\<exists>k. zr_last z = 2 * k \<and> k + zr_n z = j \<and> zero_words p k (zr_n z)))"

lemma run_close: "run_inv p j z \<Longrightarrow> run_found p j (zr_close z) \<and> zr_n (zr_close z) = zr_n z \<and> zr_last (zr_close z) = zr_last z"
  by (auto simp: run_inv_def run_found_def zr_close_def)

lemma run_found_mono: "run_found p j z \<Longrightarrow> run_found p (Suc j) z"
  by (auto simp: run_found_def)

lemma run_step:
  assumes "run_inv p j z"
  shows "run_inv p (Suc j) (zr_step p (2 * j) z)"
proof (cases "p ! (2 * j) \<noteq> 0 \<or> p ! (2 * j + 1) \<noteq> 0")
  case True
  then have "zr_step p (2 * j) z = (zr_close z)\<lparr>zr_n := 0\<rparr>" by (simp add: zr_step_def)
  then show ?thesis using run_found_mono [of p j "zr_close z"] run_close [OF assms] by (auto simp: run_inv_def run_found_def)
next
  case False
  show ?thesis
  proof (cases "zr_n z = 0")
    case True
    then have "zr_step p (2 * j) z = z\<lparr>zr_last := 2 * j, zr_n := 1\<rparr>" using False by (simp add: zr_step_def)
    then show ?thesis using False assms run_found_mono [of p j z] by (auto simp: run_inv_def run_found_def zero_words_def less_Suc_eq)
  next
    case pos: False
    then obtain k where k: "zr_last z = 2 * k" "k + zr_n z = j" "zero_words p k (zr_n z)" using assms by (auto simp: run_inv_def)
    have "zr_step p (2 * j) z = z\<lparr>zr_n := zr_n z + 1\<rparr>" using False pos by (simp add: zr_step_def)
    moreover have "zero_words p k (zr_n z + 1)"
      unfolding zero_words_def
    proof (intro allI impI)
      fix i assume i: "k \<le> i" "i < k + (zr_n z + 1)"
      show "p ! (2 * i) = 0 \<and> p ! (2 * i + 1) = 0"
        using i k(2,3) False by (cases "i = j") (auto simp: zero_words_def)
    qed
    ultimately show ?thesis using assms k run_found_mono [of p j z] by (auto simp: run_inv_def run_found_def)
  qed
qed

lemma zr_find_run:
  obtains "zr_zero (zr_find p) = None"
  | k where "zr_zero (zr_find p) = Some (2 * k)" "2 \<le> zr_max (zr_find p)" "k + zr_max (zr_find p) \<le> 8" "zero_words p k (zr_max (zr_find p))"
proof -
  let ?z = "\<lparr>zr_zero = None, zr_last = 0, zr_max = 1, zr_n = 0\<rparr>"
  have "run_inv p k (fold (zr_step p) (map (\<lambda>j. 2 * j) [0..<k]) ?z)" for k
  proof (induction k)
    case 0
    show ?case by (simp add: run_inv_def run_found_def)
  next
    case (Suc k)
    then show ?case using run_step by simp
  qed
  from this [of 8] have "run_inv p 8 (fold (zr_step p) [0, 2, 4, 6, 8, 10, 12, 14] ?z)" by (simp add: upt_rec)
  then have "run_found p 8 (zr_find p)" using run_close unfolding zr_find_def by blast
  then show ?thesis using that by (auto simp: run_found_def)
qed

text \<open>The text \<open>ngx_inet6_ntop\<close> writes, in one of three forms.\<close>

lemma replicate_words: "zero_words p k m \<Longrightarrow> k + m \<le> 8 \<Longrightarrow> take m (drop k (words p)) = replicate m 0"
proof (rule nth_equalityI)
  fix i assume z: "zero_words p k m" "k + m \<le> 8" "i < length (take m (drop k (words p)))"
  then have "p ! (2 * (k + i)) = 0 \<and> p ! (2 * (k + i) + 1) = 0" unfolding zero_words_def by (elim allE [of _ "k + i"]) simp
  then show "take m (drop k (words p)) ! i = replicate m 0 ! i" using z words_nth [of "k + i" p] by simp
qed simp

lemma zero_word_bytes: "concat (map word_bytes (replicate m 0)) = replicate (2 * m) 0"
  by (induction m) (simp_all add: word_bytes_def)

lemma zero_words_take: "zero_words p 0 m \<Longrightarrow> 2 * m \<le> length p \<Longrightarrow> take (2 * m) p = replicate (2 * m) 0"
proof (rule nth_equalityI)
  fix i assume z: "zero_words p 0 m" "2 * m \<le> length p" "i < length (take (2 * m) p)"
  then have "p ! (2 * (i div 2)) = 0 \<and> p ! (2 * (i div 2) + 1) = 0" by (auto simp: zero_words_def)
  moreover have "i = 2 * (i div 2) \<or> i = 2 * (i div 2) + 1" by presburger
  ultimately have "p ! i = 0" by metis
  then show "take (2 * m) p ! i = replicate (2 * m) 0 ! i" using z by simp
qed simp

lemma ntop_forms:
  assumes "length p = 16" "byte_list p" "NGX_INET6_ADDRSTRLEN \<le> len"
  obtains (pl) "ngx_inet6_ntop p len = tail_words (words p)"
  | (zr) k m where "2 \<le> m" "k + m \<le> 8" "zero_words p k m" "ngx_inet6_ntop p len = before_zero (take k (words p)) @ tail_words (drop (k + m) (words p))"
  | (mp) "take 12 p = replicate 10 0 @ [255, 255]" "ngx_inet6_ntop p len = before_zero [] @ colons [65535] @ dotted (drop 12 p)"
  | (cm) "take 12 p = replicate 12 0" "ngx_inet6_ntop p len = before_zero [] @ colons [] @ dotted (drop 12 p)"
proof (cases rule: zr_find_run [of p])
  case 1
  then have "ngx_inet6_ntop p len = ntop_loop p None (zr_max (zr_find p)) 16 (2 * 0)" using assms(3) by (simp add: ngx_inet6_ntop_def Let_def)
  then show ?thesis using pl ntop_tail [of 0 None p] by simp
next
  case (2 k)
  let ?m = "zr_max (zr_find p)"
  let ?c = "k = 0 \<and> (?m = 5 \<and> p ! 10 = 0xff \<and> p ! 11 = 0xff \<or> ?m = 6 \<or> ?m = 7 \<and> p ! 14 \<noteq> 0 \<and> p ! 15 \<noteq> 1)"
  have txt_eq: "ngx_inet6_ntop p len = (if k = 0 then '':'' else []) @ ntop_loop p (Some (2 * k)) ?m (if ?c then 12 else 16) (2 * 0) @ (if ?c then dotted (drop 12 p) else [])"
    using assms(3) 2(1) by (cases ?c) (auto simp: ngx_inet6_ntop_def Let_def)
  have loop: "ntop_loop p (Some (2 * k)) ?m n (2 * 0) = colons (take k (words p)) @ '':'' @ ntop_loop p (Some (2 * k)) ?m n (2 * (k + ?m))" if "2 * k < n" for n
    using ntop_zero [of 0 k ?m n p] that 2(2,3) by simp
  show ?thesis
  proof (cases ?c)
    case False
    have "2 * k < 16" using 2(2,3) by simp
    moreover have "ntop_loop p (Some (2 * k)) ?m 16 (2 * (k + ?m)) = tail_words (drop (k + ?m) (words p))"
      using 2(2,3) by (intro ntop_tail) auto
    ultimately have "ngx_inet6_ntop p len = before_zero (take k (words p)) @ tail_words (drop (k + ?m) (words p))"
      using txt_eq loop [of 16] False unfolding before_zero_def by (cases "k = 0") (auto simp: colons_def length_0_conv [symmetric] simp del: length_0_conv)
    then show ?thesis using zr 2(2-4) by blast
  next
    case True
    then have k: "k = 0" by simp
    have t: "ngx_inet6_ntop p len = before_zero [] @ ntop_loop p (Some 0) ?m 12 (2 * ?m) @ dotted (drop 12 p)"
      using txt_eq loop [of 12] True by (simp add: before_zero_def colons_def)
    have z: "take (2 * ?m) p = replicate (2 * ?m) 0" using zero_words_take [of p ?m] 2(3,4) k assms(1) by simp
    have done12: "ntop_loop p (Some 0) ?m 12 i = []" if "12 \<le> i" for i using that by (subst ntop_loop.simps) simp
    consider "?m = 5" "p ! 10 = 255" "p ! 11 = 255" | "?m = 6 \<or> ?m = 7" using True by auto
    then show ?thesis
    proof cases
      case 1
      have "take 12 p = take 10 p @ [p ! 10, p ! 11]" using assms(1) by (simp add: numeral_eq_Suc take_Suc_conv_app_nth)
      then have "take 12 p = replicate 10 0 @ [255, 255]" using z 1 by simp
      moreover have "ntop_loop p (Some 0) 5 12 10 = colons [65535]"
        using 1 done12 [of 12] by (subst ntop_loop.simps) (simp add: colons_def)
      ultimately show ?thesis using mp t 1(1) by simp
    next
      case 2
      then have "ntop_loop p (Some 0) ?m 12 (2 * ?m) = []" by (intro done12) auto
      moreover have "take 12 p = replicate 12 0"
      proof -
        have "take 12 p = take 12 (take (2 * ?m) p)" using 2 by (auto simp: min_def)
        then show ?thesis using z 2 by (auto simp: min_def)
      qed
      ultimately show ?thesis using cm t by (simp add: colons_def)
    qed
  qed
qed

section \<open>IPv6 addresses are read back, and fit\<close>

lemma zero_run_bytes:
  assumes "length p = 16" "byte_list p" "k + m \<le> 8" "zero_words p k m"
  shows "concat (map word_bytes (take k (words p))) @ replicate (2 * m) 0 @ concat (map word_bytes (drop (k + m) (words p))) = p"
proof -
  have "words p = take k (words p) @ take m (drop k (words p)) @ drop (k + m) (words p)"
    by (metis append_take_drop_id drop_drop add.commute)
  then have "concat (map word_bytes (words p)) =
      concat (map word_bytes (take k (words p))) @ concat (map word_bytes (replicate m 0)) @ concat (map word_bytes (drop (k + m) (words p)))"
    using replicate_words [OF assms(4,3)] by (metis concat_append map_append)
  then show ?thesis using words_bytes [OF assms(1,2)] unfolding zero_word_bytes by simp
qed

lemma mapped_none:
  assumes "NGX_INET6_ADDRSTRLEN \<le> len" "p = replicate 12 0 @ INADDR_NONE \<or> p = replicate 10 0 @ [255, 255] @ INADDR_NONE"
  shows "ngx_inet6_addr (ngx_inet6_ntop p len) = None"
proof -
  have zeros: "replicate 12 (0 :: nat) = [0, 0, 0, 0, 0, 0, 0, 0, 0, 0, 0, 0]" "replicate 10 (0 :: nat) = [0, 0, 0, 0, 0, 0, 0, 0, 0, 0]"
    by (simp_all add: numeral_eq_Suc)
  have "\<exists>ms. length ms < 6 \<and> list_all (\<lambda>w. w < 65536) ms \<and> ngx_inet6_ntop p len = before_zero [] @ colons ms @ dotted INADDR_NONE"
    using assms(2)
  proof
    assume p: "p = replicate 12 0 @ INADDR_NONE"
    have "zr_zero (zr_find p) = Some 0" "zr_max (zr_find p) = 6"
      unfolding p zeros INADDR_NONE_def by (simp_all add: zr_find_def zr_step_def zr_close_def)
    moreover have "ntop_loop p (Some 0) 6 12 0 = '':''" by (simp add: ntop_loop.simps)
    ultimately show ?thesis using assms(1) by (intro exI [of _ "[]"]) (simp add: ngx_inet6_ntop_def p before_zero_def colons_def)
  next
    assume p: "p = replicate 10 0 @ [255, 255] @ INADDR_NONE"
    have "zr_zero (zr_find p) = Some 0" "zr_max (zr_find p) = 5" and p10: "p ! 10 = 255" "p ! 11 = 255" "drop 12 p = INADDR_NONE"
      unfolding p zeros INADDR_NONE_def by (simp_all add: zr_find_def zr_step_def zr_close_def)
    moreover have "ntop_loop p (Some 0) 5 12 0 = '':'' @ hexs 65535 @ '':''" using p10 by (simp add: ntop_loop.simps)
    ultimately show ?thesis using assms(1) by (intro exI [of _ "[65535]"]) (simp add: ngx_inet6_ntop_def before_zero_def colons_def)
  qed
  then obtain ms where "length ms < 6" "list_all (\<lambda>w. w < 65536) ms" "ngx_inet6_ntop p len = before_zero [] @ colons ms @ dotted INADDR_NONE" by blast
  then show ?thesis using read_dotted [of ms INADDR_NONE] by (simp add: INADDR_NONE_def)
qed

text \<open>
  The two addresses with the dotted end 255.255.255.255 are the only ones not read back: the reader
  takes their end for the error value of \<open>ngx_inet_addr\<close> and rejects them.
\<close>

definition inet6_unreadable :: "nat list \<Rightarrow> bool" where
  "inet6_unreadable p \<longleftrightarrow> drop 12 p = INADDR_NONE \<and> (take 12 p = replicate 12 0 \<or> take 12 p = replicate 10 0 @ [255, 255])"

lemma inet6_read_back:
  assumes "length p = 16" "byte_list p" "NGX_INET6_ADDRSTRLEN \<le> len"
  shows "ngx_inet6_addr (ngx_inet6_ntop p len) =
    (if inet6_unreadable p then None else Some p)"
proof (cases "inet6_unreadable p")
  case True
  then have "p = replicate 12 0 @ INADDR_NONE \<or> p = replicate 10 0 @ [255, 255] @ INADDR_NONE"
    unfolding inet6_unreadable_def by (metis append_take_drop_id append.assoc)
  then show ?thesis using True mapped_none [OF assms(3)] by simp
next
  case False
  have small: "list_all (\<lambda>w. w < 65536) (words p)" using words_small assms by blast
  have q: "length (drop 12 p) = 4" "byte_list (drop 12 p)" using assms by (simp_all add: list_all_drop)
  have p: "p = take 12 p @ drop 12 p" by simp
  have "ngx_inet6_addr (ngx_inet6_ntop p len) = Some p"
  proof (cases rule: ntop_forms [OF assms])
    case 1
    then show ?thesis using read_plain [OF _ small] words_bytes [OF assms(1,2)] by simp
  next
    case (2 k m)
    have "list_all (\<lambda>w. w < 65536) (take k (words p) @ drop (k + m) (words p))"
      using small by (simp add: list_all_take list_all_drop)
    moreover have "length (take k (words p)) + length (drop (k + m) (words p)) < 7" "8 - length (take k (words p)) - length (drop (k + m) (words p)) = m"
      using 2(1,2) by auto
    ultimately show ?thesis
      using read_zero [of "take k (words p)" "drop (k + m) (words p)"] zero_run_bytes [OF assms(1,2) 2(2,3)] 2(4) by simp
  next
    case 3
    then have "drop 12 p \<noteq> INADDR_NONE" using False by (auto simp: inet6_unreadable_def)
    then show ?thesis using read_dotted [of "[65535]" "drop 12 p"] 3 q p by (simp add: word_bytes_def)
  next
    case 4
    then have "drop 12 p \<noteq> INADDR_NONE" using False by (auto simp: inet6_unreadable_def)
    then show ?thesis using read_dotted [of "[]" "drop 12 p"] 4 q p by simp
  qed
  then show ?thesis using False by simp
qed

lemma colons_length: "list_all (\<lambda>w. w < 65536) ws \<Longrightarrow> length (colons ws) \<le> 5 * length ws"
  using num_hex_length [of _ 4] by (induction ws) (force simp: colons_def)+

lemma tail_words_length: "list_all (\<lambda>w. w < 65536) ws \<Longrightarrow> length (tail_words ws) \<le> 5 * length ws"
proof (induction ws)
  case (Cons w ws)
  then have "length (hexs w) \<le> 4" using num_hex_length [of w 4] by simp
  then show ?case using Cons by (simp add: tail_words_Cons)
qed (simp add: tail_words_def)

lemma dotted_length:
  assumes "length q = 4" "byte_list q"
  shows "length (dotted q) \<le> 15"
proof -
  have "length (num_digits (q ! i) 0) \<le> 3" if "i < 4" for i
    using num_dec_length [of "q ! i" 3] assms that by (auto simp: num_digits_dec list_all_length)
  from this [of 0] this [of 1] this [of 2] this [of 3] show ?thesis by (simp add: dotted_def)
qed

lemma inet6_ntop_length:
  assumes "length p = 16" "byte_list p"
  shows "length (ngx_inet6_ntop p len) \<le> NGX_INET6_ADDRSTRLEN \<and> length (ngx_inet6_ntop p len) \<le> len"
proof (cases "len < NGX_INET6_ADDRSTRLEN")
  case True
  then show ?thesis by (simp add: ngx_inet6_ntop_def)
next
  case False
  have small: "list_all (\<lambda>w. w < 65536) (take k (words p))" "list_all (\<lambda>w. w < 65536) (drop k (words p))" for k
    using words_small assms by (simp_all add: list_all_take list_all_drop)
  have q: "length (dotted (drop 12 p)) \<le> 15" using assms by (intro dotted_length) (simp_all add: list_all_drop)
  have "length (ngx_inet6_ntop p len) \<le> 45"
  proof (cases rule: ntop_forms [OF assms, of len, unfolded not_less [symmetric], OF False])
    case 1
    then show ?thesis using tail_words_length small(2) [of 0] by fastforce
  next
    case (2 k m)
    then show ?thesis
      using tail_words_length [OF small(2) [of "k + m"]] colons_length [OF small(1) [of k]] by (auto simp: before_zero_def)
  next
    case 3
    then show ?thesis using q colons_length [of "[65535]"] by (simp add: before_zero_def)
  next
    case 4
    then show ?thesis using q by (simp add: before_zero_def colons_def)
  qed
  then show ?thesis using False by (simp add: NGX_INET6_ADDRSTRLEN_def)
qed

section \<open>What the readers return\<close>

lemma inet_addr_loop_typed: "length (inet_addr_loop t a oc n) = 4 \<and> byte_list (inet_addr_loop t a oc n)"
  by (induction t a oc n rule: inet_addr_loop.induct) (auto simp: htonl_def INADDR_NONE_def Let_def)

lemma inet_addr_typed [simp]: "length (ngx_inet_addr t) = 4" "byte_list (ngx_inet_addr t)"
  using inet_addr_loop_typed by (simp_all add: ngx_inet_addr_def)

definition i6_ok :: "inet6_state \<Rightarrow> bool" where
  "i6_ok s \<longleftrightarrow> byte_list (i6_addr s) \<and> length (i6_addr s) + 2 * i6_n s = 16 \<and> 0 < i6_n s \<and>
     (case i6_zero s of None \<Rightarrow> True | Some z \<Rightarrow> z \<le> length (i6_addr s))"

lemma inet6_loop_ok: "inet6_loop p s = Some s' \<Longrightarrow> i6_ok s \<Longrightarrow> i6_ok s'"
proof (induction p s rule: inet6_loop.induct)
  case (2 c p s)
  note IH = "2.IH" and loop = "2.prems"(1) and ok = "2.prems"(2)
  have "i6_ok (s\<lparr>i6_digit := Some p, i6_zero := Some (length (i6_addr s))\<rparr>)" using ok by (simp add: i6_ok_def)
  moreover have "i6_ok ((i6_write (s\<lparr>i6_digit := Some p\<rparr>))\<lparr>i6_nibbles := 0, i6_word := 0\<rparr>)" if "i6_n s \<noteq> 1"
    using ok that by (auto simp: i6_ok_def i6_write_def split: option.splits)
  moreover have "i6_ok (s\<lparr>i6_nibbles := j, i6_word := w\<rparr>)" for j w using ok by (auto simp: i6_ok_def split: option.splits)
  moreover have "i6_ok (s\<lparr>i6_word := w, i6_addr := i6_addr s @ [w div 2 ^ 24 mod 256, w div 2 ^ 16 mod 256], i6_n := i6_n s - 1\<rparr>)" if "\<not> i6_n s < 2" for w
    using ok that by (auto simp: i6_ok_def split: option.splits)
  ultimately show ?case
    using loop IH by (auto simp: Let_def i6_write_def split: if_splits option.splits)
qed simp

lemma inet6_addr_length:
  assumes "ngx_inet6_addr p = Some a"
  shows "length a = 16 \<and> byte_list a"
proof -
  have p: "p \<noteq> []" using assms by (auto simp: ngx_inet6_addr_def)
  then obtain s where s: "inet6_loop (if hd p = CHR '':'' then tl p else p) i6_init = Some s" "i6_finish s = Some a"
    using assms unfolding inet6_addr_finish by (auto simp: bind_eq_Some_conv)
  have "i6_ok s" using inet6_loop_ok [OF s(1)] by (simp add: i6_ok_def i6_init_def)
  then show ?thesis
    using s(2) by (auto simp: i6_ok_def i6_finish_def i6_write_def Let_def list_all_take list_all_drop list_all_replicate split: if_splits option.splits)
qed

section \<open>A range is a prefix\<close>

definition byte_bits :: "nat \<Rightarrow> bool list" where
  "byte_bits x = map (\<lambda>i. bit x (7 - i)) [0..<8]"

text \<open>The bits of an address, the highest of its first byte first.\<close>

definition addr_bits :: "nat list \<Rightarrow> bool list" where
  "addr_bits a = concat (map byte_bits a)"

lemma length_byte_bits [simp]: "length (byte_bits x) = 8"
  by (simp add: byte_bits_def)

lemma byte_bits_nth: "i < 8 \<Longrightarrow> byte_bits x ! i = bit x (7 - i)"
  by (simp add: byte_bits_def del: upt_Suc)

lemma byte_high: "x < 256 \<Longrightarrow> bit x i \<Longrightarrow> i < 8" for x :: nat
proof -
  assume "x < 256" "bit x i"
  then have "bit (take_bit 8 x) i" by (simp add: take_bit_nat_eq_self)
  then show "i < 8" by (simp add: bit_take_bit_iff)
qed

lemma mask_bit: "s \<le> 8 \<Longrightarrow> bit (push_bit (8 - s) 255 mod 256 :: nat) i \<longleftrightarrow> 8 - s \<le> i \<and> i < 8"
proof -
  assume s: "s \<le> 8"
  have "push_bit (8 - s) 255 mod 256 = (take_bit 8 (push_bit (8 - s) (mask 8)) :: nat)" by (simp add: take_bit_eq_mod mask_eq_exp_minus_1)
  then show ?thesis using s by (auto simp: bit_take_bit_iff bit_push_bit_iff bit_mask_iff)
qed

lemma byte_prefix:
  assumes "x < 256" "y < 256" "s \<le> 8"
  shows "x AND (push_bit (8 - s) 255 mod 256) = y AND (push_bit (8 - s) 255 mod 256) \<longleftrightarrow> take s (byte_bits x) = take s (byte_bits y)"
proof -
  have "take s (byte_bits x) = take s (byte_bits y) \<longleftrightarrow> (\<forall>i. i < s \<longrightarrow> bit x (7 - i) = bit y (7 - i))"
    using assms(3) by (auto simp: list_eq_iff_nth_eq byte_bits_nth)
  also have "\<dots> \<longleftrightarrow> (\<forall>i. 8 - s \<le> i \<and> i < 8 \<longrightarrow> bit x i = bit y i)"
  proof
    assume *: "\<forall>i. i < s \<longrightarrow> bit x (7 - i) = bit y (7 - i)"
    have "bit x i = bit y i" if "8 - s \<le> i \<and> i < 8" for i using * [rule_format, of "7 - i"] assms(3) that by auto
    then show "\<forall>i. 8 - s \<le> i \<and> i < 8 \<longrightarrow> bit x i = bit y i" by blast
  next
    assume *: "\<forall>i. 8 - s \<le> i \<and> i < 8 \<longrightarrow> bit x i = bit y i"
    have "bit x (7 - i) = bit y (7 - i)" if "i < s" for i
    proof -
      have "8 - s \<le> 7 - i \<and> 7 - i < 8" using assms(3) that by auto
      then show ?thesis using * by blast
    qed
    then show "\<forall>i. i < s \<longrightarrow> bit x (7 - i) = bit y (7 - i)" by blast
  qed
  finally show ?thesis using assms(3) by (auto simp: bit_eq_iff bit_and_iff mask_bit)
qed

lemma byte_host:
  assumes "x < 256" "s \<le> 8"
  shows "x AND (push_bit (8 - s) 255 mod 256) = x \<longleftrightarrow> True \<notin> set (drop s (byte_bits x))"
proof -
  have "True \<notin> set (drop s (byte_bits x)) \<longleftrightarrow> (\<forall>i. s \<le> i \<and> i < 8 \<longrightarrow> \<not> bit x (7 - i))"
  proof -
    have "True \<in> set (drop s (byte_bits x)) \<longleftrightarrow> (\<exists>i. i < 8 - s \<and> bit x (7 - (s + i)))"
      using assms(2) by (auto simp: in_set_conv_nth byte_bits_nth)
    also have "\<dots> \<longleftrightarrow> (\<exists>i. s \<le> i \<and> i < 8 \<and> bit x (7 - i))"
      by (metis add.commute le_add1 le_iff_add less_diff_conv)
    finally show ?thesis by blast
  qed
  also have "\<dots> \<longleftrightarrow> (\<forall>i. bit x i \<longrightarrow> 8 - s \<le> i)"
  proof
    assume *: "\<forall>i. s \<le> i \<and> i < 8 \<longrightarrow> \<not> bit x (7 - i)"
    have "8 - s \<le> i" if "bit x i" for i
    proof (rule ccontr)
      assume "\<not> 8 - s \<le> i"
      then have "s \<le> 7 - i \<and> 7 - i < 8" "7 - (7 - i) = i" using byte_high [OF assms(1) that] by auto
      then show False using * that by metis
    qed
    then show "\<forall>i. bit x i \<longrightarrow> 8 - s \<le> i" by blast
  qed (use assms(2) in fastforce)
  finally show ?thesis using assms byte_high [OF assms(1)] by (auto simp: bit_eq_iff bit_and_iff mask_bit)
qed

lemma length_mask6 [simp]: "length (mask6 k s) = k"
  by (induction k arbitrary: s) (simp_all add: Let_def)

lemma and_bytes_Cons [simp]: "and_bytes (x # a) (m # ms) = (x AND m) # and_bytes a ms"
  by (simp add: and_bytes_def)

lemma addr_bits_Cons [simp]: "addr_bits (x # a) = byte_bits x @ addr_bits a"
  by (simp add: addr_bits_def)

lemma mask6_prefix:
  assumes "length a = k" "length b = k" "byte_list a" "byte_list b"
  shows "and_bytes a (mask6 k s) = and_bytes b (mask6 k s) \<longleftrightarrow> take s (addr_bits a) = take s (addr_bits b)"
  using assms
proof (induction k arbitrary: a b s)
  case (Suc k)
  then obtain x a' y b' where ab: "a = x # a'" "b = y # b'" by (metis length_Suc_conv)
  let ?s = "if s > 8 then 8 else s"
  have t: "take s (addr_bits (z # c)) = take ?s (byte_bits z) @ take (s - ?s) (addr_bits c)" for z c by simp
  have "and_bytes a (mask6 (Suc k) s) = and_bytes b (mask6 (Suc k) s) \<longleftrightarrow>
      x AND (push_bit (8 - ?s) 255 mod 256) = y AND (push_bit (8 - ?s) 255 mod 256) \<and> and_bytes a' (mask6 k (s - ?s)) = and_bytes b' (mask6 k (s - ?s))"
    by (simp add: ab Let_def)
  also have "\<dots> \<longleftrightarrow> take ?s (byte_bits x) = take ?s (byte_bits y) \<and> take (s - ?s) (addr_bits a') = take (s - ?s) (addr_bits b')"
    using byte_prefix [of x y ?s] Suc.IH [of a' b' "s - ?s"] Suc.prems by (simp add: ab)
  finally show ?case unfolding ab t by simp
qed (simp add: and_bytes_def addr_bits_def)

lemma mask6_host:
  assumes "length a = k" "byte_list a"
  shows "and_bytes a (mask6 k s) = a \<longleftrightarrow> True \<notin> set (drop s (addr_bits a))"
  using assms
proof (induction k arbitrary: a s)
  case (Suc k)
  then obtain x a' where a: "a = x # a'" by (metis length_Suc_conv)
  let ?s = "if s > 8 then 8 else s"
  have t: "drop s (addr_bits (x # a')) = drop ?s (byte_bits x) @ drop (s - ?s) (addr_bits a')" by simp
  have "and_bytes a (mask6 (Suc k) s) = a \<longleftrightarrow> x AND (push_bit (8 - ?s) 255 mod 256) = x \<and> and_bytes a' (mask6 k (s - ?s)) = a'"
    by (simp add: a Let_def)
  also have "\<dots> \<longleftrightarrow> True \<notin> set (drop ?s (byte_bits x)) \<and> True \<notin> set (drop (s - ?s) (addr_bits a'))"
    using byte_host [of x ?s] Suc.IH [of a' "s - ?s"] Suc.prems by (simp add: a)
  finally show ?case unfolding a t by simp
qed (simp add: and_bytes_def addr_bits_def)

lemma mask_byte:
  assumes "n \<le> 32" "j < 4"
  shows "push_bit (32 - n) 0xffffffff mod 2 ^ 32 div 2 ^ (24 - 8 * j) mod 256 = (push_bit (8 - min 8 (n - 8 * j)) 255 mod 256 :: nat)"
proof -
  have "push_bit (32 - n) 0xffffffff mod 2 ^ 32 div 2 ^ (24 - 8 * j) mod 256 =
      (take_bit 8 (drop_bit (24 - 8 * j) (take_bit 32 (push_bit (32 - n) (mask 32)))) :: nat)"
    by (simp add: take_bit_eq_mod mask_eq_exp_minus_1 drop_bit_eq_div)
  also have "\<dots> = push_bit (8 - min 8 (n - 8 * j)) 255 mod 256"
  proof (rule bit_eqI)
    fix i
    have "bit (take_bit 8 (drop_bit (24 - 8 * j) (take_bit 32 (push_bit (32 - n) (mask 32 :: nat))))) i \<longleftrightarrow> i < 8 \<and> 32 - n \<le> 24 - 8 * j + i"
      using assms by (auto simp: bit_take_bit_iff bit_drop_bit_eq bit_push_bit_iff bit_mask_iff)
    also have "\<dots> \<longleftrightarrow> 8 - min 8 (n - 8 * j) \<le> i \<and> i < 8" using assms by (auto simp: min_def)
    finally show "bit (take_bit 8 (drop_bit (24 - 8 * j) (take_bit 32 (push_bit (32 - n) (mask 32 :: nat))))) i \<longleftrightarrow>
        bit (push_bit (8 - min 8 (n - 8 * j)) 255 mod 256 :: nat) i"
      using mask_bit [of "min 8 (n - 8 * j)" i] by simp
  qed
  finally show ?thesis .
qed

lemma mask6_bytes: "mask6 k n = map (\<lambda>j. push_bit (8 - min 8 (n - 8 * j)) 255 mod 256) [0..<k]"
proof (induction k arbitrary: n)
  case (Suc k)
  let ?s = "if n > 8 then 8 else n"
  have "mask6 (Suc k) n = push_bit (8 - min 8 n) 255 mod 256 # mask6 k (n - 8)" by (auto simp: Let_def min_def)
  then show ?case unfolding Suc.IH upt_conv_Cons [OF zero_less_Suc] by (simp add: map_Suc_upt [symmetric] del: upt_Suc)
qed simp

lemma mask4_mask6:
  assumes "n \<le> 32"
  shows "mask4 n = mask6 4 n"
proof (cases "n = 0")
  case False
  define w :: nat where "w = push_bit (32 - n) 0xffffffff mod 2 ^ 32"
  define f :: "nat \<Rightarrow> nat" where "f j = push_bit (8 - min 8 (n - 8 * j)) 255 mod 256" for j
  have b: "w div 2 ^ (24 - 8 * j) mod 256 = f j" if "j < 4" for j using mask_byte [OF assms that] unfolding w_def f_def .
  have "mask4 n = htonl w" using False by (simp only: mask4_def w_def if_True not_False_eq_True)
  also have "\<dots> = [f 0, f 1, f 2, f 3]" using b [of 0] b [of 1] b [of 2] b [of 3] by (simp add: htonl_def)
  also have "\<dots> = map f [0..<4]" by (simp add: upt_rec numeral_2_eq_2 numeral_3_eq_3)
  finally show ?thesis unfolding mask6_bytes f_def .
qed (simp add: mask4_def mask6_bytes upt_rec)

text \<open>The address of a range, the address a peer is looked up by, and what the kernel hands out as a socket address.\<close>

definition cidr_base :: "bytes \<Rightarrow> nat list option" where
  "cidr_base t = (if ngx_inet_addr t \<noteq> INADDR_NONE then Some (ngx_inet_addr t) else ngx_inet6_addr t)"

definition peer_addr :: "sockaddr \<Rightarrow> nat list" where
  "peer_addr sa = (case sa of Sin a port \<Rightarrow> a | Sin6 a port \<Rightarrow> if IN6_IS_ADDR_V4MAPPED a then drop 12 a else a | Sun path \<Rightarrow> [])"

definition sockaddr_ok :: "sockaddr \<Rightarrow> bool" where
  "sockaddr_ok sa = (case sa of Sin a port \<Rightarrow> length a = 4 \<and> byte_list a | Sin6 a port \<Rightarrow> length a = 16 \<and> byte_list a | Sun path \<Rightarrow> True)"

lemma and_bytes_idem: "length a = length m \<Longrightarrow> and_bytes (and_bytes a m) m = and_bytes a m"
  by (induction a m rule: list_induct2) (simp_all add: and_bytes_def ac_simps)

lemma peer_bytes: "sockaddr_ok sa \<Longrightarrow> byte_list (peer_addr sa)"
  by (auto simp: sockaddr_ok_def peer_addr_def list_all_drop split: sockaddr.splits)

lemma cidr_match_peer:
  assumes "sockaddr_ok sa" "length r = length m" "length m = 4 \<or> length m = 16"
  shows "ngx_cidr_match sa [if length m = 4 then Cidr_In r m else Cidr_In6 r m] = NGX_OK \<longleftrightarrow>
    length (peer_addr sa) = length m \<and> and_bytes (peer_addr sa) m = r"
proof (cases sa)
  case (Sin6 a port)
  have "htonl (a ! 12 * 2 ^ 24 + a ! 13 * 2 ^ 16 + a ! 14 * 2 ^ 8 + a ! 15) = drop 12 a"
  proof -
    have "a ! 12 * 2 ^ 24 + a ! 13 * 2 ^ 16 + a ! 14 * 2 ^ 8 + a ! 15 = ntohl (drop 12 a)" using assms(1) Sin6 by (simp add: ntohl_def sockaddr_ok_def)
    then show ?thesis using htonl_ntohl(1) [of "drop 12 a"] assms(1) Sin6 by (simp add: sockaddr_ok_def list_all_drop)
  qed
  then show ?thesis using assms Sin6 by (auto simp: ngx_cidr_match_def Let_def peer_addr_def sockaddr_ok_def)
qed (use assms in \<open>auto simp: ngx_cidr_match_def Let_def peer_addr_def sockaddr_ok_def\<close>)

lemma ptocidr_range:
  assumes "CHR ''/'' \<notin> set t" "cidr_base t = Some r" "ngx_atoi u = int n" "n \<le> 8 * length r"
  shows "length r = 4 \<or> length r = 16" "byte_list r"
    "ngx_ptocidr (t @ ''/'' @ u) =
       Some (cidr_masked r (mask6 (length r) n),
             if length r = 4 then Cidr_In (and_bytes r (mask6 4 n)) (mask6 4 n) else Cidr_In6 (and_bytes r (mask6 16 n)) (mask6 16 n))"
proof -
  show r: "length r = 4 \<or> length r = 16" "byte_list r" using assms(2) inet6_addr_length by (auto simp: cidr_base_def split: if_splits)
  have sl: "ngx_strlchr (t @ ''/'' @ u) (CHR ''/'') = Some (length t)" using strlchr_append [OF assms(1), of "''/'' @ u"] by simp
  show "ngx_ptocidr (t @ ''/'' @ u) =
       Some (cidr_masked r (mask6 (length r) n),
             if length r = 4 then Cidr_In (and_bytes r (mask6 4 n)) (mask6 4 n) else Cidr_In6 (and_bytes r (mask6 16 n)) (mask6 16 n))"
  proof (cases "ngx_inet_addr t = INADDR_NONE")
    case True
    then have "ngx_inet6_addr t = Some r" "length r = 16" using assms(2) inet6_addr_length by (auto simp: cidr_base_def)
    then show ?thesis using sl True assms(3,4) by (simp add: ngx_ptocidr_def Let_def)
  next
    case False
    then have "ngx_inet_addr t = r" "length r = 4" using assms(2) by (auto simp: cidr_base_def)
    then show ?thesis using sl False assms(3,4) mask4_mask6 [of n] by (simp add: ngx_ptocidr_def Let_def)
  qed
qed

text \<open>
  C26. The range \<open>address/n\<close> stands for the addresses that agree with it in the first \<open>n\<close> bits: \<open>ngx_ptocidr\<close> accepts it, says
  \<open>NGX_DONE\<close> when the address has bits behind the prefix, and \<open>ngx_cidr_match\<close> finds a peer in it exactly if the peer's address
  is of the same family and has the same first \<open>n\<close> bits, an IPv4 address mapped into IPv6 counting as an IPv4 address.
\<close>

theorem cidr_match_prefix:
  assumes "CHR ''/'' \<notin> set t" "cidr_base t = Some r" "ngx_atoi u = int n" "n \<le> 8 * length r" "sockaddr_ok sa"
  shows "\<exists>c. ngx_ptocidr (t @ ''/'' @ u) = Some (if True \<in> set (drop n (addr_bits r)) then NGX_DONE else NGX_OK, c) \<and>
    (ngx_cidr_match sa [c] = NGX_OK \<longleftrightarrow>
       length (peer_addr sa) = length r \<and> take n (addr_bits (peer_addr sa)) = take n (addr_bits r))"
proof -
  note range = ptocidr_range [OF assms(1-4)]
  let ?m = "mask6 (length r) n"
  let ?c = "if length ?m = 4 then Cidr_In (and_bytes r ?m) ?m else Cidr_In6 (and_bytes r ?m) ?m"
  have "ngx_ptocidr (t @ ''/'' @ u) = Some (cidr_masked r ?m, ?c)" using range by auto
  moreover have "cidr_masked r ?m = (if True \<in> set (drop n (addr_bits r)) then NGX_DONE else NGX_OK)"
    using mask6_host [of r "length r" n] range(2) by (simp add: cidr_masked_def)
  ultimately have c: "ngx_ptocidr (t @ ''/'' @ u) = Some (if True \<in> set (drop n (addr_bits r)) then NGX_DONE else NGX_OK, ?c)" by (simp only:)
  have "ngx_cidr_match sa [?c] = NGX_OK \<longleftrightarrow> length (peer_addr sa) = length r \<and> and_bytes (peer_addr sa) ?m = and_bytes r ?m"
    using cidr_match_peer [OF assms(5), of "and_bytes r ?m" ?m] range(1) by (simp add: and_bytes_def)
  moreover have "and_bytes (peer_addr sa) ?m = and_bytes r ?m \<longleftrightarrow> take n (addr_bits (peer_addr sa)) = take n (addr_bits r)"
    if "length (peer_addr sa) = length r"
    using mask6_prefix [OF that refl peer_bytes [OF assms(5)] range(2)] .
  ultimately have "ngx_cidr_match sa [?c] = NGX_OK \<longleftrightarrow>
      length (peer_addr sa) = length r \<and> take n (addr_bits (peer_addr sa)) = take n (addr_bits r)" by blast
  then show ?thesis using c by blast
qed

text \<open>A range as \<open>ngx_ptocidr\<close> leaves it: the address has no bit outside the mask.\<close>

definition cidr_ok :: "cidr \<Rightarrow> bool" where
  "cidr_ok c \<longleftrightarrow>
     (case c of
        Cidr_In a m \<Rightarrow> length a = 4 \<and> length m = 4 \<and> byte_list a \<and> byte_list m \<and> and_bytes a m = a
      | Cidr_In6 a m \<Rightarrow> length a = 16 \<and> length m = 16 \<and> byte_list a \<and> byte_list m \<and> and_bytes a m = a
      | Cidr_Unix \<Rightarrow> True)"

lemma and_byte: "x < 256 \<Longrightarrow> x AND y < 256" for x y :: nat
proof -
  assume "x < 256"
  then have "x AND y = take_bit 8 (x AND y)" using byte_high by (intro bit_eqI) (auto simp: bit_take_bit_iff bit_and_iff)
  then show ?thesis using take_bit_nat_less_exp [of 8 "x AND y"] by simp
qed

lemma and_bytes_byte: "byte_list a \<Longrightarrow> byte_list (and_bytes a m)"
  by (auto simp: and_bytes_def list_all_iff and_byte dest: set_zip_leftD)

lemma htonl_typed: "byte_list (htonl w)" "length (htonl w) = 4"
  by (simp_all add: htonl_def)

lemma mask_bytes: "byte_list (mask6 k n)" "byte_list (mask4 n)" "length (mask4 n) = 4"
  by (simp_all only: mask6_bytes mask4_def htonl_typed split: if_split) (simp_all add: list_all_iff)

lemma and_bytes_255:
  "byte_list a \<Longrightarrow> and_bytes a (replicate (length a) 255) = a"
proof (induction a)
  case (Cons x a)
  then have "x AND 255 = x" using byte_host [of x 8] by (simp add: and_bytes_def)
  then show ?case using Cons by simp
qed (simp add: and_bytes_def)

lemma parse_addr_first: "fst (ngx_parse_addr alloc t) \<noteq> NGX_DECLINED \<Longrightarrow> ngx_parse_addr_port alloc t = ngx_parse_addr alloc t"
  unfolding ngx_parse_addr_port_def by (cases "ngx_parse_addr alloc t") (simp only: prod.case fst_conv if_True not_False_eq_True)

definition with_port :: "ngx_int \<times> sockaddr option \<Rightarrow> nat \<Rightarrow> ngx_int \<times> sockaddr option" where
  "with_port r port =
     (case r of (rc, None) \<Rightarrow> (rc, None) | (rc, Some sa) \<Rightarrow> if rc \<noteq> NGX_OK then (rc, None) else (NGX_OK, Some (ngx_inet_set_port sa port)))"

lemma parse_addr_second:
  assumes "ngx_parse_addr alloc t = (NGX_DECLINED, sa)"
  obtains "ngx_parse_addr_port alloc t = (NGX_DECLINED, None)"
  | u q where "1 \<le> q" "q \<le> 65535" "ngx_parse_addr_port alloc t = with_port (ngx_parse_addr alloc u) (nat q)"
proof -
  obtain found :: "(nat \<times> nat \<times> nat) option" where f: "ngx_parse_addr_port alloc t =
      (case found of None \<Rightarrow> (NGX_DECLINED, None)
       | Some (start, len, colon) \<Rightarrow>
           if ngx_atoi (drop (colon + 1) t) < 1 \<or> ngx_atoi (drop (colon + 1) t) > 65535 then (NGX_DECLINED, None)
           else with_port (ngx_parse_addr alloc (take (len - (length (drop (colon + 1) t) + 1)) (drop start t))) (nat (ngx_atoi (drop (colon + 1) t))))"
    unfolding ngx_parse_addr_port_def Let_def assms prod.case with_port_def by simp
  show ?thesis
  proof (cases found)
    case None
    then show ?thesis using f that(1) by simp
  next
    case (Some x)
    obtain start len colon where x: "x = (start, len, colon)" by (cases x)
    show ?thesis
    proof (cases "ngx_atoi (drop (colon + 1) t) < 1 \<or> ngx_atoi (drop (colon + 1) t) > 65535")
      case True
      then show ?thesis using f that(1) unfolding Some x option.case prod.case by simp
    next
      case False
      then show ?thesis using f that(2) [of "ngx_atoi (drop (colon + 1) t)"] unfolding Some x option.case prod.case by (simp only: if_False) force
    qed
  qed
qed

lemma ptocidr_ok:
  assumes "ngx_ptocidr t = Some (rc, c)"
  shows "cidr_ok c"
proof -
  have ff: "cidr_ok (Cidr_In a (replicate 4 255))" if "length a = 4" "byte_list a" for a
    using and_bytes_255 [OF that(2)] that by (simp add: cidr_ok_def list_all_replicate)
  have ff6: "cidr_ok (Cidr_In6 a (replicate 16 255))" if "length a = 16" "byte_list a" for a
    using and_bytes_255 [OF that(2)] that by (simp add: cidr_ok_def list_all_replicate)
  have m4: "cidr_ok (Cidr_In (and_bytes a (mask4 n)) (mask4 n))" if "length a = 4" "byte_list a" for a n
    using that mask_bytes(2,3) [of n] and_bytes_idem [of a "mask4 n"] and_bytes_byte [of a "mask4 n"] by (simp add: cidr_ok_def) (simp add: and_bytes_def)
  have m6: "cidr_ok (Cidr_In6 (and_bytes a (mask6 16 n)) (mask6 16 n))" if "length a = 16" "byte_list a" for a n
    using that mask_bytes(1) [of 16 n] and_bytes_idem [of a "mask6 16 n"] and_bytes_byte [of a "mask6 16 n"] by (simp add: cidr_ok_def) (simp add: and_bytes_def)
  have four: "[255, 255, 255, 255] = replicate 4 (255 :: nat)" by (simp add: numeral_eq_Suc)
  show ?thesis
    using assms inet6_addr_length unfolding ngx_ptocidr_def Let_def four
    by (fastforce split: if_splits option.splits intro: ff ff6 m4 m6)
qed

text \<open>
  C27. Whatever the text is, what the readers hand out is well formed: \<open>ngx_inet6_addr\<close> fills exactly the sixteen bytes of its
  caller's address, a socket address from \<open>ngx_parse_addr_port\<close> has an address of its family's size and a 16-bit port, and a range from
  \<open>ngx_ptocidr\<close> has no bit outside its mask, without which \<open>ngx_cidr_match\<close> could never find it.
\<close>

theorem inet_readers_typed:
  "(case ngx_inet6_addr t of None \<Rightarrow> True | Some a \<Rightarrow> length a = 16 \<and> byte_list a) \<and>
   (case ngx_parse_addr_port alloc t of (rc, None) \<Rightarrow> rc \<noteq> NGX_OK | (rc, Some sa) \<Rightarrow> rc = NGX_OK \<and> sockaddr_ok sa \<and> ngx_inet_get_port sa \<le> 65535) \<and>
   (case ngx_ptocidr t of None \<Rightarrow> True | Some (rc, c) \<Rightarrow> cidr_ok c)"
proof (intro conjI)
  show "case ngx_inet6_addr t of None \<Rightarrow> True | Some a \<Rightarrow> length a = 16 \<and> byte_list a"
    using inet6_addr_length by (auto split: option.splits)
next
  have p: "case ngx_parse_addr alloc u of (rc, None) \<Rightarrow> rc \<noteq> NGX_OK | (rc, Some sa) \<Rightarrow> rc = NGX_OK \<and> sockaddr_ok (ngx_inet_set_port sa q) \<and> sockaddr_ok sa \<and> ngx_inet_get_port sa = 0 \<and> ngx_inet_get_port (ngx_inet_set_port sa q) = q" for u q
    using inet6_addr_length by (auto simp: ngx_parse_addr_def Let_def sockaddr_ok_def split: option.splits)
  show "case ngx_parse_addr_port alloc t of (rc, None) \<Rightarrow> rc \<noteq> NGX_OK | (rc, Some sa) \<Rightarrow> rc = NGX_OK \<and> sockaddr_ok sa \<and> ngx_inet_get_port sa \<le> 65535"
  proof (cases "fst (ngx_parse_addr alloc t) = NGX_DECLINED")
    case False
    then show ?thesis using p [of 0 t] parse_addr_first by (auto split: option.splits prod.splits)
  next
    case True
    then obtain sa where "ngx_parse_addr alloc t = (NGX_DECLINED, sa)" by (cases "ngx_parse_addr alloc t") auto
    then consider "ngx_parse_addr_port alloc t = (NGX_DECLINED, None)"
      | u q where "1 \<le> q" "q \<le> 65535" "ngx_parse_addr_port alloc t = with_port (ngx_parse_addr alloc u) (nat q)"
      using parse_addr_second by blast
    then show ?thesis
    proof cases
      case (2 u q)
      then show ?thesis using p [of "nat q" u] by (auto simp: with_port_def split: option.splits prod.splits)
    qed simp
  qed
next
  show "case ngx_ptocidr t of None \<Rightarrow> True | Some (rc, c) \<Rightarrow> cidr_ok c"
    using ptocidr_ok by (auto split: option.splits)
qed

section \<open>Socket addresses are read back\<close>

lemma colons_chars: "c \<in> set (colons ws) \<Longrightarrow> hexit c \<or> c = CHR '':''"
proof (induction ws)
  case (Cons w ws)
  then show ?case using num_hex_value [of w] by (auto simp: colons_def list_all_iff)
qed (simp add: colons_def)

lemma tail_words_chars: "c \<in> set (tail_words ws) \<Longrightarrow> hexit c \<or> c = CHR '':''"
  using colons_chars [of c "butlast ws"] num_hex_value [of "last ws"] by (auto simp: tail_words_def list_all_iff split: if_splits)

lemma dotted_chars: "c \<in> set (dotted q) \<Longrightarrow> byte_list q \<Longrightarrow> length q = 4 \<Longrightarrow> digit c \<or> c = CHR ''.''"
proof -
  assume q: "c \<in> set (dotted q)" "byte_list q" "length q = 4"
  have "digit d" if "d \<in> set (num_digits (q ! i) 0)" "i < 4" for d i
    using num_dec_value [of "q ! i"] q(2,3) that by (auto simp: num_digits_dec list_all_length list_all_iff in_set_conv_nth)
  from this [of c 0] this [of c 1] this [of c 2] this [of c 3] show ?thesis using q(1) by (auto simp: dotted_def)
qed

lemma ntop_chars:
  assumes "length p = 16" "byte_list p" "NGX_INET6_ADDRSTRLEN \<le> len"
  shows "CHR '']'' \<notin> set (ngx_inet6_ntop p len)" "CHR '':'' \<in> set (ngx_inet6_ntop p len)"
proof -
  have nb: "\<not> hexit (CHR '']'')" by (simp add: digit_def hexalpha20_iff less_eq_char_def)
  have bz: "CHR '']'' \<notin> set (before_zero ws)" "CHR '':'' \<in> set (before_zero ws)" for ws
    using colons_chars [of "CHR '']''" ws] nb by (auto simp: before_zero_def)
  have q: "CHR '']'' \<notin> set (dotted (drop 12 p))"
    using dotted_chars [of "CHR '']''" "drop 12 p"] nb assms by (auto simp: list_all_drop)
  obtain v w ws where "words p = v # w # ws" using drop_words [of 0 p] drop_words [of 1 p] by simp
  then have "CHR '':'' \<in> set (tail_words (words p))" by (simp add: tail_words_Cons)
  then show "CHR '']'' \<notin> set (ngx_inet6_ntop p len)" "CHR '':'' \<in> set (ngx_inet6_ntop p len)"
    using bz q nb colons_chars [of "CHR '']''"] tail_words_chars [of "CHR '']''"] by (cases rule: ntop_forms [OF assms]; auto)+
qed

lemma inet_addr_colon: "CHR '':'' \<in> set t \<Longrightarrow> ngx_inet_addr t = INADDR_NONE"
proof -
  have "inet_addr_loop t a oc n = INADDR_NONE" if "CHR '':'' \<in> set t" for a oc n
    using that by (induction t a oc n rule: inet_addr_loop.induct) (auto simp: Let_def digit_def less_eq_char_def)
  then show "CHR '':'' \<in> set t \<Longrightarrow> ngx_inet_addr t = INADDR_NONE" by (simp add: ngx_inet_addr_def)
qed

text \<open>What the reader of IPv4 addresses accepts, the one of IPv6 addresses rejects, with whatever behind it.\<close>

lemma inet_addr_chars:
  assumes "ngx_inet_addr t \<noteq> INADDR_NONE"
  shows "list_all (\<lambda>c. digit c \<or> c = CHR ''.'') t" "CHR ''.'' \<in> set t"
proof -
  have "list_all (\<lambda>c. digit c \<or> c = CHR ''.'') t \<and> (n < 3 \<longrightarrow> CHR ''.'' \<in> set t)" if "inet_addr_loop t a oc n \<noteq> INADDR_NONE" for a oc n
    using that by (induction t a oc n rule: inet_addr_loop.induct) (auto simp: Let_def split: if_splits)
  from this [of 0 0 0] show "list_all (\<lambda>c. digit c \<or> c = CHR ''.'') t" "CHR ''.'' \<in> set t" using assms by (auto simp: ngx_inet_addr_def)
qed

lemma inet6_digits_dot:
  "list_all (\<lambda>c. digit c \<or> c = CHR ''.'') t \<Longrightarrow> CHR ''.'' \<in> set t \<Longrightarrow> i6_digit s = None \<Longrightarrow> inet6_loop (t @ x) s = None"
proof (induction t arbitrary: s)
  case (Cons c t)
  have "\<not> digit (CHR ''.'') \<and> \<not> hexalpha20 (CHR ''.'')" by (simp add: digit_def hexalpha20_iff less_eq_char_def)
  moreover have "c \<noteq> CHR '':''" using Cons.prems(1) by (auto simp: digit_def less_eq_char_def)
  ultimately show ?case using Cons by (cases "c = CHR ''.''") auto
qed simp

lemma inet_addr_not_inet6:
  assumes "ngx_inet_addr t \<noteq> INADDR_NONE"
  shows "ngx_inet6_addr (t @ x) = None" "t \<noteq> []" "hd t \<noteq> CHR ''[''" "CHR '':'' \<notin> set t"
proof -
  have nd: "\<not> digit (CHR '':'') \<and> \<not> digit (CHR ''['')" by (simp add: digit_def less_eq_char_def)
  note t = inet_addr_chars [OF assms]
  then show "t \<noteq> []" by auto
  then show "hd t \<noteq> CHR ''[''" using t(1) nd by (cases t) auto
  show "CHR '':'' \<notin> set t" using t(1) nd by (auto simp: list_all_iff)
  then have "hd (t @ x) \<noteq> CHR '':''" using \<open>t \<noteq> []\<close> by (cases t) auto
  then show "ngx_inet6_addr (t @ x) = None"
    using inet6_digits_dot [OF t, of i6_init x] \<open>t \<noteq> []\<close> by (simp add: inet6_addr_finish i6_init_def)
qed

lemma inet6_addr_dotted:
  assumes "length q = 4" "byte_list q"
  shows "ngx_inet6_addr (dotted q @ t) = None"
proof -
  have "list_all (\<lambda>c. digit c \<or> c = CHR ''.'') (dotted q)" using dotted_chars assms by (auto simp: list_all_iff)
  moreover have "CHR ''.'' \<in> set (dotted q)" by (simp add: dotted_def)
  moreover have "hd (dotted q @ t) \<noteq> CHR '':''" "dotted q \<noteq> []"
    using calculation by (cases "dotted q"; auto simp: digit_def less_eq_char_def)+
  ultimately show ?thesis using inet6_digits_dot [of "dotted q" i6_init t] by (simp add: inet6_addr_finish i6_init_def)
qed

lemma atoi_port: "n \<le> 65535 \<Longrightarrow> ngx_atoi (num_digits n 0) = int n"
  using num_dec_value [of n] by (simp add: num_digits_dec atoi.read_digits NGX_MAX_INT_T_VALUE_def)

definition sockaddr_unreadable :: "sockaddr \<Rightarrow> bool" where
  "sockaddr_unreadable sa \<longleftrightarrow> (case sa of Sin p port \<Rightarrow> p = INADDR_NONE | Sin6 p port \<Rightarrow> inet6_unreadable p | Sun path \<Rightarrow> True)"

text \<open>An address with a port behind it, and one in brackets.\<close>

lemma parse_addr_colon: "ngx_inet6_addr t = None \<Longrightarrow> CHR '':'' \<in> set t \<Longrightarrow> ngx_parse_addr alloc t = (NGX_DECLINED, None)"
  by (simp add: ngx_parse_addr_def inet_addr_colon)

lemma read_port:
  assumes "host \<noteq> []" "hd host \<noteq> CHR ''[''" "CHR '':'' \<notin> set host" "ngx_inet6_addr (host @ '':'' @ num_digits n 0) = None" "1 \<le> n" "n \<le> 65535"
  shows "ngx_parse_addr_port alloc (host @ '':'' @ num_digits n 0) = with_port (ngx_parse_addr alloc host) n"
proof -
  let ?t = "host @ '':'' @ num_digits n 0"
  have first: "ngx_parse_addr alloc ?t = (NGX_DECLINED, None)" using assms(4) by (intro parse_addr_colon) auto
  have colon: "ngx_strlchr ?t (CHR '':'') = Some (length host)" using assms(3) by (simp add: strlchr_append)
  have hd: "\<not> (?t \<noteq> [] \<and> hd ?t = CHR ''['')" using assms(1,2) by simp
  have cut: "drop (length host + 1) ?t = num_digits n 0" "take (length ?t - (length (num_digits n 0) + 1)) (drop 0 ?t) = host" by simp_all
  show ?thesis
    using atoi_port [OF assms(6)] assms(5,6)
    unfolding ngx_parse_addr_port_def Let_def with_port_def first prod.case colon if_not_P [OF hd] option.case cut
    by (cases "ngx_parse_addr alloc host") (simp split: option.split)
qed

lemma read_bracket_port:
  assumes "CHR '']'' \<notin> set host" "1 \<le> n" "n \<le> 65535"
  shows "ngx_parse_addr_port alloc (''['' @ host @ '']:'' @ num_digits n 0) = with_port (ngx_parse_addr alloc host) n"
proof -
  let ?t = "''['' @ host @ '']:'' @ num_digits n 0"
  have br: "\<not> digit (CHR ''['') \<and> \<not> hexalpha20 (CHR ''['')" by (simp add: digit_def hexalpha20_iff less_eq_char_def)
  then have first: "ngx_parse_addr alloc ?t = (NGX_DECLINED, None)" by (intro parse_addr_colon) (auto simp: inet6_addr_finish i6_init_def)
  have "ngx_strlchr ((''['' @ host) @ '']:'' @ num_digits n 0) (CHR '']'') = Some (Suc (length host))"
    using assms(1) by (subst strlchr_append) auto
  then have close: "ngx_strlchr ?t (CHR '']'') = Some (Suc (length host))" by simp
  have "?t ! (Suc (length host) + 1) = CHR '':''" "drop (Suc (length host) + 1 + 1) ?t = num_digits n 0" by (simp_all add: nth_append)
  moreover have "take (length ?t - 2 - (length (num_digits n 0) + 1)) (drop 1 ?t) = host" by simp
  ultimately show ?thesis
    using first close atoi_port [OF assms(3)] assms(2,3) unfolding ngx_parse_addr_port_def Let_def with_port_def
    by (cases "ngx_parse_addr alloc host") (simp split: option.split)
qed

lemma read_port_v4:
  assumes "length p = 4" "byte_list p" "1 \<le> n" "n \<le> 65535"
  shows "ngx_parse_addr_port True (dotted p @ '':'' @ num_digits n 0) =
    (if p = INADDR_NONE then (NGX_DECLINED, None) else (NGX_OK, Some (Sin p n)))"
proof -
  have c: "c \<noteq> CHR '':'' \<and> c \<noteq> CHR ''[''" if "c \<in> set (dotted p)" for c
    using dotted_chars [OF that assms(2,1)] by (auto simp: digit_def less_eq_char_def)
  have ne: "dotted p \<noteq> []" by (simp add: dotted_def)
  have "ngx_parse_addr True (dotted p) = (if p = INADDR_NONE then (NGX_DECLINED, None) else (NGX_OK, Some (Sin p 0)))"
    using inet_addr_dotted [OF assms(1,2)] inet6_addr_dotted [OF assms(1,2), of "[]"] by (auto simp: ngx_parse_addr_def)
  moreover have "ngx_parse_addr_port True (dotted p @ '':'' @ num_digits n 0) = with_port (ngx_parse_addr True (dotted p)) n"
    using c hd_in_set [OF ne] by (intro read_port [OF ne _ _ inet6_addr_dotted [OF assms(1,2)] assms(3,4)]) auto
  ultimately show ?thesis by (simp add: with_port_def)
qed

lemma read_port_v6:
  assumes "length p = 16" "byte_list p" "NGX_INET6_ADDRSTRLEN \<le> len" "1 \<le> n" "n \<le> 65535"
  shows "ngx_parse_addr_port True (''['' @ ngx_inet6_ntop p len @ '']:'' @ num_digits n 0) =
    (if inet6_unreadable p then (NGX_DECLINED, None) else (NGX_OK, Some (Sin6 p n)))"
proof -
  have "ngx_parse_addr True (ngx_inet6_ntop p len) = (if inet6_unreadable p then (NGX_DECLINED, None) else (NGX_OK, Some (Sin6 p 0)))"
    using inet6_read_back [OF assms(1-3)] inet_addr_colon [OF ntop_chars(2) [OF assms(1-3)]] by (simp add: ngx_parse_addr_def)
  then show ?thesis using read_bracket_port [OF ntop_chars(1) [OF assms(1-3)] assms(4,5)] by (auto simp: with_port_def)
qed

lemma sock_ntop_read:
  assumes "sockaddr_ok sa" "1 \<le> ngx_inet_get_port sa" "ngx_inet_get_port sa \<le> 65535"
    "case sa of Sin p n \<Rightarrow> 21 \<le> len | Sin6 p n \<Rightarrow> NGX_INET6_ADDRSTRLEN \<le> len | Sun path \<Rightarrow> True"
  shows "ngx_parse_addr_port True (ngx_sock_ntop sa len True) =
    (if sockaddr_unreadable sa then (NGX_DECLINED, None) else (NGX_OK, Some sa))"
proof (cases sa)
  case (Sin p n)
  have "length (dotted p @ '':'' @ num_digits n 0) \<le> len"
    using dotted_length [of p] num_dec_length [of n 5] assms Sin by (simp add: sockaddr_ok_def num_digits_dec)
  then show ?thesis using Sin assms read_port_v4 [of p n] by (simp add: ngx_sock_ntop_def sockaddr_ok_def sockaddr_unreadable_def)
next
  case (Sin6 p n)
  then show ?thesis
    using assms read_port_v6 [of p len n] by (simp add: ngx_sock_ntop_def sockaddr_ok_def sockaddr_unreadable_def)
next
  case (Sun path)
  then show ?thesis using assms(2) by simp
qed

text \<open>
  C25. What \<open>ngx_sock_ntop\<close> writes for an internet socket address, \<open>ngx_parse_addr_port\<close> reads back as that address and port, for
  both families and every form an IPv6 address is written in. The only exceptions are 255.255.255.255 and the two IPv6 addresses that
  end in it in dotted form: the readers use that value for an error and decline them.
\<close>

theorem sock_ntop_roundtrip:
  assumes "sockaddr_ok sa" "1 \<le> ngx_inet_get_port sa" "ngx_inet_get_port sa \<le> 65535" "NGX_INET6_ADDRSTRLEN + length ''[]:65535'' \<le> len"
  shows "ngx_parse_addr_port True (ngx_sock_ntop sa len True) =
    (if sockaddr_unreadable sa then (NGX_DECLINED, None) else (NGX_OK, Some sa))"
  using assms by (intro sock_ntop_read) (auto simp: NGX_INET6_ADDRSTRLEN_def split: sockaddr.splits)

text \<open>
  The text of a socket address fits the buffers of its callers: for an IPv6 address with a port the code only asks for \<open>NGX_INET6_ADDRSTRLEN\<close>
  bytes and then writes brackets, address and port without looking at the end again, and never gets past eight bytes more.
\<close>

theorem sock_ntop_fits:
  assumes "sockaddr_ok sa" "ngx_inet_get_port sa \<le> 65535" "NGX_INET6_ADDRSTRLEN + length ''[]:65535'' \<le> len"
  shows "length (ngx_sock_ntop sa len port) \<le> len \<and>
    (case sa of Sin6 p n \<Rightarrow> length (ngx_sock_ntop sa len port) \<le> NGX_INET6_ADDRSTRLEN + length ''[]:65535'' | _ \<Rightarrow> True)"
proof (cases sa)
  case (Sin6 p n)
  have "length (num_digits n 0) \<le> 5" using num_dec_length [of n 5] assms(2) Sin6 by (simp add: num_digits_dec)
  then show ?thesis using inet6_ntop_length [of p len] assms Sin6 by (auto simp: ngx_sock_ntop_def sockaddr_ok_def)
qed (auto simp: ngx_sock_ntop_def Let_def)

section \<open>Witnesses\<close>

lemma addr0_slash: "length q = 4 \<Longrightarrow> byte_list q \<Longrightarrow> CHR ''/'' \<notin> set (dotted q)"
  using dotted_chars [of "CHR ''/''" q] by (auto simp: digit_def less_eq_char_def)

theorem sock_ntop_fits_witness:
  "length (ngx_sock_ntop (Sin6 (replicate 16 255) 65535) 53 True) \<le> 53"
  using sock_ntop_fits [of "Sin6 (replicate 16 255) 65535" 53 True] by (simp add: list_all_replicate sockaddr_ok_def NGX_INET6_ADDRSTRLEN_def)

theorem cidr_match_prefix_witness:
  "\<exists>c. ngx_ptocidr (dotted [10, 1, 0, 0] @ ''/'' @ num_digits 16 0) = Some (NGX_OK, c) \<and> ngx_cidr_match (Sin [10, 1, 2, 3] 80) [c] = NGX_OK"
proof -
  have "cidr_base (dotted [10, 1, 0, 0]) = Some [10, 1, 0, 0]"
    using inet_addr_dotted [of "[10, 1, 0, 0]"] by (simp add: cidr_base_def INADDR_NONE_def)
  moreover have "True \<notin> set (drop 16 (addr_bits [10, 1, 0, 0]))" "take 16 (addr_bits [10, 1, 2, 3]) = take 16 (addr_bits [10, 1, 0, 0])"
    by (simp_all add: addr_bits_def byte_bits_def)
  ultimately show ?thesis
    using cidr_match_prefix [of "dotted [10, 1, 0, 0]" "[10, 1, 0, 0]" "num_digits 16 0" 16 "Sin [10, 1, 2, 3] 80"]
      addr0_slash [of "[10, 1, 0, 0]"] atoi_port [of 16]
    by (simp add: sockaddr_ok_def peer_addr_def)
qed

theorem sock_ntop_roundtrip_witness:
  "ngx_parse_addr_port True (ngx_sock_ntop (Sin6 (replicate 15 0 @ [1]) 8080) 64 True) = (NGX_OK, Some (Sin6 (replicate 15 0 @ [1]) 8080))"
  using sock_ntop_roundtrip [of "Sin6 (replicate 15 0 @ [1]) 8080" 64]
  by (simp add: sockaddr_ok_def list_all_replicate sockaddr_unreadable_def inet6_unreadable_def INADDR_NONE_def
      NGX_INET6_ADDRSTRLEN_def)

end
