(* ===== verification/Ngx_Url.thy ===== *)
theory Ngx_Url
  imports Ngx_Inet
begin

text \<open>
  Addresses of servers and of listening sockets, \<open>ngx_parse_url\<close> in \<open>nginx-master/src/core/ngx_inet.c\<close>: a text is split into
  host, port and URI, and the host becomes socket addresses, at once or through the resolver of the C library.
  The state is the record \<open>ngx_url\<close>, which every caller clears before it sets \<open>url\<close>, \<open>default_port\<close> and the flags.
  \<open>naddrs\<close> is the length of \<open>addrs\<close>, and \<open>socklen\<close> follows from the family. \<open>alloc i\<close> tells whether the \<open>i\<close>-th allocation
  succeeds; after an error the callers read only \<open>err\<close>, so what a failed call leaves in \<open>addrs\<close> and in the bytes of \<open>sockaddr\<close> is left out. \<open>getaddrinfo\<close> is the resolver: the list
  of socket addresses, or \<open>None\<close> for its error.
\<close>

section \<open>The state\<close>

datatype address_family = AF_UNSPEC | AF_INET | AF_INET6 | AF_UNIX

record ngx_url =
  u_url :: bytes
  u_host :: bytes
  u_port_text :: bytes
  u_uri :: bytes
  u_port :: nat
  u_default_port :: nat
  u_family :: address_family
  u_listen :: bool
  u_uri_part :: bool
  u_no_resolve :: bool
  u_no_port :: bool
  u_wildcard :: bool
  u_sockaddr :: sockaddr
  u_addrs :: "(sockaddr \<times> bytes) list"
  u_err :: "bytes option"

abbreviation url_error :: "bytes \<Rightarrow> ngx_url \<Rightarrow> ngx_int \<times> ngx_url" where
  "url_error msg u \<equiv> (NGX_ERROR, u\<lparr>u_err := Some msg\<rparr>)"

definition sun_path_size :: nat where
  "sun_path_size = 108"

text \<open>\<open>sun_path\<close> of a cleared \<open>sockaddr_un\<close> after \<open>ngx_cpystrn\<close>.\<close>

definition sun_of :: "bytes \<Rightarrow> nat \<Rightarrow> sockaddr" where
  "sun_of path n = (let w = ngx_cpystrn path n in Sun (w @ replicate (sun_path_size - length w) NUL))"

section \<open>Unix domain sockets\<close>

definition ngx_parse_unix_domain_url :: "(nat \<Rightarrow> bool) \<Rightarrow> ngx_url \<Rightarrow> ngx_int \<times> ngx_url" where
  "ngx_parse_unix_domain_url alloc u =
     (let path = drop 5 (u_url u);
          uri = (if u_uri_part u then ngx_strlchr path (CHR '':'') else None);
          u1 = (case uri of None \<Rightarrow> u | Some k \<Rightarrow> u\<lparr>u_uri := drop (Suc k) path\<rparr>);
          len = (case uri of None \<Rightarrow> length path | Some k \<Rightarrow> k) in
      if len = 0 then url_error ''no path in the unix domain socket'' u1
      else
        (let u2 = u1\<lparr>u_host := take len path\<rparr>; len1 = len + 1 in
         if len1 > sun_path_size then url_error ''too long path in the unix domain socket'' u2
         else
           (let u3 = u2\<lparr>u_sockaddr := sun_of path len1\<rparr> in
            if \<not> alloc 0 \<or> \<not> alloc 1 then (NGX_ERROR, u3)
            else (NGX_OK, u3\<lparr>u_family := AF_UNIX, u_addrs := [(sun_of path len1, take (len1 + 4) (u_url u))]\<rparr>))))"

section \<open>The resolver\<close>

text \<open>
  \<open>ngx_inet_resolve_host\<close> in the build with \<open>getaddrinfo\<close> and IPv6: the addresses of family \<open>AF_INET\<close>, then those of
  \<open>AF_INET6\<close>, each with the port. The first allocation is the copy of the host, the second the array, then two for each address.
\<close>

definition is_sin :: "sockaddr \<Rightarrow> bool" where
  "is_sin sa = (case sa of Sin a port \<Rightarrow> True | _ \<Rightarrow> False)"

definition is_sin6 :: "sockaddr \<Rightarrow> bool" where
  "is_sin6 sa = (case sa of Sin6 a port \<Rightarrow> True | _ \<Rightarrow> False)"

definition NGX_INET_ADDRSTRLEN :: nat where
  "NGX_INET_ADDRSTRLEN = length ''255.255.255.255''"

definition resolved_addr :: "nat \<Rightarrow> sockaddr \<Rightarrow> sockaddr \<times> bytes" where
  "resolved_addr port sa =
     (let sa' = ngx_inet_set_port sa port;
          len = (if is_sin sa then NGX_INET_ADDRSTRLEN + length '':65535'' else NGX_INET6_ADDRSTRLEN + length ''[]:65535'') in
      (sa', ngx_sock_ntop sa' len True))"

definition ngx_inet_resolve_host :: "(bytes \<Rightarrow> sockaddr list option) \<Rightarrow> (nat \<Rightarrow> bool) \<Rightarrow> ngx_url \<Rightarrow> ngx_int \<times> ngx_url" where
  "ngx_inet_resolve_host getaddrinfo alloc u =
     (if \<not> alloc 0 then (NGX_ERROR, u)
      else
        (case getaddrinfo (cstr (u_host u)) of
           None \<Rightarrow> url_error ''host not found'' u
         | Some res \<Rightarrow>
             (let found = filter is_sin res @ filter is_sin6 res in
              if found = [] then url_error ''host not found'' u
              else if \<not> list_all alloc [1..<2 + 2 * length found] then (NGX_ERROR, u)
              else (NGX_OK, u\<lparr>u_addrs := map (resolved_addr (u_port u)) found\<rparr>))))"

section \<open>Host names and IPv4 addresses\<close>

definition url_uri_start :: "bytes \<Rightarrow> nat option" where
  "url_uri_start url =
     (case (ngx_strlchr url (CHR ''/''), ngx_strlchr url (CHR ''?'')) of
        (uri, None) \<Rightarrow> uri
      | (None, Some args) \<Rightarrow> Some args
      | (Some uri, Some args) \<Rightarrow> Some (if args < uri then args else uri))"

definition family_of :: "sockaddr \<Rightarrow> address_family" where
  "family_of sa = (case sa of Sin a port \<Rightarrow> AF_INET | Sin6 a port \<Rightarrow> AF_INET6 | Sun path \<Rightarrow> AF_UNIX)"

definition any_addr :: "sockaddr \<Rightarrow> bool" where
  "any_addr sa = (case sa of Sin a port \<Rightarrow> a = replicate 4 0 | Sin6 a port \<Rightarrow> a = replicate 16 0 | Sun path \<Rightarrow> False)"

text \<open>The end of \<open>ngx_parse_inet_url\<close>, with the host and the port at hand.\<close>

definition inet_url_addr :: "(bytes \<Rightarrow> sockaddr list option) \<Rightarrow> (nat \<Rightarrow> bool) \<Rightarrow> ngx_url \<Rightarrow> ngx_int \<times> ngx_url" where
  "inet_url_addr getaddrinfo alloc u =
     (let host = u_host u in
      if u_listen u \<and> host = ''*'' then (NGX_OK, u\<lparr>u_sockaddr := Sin (replicate 4 0) (u_port u), u_wildcard := True\<rparr>)
      else
        (let addr = ngx_inet_addr host; sa = Sin addr (u_port u); u1 = u\<lparr>u_sockaddr := sa\<rparr> in
         if addr \<noteq> INADDR_NONE then
           (let u2 = (if addr = replicate 4 0 then u1\<lparr>u_wildcard := True\<rparr> else u1) in
            if \<not> list_all alloc [0..<3] then (NGX_ERROR, u2)
            else (NGX_OK, u2\<lparr>u_addrs := [(sa, host @ '':'' @ num_digits (u_port u) 0)]\<rparr>))
         else if u_no_resolve u then (NGX_OK, u1)
         else
           (case ngx_inet_resolve_host getaddrinfo alloc u1 of
              (rc, u2) \<Rightarrow>
                if rc \<noteq> NGX_OK then (NGX_ERROR, u2)
                else
                  (let sa' = fst (hd (u_addrs u2));
                       u3 = u2\<lparr>u_family := family_of sa', u_sockaddr := sa'\<rparr> in
                   (NGX_OK, if any_addr sa' then u3\<lparr>u_wildcard := True\<rparr> else u3)))))"

definition url_with_host :: "(bytes \<Rightarrow> sockaddr list option) \<Rightarrow> (nat \<Rightarrow> bool) \<Rightarrow> bytes \<Rightarrow> ngx_url \<Rightarrow> ngx_int \<times> ngx_url" where
  "url_with_host getaddrinfo alloc host u =
     (if host = [] then url_error ''no host'' u else inet_url_addr getaddrinfo alloc (u\<lparr>u_host := host\<rparr>))"

text \<open>The port: the text behind the first colon before the URI, the whole text of a listening socket if it is a number, or the default.\<close>

definition inet_url_port ::
    "(bytes \<Rightarrow> sockaddr list option) \<Rightarrow> (nat \<Rightarrow> bool) \<Rightarrow> bool \<Rightarrow> nat \<Rightarrow> nat option \<Rightarrow> ngx_url \<Rightarrow> ngx_int \<times> ngx_url" where
  "inet_url_port getaddrinfo alloc has_uri end_pos port u =
     (let url = u_url u in
      case port of
        Some q \<Rightarrow>
          (let text = drop (Suc q) (take end_pos url); n = ngx_atoi text in
           if n < 1 \<or> n > 65535 then url_error ''invalid port'' u
           else
             url_with_host getaddrinfo alloc (take q url)
               (u\<lparr>u_port := nat n, u_sockaddr := Sin (replicate 4 0) (nat n), u_port_text := text\<rparr>))
      | None \<Rightarrow>
          (let n = ngx_atoi (take end_pos url) in
           if \<not> has_uri \<and> u_listen u \<and> n \<noteq> NGX_ERROR then
             (if n < 1 \<or> n > 65535 then url_error ''invalid port'' u
              else (NGX_OK, u\<lparr>u_port := nat n, u_sockaddr := Sin (replicate 4 0) (nat n), u_port_text := take end_pos url, u_wildcard := True\<rparr>))
           else
             url_with_host getaddrinfo alloc (take end_pos url)
               (u\<lparr>u_no_port := True, u_port := u_default_port u, u_sockaddr := Sin (replicate 4 0) (u_default_port u)\<rparr>)))"

definition ngx_parse_inet_url :: "(bytes \<Rightarrow> sockaddr list option) \<Rightarrow> (nat \<Rightarrow> bool) \<Rightarrow> ngx_url \<Rightarrow> ngx_int \<times> ngx_url" where
  "ngx_parse_inet_url getaddrinfo alloc u0 =
     (let url = u_url u0;
          u = u0\<lparr>u_family := AF_INET, u_sockaddr := Sin (replicate 4 0) 0\<rparr>;
          port = ngx_strlchr url (CHR '':'') in
      case url_uri_start url of
        None \<Rightarrow> inet_url_port getaddrinfo alloc False (length url) port u
      | Some uri \<Rightarrow>
          if u_listen u \<or> \<not> u_uri_part u then url_error ''invalid host'' u
          else
            inet_url_port getaddrinfo alloc True uri
              (case port of None \<Rightarrow> None | Some q \<Rightarrow> if uri < q then None else Some q) (u\<lparr>u_uri := drop uri url\<rparr>))"

section \<open>IPv6 addresses\<close>

definition inet6_url_addr :: "(nat \<Rightarrow> bool) \<Rightarrow> bytes \<Rightarrow> ngx_url \<Rightarrow> ngx_int \<times> ngx_url" where
  "inet6_url_addr alloc host u =
     (if host = [] then url_error ''no host'' u
      else
        (let u1 = u\<lparr>u_host := ''['' @ host @ '']''\<rparr> in
         case ngx_inet6_addr host of
           None \<Rightarrow> url_error ''invalid IPv6 address'' u1
         | Some a \<Rightarrow>
             (let sa = Sin6 a (u_port u);
                  u2 = u1\<lparr>u_sockaddr := sa, u_wildcard := (a = replicate 16 0 \<or> u_wildcard u1), u_family := AF_INET6\<rparr> in
              if \<not> list_all alloc [0..<3] then (NGX_ERROR, u2)
              else (NGX_OK, u2\<lparr>u_addrs := [(sa, u_host u1 @ '':'' @ num_digits (u_port u) 0)]\<rparr>))))"

definition inet6_url_port :: "(nat \<Rightarrow> bool) \<Rightarrow> bytes \<Rightarrow> bytes \<Rightarrow> ngx_url \<Rightarrow> ngx_int \<times> ngx_url" where
  "inet6_url_port alloc host port u =
     (if port \<noteq> [] then
        (if hd port \<noteq> CHR '':'' then url_error ''invalid host'' u
         else
           (let n = ngx_atoi (tl port) in
            if n < 1 \<or> n > 65535 then url_error ''invalid port'' u
            else inet6_url_addr alloc host
                   (u\<lparr>u_port := nat n, u_sockaddr := Sin6 (replicate 16 0) (nat n), u_port_text := tl port\<rparr>)))
      else inet6_url_addr alloc host
             (u\<lparr>u_no_port := True, u_port := u_default_port u, u_sockaddr := Sin6 (replicate 16 0) (u_default_port u)\<rparr>))"

definition ngx_parse_inet6_url :: "(nat \<Rightarrow> bool) \<Rightarrow> ngx_url \<Rightarrow> ngx_int \<times> ngx_url" where
  "ngx_parse_inet6_url alloc u0 =
     (let url = u_url u0; u = u0\<lparr>u_sockaddr := Sin6 (replicate 16 0) 0\<rparr> in
      case ngx_strlchr (drop 1 url) (CHR '']'') of
        None \<Rightarrow> url_error ''invalid host'' u
      | Some k \<Rightarrow>
          (let host = take k (drop 1 url); rest = drop (k + 2) url in
           case ngx_strlchr rest (CHR ''/'') of
             None \<Rightarrow> inet6_url_port alloc host rest u
           | Some uri \<Rightarrow>
               if u_listen u \<or> \<not> u_uri_part u then url_error ''invalid host'' u
               else inet6_url_port alloc host (take uri rest) (u\<lparr>u_uri := drop uri rest\<rparr>)))"

definition ngx_parse_url :: "(bytes \<Rightarrow> sockaddr list option) \<Rightarrow> (nat \<Rightarrow> bool) \<Rightarrow> ngx_url \<Rightarrow> ngx_int \<times> ngx_url" where
  "ngx_parse_url getaddrinfo alloc u =
     (let p = u_url u in
      if length p \<ge> 5 \<and> ngx_strncasecmp p ''unix:'' 5 = 0 then ngx_parse_unix_domain_url alloc u
      else if p \<noteq> [] \<and> hd p = CHR ''['' then ngx_parse_inet6_url alloc u
      else ngx_parse_inet_url getaddrinfo alloc u)"

section \<open>The parts of the text\<close>

definition unix_url :: "bytes \<Rightarrow> bool" where
  "unix_url p \<longleftrightarrow> length p \<ge> 5 \<and> ngx_strncasecmp p ''unix:'' 5 = 0"

text \<open>Host, port and URI put together again; a host in brackets keeps them.\<close>

definition url_join :: "bytes \<Rightarrow> bytes \<Rightarrow> bytes \<Rightarrow> bytes" where
  "url_join host port uri = host @ (if port = [] then [] else (if host = [] then [] else '':'') @ port) @ uri"

definition url_ports :: "nat \<Rightarrow> ngx_url \<Rightarrow> bool" where
  "url_ports def u \<longleftrightarrow>
     (if u_no_port u then u_port u = def \<and> u_port_text u = []
      else 1 \<le> u_port u \<and> u_port u \<le> 65535 \<and> ngx_atoi (u_port_text u) = int (u_port u))"

lemma strlchr_split:
  assumes "ngx_strlchr xs c = Some k"
  shows "k < length xs" "xs ! k = c" "c \<notin> set (take k xs)"
  using strlchr_find [of c xs] assms by simp_all

lemma uri_start:
  assumes "url_uri_start url = Some k"
  shows "k < length url" "url ! k \<noteq> CHR '':''"
proof -
  have "k < length url \<and> url ! k \<noteq> CHR '':''"
    using assms strlchr_split [of url "CHR ''/''"] strlchr_split [of url "CHR ''?''"]
    by (auto simp: url_uri_start_def split: option.splits if_splits)
  then show "k < length url" "url ! k \<noteq> CHR '':''" by simp_all
qed

text \<open>What the end of the parsers leaves as it was.\<close>

definition same_parts :: "ngx_url \<Rightarrow> ngx_url \<Rightarrow> bool" where
  "same_parts u v \<longleftrightarrow> u_host u = u_host v \<and> u_port_text u = u_port_text v \<and> u_uri u = u_uri v \<and> u_no_port u = u_no_port v \<and> u_port u = u_port v"

lemma same_parts_simps [simp]:
  "same_parts u u" "same_parts (u\<lparr>u_sockaddr := x\<rparr>) v = same_parts u v" "same_parts u (v\<lparr>u_sockaddr := x\<rparr>) = same_parts u v"
  "same_parts (u\<lparr>u_wildcard := b\<rparr>) v = same_parts u v" "same_parts (u\<lparr>u_family := fam\<rparr>) v = same_parts u v"
  "same_parts (u\<lparr>u_addrs := as\<rparr>) v = same_parts u v" "same_parts (u\<lparr>u_err := e\<rparr>) v = same_parts u v"
  by (simp_all add: same_parts_def)

lemma resolve_keeps: "ngx_inet_resolve_host g alloc u = (rc, u') \<Longrightarrow> same_parts u' u"
  by (auto simp: ngx_inet_resolve_host_def Let_def split: if_splits option.splits)

lemma inet_addr_keeps:
  assumes "inet_url_addr g alloc u = (rc, u')"
  shows "same_parts u' u"
proof -
  obtain rc2 u2 where r: "ngx_inet_resolve_host g alloc (u\<lparr>u_sockaddr := Sin (ngx_inet_addr (u_host u)) (u_port u)\<rparr>) = (rc2, u2)" by (rule prod.exhaust)
  have "same_parts u2 u" using resolve_keeps [OF r] by simp
  then show ?thesis using assms unfolding inet_url_addr_def Let_def r prod.case by (simp split: if_splits) auto
qed

lemma with_host_keeps:
  assumes "url_with_host g alloc host u = (NGX_OK, u')"
  shows "host \<noteq> []" "same_parts u' (u\<lparr>u_host := host\<rparr>)"
  using assms inet_addr_keeps by (auto simp: url_with_host_def split: if_splits)

lemma inet6_addr_keeps:
  assumes "inet6_url_addr alloc host u = (NGX_OK, u')"
  shows "same_parts u' (u\<lparr>u_host := ''['' @ host @ '']''\<rparr>)"
  using assms by (auto simp: inet6_url_addr_def Let_def split: if_splits option.splits)

definition cut_ok :: "bytes \<Rightarrow> nat \<Rightarrow> ngx_url \<Rightarrow> bool" where
  "cut_ok url def u \<longleftrightarrow> url = url_join (u_host u) (u_port_text u) (u_uri u) \<and> url_ports def u"

lemma port_nat: "\<not> (n < 1 \<or> n > 65535) \<Longrightarrow> Suc 0 \<le> nat n \<and> nat n \<le> 65535 \<and> int (nat n) = n"
  by auto

lemma atoi_text: "1 \<le> ngx_atoi t \<Longrightarrow> t \<noteq> []"
  by (cases t) (simp_all add: ngx_atoi_def)

lemma inet_port_parts:
  assumes "inet_url_port g alloc has_uri k port u = (NGX_OK, u')"
    and u: "u_uri u = drop k (u_url u)" "u_port_text u = []" "u_host u = []" "\<not> u_no_port u" "\<not> has_uri \<Longrightarrow> k = length (u_url u)"
    and port: "\<And>q. port = Some q \<Longrightarrow> q < k \<and> q < length (u_url u) \<and> u_url u ! q = CHR '':''"
  shows "cut_ok (u_url u) (u_default_port u) u'"
proof (cases port)
  case (Some q)
  let ?url = "u_url u"
  let ?text = "drop (Suc q) (take k ?url)"
  have "take k ?url = take q (take k ?url) @ '':'' @ ?text" using port [OF Some] id_take_nth_drop [of q "take k ?url"] by simp
  then have "?url = (take q ?url @ '':'' @ ?text) @ drop k ?url" using port [OF Some] by (metis append_take_drop_id take_take min.absorb1 less_imp_le)
  moreover have n: "\<not> (ngx_atoi ?text < 1 \<or> ngx_atoi ?text > 65535)"
    and h: "url_with_host g alloc (take q ?url)
        (u\<lparr>u_port := nat (ngx_atoi ?text), u_sockaddr := Sin (replicate 4 0) (nat (ngx_atoi ?text)), u_port_text := ?text\<rparr>) = (NGX_OK, u')"
    using assms(1) Some unfolding inet_url_port_def Let_def by (simp_all split: if_splits)
  moreover have "?text \<noteq> []" using n by (intro atoi_text) simp
  ultimately show ?thesis using with_host_keeps [OF h] u port_nat [OF n] by (simp add: same_parts_def cut_ok_def url_join_def url_ports_def)
next
  case None
  let ?n = "ngx_atoi (take k (u_url u))"
  show ?thesis
  proof (cases "\<not> has_uri \<and> u_listen u \<and> ?n \<noteq> NGX_ERROR")
    case True
    then have "u' = u\<lparr>u_port := nat ?n, u_sockaddr := Sin (replicate 4 0) (nat ?n), u_port_text := take k (u_url u), u_wildcard := True\<rparr>" "1 \<le> ?n" "?n \<le> 65535"
      using assms(1) None unfolding inet_url_port_def Let_def by (auto split: if_splits)
    moreover have "take k (u_url u) \<noteq> []" using calculation(2) by (rule atoi_text)
    ultimately show ?thesis using u True by (auto simp: cut_ok_def url_join_def url_ports_def)
  next
    case False
    then have h: "url_with_host g alloc (take k (u_url u))
        (u\<lparr>u_no_port := True, u_port := u_default_port u, u_sockaddr := Sin (replicate 4 0) (u_default_port u)\<rparr>) = (NGX_OK, u')"
      using assms(1) None unfolding inet_url_port_def Let_def by (auto split: if_splits)
    then show ?thesis using with_host_keeps [OF h] u by (simp add: same_parts_def cut_ok_def url_join_def url_ports_def)
  qed
qed

lemma inet_url_parts:
  assumes "ngx_parse_inet_url g alloc u = (NGX_OK, u')" "u_port_text u = []" "u_uri u = []" "u_host u = []" "\<not> u_no_port u"
  shows "cut_ok (u_url u) (u_default_port u) u'"
proof (cases "url_uri_start (u_url u)")
  case None
  let ?u = "u\<lparr>u_family := AF_INET, u_sockaddr := Sin (replicate 4 0) 0\<rparr>"
  have "inet_url_port g alloc False (length (u_url u)) (ngx_strlchr (u_url u) (CHR '':'')) ?u = (NGX_OK, u')"
    using assms(1) None by (simp add: ngx_parse_inet_url_def Let_def)
  then have "cut_ok (u_url ?u) (u_default_port ?u) u'"
    using assms(2-5) strlchr_split(1,2) [of "u_url u" "CHR '':''"] by (intro inet_port_parts) auto
  then show ?thesis by simp
next
  case (Some k)
  let ?u = "u\<lparr>u_family := AF_INET, u_sockaddr := Sin (replicate 4 0) 0, u_uri := drop k (u_url u)\<rparr>"
  let ?p = "case ngx_strlchr (u_url u) (CHR '':'') of None \<Rightarrow> None | Some q \<Rightarrow> if k < q then None else Some q"
  have "inet_url_port g alloc True k ?p ?u = (NGX_OK, u')"
    using assms(1) Some by (simp add: ngx_parse_inet_url_def Let_def split: if_splits)
  moreover have "q < k \<and> q < length (u_url u) \<and> u_url u ! q = CHR '':''" if "?p = Some q" for q
  proof -
    have "ngx_strlchr (u_url u) (CHR '':'') = Some q" "q \<le> k" using that by (auto split: option.splits if_splits)
    moreover from this have "q \<noteq> k" using strlchr_split(2) uri_start(2) [OF Some] by auto
    ultimately show ?thesis using strlchr_split(1,2) by auto
  qed
  ultimately show ?thesis using inet_port_parts [of g alloc True k ?p ?u u'] assms by simp
qed

lemma inet6_port_parts:
  assumes "inet6_url_port alloc host port u = (NGX_OK, u')" "u_port_text u = []" "u_host u = []" "\<not> u_no_port u"
  shows "cut_ok ((''['' @ host @ '']'') @ port @ u_uri u) (u_default_port u) u'"
proof (cases port)
  case Nil
  then have h: "inet6_url_addr alloc host (u\<lparr>u_no_port := True, u_port := u_default_port u, u_sockaddr := Sin6 (replicate 16 0) (u_default_port u)\<rparr>) = (NGX_OK, u')"
    using assms(1) by (simp add: inet6_url_port_def)
  show ?thesis using inet6_addr_keeps [OF h] assms Nil by (simp add: same_parts_def cut_ok_def url_join_def url_ports_def)
next
  case (Cons c t)
  then have c: "c = CHR '':''" and n: "\<not> (ngx_atoi t < 1 \<or> ngx_atoi t > 65535)"
    and h: "inet6_url_addr alloc host (u\<lparr>u_port := nat (ngx_atoi t), u_sockaddr := Sin6 (replicate 16 0) (nat (ngx_atoi t)), u_port_text := t\<rparr>) = (NGX_OK, u')"
    using assms(1) by (simp_all add: inet6_url_port_def Let_def split: if_splits)
  have "t \<noteq> []" using n by (intro atoi_text) simp
  then show ?thesis using inet6_addr_keeps [OF h] assms Cons c port_nat [OF n] by (simp add: same_parts_def cut_ok_def url_join_def url_ports_def)
qed

lemma inet6_url_parts:
  assumes "ngx_parse_inet6_url alloc u = (NGX_OK, u')" "u_port_text u = []" "u_uri u = []" "u_host u = []" "\<not> u_no_port u"
    "u_url u \<noteq> []" "hd (u_url u) = CHR ''[''"
  shows "cut_ok (u_url u) (u_default_port u) u'"
proof -
  let ?url = "u_url u"
  let ?u = "u\<lparr>u_sockaddr := Sin6 (replicate 16 0) 0\<rparr>"
  obtain k where k: "ngx_strlchr (drop 1 ?url) (CHR '']'') = Some k"
    using assms(1) by (cases "ngx_strlchr (drop 1 ?url) (CHR '']'')") (auto simp: ngx_parse_inet6_url_def Let_def)
  define h r where "h = take k (drop 1 ?url)" and "r = drop (k + 2) ?url"
  have "drop 1 ?url = h @ '']'' @ r"
    using strlchr_split(1,2) [OF k] id_take_nth_drop [of k "drop 1 ?url"] by (simp add: h_def r_def add.commute)
  then have url: "?url = (''['' @ h @ '']'') @ r" using assms(6,7) by (cases ?url) auto
  have parse: "ngx_parse_inet6_url alloc u =
      (case ngx_strlchr r (CHR ''/'') of None \<Rightarrow> inet6_url_port alloc h r ?u
       | Some uri \<Rightarrow> if u_listen ?u \<or> \<not> u_uri_part ?u then url_error ''invalid host'' ?u
                     else inet6_url_port alloc h (take uri r) (?u\<lparr>u_uri := drop uri r\<rparr>))"
    unfolding ngx_parse_inet6_url_def Let_def k option.case h_def r_def ..
  show ?thesis
  proof (cases "ngx_strlchr r (CHR ''/'')")
    case None
    then have "inet6_url_port alloc h r ?u = (NGX_OK, u')" using assms(1) parse by simp
    then have "cut_ok ((''['' @ h @ '']'') @ r @ u_uri ?u) (u_default_port ?u) u'" by (rule inet6_port_parts) (simp_all add: assms)
    then show ?thesis unfolding url using assms(3) by simp
  next
    case (Some j)
    then have "inet6_url_port alloc h (take j r) (?u\<lparr>u_uri := drop j r\<rparr>) = (NGX_OK, u')" using assms(1) parse by (simp split: if_splits)
    then have "cut_ok ((''['' @ h @ '']'') @ take j r @ u_uri (?u\<lparr>u_uri := drop j r\<rparr>)) (u_default_port (?u\<lparr>u_uri := drop j r\<rparr>)) u'"
      by (rule inet6_port_parts) (simp_all add: assms)
    then show ?thesis unfolding url by simp
  qed
qed

lemma unix_url_parts:
  assumes "ngx_parse_unix_domain_url alloc u = (NGX_OK, u')" "u_uri u = []" "5 \<le> length (u_url u)"
  shows "u_host u' \<noteq> [] \<and> length (u_host u') < sun_path_size \<and>
    u_url u = take 5 (u_url u) @ u_host u' @ (if u_uri_part u \<and> CHR '':'' \<in> set (drop 5 (u_url u)) then '':'' else []) @ u_uri u'"
proof -
  let ?p = "drop 5 (u_url u)"
  show ?thesis
  proof (cases "if u_uri_part u then ngx_strlchr ?p (CHR '':'') else None")
    case None
    then have "\<not> (u_uri_part u \<and> CHR '':'' \<in> set ?p)" using strlchr_find [of "CHR '':''" ?p] by (auto split: if_splits)
    then show ?thesis using assms None by (auto simp: ngx_parse_unix_domain_url_def Let_def split: if_splits)
  next
    case (Some k)
    then have k: "ngx_strlchr ?p (CHR '':'') = Some k" "u_uri_part u" by (auto split: if_splits)
    have "?p = take k ?p @ '':'' @ drop (Suc k) ?p" using strlchr_split(1,2) [OF k(1)] id_take_nth_drop [of k ?p] by simp
    then have "u_url u = take 5 (u_url u) @ take k ?p @ '':'' @ drop (Suc k) ?p" by (metis append_take_drop_id)
    moreover have "CHR '':'' \<in> set ?p" "k < length ?p" using strlchr_split(1,2) [OF k(1)] by (auto simp: in_set_conv_nth)
    ultimately show ?thesis using assms k by (auto simp: ngx_parse_unix_domain_url_def Let_def split: if_splits)
  qed
qed

text \<open>
  C23. \<open>ngx_parse_url\<close> cuts an accepted text without losing or inventing a byte: host, port and URI put together again are the text, in each of its
  forms (unix socket, IPv6 address in brackets, host or IPv4 address, port alone). Without a port the default is taken; a port in
  the text is the number it spells, from 1 to 65535; and the path of a unix socket fits its address with the terminator.
\<close>

theorem url_parts:
  assumes "ngx_parse_url g alloc u = (NGX_OK, u')" "u_port_text u = []" "u_uri u = []" "u_host u = []" "\<not> u_no_port u"
  shows "if unix_url (u_url u) then
      u_host u' \<noteq> [] \<and> length (u_host u') < sun_path_size \<and>
      u_url u = take 5 (u_url u) @ u_host u' @ (if u_uri_part u \<and> CHR '':'' \<in> set (drop 5 (u_url u)) then '':'' else []) @ u_uri u'
    else
      u_url u = url_join (u_host u') (u_port_text u') (u_uri u') \<and> url_ports (u_default_port u) u'"
proof (cases "unix_url (u_url u)")
  case True
  then have "ngx_parse_unix_domain_url alloc u = (NGX_OK, u')" "5 \<le> length (u_url u)" using assms(1) by (auto simp: ngx_parse_url_def Let_def unix_url_def)
  from unix_url_parts [OF this(1) assms(3) this(2)] True show ?thesis by simp
next
  case False
  have "cut_ok (u_url u) (u_default_port u) u'"
  proof (cases "u_url u \<noteq> [] \<and> hd (u_url u) = CHR ''[''")
    case True
    then have "ngx_parse_inet6_url alloc u = (NGX_OK, u')" using assms(1) False by (auto simp: ngx_parse_url_def Let_def unix_url_def split: if_splits)
    then show ?thesis using inet6_url_parts assms True by blast
  next
    case inet: False
    then have "ngx_parse_inet_url g alloc u = (NGX_OK, u')" using assms(1) False by (auto simp: ngx_parse_url_def Let_def unix_url_def)
    then show ?thesis using inet_url_parts assms by blast
  qed
  then show ?thesis using False by (simp add: cut_ok_def)
qed

section \<open>The addresses\<close>

definition addr_named :: "nat \<Rightarrow> sockaddr \<times> bytes \<Rightarrow> bool" where
  "addr_named port x \<longleftrightarrow>
     (case x of (sa, name) \<Rightarrow>
        sockaddr_ok sa \<and> ngx_inet_get_port sa = port \<and>
        (sockaddr_unreadable sa \<or> ngx_parse_addr_port True name = (NGX_OK, Some sa)))"

definition addrs_named :: "ngx_url \<Rightarrow> bool" where
  "addrs_named u \<longleftrightarrow>
     list_all (addr_named (u_port u)) (u_addrs u) \<and> (u_addrs u \<noteq> [] \<longrightarrow> u_sockaddr u = fst (hd (u_addrs u)) \<and> u_family u = family_of (u_sockaddr u))"

text \<open>What the resolver returns: socket addresses of the size their family has.\<close>

definition resolver_ok :: "(bytes \<Rightarrow> sockaddr list option) \<Rightarrow> bool" where
  "resolver_ok g \<longleftrightarrow> (\<forall>host res. g host = Some res \<longrightarrow> list_all sockaddr_ok res)"

lemma resolved_named:
  assumes "sockaddr_ok sa" "is_sin sa \<or> is_sin6 sa" "1 \<le> port" "port \<le> 65535"
  shows "addr_named port (resolved_addr port sa)"
proof -
  let ?sa = "ngx_inet_set_port sa port"
  let ?len = "if is_sin sa then NGX_INET_ADDRSTRLEN + length '':65535'' else NGX_INET6_ADDRSTRLEN + length ''[]:65535''"
  have ok: "sockaddr_ok ?sa" "ngx_inet_get_port ?sa = port"
    using assms(1,2) by (auto simp: sockaddr_ok_def is_sin_def is_sin6_def split: sockaddr.splits)
  moreover have "case ?sa of Sin p n \<Rightarrow> 21 \<le> ?len | Sin6 p n \<Rightarrow> NGX_INET6_ADDRSTRLEN \<le> ?len | Sun path \<Rightarrow> True"
    by (cases sa) (simp_all add: is_sin_def NGX_INET_ADDRSTRLEN_def)
  ultimately show ?thesis using sock_ntop_read [of ?sa ?len] assms(3,4) by (simp add: addr_named_def resolved_addr_def Let_def)
qed

lemma resolve_named:
  assumes "ngx_inet_resolve_host g alloc u = (NGX_OK, u')" "resolver_ok g" "1 \<le> u_port u" "u_port u \<le> 65535"
  shows "list_all (addr_named (u_port u)) (u_addrs u')" "u_addrs u' \<noteq> []"
proof -
  obtain res where g: "g (cstr (u_host u)) = Some res" and u': "u' = u\<lparr>u_addrs := map (resolved_addr (u_port u)) (filter is_sin res @ filter is_sin6 res)\<rparr>"
    and ne: "filter is_sin res @ filter is_sin6 res \<noteq> []"
    using assms(1) unfolding ngx_inet_resolve_host_def Let_def by (auto split: if_splits option.splits)
  have "list_all sockaddr_ok res" using assms(2) g by (auto simp: resolver_ok_def)
  then show "list_all (addr_named (u_port u)) (u_addrs u')" using resolved_named assms(3,4) by (auto simp: u' list_all_iff)
  show "u_addrs u' \<noteq> []" using ne by (simp add: u')
qed

lemma host_named:
  assumes "ngx_inet_addr host \<noteq> INADDR_NONE" "1 \<le> port" "port \<le> 65535"
  shows "addr_named port (Sin (ngx_inet_addr host) port, host @ '':'' @ num_digits port 0)"
proof -
  note h = inet_addr_not_inet6 [OF assms(1)]
  have "ngx_parse_addr True host = (NGX_OK, Some (Sin (ngx_inet_addr host) 0))" using assms(1) by (simp add: ngx_parse_addr_def)
  then show ?thesis using read_port [OF h(2,3,4,1) assms(2,3)] by (simp add: addr_named_def sockaddr_ok_def with_port_def)
qed

lemma host6_named:
  assumes "ngx_inet6_addr host = Some a" "CHR '']'' \<notin> set host" "1 \<le> port" "port \<le> 65535"
  shows "addr_named port (Sin6 a port, (''['' @ host @ '']'') @ '':'' @ num_digits port 0)"
proof -
  have "ngx_inet_addr host = INADDR_NONE" using inet_addr_not_inet6(1) [of host "[]"] assms(1) by auto
  then have "ngx_parse_addr True host = (NGX_OK, Some (Sin6 a 0))" using assms(1) by (simp add: ngx_parse_addr_def)
  then show ?thesis
    using read_bracket_port [OF assms(2-4), of True] inet6_addr_length [OF assms(1)] by (simp add: addr_named_def sockaddr_ok_def with_port_def)
qed

lemma inet_addr_named:
  assumes "inet_url_addr g alloc u = (NGX_OK, u')" "resolver_ok g" "1 \<le> u_port u" "u_port u \<le> 65535" "u_addrs u = []" "u_family u = AF_INET"
  shows "addrs_named u'"
proof -
  let ?a = "ngx_inet_addr (u_host u)"
  let ?u = "u\<lparr>u_sockaddr := Sin ?a (u_port u)\<rparr>"
  obtain rc2 u2 where r: "ngx_inet_resolve_host g alloc ?u = (rc2, u2)" by (rule prod.exhaust)
  have port: "u_port u2 = u_port u" using resolve_keeps [OF r] by (simp add: same_parts_def)
  consider "u_addrs u' = []"
    | "?a \<noteq> INADDR_NONE" "u_addrs u' = [(Sin ?a (u_port u), u_host u @ '':'' @ num_digits (u_port u) 0)]" "u_port u' = u_port u"
      "u_sockaddr u' = Sin ?a (u_port u)" "u_family u' = AF_INET"
    | "rc2 = NGX_OK" "u_addrs u' = u_addrs u2" "u_port u' = u_port u2" "u_sockaddr u' = fst (hd (u_addrs u2))" "u_family u' = family_of (fst (hd (u_addrs u2)))"
    using assms(1,5,6) unfolding inet_url_addr_def Let_def r prod.case by (auto split: if_splits)
  then show ?thesis
  proof cases
    case 1
    then show ?thesis by (simp add: addrs_named_def)
  next
    case 2
    then show ?thesis using host_named [OF 2(1) assms(3,4)] by (simp add: addrs_named_def family_of_def)
  next
    case 3
    then show ?thesis using resolve_named [of g alloc ?u u2] r assms(2-4) port by (simp add: addrs_named_def)
  qed
qed

lemma with_host_named:
  assumes "url_with_host g alloc host u = (NGX_OK, u')" "resolver_ok g" "1 \<le> u_port u" "u_port u \<le> 65535" "u_addrs u = []" "u_family u = AF_INET"
  shows "addrs_named u'"
  using assms inet_addr_named [of g alloc "u\<lparr>u_host := host\<rparr>" u'] by (simp add: url_with_host_def split: if_splits)

lemma inet_port_named:
  assumes "inet_url_port g alloc has_uri k port u = (NGX_OK, u')" "resolver_ok g"
    "1 \<le> u_default_port u" "u_default_port u \<le> 65535" "u_addrs u = []" "u_family u = AF_INET"
  shows "addrs_named u'"
proof (cases port)
  case (Some q)
  let ?n = "ngx_atoi (drop (Suc q) (take k (u_url u)))"
  have n: "\<not> (?n < 1 \<or> ?n > 65535)"
    and h: "url_with_host g alloc (take q (u_url u))
        (u\<lparr>u_port := nat ?n, u_sockaddr := Sin (replicate 4 0) (nat ?n), u_port_text := drop (Suc q) (take k (u_url u))\<rparr>) = (NGX_OK, u')"
    using assms(1) Some unfolding inet_url_port_def Let_def by (simp_all split: if_splits)
  show ?thesis using with_host_named [OF h assms(2)] port_nat [OF n] assms(5,6) by simp
next
  case None
  let ?u = "u\<lparr>u_no_port := True, u_port := u_default_port u, u_sockaddr := Sin (replicate 4 0) (u_default_port u)\<rparr>"
  consider "u_addrs u' = []" | "url_with_host g alloc (take k (u_url u)) ?u = (NGX_OK, u')"
    using assms(1,5) None unfolding inet_url_port_def Let_def by (auto split: if_splits)
  then show ?thesis
  proof cases
    case 2
    then show ?thesis by (rule with_host_named) (use assms in simp_all)
  qed (simp add: addrs_named_def)
qed

lemma inet6_addr_named:
  assumes "inet6_url_addr alloc host u = (NGX_OK, u')" "CHR '']'' \<notin> set host" "1 \<le> u_port u" "u_port u \<le> 65535"
  shows "addrs_named u'"
proof -
  obtain a where a: "ngx_inet6_addr host = Some a" using assms(1) by (auto simp: inet6_url_addr_def Let_def split: if_splits option.splits)
  have "u_addrs u' = [(Sin6 a (u_port u), (''['' @ host @ '']'') @ '':'' @ num_digits (u_port u) 0)]" "u_port u' = u_port u"
      "u_sockaddr u' = Sin6 a (u_port u)" "u_family u' = AF_INET6"
    using assms(1) a by (auto simp: inet6_url_addr_def Let_def split: if_splits)
  then show ?thesis using host6_named [OF a assms(2-4)] by (simp add: addrs_named_def family_of_def)
qed

lemma inet6_port_named:
  assumes "inet6_url_port alloc host port u = (NGX_OK, u')" "CHR '']'' \<notin> set host" "1 \<le> u_default_port u" "u_default_port u \<le> 65535"
  shows "addrs_named u'"
proof (cases port)
  case Nil
  then show ?thesis using assms inet6_addr_named [of alloc host] by (simp add: inet6_url_port_def)
next
  case (Cons c t)
  then have n: "\<not> (ngx_atoi t < 1 \<or> ngx_atoi t > 65535)"
    and h: "inet6_url_addr alloc host (u\<lparr>u_port := nat (ngx_atoi t), u_sockaddr := Sin6 (replicate 16 0) (nat (ngx_atoi t)), u_port_text := t\<rparr>) = (NGX_OK, u')"
    using assms(1) by (simp_all add: inet6_url_port_def Let_def split: if_splits)
  then show ?thesis using inet6_addr_named [OF h assms(2)] port_nat [OF n] by simp
qed

lemma url_addrs_named:
  assumes "ngx_parse_url g alloc u = (NGX_OK, u')" "resolver_ok g" "1 \<le> u_default_port u" "u_default_port u \<le> 65535" "u_addrs u = []"
    "\<not> unix_url (u_url u)"
  shows "addrs_named u'"
proof (cases "u_url u \<noteq> [] \<and> hd (u_url u) = CHR ''[''")
  case True
  then have p: "ngx_parse_inet6_url alloc u = (NGX_OK, u')" using assms(1,6) by (auto simp: ngx_parse_url_def Let_def unix_url_def split: if_splits)
  let ?u = "u\<lparr>u_sockaddr := Sin6 (replicate 16 0) 0\<rparr>"
  obtain k where k: "ngx_strlchr (drop 1 (u_url u)) (CHR '']'') = Some k"
    using p by (cases "ngx_strlchr (drop 1 (u_url u)) (CHR '']'')") (auto simp: ngx_parse_inet6_url_def Let_def)
  let ?h = "take k (drop 1 (u_url u))" and ?r = "drop (k + 2) (u_url u)"
  have host: "CHR '']'' \<notin> set ?h" using strlchr_split(3) [OF k] .
  show ?thesis
  proof (cases "ngx_strlchr ?r (CHR ''/'')")
    case None
    then have "inet6_url_port alloc ?h ?r ?u = (NGX_OK, u')" using p unfolding ngx_parse_inet6_url_def Let_def k option.case by simp
    then show ?thesis using host by (rule inet6_port_named) (use assms in simp_all)
  next
    case (Some j)
    then have "inet6_url_port alloc ?h (take j ?r) (?u\<lparr>u_uri := drop j ?r\<rparr>) = (NGX_OK, u')"
      using p unfolding ngx_parse_inet6_url_def Let_def k option.case by (simp split: if_splits)
    then show ?thesis using host by (rule inet6_port_named) (use assms in simp_all)
  qed
next
  case False
  then have p: "ngx_parse_inet_url g alloc u = (NGX_OK, u')" using assms(1,6) by (auto simp: ngx_parse_url_def Let_def unix_url_def)
  let ?u = "u\<lparr>u_family := AF_INET, u_sockaddr := Sin (replicate 4 0) 0\<rparr>"
  show ?thesis
  proof (cases "url_uri_start (u_url u)")
    case None
    then have "inet_url_port g alloc False (length (u_url u)) (ngx_strlchr (u_url u) (CHR '':'')) ?u = (NGX_OK, u')"
      using p by (simp add: ngx_parse_inet_url_def Let_def)
    then show ?thesis by (rule inet_port_named) (use assms in simp_all)
  next
    case (Some q)
    then have "inet_url_port g alloc True q
        (case ngx_strlchr (u_url u) (CHR '':'') of None \<Rightarrow> None | Some j \<Rightarrow> if q < j then None else Some j) (?u\<lparr>u_uri := drop q (u_url u)\<rparr>) = (NGX_OK, u')"
      using p by (simp add: ngx_parse_inet_url_def Let_def split: if_splits)
    then show ?thesis by (rule inet_port_named) (use assms in simp_all)
  qed
qed

text \<open>
  C24. For a URL that is not a unix socket, with a default port from 1 to 65535 and no address before the call, and a
  resolver that returns well-formed addresses, every address \<open>ngx_parse_url\<close> hands to the upstreams and listeners, written
  in the text or found by the resolver, is well formed and has the port of the URL; it bears a name that reads back as this very
  address and port unless it has the part 255.255.255.255 the readers take for an error; and the address and family in the
  URL are those of the first.
\<close>

theorem url_addresses:
  assumes "ngx_parse_url g alloc u = (NGX_OK, u')" "resolver_ok g" "1 \<le> u_default_port u" "u_default_port u \<le> 65535" "u_addrs u = []"
    "\<not> unix_url (u_url u)"
  shows "(\<forall>(sa, name) \<in> set (u_addrs u').
      sockaddr_ok sa \<and> ngx_inet_get_port sa = u_port u' \<and>
      (\<not> sockaddr_unreadable sa \<longrightarrow> ngx_parse_addr_port True name = (NGX_OK, Some sa))) \<and>
    (u_addrs u' \<noteq> [] \<longrightarrow> u_sockaddr u' = fst (hd (u_addrs u')) \<and> u_family u' = family_of (u_sockaddr u'))"
  using url_addrs_named [OF assms] by (auto simp: addrs_named_def addr_named_def list_all_iff)

section \<open>Witnesses\<close>

definition url0 :: "bytes \<Rightarrow> ngx_url" where
  "url0 t = \<lparr>u_url = t, u_host = [], u_port_text = [], u_uri = [], u_port = 0, u_default_port = 80, u_family = AF_UNSPEC,
     u_listen = False, u_uri_part = True, u_no_resolve = False, u_no_port = False, u_wildcard = False,
     u_sockaddr = Sin [0, 0, 0, 0] 0, u_addrs = [], u_err = None\<rparr>"

definition resolver0 :: "bytes \<Rightarrow> sockaddr list option" where
  "resolver0 host = (if host = ''db'' then Some [Sin6 (replicate 15 0 @ [1]) 0, Sin [127, 0, 0, 1] 0] else None)"

definition url0_done :: ngx_url where
  "url0_done = (url0 ''db:6379/x'')\<lparr>u_host := ''db'', u_port_text := ''6379'', u_uri := ''/x'', u_port := 6379, u_family := AF_INET,
     u_sockaddr := Sin [127, 0, 0, 1] 6379,
     u_addrs := [resolved_addr 6379 (Sin [127, 0, 0, 1] 0), resolved_addr 6379 (Sin6 (replicate 15 0 @ [1]) 0)]\<rparr>"

lemma url0_not_unix: "\<not> unix_url ''db:6379/x''"
proof -
  have "ngx_strncasecmp ''db:6379/x'' ''unix:'' 5 \<noteq> 0" by code_simp
  then show ?thesis by (simp add: unix_url_def)
qed

lemma url0_parsed: "ngx_parse_url resolver0 (\<lambda>i. True) (url0 ''db:6379/x'') = (NGX_OK, url0_done)"
proof -
  have "ngx_atoi ''6379'' = 6379" by code_simp
  moreover have "ngx_inet_addr ''db'' = INADDR_NONE" by (simp add: ngx_inet_addr_def digit_def less_eq_char_def)
  moreover have "[127, 0, 0, Suc 0] \<noteq> replicate 4 0" by (simp add: numeral_eq_Suc)
  ultimately show ?thesis
    using url0_not_unix
    by (simp add: list_all_iff ngx_parse_url_def unix_url_def ngx_parse_inet_url_def inet_url_port_def url_with_host_def inet_url_addr_def Let_def
        url0_def url0_done_def url_uri_start_def ngx_inet_resolve_host_def resolver0_def resolved_addr_def is_sin_def is_sin6_def family_of_def any_addr_def)
qed

theorem url_parts_witness:
  "''db:6379/x'' = url_join (u_host url0_done) (u_port_text url0_done) (u_uri url0_done) \<and> url_ports 80 url0_done"
  using url_parts [OF url0_parsed] url0_not_unix by (simp add: url0_def)

lemma resolver0_ok: "resolver_ok resolver0"
  by (auto simp: resolver_ok_def resolver0_def sockaddr_ok_def list_all_replicate)

theorem url_addresses_witness:
  "ngx_parse_addr_port True (snd (resolved_addr 6379 (Sin [127, 0, 0, 1] 0))) = (NGX_OK, Some (Sin [127, 0, 0, 1] 6379))"
  using url_addresses [OF url0_parsed resolver0_ok] url0_not_unix
  by (simp add: url0_def url0_done_def resolved_addr_def Let_def sockaddr_unreadable_def INADDR_NONE_def)

end
