(* ===== verification/Http_Status_Line.thy ===== *)
theory Http_Status_Line
  imports Http_Request_Line Ngx_Number
begin

text \<open>
  The status line of an upstream's response: \<open>ngx_http_parse_status_line\<close> of
  \<open>nginx-master/src/http/ngx_http_parse.c\<close> and its caller \<open>ngx_http_proxy_process_status_line\<close> of
  \<open>http/modules/ngx_http_proxy_module.c\<close>, which reads the replies of the servers the login service asks through \<open>proxy_pass\<close>.
  One record holds \<open>r->state\<close>, the version in the request and the \<open>ngx_http_status_t\<close>; pointers are offsets into the buffer.
\<close>

section \<open>The parser\<close>

datatype sl_state =
    sl_start | sl_H | sl_HT | sl_HTT | sl_HTTP | sl_first_major_digit | sl_major_digit | sl_first_minor_digit | sl_minor_digit
  | sl_status | sl_space_after_status | sl_status_text | sl_almost_done

record ngx_http_status =
  sl_st :: sl_state
  sl_major :: nat
  sl_minor :: nat
  st_http_version :: nat
  st_code :: nat
  st_count :: nat
  st_start :: "nat option"
  st_end :: "nat option"

definition sl_init :: ngx_http_status where
  "sl_init = \<lparr>sl_st = sl_start, sl_major = 0, sl_minor = 0, st_http_version = 0, st_code = 0, st_count = 0, st_start = None, st_end = None\<rparr>"

type_synonym sl_out = "(sl_state, ngx_http_status, unit) sw"

definition sl_expect :: "char \<Rightarrow> sl_state \<Rightarrow> char \<Rightarrow> ngx_http_status \<Rightarrow> sl_out" where
  "sl_expect want nxt ch r = (if ch = want then Break nxt r else Return NGX_ERROR r)"

definition sl_sw_major_digit :: "char \<Rightarrow> ngx_http_status \<Rightarrow> sl_out" where
  "sl_sw_major_digit ch r =
     (if ch = CHR ''.'' then Break sl_first_minor_digit r
      else if ch < CHR ''0'' \<or> ch > CHR ''9'' then Return NGX_ERROR r
      else if sl_major r > 99 then Return NGX_ERROR r
      else Break sl_major_digit (r\<lparr>sl_major := sl_major r * 10 + digit_val ch\<rparr>))"

definition sl_sw_minor_digit :: "char \<Rightarrow> ngx_http_status \<Rightarrow> sl_out" where
  "sl_sw_minor_digit ch r =
     (if ch = SP then Break sl_status r
      else if ch < CHR ''0'' \<or> ch > CHR ''9'' then Return NGX_ERROR r
      else if sl_minor r > 99 then Return NGX_ERROR r
      else Break sl_minor_digit (r\<lparr>sl_minor := sl_minor r * 10 + digit_val ch\<rparr>))"

definition sl_sw_status :: "nat \<Rightarrow> char \<Rightarrow> ngx_http_status \<Rightarrow> sl_out" where
  "sl_sw_status p ch r =
     (if ch = SP then Break sl_status r
      else if ch < CHR ''0'' \<or> ch > CHR ''9'' then Return NGX_ERROR r
      else let r1 = r\<lparr>st_code := st_code r * 10 + digit_val ch, st_count := st_count r + 1\<rparr> in
        if st_count r1 = 3 then Break sl_space_after_status (r1\<lparr>st_start := Some (p - 2)\<rparr>)
        else Break sl_status r1)"

definition sl_sw_space_after_status :: "char \<Rightarrow> ngx_http_status \<Rightarrow> sl_out" where
  "sl_sw_space_after_status ch r =
     (if ch = SP then Break sl_status_text r
      else if ch = CHR ''.'' then Break sl_status_text r
      else if ch = CR then Break sl_almost_done r
      else if ch = LF then Goto () r
      else Return NGX_ERROR r)"

definition sl_sw_status_text :: "char \<Rightarrow> ngx_http_status \<Rightarrow> sl_out" where
  "sl_sw_status_text ch r =
     (if ch = CR then Break sl_almost_done r else if ch = LF then Goto () r else Break sl_status_text r)"

definition sl_sw_almost_done :: "nat \<Rightarrow> char \<Rightarrow> ngx_http_status \<Rightarrow> sl_out" where
  "sl_sw_almost_done p ch r0 =
     (let r = r0\<lparr>st_end := Some (p - 1)\<rparr> in if ch = LF then Goto () r else Return NGX_ERROR r)"

fun sl_body :: "nat \<Rightarrow> char \<Rightarrow> sl_state \<Rightarrow> ngx_http_status \<Rightarrow> sl_out" where
  "sl_body p ch sl_start r = sl_expect (CHR ''H'') sl_H ch r"
| "sl_body p ch sl_H r = sl_expect (CHR ''T'') sl_HT ch r"
| "sl_body p ch sl_HT r = sl_expect (CHR ''T'') sl_HTT ch r"
| "sl_body p ch sl_HTT r = sl_expect (CHR ''P'') sl_HTTP ch r"
| "sl_body p ch sl_HTTP r = sl_expect (CHR ''/'') sl_first_major_digit ch r"
| "sl_body p ch sl_first_major_digit r =
     (if ch < CHR ''1'' \<or> ch > CHR ''9'' then Return NGX_ERROR r else Break sl_major_digit (r\<lparr>sl_major := digit_val ch\<rparr>))"
| "sl_body p ch sl_major_digit r = sl_sw_major_digit ch r"
| "sl_body p ch sl_first_minor_digit r =
     (if ch < CHR ''0'' \<or> ch > CHR ''9'' then Return NGX_ERROR r else Break sl_minor_digit (r\<lparr>sl_minor := digit_val ch\<rparr>))"
| "sl_body p ch sl_minor_digit r = sl_sw_minor_digit ch r"
| "sl_body p ch sl_status r = sl_sw_status p ch r"
| "sl_body p ch sl_space_after_status r = sl_sw_space_after_status ch r"
| "sl_body p ch sl_status_text r = sl_sw_status_text ch r"
| "sl_body p ch sl_almost_done r = sl_sw_almost_done p ch r"

definition sl_done :: "nat \<Rightarrow> ngx_http_status \<Rightarrow> ngx_int \<times> ngx_http_status \<times> nat" where
  "sl_done p r0 =
     (let r = (if st_end r0 = None then r0\<lparr>st_end := Some p\<rparr> else r0) in
      (NGX_OK, r\<lparr>st_http_version := sl_major r * 1000 + sl_minor r, sl_st := sl_start\<rparr>, p + 1))"

definition ngx_http_parse_status_line :: "ngx_http_status \<Rightarrow> bytes \<Rightarrow> nat \<Rightarrow> ngx_int \<times> ngx_http_status \<times> nat" where
  "ngx_http_parse_status_line r buf pos =
     (case sw_loop sl_body pos (drop pos buf) (sl_st r) r of
        Exhausted p s r' \<Rightarrow> (NGX_AGAIN, r'\<lparr>sl_st := s\<rparr>, p)
      | Returned c p r' \<Rightarrow> (c, r', pos)
      | Jumped l p r' \<Rightarrow> sl_done p r')"

lemmas sl_defs =
  sl_expect_def sl_sw_major_digit_def sl_sw_minor_digit_def sl_sw_status_def sl_sw_space_after_status_def sl_sw_status_text_def
  sl_sw_almost_done_def Let_def

section \<open>The caller\<close>

text \<open>
  What \<open>ngx_http_proxy_process_status_line\<close> leaves in \<open>u->headers_in\<close>, in \<open>u->state->status\<close> (\<open>u->state\<close> is set when a response is read) and in
  \<open>r->http_version\<close>. It ends with a code or goes on with \<open>ngx_http_proxy_process_header\<close>.
\<close>

datatype proxy_next = Px_Return ngx_int | Px_Process_Header

record proxy_in =
  px_status_n :: nat
  px_status_line :: bytes
  px_connection_close :: bool
  px_state_status :: nat
  px_http_version :: nat

abbreviation NGX_HTTP_VERSION_9 :: nat where "NGX_HTTP_VERSION_9 \<equiv> 9"
abbreviation NGX_HTTP_VERSION_11 :: nat where "NGX_HTTP_VERSION_11 \<equiv> 1001"

definition ngx_http_proxy_process_status_line ::
    "bool \<Rightarrow> bool \<Rightarrow> bool \<Rightarrow> ngx_http_status \<Rightarrow> proxy_in \<Rightarrow> bytes \<Rightarrow> nat \<Rightarrow> proxy_next \<times> ngx_http_status \<times> proxy_in \<times> nat" where
  "ngx_http_proxy_process_status_line ctx cache alloc st u buf pos =
     (if \<not> ctx then (Px_Return NGX_ERROR, st, u, pos)
      else
        (case ngx_http_parse_status_line st buf pos of
           (rc, st1, pos1) \<Rightarrow>
             if rc = NGX_AGAIN then (Px_Return NGX_AGAIN, st1, u, pos1)
             else if rc = NGX_ERROR then
               (if cache then (Px_Return NGX_OK, st1, u\<lparr>px_http_version := NGX_HTTP_VERSION_9\<rparr>, pos1)
                else (Px_Return NGX_OK, st1,
                      u\<lparr>px_http_version := NGX_HTTP_VERSION_9, px_state_status := 200, px_connection_close := True\<rparr>, pos1))
             else
               (let u1 = (if px_state_status u = 0 then u\<lparr>px_state_status := st_code st1\<rparr> else u);
                    u2 = u1\<lparr>px_status_n := st_code st1\<rparr> in
                if \<not> alloc then (Px_Return NGX_ERROR, st1, u2, pos1)
                else
                  (let u3 = u2\<lparr>px_status_line := slice buf (the (st_start st1)) (the (st_end st1))\<rparr> in
                   (Px_Process_Header, st1,
                    if st_http_version st1 < NGX_HTTP_VERSION_11 then u3\<lparr>px_connection_close := True\<rparr> else u3, pos1)))))"

section \<open>Every accepted line\<close>

fun sl_rank :: "sl_state \<Rightarrow> nat" where
  "sl_rank sl_start = 0"
| "sl_rank sl_H = 1"
| "sl_rank sl_HT = 2"
| "sl_rank sl_HTT = 3"
| "sl_rank sl_HTTP = 4"
| "sl_rank sl_first_major_digit = 5"
| "sl_rank sl_major_digit = 6"
| "sl_rank sl_first_minor_digit = 7"
| "sl_rank sl_minor_digit = 8"
| "sl_rank _ = 9"

definition no_eol :: "bytes \<Rightarrow> nat \<Rightarrow> nat \<Rightarrow> bool" where
  "no_eol buf a b \<longleftrightarrow> (\<forall>i. a \<le> i \<and> i < b \<longrightarrow> buf ! i \<noteq> CR \<and> buf ! i \<noteq> LF)"

lemma no_eol_Suc: "no_eol buf a b \<Longrightarrow> buf ! b \<noteq> CR \<Longrightarrow> buf ! b \<noteq> LF \<Longrightarrow> no_eol buf a (Suc b)"
  by (auto simp: no_eol_def less_Suc_eq)

text \<open>Before the byte at \<open>p\<close>, for a line that starts at \<open>n\<close>.\<close>

definition sl_inv :: "bytes \<Rightarrow> nat \<Rightarrow> nat \<Rightarrow> sl_state \<Rightarrow> ngx_http_status \<Rightarrow> bool" where
  "sl_inv buf n p s r \<longleftrightarrow>
     st_end r = None \<and> sl_major r \<le> 999 \<and> sl_minor r \<le> 999 \<and> st_code r < 10 ^ st_count r \<and> n + sl_rank s \<le> p \<and>
     (if s = sl_almost_done then n < p \<and> no_eol buf n (p - 1) else no_eol buf n p) \<and>
     (if s \<in> {sl_space_after_status, sl_status_text, sl_almost_done}
      then st_count r = 3 \<and> (case st_start r of None \<Rightarrow> False | Some q \<Rightarrow> n + 7 \<le> q \<and> q + 3 + (if s = sl_almost_done then 1 else 0) \<le> p)
      else st_count r < 3)"

definition sl_post :: "bytes \<Rightarrow> nat \<Rightarrow> unit \<Rightarrow> nat \<Rightarrow> ngx_http_status \<Rightarrow> bool" where
  "sl_post buf n l p r \<longleftrightarrow>
     buf ! p = LF \<and> sl_major r \<le> 999 \<and> sl_minor r \<le> 999 \<and> st_code r \<le> 999 \<and>
     (case (st_start r, st_end r) of
        (Some q, None) \<Rightarrow> n + 7 \<le> q \<and> q + 3 \<le> p \<and> no_eol buf n p
      | (Some q, Some e) \<Rightarrow> n + 7 \<le> q \<and> q + 3 \<le> e \<and> e < p \<and> no_eol buf n e
      | _ \<Rightarrow> False)"

lemma digit_not_eol: "\<not> (ch < CHR ''0'' \<or> ch > CHR ''9'') \<Longrightarrow> ch \<noteq> CR \<and> ch \<noteq> LF"
  by (auto simp: less_char_def)

lemma sl_body_break:
  assumes "sl_inv buf n p s r" "p < length buf \<and> buf ! p = ch" "sl_body p ch s r = Break s' r'"
  shows "sl_inv buf n (Suc p) s' r'"
proof -
  have d: "\<not> (ch < CHR ''0'' \<or> ch > CHR ''9'') \<Longrightarrow> digit_val ch \<le> 9" by (rule digit_val_le9)
  have e: "no_eol buf n p \<Longrightarrow> ch \<noteq> CR \<Longrightarrow> ch \<noteq> LF \<Longrightarrow> no_eol buf n (Suc p)" using no_eol_Suc assms(2) by blast
  have "\<not> ch < CHR ''1'' \<Longrightarrow> \<not> ch < CHR ''0''" by (auto simp: less_char_def)
  then show ?thesis
    using assms d e digit_not_eol [of ch]
    by (cases s) (auto simp: sl_inv_def sl_defs split: if_splits option.splits)
qed

lemma sl_body_goto:
  assumes "sl_inv buf n p s r" "p < length buf \<and> buf ! p = ch" "sl_body p ch s r = Goto l r'"
  shows "sl_post buf n l p r'"
  using assms by (cases s) (auto simp: sl_inv_def sl_post_def sl_defs split: if_splits option.splits)

interpretation sl: sw_parser sl_body "\<lambda>p ch. p < length buf \<and> buf ! p = ch" "sl_inv buf n" "sl_post buf n" for buf n
  by unfold_locales (auto intro: sl_body_break sl_body_goto)

lemma sl_body_codes: "sl_body p ch s r = Return c r' \<Longrightarrow> c = NGX_ERROR"
  by (cases s) (auto simp: sl_defs split: if_splits)

lemma sl_loop_codes: "sw_loop sl_body p xs s r = Returned c q r' \<Longrightarrow> c = NGX_ERROR"
  by (rule sw_loop_returned [OF _ sl_body_codes])

definition sl_fresh :: "ngx_http_status \<Rightarrow> bool" where
  "sl_fresh r \<longleftrightarrow> sl_st r = sl_start \<and> sl_major r \<le> 999 \<and> sl_minor r \<le> 999 \<and> st_code r = 0 \<and> st_count r = 0 \<and> st_start r = None \<and> st_end r = None"

lemma status_line_ok:
  assumes "sl_fresh r" "pos \<le> length buf" "ngx_http_parse_status_line r buf pos = (NGX_OK, r', pos')"
  obtains q e where "st_start r' = Some q" "st_end r' = Some e" "pos + 7 \<le> q" "q + 3 \<le> e" "e < pos'" "pos' \<le> length buf" "buf ! (pos' - 1) = LF"
    "no_eol buf pos e" "st_code r' \<le> 999" "st_http_version r' = sl_major r' * 1000 + sl_minor r'" "sl_major r' \<le> 999" "sl_minor r' \<le> 999"
proof -
  obtain l p r1 where j: "sw_loop sl_body pos (drop pos buf) (sl_st r) r = Jumped l p r1" and d: "sl_done p r1 = (NGX_OK, r', pos')"
    using assms(3) sl_loop_codes by (fastforce simp: ngx_http_parse_status_line_def split: sw_exit.splits)
  have "sl_inv buf pos pos (sl_st r) r" using assms(1) by (auto simp: sl_fresh_def sl_inv_def no_eol_def)
  then have post: "sl_post buf pos l p r1" by (rule sl.loop_post [OF _ _ j]) auto
  have "p < length buf" using sw_loop_jumped [OF j] assms(2) by simp
  with post d show ?thesis
    by (intro that [of "the (st_start r1)" "case st_end r1 of None \<Rightarrow> p | Some e \<Rightarrow> e"])
      (auto simp: sl_post_def sl_done_def Let_def split: option.splits if_splits)
qed

text \<open>
  C28. When the response of an upstream goes on to its headers, the status code has at most three digits and the status line kept for the client lies
  inside the received bytes, has at least the three bytes of the code and no line break in it, and the connection is
  kept only from version 1.1 on. Every other response ends here: more bytes are awaited, memory ran out, or what was received is
  no status line and is passed on as the body of an HTTP/0.9 response.
\<close>

theorem proxy_status_line:
  assumes "sl_fresh st" "pos \<le> length buf"
  shows "case ngx_http_proxy_process_status_line True False alloc st u buf pos of
     (Px_Process_Header, st', u', pos') \<Rightarrow>
       alloc \<and> px_status_n u' \<le> 999 \<and> 3 \<le> length (px_status_line u') \<and> CR \<notin> set (px_status_line u') \<and> LF \<notin> set (px_status_line u') \<and>
       (\<exists>q. pos < q \<and> q + length (px_status_line u') < pos' \<and> px_status_line u' = slice buf q (q + length (px_status_line u'))) \<and>
       pos' \<le> length buf \<and> buf ! (pos' - 1) = LF \<and> px_connection_close u' = (px_connection_close u \<or> st_http_version st' < 1001)
   | (Px_Return rc, st', u', pos') \<Rightarrow>
       rc = NGX_AGAIN \<and> u' = u \<and> pos' = length buf \<or>
       rc = NGX_ERROR \<and> \<not> alloc \<or>
       rc = NGX_OK \<and> pos' = pos \<and> u' = u\<lparr>px_http_version := 9, px_state_status := 200, px_connection_close := True\<rparr>"
proof -
  obtain rc r' pos' where parse: "ngx_http_parse_status_line st buf pos = (rc, r', pos')" by (rule prod_cases3)
  have codes: "rc = NGX_OK \<or> rc = NGX_AGAIN \<and> pos' = length buf \<or> rc = NGX_ERROR \<and> pos' = pos"
  proof (cases "sw_loop sl_body pos (drop pos buf) (sl_st st) st")
    case (Exhausted q s r)
    then show ?thesis using parse sw_loop_exhausted [OF Exhausted] assms(2) by (auto simp: ngx_http_parse_status_line_def)
  next
    case (Returned c q r)
    then show ?thesis using parse sl_loop_codes [OF Returned] by (auto simp: ngx_http_parse_status_line_def)
  qed (use parse in \<open>auto simp: ngx_http_parse_status_line_def sl_done_def Let_def\<close>)
  show ?thesis
  proof (cases "rc = NGX_OK")
    case False
    then show ?thesis using codes parse by (auto simp: ngx_http_proxy_process_status_line_def)
  next
    case True
    obtain q e where qe: "st_start r' = Some q" "st_end r' = Some e" "pos + 7 \<le> q" "q + 3 \<le> e" "e < pos'" "pos' \<le> length buf" "buf ! (pos' - 1) = LF"
      "no_eol buf pos e" "st_code r' \<le> 999"
      using status_line_ok [OF assms] parse True by metis
    have len: "length (slice buf q e) = e - q" using qe by simp
    have eol: "c \<noteq> CR \<and> c \<noteq> LF" if c: "c \<in> set (slice buf q e)" for c
    proof -
      obtain i where "i < e - q" "c = buf ! (q + i)" using c len qe by (auto simp: in_set_conv_nth slice_def)
      then show ?thesis using qe(3,8) by (auto simp: no_eol_def)
    qed
    have "\<exists>q'. pos < q' \<and> q' + length (slice buf q e) < pos' \<and> slice buf q e = slice buf q' (q' + length (slice buf q e))"
      using len qe by (intro exI [of _ q]) simp
    then show ?thesis using parse True qe len eol by (auto simp: ngx_http_proxy_process_status_line_def Let_def)
  qed
qed

section \<open>Every well-formed line\<close>

lemma sl_loop_spaces: "sw_loop sl_body p (replicate k SP @ xs) sl_status r = sw_loop sl_body (p + k) xs sl_status r"
  by (induction k arbitrary: p) (simp_all add: sl_defs)

lemma sl_loop_text:
  "list_all (\<lambda>c. c \<noteq> CR \<and> c \<noteq> LF) t \<Longrightarrow> sw_loop sl_body p (t @ xs) sl_status_text r = sw_loop sl_body (p + length t) xs sl_status_text r"
  by (induction t arbitrary: p) (simp_all add: sl_defs)

definition reason_ok :: "bytes \<Rightarrow> bool" where
  "reason_ok t \<longleftrightarrow> t = [] \<or> (hd t = SP \<or> hd t = CHR ''.'') \<and> list_all (\<lambda>c. c \<noteq> CR \<and> c \<noteq> LF) t"

lemma digit_range: "digit c \<longleftrightarrow> \<not> (c < CHR ''0'' \<or> c > CHR ''9'')"
  by (auto simp: digit_def less_char_def less_eq_char_def)

lemma digit_not_sep: "digit c \<Longrightarrow> c \<noteq> SP \<and> c \<noteq> CHR ''.'' \<and> c \<noteq> CR \<and> c \<noteq> LF"
  by (auto simp: digit_def less_eq_char_def)

lemma sl_loop_version:
  assumes "CHR ''1'' \<le> M" "M \<le> CHR ''9''" "digit m"
  shows "sw_loop sl_body p (''HTTP/'' @ [M] @ ''.'' @ [m] @ [SP] @ xs) sl_start r =
    sw_loop sl_body (p + 9) xs sl_status (r\<lparr>sl_major := digit_val M, sl_minor := digit_val m\<rparr>)"
proof -
  have "\<not> M < CHR ''1''" "\<not> M > CHR ''9''" "\<not> m < CHR ''0''" "\<not> m > CHR ''9''" using assms digit_range [of m] by auto
  moreover have nine: "p + 9 = Suc (Suc (Suc (Suc (Suc (Suc (Suc (Suc (Suc p))))))))" by simp
  ultimately show ?thesis unfolding nine by (simp add: sl_defs)
qed

lemma sl_loop_code:
  assumes "list_all digit [a, b, c]" "st_code r = 0" "st_count r = 0"
  shows "sw_loop sl_body p ([a, b, c] @ xs) sl_status r =
    sw_loop sl_body (p + 3) xs sl_space_after_status
      (r\<lparr>st_code := 100 * digit_val a + digit_val b * 10 + digit_val c, st_count := 3, st_start := Some p\<rparr>)"
proof -
  have "\<not> d < CHR ''0''" "\<not> d > CHR ''9''" "d \<noteq> SP" if "d \<in> {a, b, c}" for d using assms(1) that digit_range [of d] digit_not_sep [of d] by auto
  then show ?thesis using assms(2,3) by (simp add: sl_defs numeral_3_eq_3)
qed

lemma sl_loop_eol:
  assumes "s = sl_space_after_status \<or> s = sl_status_text" "eol = [LF] \<or> eol = [CR, LF]"
  shows "sw_loop sl_body p (eol @ xs) s r = Jumped () (p + length eol - 1) (if eol = [LF] then r else r\<lparr>st_end := Some p\<rparr>)"
  using assms by (auto simp: sl_defs)

lemma sl_loop_reason:
  assumes "reason_ok t" "eol = [LF] \<or> eol = [CR, LF]"
  shows "sw_loop sl_body p (t @ eol @ xs) sl_space_after_status r =
    Jumped () (p + length t + length eol - 1) (if eol = [LF] then r else r\<lparr>st_end := Some (p + length t)\<rparr>)"
proof (cases t)
  case Nil
  then show ?thesis using sl_loop_eol [OF _ assms(2), of sl_space_after_status p xs r] by simp
next
  case (Cons d u)
  then have "sw_loop sl_body p (t @ eol @ xs) sl_space_after_status r = sw_loop sl_body (p + length t) (eol @ xs) sl_status_text r"
    using assms(1) sl_loop_text [of u "Suc p" "eol @ xs" r] by (auto simp: reason_ok_def sl_defs)
  then show ?thesis using sl_loop_eol [OF _ assms(2), of sl_status_text "p + length t" xs r] by simp
qed

text \<open>
  A status line \<open>HTTP/M.m\<close>, blanks, three digits, a reason that starts with a blank or a dot and an end of line with or without \<open>CR\<close>
  is accepted wherever it stands in the buffer and whatever follows it: the response goes on with exactly this code, with code and reason as its status line,
  and the cursor behind the line.
\<close>

theorem proxy_status_accepted:
  assumes "CHR ''1'' \<le> M" "M \<le> CHR ''9''" "digit m" "list_all digit [a, b, c]" "reason_ok t" "eol = [LF] \<or> eol = [CR, LF]"
    and "sl_fresh st" and buf: "buf = xs @ (''HTTP/'' @ [M] @ ''.'' @ [m] @ [SP] @ replicate k SP @ [a, b, c] @ t @ eol) @ ys"
  shows "\<exists>st' u' pos'. ngx_http_proxy_process_status_line True cache True st u buf (length xs) = (Px_Process_Header, st', u', pos') \<and>
    px_status_n u' = 100 * digit_val a + digit_val b * 10 + digit_val c \<and> px_status_line u' = [a, b, c] @ t \<and>
    st_http_version st' = digit_val M * 1000 + digit_val m \<and> pos' = length buf - length ys"
proof -
  let ?code = "100 * digit_val a + digit_val b * 10 + digit_val c"
  let ?p = "length xs + 9 + k"
  let ?q = "?p + 3 + length t"
  let ?r = "st\<lparr>sl_major := digit_val M, sl_minor := digit_val m, st_code := ?code, st_count := 3, st_start := Some ?p\<rparr>"
  have "sw_loop sl_body (length xs) (drop (length xs) buf) (sl_st st) st =
      Jumped () (?q + length eol - 1) (if eol = [LF] then ?r else ?r\<lparr>st_end := Some ?q\<rparr>)"
  proof -
    let ?l = "''HTTP/'' @ [M] @ ''.'' @ [m] @ [SP] @ replicate k SP @ [a, b, c] @ t @ eol @ ys"
    have start: "sl_st st = sl_start" and zero: "st_code st = 0" "st_count st = 0" using assms(7) by (simp_all add: sl_fresh_def)
    have "drop (length xs) buf = ?l" unfolding buf by simp
    then have "sw_loop sl_body (length xs) (drop (length xs) buf) (sl_st st) st = sw_loop sl_body (length xs) ?l sl_start st" using start by simp
    also have "\<dots> = sw_loop sl_body ?p ([a, b, c] @ t @ eol @ ys) sl_status (st\<lparr>sl_major := digit_val M, sl_minor := digit_val m\<rparr>)"
      unfolding sl_loop_version [OF assms(1-3)] sl_loop_spaces ..
    also have "\<dots> = sw_loop sl_body (?p + 3) (t @ eol @ ys) sl_space_after_status ?r"
      using sl_loop_code [OF assms(4), of "st\<lparr>sl_major := digit_val M, sl_minor := digit_val m\<rparr>" ?p "t @ eol @ ys"] zero by simp
    finally show ?thesis unfolding sl_loop_reason [OF assms(5,6)] .
  qed
  then obtain r' where parse: "ngx_http_parse_status_line st buf (length xs) = (NGX_OK, r', ?q + length eol)"
    and r': "st_start r' = Some ?p" "st_end r' = Some ?q" "st_code r' = ?code" "st_http_version r' = digit_val M * 1000 + digit_val m"
    using assms(6,7) by (auto simp: ngx_http_parse_status_line_def sl_done_def Let_def sl_fresh_def)
  have "slice buf ?p ?q = [a, b, c] @ t"
    using slice_app3 [of ?p "xs @ ''HTTP/'' @ [M] @ ''.'' @ [m] @ [SP] @ replicate k SP" ?q "[a, b, c] @ t" "eol @ ys"] unfolding buf by simp
  moreover have "length buf - length ys = ?q + length eol" unfolding buf by simp
  ultimately show ?thesis using parse r' by (auto simp: ngx_http_proxy_process_status_line_def Let_def)
qed

section \<open>Witnesses\<close>

lemma sl_init_fresh: "sl_fresh sl_init"
  by (simp add: sl_fresh_def sl_init_def)

definition proxy0 :: proxy_in where
  "proxy0 = \<lparr>px_status_n = 0, px_status_line = [], px_connection_close = False, px_state_status = 0, px_http_version = 0\<rparr>"

theorem proxy_status_line_witness:
  "case ngx_http_proxy_process_status_line True False True sl_init proxy0 (''HTTP/1.1 200 OK'' @ [CR, LF]) 0 of
     (n, st', u', pos') \<Rightarrow> n = Px_Process_Header \<and> px_status_line u' = ''200 OK'' \<and> CR \<notin> set (px_status_line u')"
  using proxy_status_line [OF sl_init_fresh, of 0 "''HTTP/1.1 200 OK'' @ [CR, LF]" proxy0 True]
  by (simp add: ngx_http_proxy_process_status_line_def ngx_http_parse_status_line_def sl_defs sl_init_def sl_done_def slice_def)

theorem proxy_status_accepted_witness:
  "\<exists>st' u' pos'. ngx_http_proxy_process_status_line True False True sl_init proxy0 (''HTTP/1.0 404 Not Found'' @ [CR, LF]) 0 = (Px_Process_Header, st', u', pos') \<and>
    px_status_n u' = 404 \<and> px_status_line u' = ''404 Not Found''"
  using proxy_status_accepted [of "CHR ''1''" "CHR ''0''" "CHR ''4''" "CHR ''0''" "CHR ''4''" "'' Not Found''" "[CR, LF]" sl_init
      "''HTTP/1.0 404 Not Found'' @ [CR, LF]" "[]" 0 "[]" False proxy0] sl_init_fresh
  by (auto simp: reason_ok_def digit_def less_eq_char_def digit_val_def)

end
