(* ===== verification/Ngx_Radix_Tree.thy ===== *)
theory Ngx_Radix_Tree
  imports Ngx_Number
begin

text \<open>
  The radix trees of address ranges, \<open>nginx-master/src/core/ngx_radix_tree.c\<close>: ranges of IPv4 and IPv6 addresses with a value each, and the value of the
  longest range an address is in. A node's pointers are its subtrees, \<open>NGX_RADIX_NO_VALUE\<close> is \<open>None\<close>; the parent pointers are the way back of the
  recursion, so unlinking climbs as the loop of the code does. Freed nodes are counted; the pool has \<open>rm_pages\<close> more pages to give.
  A key is read bit by bit from the highest on, as the moving \<open>bit\<close> of the loops does.
\<close>

section \<open>Nodes and memory\<close>

datatype 'v radix = RNull | RNode (r_right: "'v radix") (r_left: "'v radix") (r_value: "'v option")

record radix_mem =
  rm_free :: nat
  rm_size :: nat
  rm_pages :: nat
  rm_pagesize :: nat

definition radix_node_size :: nat where
  "radix_node_size = 32"

definition ngx_radix_alloc :: "radix_mem \<Rightarrow> radix_mem option" where
  "ngx_radix_alloc m =
     (if rm_free m \<noteq> 0 then Some (m\<lparr>rm_free := rm_free m - 1\<rparr>)
      else if rm_size m < radix_node_size then
        (if rm_pages m = 0 then None
         else Some (m\<lparr>rm_pages := rm_pages m - 1, rm_size := rm_pagesize m - radix_node_size\<rparr>))
      else Some (m\<lparr>rm_size := rm_size m - radix_node_size\<rparr>))"

definition radix_child :: "bool \<Rightarrow> 'v radix \<Rightarrow> 'v radix" where
  "radix_child b node = (if b then r_right node else r_left node)"

definition radix_set :: "bool \<Rightarrow> 'v radix \<Rightarrow> 'v radix \<Rightarrow> 'v radix" where
  "radix_set b child node = (if b then RNode child (r_left node) (r_value node) else RNode (r_right node) child (r_value node))"

definition radix_leaf :: "'v radix \<Rightarrow> bool" where
  "radix_leaf node \<longleftrightarrow> r_right node = RNull \<and> r_left node = RNull"

section \<open>Insertion\<close>

text \<open>The second loop of the insertions: new nodes along the rest of the path. Nodes made before memory ran out stay in the tree.\<close>

fun radix_grow :: "bool list \<Rightarrow> 'v option \<Rightarrow> 'v radix \<Rightarrow> radix_mem \<Rightarrow> ngx_int \<times> 'v radix \<times> radix_mem" where
  "radix_grow [] v node m = (NGX_OK, RNode (r_right node) (r_left node) v, m)"
| "radix_grow (b # bs) v node m =
     (case ngx_radix_alloc m of
        None \<Rightarrow> (NGX_ERROR, node, m)
      | Some m1 \<Rightarrow> (case radix_grow bs v (RNode RNull RNull None) m1 of (rc, child, m2) \<Rightarrow> (rc, radix_set b child node, m2)))"

text \<open>The first loop, along the nodes there are.\<close>

fun radix_insert :: "bool list \<Rightarrow> 'v option \<Rightarrow> 'v radix \<Rightarrow> radix_mem \<Rightarrow> ngx_int \<times> 'v radix \<times> radix_mem" where
  "radix_insert [] v node m = (if r_value node \<noteq> None then (NGX_BUSY, node, m) else (NGX_OK, RNode (r_right node) (r_left node) v, m))"
| "radix_insert (b # bs) v node m =
     (if radix_child b node = RNull then radix_grow (b # bs) v node m
      else (case radix_insert bs v (radix_child b node) m of (rc, child, m') \<Rightarrow> (rc, radix_set b child node, m')))"

section \<open>Deletion\<close>

text \<open>
  \<open>None\<close> is the dereference of the root's parent, a null pointer. A leaf is unlinked and freed, then every node above it that is
  left without children and value, but not the root.
\<close>

fun radix_delete :: "bool list \<Rightarrow> bool \<Rightarrow> 'v radix \<Rightarrow> radix_mem \<Rightarrow> (ngx_int \<times> 'v radix \<times> radix_mem) option" where
  "radix_delete path is_root RNull m = Some (NGX_ERROR, RNull, m)"
| "radix_delete [] is_root (RNode r l v) m =
     (if r \<noteq> RNull \<or> l \<noteq> RNull then
        (if v \<noteq> None then Some (NGX_OK, RNode r l None, m) else Some (NGX_ERROR, RNode r l v, m))
      else if is_root then None
      else Some (NGX_OK, RNull, m\<lparr>rm_free := rm_free m + 1\<rparr>))"
| "radix_delete (b # bs) is_root (RNode r l v) m =
     (case radix_delete bs False (if b then r else l) m of
        None \<Rightarrow> None
      | Some (rc, child, m') \<Rightarrow>
          (let node = radix_set b child (RNode r l v) in
           if rc = NGX_OK \<and> child = RNull \<and> radix_leaf node \<and> v = None \<and> \<not> is_root
           then Some (NGX_OK, RNull, m'\<lparr>rm_free := rm_free m' + 1\<rparr>)
           else Some (rc, node, m')))"

section \<open>Search\<close>

text \<open>\<open>key d\<close> is the bit the code reads at depth \<open>d\<close>, \<open>None\<close> when it reads outside the key; so is the result then.\<close>

fun radix_find :: "(nat \<Rightarrow> bool option) \<Rightarrow> nat \<Rightarrow> 'v radix \<Rightarrow> 'v option \<Rightarrow> 'v option option" where
  "radix_find key d RNull value = Some value"
| "radix_find key d (RNode r l v) value =
     (case key d of
        None \<Rightarrow> None
      | Some b \<Rightarrow> radix_find key (Suc d) (if b then r else l) (if v \<noteq> None then v else value))"

section \<open>Trees of IPv4 and of IPv6 ranges\<close>

record 'v radix_tree =
  rt_root :: "'v radix"
  rt_mem :: radix_mem

text \<open>The bits of the key as long as the mask has its bit.\<close>

definition path32 :: "32 word \<Rightarrow> 32 word \<Rightarrow> bool list" where
  "path32 key msk = map (\<lambda>d. bit key (31 - d)) (takeWhile (\<lambda>d. bit msk (31 - d)) [0..<32])"

definition path128 :: "8 word list \<Rightarrow> 8 word list \<Rightarrow> bool list" where
  "path128 key msk = map (\<lambda>d. bit (key ! (d div 8)) (7 - d mod 8)) (takeWhile (\<lambda>d. bit (msk ! (d div 8)) (7 - d mod 8)) [0..<128])"

definition radix_tree_insert :: "bool list \<Rightarrow> 'v option \<Rightarrow> 'v radix_tree \<Rightarrow> ngx_int \<times> 'v radix_tree" where
  "radix_tree_insert path v t = (case radix_insert path v (rt_root t) (rt_mem t) of (rc, root, m) \<Rightarrow> (rc, \<lparr>rt_root = root, rt_mem = m\<rparr>))"

definition radix_tree_delete :: "bool list \<Rightarrow> 'v radix_tree \<Rightarrow> (ngx_int \<times> 'v radix_tree) option" where
  "radix_tree_delete path t = map_option (\<lambda>(rc, root, m). (rc, \<lparr>rt_root = root, rt_mem = m\<rparr>)) (radix_delete path True (rt_root t) (rt_mem t))"

definition ngx_radix32tree_insert :: "'v radix_tree \<Rightarrow> 32 word \<Rightarrow> 32 word \<Rightarrow> 'v option \<Rightarrow> ngx_int \<times> 'v radix_tree" where
  "ngx_radix32tree_insert t key msk v = radix_tree_insert (path32 key msk) v t"

definition ngx_radix32tree_delete :: "'v radix_tree \<Rightarrow> 32 word \<Rightarrow> 32 word \<Rightarrow> (ngx_int \<times> 'v radix_tree) option" where
  "ngx_radix32tree_delete t key msk = radix_tree_delete (path32 key msk) t"

text \<open>Below 32 bits \<open>bit\<close> has become zero, and the left child is taken.\<close>

definition ngx_radix32tree_find :: "'v radix_tree \<Rightarrow> 32 word \<Rightarrow> 'v option option" where
  "ngx_radix32tree_find t key = radix_find (\<lambda>d. Some (d < 32 \<and> bit key (31 - d))) 0 (rt_root t) None"

definition ngx_radix128tree_insert :: "'v radix_tree \<Rightarrow> 8 word list \<Rightarrow> 8 word list \<Rightarrow> 'v option \<Rightarrow> ngx_int \<times> 'v radix_tree" where
  "ngx_radix128tree_insert t key msk v = radix_tree_insert (path128 key msk) v t"

definition ngx_radix128tree_delete :: "'v radix_tree \<Rightarrow> 8 word list \<Rightarrow> 8 word list \<Rightarrow> (ngx_int \<times> 'v radix_tree) option" where
  "ngx_radix128tree_delete t key msk = radix_tree_delete (path128 key msk) t"

text \<open>Here \<open>key[i]\<close> is read at every node, with \<open>i\<close> the depth over eight, whatever the length of the key.\<close>

definition ngx_radix128tree_find :: "'v radix_tree \<Rightarrow> 8 word list \<Rightarrow> 'v option option" where
  "ngx_radix128tree_find t key =
     radix_find (\<lambda>d. if d div 8 < length key then Some (bit (key ! (d div 8)) (7 - d mod 8)) else None) 0 (rt_root t) None"

text \<open>\<open>ngx_radix_tree_create\<close>: the keys of one depth, from zero in steps of \<open>inc\<close> until the sum wraps to zero.\<close>

fun radix_fill :: "32 word list \<Rightarrow> 32 word \<Rightarrow> 'v radix_tree \<Rightarrow> 'v radix_tree option" where
  "radix_fill [] msk t = Some t"
| "radix_fill (key # keys) msk t =
     (case ngx_radix32tree_insert t key msk None of (rc, t') \<Rightarrow> if rc \<noteq> NGX_OK then None else radix_fill keys msk t')"

fun radix_preallocate :: "nat \<Rightarrow> nat \<Rightarrow> 32 word \<Rightarrow> 'v radix_tree \<Rightarrow> 'v radix_tree option" where
  "radix_preallocate 0 d msk t = Some t"
| "radix_preallocate (Suc n) d msk t =
     (let msk' = drop_bit 1 msk OR 0x80000000; inc = drop_bit d (0x80000000 :: 32 word) in
      case radix_fill (map (\<lambda>j. of_nat j * inc) [0..<2 ^ (d + 1)]) msk' t of
        None \<Rightarrow> None
      | Some t' \<Rightarrow> radix_preallocate n (d + 1) msk' t')"

definition ngx_radix_tree_create :: "nat \<Rightarrow> nat \<Rightarrow> int \<Rightarrow> 'v radix_tree option" where
  "ngx_radix_tree_create pagesize pages preallocate =
     (case ngx_radix_alloc \<lparr>rm_free = 0, rm_size = 0, rm_pages = pages, rm_pagesize = pagesize\<rparr> of
        None \<Rightarrow> None
      | Some m \<Rightarrow>
          (let n = (if preallocate = -1
                    then (let k = pagesize div radix_node_size in if k = 128 then 6 else if k = 256 then 7 else 8)
                    else nat preallocate) in
           radix_preallocate n 0 0 \<lparr>rt_root = RNode RNull RNull None, rt_mem = m\<rparr>))"

section \<open>The tree as a table of prefixes\<close>

fun radix_lookup :: "bool list \<Rightarrow> 'v radix \<Rightarrow> 'v option" where
  "radix_lookup path RNull = None"
| "radix_lookup [] (RNode r l v) = v"
| "radix_lookup (b # bs) (RNode r l v) = radix_lookup bs (if b then r else l)"

lemma radix_lookup_leaf [simp]: "radix_lookup path (RNode RNull RNull None) = None"
  by (cases path) auto

lemma radix_child_simps [simp]: "radix_child b (RNode r l v) = (if b then r else l)"
  by (simp add: radix_child_def)

lemma radix_set_simps [simp]: "radix_set b c (RNode r l v) = (if b then RNode c l v else RNode r c v)"
  by (simp add: radix_set_def)

text \<open>A change below a child, seen from the node.\<close>

lemma set_update:
  "\<forall>ds. radix_lookup ds c = (if ds = bs then x else radix_lookup ds (if b then r else l)) \<Longrightarrow>
   \<forall>q. radix_lookup q (radix_set b c (RNode r l w)) = (if q = b # bs then x else radix_lookup q (RNode r l w))"
proof
  fix q assume "\<forall>ds. radix_lookup ds c = (if ds = bs then x else radix_lookup ds (if b then r else l))"
  then show "radix_lookup q (radix_set b c (RNode r l w)) = (if q = b # bs then x else radix_lookup q (RNode r l w))" by (cases q) auto
qed

lemma set_same:
  "\<forall>ds. radix_lookup ds c = radix_lookup ds (if b then r else l) \<Longrightarrow> \<forall>q. radix_lookup q (radix_set b c (RNode r l w)) = radix_lookup q (RNode r l w)"
proof
  fix q assume "\<forall>ds. radix_lookup ds c = radix_lookup ds (if b then r else l)"
  then show "radix_lookup q (radix_set b c (RNode r l w)) = radix_lookup q (RNode r l w)" by (cases q) auto
qed

lemma radix_set_not_null [simp]: "radix_set b c node \<noteq> RNull"
  by (simp add: radix_set_def)

lemma radix_grow_lookup:
  assumes "radix_grow path v (RNode r l w) m = (rc, t, m')" "case path of [] \<Rightarrow> w = None | b # bs \<Rightarrow> (if b then r else l) = RNull"
  shows "t \<noteq> RNull \<and> (rc = NGX_OK \<and> (\<forall>q. radix_lookup q t = (if q = path then v else radix_lookup q (RNode r l w))) \<or>
    rc = NGX_ERROR \<and> (\<forall>q. radix_lookup q t = radix_lookup q (RNode r l w)))"
  using assms
proof (induction path arbitrary: r l w m rc t m')
  case Nil
  have "radix_lookup q (RNode r l v) = (if q = [] then v else radix_lookup q (RNode r l w))" for q by (cases q) auto
  then show ?case using Nil by auto
next
  case (Cons b bs)
  show ?case
  proof (cases "ngx_radix_alloc m")
    case None
    then show ?thesis using Cons.prems by auto
  next
    case (Some m1)
    obtain rc1 c m2 where g: "radix_grow bs v (RNode RNull RNull None) m1 = (rc1, c, m2)" by (rule prod_cases3)
    have t: "t = radix_set b c (RNode r l w)" "rc = rc1" using Cons.prems(1) Some g by auto
    have "case bs of [] \<Rightarrow> (None :: 'a option) = None | b # bs \<Rightarrow> (if b then RNull else RNull) = RNull" by (simp split: list.split)
    note IH = Cons.IH [OF g this]
    have ch: "(if b then r else l) = RNull" using Cons.prems(2) by simp
    from IH show ?thesis
    proof (elim conjE disjE, goal_cases)
      case 1
      then show ?case using set_update [of c bs v b r l w] unfolding t ch by simp
    next
      case 2
      then show ?case using set_same [of c b r l w] unfolding t ch by simp
    qed
  qed
qed

lemma radix_insert_lookup:
  assumes "radix_insert path v t m = (rc, t', m')" "t \<noteq> RNull"
  shows "t' \<noteq> RNull \<and>
    (rc = NGX_OK \<and> radix_lookup path t = None \<and> (\<forall>q. radix_lookup q t' = (if q = path then v else radix_lookup q t)) \<or>
     rc = NGX_BUSY \<and> radix_lookup path t \<noteq> None \<and> (\<forall>q. radix_lookup q t' = radix_lookup q t) \<or>
     rc = NGX_ERROR \<and> (\<forall>q. radix_lookup q t' = radix_lookup q t))"
  using assms
proof (induction path v t m arbitrary: rc t' m' rule: radix_insert.induct)
  case (1 v node m)
  obtain r l w where node: "node = RNode r l w" using 1 by (cases node) auto
  have "radix_lookup q (RNode r l v) = (if q = [] then v else radix_lookup q node)" for q by (cases q) (auto simp: node)
  then show ?case using 1 by (auto simp: node split: if_splits)
next
  case (2 b bs v node m)
  obtain r l w where node: "node = RNode r l w" using 2 by (cases node) auto
  show ?case
  proof (cases "radix_child b node = RNull")
    case True
    then have g: "radix_grow (b # bs) v (RNode r l w) m = (rc, t', m')" using 2 by (simp add: node)
    have "radix_lookup (b # bs) node = None" using True by (simp add: node split: if_splits)
    then show ?thesis using radix_grow_lookup [OF g] True unfolding node by simp
  next
    case False
    obtain rc1 c m1 where i: "radix_insert bs v (radix_child b node) m = (rc1, c, m1)" by (rule prod_cases3)
    have t': "t' = radix_set b c (RNode r l w)" "rc = rc1" using "2.prems"(1) False i by (auto simp: node)
    have p: "radix_lookup (b # bs) node = radix_lookup bs (radix_child b node)" "radix_child b node = (if b then r else l)" by (simp_all add: node)
    from "2.IH" [OF False i False] show ?thesis
    proof (elim conjE disjE, goal_cases)
      case 1
      then show ?case using set_update [of c bs v b r l w] t' p unfolding node by simp
    next
      case 2
      then show ?case using set_same [of c b r l w] t' p unfolding node by simp
    next
      case 3
      then show ?case using set_same [of c b r l w] t' p unfolding node by simp
    qed
  qed
qed

lemma radix_delete_lookup:
  assumes "radix_delete path is_root t m = Some (rc, t', m')"
  shows "(rc = NGX_OK \<and> (\<forall>q. radix_lookup q t' = (if q = path then None else radix_lookup q t)) \<or>
     rc = NGX_ERROR \<and> t' = t \<and> m' = m \<and> radix_lookup path t = None) \<and> (is_root \<and> t \<noteq> RNull \<longrightarrow> t' \<noteq> RNull)"
  using assms
proof (induction path is_root t m arbitrary: rc t' m' rule: radix_delete.induct)
  case (1 path is_root m)
  then show ?case by auto
next
  case (2 is_root r l v m)
  have clear: "radix_lookup q (RNode r l None) = (if q = [] then None else radix_lookup q (RNode r l v))" for q by (cases q) auto
  have leaf: "radix_lookup q RNull = (if q = [] then None else radix_lookup q (RNode RNull RNull v))" for q by (cases q) auto
  show ?case
  proof (cases "r \<noteq> RNull \<or> l \<noteq> RNull")
    case True
    then consider "v \<noteq> None" "t' = RNode r l None" "rc = NGX_OK" | "v = None" "t' = RNode r l v" "rc = NGX_ERROR" "m' = m"
      using 2 by (auto split: if_splits)
    then show ?thesis using clear by cases (blast, simp)
  next
    case False
    then have "t' = RNull" "rc = NGX_OK" "\<not> is_root" "r = RNull" "l = RNull" using 2 by (auto split: if_splits)
    then show ?thesis using leaf by blast
  qed
next
  case (3 b bs is_root r l v m)
  obtain rc1 c m1 where d: "radix_delete bs False (if b then r else l) m = Some (rc1, c, m1)"
    using "3.prems" by (auto split: option.splits)
  note IH = "3.IH" [OF d]
  let ?n = "radix_set b c (RNode r l v)"
  have upd: "\<forall>q. radix_lookup q ?n = (if q = b # bs then None else radix_lookup q (RNode r l v))" if "rc1 = NGX_OK"
    using IH that set_update [of c bs None b r l v] by simp
  show ?case
  proof (cases "rc1 = NGX_OK \<and> c = RNull \<and> radix_leaf ?n \<and> v = None \<and> \<not> is_root")
    case True
    then have "?n = RNode RNull RNull None" by (cases b) (auto simp: radix_leaf_def)
    then have none: "radix_lookup q ?n = None" for q by simp
    have "t' = RNull" "rc = NGX_OK" using "3.prems" d True by (auto simp: Let_def)
    then show ?thesis using upd none True by (metis radix_lookup.simps(1))
  next
    case False
    then have t': "t' = ?n" "rc = rc1" "m' = m1" using "3.prems" d by (auto simp: Let_def split: if_splits)
    show ?thesis
    proof (cases "rc1 = NGX_OK")
      case True
      then show ?thesis using upd t' by simp
    next
      case err: False
      then have "rc1 = NGX_ERROR" "c = (if b then r else l)" "m1 = m" "radix_lookup bs (if b then r else l) = None" using IH by auto
      then show ?thesis using t' by auto
    qed
  qed
qed

section \<open>Search is by the longest prefix\<close>

fun radix_has :: "bool list \<Rightarrow> 'v radix \<Rightarrow> bool" where
  "radix_has path RNull \<longleftrightarrow> False"
| "radix_has [] (RNode r l v) \<longleftrightarrow> True"
| "radix_has (b # bs) (RNode r l v) \<longleftrightarrow> radix_has bs (if b then r else l)"

definition key_bits :: "(nat \<Rightarrow> bool) \<Rightarrow> nat \<Rightarrow> nat \<Rightarrow> bool list" where
  "key_bits key d n = map key [d..<d + n]"

lemma key_bits_0 [simp]: "key_bits key d 0 = []"
  by (simp add: key_bits_def)

lemma key_bits_Suc: "key_bits key d (Suc n) = key d # key_bits key (Suc d) n"
  unfolding key_bits_def by (subst upt_conv_Cons) auto

text \<open>The value a table gives for a key: that of its longest prefix with one.\<close>

definition longest_value :: "(bool list \<Rightarrow> 'v option) \<Rightarrow> (nat \<Rightarrow> bool) \<Rightarrow> 'v option \<Rightarrow> bool" where
  "longest_value tab key res \<longleftrightarrow>
     (case res of
        None \<Rightarrow> \<forall>n. tab (key_bits key 0 n) = None
      | Some v \<Rightarrow> \<exists>n. tab (key_bits key 0 n) = Some v \<and> (\<forall>k. n < k \<longrightarrow> tab (key_bits key 0 k) = None))"

lemma radix_find_spec:
  fixes key :: "nat \<Rightarrow> bool option"
  defines "bits \<equiv> key_bits (\<lambda>i. the (key i))"
  assumes "radix_find key d t acc = Some res"
  shows "if \<forall>n. radix_lookup (bits d n) t = None then res = acc
    else \<exists>n. radix_lookup (bits d n) t = res \<and> res \<noteq> None \<and> (\<forall>k. n < k \<longrightarrow> radix_lookup (bits d k) t = None)"
  using assms(2)
proof (induction t arbitrary: d acc)
  case (RNode r l v)
  obtain b where b: "key d = Some b" using RNode.prems by (auto split: option.splits)
  let ?c = "if b then r else l"
  have sub: "radix_lookup (bits d (Suc n)) (RNode r l v) = radix_lookup (bits (Suc d) n) ?c" for n
    unfolding bits_def key_bits_Suc using b by simp
  have zero: "radix_lookup (bits d 0) (RNode r l v) = v" by (simp add: bits_def)
  have IH: "if \<forall>n. radix_lookup (bits (Suc d) n) ?c = None then res = (if v \<noteq> None then v else acc)
      else \<exists>n. radix_lookup (bits (Suc d) n) ?c = res \<and> res \<noteq> None \<and> (\<forall>k. n < k \<longrightarrow> radix_lookup (bits (Suc d) k) ?c = None)"
  proof (cases b)
    case True
    then have "radix_find key (Suc d) r (if v \<noteq> None then v else acc) = Some res" using RNode.prems b by simp
    from RNode.IH(1) [OF this] show ?thesis using True by (simp only: if_True)
  next
    case False
    then have "radix_find key (Suc d) l (if v \<noteq> None then v else acc) = Some res" using RNode.prems b by simp
    from RNode.IH(2) [OF this] show ?thesis using False by (simp only: if_False)
  qed
  have all: "(\<forall>n. radix_lookup (bits d n) (RNode r l v) = None) \<longleftrightarrow> v = None \<and> (\<forall>n. radix_lookup (bits (Suc d) n) ?c = None)"
    using sub zero by (metis not0_implies_Suc)
  show ?case
  proof (cases "\<forall>n. radix_lookup (bits (Suc d) n) ?c = None")
    case True
    have k: "radix_lookup (bits d k) (RNode r l v) = None" if k0: "0 < k" for k
    proof -
      obtain j where "k = Suc j" using k0 by (auto simp: gr0_conv_Suc)
      then show ?thesis using sub [of j] True by (simp only:)
    qed
    have res: "res = (if v \<noteq> None then v else acc)" using IH unfolding if_P [OF True] .
    show ?thesis
    proof (cases "v = None")
      case None: True
      then show ?thesis using all True res by simp
    next
      case False
      then have "\<exists>n. radix_lookup (bits d n) (RNode r l v) = res \<and> res \<noteq> None \<and> (\<forall>k. n < k \<longrightarrow> radix_lookup (bits d k) (RNode r l v) = None)"
        using res zero k by (intro exI [of _ 0]) simp
      then show ?thesis using all False by (simp only: if_False simp_thms)
    qed
  next
    case False
    have "\<exists>n. radix_lookup (bits (Suc d) n) ?c = res \<and> res \<noteq> None \<and> (\<forall>k. n < k \<longrightarrow> radix_lookup (bits (Suc d) k) ?c = None)"
      using IH unfolding if_not_P [OF False] .
    then obtain n where n: "radix_lookup (bits (Suc d) n) ?c = res" "res \<noteq> None" "\<forall>k. n < k \<longrightarrow> radix_lookup (bits (Suc d) k) ?c = None" by blast
    have "radix_lookup (bits d k) (RNode r l v) = None" if k0: "Suc n < k" for k
    proof -
      obtain j where "k = Suc j" "n < j" using k0 by (cases k) auto
      then show ?thesis using sub [of j] n(3) by (simp only:)
    qed
    then have "\<exists>n. radix_lookup (bits d n) (RNode r l v) = res \<and> res \<noteq> None \<and> (\<forall>k. n < k \<longrightarrow> radix_lookup (bits d k) (RNode r l v) = None)"
      using sub [of n] n(1,2) by (intro exI [of _ "Suc n"]) blast
    then show ?thesis using all False by (simp only: if_False simp_thms)
  qed
qed simp

lemma radix_find_longest:
  assumes "radix_find key 0 t None = Some res"
  shows "longest_value (\<lambda>p. radix_lookup p t) (\<lambda>i. the (key i)) res"
  using radix_find_spec [OF assms] by (cases res) (auto simp: longest_value_def split: if_splits)

lemma radix_find_none:
  fixes key :: "nat \<Rightarrow> bool option"
  defines "bits \<equiv> key_bits (\<lambda>i. the (key i))"
  assumes "\<And>i. i < d + n \<Longrightarrow> key i \<noteq> None" "\<And>i. d + n \<le> i \<Longrightarrow> key i = None"
  shows "radix_find key d t acc = None \<longleftrightarrow> radix_has (bits d n) t"
  using assms(2,3)
proof (induction t arbitrary: d n acc)
  case (RNode r l v)
  show ?case
  proof (cases n)
    case 0
    then show ?thesis using RNode.prems(2) [of d] by (simp add: bits_def)
  next
    case (Suc k)
    obtain b where b: "key d = Some b" using RNode.prems(1) [of d] Suc by auto
    have "radix_find key (Suc d) (if b then r else l) a = None \<longleftrightarrow> radix_has (bits (Suc d) k) (if b then r else l)" for a
      using RNode.IH(1) [of "Suc d" k a] RNode.IH(2) [of "Suc d" k a] RNode.prems Suc by (cases b) auto
    then show ?thesis using b Suc by (simp add: bits_def key_bits_Suc)
  qed
qed simp

section \<open>Tables of ranges\<close>

text \<open>
  What the tables promise to the modules that fill them: an insertion enters its range if it is new, and changes nothing else
  whatever it answers. Of ranges declared twice the first stays.
\<close>

fun insert_all :: "('t \<Rightarrow> 'k \<Rightarrow> 'k \<Rightarrow> 'v option \<Rightarrow> ngx_int \<times> 't) \<Rightarrow> ('k \<times> 'k \<times> 'v) list \<Rightarrow> 't \<Rightarrow> ngx_int list \<times> 't" where
  "insert_all ins [] t = ([], t)"
| "insert_all ins ((k, m, v) # rs) t =
     (case ins t k m (Some v) of (rc, t1) \<Rightarrow> (case insert_all ins rs t1 of (rcs, t2) \<Rightarrow> (rc # rcs, t2)))"

locale prefix_table =
  fixes ins :: "'t \<Rightarrow> 'k \<Rightarrow> 'k \<Rightarrow> 'v option \<Rightarrow> ngx_int \<times> 't"
    and entry :: "'t \<Rightarrow> bool list \<Rightarrow> 'v option"
    and path :: "'k \<Rightarrow> 'k \<Rightarrow> bool list"
    and ok :: "'t \<Rightarrow> bool"
  assumes ins_ok: "ok t \<Longrightarrow> ins t k m v = (rc, t') \<Longrightarrow> ok t'"
    and ins_new: "ok t \<Longrightarrow> ins t k m v = (NGX_OK, t') \<Longrightarrow> entry t (path k m) = None \<and> entry t' = (entry t)(path k m := v)"
    and ins_busy: "ok t \<Longrightarrow> ins t k m v = (NGX_BUSY, t') \<Longrightarrow> entry t (path k m) \<noteq> None \<and> entry t' = entry t"
    and ins_codes: "ok t \<Longrightarrow> ins t k m v = (rc, t') \<Longrightarrow> rc = NGX_OK \<or> rc = NGX_BUSY \<or> rc = NGX_ERROR \<and> entry t' = entry t"
begin

lemma insert_all_entries:
  assumes "ok t" "insert_all ins rs t = (rcs, t')" "NGX_ERROR \<notin> set rcs"
  shows "ok t' \<and> entry t' = map_of (map (\<lambda>(k, m, v). (path k m, v)) rs) ++ entry t"
  using assms
proof (induction rs arbitrary: t rcs)
  case (Cons r rs)
  obtain k m v where r: "r = (k, m, v)" by (cases r)
  obtain rc t1 where i: "ins t k m (Some v) = (rc, t1)" by (rule prod.exhaust)
  obtain rcs1 t2 where a: "insert_all ins rs t1 = (rcs1, t2)" by (rule prod.exhaust)
  have t': "t' = t2" "rcs = rc # rcs1" using Cons.prems(2) i a by (simp_all add: r)
  define ps where "ps = map (\<lambda>(k, m, v). (path k m, v)) rs"
  have IH: "ok t'" "entry t' = map_of ps ++ entry t1"
    using Cons.IH [OF ins_ok [OF Cons.prems(1) i], of rcs1] a Cons.prems(3) t' by (auto simp: ps_def)
  have ps: "map_of (map (\<lambda>(k, m, v). (path k m, v)) (r # rs)) = (map_of ps)(path k m \<mapsto> v)" by (simp add: r ps_def)
  have "rc = NGX_OK \<or> rc = NGX_BUSY" using ins_codes [OF Cons.prems(1) i] Cons.prems(3) t' by auto
  then have "map_of ps ++ entry t1 = (map_of ps)(path k m \<mapsto> v) ++ entry t"
  proof
    assume rc: "rc = NGX_OK"
    have "entry t (path k m) = None" "entry t1 = (entry t)(path k m \<mapsto> v)" using ins_new [OF Cons.prems(1) i [unfolded rc]] by simp_all
    then show ?thesis by (auto simp: map_add_def fun_eq_iff split: option.splits)
  next
    assume rc: "rc = NGX_BUSY"
    have "entry t (path k m) \<noteq> None" "entry t1 = entry t" using ins_busy [OF Cons.prems(1) i [unfolded rc]] by simp_all
    then show ?thesis by (auto simp: map_add_def fun_eq_iff split: option.splits)
  qed
  then show ?case unfolding ps using IH by (simp only: simp_thms)
qed simp

end

definition radix_entry :: "'v radix_tree \<Rightarrow> bool list \<Rightarrow> 'v option" where
  "radix_entry t p = radix_lookup p (rt_root t)"

definition radix_ok :: "'v radix_tree \<Rightarrow> bool" where
  "radix_ok t \<longleftrightarrow> rt_root t \<noteq> RNull"

lemma tree_insert_entry:
  assumes "radix_ok t" "radix_tree_insert path v t = (rc, t')"
  shows "radix_ok t' \<and>
    (rc = NGX_OK \<and> radix_entry t path = None \<and> radix_entry t' = (radix_entry t)(path := v) \<or>
     rc = NGX_BUSY \<and> radix_entry t path \<noteq> None \<and> radix_entry t' = radix_entry t \<or>
     rc = NGX_ERROR \<and> radix_entry t' = radix_entry t)"
proof -
  obtain rc1 root m where i: "radix_insert path v (rt_root t) (rt_mem t) = (rc1, root, m)" by (rule prod_cases3)
  then have t': "t' = \<lparr>rt_root = root, rt_mem = m\<rparr>" "rc = rc1" using assms(2) by (simp_all add: radix_tree_insert_def)
  have "rt_root t \<noteq> RNull" using assms(1) by (simp add: radix_ok_def)
  from radix_insert_lookup [OF i this] show ?thesis by (elim conjE disjE) (simp_all add: radix_entry_def radix_ok_def t' fun_eq_iff)
qed

interpretation r32: prefix_table ngx_radix32tree_insert radix_entry path32 radix_ok
  by unfold_locales (auto simp: ngx_radix32tree_insert_def dest: tree_insert_entry)

interpretation r128: prefix_table ngx_radix128tree_insert radix_entry path128 radix_ok
  by unfold_locales (auto simp: ngx_radix128tree_insert_def dest: tree_insert_entry)

section \<open>The trees keep what they are given\<close>

definition radix_empty :: "'v radix_tree \<Rightarrow> bool" where
  "radix_empty t \<longleftrightarrow> radix_ok t \<and> (\<forall>p. radix_entry t p = None)"

lemma radix_fill_empty: "radix_empty t \<Longrightarrow> radix_fill keys msk t = Some t' \<Longrightarrow> radix_empty t'"
proof (induction keys arbitrary: t)
  case (Cons k keys)
  obtain rc t1 where i: "ngx_radix32tree_insert t k msk None = (rc, t1)" by (rule prod.exhaust)
  have "rc = NGX_OK" "radix_fill keys msk t1 = Some t'" using Cons.prems(2) i by (auto split: if_splits)
  moreover have "radix_empty t1" if "rc = NGX_OK"
    using Cons.prems(1) r32.ins_ok [of t k msk None rc t1] r32.ins_new [of t k msk None t1] i that by (auto simp: radix_empty_def)
  ultimately show ?case using Cons.IH by blast
qed simp

lemma radix_preallocate_empty: "radix_empty t \<Longrightarrow> radix_preallocate n d msk t = Some t' \<Longrightarrow> radix_empty t'"
proof (induction n d msk t rule: radix_preallocate.induct)
  case (2 n d msk t)
  then show ?case using radix_fill_empty [OF 2(2)] by (auto simp: Let_def split: option.splits)
qed simp

lemma radix_create_empty:
  assumes "ngx_radix_tree_create pagesize pages n = Some t"
  shows "radix_empty t"
proof -
  obtain m k where "radix_preallocate k 0 0 \<lparr>rt_root = RNode RNull RNull None, rt_mem = m\<rparr> = Some t"
    using assms unfolding ngx_radix_tree_create_def by (auto simp only: Let_def split: option.splits)
  moreover have "radix_empty \<lparr>rt_root = RNode RNull RNull None, rt_mem = m\<rparr>" by (simp add: radix_empty_def radix_ok_def radix_entry_def)
  ultimately show ?thesis using radix_preallocate_empty by blast
qed

definition ranges_table :: "('k \<Rightarrow> 'k \<Rightarrow> bool list) \<Rightarrow> ('k \<times> 'k \<times> 'v) list \<Rightarrow> bool list \<Rightarrow> 'v option" where
  "ranges_table path rs = map_of (map (\<lambda>(k, m, v). (path k m, v)) rs)"

lemma empty_map_add: "(\<forall>p. f p = None) \<Longrightarrow> g ++ f = g"
  by (simp add: map_add_def fun_eq_iff)

text \<open>
  C29. A tree of IPv4 ranges answers by the longest range: after a new tree, preallocated or not, was filled with ranges and no insertion ran out of
  memory, \<open>ngx_radix32tree_find\<close> returns for every address the value of the longest of the ranges it is in, the first declared of equal
  ranges, and no value if it is in none.
\<close>

theorem radix32_longest:
  assumes "ngx_radix_tree_create pagesize pages n = Some t" "insert_all ngx_radix32tree_insert rs t = (rcs, t')" "NGX_ERROR \<notin> set rcs"
  shows "\<exists>res. ngx_radix32tree_find t' key = Some res \<and>
    longest_value (ranges_table path32 rs) (\<lambda>d. d < 32 \<and> bit key (31 - d)) res"
proof -
  have t: "radix_ok t" "\<forall>p. radix_entry t p = None" using radix_create_empty [OF assms(1)] by (auto simp: radix_empty_def)
  have "radix_entry t' = ranges_table path32 rs ++ radix_entry t"
    using r32.insert_all_entries [OF t(1) assms(2,3)] by (simp add: ranges_table_def)
  then have tab: "(\<lambda>p. radix_lookup p (rt_root t')) = ranges_table path32 rs" using empty_map_add [OF t(2)] by (auto simp: radix_entry_def fun_eq_iff)
  have "ngx_radix32tree_find t' key \<noteq> None"
  proof -
    have "radix_find (\<lambda>d. Some (f d)) e u acc \<noteq> None" for f e and u :: "'a radix" and acc
      by (induction u arbitrary: e acc) auto
    then show ?thesis by (simp add: ngx_radix32tree_find_def)
  qed
  then obtain res where res: "ngx_radix32tree_find t' key = Some res" by blast
  have "longest_value (\<lambda>p. radix_lookup p (rt_root t')) (\<lambda>d. d < 32 \<and> bit key (31 - d)) res"
    using radix_find_longest [OF res [unfolded ngx_radix32tree_find_def]] by simp
  then show ?thesis using res tab by metis
qed

lemma radix_delete_below: "radix_delete p False u m \<noteq> None"
proof (induction u arbitrary: p m)
  case (RNode r l v)
  show ?case
  proof (cases p)
    case (Cons b bs)
    obtain rc c m' where "radix_delete bs False (if b then r else l) m = Some (rc, c, m')"
      using RNode.IH [of bs m] by (cases b) auto
    then show ?thesis using Cons by (simp add: Let_def)
  qed simp
qed simp

text \<open>
  Deleting a range takes exactly this entry out of the tree and keeps the root; when the answer is \<open>NGX_ERROR\<close> the tree is the one before and had no
  such range. The only call that fails otherwise is the one for the whole address space on a tree with nothing but the root,
  which follows the null pointer to the root's parent.
\<close>

theorem radix32_delete:
  assumes "radix_ok t"
  shows "case ngx_radix32tree_delete t key msk of
     Some (rc, t') \<Rightarrow> radix_ok t' \<and>
       (rc = NGX_OK \<and> radix_entry t' = (radix_entry t)(path32 key msk := None) \<or> rc = NGX_ERROR \<and> t' = t \<and> radix_entry t (path32 key msk) = None)
   | None \<Rightarrow> path32 key msk = [] \<and> radix_leaf (rt_root t)"
proof (cases "radix_delete (path32 key msk) True (rt_root t) (rt_mem t)")
  case None
  have "path32 key msk = [] \<and> radix_leaf (rt_root t)"
  proof (cases "path32 key msk")
    case Nil
    then show ?thesis using None by (cases "rt_root t") (auto simp: radix_leaf_def split: if_splits)
  next
    case (Cons b bs)
    then show ?thesis
      using None radix_delete_below [of bs "if b then r_right (rt_root t) else r_left (rt_root t)" "rt_mem t"]
      by (cases "rt_root t") (auto simp: Let_def split: option.splits if_splits)
  qed
  then show ?thesis using None by (simp add: ngx_radix32tree_delete_def radix_tree_delete_def)
next
  case (Some x)
  obtain rc root m where x: "x = (rc, root, m)" by (rule prod_cases3)
  from radix_delete_lookup [OF Some [unfolded x]] assms show ?thesis
    unfolding ngx_radix32tree_delete_def radix_tree_delete_def Some x
    by (auto simp: radix_ok_def radix_entry_def fun_eq_iff)
qed

lemma path128_full:
  assumes "\<forall>i<16. msk ! i = - 1"
  shows "path128 key msk = key_bits (\<lambda>d. bit (key ! (d div 8)) (7 - d mod 8)) 0 128"
proof -
  have "bit (msk ! (d div 8)) (7 - d mod 8)" if "d < 128" for d
  proof -
    have "d div 8 < 16" using that by (simp add: less_mult_imp_div_less)
    then show ?thesis using assms by simp
  qed
  then have "takeWhile (\<lambda>d. bit (msk ! (d div 8)) (7 - d mod 8)) [0..<128] = [0..<128]" by (subst takeWhile_eq_all_conv) auto
  then show ?thesis unfolding path128_def key_bits_def by (simp only: add_0)
qed

lemma radix_lookup_has: "radix_lookup p t \<noteq> None \<Longrightarrow> radix_has p t"
  by (induction p t rule: radix_lookup.induct) auto

lemma key128_bits:
  assumes "length key = 16" "n \<le> 128"
  shows "key_bits (\<lambda>d. the (if d div 8 < length key then Some (bit (key ! (d div 8)) (7 - d mod 8)) else None)) 0 n =
    key_bits (\<lambda>d. bit (key ! (d div 8)) (7 - d mod 8)) 0 n"
  using assms by (auto simp: key_bits_def intro!: map_cong)

text \<open>
  C30. A tree of IPv6 ranges reads one byte too far: once a range of a single address is in it, the search for this very address reads \<open>key[16]\<close>, behind the sixteen
  bytes of the address, before it finds that the node has no children. It reads past the key for no other addresses.
\<close>

theorem radix128_overrun:
  assumes "radix_ok t" "length key = 16"
  shows "(ngx_radix128tree_find t key = None \<longleftrightarrow> radix_has (key_bits (\<lambda>d. bit (key ! (d div 8)) (7 - d mod 8)) 0 128) (rt_root t)) \<and>
    ((\<forall>i<16. msk ! i = - 1) \<longrightarrow> ngx_radix128tree_insert t key msk (Some v) = (NGX_OK, t') \<longrightarrow> ngx_radix128tree_find t' key = None)"
proof -
  let ?f = "\<lambda>d. if d div 8 < length key then Some (bit (key ! (d div 8)) (7 - d mod 8)) else None"
  have f: "?f i \<noteq> None \<longleftrightarrow> i < 128" for i using assms(2) by auto
  have has: "ngx_radix128tree_find u key = None \<longleftrightarrow> radix_has (key_bits (\<lambda>d. bit (key ! (d div 8)) (7 - d mod 8)) 0 128) (rt_root u)"
    for u :: "'a radix_tree"
  proof -
    have "?f i = None" if "0 + 128 \<le> i" for i using f [of i] that by (metis add_0 not_less)
    moreover have "?f i \<noteq> None" if "i < 0 + 128" for i using f [of i] that by (metis add_0)
    ultimately have "radix_find ?f 0 (rt_root u) None = None \<longleftrightarrow> radix_has (key_bits (\<lambda>i. the (?f i)) 0 128) (rt_root u)"
      by (intro radix_find_none) blast+
    then show ?thesis using key128_bits [OF assms(2), of 128] by (simp add: ngx_radix128tree_find_def)
  qed
  have "ngx_radix128tree_find t' key = None"
    if m: "\<forall>i<16. msk ! i = - 1" and i: "ngx_radix128tree_insert t key msk (Some v) = (NGX_OK, t')"
  proof -
    have "radix_lookup (path128 key msk) (rt_root t') = Some v"
      using r128.ins_new [OF assms(1) i] by (simp add: radix_entry_def fun_eq_iff)
    then have "radix_has (path128 key msk) (rt_root t')" by (intro radix_lookup_has) simp
    then show ?thesis using has [of t'] unfolding path128_full [OF m] by blast
  qed
  then show ?thesis using has by blast
qed

section \<open>Witnesses\<close>

definition ranges0 :: "(32 word \<times> 32 word \<times> nat) list" where
  "ranges0 = [(0, 0, 1), (0xC0000000, 0xC0000000, 2)]"

lemma path0: "path32 0 0 = []" "path32 0xC0000000 0xC0000000 = [True, True]"
  by code_simp+

definition tree0 :: "nat radix_tree" where
  "tree0 = \<lparr>rt_root = RNode RNull RNull None, rt_mem = \<lparr>rm_free = 0, rm_size = 4064, rm_pages = 0, rm_pagesize = 4096\<rparr>\<rparr>"

definition tree0_filled :: "nat radix_tree" where
  "tree0_filled = \<lparr>rt_root = RNode (RNode (RNode RNull RNull (Some 2)) RNull None) RNull (Some 1),
     rt_mem = \<lparr>rm_free = 0, rm_size = 4000, rm_pages = 0, rm_pagesize = 4096\<rparr>\<rparr>"

lemma tree0_created: "ngx_radix_tree_create 4096 1 0 = Some tree0"
  by (simp add: ngx_radix_tree_create_def ngx_radix_alloc_def radix_node_size_def tree0_def)

lemma tree0_insert: "insert_all ngx_radix32tree_insert ranges0 tree0 = ([NGX_OK, NGX_OK], tree0_filled)"
  by (simp add: ranges0_def ngx_radix32tree_insert_def radix_tree_insert_def path0 tree0_def tree0_filled_def ngx_radix_alloc_def radix_node_size_def
      radix_child_def radix_set_def)

theorem radix32_longest_witness:
  "\<exists>res. ngx_radix32tree_find tree0_filled 0xC0A80001 = Some res \<and>
    longest_value (ranges_table path32 ranges0) (\<lambda>d. d < 32 \<and> bit (0xC0A80001 :: 32 word) (31 - d)) res"
  using radix32_longest [OF tree0_created tree0_insert, of "0xC0A80001"] by simp

theorem radix32_delete_witness:
  "ngx_radix32tree_delete tree0 0 0 = None"
  using radix32_delete [of tree0 0 0] by (simp add: path0 radix_ok_def tree0_def ngx_radix32tree_delete_def radix_tree_delete_def radix_leaf_def)

lemma grow_enough: "length p \<le> rm_free m \<Longrightarrow> \<exists>t' m'. radix_grow p v t m = (NGX_OK, t', m')"
proof (induction p arbitrary: t m)
  case (Cons b bs)
  let ?m = "m\<lparr>rm_free := rm_free m - 1\<rparr>"
  have "ngx_radix_alloc m = Some ?m" using Cons.prems by (simp add: ngx_radix_alloc_def)
  moreover have "length bs \<le> rm_free ?m" using Cons.prems by simp
  then obtain t' m' where "radix_grow bs v (RNode RNull RNull None) ?m = (NGX_OK, t', m')" using Cons.IH [of ?m] by blast
  ultimately show ?case by simp
qed simp

definition tree1 :: "nat radix_tree" where
  "tree1 = tree0\<lparr>rt_mem := (rt_mem tree0)\<lparr>rm_free := 128\<rparr>\<rparr>"

theorem radix128_overrun_witness:
  "\<exists>t'. ngx_radix128tree_insert tree1 (replicate 16 0) (replicate 16 (- 1)) (Some 7) = (NGX_OK, t') \<and> ngx_radix128tree_find t' (replicate 16 0) = None"
proof -
  let ?p = "path128 (replicate 16 0) (replicate 16 (- 1))"
  have msk: "\<forall>i<16. replicate 16 (- 1 :: 8 word) ! i = - 1" by simp
  have p: "length ?p = 128" unfolding path128_full [OF msk] by (simp add: key_bits_def)
  obtain t m where "radix_grow ?p (Some 7) (rt_root tree1) (rt_mem tree1) = (NGX_OK, t, m)"
    using grow_enough [of ?p "rt_mem tree1" "Some 7" "rt_root tree1"] p by (auto simp: tree1_def)
  moreover have "radix_insert ?p (Some 7) (rt_root tree1) (rt_mem tree1) = radix_grow ?p (Some 7) (rt_root tree1) (rt_mem tree1)"
    using p by (cases ?p) (auto simp: tree1_def tree0_def)
  ultimately have i: "ngx_radix128tree_insert tree1 (replicate 16 0) (replicate 16 (- 1)) (Some 7) = (NGX_OK, \<lparr>rt_root = t, rt_mem = m\<rparr>)"
    by (simp add: ngx_radix128tree_insert_def radix_tree_insert_def)
  moreover have "radix_ok tree1" by (simp add: radix_ok_def tree1_def tree0_def)
  ultimately show ?thesis using radix128_overrun [of tree1 "replicate 16 0" "replicate 16 (- 1)" 7] msk by auto
qed

end
