(* ===== verification/Rds_Json.thy ===== *)
theory Rds_Json
  imports Ngx_Number Redis2_Query
begin

text \<open>
  The JSON writer of \<open>rds-json-nginx-module-master/src\<close>: string escaping
  (\<open>ngx_http_rds_json_util.c\<close>), the directives and the header filter
  (\<open>ngx_http_rds_json_filter_module.c\<close>), the \<open>rds_json_ret\<close> handler
  (\<open>ngx_http_rds_json_handler.c\<close>) and the output functions with their buffers
  (\<open>ngx_http_rds_json_output.c\<close>). Every output function first computes the size of what it
  writes, reserves that many bytes, fills them and submits them; the bytes go through buffers
  of a fixed size, and a piece that does not fit is kept aside and copied over several buffers.
\<close>

section \<open>Escaping\<close>

text \<open>
  \<open>ngx_http_rds_json_escape_json_str\<close> is called twice: with no destination it counts the bytes
  to be added, with one it writes the escaped string.
\<close>

definition json_c2 :: "u_char \<Rightarrow> char option" where
  "json_c2 c =
     (if c = CR then Some (CHR ''r'')
      else if c = LF then Some (CHR ''n'')
      else if c = CHR 0x5C then Some (CHR 0x5C)
      else if c = CHR 0x22 then Some (CHR 0x22)
      else if c = CHR 0x0C then Some (CHR ''f'')
      else if c = CHR 0x08 then Some (CHR ''b'')
      else if c = HTAB then Some (CHR ''t'')
      else None)"

fun rds_escape_count :: "bytes \<Rightarrow> nat" where
  "rds_escape_count [] = 0"
| "rds_escape_count (c # src) =
     (if ord c AND 0x80 = 0 then
        (case json_c2 c of Some _ \<Rightarrow> 1 | None \<Rightarrow> if ord c < 32 then 5 else 0)
      else 0) + rds_escape_count src"

fun escape_json :: "bytes \<Rightarrow> bytes" where
  "escape_json [] = []"
| "escape_json (c # src) =
     (if ord c AND 0x80 = 0 then
        (case json_c2 c of
           Some d \<Rightarrow> [CHR 0x5C, d]
         | None \<Rightarrow>
             if ord c < 32 then
               [CHR 0x5C, CHR ''u'', CHR ''0'', CHR ''0'',
                ''0123456789abcdef'' ! drop_bit 4 (ord c), ''0123456789abcdef'' ! (ord c AND 0x0f)]
             else [c])
      else [c]) @ escape_json src"

text \<open>The callers copy the string as it is when the count is zero, and escape it otherwise.\<close>

definition json_copy :: "bytes \<Rightarrow> bytes" where
  "json_copy s = (if rds_escape_count s = 0 then s else escape_json s)"

section \<open>JSON text\<close>

text \<open>
  The reference the output is compared with: JSON values and their text without white space,
  and a reader of JSON strings that decodes every escape the writer uses.
\<close>

datatype json =
    JNull
  | JBool bool
  | JNum bytes
  | JStr bytes
  | JArr "json list"
  | JObj "(bytes \<times> json) list"

fun comma_sep :: "bytes list \<Rightarrow> bytes" where
  "comma_sep [] = []"
| "comma_sep [x] = x"
| "comma_sep (x # y # zs) = x @ '','' @ comma_sep (y # zs)"

definition json_str :: "bytes \<Rightarrow> bytes" where
  "json_str s = [CHR 0x22] @ escape_json s @ [CHR 0x22]"

fun json_text :: "json \<Rightarrow> bytes" where
  "json_text JNull = ''null''"
| "json_text (JBool b) = (if b then ''true'' else ''false'')"
| "json_text (JNum n) = n"
| "json_text (JStr s) = json_str s"
| "json_text (JArr vs) = ''['' @ comma_sep (map json_text vs) @ '']''"
| "json_text (JObj kvs) = ''{'' @ comma_sep (map (\<lambda>(k, v). json_str k @ '':'' @ json_text v) kvs) @ ''}''"

fun json_unescape2 :: "char \<Rightarrow> char option" where
  "json_unescape2 d =
     (if d = CHR ''r'' then Some CR
      else if d = CHR ''n'' then Some LF
      else if d = CHR 0x5C then Some (CHR 0x5C)
      else if d = CHR 0x22 then Some (CHR 0x22)
      else if d = CHR ''/'' then Some (CHR ''/'')
      else if d = CHR ''f'' then Some (CHR 0x0C)
      else if d = CHR ''b'' then Some (CHR 0x08)
      else if d = CHR ''t'' then Some HTAB
      else None)"

text \<open>
  What follows an opening quote: the string up to the closing quote and what comes after it.
  A raw control character or an unknown escape is not JSON. (A \<open>\u\<close> escape is read only up to
  \<open>\u00ff\<close>: a larger code point is not one byte.)
\<close>

fun json_read_str :: "bytes \<Rightarrow> (bytes \<times> bytes) option" where
  "json_read_str [] = None"
| "json_read_str (c # cs) =
     (if c = CHR 0x22 then Some ([], cs)
      else if ord c < 32 then None
      else if c \<noteq> CHR 0x5C then map_option (apfst ((#) c)) (json_read_str cs)
      else (case cs of
          [] \<Rightarrow> None
        | d # ds \<Rightarrow>
            (if d = CHR ''u'' then
               (case ds of
                  z1 # z2 # h # l # rest \<Rightarrow>
                    (if z1 = CHR ''0'' \<and> z2 = CHR ''0'' \<and> (digit h \<or> hexalpha20 h) \<and> (digit l \<or> hexalpha20 l)
                     then map_option (apfst ((#) (chr (hexit_val h * 16 + hexit_val l)))) (json_read_str rest)
                     else None)
                | _ \<Rightarrow> None)
             else (case json_unescape2 d of
                 None \<Rightarrow> None
               | Some e \<Rightarrow> map_option (apfst ((#) e)) (json_read_str ds)))))"

section \<open>Escaping is exact\<close>

lemma rds_escape_length: "length (escape_json s) = length s + rds_escape_count s"
  by (induction s) (auto split: option.splits)

lemma escape_json_append: "escape_json (s @ t) = escape_json s @ escape_json t"
  by (induction s) simp_all

lemma json_copy_escape: "json_copy s = escape_json s"
proof -
  have "escape_json s = s" if "rds_escape_count s = 0"
    using that by (induction s) (auto split: if_splits option.splits)
  then show ?thesis by (simp add: json_copy_def)
qed

lemma json_copy_length: "length (json_copy s) = length s + rds_escape_count s"
  by (simp add: json_copy_escape rds_escape_length)

lemma rds_high_bit: "ord c AND 0x80 = 0 \<longleftrightarrow> ord c < 128"
proof (cases c)
  case (Char b0 b1 b2 b3 b4 b5 b6 b7)
  then show ?thesis
    by (cases b0; cases b1; cases b2; cases b3; cases b4; cases b5; cases b6; cases b7)
      (simp_all flip: numeral_2_eq_2 numeral_3_eq_3)
qed

lemma json_read_str_plain:
  "c \<noteq> CHR 0x22 \<Longrightarrow> c \<noteq> CHR 0x5C \<Longrightarrow> \<not> ord c < 32 \<Longrightarrow>
   json_read_str (c # cs) = map_option (apfst ((#) c)) (json_read_str cs)"
  by simp

lemma json_read_escaped:
  "json_read_str (escape_json [c] @ cs) = map_option (apfst ((#) c)) (json_read_str cs)"
proof (cases "ord c AND 0x80 = 0")
  case True
  show ?thesis
  proof (cases "json_c2 c")
    case None
    show ?thesis
    proof (cases "ord c < 32")
      case True
      have c: "chr (ord c div 16 * 16 + ord c mod 16) = c" by simp
      show ?thesis
        using hexit_lower [of "ord c div 16"] hexit_lower [of "ord c mod 16"] nibbles [of c]
          \<open>ord c AND 0x80 = 0\<close> None True c
        by simp
    next
      case False
      then show ?thesis using None \<open>ord c AND 0x80 = 0\<close>
        by (auto simp: json_c2_def split: if_splits)
    qed
  next
    case (Some d)
    then show ?thesis using True by (auto simp: json_c2_def split: if_splits)
  qed
next
  case False
  then have "c \<noteq> CHR 0x22 \<and> c \<noteq> CHR 0x5C \<and> \<not> ord c < 32"
    by (auto simp: rds_high_bit)
  with False show ?thesis by (simp add: json_read_str_plain)
qed

lemma json_read_escape: "json_read_str (escape_json s @ CHR 0x22 # rest) = Some (s, rest)"
proof (induction s)
  case (Cons c s)
  have "escape_json (c # s) = escape_json [c] @ escape_json s" by simp
  then show ?case using Cons json_read_escaped [of c "escape_json s @ CHR 0x22 # rest"]
    by (simp del: escape_json.simps)
qed simp


section \<open>Configuration\<close>

datatype json_format = json_format_normal | json_format_compact | json_format_pretty

text \<open>
  \<open>ngx_http_rds_json_loc_conf_t\<close>; \<open>None\<close> is \<open>NGX_CONF_UNSET\<close> and \<open>NULL\<close>. A complex value is its
  source text: the script engine that evaluates it is a parameter of what uses it.
\<close>

record rds_json_conf =
  rj_enabled :: "bool option"
  rj_format :: "json_format option"
  rj_content_type :: "bytes option"
  rj_root :: bytes
  rj_success :: bytes
  rj_user_props :: "(bytes \<times> bytes) list option"
  rj_errcode_key :: bytes
  rj_errstr_key :: bytes
  rj_buf_size :: "nat option"
  rj_errcode :: bytes
  rj_errstr :: "bytes option"

text \<open>What a directive returns: \<open>NGX_CONF_OK\<close>, \<open>NGX_CONF_ERROR\<close> or a message.\<close>

datatype conf_result = Conf_Ok | Conf_Error | Conf_Msg bytes

definition ngx_http_rds_json_create_loc_conf :: rds_json_conf where
  "ngx_http_rds_json_create_loc_conf =
     \<lparr> rj_enabled = None, rj_format = None, rj_content_type = None, rj_root = [], rj_success = [],
       rj_user_props = None, rj_errcode_key = [], rj_errstr_key = [], rj_buf_size = None,
       rj_errcode = [], rj_errstr = None \<rparr>"

text \<open>
  The quoted key the directives store: the length is computed from the count, the bytes are
  then written, and the two are compared.
\<close>

definition quoted_key :: "bytes \<Rightarrow> nat \<times> bytes" where
  "quoted_key s = (length s + rds_escape_count s + 2, [CHR 0x22] @ json_copy s @ [CHR 0x22])"

text \<open>
  The body the four directives with one argument share; \<open>get\<close> and \<open>put\<close> are the field of the
  directive, \<open>alloc\<close> whether \<open>ngx_palloc\<close> succeeds.
\<close>

definition json_key_directive :: "bool \<Rightarrow> (rds_json_conf \<Rightarrow> bytes) \<Rightarrow> (bytes \<Rightarrow> rds_json_conf \<Rightarrow> rds_json_conf)
    \<Rightarrow> bytes \<Rightarrow> rds_json_conf \<Rightarrow> conf_result \<times> rds_json_conf" where
  "json_key_directive alloc get put v jlcf =
     (if get jlcf \<noteq> [] then (Conf_Msg ''is duplicate'', jlcf)
      else if v = [] then (Conf_Msg ''takes an empty value'', jlcf)
      else if \<not> alloc then (Conf_Error, jlcf)
      else let (len, key) = quoted_key v; jlcf1 = put key jlcf in
        if length key \<noteq> len then (Conf_Msg ''sees buffer error'', jlcf1) else (Conf_Ok, jlcf1))"

definition ngx_http_rds_json_root :: "bool \<Rightarrow> bytes \<Rightarrow> rds_json_conf \<Rightarrow> conf_result \<times> rds_json_conf" where
  "ngx_http_rds_json_root alloc = json_key_directive alloc rj_root (\<lambda>k c. c\<lparr>rj_root := k\<rparr>)"

definition ngx_http_rds_json_success_property :: "bool \<Rightarrow> bytes \<Rightarrow> rds_json_conf \<Rightarrow> conf_result \<times> rds_json_conf" where
  "ngx_http_rds_json_success_property alloc = json_key_directive alloc rj_success (\<lambda>k c. c\<lparr>rj_success := k\<rparr>)"

definition ngx_http_rds_json_errcode_key :: "bool \<Rightarrow> bytes \<Rightarrow> rds_json_conf \<Rightarrow> conf_result \<times> rds_json_conf" where
  "ngx_http_rds_json_errcode_key alloc = json_key_directive alloc rj_errcode_key (\<lambda>k c. c\<lparr>rj_errcode_key := k\<rparr>)"

definition ngx_http_rds_json_errstr_key :: "bool \<Rightarrow> bytes \<Rightarrow> rds_json_conf \<Rightarrow> conf_result \<times> rds_json_conf" where
  "ngx_http_rds_json_errstr_key alloc = json_key_directive alloc rj_errstr_key (\<lambda>k c. c\<lparr>rj_errstr_key := k\<rparr>)"

text \<open>
  \<open>rds_json_user_property\<close>; \<open>compiles\<close> is whether \<open>ngx_http_compile_complex_value\<close> accepts the value.
\<close>

definition ngx_http_rds_json_user_property ::
    "bool \<Rightarrow> (bytes \<Rightarrow> bool) \<Rightarrow> bytes \<Rightarrow> bytes \<Rightarrow> rds_json_conf \<Rightarrow> conf_result \<times> rds_json_conf" where
  "ngx_http_rds_json_user_property alloc compiles k v jlcf =
     (if k = [] then (Conf_Msg ''takes an empty key'', jlcf)
      else if v = [] then (Conf_Msg ''takes an empty value'', jlcf)
      else if \<not> alloc then (Conf_Error, jlcf)
      else let (len, key) = quoted_key k;
               old = (case rj_user_props jlcf of None \<Rightarrow> [] | Some ps \<Rightarrow> ps);
               jlcf1 = jlcf\<lparr>rj_user_props := Some (old @ [(key, v)])\<rparr> in
        if length key \<noteq> len then (Conf_Msg ''sees buffer error'', jlcf1)
        else if \<not> compiles v then (Conf_Error, jlcf1)
        else (Conf_Ok, jlcf1))"

text \<open>\<open>rds_json_ret\<close>: the code is a non-empty string of digits; an empty message is not compiled.\<close>

definition ngx_http_rds_json_ret ::
    "bool \<Rightarrow> (bytes \<Rightarrow> bool) \<Rightarrow> bytes \<Rightarrow> bytes \<Rightarrow> rds_json_conf \<Rightarrow> conf_result \<times> rds_json_conf" where
  "ngx_http_rds_json_ret alloc compiles code msg jlcf =
     (let jlcf1 = jlcf\<lparr>rj_errcode := code\<rparr> in
      if code = [] then (Conf_Error, jlcf1)
      else if \<not> list_all digit code then (Conf_Error, jlcf1)
      else if \<not> alloc then (Conf_Error, jlcf1)
      else let jlcf2 = jlcf1\<lparr>rj_errstr := Some msg\<rparr> in
        if msg \<noteq> [] \<and> \<not> compiles msg then (Conf_Error, jlcf2) else (Conf_Ok, jlcf2))"

text \<open>
  \<open>ngx_conf_merge_str_value\<close> on the keys: the directives refuse an empty key, so a key that is
  set is not empty.
\<close>

definition merge_str :: "bytes \<Rightarrow> bytes \<Rightarrow> bytes \<Rightarrow> bytes" where
  "merge_str conf prev dflt = (if conf \<noteq> [] then conf else if prev \<noteq> [] then prev else dflt)"

definition merge_opt :: "'a option \<Rightarrow> 'a option \<Rightarrow> 'a \<Rightarrow> 'a option" where
  "merge_opt conf prev dflt =
     (case conf of Some v \<Rightarrow> Some v | None \<Rightarrow> (case prev of Some v \<Rightarrow> Some v | None \<Rightarrow> Some dflt))"

text \<open>
  The merge: with a success or a user property there is always a root, \<open>data\<close> by default.
  \<open>errcode\<close> and \<open>errstr\<close> of \<open>rds_json_ret\<close> are not inherited.
\<close>

definition ngx_http_rds_json_merge_loc_conf :: "nat \<Rightarrow> rds_json_conf \<Rightarrow> rds_json_conf \<Rightarrow> rds_json_conf" where
  "ngx_http_rds_json_merge_loc_conf pagesize prev conf =
     (let root = merge_str (rj_root conf) (rj_root prev) [];
          success = merge_str (rj_success conf) (rj_success prev) [];
          props = (case rj_user_props conf of None \<Rightarrow> rj_user_props prev | Some ps \<Rightarrow> Some ps) in
      conf\<lparr>rj_enabled := merge_opt (rj_enabled conf) (rj_enabled prev) False,
        rj_format := merge_opt (rj_format conf) (rj_format prev) json_format_normal,
        rj_root := if root = [] \<and> (success \<noteq> [] \<or> props \<noteq> None)
                   then [CHR 0x22] @ ''data'' @ [CHR 0x22] else root,
        rj_success := success,
        rj_user_props := props,
        rj_errcode_key := merge_str (rj_errcode_key conf) (rj_errcode_key prev) ([CHR 0x22] @ ''errcode'' @ [CHR 0x22]),
        rj_errstr_key := merge_str (rj_errstr_key conf) (rj_errstr_key prev) ([CHR 0x22] @ ''errstr'' @ [CHR 0x22]),
        rj_content_type := merge_opt (rj_content_type conf) (rj_content_type prev) ''application/json'',
        rj_buf_size := merge_opt (rj_buf_size conf) (rj_buf_size prev) pagesize\<rparr>)"

section \<open>The writer's state\<close>

text \<open>
  \<open>ngx_http_rds_column_t\<close> and \<open>ngx_http_rds_header_t\<close>, the integers as natural numbers below the
  bounds of their width.
\<close>

record rds_column =
  std_type :: nat
  drv_type :: nat
  col_name :: bytes

record rds_header =
  std_errcode :: nat
  drv_errcode :: nat
  errstr :: bytes
  affected_rows :: nat
  insert_id :: nat
  hdr_col_count :: nat

datatype rds_state =
    state_expect_header
  | state_expect_col
  | state_expect_row
  | state_expect_field
  | state_expect_more_field_data
  | state_done

text \<open>An output buffer: the bytes from \<open>pos\<close> to \<open>last\<close>, and the flag that ends the response.\<close>

record json_buf =
  jb_data :: bytes
  jb_last :: bool

text \<open>
  What the filters behind this one receive, in order: the response header (with its status), a
  chain of buffers, the end of the response sent by \<open>ngx_http_send_special\<close>, or input passed on as
  it is.
\<close>

datatype down =
    Header_Down nat
  | Body_Down "json_buf list"
  | Special_Down
  | Raw_Down "bytes list"

datatype mem_fault = No_Fault | Size_Mismatch | No_Progress

text \<open>
  \<open>ngx_http_rds_json_ctx_t\<close>, and what the filter acts on outside it: \<open>jc_mem\<close> the answers the
  pool will give to the coming allocations (when the list has run out, they succeed),
  \<open>jc_down\<close> what went to the next filters, \<open>jc_fault\<close> whether a fill differed in length from
  what was reserved or a loop stopped making progress, \<open>jc_attached\<close> whether the request still has
  this context. \<open>jc_out\<close> is the chain \<open>ctx->out\<close>,
  \<open>jc_buf\<close> the buffer \<open>ctx->out_buf\<close>, \<open>jc_postponed\<close> the bytes between \<open>ctx->postponed.pos\<close> and
  \<open>ctx->postponed.last\<close> and \<open>jc_cached\<close> the size of the area \<open>ctx->cached\<close>.
\<close>

record json_ctx =
  jc_state :: rds_state
  jc_col_count :: nat
  jc_cur_col :: nat
  jc_cols :: "rds_column list"
  jc_row :: nat
  jc_out :: "json_buf list"
  jc_busy :: "json_buf list"
  jc_free :: "json_buf list"
  jc_buf :: json_buf
  jc_cached :: "nat option"
  jc_postponed :: "bytes option"
  jc_avail_out :: nat
  jc_field_data_rest :: nat
  jc_header_sent :: bool
  jc_seen_stream_end :: bool
  jc_generated_col_names :: bool
  jc_mem :: "bool list"
  jc_down :: "down list"
  jc_fault :: mem_fault
  jc_attached :: bool

text \<open>
  The request: whether it is the main one or for the header only, its response status, what its variables give for a complex value, and the
  next filters. \<open>rq_next_body busy out\<close> is the code the next body filter returns and how many
  bytes of the buffers in flight it has consumed.
\<close>

record json_req =
  rq_main :: bool
  rq_header_only :: bool
  rq_status :: nat
  rq_value :: "bytes \<Rightarrow> bytes option"
  rq_next_header :: ngx_int
  rq_next_body :: "json_buf list \<Rightarrow> json_buf list \<Rightarrow> ngx_int \<times> nat"

definition pool_alloc :: "json_ctx \<Rightarrow> bool \<times> json_ctx" where
  "pool_alloc ctx = (case jc_mem ctx of [] \<Rightarrow> (True, ctx) | a # as \<Rightarrow> (a, ctx\<lparr>jc_mem := as\<rparr>))"

definition conf_buf_size :: "rds_json_conf \<Rightarrow> nat" where
  "conf_buf_size conf = (case rj_buf_size conf of Some n \<Rightarrow> n | None \<Rightarrow> 0)"

section \<open>Memory for the output\<close>

definition ngx_http_rds_json_get_buf :: "rds_json_conf \<Rightarrow> json_ctx \<Rightarrow> ngx_int \<times> json_ctx" where
  "ngx_http_rds_json_get_buf conf ctx =
     (if jc_avail_out ctx \<noteq> 0 then (NGX_OK, ctx)
      else case jc_free ctx of
          b # bs \<Rightarrow> (NGX_OK, ctx\<lparr>jc_buf := b, jc_free := bs, jc_avail_out := conf_buf_size conf\<rparr>)
        | [] \<Rightarrow>
            (case pool_alloc ctx of
               (False, ctx1) \<Rightarrow> (NGX_ERROR, ctx1)
             | (True, ctx1) \<Rightarrow> (NGX_OK, ctx1\<lparr>jc_buf := \<lparr>jb_data = [], jb_last = False\<rparr>,
                                            jc_avail_out := conf_buf_size conf\<rparr>)))"

text \<open>\<open>ngx_http_rds_json_get_postponed\<close>: whether an area of \<open>len\<close> bytes could be had.\<close>

definition ngx_http_rds_json_get_postponed :: "json_ctx \<Rightarrow> nat \<Rightarrow> bool \<times> json_ctx" where
  "ngx_http_rds_json_get_postponed ctx len =
     (case jc_cached ctx of
        Some n \<Rightarrow>
          (if n < len then
             (case pool_alloc ctx of
                (False, ctx1) \<Rightarrow> (False, ctx1)
              | (True, ctx1) \<Rightarrow> (True, ctx1\<lparr>jc_cached := Some len\<rparr>))
           else (True, ctx))
      | None \<Rightarrow>
          (case pool_alloc ctx of
             (False, ctx1) \<Rightarrow> (False, ctx1)
           | (True, ctx1) \<Rightarrow> (True, ctx1\<lparr>jc_cached := Some len\<rparr>)))"

text \<open>
  \<open>ngx_http_rds_json_request_mem\<close>: whether it gives a position to write at. The position is in
  the current buffer, or in the area kept aside when the buffer has no room for all of \<open>len\<close>.
\<close>

definition ngx_http_rds_json_request_mem :: "rds_json_conf \<Rightarrow> json_ctx \<Rightarrow> nat \<Rightarrow> bool \<times> json_ctx" where
  "ngx_http_rds_json_request_mem conf ctx len =
     (case ngx_http_rds_json_get_buf conf ctx of
        (rc, ctx1) \<Rightarrow>
          if rc \<noteq> NGX_OK then (False, ctx1)
          else if jc_avail_out ctx1 < len then
            (case ngx_http_rds_json_get_postponed ctx1 len of
               (False, ctx2) \<Rightarrow> (False, ctx2)
             | (True, ctx2) \<Rightarrow> (True, ctx2\<lparr>jc_postponed := Some []\<rparr>))
          else (True, ctx1))"

text \<open>Writing \<open>bytes\<close> at the position given for \<open>len\<close> of them.\<close>

definition json_fill :: "nat \<Rightarrow> bytes \<Rightarrow> json_ctx \<Rightarrow> json_ctx" where
  "json_fill len bytes ctx =
     ctx\<lparr>jc_postponed := map_option (\<lambda>_. bytes) (jc_postponed ctx),
         jc_fault := (if length bytes \<noteq> len then Size_Mismatch else jc_fault ctx)\<rparr>"

text \<open>\<open>*ctx->last_out = cl\<close> with a new link for the current buffer.\<close>

definition json_save_buf :: "json_ctx \<Rightarrow> bool \<times> json_ctx" where
  "json_save_buf ctx =
     (case pool_alloc ctx of
        (False, ctx1) \<Rightarrow> (False, ctx1)
      | (True, ctx1) \<Rightarrow> (True, ctx1\<lparr>jc_out := jc_out ctx1 @ [jc_buf ctx1]\<rparr>))"

text \<open>
  The loop that copies the postponed bytes. The flag \<open>last_buf\<close> is set after the buffer was
  linked: the link and \<open>ctx->out_buf\<close> are the same buffer, here the last one of \<open>jc_out\<close>. The
  flag is set only when the bytes end exactly where the buffer does. Each turn copies a byte or
  consumes an answer of the pool, unless buffers have no room at all.
\<close>

definition json_set_last :: "bool \<Rightarrow> json_ctx \<Rightarrow> json_ctx" where
  "json_set_last l ctx =
     ctx\<lparr>jc_buf := (jc_buf ctx)\<lparr>jb_last := l\<rparr>,
         jc_out := butlast (jc_out ctx) @ [(last (jc_out ctx))\<lparr>jb_last := l\<rparr>]\<rparr>"

fun submit_loop :: "nat \<Rightarrow> rds_json_conf \<Rightarrow> bool \<Rightarrow> bytes \<Rightarrow> json_ctx \<Rightarrow> ngx_int \<times> json_ctx" where
  "submit_loop 0 conf last_buf postponed ctx = (NGX_ERROR, ctx\<lparr>jc_fault := No_Progress\<rparr>)"
| "submit_loop (Suc fuel) conf last_buf postponed ctx =
     (let len = min (length postponed) (jc_avail_out ctx);
          rest = drop len postponed;
          ctx1 = ctx\<lparr>jc_buf := (jc_buf ctx)\<lparr>jb_data := jb_data (jc_buf ctx) @ take len postponed\<rparr>,
                    jc_avail_out := jc_avail_out ctx - len,
                    jc_postponed := (if rest = [] then None else Some rest)\<rparr> in
      if jc_avail_out ctx1 > 0 then (NGX_OK, ctx1)
      else case json_save_buf ctx1 of
          (False, ctx2) \<Rightarrow> (NGX_ERROR, ctx2)
        | (True, ctx2) \<Rightarrow>
            if rest = [] then (NGX_OK, json_set_last last_buf ctx2)
            else case ngx_http_rds_json_get_buf conf ctx2 of
                (rc, ctx3) \<Rightarrow>
                  if rc \<noteq> NGX_OK then (NGX_ERROR, ctx3)
                  else submit_loop fuel conf last_buf rest ctx3)"

definition ngx_http_rds_json_submit_mem ::
    "rds_json_conf \<Rightarrow> json_ctx \<Rightarrow> bytes \<Rightarrow> nat \<Rightarrow> bool \<Rightarrow> ngx_int \<times> json_ctx" where
  "ngx_http_rds_json_submit_mem conf ctx bytes len last_buf =
     (case jc_postponed ctx of
        Some postponed \<Rightarrow>
          submit_loop (Suc (length postponed + length (jc_mem ctx))) conf last_buf postponed ctx
      | None \<Rightarrow>
          let ctx1 = ctx\<lparr>jc_buf := \<lparr>jb_data = jb_data (jc_buf ctx) @ take len bytes, jb_last = last_buf\<rparr>,
                        jc_avail_out := jc_avail_out ctx - len\<rparr> in
          if jc_avail_out ctx1 = 0 then
            (case json_save_buf ctx1 of
               (False, ctx2) \<Rightarrow> (NGX_ERROR, ctx2)
             | (True, ctx2) \<Rightarrow> (NGX_OK, ctx2))
          else (NGX_OK, ctx1))"

section \<open>Output functions\<close>

text \<open>
  Reserve, fill and submit, as all the output functions end: \<open>ended\<close> is whether \<open>seen_stream_end\<close>
  is set before the submission, \<open>checked\<close> whether the length of the fill is compared with the size.
\<close>

definition json_emit :: "rds_json_conf \<Rightarrow> bool \<Rightarrow> bool \<Rightarrow> nat \<Rightarrow> bytes \<Rightarrow> bool \<Rightarrow> json_ctx
    \<Rightarrow> ngx_int \<times> json_ctx" where
  "json_emit conf ended checked sz bytes last_buf ctx =
     (case ngx_http_rds_json_request_mem conf ctx sz of
        (False, ctx1) \<Rightarrow> (NGX_ERROR, ctx1)
      | (True, ctx1) \<Rightarrow>
          let ctx2 = json_fill sz bytes ctx1 in
          if checked \<and> length bytes \<noteq> sz then (NGX_ERROR, ctx2)
          else ngx_http_rds_json_submit_mem conf
                 (if ended then ctx2\<lparr>jc_seen_stream_end := True\<rparr> else ctx2) bytes sz last_buf)"

definition ngx_http_rds_json_output_literal ::
    "rds_json_conf \<Rightarrow> json_req \<Rightarrow> json_ctx \<Rightarrow> bytes \<Rightarrow> bool \<Rightarrow> ngx_int \<times> json_ctx" where
  "ngx_http_rds_json_output_literal conf r ctx data last_buf =
     json_emit conf last_buf False (length data) data (last_buf \<and> rq_main r) ctx"

text \<open>The values of the user properties: one allocation for all of them, then one evaluation each.\<close>

fun eval_props :: "json_req \<Rightarrow> (bytes \<times> bytes) list \<Rightarrow> (bytes \<times> bytes) list option" where
  "eval_props r [] = Some []"
| "eval_props r ((key, cv) # ps) =
     (case rq_value r cv of
        None \<Rightarrow> None
      | Some v \<Rightarrow> map_option ((#) (key, v)) (eval_props r ps))"

definition user_values :: "rds_json_conf \<Rightarrow> json_req \<Rightarrow> json_ctx \<Rightarrow> (bytes \<times> bytes) list option \<times> json_ctx" where
  "user_values conf r ctx =
     (case rj_user_props conf of
        None \<Rightarrow> (Some [], ctx)
      | Some ps \<Rightarrow>
          (case pool_alloc ctx of
             (False, ctx1) \<Rightarrow> (None, ctx1)
           | (True, ctx1) \<Rightarrow> (eval_props r ps, ctx1)))"

fun props_size :: "(bytes \<times> bytes) list \<Rightarrow> nat" where
  "props_size [] = 0"
| "props_size ((key, v) # ps) = 4 + length key + length v + rds_escape_count v + props_size ps"

fun props_fill :: "(bytes \<times> bytes) list \<Rightarrow> bytes" where
  "props_fill [] = []"
| "props_fill ((key, v) # ps) = key @ '':'' @ [CHR 0x22] @ json_copy v @ [CHR 0x22] @ '','' @ props_fill ps"

definition header_size :: "rds_json_conf \<Rightarrow> (bytes \<times> bytes) list \<Rightarrow> rds_header \<Rightarrow> nat" where
  "header_size conf props h =
     1 + length (rj_errcode_key conf) + 1 + ngx_get_num_size (std_errcode h) + 1
     + (if rj_success conf \<noteq> [] then length (rj_success conf) + 2 + (if std_errcode h = 0 then 4 else 5) else 0)
     + props_size props
     + (if errstr h \<noteq> []
        then 1 + length (rj_errstr_key conf) + 1 + 1 + length (errstr h) + rds_escape_count (errstr h) + 1 else 0)
     + (if insert_id h \<noteq> 0
        then length ('','' @ [CHR 0x22] @ ''insert_id'' @ [CHR 0x22] @ '':'') + ngx_get_num_size (insert_id h) else 0)
     + (if affected_rows h \<noteq> 0
        then length ('','' @ [CHR 0x22] @ ''affected_rows'' @ [CHR 0x22] @ '':'') + ngx_get_num_size (affected_rows h) else 0)"

text \<open>The numbers are printed into \<open>NGX_UINT16_LEN\<close> and \<open>NGX_UINT64_LEN\<close> bytes.\<close>

definition header_fill :: "rds_json_conf \<Rightarrow> (bytes \<times> bytes) list \<Rightarrow> rds_header \<Rightarrow> bytes" where
  "header_fill conf props h =
     ''{''
     @ (if rj_success conf \<noteq> [] then rj_success conf @ (if std_errcode h = 0 then '':true,'' else '':false,'') else [])
     @ props_fill props
     @ rj_errcode_key conf @ '':'' @ ngx_sprintf_num 5 (std_errcode h) SP 0 0
     @ (if errstr h \<noteq> []
        then '','' @ rj_errstr_key conf @ '':'' @ [CHR 0x22] @ json_copy (errstr h) @ [CHR 0x22] else [])
     @ (if insert_id h \<noteq> 0
        then '','' @ [CHR 0x22] @ ''insert_id'' @ [CHR 0x22] @ '':'' @ ngx_sprintf_num 20 (insert_id h) SP 0 0 else [])
     @ (if affected_rows h \<noteq> 0
        then '','' @ [CHR 0x22] @ ''affected_rows'' @ [CHR 0x22] @ '':'' @ ngx_sprintf_num 20 (affected_rows h) SP 0 0 else [])
     @ ''}''"

definition ngx_http_rds_json_output_header ::
    "rds_json_conf \<Rightarrow> json_req \<Rightarrow> json_ctx \<Rightarrow> rds_header \<Rightarrow> ngx_int \<times> json_ctx" where
  "ngx_http_rds_json_output_header conf r ctx h =
     (case user_values conf r ctx of
        (None, ctx1) \<Rightarrow> (NGX_ERROR, ctx1)
      | (Some props, ctx1) \<Rightarrow>
          json_emit conf True True
            (header_size conf props h) (header_fill conf props h) (rq_main r) ctx1)"

definition ngx_http_rds_json_output_props :: "rds_json_conf \<Rightarrow> json_req \<Rightarrow> json_ctx \<Rightarrow> ngx_int \<times> json_ctx" where
  "ngx_http_rds_json_output_props conf r ctx =
     (case user_values conf r ctx of
        (None, ctx1) \<Rightarrow> (NGX_ERROR, ctx1)
      | (Some props, ctx1) \<Rightarrow>
          json_emit conf False True
            (2 + length (rj_root conf)
             + (if rj_success conf \<noteq> [] then 6 + length (rj_success conf) else 0) + props_size props)
            (''{'' @ (if rj_success conf \<noteq> [] then rj_success conf @ '':true,'' else [])
             @ props_fill props @ rj_root conf @ '':'')
            False ctx1)"

text \<open>The list of column names of the compact format; the fill is not compared with the size.\<close>

fun cols_size :: "rds_column list \<Rightarrow> nat" where
  "cols_size [] = 0"
| "cols_size (col # cols) =
     length (col_name col) + rds_escape_count (col_name col) + 2 + (if cols \<noteq> [] then 1 else 0) + cols_size cols"

fun cols_fill :: "rds_column list \<Rightarrow> bytes" where
  "cols_fill [] = []"
| "cols_fill (col # cols) =
     [CHR 0x22] @ escape_json (col_name col) @ [CHR 0x22] @ (if cols \<noteq> [] then '','' else []) @ cols_fill cols"

definition ngx_http_rds_json_output_cols :: "rds_json_conf \<Rightarrow> json_ctx \<Rightarrow> ngx_int \<times> json_ctx" where
  "ngx_http_rds_json_output_cols conf ctx =
     (let cols = take (jc_col_count ctx) (jc_cols ctx) in
      json_emit conf False False (2 + cols_size cols) (''['' @ cols_fill cols @ '']'') False
        (ctx\<lparr>jc_generated_col_names := True\<rparr>))"

text \<open>The four kinds of columns, \<open>std_type & 0xc000\<close>.\<close>

datatype rough = Rough_Int | Rough_Float | Rough_Str | Rough_Bool

definition rough_type :: "rds_column \<Rightarrow> rough" where
  "rough_type col =
     (let t = std_type col AND 0xc000 in
      if t = 0 then Rough_Int else if t = 0x4000 then Rough_Float else if t = 0xc000 then Rough_Bool else Rough_Str)"

definition int_first :: "bytes \<Rightarrow> bool" where
  "int_first data = (case data of [] \<Rightarrow> True | c # cs \<Rightarrow> (c = CHR ''-'' \<or> digit c) \<and> list_all digit cs)"

definition row_end :: "json_format option \<Rightarrow> bytes option" where
  "row_end fmt =
     (if fmt = Some json_format_normal then Some ''}''
      else if fmt = Some json_format_compact then Some '']'' else None)"

text \<open>
  What \<open>ngx_http_rds_json_output_field\<close> writes for a value, with the size it computes for it:
  \<open>None\<close> where it returns \<open>NGX_ERROR\<close>.
\<close>

definition field_value :: "rds_column \<Rightarrow> nat \<Rightarrow> bytes \<Rightarrow> bool \<Rightarrow> (nat \<times> bytes) option" where
  "field_value col rest data is_null =
     (if is_null then Some (4, ''null'')
      else if data = [] then Some (2, [CHR 0x22, CHR 0x22])
      else case rough_type col of
          Rough_Float \<Rightarrow> Some (length data, data)
        | Rough_Int \<Rightarrow> if int_first data then Some (length data, data) else None
        | Rough_Bool \<Rightarrow>
            (if hd data \<in> set ''0fF1tT'' then
               (if length data \<noteq> 1 \<or> rest \<noteq> 0 then None
                else if hd data \<in> set ''0fF'' then Some (5, ''false'') else Some (4, ''true''))
             else None)
        | Rough_Str \<Rightarrow>
            Some (1 + length data + rds_escape_count data + (if rest = 0 then 1 else 0),
                  [CHR 0x22] @ json_copy data @ (if rest = 0 then [CHR 0x22] else [])))"

definition field_prefix :: "rds_json_conf \<Rightarrow> json_ctx \<Rightarrow> rds_column \<Rightarrow> (nat \<times> bytes) option" where
  "field_prefix conf ctx col =
     (if rj_format conf = Some json_format_normal then
        Some ((if jc_cur_col ctx = 0 then (if jc_row ctx = 1 then 2 else 3) else 2)
                + (length (col_name col) + rds_escape_count (col_name col) + 2),
              (if jc_cur_col ctx = 0 then (if jc_row ctx = 1 then ''{'' else '',{'') else '','')
                @ [CHR 0x22] @ json_copy (col_name col) @ [CHR 0x22] @ '':'')
      else if rj_format conf = Some json_format_compact then
        (if jc_cur_col ctx = 0 then Some (2, '',['') else Some (1, '',''))
      else None)"

definition ngx_http_rds_json_output_field ::
    "rds_json_conf \<Rightarrow> json_ctx \<Rightarrow> bytes \<Rightarrow> bool \<Rightarrow> ngx_int \<times> json_ctx" where
  "ngx_http_rds_json_output_field conf ctx data is_null =
     (let col = jc_cols ctx ! jc_cur_col ctx; rest = jc_field_data_rest ctx in
      case field_prefix conf ctx col of
        None \<Rightarrow> (NGX_ERROR, ctx)
      | Some (size1, pre) \<Rightarrow>
          if data = [] \<and> rest > 0 then (NGX_ERROR, ctx)
          else case field_value col rest data is_null of
              None \<Rightarrow> (NGX_ERROR, ctx)
            | Some (size2, val) \<Rightarrow>
                let close = (if rest = 0 \<and> jc_cur_col ctx = jc_col_count ctx - 1
                             then row_end (rj_format conf) else Some []) in
                (case close of
                   None \<Rightarrow> (NGX_ERROR, ctx)
                 | Some post \<Rightarrow>
                     json_emit conf False True (size1 + size2 + length post) (pre @ val @ post) False ctx))"

definition more_value :: "rds_column \<Rightarrow> nat \<Rightarrow> bytes \<Rightarrow> (nat \<times> bytes) option" where
  "more_value col rest data =
     (case rough_type col of
        Rough_Int \<Rightarrow> if list_all digit data then Some (length data, data) else None
      | Rough_Float \<Rightarrow> Some (length data, data)
      | Rough_Bool \<Rightarrow> Some (0, [])
      | Rough_Str \<Rightarrow> Some (length data + rds_escape_count data + (if rest = 0 then 1 else 0),
                         json_copy data @ (if rest = 0 then [CHR 0x22] else [])))"

definition ngx_http_rds_json_output_more_field_data :: "rds_json_conf \<Rightarrow> json_ctx \<Rightarrow> bytes \<Rightarrow> ngx_int \<times> json_ctx" where
  "ngx_http_rds_json_output_more_field_data conf ctx data =
     (let col = jc_cols ctx ! jc_cur_col ctx; rest = jc_field_data_rest ctx in
      case more_value col rest data of
        None \<Rightarrow> (NGX_ERROR, ctx)
      | Some (sz, val) \<Rightarrow>
          let close = (if rest = 0 \<and> jc_cur_col ctx = jc_col_count ctx - 1
                       then row_end (rj_format conf) else Some []) in
          (case close of
             None \<Rightarrow> (NGX_ERROR, ctx)
           | Some post \<Rightarrow> json_emit conf False True (sz + length post) (val @ post) False ctx))"

text \<open>
  \<open>ngx_chain_update_chains\<close> of \<open>ngx_buf.c\<close>, all buffers having the tag of this module: what was
  handed over is in flight, and the buffers at the head of it that are empty are free again.
  The flag \<open>last_buf\<close> of a buffer stays as it is.
\<close>

fun free_sent :: "json_buf list \<Rightarrow> json_buf list \<Rightarrow> json_buf list \<times> json_buf list" where
  "free_sent free [] = (free, [])"
| "free_sent free (b # busy) = (if jb_data b \<noteq> [] then (free, b # busy) else free_sent (b # free) busy)"

definition ngx_chain_update_chains :: "json_buf list \<Rightarrow> json_buf list \<Rightarrow> json_buf list \<Rightarrow> json_buf list \<times> json_buf list" where
  "ngx_chain_update_chains free busy out = free_sent free (busy @ out)"

text \<open>The next filter consumes \<open>n\<close> bytes from the front of the buffers in flight.\<close>

fun consume_sent :: "nat \<Rightarrow> json_buf list \<Rightarrow> json_buf list" where
  "consume_sent n [] = []"
| "consume_sent n (b # bs) = b\<lparr>jb_data := drop n (jb_data b)\<rparr> # consume_sent (n - length (jb_data b)) bs"

text \<open>
  \<open>ngx_http_rds_json_output_bufs\<close>: its loop ends after one turn, since
  \<open>ngx_chain_update_chains\<close> leaves \<open>ctx->out\<close> empty.
\<close>

definition ngx_http_rds_json_output_bufs :: "json_req \<Rightarrow> json_ctx \<Rightarrow> ngx_int \<times> json_ctx" where
  "ngx_http_rds_json_output_bufs r ctx =
     (let (ok, ctx1) =
        (if jc_seen_stream_end ctx then
           let ctx0 = ctx\<lparr>jc_seen_stream_end := False\<rparr> in
           if jc_avail_out ctx0 \<noteq> 0 then
             (case json_save_buf ctx0 of
                (False, c) \<Rightarrow> (False, c)
              | (True, c) \<Rightarrow> (True, c\<lparr>jc_avail_out := 0\<rparr>))
           else (True, ctx0)
         else (True, ctx)) in
      if \<not> ok then (NGX_ERROR, ctx1)
      else if jc_out ctx1 = [] then (NGX_OK, ctx1)
      else let (rc, n) = rq_next_body r (jc_busy ctx1) (jc_out ctx1);
               ctx2 = ctx1\<lparr>jc_down := jc_down ctx1 @ [Body_Down (jc_out ctx1)]\<rparr> in
        if rc = NGX_ERROR \<or> rc \<ge> 300 then (rc, ctx2)
        else let sent = consume_sent n (jc_busy ctx2 @ jc_out ctx2);
                 busy = take (length (jc_busy ctx2)) sent;
                 out = drop (length (jc_busy ctx2)) sent;
                 (free', busy') = ngx_chain_update_chains (jc_free ctx2) busy out in
          (NGX_OK, ctx2\<lparr>jc_free := free', jc_busy := busy', jc_out := []\<rparr>))"

section \<open>The header filter and the ret handler\<close>

text \<open>\<open>ngx_http_rds_json_test_content_type\<close>.\<close>

definition ngx_http_rds_json_test_content_type :: "bytes \<Rightarrow> ngx_int" where
  "ngx_http_rds_json_test_content_type ct =
     (if length ct \<noteq> length ''application/x-resty-dbd-stream'' \<or> ct \<noteq> ''application/x-resty-dbd-stream''
      then NGX_DECLINED else NGX_OK)"

text \<open>The context \<open>ngx_pcalloc\<close> and the header filter set up; \<open>mem\<close> are the answers of the pool to come.\<close>

definition json_ctx0 :: "bool list \<Rightarrow> json_ctx" where
  "json_ctx0 mem =
     \<lparr> jc_state = state_expect_header, jc_col_count = 0, jc_cur_col = 0, jc_cols = [], jc_row = 0,
       jc_out = [], jc_busy = [], jc_free = [], jc_buf = \<lparr>jb_data = [], jb_last = False\<rparr>,
       jc_cached = None, jc_postponed = None, jc_avail_out = 0, jc_field_data_rest = 0,
       jc_header_sent = False, jc_seen_stream_end = False, jc_generated_col_names = False,
       jc_mem = mem, jc_down = [], jc_fault = No_Fault, jc_attached = True \<rparr>"

text \<open>
  The header filter leaves a response alone, or takes it over: it then sets the content type,
  makes a context and keeps the header back until the body filter knows what to answer.
\<close>

datatype header_filter = Hf_Next | Hf_Error | Hf_Postponed "bytes option" json_ctx

definition ngx_http_rds_json_header_filter :: "rds_json_conf \<Rightarrow> nat \<Rightarrow> bytes \<Rightarrow> bool list \<Rightarrow> header_filter" where
  "ngx_http_rds_json_header_filter conf status content_type mem =
     (if status < 200 \<or> status \<ge> 300 \<or> status = 204 \<or> status = 205 then Hf_Next
      else if rj_enabled conf \<noteq> Some True then Hf_Next
      else if ngx_http_rds_json_test_content_type content_type \<noteq> NGX_OK then Hf_Next
      else case mem of
          [] \<Rightarrow> Hf_Postponed (rj_content_type conf) (json_ctx0 [])
        | a # as \<Rightarrow> if a then Hf_Postponed (rj_content_type conf) (json_ctx0 as) else Hf_Error)"

definition ret_success :: "rds_json_conf \<Rightarrow> bool" where
  "ret_success conf = (ngx_atoi (rj_errcode conf) = 0)"

definition ret_size :: "rds_json_conf \<Rightarrow> bytes \<Rightarrow> (bytes \<times> bytes) list \<Rightarrow> nat" where
  "ret_size conf msg props =
     1 + length (rj_errcode_key conf) + 1 + length (rj_errcode conf) + 1
     + (if msg \<noteq> [] then 1 + length (rj_errstr_key conf) + 1 + 1 + length msg + rds_escape_count msg + 1 else 0)
     + (if rj_success conf \<noteq> [] then length (rj_success conf) + 2 + (if ret_success conf then 4 else 5) else 0)
     + props_size props"

fun ret_props_fill :: "(bytes \<times> bytes) list \<Rightarrow> bytes" where
  "ret_props_fill [] = []"
| "ret_props_fill ((key, v) # ps) = '','' @ key @ '':'' @ [CHR 0x22] @ json_copy v @ [CHR 0x22] @ ret_props_fill ps"

definition ret_fill :: "rds_json_conf \<Rightarrow> bytes \<Rightarrow> (bytes \<times> bytes) list \<Rightarrow> bytes" where
  "ret_fill conf msg props =
     ''{'' @ rj_errcode_key conf @ '':'' @ rj_errcode conf
     @ (if msg \<noteq> [] then '','' @ rj_errstr_key conf @ '':'' @ [CHR 0x22] @ json_copy msg @ [CHR 0x22] else [])
     @ (if rj_success conf \<noteq> [] then '','' @ rj_success conf @ (if ret_success conf then '':true'' else '':false'') else [])
     @ ret_props_fill props @ ''}''"

text \<open>
  \<open>ngx_http_rds_json_ret_handler\<close>: the code it returns and the buffer it hands to the output
  filter, if it gets there. \<open>send_header\<close> and \<open>output\<close> are the codes of \<open>ngx_http_send_header\<close>
  and \<open>ngx_http_output_filter\<close>. The outer \<open>None\<close> is the null pointer read when no message was
  configured, which the directive rules out.
\<close>

definition ngx_http_rds_json_ret_handler ::
    "bool \<Rightarrow> ngx_int \<Rightarrow> ngx_int \<Rightarrow> rds_json_conf \<Rightarrow> json_req \<Rightarrow> (ngx_int \<times> json_buf option) option" where
  "ngx_http_rds_json_ret_handler alloc send_header output conf r =
     (case rj_errstr conf of
        None \<Rightarrow> None
      | Some cv \<Rightarrow>
          (case (if cv = [] then Some [] else rq_value r cv) of
             None \<Rightarrow> Some (NGX_ERROR, None)
           | Some msg \<Rightarrow>
               if rj_user_props conf \<noteq> None \<and> \<not> alloc then Some (NGX_ERROR, None)
               else case (case rj_user_props conf of None \<Rightarrow> Some [] | Some ps \<Rightarrow> eval_props r ps) of
                   None \<Rightarrow> Some (NGX_ERROR, None)
                 | Some props \<Rightarrow>
                     if \<not> alloc then Some (NGX_ERROR, None)
                     else let bytes = ret_fill conf msg props in
                       if length bytes \<noteq> ret_size conf msg props then Some (NGX_ERROR, None)
                       else if send_header = NGX_ERROR \<or> send_header \<ge> 300 then Some (send_header, None)
                       else Some (output, Some \<lparr>jb_data = bytes, jb_last = rq_main r\<rparr>)))"

section \<open>Sizes\<close>

lemma num_printed: "n < 10 ^ room \<Longrightarrow> 0 < room \<Longrightarrow> ngx_sprintf_num room n SP 0 0 = num_dec n []"
  using num_dec_length [of n room] by (simp add: ngx_sprintf_num_def num_digits_dec Let_def)

lemma num_size: "ngx_get_num_size n = length (num_dec n [])"
  by (simp add: num_size_digits sprintf_uz_def num_digits_dec)

lemma props_length: "length (props_fill ps) = props_size ps" "length (ret_props_fill ps) = props_size ps"
  by (induction ps rule: props_size.induct) (simp_all add: json_copy_length)

lemma cols_length: "length (cols_fill cols) = cols_size cols"
  by (induction cols) (simp_all add: rds_escape_length)

definition header_ok :: "rds_header \<Rightarrow> bool" where
  "header_ok h \<longleftrightarrow> std_errcode h < 2 ^ 16 \<and> insert_id h < 2 ^ 64 \<and> affected_rows h < 2 ^ 64"

lemma header_length: "header_ok h \<Longrightarrow> length (header_fill conf props h) = header_size conf props h"
  by (simp add: header_ok_def header_fill_def header_size_def num_printed num_size json_copy_length props_length)

lemma field_value_length: "field_value col rest data n = Some (sz, val) \<Longrightarrow> length val = sz"
  by (auto simp: field_value_def json_copy_length split: if_splits rough.splits)

lemma field_prefix_length: "field_prefix conf ctx col = Some (sz, pre) \<Longrightarrow> length pre = sz"
  by (auto simp: field_prefix_def json_copy_length split: if_splits)

lemma more_value_length: "more_value col rest data = Some (sz, val) \<Longrightarrow> length val = sz"
  by (auto simp: more_value_def json_copy_length split: if_splits rough.splits)

lemma ret_length: "length (ret_fill conf msg props) = ret_size conf msg props"
  by (simp add: ret_fill_def ret_size_def json_copy_length props_length)

section \<open>What is submitted is what comes out\<close>

text \<open>
  The bytes of the response so far: those handed to the next filter, those in the chain and
  those in the current buffer. The part of the context the output functions leave alone is its
  \<open>json_ctl\<close>.
\<close>

fun down_bytes :: "down \<Rightarrow> bytes" where
  "down_bytes (Body_Down bs) = concat (map jb_data bs)"
| "down_bytes _ = []"

definition json_stream :: "json_ctx \<Rightarrow> bytes" where
  "json_stream ctx = concat (map down_bytes (jc_down ctx)) @ concat (map jb_data (jc_out ctx))
     @ (if jc_avail_out ctx \<noteq> 0 then jb_data (jc_buf ctx) else [])"

definition json_ctl :: "json_ctx \<Rightarrow> rds_state \<times> nat \<times> nat \<times> rds_column list \<times> nat \<times> nat \<times> bool \<times> bool \<times> down list \<times> bool" where
  "json_ctl ctx = (jc_state ctx, jc_col_count ctx, jc_cur_col ctx, jc_cols ctx, jc_row ctx,
     jc_field_data_rest ctx, jc_header_sent ctx, jc_seen_stream_end ctx, jc_down ctx, jc_attached ctx)"

definition json_room :: "rds_json_conf \<Rightarrow> json_ctx \<Rightarrow> bool" where
  "json_room conf ctx \<longleftrightarrow> 0 < conf_buf_size conf \<and> jc_fault ctx = No_Fault
     \<and> (jc_avail_out ctx \<noteq> 0 \<longrightarrow> length (jb_data (jc_buf ctx)) + jc_avail_out ctx = conf_buf_size conf)
     \<and> (\<forall>b\<in>set (jc_free ctx). jb_data b = [])
     \<and> (\<forall>b\<in>set (jc_out ctx). length (jb_data b) \<le> conf_buf_size conf)"

definition json_inv :: "rds_json_conf \<Rightarrow> json_ctx \<Rightarrow> bool" where
  "json_inv conf ctx \<longleftrightarrow> json_room conf ctx \<and> jc_postponed ctx = None"

definition mem_ok :: "json_ctx \<Rightarrow> bool" where
  "mem_ok ctx \<longleftrightarrow> False \<notin> set (jc_mem ctx)"

text \<open>
  The outcome of an operation on the buffers: it succeeds and \<open>post\<close> holds, or an allocation
  failed; neither touches the control part nor faults.
\<close>

definition json_outcome :: "json_ctx \<Rightarrow> (json_ctx \<Rightarrow> bool) \<Rightarrow> bool \<times> json_ctx \<Rightarrow> bool" where
  "json_outcome ctx post res \<longleftrightarrow>
     json_ctl (snd res) = json_ctl ctx \<and> jc_fault (snd res) = No_Fault \<and> (mem_ok ctx \<longrightarrow> fst res \<and> mem_ok (snd res)) \<and>
     (fst res \<longrightarrow> post (snd res))"

lemma json_outcomeI:
  "json_ctl c = json_ctl ctx \<Longrightarrow> jc_fault c = No_Fault \<Longrightarrow> (mem_ok ctx \<Longrightarrow> ok \<and> mem_ok c) \<Longrightarrow> (ok \<Longrightarrow> post c) \<Longrightarrow>
   json_outcome ctx post (ok, c)"
  by (simp add: json_outcome_def)

lemma pool_alloc_eq: "pool_alloc ctx = (jc_mem ctx = [] \<or> hd (jc_mem ctx), ctx\<lparr>jc_mem := tl (jc_mem ctx)\<rparr>)"
  by (cases "jc_mem ctx") (simp_all add: pool_alloc_def)

lemma mem_ok_alloc: "mem_ok ctx \<Longrightarrow> jc_mem ctx = [] \<or> hd (jc_mem ctx)"
  by (cases "jc_mem ctx") (auto simp: mem_ok_def)

lemma in_set_tl: "x \<in> set (tl xs) \<Longrightarrow> x \<in> set xs"
  by (cases xs) simp_all

lemma get_buf_outcome:
  assumes "json_room conf ctx"
  shows "json_outcome ctx (\<lambda>c. json_room conf c \<and> 0 < jc_avail_out c \<and> json_stream c = json_stream ctx \<and>
           jc_postponed c = jc_postponed ctx)
     (apfst (\<lambda>rc. rc = NGX_OK) (ngx_http_rds_json_get_buf conf ctx))"
  using assms mem_ok_alloc [of ctx]
  by (cases "jc_free ctx"; cases "jc_mem ctx = [] \<or> hd (jc_mem ctx)")
    (auto simp: ngx_http_rds_json_get_buf_def pool_alloc_eq json_outcome_def json_ctl_def json_room_def
      json_stream_def mem_ok_def dest: in_set_tl)

lemma save_buf_outcome:
  assumes "json_room conf ctx" "jc_avail_out ctx = 0" "length (jb_data (jc_buf ctx)) \<le> conf_buf_size conf"
  shows "json_outcome ctx (\<lambda>c. json_room conf c \<and> jc_avail_out c = 0 \<and>
           json_stream c = json_stream ctx @ jb_data (jc_buf ctx) \<and> jc_postponed c = jc_postponed ctx \<and> jc_out c \<noteq> [])
     (json_save_buf ctx)"
  using assms mem_ok_alloc [of ctx]
  by (cases "jc_mem ctx = [] \<or> hd (jc_mem ctx)")
    (auto simp: json_save_buf_def pool_alloc_eq json_outcome_def json_ctl_def json_room_def json_stream_def
      mem_ok_def dest: in_set_tl)

lemma outcome_ok: "json_outcome ctx post (ok, c) \<Longrightarrow> ok \<Longrightarrow> post c \<and> json_ctl c = json_ctl ctx \<and> (mem_ok ctx \<longrightarrow> mem_ok c)"
  by (simp add: json_outcome_def)

lemma outcome_trans:
  assumes "json_ctl c = json_ctl ctx" "mem_ok ctx \<longrightarrow> mem_ok c" "json_outcome c post res"
    and "\<And>d. post d \<Longrightarrow> post' d"
  shows "json_outcome ctx post' res"
  using assms by (auto simp: json_outcome_def)

lemma set_last_kept:
  assumes "jc_out c \<noteq> []"
  shows "json_ctl (json_set_last l c) = json_ctl c" "mem_ok (json_set_last l c) = mem_ok c"
    "json_room conf (json_set_last l c) = json_room conf c" "json_stream (json_set_last l c) = json_stream c"
    "jc_postponed (json_set_last l c) = jc_postponed c" "jc_fault (json_set_last l c) = jc_fault c"
proof -
  obtain bs b where o: "jc_out c = bs @ [b]" using assms by (cases "jc_out c" rule: rev_cases) auto
  show "json_ctl (json_set_last l c) = json_ctl c" "mem_ok (json_set_last l c) = mem_ok c"
    "json_room conf (json_set_last l c) = json_room conf c" "json_stream (json_set_last l c) = json_stream c"
    "jc_postponed (json_set_last l c) = jc_postponed c" "jc_fault (json_set_last l c) = jc_fault c"
    by (simp_all add: json_set_last_def json_ctl_def mem_ok_def json_room_def json_stream_def o)
qed

lemma submit_loop_outcome:
  assumes "json_room conf ctx" "0 < jc_avail_out ctx" "length p < fuel"
  shows "json_outcome ctx (\<lambda>c. json_inv conf c \<and> json_stream c = json_stream ctx @ p)
     (apfst (\<lambda>rc. rc = NGX_OK) (submit_loop fuel conf l p ctx))"
  using assms
proof (induction fuel arbitrary: p ctx)
  case (Suc fuel)
  define len where "len = min (length p) (jc_avail_out ctx)"
  define c1 where "c1 = ctx\<lparr>jc_buf := (jc_buf ctx)\<lparr>jb_data := jb_data (jc_buf ctx) @ take len p\<rparr>,
      jc_avail_out := jc_avail_out ctx - len, jc_postponed := (if drop len p = [] then None else Some (drop len p))\<rparr>"
  have loop: "submit_loop (Suc fuel) conf l p ctx =
     (if jc_avail_out c1 > 0 then (NGX_OK, c1)
      else case json_save_buf c1 of
          (False, ctx2) \<Rightarrow> (NGX_ERROR, ctx2)
        | (True, ctx2) \<Rightarrow>
            if drop len p = [] then (NGX_OK, json_set_last l ctx2)
            else case ngx_http_rds_json_get_buf conf ctx2 of
                (rc, ctx3) \<Rightarrow>
                  if rc \<noteq> NGX_OK then (NGX_ERROR, ctx3) else submit_loop fuel conf l (drop len p) ctx3)"
    by (simp only: submit_loop.simps Let_def c1_def len_def)
  have ctl1: "json_ctl c1 = json_ctl ctx" "mem_ok c1 = mem_ok ctx" "jc_fault c1 = No_Fault"
    using Suc.prems by (simp_all add: c1_def json_ctl_def mem_ok_def json_room_def)
  have fits: "length (jb_data (jc_buf c1)) + jc_avail_out c1 = conf_buf_size conf" "len \<le> length p" "0 < jc_avail_out ctx"
    using Suc.prems by (auto simp: c1_def json_room_def len_def)
  have room1: "json_room conf c1" using Suc.prems fits by (auto simp: json_room_def c1_def)
  show ?case
  proof (cases "jc_avail_out c1 > 0")
    case True
    then have "len = length p" by (auto simp: c1_def len_def)
    then have "json_inv conf c1 \<and> json_stream c1 = json_stream ctx @ p"
      using room1 True Suc.prems by (simp add: json_inv_def json_stream_def c1_def)
    then show ?thesis using True ctl1 unfolding loop by (simp add: json_outcome_def)
  next
    case False
    then have str: "json_stream c1 @ jb_data (jc_buf c1) = json_stream ctx @ take len p"
      using Suc.prems by (simp add: json_stream_def c1_def)
    have pos: "0 < len" using False Suc.prems by (auto simp: c1_def len_def)
    obtain ok c2 where sb: "json_save_buf c1 = (ok, c2)" by fastforce
    have o2: "json_outcome c1 (\<lambda>c. json_room conf c \<and> jc_avail_out c = 0 \<and>
           json_stream c = json_stream c1 @ jb_data (jc_buf c1) \<and> jc_postponed c = jc_postponed c1 \<and> jc_out c \<noteq> []) (ok, c2)"
      unfolding sb [symmetric] by (rule save_buf_outcome) (use room1 False fits in simp_all)
    show ?thesis
    proof (cases ok)
      case f: False
      show ?thesis unfolding loop using f False sb o2 ctl1
        by (simp add: json_outcome_def)
    next
      case True
      note c2 = outcome_ok [OF o2 True]
      show ?thesis
      proof (cases "drop len p = []")
        case fin: True
        then have "take len p = p" by simp
        then show ?thesis unfolding loop using c2 True False sb str ctl1 \<open>drop len p = []\<close> o2
          by (simp add: json_outcome_def set_last_kept json_inv_def) (simp add: c1_def)
      next
        case more: False
        obtain rc c3 where gb: "ngx_http_rds_json_get_buf conf c2 = (rc, c3)" by fastforce
        have o3: "json_outcome c2 (\<lambda>c. json_room conf c \<and> 0 < jc_avail_out c \<and> json_stream c = json_stream c2 \<and>
           jc_postponed c = jc_postponed c2) (rc = NGX_OK, c3)"
          using get_buf_outcome [of conf c2] c2 gb by simp
        have loop3: "submit_loop (Suc fuel) conf l p ctx =
            (if rc \<noteq> NGX_OK then (NGX_ERROR, c3) else submit_loop fuel conf l (drop len p) c3)"
          unfolding loop using True False sb more gb by simp
        show ?thesis
        proof (cases "rc = NGX_OK")
          case rc: True
          note c3 = outcome_ok [OF o3 rc]
          have "json_outcome c3 (\<lambda>c. json_inv conf c \<and> json_stream c = json_stream c3 @ drop len p)
              (apfst (\<lambda>rc. rc = NGX_OK) (submit_loop fuel conf l (drop len p) c3))"
            using c3 Suc.prems pos fits by (intro Suc.IH) auto
          then show ?thesis unfolding loop3 using rc
            by (rule_tac outcome_trans [of c3]) (use c3 c2 ctl1 str in auto)
        next
          case rc: False
          then show ?thesis unfolding loop3 using o3 c2 ctl1
            by (simp add: json_outcome_def)
        qed
      qed
    qed
  qed
qed simp

text \<open>
  What an output function does with \<open>bytes\<close>: they are appended to the response, or an allocation
  failed.
\<close>

definition json_emitted :: "rds_json_conf \<Rightarrow> bool \<Rightarrow> bytes \<Rightarrow> json_ctx \<Rightarrow> ngx_int \<times> json_ctx \<Rightarrow> bool" where
  "json_emitted conf ended bytes ctx res \<longleftrightarrow>
     fst res = NGX_OK \<and> json_inv conf (snd res) \<and> json_stream (snd res) = json_stream ctx @ bytes \<and>
       json_ctl (snd res) = json_ctl (ctx\<lparr>jc_seen_stream_end := jc_seen_stream_end ctx \<or> ended\<rparr>) \<and>
       (mem_ok ctx \<longrightarrow> mem_ok (snd res)) \<or>
     fst res = NGX_ERROR \<and> \<not> mem_ok ctx \<and> jc_fault (snd res) = No_Fault \<and> jc_down (snd res) = jc_down ctx \<and>
       jc_header_sent (snd res) = jc_header_sent ctx"

lemma emitted_from:
  assumes "json_emitted conf e b c res" "json_stream c = json_stream ctx" "json_ctl c = json_ctl ctx"
    and "mem_ok ctx \<longrightarrow> mem_ok c"
  shows "json_emitted conf e b ctx res"
proof -
  have "json_ctl (c\<lparr>jc_seen_stream_end := jc_seen_stream_end c \<or> e\<rparr>) =
      json_ctl (ctx\<lparr>jc_seen_stream_end := jc_seen_stream_end ctx \<or> e\<rparr>)"
      "jc_down c = jc_down ctx" "jc_header_sent c = jc_header_sent ctx"
    using assms(3) by (simp_all add: json_ctl_def)
  with assms show ?thesis unfolding json_emitted_def by metis
qed

lemma get_postponed_outcome:
  assumes "json_room conf ctx"
  shows "json_outcome ctx (\<lambda>c. json_room conf c \<and> json_stream c = json_stream ctx \<and> jc_avail_out c = jc_avail_out ctx \<and>
           jc_postponed c = jc_postponed ctx)
     (ngx_http_rds_json_get_postponed ctx len)"
  using assms mem_ok_alloc [of ctx]
  by (cases "jc_mem ctx = [] \<or> hd (jc_mem ctx)")
    (auto simp: ngx_http_rds_json_get_postponed_def pool_alloc_eq json_outcome_def json_ctl_def json_room_def
      json_stream_def mem_ok_def split: option.splits dest: in_set_tl)

lemma postponed_kept:
  "json_ctl (c\<lparr>jc_postponed := x\<rparr>) = json_ctl c" "json_stream (c\<lparr>jc_postponed := x\<rparr>) = json_stream c"
  "json_room conf (c\<lparr>jc_postponed := x\<rparr>) = json_room conf c" "mem_ok (c\<lparr>jc_postponed := x\<rparr>) = mem_ok c"
  by (simp_all add: json_ctl_def json_stream_def json_room_def mem_ok_def)

lemma request_mem_outcome:
  assumes "json_inv conf ctx"
  shows "json_outcome ctx (\<lambda>c. json_room conf c \<and> json_stream c = json_stream ctx \<and> 0 < jc_avail_out c \<and>
           jc_postponed c = (if jc_avail_out c < len then Some [] else None))
     (ngx_http_rds_json_request_mem conf ctx len)"
proof -
  obtain rc c1 where g: "ngx_http_rds_json_get_buf conf ctx = (rc, c1)" by fastforce
  have o1: "json_outcome ctx (\<lambda>c. json_room conf c \<and> 0 < jc_avail_out c \<and> json_stream c = json_stream ctx \<and>
      jc_postponed c = jc_postponed ctx) (rc = NGX_OK, c1)"
    using get_buf_outcome [of conf ctx] assms g by (simp add: json_inv_def)
  obtain ok c2 where p: "ngx_http_rds_json_get_postponed c1 len = (ok, c2)" by fastforce
  show ?thesis
  proof (cases "rc = NGX_OK \<and> jc_avail_out c1 < len")
    case True
    have c1: "json_room conf c1" "0 < jc_avail_out c1" "json_stream c1 = json_stream ctx" "json_ctl c1 = json_ctl ctx"
        "mem_ok ctx \<longrightarrow> mem_ok c1"
      using outcome_ok [OF o1] True by simp_all
    have o2: "json_outcome c1 (\<lambda>c. json_room conf c \<and> json_stream c = json_stream c1 \<and> jc_avail_out c = jc_avail_out c1 \<and>
           jc_postponed c = jc_postponed c1) (ok, c2)"
      using get_postponed_outcome [OF c1(1), of len] p by simp
    show ?thesis using True g p o2 c1
      by (cases ok) (auto simp: ngx_http_rds_json_request_mem_def json_outcome_def postponed_kept)
  next
    case False
    then show ?thesis using g o1 assms
      by (auto simp: ngx_http_rds_json_request_mem_def json_outcome_def json_inv_def)
  qed
qed

lemma submit_loop_rc: "fst (submit_loop fuel conf l p ctx) \<in> {NGX_OK, NGX_ERROR}"
  by (induction fuel conf l p ctx rule: submit_loop.induct) (auto simp: Let_def split: prod.splits bool.splits)

lemma submit_mem_outcome:
  assumes "json_room conf ctx" "0 < jc_avail_out ctx" "length bytes = sz"
    and "jc_postponed ctx = (if jc_avail_out ctx < sz then Some bytes else None)"
  shows "json_outcome ctx (\<lambda>c. json_inv conf c \<and> json_stream c = json_stream ctx @ bytes)
     (apfst (\<lambda>rc. rc = NGX_OK) (ngx_http_rds_json_submit_mem conf ctx bytes sz l))"
proof (cases "jc_avail_out ctx < sz")
  case True
  then show ?thesis
    using assms submit_loop_outcome [of conf ctx bytes "Suc (length bytes + length (jc_mem ctx))" l]
    by (simp add: ngx_http_rds_json_submit_mem_def del: submit_loop.simps)
next
  case False
  define c1 where "c1 = ctx\<lparr>jc_buf := \<lparr>jb_data = jb_data (jc_buf ctx) @ bytes, jb_last = l\<rparr>,
      jc_avail_out := jc_avail_out ctx - sz\<rparr>"
  have c1: "json_room conf c1" "json_ctl c1 = json_ctl ctx" "mem_ok c1 = mem_ok ctx"
      "length (jb_data (jc_buf c1)) + jc_avail_out c1 = conf_buf_size conf" "jc_postponed c1 = None"
    using assms False by (auto simp: c1_def json_room_def json_ctl_def mem_ok_def)
  have s: "ngx_http_rds_json_submit_mem conf ctx bytes sz l =
      (if jc_avail_out c1 = 0 then
         (case json_save_buf c1 of (False, c) \<Rightarrow> (NGX_ERROR, c) | (True, c) \<Rightarrow> (NGX_OK, c)) else (NGX_OK, c1))"
    using assms False by (simp add: ngx_http_rds_json_submit_mem_def c1_def)
  show ?thesis
  proof (cases "jc_avail_out c1 = 0")
    case True
    have "json_outcome c1 (\<lambda>c. json_room conf c \<and> jc_avail_out c = 0 \<and> json_stream c = json_stream c1 @ jb_data (jc_buf c1) \<and>
        jc_postponed c = jc_postponed c1 \<and> jc_out c \<noteq> []) (json_save_buf c1)"
      by (rule save_buf_outcome) (use c1 True in simp_all)
    moreover have "json_stream c1 @ jb_data (jc_buf c1) = json_stream ctx @ bytes"
      using True assms by (simp add: json_stream_def c1_def)
    ultimately show ?thesis unfolding s using True c1
      by (cases "json_save_buf c1"; cases "fst (json_save_buf c1)") (auto simp: json_outcome_def json_inv_def)
  next
    case nz: False
    then have "json_stream c1 = json_stream ctx @ bytes" using assms by (simp add: json_stream_def c1_def)
    then show ?thesis unfolding s using nz c1 by (simp add: json_outcome_def json_inv_def json_room_def)
  qed
qed

lemma submit_mem_rc: "fst (ngx_http_rds_json_submit_mem conf ctx bytes sz l) \<in> {NGX_OK, NGX_ERROR}"
  using submit_loop_rc [of "Suc (length (the (jc_postponed ctx)) + length (jc_mem ctx))" conf l "the (jc_postponed ctx)" ctx]
  by (auto simp: ngx_http_rds_json_submit_mem_def Let_def simp del: submit_loop.simps split: option.splits prod.splits bool.splits)

lemma emit_outcome:
  assumes inv: "json_inv conf ctx" and len: "length bytes = sz"
  shows "json_emitted conf ended bytes ctx (json_emit conf ended checked sz bytes l ctx)"
proof -
  obtain ok c1 where r: "ngx_http_rds_json_request_mem conf ctx sz = (ok, c1)" by fastforce
  have o1: "json_outcome ctx (\<lambda>c. json_room conf c \<and> json_stream c = json_stream ctx \<and> 0 < jc_avail_out c \<and>
           jc_postponed c = (if jc_avail_out c < sz then Some [] else None)) (ok, c1)"
    using request_mem_outcome [OF inv, of sz] r by simp
  define c2 where "c2 = (if ended then (json_fill sz bytes c1)\<lparr>jc_seen_stream_end := True\<rparr> else json_fill sz bytes c1)"
  show ?thesis
  proof (cases ok)
    case False
    then show ?thesis using r o1 by (simp add: json_emit_def json_emitted_def json_outcome_def json_ctl_def)
  next
    case True
    have e: "json_emit conf ended checked sz bytes l ctx = ngx_http_rds_json_submit_mem conf c2 bytes sz l"
      using True r len by (simp add: json_emit_def c2_def)
    note c1 = outcome_ok [OF o1 True]
    have c2: "json_room conf c2" "json_stream c2 = json_stream ctx" "0 < jc_avail_out c2"
        "jc_postponed c2 = (if jc_avail_out c2 < sz then Some bytes else None)"
        "json_ctl c2 = json_ctl (ctx\<lparr>jc_seen_stream_end := jc_seen_stream_end ctx \<or> ended\<rparr>)" "mem_ok ctx \<longrightarrow> mem_ok c2"
      using c1 len by (auto simp: c2_def json_fill_def json_room_def json_stream_def json_ctl_def mem_ok_def)
    have "json_outcome c2 (\<lambda>c. json_inv conf c \<and> json_stream c = json_stream c2 @ bytes)
         (apfst (\<lambda>rc. rc = NGX_OK) (ngx_http_rds_json_submit_mem conf c2 bytes sz l))"
      by (rule submit_mem_outcome) (use c2 len in simp_all)
    then show ?thesis unfolding e using c2 submit_mem_rc [of conf c2 bytes sz l]
      by (auto simp: json_outcome_def json_emitted_def json_ctl_def)
  qed
qed

text \<open>The values of the user properties, where they can all be evaluated.\<close>

definition props_of :: "rds_json_conf \<Rightarrow> json_req \<Rightarrow> (bytes \<times> bytes) list option" where
  "props_of conf r = (case rj_user_props conf of None \<Rightarrow> Some [] | Some ps \<Rightarrow> eval_props r ps)"

lemma user_values_emitted:
  assumes inv: "json_inv conf ctx" and props: "props_of conf r = Some props"
    and emit: "\<And>c. json_inv conf c \<Longrightarrow> json_emitted conf e bytes c (g props c)"
  shows "json_emitted conf e bytes ctx
     (case user_values conf r ctx of (None, c) \<Rightarrow> (NGX_ERROR, c) | (Some ps, c) \<Rightarrow> g ps c)"
proof (cases "rj_user_props conf")
  case None
  with props have "props = []" by (simp add: props_of_def)
  with None emit [OF inv] show ?thesis by (simp add: user_values_def)
next
  case (Some ps)
  define c where "c = ctx\<lparr>jc_mem := tl (jc_mem ctx)\<rparr>"
  have c: "json_inv conf c" "json_stream c = json_stream ctx" "json_ctl c = json_ctl ctx" "mem_ok ctx \<longrightarrow> mem_ok c"
    using inv by (auto simp: c_def json_inv_def json_room_def json_stream_def json_ctl_def mem_ok_def dest: in_set_tl)
  have ev: "eval_props r ps = Some props" using props Some by (simp add: props_of_def)
  show ?thesis
  proof (cases "jc_mem ctx = [] \<or> hd (jc_mem ctx)")
    case True
    then have "(case user_values conf r ctx of (None, c) \<Rightarrow> (NGX_ERROR, c) | (Some ps, c) \<Rightarrow> g ps c) = g props c"
      using Some ev by (simp add: user_values_def pool_alloc_eq c_def)
    with emitted_from [OF emit [OF c(1)] c(2-4)] show ?thesis by simp
  next
    case False
    with Some inv mem_ok_alloc [of ctx] show ?thesis
      by (auto simp: user_values_def pool_alloc_eq json_emitted_def json_inv_def json_room_def)
  qed
qed

lemma output_literal_emitted:
  "json_inv conf ctx \<Longrightarrow> json_emitted conf l data ctx (ngx_http_rds_json_output_literal conf r ctx data l)"
  by (simp add: ngx_http_rds_json_output_literal_def emit_outcome)

lemma output_header_emitted:
  assumes "json_inv conf ctx" "props_of conf r = Some props" "header_ok h"
  shows "json_emitted conf True (header_fill conf props h) ctx (ngx_http_rds_json_output_header conf r ctx h)"
  unfolding ngx_http_rds_json_output_header_def
  by (rule user_values_emitted [OF assms(1,2)]) (simp add: emit_outcome header_length assms(3))

definition props_text :: "rds_json_conf \<Rightarrow> (bytes \<times> bytes) list \<Rightarrow> bytes" where
  "props_text conf props =
     ''{'' @ (if rj_success conf \<noteq> [] then rj_success conf @ '':true,'' else [])
             @ props_fill props @ rj_root conf @ '':''"

lemma output_props_emitted:
  assumes "json_inv conf ctx" "props_of conf r = Some props"
  shows "json_emitted conf False (props_text conf props) ctx (ngx_http_rds_json_output_props conf r ctx)"
  unfolding ngx_http_rds_json_output_props_def
  by (rule user_values_emitted [OF assms]) (simp add: emit_outcome props_text_def props_length)

lemma output_cols_emitted:
  assumes "json_inv conf ctx" "jc_col_count ctx = length (jc_cols ctx)"
  shows "json_emitted conf False (''['' @ cols_fill (jc_cols ctx) @ '']'') ctx (ngx_http_rds_json_output_cols conf ctx)"
proof -
  let ?c = "ctx\<lparr>jc_generated_col_names := True\<rparr>"
  have "json_inv conf ?c" using assms(1) by (simp add: json_inv_def json_room_def)
  then have "json_emitted conf False (''['' @ cols_fill (jc_cols ctx) @ '']'') ?c (ngx_http_rds_json_output_cols conf ctx)"
    using assms(2) by (simp add: ngx_http_rds_json_output_cols_def Let_def emit_outcome cols_length)
  then show ?thesis by (rule emitted_from) (simp_all add: json_stream_def json_ctl_def mem_ok_def)
qed

text \<open>What one field writes, and one further piece of it: \<open>None\<close> where the value is refused.\<close>

definition row_close :: "rds_json_conf \<Rightarrow> json_ctx \<Rightarrow> bytes option" where
  "row_close conf ctx =
     (if jc_field_data_rest ctx = 0 \<and> jc_cur_col ctx = jc_col_count ctx - 1 then row_end (rj_format conf) else Some [])"

definition field_text :: "rds_json_conf \<Rightarrow> json_ctx \<Rightarrow> bytes \<Rightarrow> bool \<Rightarrow> bytes option" where
  "field_text conf ctx data is_null =
     (let col = jc_cols ctx ! jc_cur_col ctx in
      case field_prefix conf ctx col of
        None \<Rightarrow> None
      | Some (_, pre) \<Rightarrow>
          if data = [] \<and> jc_field_data_rest ctx > 0 then None
          else case field_value col (jc_field_data_rest ctx) data is_null of
              None \<Rightarrow> None
            | Some (_, val) \<Rightarrow> map_option (\<lambda>post. pre @ val @ post) (row_close conf ctx))"

definition more_text :: "rds_json_conf \<Rightarrow> json_ctx \<Rightarrow> bytes \<Rightarrow> bytes option" where
  "more_text conf ctx data =
     (case more_value (jc_cols ctx ! jc_cur_col ctx) (jc_field_data_rest ctx) data of
        None \<Rightarrow> None
      | Some (_, val) \<Rightarrow> map_option (\<lambda>post. val @ post) (row_close conf ctx))"

lemma output_field_emitted:
  assumes "json_inv conf ctx"
  shows "case field_text conf ctx data n of
      None \<Rightarrow> ngx_http_rds_json_output_field conf ctx data n = (NGX_ERROR, ctx)
    | Some t \<Rightarrow> json_emitted conf False t ctx (ngx_http_rds_json_output_field conf ctx data n)"
proof -
  let ?col = "jc_cols ctx ! jc_cur_col ctx"
  consider (p) "field_prefix conf ctx ?col = None"
    | (v) s1 pre where "field_prefix conf ctx ?col = Some (s1, pre)"
        "data = [] \<and> jc_field_data_rest ctx > 0 \<or> field_value ?col (jc_field_data_rest ctx) data n = None"
    | (ok) s1 pre s2 val where "field_prefix conf ctx ?col = Some (s1, pre)" "\<not> (data = [] \<and> jc_field_data_rest ctx > 0)"
        "field_value ?col (jc_field_data_rest ctx) data n = Some (s2, val)"
    by (metis not_None_eq surj_pair)
  then show ?thesis
  proof cases
    case ok
    have len: "length pre = s1" "length val = s2"
      using field_prefix_length [OF ok(1)] field_value_length [OF ok(3)] by simp_all
    show ?thesis
    proof (cases "row_close conf ctx")
      case None
      then show ?thesis using ok
        by (simp add: field_text_def ngx_http_rds_json_output_field_def Let_def row_close_def split: if_splits)
    next
      case (Some post)
      have "ngx_http_rds_json_output_field conf ctx data n =
          json_emit conf False True (s1 + s2 + length post) (pre @ val @ post) False ctx"
        using ok Some by (auto simp: ngx_http_rds_json_output_field_def Let_def row_close_def split: if_splits)
      then show ?thesis using ok Some len emit_outcome [OF assms, of "pre @ val @ post" "s1 + s2 + length post"]
        by (auto simp: field_text_def)
    qed
  qed (auto simp: field_text_def ngx_http_rds_json_output_field_def Let_def)
qed

lemma output_more_emitted:
  assumes "json_inv conf ctx"
  shows "case more_text conf ctx data of
      None \<Rightarrow> ngx_http_rds_json_output_more_field_data conf ctx data = (NGX_ERROR, ctx)
    | Some t \<Rightarrow> json_emitted conf False t ctx (ngx_http_rds_json_output_more_field_data conf ctx data)"
proof (cases "more_value (jc_cols ctx ! jc_cur_col ctx) (jc_field_data_rest ctx) data")
  case None
  then show ?thesis by (simp add: more_text_def ngx_http_rds_json_output_more_field_data_def)
next
  case (Some sv)
  obtain sz val where sv: "sv = (sz, val)" by fastforce
  have len: "length val = sz" using more_value_length Some sv by simp
  show ?thesis
  proof (cases "row_close conf ctx")
    case None
    then show ?thesis using Some sv
      by (simp add: more_text_def ngx_http_rds_json_output_more_field_data_def Let_def row_close_def split: if_splits)
  next
    case c: (Some post)
    have "ngx_http_rds_json_output_more_field_data conf ctx data =
        json_emit conf False True (sz + length post) (val @ post) False ctx"
      using Some sv c by (simp add: ngx_http_rds_json_output_more_field_data_def Let_def row_close_def split: if_splits)
    then show ?thesis using Some sv c len emit_outcome [OF assms, of "val @ post" "sz + length post"]
      by (simp add: more_text_def)
  qed
qed

section \<open>The output is JSON\<close>

text \<open>
  The names behind the quoted keys of a configuration, and the JSON values the module means to
  write: the object for a result without columns, and the object of \<open>rds_json_ret\<close>.
\<close>

record json_names =
  jn_root :: "bytes option"
  jn_success :: "bytes option"
  jn_errcode :: bytes
  jn_errstr :: bytes

definition key_text :: "bytes option \<Rightarrow> bytes" where
  "key_text k = (case k of None \<Rightarrow> [] | Some s \<Rightarrow> json_str s)"

definition conf_names :: "rds_json_conf \<Rightarrow> json_names \<Rightarrow> bool" where
  "conf_names conf n \<longleftrightarrow> rj_root conf = key_text (jn_root n) \<and> rj_success conf = key_text (jn_success n) \<and>
     rj_errcode_key conf = json_str (jn_errcode n) \<and> rj_errstr_key conf = json_str (jn_errstr n)"

definition success_json :: "json_names \<Rightarrow> bool \<Rightarrow> (bytes \<times> json) list" where
  "success_json n ok = (case jn_success n of None \<Rightarrow> [] | Some s \<Rightarrow> [(s, JBool ok)])"

definition num_json :: "nat \<Rightarrow> json" where
  "num_json k = JNum (num_dec k [])"

definition header_json :: "json_names \<Rightarrow> (bytes \<times> bytes) list \<Rightarrow> rds_header \<Rightarrow> json" where
  "header_json n pv h =
     JObj (success_json n (std_errcode h = 0) @ map (apsnd JStr) pv @ [(jn_errcode n, num_json (std_errcode h))]
       @ (if errstr h \<noteq> [] then [(jn_errstr n, JStr (errstr h))] else [])
       @ (if insert_id h \<noteq> 0 then [(''insert_id'', num_json (insert_id h))] else [])
       @ (if affected_rows h \<noteq> 0 then [(''affected_rows'', num_json (affected_rows h))] else []))"

definition ret_json :: "json_names \<Rightarrow> (bytes \<times> bytes) list \<Rightarrow> rds_json_conf \<Rightarrow> bytes \<Rightarrow> json" where
  "ret_json n pv conf msg =
     JObj ([(jn_errcode n, JNum (rj_errcode conf))] @ (if msg \<noteq> [] then [(jn_errstr n, JStr msg)] else [])
       @ success_json n (ret_success conf) @ map (apsnd JStr) pv)"

definition member_text :: "bytes \<times> json \<Rightarrow> bytes" where
  "member_text kv = json_str (fst kv) @ '':'' @ json_text (snd kv)"

lemma json_text_obj: "json_text (JObj kvs) = ''{'' @ comma_sep (map member_text kvs) @ ''}''"
  by (simp add: member_text_def [abs_def] case_prod_unfold)

lemma comma_sep_lead: "comma_sep (x # ys) = x @ concat (map ((@) '','') ys)"
  by (induction ys arbitrary: x) simp_all

lemma comma_sep_trail: "comma_sep (xs @ y # ys) = concat (map (\<lambda>x. x @ '','') xs) @ comma_sep (y # ys)"
proof (induction xs)
  case (Cons x xs)
  then show ?case by (cases xs) simp_all
qed simp

lemma json_str_nonempty [simp]: "json_str s \<noteq> []"
  by (simp add: json_str_def)

lemma props_fill_json:
  "props_fill (map (apfst json_str) pv) = concat (map (\<lambda>x. x @ '','') (map member_text (map (apsnd JStr) pv)))"
  "ret_props_fill (map (apfst json_str) pv) = concat (map ((@) '','') (map member_text (map (apsnd JStr) pv)))"
  by (induction pv) (auto simp: member_text_def json_str_def json_copy_escape)

lemma escape_literals:
  "json_str ''insert_id'' = [CHR 0x22] @ ''insert_id'' @ [CHR 0x22]"
  "json_str ''affected_rows'' = [CHR 0x22] @ ''affected_rows'' @ [CHR 0x22]"
  by (simp_all add: json_str_def json_c2_def)

lemma header_fill_json:
  assumes n: "conf_names conf n" and h: "header_ok h"
  shows "header_fill conf (map (apfst json_str) pv) h = json_text (header_json n pv h)"
proof -
  have errs: "[CHR 0x22] @ json_copy (errstr h) @ [CHR 0x22] = json_str (errstr h)"
    by (simp add: json_str_def json_copy_escape)
  have pre: "(if rj_success conf \<noteq> [] then rj_success conf @ (if std_errcode h = 0 then '':true,'' else '':false,'') else [])
      = concat (map (\<lambda>x. x @ '','') (map member_text (success_json n (std_errcode h = 0))))"
    using n by (cases "jn_success n") (simp_all add: conf_names_def key_text_def success_json_def member_text_def)
  show ?thesis
    using n h unfolding header_json_def json_text_obj header_fill_def pre props_fill_json
    by (simp add: comma_sep_trail [of "map member_text (success_json n (std_errcode h = 0)) @ map (member_text \<circ> apsnd JStr) pv",
          simplified] comma_sep_lead conf_names_def header_ok_def num_printed member_text_def num_json_def
        escape_literals errs [simplified])
qed

lemma ret_fill_json:
  assumes n: "conf_names conf n"
  shows "ret_fill conf msg (map (apfst json_str) pv) = json_text (ret_json n pv conf msg)"
proof -
  have msg: "[CHR 0x22] @ json_copy msg @ [CHR 0x22] = json_str msg"
    by (simp add: json_str_def json_copy_escape)
  have succ: "(if rj_success conf \<noteq> [] then '','' @ rj_success conf @ (if ret_success conf then '':true'' else '':false'') else [])
      = concat (map ((@) '','') (map member_text (success_json n (ret_success conf))))"
    using n by (cases "jn_success n") (simp_all add: conf_names_def key_text_def success_json_def member_text_def)
  show ?thesis
    using n unfolding ret_json_def json_text_obj ret_fill_def succ props_fill_json
    by (simp add: comma_sep_lead conf_names_def member_text_def msg [simplified])
qed

text \<open>A directive with one argument stores the JSON string of its argument, once.\<close>

lemma json_key_directive_stores:
  "v \<noteq> [] \<Longrightarrow> get jlcf = [] \<Longrightarrow> json_key_directive True get put v jlcf = (Conf_Ok, put (json_str v) jlcf)"
  by (simp add: json_key_directive_def quoted_key_def json_copy_length json_copy_escape json_str_def rds_escape_length)

lemma json_root_stores: "v \<noteq> [] \<Longrightarrow> rj_root c = [] \<Longrightarrow> ngx_http_rds_json_root True v c = (Conf_Ok, c\<lparr>rj_root := json_str v\<rparr>)"
  by (simp add: ngx_http_rds_json_root_def json_key_directive_stores)

lemma default_names:
  "conf_names (ngx_http_rds_json_merge_loc_conf pagesize ngx_http_rds_json_create_loc_conf ngx_http_rds_json_create_loc_conf)
     \<lparr>jn_root = None, jn_success = None, jn_errcode = ''errcode'', jn_errstr = ''errstr''\<rparr>"
  by (simp add: conf_names_def key_text_def ngx_http_rds_json_merge_loc_conf_def ngx_http_rds_json_create_loc_conf_def
      merge_str_def json_str_def json_c2_def)

section \<open>Properties\<close>

text \<open>
  C40. The string escaper is exact and reversible: the counting call returns by how much the writing
  call lengthens the string, a reader of JSON strings gets back the string it was given and
  stops at the closing quote that follows it, whatever comes after, and the copy the callers
  take when nothing is to be escaped is the same text.
\<close>

theorem json_escape_roundtrip:
  "length (escape_json s) = length s + rds_escape_count s \<and> json_copy s = escape_json s \<and>
   json_read_str (json_copy s @ CHR 0x22 # rest) = Some (s, rest)"
  by (simp add: rds_escape_length json_copy_escape json_read_escape)

text \<open>
  The handler of \<open>rds_json_ret\<close>, with the names of the keys \<open>n\<close> and the user properties
  \<open>pv\<close>: unless a value cannot be evaluated, memory is short or the header is refused, it hands
  over one buffer whose bytes are the JSON object of the code, the message, the success flag and
  the properties, flagged as the last one in a main request; its size computation is right, so
  its own buffer check never fails.
\<close>

theorem rds_json_ret_object:
  assumes "conf_names conf n" "rj_errstr conf = Some cv" "props_of conf r = Some (map (apfst json_str) pv)"
    and "(if cv = [] then Some [] else rq_value r cv) = Some msg"
  shows "ngx_http_rds_json_ret_handler alloc sh out conf r =
     (if \<not> alloc then Some (NGX_ERROR, None)
      else if sh = NGX_ERROR \<or> sh \<ge> 300 then Some (sh, None)
      else Some (out, Some \<lparr>jb_data = json_text (ret_json n pv conf msg), jb_last = rq_main r\<rparr>))"
  using assms(2-) ret_fill_json [OF assms(1), of msg pv] ret_length [of conf msg "map (apfst json_str) pv"]
  by (cases "rj_user_props conf") (simp_all add: ngx_http_rds_json_ret_handler_def props_of_def)

definition ret_conf0 :: rds_json_conf where
  "ret_conf0 = (ngx_http_rds_json_merge_loc_conf 4096 ngx_http_rds_json_create_loc_conf ngx_http_rds_json_create_loc_conf)
     \<lparr>rj_errcode := ''400'', rj_errstr := Some ''bad''\<rparr>"

definition json_req0 :: json_req where
  "json_req0 = \<lparr>rq_main = True, rq_header_only = False, rq_status = 200, rq_value = Some, rq_next_header = NGX_OK, rq_next_body = (\<lambda>busy out. (NGX_OK, 0))\<rparr>"

theorem rds_json_ret_object_witness:
  "ngx_http_rds_json_ret_handler True NGX_OK NGX_OK ret_conf0 json_req0 =
     Some (NGX_OK, Some \<lparr>jb_data = json_text (JObj [(''errcode'', JNum ''400''), (''errstr'', JStr ''bad'')]), jb_last = True\<rparr>)"
proof -
  have n: "conf_names ret_conf0 \<lparr>jn_root = None, jn_success = None, jn_errcode = ''errcode'', jn_errstr = ''errstr''\<rparr>"
    using default_names [of 4096] by (simp add: conf_names_def ret_conf0_def)
  have u: "rj_user_props ret_conf0 = None" "rj_errcode ret_conf0 = ''400''" "rj_errstr ret_conf0 = Some ''bad''"
    by (simp_all add: ret_conf0_def Let_def ngx_http_rds_json_merge_loc_conf_def ngx_http_rds_json_create_loc_conf_def)
  show ?thesis
    using rds_json_ret_object [OF n, of "''bad''" json_req0 "[]" "''bad''" True NGX_OK NGX_OK] u
    by (simp add: props_of_def json_req0_def ret_json_def success_json_def)
qed

end
