(* ===== verification/Rds_Stream.thy ===== *)
theory Rds_Stream
  imports Rds_Json
begin

text \<open>
  The reader of resty-dbd-streams and the body filter of
  \<open>rds-json-nginx-module-master/src\<close>: the readers of the header and of a column
  (\<open>ngx_http_rds_utils.h\<close>), the state machine over the buffers of the upstream
  (\<open>ngx_http_rds_json_processor.c\<close>) and the filter that runs it
  (\<open>ngx_http_rds_json_filter_module.c\<close>). Shown is that a result set, however its buffers are cut
  within the bounds the format allows, comes out as one JSON document.
\<close>

section \<open>Readers\<close>

text \<open>Integers in the byte order of a little endian host.\<close>

fun le_nat :: "bytes \<Rightarrow> nat" where
  "le_nat [] = 0"
| "le_nat (c # cs) = ord c + 256 * le_nat cs"

text \<open>
  \<open>ngx_http_rds_parse_header\<close>: the header and what is left of the buffer. 30 is the size of a
  header with an empty error string, 18 of what follows the error string.
\<close>

definition ngx_http_rds_parse_header :: "bytes \<Rightarrow> (rds_header \<times> bytes) option" where
  "ngx_http_rds_parse_header b =
     (if length b < 30 then None
      else if ord (b ! 0) \<noteq> 0 then None
      else if le_nat (take 4 (drop 1 b)) \<noteq> 3 then None
      else if ord (b ! 5) \<noteq> 0 then None
      else let len = le_nat (take 2 (drop 10 b)); b1 = drop 12 b in
        if length b1 < len + 18 then None
        else let b2 = drop len b1 in
          Some (\<lparr> std_errcode = le_nat (take 2 (drop 6 b)), drv_errcode = le_nat (take 2 (drop 8 b)),
                  errstr = take len b1, affected_rows = le_nat (take 8 b2),
                  insert_id = le_nat (take 8 (drop 8 b2)), hdr_col_count = le_nat (take 2 (drop 16 b2)) \<rparr>,
                drop 18 b2))"

text \<open>\<open>ngx_http_rds_parse_col\<close>; the name is copied to memory of the pool.\<close>

definition ngx_http_rds_parse_col :: "bytes \<Rightarrow> json_ctx \<Rightarrow> (rds_column \<times> bytes) option \<times> json_ctx" where
  "ngx_http_rds_parse_col b ctx =
     (if length b < 6 then (None, ctx)
      else let len = le_nat (take 2 (drop 4 b)); b1 = drop 6 b in
        if len = 0 then (None, ctx)
        else if length b1 < len then (None, ctx)
        else case pool_alloc ctx of
            (False, ctx1) \<Rightarrow> (None, ctx1)
          | (True, ctx1) \<Rightarrow>
              (Some (\<lparr> std_type = le_nat (take 2 b), drv_type = le_nat (take 2 (drop 2 b)), col_name = take len b1 \<rparr>,
                     drop len b1), ctx1))"

section \<open>The state machine\<close>

text \<open>
  A buffer of the upstream: its unread bytes, and the results of \<open>ngx_buf_in_memory\<close> and
  \<open>ngx_buf_special\<close> for it. The functions of the state machine call each other in tail position:
  a step returns a code, or says which function goes on with which chain.
\<close>

record rds_buf =
  rb_data :: bytes
  rb_memory :: bool
  rb_special :: bool

datatype rds_step =
    Ret ngx_int json_ctx
  | Call rds_state "rds_buf list" json_ctx

datatype rds_entry = No_Buf | Bad_Buf | Buf rds_buf "rds_buf list"

text \<open>The beginning the functions share: one special buffer at the head of the chain is skipped.\<close>

definition next_buf :: "rds_buf list \<Rightarrow> rds_entry" where
  "next_buf inp =
     (case inp of
        [] \<Rightarrow> No_Buf
      | b # rest \<Rightarrow>
          if rb_memory b then Buf b rest
          else if \<not> rb_special b then Bad_Buf
          else case rest of [] \<Rightarrow> No_Buf | b2 # rest2 \<Rightarrow> Buf b2 rest2)"

text \<open>The chain from a buffer whose unread bytes are now \<open>d\<close>: a consumed buffer is left behind.\<close>

definition rest_of :: "rds_buf \<Rightarrow> bytes \<Rightarrow> rds_buf list \<Rightarrow> rds_buf list" where
  "rest_of b d rest = (if d = [] then rest else b\<lparr>rb_data := d\<rparr> # rest)"

definition rc_failed :: "ngx_int \<Rightarrow> bool" where
  "rc_failed rc \<longleftrightarrow> rc = NGX_ERROR \<or> rc \<ge> 300"

text \<open>Sending the header that was kept back, if that was not done yet.\<close>

definition send_postponed_header :: "json_req \<Rightarrow> json_ctx \<Rightarrow> ngx_int \<times> json_ctx" where
  "send_postponed_header r ctx =
     (if jc_header_sent ctx then (NGX_OK, ctx)
      else (rq_next_header r,
            ctx\<lparr>jc_header_sent := True, jc_down := jc_down ctx @ [Header_Down (rq_status r)]\<rparr>))"

text \<open>
  The label \<open>invalid\<close>. \<open>ngx_http_send_header\<close> starts at the first header filter: this module's
  own one sees the status 500 and takes its context from the request, so that the end of the
  response passes this module's body filter too.
\<close>

definition header_invalid :: "json_ctx \<Rightarrow> rds_step" where
  "header_invalid ctx =
     (if jc_header_sent ctx then Ret NGX_ERROR ctx
      else Ret NGX_ERROR (ctx\<lparr>jc_header_sent := True, jc_attached := False,
                              jc_down := jc_down ctx @ [Header_Down 500, Special_Down]\<rparr>))"

definition ngx_http_rds_json_process_header ::
    "rds_json_conf \<Rightarrow> json_req \<Rightarrow> rds_buf list \<Rightarrow> json_ctx \<Rightarrow> rds_step" where
  "ngx_http_rds_json_process_header conf r inp ctx =
     (case next_buf inp of
        No_Buf \<Rightarrow> Ret NGX_OK ctx
      | Bad_Buf \<Rightarrow> header_invalid ctx
      | Buf b rest \<Rightarrow>
          (case ngx_http_rds_parse_header (rb_data b) of
             None \<Rightarrow> header_invalid ctx
           | Some (h, d) \<Rightarrow>
               if hdr_col_count h = 0 then
                 if d \<noteq> [] then header_invalid ctx
                 else (case send_postponed_header r (ctx\<lparr>jc_state := state_done\<rparr>) of
                     (rc, ctx1) \<Rightarrow>
                       if rc_failed rc then Ret rc ctx1
                       else case ngx_http_rds_json_output_header conf r ctx1 h of (rc, ctx2) \<Rightarrow> Ret rc ctx2)
               else (case pool_alloc ctx of
                   (False, ctx1) \<Rightarrow> header_invalid ctx1
                 | (True, ctx1) \<Rightarrow>
                     (case send_postponed_header r
                        (ctx1\<lparr>jc_cols := [], jc_state := state_expect_col, jc_cur_col := 0, jc_col_count := hdr_col_count h\<rparr>) of
                        (rc, ctx2) \<Rightarrow>
                          if rc_failed rc then Ret rc ctx2 else Call state_expect_col (rest_of b d rest) ctx2))))"

text \<open>What is written after the last column: the members before the rows, the bracket, the names.\<close>

definition begin_rows :: "rds_json_conf \<Rightarrow> json_req \<Rightarrow> json_ctx \<Rightarrow> ngx_int \<times> json_ctx" where
  "begin_rows conf r ctx =
     (case (if rj_root conf \<noteq> [] then ngx_http_rds_json_output_props conf r ctx else (NGX_OK, ctx)) of
        (rc, ctx1) \<Rightarrow>
          if rc = NGX_ERROR \<or> rc > NGX_OK then (rc, ctx1)
          else case ngx_http_rds_json_output_literal conf r ctx1 ''['' False of
              (rc, ctx2) \<Rightarrow>
                if rc = NGX_ERROR \<or> rc > NGX_OK then (rc, ctx2)
                else if rj_format conf = Some json_format_compact then ngx_http_rds_json_output_cols conf ctx2
                else (rc, ctx2))"

text \<open>\<open>jc_cols\<close> holds the part of the array \<open>ctx->cols\<close> that has been filled.\<close>

definition ngx_http_rds_json_process_col ::
    "rds_json_conf \<Rightarrow> json_req \<Rightarrow> rds_buf list \<Rightarrow> json_ctx \<Rightarrow> rds_step" where
  "ngx_http_rds_json_process_col conf r inp ctx =
     (case next_buf inp of
        No_Buf \<Rightarrow> Ret NGX_OK ctx
      | Bad_Buf \<Rightarrow> Ret NGX_ERROR ctx
      | Buf b rest \<Rightarrow>
          (case ngx_http_rds_parse_col (rb_data b) ctx of
             (None, ctx1) \<Rightarrow> Ret NGX_ERROR ctx1
           | (Some (col, d), ctx1) \<Rightarrow>
               let ctx2 = ctx1\<lparr>jc_cols := take (jc_cur_col ctx1) (jc_cols ctx1) @ [col], jc_cur_col := jc_cur_col ctx1 + 1\<rparr> in
               if jc_cur_col ctx2 \<ge> jc_col_count ctx2 then
                 (case begin_rows conf r (ctx2\<lparr>jc_state := state_expect_row, jc_row := 0\<rparr>) of
                    (rc, ctx3) \<Rightarrow>
                      if rc_failed rc then Ret rc ctx3 else Call state_expect_row (rest_of b d rest) ctx3)
               else Call state_expect_col (rest_of b d rest) ctx2))"

definition ngx_http_rds_json_process_row ::
    "rds_json_conf \<Rightarrow> json_req \<Rightarrow> rds_buf list \<Rightarrow> json_ctx \<Rightarrow> rds_step" where
  "ngx_http_rds_json_process_row conf r inp ctx =
     (case next_buf inp of
        No_Buf \<Rightarrow> Ret NGX_OK ctx
      | Bad_Buf \<Rightarrow> Ret NGX_ERROR ctx
      | Buf b rest \<Rightarrow>
          (case rb_data b of
             [] \<Rightarrow> Ret NGX_ERROR ctx
           | flag # d \<Rightarrow>
               if ord flag = 0 then
                 let ctx1 = ctx\<lparr>jc_state := state_done\<rparr> in
                 if d \<noteq> [] then Ret NGX_ERROR ctx1
                 else case ngx_http_rds_json_output_literal conf r ctx1 (if rj_root conf \<noteq> [] then '']}'' else '']'') True of
                     (rc, ctx2) \<Rightarrow> Ret rc ctx2
               else Call state_expect_field (rest_of b d rest)
                      (ctx\<lparr>jc_row := jc_row ctx + 1, jc_cur_col := 0, jc_state := state_expect_field\<rparr>)))"

text \<open>After a field: the next one of the row, or the next row.\<close>

definition field_done :: "rds_buf list \<Rightarrow> json_ctx \<Rightarrow> rds_step" where
  "field_done inp ctx =
     (let ctx1 = ctx\<lparr>jc_cur_col := jc_cur_col ctx + 1\<rparr> in
      if jc_cur_col ctx1 \<ge> jc_col_count ctx1 then Call state_expect_row inp (ctx1\<lparr>jc_state := state_expect_row\<rparr>)
      else Call state_expect_field inp (ctx1\<lparr>jc_state := state_expect_field\<rparr>))"

text \<open>
  The loop of \<open>ngx_http_rds_json_process_field\<close> is the call of itself; its state is
  \<open>state_expect_field\<close> throughout. The size of what is in the buffer is cut to 32 bits.
\<close>

definition ngx_http_rds_json_process_field ::
    "rds_json_conf \<Rightarrow> rds_buf list \<Rightarrow> json_ctx \<Rightarrow> rds_step" where
  "ngx_http_rds_json_process_field conf inp ctx =
     (case next_buf inp of
        No_Buf \<Rightarrow> Ret NGX_OK ctx
      | Bad_Buf \<Rightarrow> Ret NGX_ERROR ctx
      | Buf b rest \<Rightarrow>
          if length (rb_data b) < 4 then Ret NGX_ERROR ctx
          else let size32 = le_nat (take 4 (rb_data b));
                   d = drop 4 (rb_data b);
                   is_null = (size32 = 0xffffffff);
                   total = (if is_null then 0 else size32);
                   len = (if is_null then 0 else min (length d mod 2 ^ 32) total) in
            (case ngx_http_rds_json_output_field conf (ctx\<lparr>jc_field_data_rest := total - len\<rparr>) (take len d) is_null of
               (rc, ctx1) \<Rightarrow>
                 if rc_failed rc then Ret rc ctx1
                 else if len < total then
                   Call state_expect_more_field_data (rest_of b (drop len d) rest)
                     (ctx1\<lparr>jc_state := state_expect_more_field_data\<rparr>)
                 else field_done (rest_of b (drop len d) rest) ctx1))"

definition ngx_http_rds_json_process_more_field_data ::
    "rds_json_conf \<Rightarrow> rds_buf list \<Rightarrow> json_ctx \<Rightarrow> rds_step" where
  "ngx_http_rds_json_process_more_field_data conf inp ctx =
     (case inp of
        [] \<Rightarrow> Ret NGX_OK ctx
      | b # rest \<Rightarrow>
          if \<not> rb_memory b then Ret NGX_ERROR ctx
          else let len = min (length (rb_data b)) (jc_field_data_rest ctx);
                   ctx1 = ctx\<lparr>jc_field_data_rest := jc_field_data_rest ctx - len\<rparr> in
            (case ngx_http_rds_json_output_more_field_data conf ctx1 (take len (rb_data b)) of
               (rc, ctx2) \<Rightarrow>
                 if rc_failed rc then Ret rc ctx2
                 else if jc_field_data_rest ctx1 \<noteq> 0 then
                   Call state_expect_more_field_data (rest_of b (drop len (rb_data b)) rest) ctx2
                 else field_done (rest_of b (drop len (rb_data b)) rest) ctx2))"

definition rds_dispatch :: "rds_json_conf \<Rightarrow> json_req \<Rightarrow> rds_state \<Rightarrow> rds_buf list \<Rightarrow> json_ctx \<Rightarrow> rds_step" where
  "rds_dispatch conf r s inp ctx =
     (case s of
        state_expect_header \<Rightarrow> ngx_http_rds_json_process_header conf r inp ctx
      | state_expect_col \<Rightarrow> ngx_http_rds_json_process_col conf r inp ctx
      | state_expect_row \<Rightarrow> ngx_http_rds_json_process_row conf r inp ctx
      | state_expect_field \<Rightarrow> ngx_http_rds_json_process_field conf inp ctx
      | state_expect_more_field_data \<Rightarrow> ngx_http_rds_json_process_more_field_data conf inp ctx
      | state_done \<Rightarrow> Ret NGX_OK ctx)"

definition chain_size :: "rds_buf list \<Rightarrow> nat" where
  "chain_size inp = sum_list (map (\<lambda>b. length (rb_data b) + 1) inp)"

lemma chain_size_rest: "chain_size (rest_of b d rest) \<le> length d + 1 + chain_size rest"
  by (simp add: chain_size_def rest_of_def)

lemma chain_size_next: "next_buf inp = Buf b rest \<Longrightarrow> length (rb_data b) + 1 + chain_size rest \<le> chain_size inp"
  by (auto simp: next_buf_def chain_size_def split: list.splits if_splits)

definition run_size :: "rds_state \<Rightarrow> rds_buf list \<Rightarrow> nat" where
  "run_size s inp = 2 * chain_size inp + (if s = state_expect_more_field_data then 1 else 0)"

lemma parse_header_shrinks: "ngx_http_rds_parse_header b = Some (h, d) \<Longrightarrow> length d < length b"
  by (auto simp: ngx_http_rds_parse_header_def Let_def split: if_splits)

lemma parse_col_shrinks: "ngx_http_rds_parse_col b ctx = (Some (c, d), ctx1) \<Longrightarrow> length d < length b"
  by (auto simp: ngx_http_rds_parse_col_def Let_def split: if_splits prod.splits bool.splits)

lemma run_size_shrinks:
  assumes "next_buf inp = Buf b rest" "length d < length (rb_data b)"
  shows "run_size s' (rest_of b d rest) < run_size s inp"
  using assms(2) chain_size_rest [of b d rest] chain_size_next [OF assms(1)] by (simp add: run_size_def)

lemma field_done_size: "field_done inp ctx = Call s' inp' c \<Longrightarrow> inp' = inp \<and> s' \<noteq> state_expect_more_field_data"
  by (auto simp: field_done_def Let_def split: if_splits)

lemma process_header_size:
  "ngx_http_rds_json_process_header conf r inp ctx = Call s' inp' c \<Longrightarrow> run_size s' inp' < run_size s inp"
  by (auto simp: ngx_http_rds_json_process_header_def header_invalid_def
      split: rds_entry.splits option.splits prod.splits if_splits bool.splits
      dest!: parse_header_shrinks intro: run_size_shrinks)

lemma process_col_size:
  "ngx_http_rds_json_process_col conf r inp ctx = Call s' inp' c \<Longrightarrow> run_size s' inp' < run_size s inp"
  by (auto simp: ngx_http_rds_json_process_col_def Let_def
      split: rds_entry.splits option.splits prod.splits if_splits
      dest!: parse_col_shrinks intro: run_size_shrinks)

lemma process_row_size:
  "ngx_http_rds_json_process_row conf r inp ctx = Call s' inp' c \<Longrightarrow> run_size s' inp' < run_size s inp"
  by (auto simp: ngx_http_rds_json_process_row_def Let_def
      split: rds_entry.splits list.splits prod.splits if_splits intro: run_size_shrinks)

lemma process_field_size:
  "ngx_http_rds_json_process_field conf inp ctx = Call s' inp' c \<Longrightarrow> run_size s' inp' < run_size s inp"
  by (auto simp: ngx_http_rds_json_process_field_def Let_def
      split: rds_entry.splits prod.splits if_splits dest!: field_done_size intro!: run_size_shrinks)

lemma process_more_size:
  assumes "ngx_http_rds_json_process_more_field_data conf inp ctx = Call s' inp' c"
  shows "run_size s' inp' < run_size state_expect_more_field_data inp"
proof (cases inp)
  case Nil
  with assms show ?thesis by (simp add: ngx_http_rds_json_process_more_field_data_def)
next
  case (Cons b rest)
  define len where "len = min (length (rb_data b)) (jc_field_data_rest ctx)"
  have "chain_size inp = length (rb_data b) + 1 + chain_size rest" using Cons by (simp add: chain_size_def)
  moreover have "inp' = rest_of b (drop len (rb_data b)) rest \<and>
      (s' = state_expect_more_field_data \<longrightarrow> drop len (rb_data b) = [])"
    using assms Cons
    by (auto simp: ngx_http_rds_json_process_more_field_data_def Let_def len_def
        split: prod.splits if_splits dest!: field_done_size)
  ultimately show ?thesis
    using chain_size_rest [of b "drop len (rb_data b)" rest] by (auto simp: run_size_def rest_of_def)
qed

lemma dispatch_shrinks: "rds_dispatch conf r s inp ctx = Call s' inp' c \<Longrightarrow> run_size s' inp' < run_size s inp"
  by (cases s)
    (auto simp: rds_dispatch_def intro: process_header_size process_col_size process_row_size process_field_size
      process_more_size)

text \<open>The tail calls followed to the end: every one of them consumes input or leaves a field.\<close>

function rds_run :: "rds_json_conf \<Rightarrow> json_req \<Rightarrow> rds_state \<Rightarrow> rds_buf list \<Rightarrow> json_ctx \<Rightarrow> ngx_int \<times> json_ctx" where
  "rds_run conf r s inp ctx =
     (case rds_dispatch conf r s inp ctx of
        Ret rc c \<Rightarrow> (rc, c)
      | Call s' inp' c \<Rightarrow> rds_run conf r s' inp' c)"
  by pat_completeness auto
termination
  by (relation "measure (\<lambda>(conf, r, s, inp, ctx). run_size s inp)") (auto dest: dispatch_shrinks)

declare rds_run.simps [simp del]

text \<open>
  The body filter. In \<open>state_done\<close> the buffers are discarded; so is the end of the response its own
  error path sends, which comes back to it in that state.
\<close>

definition ngx_http_rds_json_body_filter ::
    "rds_json_conf \<Rightarrow> json_req \<Rightarrow> rds_buf list \<Rightarrow> json_ctx \<Rightarrow> ngx_int \<times> json_ctx" where
  "ngx_http_rds_json_body_filter conf r inp ctx =
     (if inp = [] \<or> rq_header_only r \<or> \<not> jc_attached ctx then
        (fst (rq_next_body r (jc_busy ctx) []), ctx\<lparr>jc_down := jc_down ctx @ [Raw_Down (map rb_data inp)]\<rparr>)
      else if jc_state ctx = state_done then (NGX_OK, ctx)
      else case rds_run conf r (jc_state ctx) inp ctx of
          (rc, ctx1) \<Rightarrow>
            if rc_failed rc then
              let ctx2 = ctx1\<lparr>jc_state := state_done\<rparr> in
              (if jc_header_sent ctx2 then (NGX_ERROR, ctx2)
               else (NGX_ERROR, ctx2\<lparr>jc_header_sent := True,
                       jc_down := jc_down ctx2 @ [Header_Down (if rc = NGX_ERROR then 500 else nat rc)]\<rparr>))
            else ngx_http_rds_json_output_bufs r ctx1)"

section \<open>The encoding that is read\<close>

fun le_bytes :: "nat \<Rightarrow> nat \<Rightarrow> bytes" where
  "le_bytes 0 n = []"
| "le_bytes (Suc k) n = chr (n mod 256) # le_bytes k (n div 256)"

lemma le_bytes_length [simp]: "length (le_bytes k n) = k"
  by (induction k arbitrary: n) simp_all

lemma le_bytes_Nil [simp]: "(le_bytes k n = []) = (k = 0)"
  by (cases k) simp_all

lemma le_nat_bytes: "n < 256 ^ k \<Longrightarrow> le_nat (le_bytes k n) = n"
proof (induction k arbitrary: n)
  case (Suc k)
  then have "n div 256 < 256 ^ k" by (simp add: less_mult_imp_div_less mult.commute)
  with Suc.IH show ?case by simp
qed simp

lemma take_app: "length xs = n \<Longrightarrow> take n (xs @ ys) = xs" "length xs = n \<Longrightarrow> drop n (xs @ ys) = ys"
  by simp_all

definition wf_header :: "rds_header \<Rightarrow> bool" where
  "wf_header h \<longleftrightarrow> std_errcode h < 2 ^ 16 \<and> drv_errcode h < 2 ^ 16 \<and> length (errstr h) < 2 ^ 16 \<and>
     affected_rows h < 2 ^ 64 \<and> insert_id h < 2 ^ 64 \<and> hdr_col_count h < 2 ^ 16"

definition header_bytes :: "rds_header \<Rightarrow> bytes" where
  "header_bytes h = [NUL] @ le_bytes 4 3 @ [NUL] @ le_bytes 2 (std_errcode h) @ le_bytes 2 (drv_errcode h)
     @ le_bytes 2 (length (errstr h)) @ errstr h @ le_bytes 8 (affected_rows h) @ le_bytes 8 (insert_id h)
     @ le_bytes 2 (hdr_col_count h)"

definition wf_column :: "rds_column \<Rightarrow> bool" where
  "wf_column col \<longleftrightarrow> std_type col < 2 ^ 16 \<and> drv_type col < 2 ^ 16 \<and> col_name col \<noteq> [] \<and> length (col_name col) < 2 ^ 16"

definition column_bytes :: "rds_column \<Rightarrow> bytes" where
  "column_bytes col = le_bytes 2 (std_type col) @ le_bytes 2 (drv_type col) @ le_bytes 2 (length (col_name col)) @ col_name col"

lemma drop_le: "drop n (le_bytes k v @ ys) = (if n < k then drop n (le_bytes k v) @ ys else drop (n - k) ys)"
  by simp

lemma take_le: "k \<le> n \<Longrightarrow> take n (le_bytes k v @ ys) = le_bytes k v @ take (n - k) ys"
  by simp

lemma parse_header_bytes:
  assumes "wf_header h"
  shows "ngx_http_rds_parse_header (header_bytes h @ d) = Some (h, d)"
proof -
  define b where "b = header_bytes h @ d"
  have pre: "b = [NUL] @ le_bytes 4 3 @ [NUL] @ drop 6 b" "length b \<ge> 30"
    by (simp_all add: b_def header_bytes_def)
  have d10: "drop 10 b = le_bytes 2 (length (errstr h)) @ drop 12 b"
    and d6: "drop 6 b = le_bytes 2 (std_errcode h) @ drop 8 b" and d8: "drop 8 b = le_bytes 2 (drv_errcode h) @ drop 10 b"
    and d12: "drop 12 b = errstr h @ le_bytes 8 (affected_rows h) @ le_bytes 8 (insert_id h) @ le_bytes 2 (hdr_col_count h) @ d"
    by (simp_all add: b_def header_bytes_def drop_le)
  have v: "take 4 (drop 1 b) = le_bytes 4 3" "b ! 0 = NUL" "b ! 5 = NUL"
    by (subst pre(1); simp add: nth_append)+
  have n: "le_nat (le_bytes 4 3) = 3" "le_nat (le_bytes 2 (std_errcode h)) = std_errcode h"
    "le_nat (le_bytes 2 (drv_errcode h)) = drv_errcode h" "le_nat (le_bytes 2 (length (errstr h))) = length (errstr h)"
    "le_nat (le_bytes 8 (affected_rows h)) = affected_rows h" "le_nat (le_bytes 8 (insert_id h)) = insert_id h"
    "le_nat (le_bytes 2 (hdr_col_count h)) = hdr_col_count h"
    using assms by (simp_all add: le_nat_bytes wf_header_def del: le_bytes.simps)
  have "ngx_http_rds_parse_header b = Some (h, d)"
    using pre(2) unfolding ngx_http_rds_parse_header_def Let_def v d6 d8 d10 d12
    by (simp add: n)
  then show ?thesis by (simp add: b_def)
qed

lemma parse_col_bytes:
  assumes "wf_column col" "jc_mem ctx = [] \<or> hd (jc_mem ctx)"
  shows "ngx_http_rds_parse_col (column_bytes col @ d) ctx = (Some (col, d), ctx\<lparr>jc_mem := tl (jc_mem ctx)\<rparr>)"
proof -
  define b where "b = column_bytes col @ d"
  have b: "b = le_bytes 2 (std_type col) @ drop 2 b" "drop 2 b = le_bytes 2 (drv_type col) @ drop 4 b"
    "drop 4 b = le_bytes 2 (length (col_name col)) @ drop 6 b" "drop 6 b = col_name col @ d" "length b \<ge> 6"
    by (simp_all add: b_def column_bytes_def drop_le)
  have n: "le_nat (le_bytes 2 (std_type col)) = std_type col" "le_nat (le_bytes 2 (drv_type col)) = drv_type col"
    "le_nat (le_bytes 2 (length (col_name col))) = length (col_name col)"
    using assms by (simp_all add: le_nat_bytes wf_column_def del: le_bytes.simps)
  have t: "take 2 b = le_bytes 2 (std_type col)" by (subst b(1)) simp
  show ?thesis
    using b(5) assms unfolding b_def [symmetric] ngx_http_rds_parse_col_def Let_def t b(2-4)
    by (simp add: n wf_column_def pool_alloc_eq)
qed

section \<open>The stream as a sequence of atoms\<close>

text \<open>
  The units of a stream that must each lie in one buffer. A field is its size with the first
  part of its data; the further parts are units of their own.
\<close>

datatype atom =
    A_Header rds_header
  | A_Col rds_column
  | A_Row
  | A_End
  | A_Null
  | A_Field nat bytes
  | A_More bytes

fun atom_bytes :: "atom \<Rightarrow> bytes" where
  "atom_bytes (A_Header h) = header_bytes h"
| "atom_bytes (A_Col col) = column_bytes col"
| "atom_bytes A_Row = [CHR 0x01]"
| "atom_bytes A_End = [NUL]"
| "atom_bytes A_Null = le_bytes 4 0xffffffff"
| "atom_bytes (A_Field tot data) = le_bytes 4 tot @ data"
| "atom_bytes (A_More data) = data"

text \<open>
  What the filter means to do with a unit: the control part of the context it leaves, and the
  bytes it adds to the response. \<open>None\<close> is a unit that is refused in this state.
\<close>

definition next_field :: "json_ctx \<Rightarrow> json_ctx" where
  "next_field a = (let a1 = a\<lparr>jc_cur_col := jc_cur_col a + 1\<rparr> in
     a1\<lparr>jc_state := if jc_cur_col a1 \<ge> jc_col_count a1 then state_expect_row else state_expect_field\<rparr>)"

definition open_text :: "rds_json_conf \<Rightarrow> json_req \<Rightarrow> rds_column list \<Rightarrow> bytes option" where
  "open_text conf r cols =
     map_option (\<lambda>props. (if rj_root conf \<noteq> [] then props_text conf props else []) @ ''[''
         @ (if rj_format conf = Some json_format_compact then ''['' @ cols_fill cols @ '']'' else []))
       (if rj_root conf \<noteq> [] then props_of conf r else Some [])"

definition close_text :: "rds_json_conf \<Rightarrow> bytes" where
  "close_text conf = (if rj_root conf \<noteq> [] then '']}'' else '']'')"

definition header_down :: "json_req \<Rightarrow> json_ctx \<Rightarrow> json_ctx" where
  "header_down r a = a\<lparr>jc_header_sent := True,
     jc_down := jc_down a @ (if jc_header_sent a then [] else [Header_Down (rq_status r)])\<rparr>"

fun atom_step :: "rds_json_conf \<Rightarrow> json_req \<Rightarrow> json_ctx \<Rightarrow> atom \<Rightarrow> (json_ctx \<times> bytes) option" where
  "atom_step conf r a (A_Header h) =
     (if jc_state a = state_expect_header \<and> wf_header h then
        if hdr_col_count h = 0 then
          map_option (\<lambda>props. ((header_down r a)\<lparr>jc_state := state_done, jc_seen_stream_end := True\<rparr>, header_fill conf props h))
            (props_of conf r)
        else Some ((header_down r a)\<lparr>jc_cols := [], jc_state := state_expect_col, jc_cur_col := 0,
                     jc_col_count := hdr_col_count h\<rparr>, [])
      else None)"
| "atom_step conf r a (A_Col col) =
     (if jc_state a = state_expect_col \<and> wf_column col \<and> jc_cur_col a = length (jc_cols a) \<and> jc_cur_col a < jc_col_count a then
        let a1 = a\<lparr>jc_cols := jc_cols a @ [col], jc_cur_col := jc_cur_col a + 1\<rparr> in
        if jc_cur_col a1 \<ge> jc_col_count a1
        then map_option (\<lambda>t. (a1\<lparr>jc_state := state_expect_row, jc_row := 0\<rparr>, t)) (open_text conf r (jc_cols a1))
        else Some (a1, [])
      else None)"
| "atom_step conf r a A_Row =
     (if jc_state a = state_expect_row
      then Some (a\<lparr>jc_row := jc_row a + 1, jc_cur_col := 0, jc_state := state_expect_field\<rparr>, []) else None)"
| "atom_step conf r a A_End =
     (if jc_state a = state_expect_row
      then Some (a\<lparr>jc_state := state_done, jc_seen_stream_end := True\<rparr>, close_text conf) else None)"
| "atom_step conf r a A_Null =
     (if jc_state a = state_expect_field then
        let a1 = a\<lparr>jc_field_data_rest := 0\<rparr> in map_option (\<lambda>t. (next_field a1, t)) (field_text conf a1 [] True)
      else None)"
| "atom_step conf r a (A_Field tot data) =
     (if jc_state a = state_expect_field \<and> tot < 0xffffffff \<and> length data \<le> tot then
        let a1 = a\<lparr>jc_field_data_rest := tot - length data\<rparr> in
        map_option (\<lambda>t. (if length data < tot then a1\<lparr>jc_state := state_expect_more_field_data\<rparr> else next_field a1, t))
          (field_text conf a1 data False)
      else None)"
| "atom_step conf r a (A_More data) =
     (if jc_state a = state_expect_more_field_data \<and> length data \<le> jc_field_data_rest a then
        let a1 = a\<lparr>jc_field_data_rest := jc_field_data_rest a - length data\<rparr> in
        map_option (\<lambda>t. (if jc_field_data_rest a1 \<noteq> 0 then a1 else next_field a1, t)) (more_text conf a1 data)
      else None)"

section \<open>The filter follows the atoms\<close>

text \<open>
  The filter's context \<open>c\<close> agrees with the intended control \<open>a\<close>, its buffers are in order, and the
  response so far is \<open>s\<close>.
\<close>

definition json_sim :: "rds_json_conf \<Rightarrow> json_ctx \<Rightarrow> bytes \<Rightarrow> json_ctx \<Rightarrow> bool" where
  "json_sim conf a s c \<longleftrightarrow> json_inv conf c \<and> mem_ok c \<and> json_ctl c = json_ctl a \<and> json_stream c = s"

lemma emitted_sim:
  assumes "json_emitted conf e t c res" "json_sim conf a s c"
  shows "\<exists>c'. res = (NGX_OK, c') \<and> json_sim conf (a\<lparr>jc_seen_stream_end := jc_seen_stream_end a \<or> e\<rparr>) (s @ t) c'"
  using assms by (cases res) (auto simp: json_emitted_def json_sim_def json_ctl_def)

lemma emitted_sim_plain:
  assumes "json_emitted conf False t c res" "json_sim conf a s c"
  shows "\<exists>c'. res = (NGX_OK, c') \<and> json_sim conf a (s @ t) c'"
  using emitted_sim [OF assms] by simp

lemma text_same:
  assumes "jc_cols c = jc_cols a" "jc_cur_col c = jc_cur_col a" "jc_field_data_rest c = jc_field_data_rest a"
    "jc_col_count c = jc_col_count a" "jc_row c = jc_row a"
  shows "field_text conf c data n = field_text conf a data n" "more_text conf c data = more_text conf a data"
proof -
  have same: "row_close conf c = row_close conf a" "field_prefix conf c = field_prefix conf a"
    using assms by (simp_all add: row_close_def field_prefix_def fun_eq_iff)
  show "field_text conf c data n = field_text conf a data n" "more_text conf c data = more_text conf a data"
    unfolding field_text_def more_text_def same assms by (rule refl)+
qed

lemma text_cong:
  assumes "json_ctl c = json_ctl a"
  shows "field_text conf c data n = field_text conf a data n" "more_text conf c data = more_text conf a data"
  using assms by (intro text_same; simp add: json_ctl_def)+

lemmas sim_defs = json_sim_def json_inv_def json_room_def mem_ok_def json_ctl_def json_stream_def

lemma sim_updates:
  assumes "json_sim conf a s c"
  shows "json_sim conf (a\<lparr>jc_state := x\<rparr>) s (c\<lparr>jc_state := x\<rparr>)"
    and "json_sim conf (a\<lparr>jc_cur_col := k\<rparr>) s (c\<lparr>jc_cur_col := k\<rparr>)"
    and "json_sim conf (a\<lparr>jc_row := k\<rparr>) s (c\<lparr>jc_row := k\<rparr>)"
    and "json_sim conf (a\<lparr>jc_field_data_rest := k\<rparr>) s (c\<lparr>jc_field_data_rest := k\<rparr>)"
    and "json_sim conf (a\<lparr>jc_col_count := k\<rparr>) s (c\<lparr>jc_col_count := k\<rparr>)"
    and "json_sim conf (a\<lparr>jc_cols := cols\<rparr>) s (c\<lparr>jc_cols := cols\<rparr>)"
    and "json_sim conf (header_down r a) s (header_down r c)"
    and "json_sim conf a s (c\<lparr>jc_mem := tl (jc_mem c)\<rparr>)"
  using assms by (auto simp: sim_defs header_down_def dest: in_set_tl)

lemma sim_ctl:
  assumes "json_sim conf a s c"
  shows "jc_state c = jc_state a" "jc_cur_col c = jc_cur_col a" "jc_row c = jc_row a" "jc_col_count c = jc_col_count a"
    "jc_cols c = jc_cols a" "jc_field_data_rest c = jc_field_data_rest a" "jc_header_sent c = jc_header_sent a"
    "jc_seen_stream_end c = jc_seen_stream_end a" "jc_down c = jc_down a" "jc_attached c = jc_attached a"
  using assms by (simp_all add: json_sim_def json_ctl_def)

lemma sim_cong: "json_sim conf a s c \<Longrightarrow> json_ctl a = json_ctl a' \<Longrightarrow> json_sim conf a' s c"
  by (simp add: json_sim_def)

lemma sim_next_field: "json_sim conf a s c \<Longrightarrow> json_sim conf (next_field a) s (next_field c)"
  by (simp add: next_field_def sim_updates sim_ctl)

lemma sim_if:
  "(P \<Longrightarrow> json_sim conf a s c) \<Longrightarrow> (\<not> P \<Longrightarrow> json_sim conf a' s c') \<Longrightarrow>
   json_sim conf (if P then a else a') s (if P then c else c')"
  by simp

lemma field_done_next: "field_done inp c = Call (jc_state (next_field c)) inp (next_field c)"
  by (simp add: field_done_def next_field_def Let_def)

lemma run_call: "rds_dispatch conf r s inp c = Call s' inp' c' \<Longrightarrow> rds_run conf r s inp c = rds_run conf r s' inp' c'"
  by (simp add: rds_run.simps [of conf r s])

lemma run_ret: "rds_dispatch conf r s inp c = Ret rc c' \<Longrightarrow> rds_run conf r s inp c = (rc, c')"
  by (simp add: rds_run.simps [of conf r s])

lemma run_done: "rds_run conf r state_done inp c = (NGX_OK, c)"
  by (simp add: rds_run.simps rds_dispatch_def)

lemma next_buf_memory: "rb_memory b \<Longrightarrow> next_buf (b # rest) = Buf b rest"
  by (simp add: next_buf_def)

lemma send_header_down:
  assumes "\<not> rc_failed (rq_next_header r)"
  shows "\<exists>rc. send_postponed_header r c = (rc, header_down r c) \<and> \<not> rc_failed rc"
  using assms by (cases c) (simp add: send_postponed_header_def header_down_def rc_failed_def)

lemma begin_rows_sim:
  assumes sim: "json_sim conf a s c" and cols: "jc_col_count a = length (jc_cols a)" and t: "open_text conf r (jc_cols a) = Some t"
  shows "\<exists>c'. begin_rows conf r c = (NGX_OK, c') \<and> json_sim conf a (s @ t) c'"
proof -
  define t1 where "t1 = (if rj_root conf \<noteq> [] then props_text conf (the (props_of conf r)) else [])"
  define t3 where "t3 = (if rj_format conf = Some json_format_compact then ''['' @ cols_fill (jc_cols a) @ '']'' else [])"
  have t123: "t = t1 @ ''['' @ t3" and props: "rj_root conf \<noteq> [] \<Longrightarrow> props_of conf r = Some (the (props_of conf r))"
    using t by (auto simp: open_text_def t1_def t3_def split: if_splits)
  obtain c1 where c1: "(if rj_root conf \<noteq> [] then ngx_http_rds_json_output_props conf r c else (NGX_OK, c)) = (NGX_OK, c1)"
    "json_sim conf a (s @ t1) c1"
  proof (cases "rj_root conf = []")
    case False
    have "json_inv conf c" using sim by (simp add: json_sim_def)
    from emitted_sim_plain [OF output_props_emitted [OF this props [OF False]] sim] False that
    show ?thesis by (auto simp: t1_def)
  qed (use sim that in \<open>simp add: t1_def\<close>)
  have "json_inv conf c1" using c1 by (simp add: json_sim_def)
  then obtain c2 where c2: "ngx_http_rds_json_output_literal conf r c1 ''['' False = (NGX_OK, c2)"
    "json_sim conf a ((s @ t1) @ ''['') c2"
    using emitted_sim_plain [OF output_literal_emitted c1(2)] by blast
  have inv2: "json_inv conf c2" "jc_col_count c2 = length (jc_cols c2)" "jc_cols c2 = jc_cols a"
    using c2 cols by (simp_all add: json_sim_def sim_ctl [OF c2(2)])
  obtain c3 where c3: "(if rj_format conf = Some json_format_compact then ngx_http_rds_json_output_cols conf c2 else (NGX_OK, c2)) = (NGX_OK, c3)"
    "json_sim conf a (((s @ t1) @ ''['') @ t3) c3"
  proof (cases "rj_format conf = Some json_format_compact")
    case True
    from emitted_sim_plain [OF output_cols_emitted [OF inv2(1,2)] c2(2)] True that inv2(3)
    show ?thesis by (auto simp: t3_def)
  qed (use c2 that in \<open>simp add: t3_def\<close>)
  have "begin_rows conf r c = (NGX_OK, c3)"
    using c1(1) c2(1) c3(1) by (auto simp: begin_rows_def)
  with c3(2) show ?thesis by (simp add: t123)
qed

text \<open>
  The claim for one unit: reading it from the head of a buffer is the intended step, and the run
  goes on behind it.
\<close>

definition reads_atom :: "rds_json_conf \<Rightarrow> json_req \<Rightarrow> json_ctx \<Rightarrow> bytes \<Rightarrow> json_ctx \<Rightarrow> atom \<Rightarrow> json_ctx \<Rightarrow> bytes \<Rightarrow> bool" where
  "reads_atom conf r a s c x a' t \<longleftrightarrow>
     (\<forall>b d rest. rb_memory b \<longrightarrow> rb_data b = atom_bytes x @ d \<longrightarrow> length (rb_data b) < 2 ^ 32 \<longrightarrow>
        (d \<noteq> [] \<longrightarrow> jc_state a' \<noteq> state_expect_more_field_data \<and> jc_state a' \<noteq> state_done) \<longrightarrow>
        (\<exists>c'. json_sim conf a' (s @ t) c' \<and>
           rds_run conf r (jc_state a) (b # rest) c = rds_run conf r (jc_state a') (rest_of b d rest) c'))"

lemma reads_header:
  assumes sim: "json_sim conf a s c" and ok: "\<not> rc_failed (rq_next_header r)"
    and step: "atom_step conf r a (A_Header h) = Some (a', t)"
  shows "reads_atom conf r a s c (A_Header h) a' t"
  unfolding reads_atom_def
proof (intro allI impI)
  fix b :: rds_buf and d rest
  assume b: "rb_memory b" "rb_data b = atom_bytes (A_Header h) @ d"
    and d: "d \<noteq> [] \<longrightarrow> jc_state a' \<noteq> state_expect_more_field_data \<and> jc_state a' \<noteq> state_done"
  have st: "jc_state a = state_expect_header" "wf_header h" using step by (auto split: if_splits)
  have hdr: "ngx_http_rds_parse_header (rb_data b) = Some (h, d)" using b st by (simp add: parse_header_bytes)
  show "\<exists>c'. json_sim conf a' (s @ t) c' \<and> rds_run conf r (jc_state a) (b # rest) c = rds_run conf r (jc_state a') (rest_of b d rest) c'"
  proof (cases "hdr_col_count h = 0")
    case True
    with step st obtain props where props: "props_of conf r = Some props" "t = header_fill conf props h"
      and a': "a' = (header_down r a)\<lparr>jc_state := state_done, jc_seen_stream_end := True\<rparr>" by auto
    let ?c = "header_down r (c\<lparr>jc_state := state_done\<rparr>)"
    obtain rc where rc: "send_postponed_header r (c\<lparr>jc_state := state_done\<rparr>) = (rc, ?c)" "\<not> rc_failed rc"
      using send_header_down [OF ok] by blast
    have sim1: "json_sim conf (header_down r (a\<lparr>jc_state := state_done\<rparr>)) s ?c"
      by (intro sim_updates sim)
    then have inv: "json_inv conf ?c" by (simp add: json_sim_def)
    have hok: "header_ok h" using st by (simp add: header_ok_def wf_header_def)
    obtain c' where c': "ngx_http_rds_json_output_header conf r ?c h = (NGX_OK, c')"
      and sim2: "json_sim conf ((header_down r (a\<lparr>jc_state := state_done\<rparr>))\<lparr>jc_seen_stream_end := True\<rparr>) (s @ t) c'"
      using emitted_sim [OF output_header_emitted [OF inv props(1) hok] sim1] unfolding props(2) by auto
    have sim': "json_sim conf a' (s @ t) c'"
      by (rule sim_cong [OF sim2]) (simp add: a' json_ctl_def header_down_def)
    have "rds_run conf r (jc_state a) (b # rest) c = (NGX_OK, c')"
      using True hdr rc c' a' d b st
      by (intro run_ret) (simp add: rds_dispatch_def ngx_http_rds_json_process_header_def next_buf_memory)
    with sim' a' show ?thesis by (auto simp: run_done)
  next
    case False
    let ?u = "\<lambda>x. x\<lparr>jc_cols := [], jc_state := state_expect_col, jc_cur_col := 0, jc_col_count := hdr_col_count h\<rparr>"
    have a': "a' = ?u (header_down r a)" "t = []" using step st False by auto
    let ?c = "header_down r (?u (c\<lparr>jc_mem := tl (jc_mem c)\<rparr>))"
    obtain rc where rc: "send_postponed_header r (?u (c\<lparr>jc_mem := tl (jc_mem c)\<rparr>)) = (rc, ?c)" "\<not> rc_failed rc"
      using send_header_down [OF ok] by blast
    have sim1: "json_sim conf (header_down r (?u a)) s ?c" by (intro sim_updates sim)
    have "json_sim conf a' s ?c" by (rule sim_cong [OF sim1]) (simp add: a' json_ctl_def header_down_def)
    then have "json_sim conf a' (s @ t) ?c" by (simp add: a')
    moreover have "jc_mem c = [] \<or> hd (jc_mem c)" using sim mem_ok_alloc by (simp add: json_sim_def)
    then have "rds_run conf r (jc_state a) (b # rest) c = rds_run conf r (jc_state a') (rest_of b d rest) ?c"
      using False hdr rc b st a'
      by (intro run_call) (simp add: rds_dispatch_def ngx_http_rds_json_process_header_def next_buf_memory pool_alloc_eq header_down_def)
    ultimately show ?thesis by blast
  qed
qed

lemma reads_col:
  assumes sim: "json_sim conf a s c" and step: "atom_step conf r a (A_Col col) = Some (a', t)"
  shows "reads_atom conf r a s c (A_Col col) a' t"
  unfolding reads_atom_def
proof (intro allI impI)
  fix b :: rds_buf and d rest
  assume b: "rb_memory b" "rb_data b = atom_bytes (A_Col col) @ d"
  have st: "jc_state a = state_expect_col" "wf_column col" "jc_cur_col a = length (jc_cols a)" "jc_cur_col a < jc_col_count a"
    using step by (auto split: if_splits)
  let ?u = "\<lambda>x. x\<lparr>jc_cols := jc_cols a @ [col], jc_cur_col := jc_cur_col a + 1\<rparr>"
  let ?c = "?u (c\<lparr>jc_mem := tl (jc_mem c)\<rparr>)"
  have sim1: "json_sim conf (?u a) s ?c" by (intro sim_updates sim)
  have "jc_mem c = [] \<or> hd (jc_mem c)" using sim mem_ok_alloc by (simp add: json_sim_def)
  then have pc: "ngx_http_rds_parse_col (rb_data b) c = (Some (col, d), c\<lparr>jc_mem := tl (jc_mem c)\<rparr>)"
    using b(2) st(2) by (simp add: parse_col_bytes)
  show "\<exists>c'. json_sim conf a' (s @ t) c' \<and> rds_run conf r (jc_state a) (b # rest) c = rds_run conf r (jc_state a') (rest_of b d rest) c'"
  proof (cases "jc_cur_col a + 1 \<ge> jc_col_count a")
    case True
    let ?v = "\<lambda>x. (?u x)\<lparr>jc_state := state_expect_row, jc_row := 0\<rparr>"
    have a': "a' = ?v a" "open_text conf r (jc_cols a') = Some t"
      using step st True by (auto simp: Let_def split: if_splits)
    have sim2: "json_sim conf a' s (?c\<lparr>jc_state := state_expect_row, jc_row := 0\<rparr>)"
      unfolding a' by (intro sim_updates sim1 [unfolded a'])
    have cnt: "jc_col_count a' = length (jc_cols a')" using True st by (simp add: a')
    obtain c' where c': "begin_rows conf r (?c\<lparr>jc_state := state_expect_row, jc_row := 0\<rparr>) = (NGX_OK, c')"
        "json_sim conf a' (s @ t) c'"
      using begin_rows_sim [OF sim2 cnt a'(2)] by blast
    have "rds_run conf r (jc_state a) (b # rest) c = rds_run conf r (jc_state a') (rest_of b d rest) c'"
      using True st pc b c'(1) a'(1)
      by (intro run_call)
        (simp add: rds_dispatch_def ngx_http_rds_json_process_col_def next_buf_memory Let_def sim_ctl [OF sim] rc_failed_def)
    with c'(2) show ?thesis by blast
  next
    case False
    have a': "a' = ?u a" "t = []" using step st False by (auto simp: Let_def split: if_splits)
    have "rds_run conf r (jc_state a) (b # rest) c = rds_run conf r (jc_state a') (rest_of b d rest) ?c"
      using False st pc b a'(1)
      by (intro run_call)
        (simp add: rds_dispatch_def ngx_http_rds_json_process_col_def next_buf_memory Let_def sim_ctl [OF sim])
    with sim1 a' show ?thesis by auto
  qed
qed

lemma reads_row:
  assumes sim: "json_sim conf a s c" and step: "atom_step conf r a A_Row = Some (a', t)"
  shows "reads_atom conf r a s c A_Row a' t"
  unfolding reads_atom_def
proof (intro allI impI)
  fix b :: rds_buf and d rest
  assume b: "rb_memory b" "rb_data b = atom_bytes A_Row @ d"
  have a': "jc_state a = state_expect_row" "a' = a\<lparr>jc_row := jc_row a + 1, jc_cur_col := 0, jc_state := state_expect_field\<rparr>" "t = []"
    using step by (auto split: if_splits)
  let ?c = "c\<lparr>jc_row := jc_row a + 1, jc_cur_col := 0, jc_state := state_expect_field\<rparr>"
  have "json_sim conf a' s ?c" unfolding a' by (intro sim_updates sim)
  moreover have "rds_run conf r (jc_state a) (b # rest) c = rds_run conf r (jc_state a') (rest_of b d rest) ?c"
    using a' b
    by (intro run_call) (simp add: rds_dispatch_def ngx_http_rds_json_process_row_def next_buf_memory sim_ctl [OF sim])
  ultimately show "\<exists>c'. json_sim conf a' (s @ t) c' \<and>
      rds_run conf r (jc_state a) (b # rest) c = rds_run conf r (jc_state a') (rest_of b d rest) c'"
    using a' by auto
qed

lemma reads_end:
  assumes sim: "json_sim conf a s c" and step: "atom_step conf r a A_End = Some (a', t)"
  shows "reads_atom conf r a s c A_End a' t"
  unfolding reads_atom_def
proof (intro allI impI)
  fix b :: rds_buf and d rest
  assume b: "rb_memory b" "rb_data b = atom_bytes A_End @ d"
    and d: "d \<noteq> [] \<longrightarrow> jc_state a' \<noteq> state_expect_more_field_data \<and> jc_state a' \<noteq> state_done"
  have a': "jc_state a = state_expect_row" "a' = a\<lparr>jc_state := state_done, jc_seen_stream_end := True\<rparr>" "t = close_text conf"
    using step by (auto split: if_splits)
  let ?c = "c\<lparr>jc_state := state_done\<rparr>"
  have sim1: "json_sim conf (a\<lparr>jc_state := state_done\<rparr>) s ?c" by (intro sim_updates sim)
  then have "json_inv conf ?c" by (simp add: json_sim_def)
  then obtain c' where c': "ngx_http_rds_json_output_literal conf r ?c (close_text conf) True = (NGX_OK, c')"
      "json_sim conf ((a\<lparr>jc_state := state_done\<rparr>)\<lparr>jc_seen_stream_end := True\<rparr>) (s @ close_text conf) c'"
    using emitted_sim [OF output_literal_emitted [where l = True] sim1] by fastforce
  have "rds_run conf r (jc_state a) (b # rest) c = (NGX_OK, c')"
    using a' b d c'(1)
    by (intro run_ret) (simp add: rds_dispatch_def ngx_http_rds_json_process_row_def next_buf_memory close_text_def Let_def)
  with c'(2) a' show "\<exists>c'. json_sim conf a' (s @ t) c' \<and>
      rds_run conf r (jc_state a) (b # rest) c = rds_run conf r (jc_state a') (rest_of b d rest) c'"
    by (auto simp: run_done)
qed

text \<open>A whole field or the first part of one: \<open>n\<close> is whether it is null.\<close>

lemma field_sim:
  assumes sim: "json_sim conf a s c" and t: "field_text conf a data n = Some t"
  shows "\<exists>c'. ngx_http_rds_json_output_field conf c data n = (NGX_OK, c') \<and> json_sim conf a (s @ t) c'"
proof -
  have "json_inv conf c" "field_text conf c data n = Some t"
    using sim t text_cong(1) [of c a conf data n] by (simp_all add: json_sim_def)
  then have "json_emitted conf False t c (ngx_http_rds_json_output_field conf c data n)"
    using output_field_emitted [of conf c data n] by simp
  from emitted_sim_plain [OF this sim] show ?thesis .
qed

lemma more_sim:
  assumes sim: "json_sim conf a s c" and t: "more_text conf a data = Some t"
  shows "\<exists>c'. ngx_http_rds_json_output_more_field_data conf c data = (NGX_OK, c') \<and> json_sim conf a (s @ t) c'"
proof -
  have "json_inv conf c" "more_text conf c data = Some t"
    using sim t text_cong(2) [of c a conf data] by (simp_all add: json_sim_def)
  then have "json_emitted conf False t c (ngx_http_rds_json_output_more_field_data conf c data)"
    using output_more_emitted [of conf c data] by simp
  from emitted_sim_plain [OF this sim] show ?thesis .
qed

lemma reads_null:
  assumes sim: "json_sim conf a s c" and step: "atom_step conf r a A_Null = Some (a', t)"
  shows "reads_atom conf r a s c A_Null a' t"
  unfolding reads_atom_def
proof (intro allI impI)
  fix b :: rds_buf and d rest
  assume b: "rb_memory b" "rb_data b = atom_bytes A_Null @ d"
  let ?a = "a\<lparr>jc_field_data_rest := 0\<rparr>"
  have a': "jc_state a = state_expect_field" "a' = next_field ?a" "field_text conf ?a [] True = Some t"
    using step by (auto simp: Let_def split: if_splits)
  have sim1: "json_sim conf ?a s (c\<lparr>jc_field_data_rest := 0\<rparr>)" by (intro sim_updates sim)
  obtain c' where c': "ngx_http_rds_json_output_field conf (c\<lparr>jc_field_data_rest := 0\<rparr>) [] True = (NGX_OK, c')"
      "json_sim conf ?a (s @ t) c'"
    using field_sim [OF sim1 a'(3)] by blast
  have sz: "take 4 (rb_data b) = le_bytes 4 0xffffffff" "drop 4 (rb_data b) = d" "4 \<le> length (rb_data b)"
    "le_nat (le_bytes 4 0xffffffff) = 0xffffffff"
    using b(2) by (simp_all add: le_nat_bytes del: le_bytes.simps)
  have "rds_run conf r (jc_state a) (b # rest) c = rds_run conf r (jc_state (next_field c')) (rest_of b d rest) (next_field c')"
    using a'(1) b(1) c'(1) sz
    by (intro run_call)
      (simp add: rds_dispatch_def ngx_http_rds_json_process_field_def next_buf_memory Let_def rc_failed_def field_done_next)
  moreover have "json_sim conf a' (s @ t) (next_field c')" unfolding a'(2) by (rule sim_next_field [OF c'(2)])
  ultimately show "\<exists>c'. json_sim conf a' (s @ t) c' \<and>
      rds_run conf r (jc_state a) (b # rest) c = rds_run conf r (jc_state a') (rest_of b d rest) c'"
    using sim_ctl(1) by metis
qed

lemma reads_field:
  assumes sim: "json_sim conf a s c" and step: "atom_step conf r a (A_Field tot data) = Some (a', t)"
  shows "reads_atom conf r a s c (A_Field tot data) a' t"
  unfolding reads_atom_def
proof (intro allI impI)
  fix b :: rds_buf and d rest
  assume b: "rb_memory b" "rb_data b = atom_bytes (A_Field tot data) @ d" "length (rb_data b) < 2 ^ 32"
    and d: "d \<noteq> [] \<longrightarrow> jc_state a' \<noteq> state_expect_more_field_data \<and> jc_state a' \<noteq> state_done"
  let ?a = "a\<lparr>jc_field_data_rest := tot - length data\<rparr>"
  let ?c = "c\<lparr>jc_field_data_rest := tot - length data\<rparr>"
  have st: "jc_state a = state_expect_field" "tot < 0xffffffff" "length data \<le> tot" "field_text conf ?a data False = Some t"
    and a': "a' = (if length data < tot then ?a\<lparr>jc_state := state_expect_more_field_data\<rparr> else next_field ?a)"
    using step by (auto simp: Let_def split: if_splits)
  have sim1: "json_sim conf ?a s ?c" by (intro sim_updates sim)
  obtain c1 where c1: "ngx_http_rds_json_output_field conf ?c data False = (NGX_OK, c1)" "json_sim conf ?a (s @ t) c1"
    using field_sim [OF sim1 st(4)] by blast
  have sz: "take 4 (rb_data b) = le_bytes 4 tot" "drop 4 (rb_data b) = data @ d" "4 \<le> length (rb_data b)"
    "le_nat (le_bytes 4 tot) = tot"
    using b(2) st(2) by (simp_all add: le_nat_bytes del: le_bytes.simps)
  have "length data < tot \<Longrightarrow> d = []" using d a' by auto
  then have len: "min (length (data @ d) mod 2 ^ 32) tot = length data"
    using b st(3) by (cases "length data < tot") auto
  have field: "ngx_http_rds_json_process_field conf (b # rest) c =
      (if length data < tot then Call state_expect_more_field_data (rest_of b d rest) (c1\<lparr>jc_state := state_expect_more_field_data\<rparr>)
       else field_done (rest_of b d rest) c1)"
    using b(1) c1(1) sz st(2) len
    by (simp add: ngx_http_rds_json_process_field_def next_buf_memory Let_def rc_failed_def)
  let ?c' = "if length data < tot then c1\<lparr>jc_state := state_expect_more_field_data\<rparr> else next_field c1"
  have sim': "json_sim conf a' (s @ t) ?c'" unfolding a'
    by (rule sim_if) (rule sim_updates(1) [OF c1(2)], rule sim_next_field [OF c1(2)])
  have "rds_run conf r (jc_state a) (b # rest) c = rds_run conf r (jc_state ?c') (rest_of b d rest) ?c'"
    using st(1) field by (intro run_call) (simp add: rds_dispatch_def field_done_next)
  with sim' sim_ctl(1) [OF sim'] show "\<exists>c'. json_sim conf a' (s @ t) c' \<and>
      rds_run conf r (jc_state a) (b # rest) c = rds_run conf r (jc_state a') (rest_of b d rest) c'"
    by metis
qed

lemma reads_more:
  assumes sim: "json_sim conf a s c" and step: "atom_step conf r a (A_More data) = Some (a', t)"
  shows "reads_atom conf r a s c (A_More data) a' t"
  unfolding reads_atom_def
proof (intro allI impI)
  fix b :: rds_buf and d rest
  assume b: "rb_memory b" "rb_data b = atom_bytes (A_More data) @ d"
    and d: "d \<noteq> [] \<longrightarrow> jc_state a' \<noteq> state_expect_more_field_data \<and> jc_state a' \<noteq> state_done"
  define k where "k = jc_field_data_rest a - length data"
  let ?a = "a\<lparr>jc_field_data_rest := k\<rparr>"
  let ?c = "c\<lparr>jc_field_data_rest := k\<rparr>"
  have st: "jc_state a = state_expect_more_field_data" "length data \<le> jc_field_data_rest a" "more_text conf ?a data = Some t"
    and a': "a' = (if k \<noteq> 0 then ?a else next_field ?a)"
    using step by (auto simp: Let_def k_def split: if_splits)
  have sim1: "json_sim conf ?a s ?c" by (intro sim_updates sim)
  obtain c1 where c1: "ngx_http_rds_json_output_more_field_data conf ?c data = (NGX_OK, c1)" "json_sim conf ?a (s @ t) c1"
    using more_sim [OF sim1 st(3)] by blast
  have "k \<noteq> 0 \<Longrightarrow> d = []" using d a' st(1) by (auto split: if_splits)
  then have len: "min (length (data @ d)) (jc_field_data_rest a) = length data"
    using st(2) by (cases "k = 0") (auto simp: k_def)
  have more: "ngx_http_rds_json_process_more_field_data conf (b # rest) c =
      (if k \<noteq> 0 then Call state_expect_more_field_data (rest_of b d rest) c1 else field_done (rest_of b d rest) c1)"
    using b c1(1) len
    by (simp add: ngx_http_rds_json_process_more_field_data_def Let_def rc_failed_def sim_ctl [OF sim] k_def)
  let ?c' = "if k \<noteq> 0 then c1 else next_field c1"
  have sim': "json_sim conf a' (s @ t) ?c'" unfolding a'
    by (rule sim_if) (rule c1(2), rule sim_next_field [OF c1(2)])
  have "jc_state c1 = state_expect_more_field_data" using sim_ctl(1) [OF c1(2)] st(1) by simp
  then have "rds_run conf r (jc_state a) (b # rest) c = rds_run conf r (jc_state ?c') (rest_of b d rest) ?c'"
    using st(1) more by (intro run_call) (simp add: rds_dispatch_def field_done_next)
  with sim' sim_ctl(1) [OF sim'] show "\<exists>c'. json_sim conf a' (s @ t) c' \<and>
      rds_run conf r (jc_state a) (b # rest) c = rds_run conf r (jc_state a') (rest_of b d rest) c'"
    by metis
qed

lemma reads_atom:
  assumes "json_sim conf a s c" "\<not> rc_failed (rq_next_header r)" "atom_step conf r a x = Some (a', t)"
  shows "reads_atom conf r a s c x a' t"
  using assms
  by (cases x) (blast intro: reads_header reads_col reads_row reads_end reads_null reads_field reads_more)+

section \<open>Buffers and calls\<close>

fun atoms_run :: "rds_json_conf \<Rightarrow> json_req \<Rightarrow> json_ctx \<Rightarrow> atom list \<Rightarrow> (json_ctx \<times> bytes) option" where
  "atoms_run conf r a [] = Some (a, [])"
| "atoms_run conf r a (x # xs) =
     (case atom_step conf r a x of
        None \<Rightarrow> None
      | Some (a1, t) \<Rightarrow> map_option (apsnd ((@) t)) (atoms_run conf r a1 xs))"

lemma atoms_run_append:
  "atoms_run conf r a (xs @ ys) =
     (case atoms_run conf r a xs of
        None \<Rightarrow> None
      | Some (a1, t) \<Rightarrow> map_option (apsnd ((@) t)) (atoms_run conf r a1 ys))"
  by (induction xs arbitrary: a)
    (auto simp: option.map_comp comp_def apsnd_def map_prod_def case_prod_unfold option.map_ident
      split: option.splits)

text \<open>
  A buffer holds whole units. A further part of a field can only be at its head: parts of one
  field in one buffer are one part.
\<close>

definition rds_mem_buf :: "bytes \<Rightarrow> rds_buf" where
  "rds_mem_buf d = \<lparr>rb_data = d, rb_memory = True, rb_special = False\<rparr>"

definition atoms_bytes :: "atom list \<Rightarrow> bytes" where
  "atoms_bytes g = concat (map atom_bytes g)"

definition wf_buf :: "atom list \<Rightarrow> bool" where
  "wf_buf g \<longleftrightarrow> g \<noteq> [] \<and> list_all (\<lambda>x. atom_bytes x \<noteq> []) g \<and> (\<forall>d. A_More d \<notin> set (tl g)) \<and> length (atoms_bytes g) < 2 ^ 32"

lemma atom_step_state:
  "atom_step conf r a x = Some res \<Longrightarrow>
     jc_state a \<noteq> state_done \<and> (jc_state a = state_expect_more_field_data \<longrightarrow> (\<exists>d. x = A_More d))"
  by (cases x) (auto split: if_splits)

lemma reads_buf:
  assumes "json_sim conf a s c" "\<not> rc_failed (rq_next_header r)" "atoms_run conf r a g = Some (a', t)"
    and "wf_buf g" "rb_memory b" "rb_data b = atoms_bytes g"
  shows "\<exists>c'. json_sim conf a' (s @ t) c' \<and> rds_run conf r (jc_state a) (b # rest) c = rds_run conf r (jc_state a') rest c'"
  using assms
proof (induction g arbitrary: a s c b t)
  case Nil
  then show ?case by (simp add: wf_buf_def)
next
  case (Cons x xs)
  obtain a1 t1 t2 where step: "atom_step conf r a x = Some (a1, t1)" and rest: "atoms_run conf r a1 xs = Some (a', t2)"
    and t: "t = t1 @ t2"
    using Cons.prems(3) by (auto split: option.splits)
  have reads: "reads_atom conf r a s c x a1 t1" by (rule reads_atom [OF Cons.prems(1,2) step])
  have b: "rb_data b = atom_bytes x @ atoms_bytes xs" "length (rb_data b) < 2 ^ 32"
    using Cons.prems(4,6) by (auto simp: atoms_bytes_def wf_buf_def)
  show ?case
  proof (cases xs)
    case Nil
    then have "atoms_bytes xs = []" by (simp add: atoms_bytes_def)
    with reads b Cons.prems(5) rest t Nil show ?thesis
      unfolding reads_atom_def by (fastforce simp: rest_of_def)
  next
    case (Cons y ys)
    have y: "atom_bytes y \<noteq> []" "\<forall>d. y \<noteq> A_More d" using Cons.prems(4) Cons by (auto simp: wf_buf_def)
    then have ne: "atoms_bytes xs \<noteq> []" using Cons by (simp add: atoms_bytes_def)
    obtain res where "atom_step conf r a1 y = Some res" using rest Cons by (auto split: option.splits)
    with atom_step_state y have st: "jc_state a1 \<noteq> state_expect_more_field_data \<and> jc_state a1 \<noteq> state_done" by blast
    obtain c1 where c1: "json_sim conf a1 (s @ t1) c1"
      "rds_run conf r (jc_state a) (b # rest) c = rds_run conf r (jc_state a1) (rest_of b (atoms_bytes xs) rest) c1"
      using reads b Cons.prems(5) st unfolding reads_atom_def by blast
    have wf: "wf_buf xs" using Cons.prems(4) Cons by (auto simp: wf_buf_def atoms_bytes_def)
    obtain c' where c': "json_sim conf a' ((s @ t1) @ t2) c'"
      "rds_run conf r (jc_state a1) (b\<lparr>rb_data := atoms_bytes xs\<rparr> # rest) c1 = rds_run conf r (jc_state a') rest c'"
      using Cons.IH [OF c1(1) Cons.prems(2) rest wf, of "b\<lparr>rb_data := atoms_bytes xs\<rparr>"] Cons.prems(5) by auto
    then show ?thesis using c1(2) ne t by (auto simp: rest_of_def)
  qed
qed

lemma run_nil: "rds_run conf r s [] c = (NGX_OK, c)"
  by (cases s)
    (simp_all add: run_ret rds_dispatch_def ngx_http_rds_json_process_header_def ngx_http_rds_json_process_col_def
      ngx_http_rds_json_process_row_def ngx_http_rds_json_process_field_def
      ngx_http_rds_json_process_more_field_data_def next_buf_def)

definition chain_of :: "atom list list \<Rightarrow> rds_buf list" where
  "chain_of gs = map (\<lambda>g. rds_mem_buf (atoms_bytes g)) gs"

lemma reads_chain:
  assumes "json_sim conf a s c" "\<not> rc_failed (rq_next_header r)" "atoms_run conf r a (concat gs) = Some (a', t)"
    and "list_all wf_buf gs"
  shows "\<exists>c'. json_sim conf a' (s @ t) c' \<and> rds_run conf r (jc_state a) (chain_of gs) c = (NGX_OK, c')"
  using assms
proof (induction gs arbitrary: a s c t)
  case Nil
  then show ?case by (auto simp: chain_of_def run_nil)
next
  case (Cons g gs)
  obtain a1 t1 t2 where run: "atoms_run conf r a g = Some (a1, t1)" "atoms_run conf r a1 (concat gs) = Some (a', t2)"
    and t: "t = t1 @ t2"
    using Cons.prems(3) by (auto simp: atoms_run_append split: option.splits)
  have "wf_buf g" using Cons.prems(4) by simp
  from reads_buf [OF Cons.prems(1,2) run(1) this, of "rds_mem_buf (atoms_bytes g)" "chain_of gs"]
  obtain c1 where c1: "json_sim conf a1 (s @ t1) c1"
    "rds_run conf r (jc_state a) (chain_of (g # gs)) c = rds_run conf r (jc_state a1) (chain_of gs) c1"
    by (auto simp: rds_mem_buf_def chain_of_def)
  from Cons.IH [OF c1(1) Cons.prems(2) run(2)] Cons.prems(4) c1(2) t show ?case by simp
qed

lemma free_sent_empty: "\<forall>b\<in>set free. jb_data b = [] \<Longrightarrow> \<forall>b\<in>set (fst (free_sent free busy)). jb_data b = []"
  by (induction free busy rule: free_sent.induct) auto

definition body_ok :: "json_req \<Rightarrow> bool" where
  "body_ok r \<longleftrightarrow> (\<forall>busy out. \<not> rc_failed (fst (rq_next_body r busy out)))"

text \<open>The first half of \<open>ngx_http_rds_json_output_bufs\<close>: at the end of the stream the current buffer joins the chain.\<close>

definition flush_end :: "json_ctx \<Rightarrow> bool \<times> json_ctx" where
  "flush_end c =
     (if jc_seen_stream_end c then
        let c0 = c\<lparr>jc_seen_stream_end := False\<rparr> in
        if jc_avail_out c0 \<noteq> 0 then
          (case json_save_buf c0 of (False, c) \<Rightarrow> (False, c) | (True, c) \<Rightarrow> (True, c\<lparr>jc_avail_out := 0\<rparr>))
        else (True, c0)
      else (True, c))"

lemma flush_end_sim:
  assumes "json_sim conf a s c"
  shows "\<exists>c1. flush_end c = (True, c1) \<and> json_sim conf (a\<lparr>jc_seen_stream_end := False\<rparr>) s c1 \<and>
     jc_down c1 = jc_down c \<and> (jc_seen_stream_end a \<longrightarrow> jc_avail_out c1 = 0)"
proof (cases "jc_seen_stream_end c \<and> jc_avail_out c \<noteq> 0")
  case True
  let ?c1 = "c\<lparr>jc_seen_stream_end := False, jc_mem := tl (jc_mem c), jc_out := jc_out c @ [jc_buf c], jc_avail_out := 0\<rparr>"
  have "jc_mem c = [] \<or> hd (jc_mem c)" using assms mem_ok_alloc by (simp add: json_sim_def)
  then have "flush_end c = (True, ?c1)"
    using True by (simp add: flush_end_def json_save_buf_def pool_alloc_eq Let_def)
  moreover have "json_sim conf (a\<lparr>jc_seen_stream_end := False\<rparr>) s ?c1"
    using assms True by (auto simp: sim_defs dest: in_set_tl)
  ultimately show ?thesis by simp
next
  case False
  then have "flush_end c = (True, c\<lparr>jc_seen_stream_end := False\<rparr>)"
    by (cases c) (auto simp: flush_end_def Let_def)
  moreover have "json_sim conf (a\<lparr>jc_seen_stream_end := False\<rparr>) s (c\<lparr>jc_seen_stream_end := False\<rparr>)"
    using assms by (auto simp: sim_defs)
  ultimately show ?thesis using False sim_ctl(8) [OF assms] by auto
qed

lemma output_bufs_sim:
  assumes sim: "json_sim conf a s c" and ok: "body_ok r"
  shows "\<exists>c2. ngx_http_rds_json_output_bufs r c = (NGX_OK, c2) \<and>
     json_sim conf (a\<lparr>jc_seen_stream_end := False, jc_down := jc_down c2\<rparr>) s c2 \<and>
     (jc_down c2 = jc_down c \<or> (\<exists>bs. jc_down c2 = jc_down c @ [Body_Down bs])) \<and>
     (jc_seen_stream_end a \<longrightarrow> s = concat (map down_bytes (jc_down c2)))"
proof -
  obtain c1 where c1: "flush_end c = (True, c1)" "json_sim conf (a\<lparr>jc_seen_stream_end := False\<rparr>) s c1"
    "jc_down c1 = jc_down c" "jc_seen_stream_end a \<longrightarrow> jc_avail_out c1 = 0"
    using flush_end_sim [OF sim] by blast
  have str: "json_stream c1 = s" using c1(2) by (simp add: json_sim_def)
  define n where "n = snd (rq_next_body r (jc_busy c1) (jc_out c1))"
  define sent where "sent = consume_sent n (jc_busy c1 @ jc_out c1)"
  define fb where "fb = ngx_chain_update_chains (jc_free c1) (take (length (jc_busy c1)) sent) (drop (length (jc_busy c1)) sent)"
  define c2 where "c2 = c1\<lparr>jc_down := jc_down c1 @ [Body_Down (jc_out c1)], jc_free := fst fb, jc_busy := snd fb, jc_out := []\<rparr>"
  obtain rc where rc: "rq_next_body r (jc_busy c1) (jc_out c1) = (rc, n)" "\<not> rc_failed rc"
    using ok by (metis body_ok_def n_def prod.collapse)
  have ob: "ngx_http_rds_json_output_bufs r c = (if jc_out c1 = [] then (NGX_OK, c1) else (NGX_OK, c2))"
    using c1(1) rc unfolding ngx_http_rds_json_output_bufs_def flush_end_def [symmetric]
    by (simp add: Let_def rc_failed_def c2_def fb_def sent_def case_prod_unfold)
  show ?thesis
  proof (cases "jc_out c1 = []")
    case True
    then have "jc_avail_out c1 = 0 \<longrightarrow> s = concat (map down_bytes (jc_down c1))" using str by (auto simp: json_stream_def)
    moreover have "json_sim conf (a\<lparr>jc_seen_stream_end := False, jc_down := jc_down c1\<rparr>) s c1"
      using c1(2) sim_ctl(9) [OF c1(2)] by (auto intro: sim_cong simp: json_ctl_def)
    ultimately show ?thesis using True ob c1(3,4) by simp
  next
    case False
    have free: "\<forall>b\<in>set (fst fb). jb_data b = []"
      unfolding fb_def ngx_chain_update_chains_def
      by (rule free_sent_empty) (use c1(2) in \<open>simp add: sim_defs\<close>)
    have str2: "json_stream c2 = s" using str by (auto simp: c2_def json_stream_def)
    have "json_inv conf c2" "mem_ok c2" using c1(2) free by (simp_all add: c2_def sim_defs)
    then have "json_sim conf (a\<lparr>jc_seen_stream_end := False, jc_down := jc_down c2\<rparr>) s c2"
      using str2 c1(2) by (simp add: json_sim_def json_ctl_def c2_def)
    moreover have "jc_avail_out c1 = 0 \<longrightarrow> s = concat (map down_bytes (jc_down c2))"
      using str2 by (auto simp: json_stream_def c2_def)
    ultimately show ?thesis using False ob c1(3,4) by (simp add: c2_def)
  qed
qed

text \<open>What went down: nothing before the header has been read, then the header and only buffers.\<close>

definition down_ok :: "json_req \<Rightarrow> json_ctx \<Rightarrow> bool" where
  "down_ok r a \<longleftrightarrow>
     jc_state a = state_expect_header \<and> \<not> jc_header_sent a \<and> jc_down a = [] \<or>
     jc_state a \<noteq> state_expect_header \<and> jc_header_sent a \<and> (\<exists>bss. jc_down a = Header_Down (rq_status r) # map Body_Down bss)"

lemma atom_step_down:
  assumes "atom_step conf r a x = Some (a', t)" "down_ok r a"
  shows "down_ok r a' \<and> jc_state a' \<noteq> state_expect_header \<and> jc_attached a' = jc_attached a \<and>
     (jc_state a' = state_done \<longrightarrow> jc_seen_stream_end a')"
  using assms
  by (cases x) (auto simp: down_ok_def header_down_def next_field_def Let_def split: if_splits)

lemma atoms_run_down:
  assumes "atoms_run conf r a xs = Some (a', t)" "down_ok r a" "xs \<noteq> []"
  shows "down_ok r a' \<and> jc_state a' \<noteq> state_expect_header \<and> jc_attached a' = jc_attached a \<and>
     (jc_state a' = state_done \<longrightarrow> jc_seen_stream_end a')"
  using assms
proof (induction xs arbitrary: a t)
  case (Cons x xs)
  obtain a1 t1 t2 where step: "atom_step conf r a x = Some (a1, t1)" and rest: "atoms_run conf r a1 xs = Some (a', t2)"
    using Cons.prems(1) by (auto split: option.splits)
  note down = atom_step_down [OF step Cons.prems(2)]
  show ?case
  proof (cases xs)
    case Nil
    with rest down show ?thesis by simp
  next
    case xs: (Cons y ys)
    with Cons.IH [OF rest] down show ?thesis by simp
  qed
qed simp

lemma text_upd:
  "field_text conf (a\<lparr>jc_seen_stream_end := sn, jc_down := dn, jc_field_data_rest := k\<rparr>) data n =
     field_text conf (a\<lparr>jc_field_data_rest := k\<rparr>) data n"
  "more_text conf (a\<lparr>jc_seen_stream_end := sn, jc_down := dn, jc_field_data_rest := k\<rparr>) data =
     more_text conf (a\<lparr>jc_field_data_rest := k\<rparr>) data"
  by (intro text_same; simp)+

lemma next_field_upd:
  "next_field (a\<lparr>jc_seen_stream_end := sn, jc_down := dn, jc_field_data_rest := k\<rparr>) =
     (next_field (a\<lparr>jc_field_data_rest := k\<rparr>))\<lparr>jc_seen_stream_end := sn, jc_down := dn\<rparr>"
  by (cases a) (simp add: next_field_def Let_def)

lemma atom_step_upd:
  assumes "atom_step conf r a x = Some (a1, t)"
  shows "\<exists>sn' dn'. atom_step conf r (a\<lparr>jc_seen_stream_end := sn, jc_down := dn\<rparr>) x =
     Some (a1\<lparr>jc_seen_stream_end := sn', jc_down := dn'\<rparr>, t)"
proof (cases x)
  case (A_Header h)
  show ?thesis
    using assms unfolding A_Header
    by (intro exI [of _ "if hdr_col_count h = 0 then True else sn"]
        exI [of _ "dn @ (if jc_header_sent a then [] else [Header_Down (rq_status r)])"])
      (cases a; auto simp: header_down_def split: if_splits)
next
  case A_End
  then show ?thesis using assms by (intro exI [of _ True] exI [of _ dn]) (cases a; auto split: if_splits)
next
  case (A_Col col)
  then show ?thesis using assms by (intro exI [of _ sn] exI [of _ dn]) (cases a; auto simp: Let_def split: if_splits)
next
  case A_Row
  then show ?thesis using assms by (intro exI [of _ sn] exI [of _ dn]) (cases a; auto split: if_splits)
next
  case A_Null
  then show ?thesis using assms
    by (intro exI [of _ sn] exI [of _ dn]) (auto simp: Let_def text_upd next_field_upd split: if_splits)
next
  case (A_Field tot data)
  then show ?thesis using assms
    by (intro exI [of _ sn] exI [of _ dn])
      (auto simp: Let_def text_upd next_field_upd split: if_splits; cases a; simp)
next
  case (A_More data)
  then show ?thesis using assms
    by (intro exI [of _ sn] exI [of _ dn])
      (auto simp: Let_def text_upd next_field_upd split: if_splits; cases a; simp)
qed

lemma atoms_run_upd:
  assumes "atoms_run conf r a xs = Some (a1, t)"
  shows "\<exists>sn' dn'. atoms_run conf r (a\<lparr>jc_seen_stream_end := sn, jc_down := dn\<rparr>) xs =
     Some (a1\<lparr>jc_seen_stream_end := sn', jc_down := dn'\<rparr>, t)"
  using assms
proof (induction xs arbitrary: a t sn dn)
  case Nil
  then show ?case by auto
next
  case (Cons x xs)
  obtain a2 t1 t2 where step: "atom_step conf r a x = Some (a2, t1)" and rest: "atoms_run conf r a2 xs = Some (a1, t2)"
    and t: "t = t1 @ t2"
    using Cons.prems by (auto split: option.splits)
  from atom_step_upd [OF step, where sn = sn and dn = dn] obtain sn1 dn1 where
    "atom_step conf r (a\<lparr>jc_seen_stream_end := sn, jc_down := dn\<rparr>) x = Some (a2\<lparr>jc_seen_stream_end := sn1, jc_down := dn1\<rparr>, t1)"
    by blast
  with Cons.IH [OF rest, where sn = sn1 and dn = dn1] t show ?case by auto
qed

text \<open>The calls of the body filter for one response, up to the first that does not return \<open>NGX_OK\<close>.\<close>

fun filter_calls :: "rds_json_conf \<Rightarrow> json_req \<Rightarrow> rds_buf list list \<Rightarrow> json_ctx \<Rightarrow> ngx_int \<times> json_ctx" where
  "filter_calls conf r [] c = (NGX_OK, c)"
| "filter_calls conf r (inp # chs) c =
     (case ngx_http_rds_json_body_filter conf r inp c of
        (rc, c1) \<Rightarrow> if rc = NGX_OK then filter_calls conf r chs c1 else (rc, c1))"

text \<open>The filters behind this one accept what they get, and the request is not for the header only.\<close>

definition req_ok :: "json_req \<Rightarrow> bool" where
  "req_ok r \<longleftrightarrow> \<not> rq_header_only r \<and> \<not> rc_failed (rq_next_header r) \<and> body_ok r"

lemma body_filter_reads:
  assumes sim: "json_sim conf a s c" and r: "req_ok r" and down: "down_ok r a" and att: "jc_attached a"
    and gs: "gs \<noteq> []" "list_all wf_buf gs" and run: "atoms_run conf r a (concat gs) = Some (a', t)"
  shows "\<exists>c'. ngx_http_rds_json_body_filter conf r (chain_of gs) c = (NGX_OK, c') \<and>
     json_sim conf (a'\<lparr>jc_seen_stream_end := False, jc_down := jc_down c'\<rparr>) (s @ t) c' \<and>
     down_ok r (a'\<lparr>jc_seen_stream_end := False, jc_down := jc_down c'\<rparr>) \<and> jc_attached a' \<and>
     (jc_state a' = state_done \<longrightarrow> s @ t = concat (map down_bytes (jc_down c')))"
proof -
  have ne: "concat gs \<noteq> []" using gs by (cases gs) (auto simp: wf_buf_def)
  note d = atoms_run_down [OF run down ne]
  have st: "jc_state a \<noteq> state_done"
    using run ne atom_step_state by (cases "concat gs") (auto split: option.splits)
  obtain c1 where c1: "json_sim conf a' (s @ t) c1" "rds_run conf r (jc_state a) (chain_of gs) c = (NGX_OK, c1)"
    using reads_chain [OF sim _ run gs(2)] r by (auto simp: req_ok_def)
  obtain c2 where c2: "ngx_http_rds_json_output_bufs r c1 = (NGX_OK, c2)"
     "json_sim conf (a'\<lparr>jc_seen_stream_end := False, jc_down := jc_down c2\<rparr>) (s @ t) c2"
     "jc_down c2 = jc_down c1 \<or> (\<exists>bs. jc_down c2 = jc_down c1 @ [Body_Down bs])"
     "jc_seen_stream_end a' \<longrightarrow> s @ t = concat (map down_bytes (jc_down c2))"
    using output_bufs_sim [OF c1(1)] r by (auto simp: req_ok_def)
  have "ngx_http_rds_json_body_filter conf r (chain_of gs) c = (NGX_OK, c2)"
    using c1(2) c2(1) st att gs(1) r sim_ctl [OF sim]
    by (simp add: ngx_http_rds_json_body_filter_def rc_failed_def req_ok_def chain_of_def)
  moreover have "down_ok r (a'\<lparr>jc_seen_stream_end := False, jc_down := jc_down c2\<rparr>)"
  proof -
    obtain bss where bss: "jc_down c1 = Header_Down (rq_status r) # map Body_Down bss" "jc_header_sent a'"
      using d sim_ctl(9) [OF c1(1)] by (auto simp: down_ok_def)
    then have "\<exists>bss. jc_down c2 = Header_Down (rq_status r) # map Body_Down bss"
      using c2(3) by (elim disjE exE) (auto intro: exI [of _ "bss @ [_]"])
    then show ?thesis using d bss by (simp add: down_ok_def)
  qed
  ultimately show ?thesis using c2 d att by auto
qed

lemma filter_calls_read:
  assumes "json_sim conf a s c" "req_ok r" "down_ok r a" "jc_attached a"
    and "css \<noteq> []" "list_all (\<lambda>gs. gs \<noteq> [] \<and> list_all wf_buf gs) css"
    and "atoms_run conf r a (concat (concat css)) = Some (a', t)"
  shows "\<exists>c'. filter_calls conf r (map chain_of css) c = (NGX_OK, c') \<and> jc_state c' = jc_state a' \<and>
     json_stream c' = s @ t \<and> jc_fault c' = No_Fault \<and>
     (\<exists>bss. jc_down c' = Header_Down (rq_status r) # map Body_Down bss) \<and>
     (jc_state a' = state_done \<longrightarrow> s @ t = concat (map down_bytes (jc_down c')))"
  using assms
proof (induction css arbitrary: a s c a' t)
  case (Cons gs css)
  obtain a1 t1 t2 where run: "atoms_run conf r a (concat gs) = Some (a1, t1)"
    and rest: "atoms_run conf r a1 (concat (concat css)) = Some (a', t2)" and t: "t = t1 @ t2"
    using Cons.prems(7) by (auto simp: atoms_run_append split: option.splits)
  have gs: "gs \<noteq> []" "list_all wf_buf gs" using Cons.prems(6) by simp_all
  obtain c1 where c1: "ngx_http_rds_json_body_filter conf r (chain_of gs) c = (NGX_OK, c1)"
     "json_sim conf (a1\<lparr>jc_seen_stream_end := False, jc_down := jc_down c1\<rparr>) (s @ t1) c1"
     "down_ok r (a1\<lparr>jc_seen_stream_end := False, jc_down := jc_down c1\<rparr>)" "jc_attached a1"
     "jc_state a1 = state_done \<longrightarrow> s @ t1 = concat (map down_bytes (jc_down c1))"
    using body_filter_reads [OF Cons.prems(1-4) gs run] by blast
  show ?case
  proof (cases css)
    case Nil
    then have a': "a' = a1" "t = t1" using rest t by simp_all
    have ne: "concat gs \<noteq> []" using gs by (cases gs) (auto simp: wf_buf_def)
    have "jc_state a1 \<noteq> state_expect_header" using atoms_run_down [OF run Cons.prems(3) ne] by simp
    then have "\<exists>bss. jc_down c1 = Header_Down (rq_status r) # map Body_Down bss" using c1(3) by (auto simp: down_ok_def)
    moreover have "jc_fault c1 = No_Fault" "json_stream c1 = s @ t1" using c1(2) by (simp_all add: sim_defs)
    ultimately show ?thesis using Nil c1 a' sim_ctl(1) [OF c1(2)] by simp
  next
    case (Cons gs2 css2)
    let ?a = "a1\<lparr>jc_seen_stream_end := False, jc_down := jc_down c1\<rparr>"
    from atoms_run_upd [OF rest, where sn = False and dn = "jc_down c1"] obtain sn dn where
      rest': "atoms_run conf r ?a (concat (concat css)) = Some (a'\<lparr>jc_seen_stream_end := sn, jc_down := dn\<rparr>, t2)"
      by blast
    have "\<exists>c'. filter_calls conf r (map chain_of css) c1 = (NGX_OK, c') \<and>
        jc_state c' = jc_state (a'\<lparr>jc_seen_stream_end := sn, jc_down := dn\<rparr>) \<and>
        json_stream c' = (s @ t1) @ t2 \<and> jc_fault c' = No_Fault \<and>
        (\<exists>bss. jc_down c' = Header_Down (rq_status r) # map Body_Down bss) \<and>
        (jc_state (a'\<lparr>jc_seen_stream_end := sn, jc_down := dn\<rparr>) = state_done \<longrightarrow>
           (s @ t1) @ t2 = concat (map down_bytes (jc_down c')))"
      by (rule Cons.IH [OF c1(2) Cons.prems(2) c1(3) _ _ _ rest']) (use Cons Cons.prems c1(4) in simp_all)
    then show ?thesis using c1(1) t by auto
  qed
qed simp

section \<open>Result sets\<close>

text \<open>
  A field of a row is null or a value; the value comes in the parts its bytes were cut into, the
  size before the first one. The value \<open>json\<close> stands for is a number, a truth value or a string
  as the type of the column says, and an empty value is the empty string whatever the type.
\<close>

type_synonym rds_field = "bytes list option"

fun field_atoms :: "rds_field \<Rightarrow> atom list" where
  "field_atoms None = [A_Null]"
| "field_atoms (Some []) = [A_Field 0 []]"
| "field_atoms (Some (p # ps)) = A_Field (length (concat (p # ps))) p # map A_More ps"

definition row_atoms :: "rds_field list \<Rightarrow> atom list" where
  "row_atoms row = A_Row # concat (map field_atoms row)"

definition table_atoms :: "rds_header \<Rightarrow> rds_column list \<Rightarrow> rds_field list list \<Rightarrow> atom list" where
  "table_atoms h cols rows = A_Header h # map A_Col cols @ concat (map row_atoms rows) @ [A_End]"

definition valid_value :: "rds_column \<Rightarrow> bytes \<Rightarrow> bool" where
  "valid_value col v \<longleftrightarrow> v = [] \<or>
     (case rough_type col of
        Rough_Int \<Rightarrow> int_first v
      | Rough_Bool \<Rightarrow> length v = 1 \<and> hd v \<in> set ''0fF1tT''
      | _ \<Rightarrow> True)"

definition wf_field :: "rds_column \<Rightarrow> rds_field \<Rightarrow> bool" where
  "wf_field col f \<longleftrightarrow> (case f of None \<Rightarrow> True
     | Some ps \<Rightarrow> [] \<notin> set ps \<and> length (concat ps) < 0xffffffff \<and> valid_value col (concat ps))"

definition value_json :: "rds_column \<Rightarrow> rds_field \<Rightarrow> json" where
  "value_json col f =
     (case f of
        None \<Rightarrow> JNull
      | Some ps \<Rightarrow>
          let v = concat ps in
          if v = [] then JStr []
          else case rough_type col of
              Rough_Int \<Rightarrow> JNum v
            | Rough_Float \<Rightarrow> JNum v
            | Rough_Bool \<Rightarrow> JBool (hd v \<notin> set ''0fF'')
            | Rough_Str \<Rightarrow> JStr v)"

text \<open>The position in the table: row number \<open>k\<close>, column number \<open>i\<close>.\<close>

definition at_pos :: "rds_column list \<Rightarrow> nat \<Rightarrow> nat \<Rightarrow> rds_state \<Rightarrow> json_ctx \<Rightarrow> bool" where
  "at_pos cols k i st a \<longleftrightarrow> jc_cols a = cols \<and> jc_col_count a = length cols \<and> jc_row a = k \<and> jc_cur_col a = i \<and> jc_state a = st"

definition after_field :: "rds_column list \<Rightarrow> nat \<Rightarrow> rds_state" where
  "after_field cols i = (if Suc i \<ge> length cols then state_expect_row else state_expect_field)"

definition fmt_ok :: "rds_json_conf \<Rightarrow> bool" where
  "fmt_ok conf \<longleftrightarrow> rj_format conf = Some json_format_normal \<or> rj_format conf = Some json_format_compact"

definition close_row :: "rds_json_conf \<Rightarrow> rds_column list \<Rightarrow> nat \<Rightarrow> bytes" where
  "close_row conf cols i = (if i = length cols - 1 then the (row_end (rj_format conf)) else [])"

definition lead_text :: "rds_json_conf \<Rightarrow> nat \<Rightarrow> nat \<Rightarrow> rds_column \<Rightarrow> bytes" where
  "lead_text conf k i col =
     (if rj_format conf = Some json_format_normal
      then (if i = 0 then (if k = 1 then ''{'' else '',{'') else '','') @ json_str (col_name col) @ '':''
      else if i = 0 then '',['' else '','')"

lemma row_close_eq:
  assumes "fmt_ok conf" "at_pos cols k i st a"
  shows "row_close conf a = Some (if jc_field_data_rest a = 0 then close_row conf cols i else [])"
  using assms by (auto simp: fmt_ok_def at_pos_def row_close_def close_row_def row_end_def)

lemma field_prefix_eq:
  assumes "fmt_ok conf" "at_pos cols k i st a"
  shows "\<exists>sz. field_prefix conf a col = Some (sz, lead_text conf k i col)"
  using assms by (auto simp: fmt_ok_def at_pos_def field_prefix_def lead_text_def json_str_def json_copy_escape)

lemma next_field_pos: "at_pos cols k i st a \<Longrightarrow> at_pos cols k (Suc i) (after_field cols i) (next_field a)"
  by (simp add: at_pos_def next_field_def after_field_def Let_def)

lemma field_text_eq:
  assumes "fmt_ok conf" "at_pos cols k i st a" "field_value (cols ! i) (jc_field_data_rest a) data n = Some (sz, val)"
    and "data \<noteq> [] \<or> jc_field_data_rest a = 0"
  shows "field_text conf a data n =
     Some (lead_text conf k i (cols ! i) @ val @ (if jc_field_data_rest a = 0 then close_row conf cols i else []))"
proof -
  obtain sz1 where "field_prefix conf a (cols ! i) = Some (sz1, lead_text conf k i (cols ! i))"
    using field_prefix_eq [OF assms(1,2)] by blast
  moreover have "jc_cols a ! jc_cur_col a = cols ! i" using assms(2) by (simp add: at_pos_def)
  ultimately show ?thesis
    using assms(3,4) row_close_eq [OF assms(1,2)] by (auto simp: field_text_def)
qed

text \<open>The parts after the first one.\<close>

definition tail_text :: "rds_column \<Rightarrow> bytes \<Rightarrow> bytes" where
  "tail_text col v = (if rough_type col = Rough_Str then escape_json v @ [CHR 0x22] else v)"

lemma more_run:
  assumes "fmt_ok conf" "at_pos cols k i state_expect_more_field_data a" "jc_field_data_rest a = length (concat ps)"
    and "ps \<noteq> []" "[] \<notin> set ps" "rough_type (cols ! i) \<noteq> Rough_Bool"
    and "rough_type (cols ! i) = Rough_Int \<longrightarrow> list_all digit (concat ps)"
  shows "\<exists>a'. atoms_run conf r a (map A_More ps) = Some (a', tail_text (cols ! i) (concat ps) @ close_row conf cols i) \<and>
     at_pos cols k (Suc i) (after_field cols i) a'"
  using assms
proof (induction ps arbitrary: a)
  case (Cons p ps)
  let ?col = "cols ! i"
  let ?a = "a\<lparr>jc_field_data_rest := length (concat ps)\<rparr>"
  have rest: "(concat ps = []) = (ps = [])" using Cons.prems(5) by (cases ps) auto
  have pos: "at_pos cols k i state_expect_more_field_data ?a" using Cons.prems(2) by (simp add: at_pos_def)
  define val where "val = (if rough_type ?col = Rough_Str then escape_json p @ (if ps = [] then [CHR 0x22] else []) else p)"
  obtain sz where "more_value ?col (length (concat ps)) p = Some (sz, val)"
    using Cons.prems(6,7) rest
    by (cases "rough_type ?col") (auto simp: more_value_def val_def json_copy_escape list_all_append)
  then have mt: "more_text conf ?a p = Some (val @ (if ps = [] then close_row conf cols i else []))"
    using row_close_eq [OF Cons.prems(1) pos] pos rest by (simp add: more_text_def at_pos_def)
  have step: "atom_step conf r a (A_More p) =
      Some (if ps \<noteq> [] then ?a else next_field ?a, val @ (if ps = [] then close_row conf cols i else []))"
    using Cons.prems(2,3) mt rest by (auto simp: at_pos_def Let_def)
  show ?case
  proof (cases "ps = []")
    case True
    then show ?thesis using step next_field_pos [OF pos] by (auto simp: tail_text_def val_def)
  next
    case False
    obtain a' where "atoms_run conf r ?a (map A_More ps) = Some (a', tail_text ?col (concat ps) @ close_row conf cols i)"
      "at_pos cols k (Suc i) (after_field cols i) a'"
      using Cons.IH [OF Cons.prems(1) pos _ False] Cons.prems(5-7) by auto
    then show ?thesis using False step by (auto simp: tail_text_def val_def escape_json_append)
  qed
qed simp

lemma field_run:
  assumes fmt: "fmt_ok conf" and pos: "at_pos cols k i state_expect_field a" and wf: "wf_field (cols ! i) f"
  shows "\<exists>a'. atoms_run conf r a (field_atoms f) =
       Some (a', lead_text conf k i (cols ! i) @ json_text (value_json (cols ! i) f) @ close_row conf cols i) \<and>
     at_pos cols k (Suc i) (after_field cols i) a'"
proof -
  let ?col = "cols ! i"
  have upd: "at_pos cols k i state_expect_field (a\<lparr>jc_field_data_rest := m\<rparr>)" for m using pos by (simp add: at_pos_def)
  have st: "jc_state a = state_expect_field" using pos by (simp add: at_pos_def)
  consider (null) "f = None" | (empty) "f = Some []" | (parts) p ps where "f = Some (p # ps)"
    by (cases f rule: field_atoms.cases) auto
  then show ?thesis
  proof cases
    case null
    have "field_value ?col 0 [] True = Some (4, ''null'')" by (simp add: field_value_def)
    with field_text_eq [OF fmt upd [of 0]]
    have "field_text conf (a\<lparr>jc_field_data_rest := 0\<rparr>) [] True = Some (lead_text conf k i ?col @ ''null'' @ close_row conf cols i)"
      by simp
    then show ?thesis using null st next_field_pos [OF upd [of 0]] by (auto simp: value_json_def Let_def)
  next
    case empty
    have "field_value ?col 0 [] False = Some (2, [CHR 0x22, CHR 0x22])" by (simp add: field_value_def)
    with field_text_eq [OF fmt upd [of 0]]
    have "field_text conf (a\<lparr>jc_field_data_rest := 0\<rparr>) [] False =
        Some (lead_text conf k i ?col @ [CHR 0x22, CHR 0x22] @ close_row conf cols i)" by simp
    then show ?thesis using empty st next_field_pos [OF upd [of 0]]
      by (auto simp: value_json_def Let_def json_str_def)
  next
    case parts
    have p: "p \<noteq> []" "[] \<notin> set ps" "length (p @ concat ps) < 0xffffffff" "valid_value ?col (p @ concat ps)"
      using wf parts by (auto simp: wf_field_def)
    have rest: "(concat ps = []) = (ps = [])" using p(2) by (cases ps) auto
    define m where "m = length (concat ps)"
    define val where "val = (case rough_type ?col of Rough_Str \<Rightarrow> [CHR 0x22] @ escape_json p @ (if ps = [] then [CHR 0x22] else [])
        | Rough_Bool \<Rightarrow> (if hd p \<in> set ''0fF'' then ''false'' else ''true'') | _ \<Rightarrow> p)"
    have bool: "rough_type ?col = Rough_Bool \<Longrightarrow> length p = 1 \<and> ps = [] \<and> hd p \<in> set ''0fF1tT''"
      using p rest by (cases p) (auto simp: valid_value_def)
    have int: "rough_type ?col = Rough_Int \<Longrightarrow> int_first p \<and> list_all digit (concat ps)"
      using p by (cases p) (auto simp: valid_value_def int_first_def)
    have "\<exists>sz. field_value ?col m p False = Some (sz, val)"
      using p(1) bool int rest
      by (cases "rough_type ?col") (auto simp: field_value_def val_def m_def json_copy_escape)
    then have ft: "field_text conf (a\<lparr>jc_field_data_rest := m\<rparr>) p False =
        Some (lead_text conf k i ?col @ val @ (if ps = [] then close_row conf cols i else []))"
      using field_text_eq [OF fmt upd [of m]] p(1) rest by (auto simp: m_def)
    let ?a = "a\<lparr>jc_field_data_rest := m\<rparr>"
    have step: "atom_step conf r a (A_Field (length (concat (p # ps))) p) =
        Some (if ps \<noteq> [] then ?a\<lparr>jc_state := state_expect_more_field_data\<rparr> else next_field ?a,
              lead_text conf k i ?col @ val @ (if ps = [] then close_row conf cols i else []))"
      using ft st p(3) rest by (auto simp: Let_def m_def)
    have ne: "p @ concat ps \<noteq> []" using p(1) by simp
    show ?thesis
    proof (cases "ps = []")
      case True
      have "json_text (value_json ?col f) = val"
        using ne True parts bool by (cases "rough_type ?col") (auto simp: value_json_def val_def json_str_def Let_def)
      then show ?thesis using True step parts next_field_pos [OF upd [of m]] by auto
    next
      case False
      have nb: "rough_type ?col \<noteq> Rough_Bool" using bool False by auto
      have "at_pos cols k i state_expect_more_field_data (?a\<lparr>jc_state := state_expect_more_field_data\<rparr>)"
        using pos by (simp add: at_pos_def)
      from more_run [OF fmt this _ False p(2) nb, of r] int obtain a' where
        "atoms_run conf r (?a\<lparr>jc_state := state_expect_more_field_data\<rparr>) (map A_More ps) =
           Some (a', tail_text ?col (concat ps) @ close_row conf cols i)" "at_pos cols k (Suc i) (after_field cols i) a'"
        by (auto simp: m_def)
      moreover have "json_text (value_json ?col f) = val @ tail_text ?col (concat ps)"
        using ne False parts nb
        by (cases "rough_type ?col") (auto simp: value_json_def val_def tail_text_def json_str_def Let_def escape_json_append)
      ultimately show ?thesis using False step parts by auto
    qed
  qed
qed

text \<open>The fields of a row from column \<open>i\<close> on, and the rows.\<close>

fun fields_text :: "rds_json_conf \<Rightarrow> nat \<Rightarrow> nat \<Rightarrow> (rds_column \<times> rds_field) list \<Rightarrow> bytes" where
  "fields_text conf k i [] = []"
| "fields_text conf k i ((col, f) # cfs) =
     lead_text conf k i col @ json_text (value_json col f) @ fields_text conf k (Suc i) cfs"

lemma fields_run:
  assumes fmt: "fmt_ok conf" and "at_pos cols k i state_expect_field a" "i + length fs = length cols" "fs \<noteq> []"
    and "list_all2 wf_field (drop i cols) fs"
  shows "\<exists>a'. atoms_run conf r a (concat (map field_atoms fs)) =
       Some (a', fields_text conf k i (zip (drop i cols) fs) @ the (row_end (rj_format conf))) \<and>
     at_pos cols k (length cols) state_expect_row a'"
  using assms(2-)
proof (induction fs arbitrary: a i)
  case (Cons f fs)
  have i: "i < length cols" "drop i cols = cols ! i # drop (Suc i) cols"
    using Cons.prems(2) by (auto simp: Cons_nth_drop_Suc)
  have wf: "wf_field (cols ! i) f" "list_all2 wf_field (drop (Suc i) cols) fs" using Cons.prems(4) i by simp_all
  obtain a1 where a1: "atoms_run conf r a (field_atoms f) =
      Some (a1, lead_text conf k i (cols ! i) @ json_text (value_json (cols ! i) f) @ close_row conf cols i)"
    "at_pos cols k (Suc i) (after_field cols i) a1"
    using field_run [OF fmt Cons.prems(1) wf(1)] by blast
  show ?case
  proof (cases "fs = []")
    case True
    then have "Suc i = length cols" "i = length cols - 1" using Cons.prems(2) by simp_all
    then show ?thesis using True a1 i by (simp add: close_row_def after_field_def)
  next
    case False
    then have more: "Suc i < length cols" using Cons.prems(2) by (cases fs) auto
    then obtain a' where "atoms_run conf r a1 (concat (map field_atoms fs)) =
        Some (a', fields_text conf k (Suc i) (zip (drop (Suc i) cols) fs) @ the (row_end (rj_format conf)))"
      "at_pos cols k (length cols) state_expect_row a'"
      using Cons.IH [of "Suc i" a1] a1(2) Cons.prems(2) False wf(2) by (auto simp: after_field_def)
    then show ?thesis using a1 i more by (auto simp: atoms_run_append close_row_def)
  qed
qed simp

definition row_json :: "rds_json_conf \<Rightarrow> rds_column list \<Rightarrow> rds_field list \<Rightarrow> json" where
  "row_json conf cols row =
     (if rj_format conf = Some json_format_normal
      then JObj (map (\<lambda>(col, f). (col_name col, value_json col f)) (zip cols row))
      else JArr (map (\<lambda>(col, f). value_json col f) (zip cols row)))"

definition elem_text :: "rds_json_conf \<Rightarrow> rds_column \<times> rds_field \<Rightarrow> bytes" where
  "elem_text conf cf =
     (if rj_format conf = Some json_format_normal then member_text (col_name (fst cf), value_json (fst cf) (snd cf))
      else json_text (value_json (fst cf) (snd cf)))"

lemma fields_text_tail: "fields_text conf k (Suc i) cfs = concat (map ((@) '','') (map (elem_text conf) cfs))"
  by (induction cfs arbitrary: i) (auto simp: lead_text_def elem_text_def member_text_def)

lemma row_text:
  assumes "fmt_ok conf" "cols \<noteq> []" "length row = length cols"
  shows "fields_text conf k 0 (zip cols row) @ the (row_end (rj_format conf)) =
     (if rj_format conf = Some json_format_normal \<and> k = 1 then [] else '','') @ json_text (row_json conf cols row)"
proof -
  obtain col cols' f row' where cr: "cols = col # cols'" "row = f # row'"
    using assms(2,3) by (cases cols; cases row) auto
  let ?cfs = "zip cols' row'"
  have norm: "json_text (JObj (map (\<lambda>(col, f). (col_name col, value_json col f)) ((col, f) # ?cfs))) =
      ''{'' @ elem_text conf (col, f) @ concat (map ((@) '','') (map (elem_text conf) ?cfs)) @ ''}''"
    if "rj_format conf = Some json_format_normal"
    using that unfolding json_text_obj
    by (simp add: comma_sep_lead elem_text_def [abs_def] comp_def case_prod_unfold)
  have comp: "json_text (JArr (map (\<lambda>(col, f). value_json col f) ((col, f) # ?cfs))) =
      ''['' @ elem_text conf (col, f) @ concat (map ((@) '','') (map (elem_text conf) ?cfs)) @ '']''"
    if "rj_format conf \<noteq> Some json_format_normal"
    using that by (simp add: comma_sep_lead elem_text_def [abs_def] comp_def case_prod_unfold)
  show ?thesis
  proof (cases "rj_format conf = Some json_format_normal")
    case True
    show ?thesis unfolding row_json_def cr zip_Cons_Cons using norm [OF True] True
      by (simp add: fields_text_tail lead_text_def row_end_def elem_text_def [of _ "(col, f)"] member_text_def del: json_text.simps)
  next
    case False
    then have "row_end (rj_format conf) = Some '']''" using assms(1) by (auto simp: fmt_ok_def row_end_def)
    then show ?thesis unfolding row_json_def cr zip_Cons_Cons using comp [OF False] False
      by (simp add: fields_text_tail lead_text_def elem_text_def [of _ "(col, f)"] del: json_text.simps)
  qed
qed

fun rows_text :: "rds_json_conf \<Rightarrow> rds_column list \<Rightarrow> nat \<Rightarrow> rds_field list list \<Rightarrow> bytes" where
  "rows_text conf cols k [] = []"
| "rows_text conf cols k (row # rows) =
     (if rj_format conf = Some json_format_normal \<and> k = 0 then [] else '','') @ json_text (row_json conf cols row)
       @ rows_text conf cols (Suc k) rows"

lemma rows_run:
  assumes fmt: "fmt_ok conf" and cols: "cols \<noteq> []" and "at_pos cols k i state_expect_row a"
    and "list_all (list_all2 wf_field cols) rows"
  shows "\<exists>a' i' k'. atoms_run conf r a (concat (map row_atoms rows)) = Some (a', rows_text conf cols k rows) \<and>
     at_pos cols k' i' state_expect_row a'"
  using assms(3-)
proof (induction rows arbitrary: a k i)
  case Nil
  then show ?case by auto
next
  case (Cons row rows)
  have wf: "list_all2 wf_field cols row" using Cons.prems(2) by simp
  then have len: "length row = length cols" by (simp add: list_all2_lengthD)
  let ?a = "a\<lparr>jc_row := jc_row a + 1, jc_cur_col := 0, jc_state := state_expect_field\<rparr>"
  have step: "atom_step conf r a A_Row = Some (?a, [])" using Cons.prems(1) by (simp add: at_pos_def)
  have pos: "at_pos cols (Suc k) 0 state_expect_field ?a" using Cons.prems(1) by (simp add: at_pos_def)
  have ne: "row \<noteq> []" using len cols by auto
  obtain a1 where a1: "atoms_run conf r ?a (concat (map field_atoms row)) =
        Some (a1, fields_text conf (Suc k) 0 (zip cols row) @ the (row_end (rj_format conf)))"
      "at_pos cols (Suc k) (length cols) state_expect_row a1"
    using fields_run [OF fmt pos _ ne] len wf by auto
  obtain a' i' k' where a': "atoms_run conf r a1 (concat (map row_atoms rows)) = Some (a', rows_text conf cols (Suc k) rows)"
      "at_pos cols k' i' state_expect_row a'"
    using Cons.IH [OF a1(2)] Cons.prems(2) by auto
  have "atoms_run conf r a (row_atoms row) = Some (a1, fields_text conf (Suc k) 0 (zip cols row) @ the (row_end (rj_format conf)))"
    using step a1(1) by (simp add: row_atoms_def del: atom_step.simps)
  then show ?case
    using a' unfolding row_text [OF fmt cols len] by (auto simp: atoms_run_append)
qed

lemma rows_text_lead:
  "rows_text conf cols (Suc k) rows = concat (map ((@) '','') (map (\<lambda>row. json_text (row_json conf cols row)) rows))"
  by (induction rows arbitrary: k) simp_all

text \<open>The document: the rows in their bracket, in the object with the other members when there is a root.\<close>

definition table_json :: "rds_json_conf \<Rightarrow> rds_column list \<Rightarrow> rds_field list list \<Rightarrow> json" where
  "table_json conf cols rows =
     JArr ((if rj_format conf = Some json_format_compact then [JArr (map (\<lambda>col. JStr (col_name col)) cols)] else [])
           @ map (row_json conf cols) rows)"

definition doc_json :: "rds_json_conf \<Rightarrow> json_names \<Rightarrow> (bytes \<times> bytes) list \<Rightarrow> rds_column list \<Rightarrow> rds_field list list \<Rightarrow> json" where
  "doc_json conf n pv cols rows =
     (case jn_root n of
        None \<Rightarrow> table_json conf cols rows
      | Some root \<Rightarrow> JObj (success_json n True @ map (apsnd JStr) pv @ [(root, table_json conf cols rows)]))"

lemma cols_fill_json: "''['' @ cols_fill cols @ '']'' = json_text (JArr (map (\<lambda>col. JStr (col_name col)) cols))"
proof -
  have "cols_fill cols = comma_sep (map (\<lambda>col. json_str (col_name col)) cols)"
    by (induction cols rule: induct_list012) (simp_all add: json_str_def)
  then show ?thesis by (simp add: comp_def)
qed

lemma table_text:
  assumes "fmt_ok conf"
  shows "''['' @ (if rj_format conf = Some json_format_compact then ''['' @ cols_fill cols @ '']'' else [])
     @ rows_text conf cols 0 rows @ '']'' = json_text (table_json conf cols rows)"
proof (cases "rj_format conf = Some json_format_compact")
  case True
  have "rows_text conf cols 0 rows = concat (map ((@) '','') (map (\<lambda>row. json_text (row_json conf cols row)) rows))"
    using True by (cases rows) (simp_all add: rows_text_lead)
  then show ?thesis using True cols_fill_json [of cols]
    by (simp add: table_json_def comma_sep_lead comp_def)
next
  case False
  then have "rj_format conf = Some json_format_normal" using assms by (simp add: fmt_ok_def)
  then show ?thesis
    by (cases rows) (simp_all add: table_json_def rows_text_lead comma_sep_lead comp_def)
qed

lemma doc_text:
  assumes n: "conf_names conf n" and fmt: "fmt_ok conf"
  shows "(if rj_root conf \<noteq> [] then props_text conf (map (apfst json_str) pv) else []) @ ''[''
      @ (if rj_format conf = Some json_format_compact then ''['' @ cols_fill cols @ '']'' else [])
      @ rows_text conf cols 0 rows @ close_text conf = json_text (doc_json conf n pv cols rows)"
proof (cases "jn_root n")
  case None
  then have root: "rj_root conf = []" using n by (simp add: conf_names_def key_text_def)
  then show ?thesis using None table_text [OF fmt, of cols rows] by (simp add: doc_json_def close_text_def)
next
  case (Some root)
  then have root: "rj_root conf = json_str root" using n by (simp add: conf_names_def key_text_def)
  have succ: "(if rj_success conf \<noteq> [] then rj_success conf @ '':true,'' else []) =
      concat (map (\<lambda>x. x @ '','') (map member_text (success_json n True)))"
    using n by (cases "jn_success n") (simp_all add: conf_names_def key_text_def success_json_def member_text_def)
  have tbl: "close_text conf = '']'' @ ''}''" using root by (simp add: close_text_def)
  have "json_text (doc_json conf n pv cols rows) =
      ''{'' @ concat (map (\<lambda>x. x @ '','') (map member_text (success_json n True @ map (apsnd JStr) pv)))
        @ json_str root @ '':'' @ json_text (table_json conf cols rows) @ ''}''"
    using comma_sep_trail [of "map member_text (success_json n True @ map (apsnd JStr) pv)"
        "member_text (root, table_json conf cols rows)" "[]"]
    unfolding doc_json_def Some option.case json_text_obj by (simp add: member_text_def)
  then show ?thesis
    using root unfolding table_text [OF fmt, symmetric] tbl props_text_def succ props_fill_json
    by simp
qed

lemma cols_run:
  assumes "jc_state a = state_expect_col" "jc_cols a = pre" "jc_cur_col a = length pre" "jc_col_count a = length (pre @ cs)"
    and "cs \<noteq> []" "list_all wf_column cs" "open_text conf r (pre @ cs) = Some t"
  shows "\<exists>a' i. atoms_run conf r a (map A_Col cs) = Some (a', t) \<and> at_pos (pre @ cs) 0 i state_expect_row a'"
  using assms
proof (induction cs arbitrary: a pre)
  case (Cons col cs)
  let ?a = "a\<lparr>jc_cols := pre @ [col], jc_cur_col := length pre + 1\<rparr>"
  show ?case
  proof (cases "cs = []")
    case True
    then show ?thesis using Cons.prems by (auto simp: Let_def at_pos_def)
  next
    case False
    then have "atom_step conf r a (A_Col col) = Some (?a, [])" using Cons.prems by (auto simp: Let_def neq_Nil_conv)
    moreover have "\<exists>a' i. atoms_run conf r ?a (map A_Col cs) = Some (a', t) \<and> at_pos ((pre @ [col]) @ cs) 0 i state_expect_row a'"
      by (rule Cons.IH) (use Cons.prems False in simp_all)
    ultimately show ?thesis by (auto simp del: atom_step.simps)
  qed
qed simp

lemma table_run:
  assumes fmt: "fmt_ok conf" and n: "conf_names conf n" and props: "props_of conf r = Some (map (apfst json_str) pv)"
    and h: "wf_header h" "hdr_col_count h = length cols" and cols: "cols \<noteq> []" "list_all wf_column cols"
    and rows: "list_all (list_all2 wf_field cols) rows"
  shows "\<exists>a'. atoms_run conf r (json_ctx0 mem) (table_atoms h cols rows) = Some (a', json_text (doc_json conf n pv cols rows)) \<and>
     jc_state a' = state_done"
proof -
  let ?a1 = "(header_down r (json_ctx0 mem))\<lparr>jc_cols := [], jc_state := state_expect_col, jc_cur_col := 0,
      jc_col_count := length cols\<rparr>"
  define t where "t = (if rj_root conf \<noteq> [] then props_text conf (map (apfst json_str) pv) else []) @ ''[''
      @ (if rj_format conf = Some json_format_compact then ''['' @ cols_fill cols @ '']'' else [])"
  have step: "atom_step conf r (json_ctx0 mem) (A_Header h) = Some (?a1, [])"
    using h cols(1) by (simp add: json_ctx0_def)
  have ot: "open_text conf r ([] @ cols) = Some t" using props by (simp add: open_text_def t_def)
  have "jc_state ?a1 = state_expect_col" "jc_cols ?a1 = []" "jc_cur_col ?a1 = length []" "jc_col_count ?a1 = length ([] @ cols)"
    by simp_all
  from cols_run [OF this cols ot] obtain a2 i where
    a2: "atoms_run conf r ?a1 (map A_Col cols) = Some (a2, t)" "at_pos cols 0 i state_expect_row a2" by auto
  obtain a3 i3 k3 where a3: "atoms_run conf r a2 (concat (map row_atoms rows)) = Some (a3, rows_text conf cols 0 rows)"
      "at_pos cols k3 i3 state_expect_row a3"
    using rows_run [OF fmt cols(1) a2(2) rows] by blast
  let ?a4 = "a3\<lparr>jc_state := state_done, jc_seen_stream_end := True\<rparr>"
  have "atom_step conf r a3 A_End = Some (?a4, close_text conf)" using a3(2) by (simp add: at_pos_def)
  then have "atoms_run conf r (json_ctx0 mem) (table_atoms h cols rows) =
      Some (?a4, t @ rows_text conf cols 0 rows @ close_text conf)"
    using step a2(1) a3(1) by (simp add: table_atoms_def atoms_run_append del: atom_step.simps)
  then show ?thesis
    using doc_text [OF n fmt, of pv cols rows] by (simp add: t_def)
qed

lemma initial_sim:
  assumes "0 < conf_buf_size conf" "False \<notin> set mem"
  shows "json_sim conf (json_ctx0 mem) [] (json_ctx0 mem)" "down_ok r (json_ctx0 mem)" "jc_attached (json_ctx0 mem)"
  using assms by (simp_all add: sim_defs json_ctx0_def down_ok_def)

section \<open>Arbitrary input\<close>

text \<open>
  What every output function leaves behind, whatever it is given: success with the buffers in
  order and the control part kept (but for \<open>seen_stream_end\<close>), or an error without a fault.
\<close>

definition json_out :: "rds_json_conf \<Rightarrow> json_ctx \<Rightarrow> ngx_int \<times> json_ctx \<Rightarrow> bool" where
  "json_out conf c res \<longleftrightarrow>
     fst res = NGX_OK \<and> json_inv conf (snd res) \<and> (\<exists>e. json_ctl (snd res) = json_ctl (c\<lparr>jc_seen_stream_end := e\<rparr>)) \<or>
     fst res = NGX_ERROR \<and> jc_fault (snd res) = No_Fault \<and> jc_down (snd res) = jc_down c \<and>
       jc_header_sent (snd res) = jc_header_sent c"

lemma emitted_out: "json_emitted conf e t c res \<Longrightarrow> json_out conf c res"
  by (auto simp: json_emitted_def json_out_def)

lemma inv_fault: "json_inv conf c \<Longrightarrow> jc_fault c = No_Fault"
  by (simp add: json_inv_def json_room_def)

lemma refused_out: "json_inv conf c \<Longrightarrow> json_out conf c (NGX_ERROR, c)"
  by (simp add: json_out_def inv_fault)

lemma user_values_out:
  assumes "json_inv conf c" "props_of conf r = None"
  shows "json_out conf c (case user_values conf r c of (None, c) \<Rightarrow> (NGX_ERROR, c) | (Some ps, c) \<Rightarrow> g ps c)"
  using assms
  by (cases "jc_mem c = [] \<or> hd (jc_mem c)")
    (auto simp: props_of_def user_values_def pool_alloc_eq json_out_def inv_fault split: option.splits)

lemma output_header_out:
  assumes "json_inv conf c" "header_ok h"
  shows "json_out conf c (ngx_http_rds_json_output_header conf r c h)"
proof (cases "props_of conf r")
  case None
  then show ?thesis unfolding ngx_http_rds_json_output_header_def by (rule user_values_out [OF assms(1)])
next
  case (Some props)
  then show ?thesis using emitted_out output_header_emitted assms by blast
qed

lemma output_props_out:
  assumes "json_inv conf c"
  shows "json_out conf c (ngx_http_rds_json_output_props conf r c)"
proof (cases "props_of conf r")
  case None
  then show ?thesis unfolding ngx_http_rds_json_output_props_def by (rule user_values_out [OF assms])
next
  case (Some props)
  then show ?thesis using emitted_out output_props_emitted assms by blast
qed

lemma output_field_out: "json_inv conf c \<Longrightarrow> json_out conf c (ngx_http_rds_json_output_field conf c data n)"
  using output_field_emitted [of conf c data n] by (auto simp: refused_out split: option.splits dest: emitted_out)

lemma output_more_out: "json_inv conf c \<Longrightarrow> json_out conf c (ngx_http_rds_json_output_more_field_data conf c data)"
  using output_more_emitted [of conf c data] by (auto simp: refused_out split: option.splits dest: emitted_out)

lemma output_literal_out: "json_inv conf c \<Longrightarrow> json_out conf c (ngx_http_rds_json_output_literal conf r c data l)"
  by (rule emitted_out [OF output_literal_emitted])

lemma out_trans:
  assumes "json_out conf c (rc, c1)" "rc = NGX_OK" "json_out conf c1 res"
  shows "json_out conf c res"
  using assms by (auto simp: json_out_def json_ctl_def)

lemma begin_rows_out:
  assumes inv: "json_inv conf c" and cnt: "jc_col_count c = length (jc_cols c)"
  shows "json_out conf c (begin_rows conf r c)"
proof -
  obtain rc1 c1 where b1: "(if rj_root conf \<noteq> [] then ngx_http_rds_json_output_props conf r c else (NGX_OK, c)) = (rc1, c1)"
    by fastforce
  have o1: "json_out conf c (rc1, c1)"
    unfolding b1 [symmetric] using inv output_props_out [OF inv] by (auto simp: json_out_def intro: exI [of _ "jc_seen_stream_end c"])
  show ?thesis
  proof (cases "rc1 = NGX_OK")
    case False
    then show ?thesis using o1 b1 by (auto simp: begin_rows_def json_out_def)
  next
    case rc1: True
    obtain rc2 c2 where b2: "ngx_http_rds_json_output_literal conf r c1 ''['' False = (rc2, c2)" by fastforce
    have inv1: "json_inv conf c1" using o1 rc1 by (auto simp: json_out_def)
    have o2: "json_out conf c (rc2, c2)"
      using out_trans [OF o1 rc1] output_literal_out [OF inv1, of r "''[''" False] b2 by simp
    show ?thesis
    proof (cases "rc2 = NGX_OK")
      case False
      then show ?thesis using o2 rc1 b1 b2 by (auto simp: begin_rows_def json_out_def)
    next
      case rc2: True
      have inv2: "json_inv conf c2" "jc_col_count c2 = length (jc_cols c2)"
        using o2 rc2 cnt by (auto simp: json_out_def json_ctl_def)
      have eq: "begin_rows conf r c = (if rj_format conf = Some json_format_compact
          then ngx_http_rds_json_output_cols conf c2 else (NGX_OK, c2))"
        using b1 b2 rc1 rc2 by (auto simp: begin_rows_def)
      have o3: "json_out conf c2 (ngx_http_rds_json_output_cols conf c2)"
        by (rule emitted_out [OF output_cols_emitted [OF inv2]])
      show ?thesis unfolding eq using out_trans [OF o2 rc2 o3] o2 rc2 by simp
    qed
  qed
qed

text \<open>
  The invariant of the machine: in the states that read fields the current column is one of the
  columns that were read, and the header goes down once, before the first buffer.
\<close>

definition pos_ok :: "json_ctx \<Rightarrow> bool" where
  "pos_ok c \<longleftrightarrow>
     (case jc_state c of
        state_expect_header \<Rightarrow> \<not> jc_header_sent c \<and> jc_out c = [] \<and> jc_avail_out c = 0
      | state_expect_col \<Rightarrow> jc_header_sent c \<and> jc_cur_col c = length (jc_cols c) \<and> jc_cur_col c < jc_col_count c
      | state_expect_row \<Rightarrow> jc_header_sent c \<and> jc_col_count c = length (jc_cols c) \<and> 0 < jc_col_count c
      | state_done \<Rightarrow> jc_header_sent c
      | _ \<Rightarrow> jc_header_sent c \<and> jc_col_count c = length (jc_cols c) \<and> jc_cur_col c < jc_col_count c)"

fun is_header :: "down \<Rightarrow> bool" where
  "is_header (Header_Down _) = True"
| "is_header _ = False"

fun is_body :: "down \<Rightarrow> bool" where
  "is_body (Body_Down _) = True"
| "is_body _ = False"

definition header_first :: "json_ctx \<Rightarrow> bool" where
  "header_first c \<longleftrightarrow> length (filter is_header (jc_down c)) = (if jc_header_sent c then 1 else 0) \<and>
     filter is_body (takeWhile (\<lambda>x. \<not> is_header x) (jc_down c)) = []"

definition step_ok :: "rds_json_conf \<Rightarrow> rds_step \<Rightarrow> bool" where
  "step_ok conf st \<longleftrightarrow>
     (case st of
        Ret rc c \<Rightarrow> jc_fault c = No_Fault \<and> header_first c \<and> (\<not> rc_failed rc \<longrightarrow> json_inv conf c \<and> pos_ok c)
      | Call s inp c \<Rightarrow> jc_state c = s \<and> json_inv conf c \<and> pos_ok c \<and> header_first c)"

lemma header_first_same:
  "header_first c \<Longrightarrow> jc_down c' = jc_down c \<Longrightarrow> jc_header_sent c' = jc_header_sent c \<Longrightarrow> header_first c'"
  by (simp add: header_first_def)

lemma header_first_sent:
  assumes "header_first c" "\<not> jc_header_sent c" "\<not> is_header y"
  shows "header_first (c\<lparr>jc_header_sent := True, jc_down := jc_down c @ [Header_Down k]\<rparr>)"
    and "header_first (c\<lparr>jc_header_sent := True, jc_attached := b, jc_down := jc_down c @ [Header_Down k, y]\<rparr>)"
proof -
  have no: "filter is_header (jc_down c) = []" using assms by (simp add: header_first_def)
  then have "takeWhile (\<lambda>x. \<not> is_header x) (jc_down c @ Header_Down k # ys) = jc_down c" for ys
    by (induction "jc_down c") (simp_all add: takeWhile_append filter_empty_conv)
  moreover have tw: "takeWhile (\<lambda>x. \<not> is_header x) (jc_down c) = jc_down c"
    using no by (simp add: takeWhile_eq_all_conv filter_empty_conv)
  have "filter is_body (jc_down c) = []" using assms(1) tw by (metis header_first_def)
  ultimately show "header_first (c\<lparr>jc_header_sent := True, jc_down := jc_down c @ [Header_Down k]\<rparr>)"
    "header_first (c\<lparr>jc_header_sent := True, jc_attached := b, jc_down := jc_down c @ [Header_Down k, y]\<rparr>)"
    using assms no by (simp_all add: header_first_def)
qed

lemma step_bad: "json_inv conf c \<Longrightarrow> header_first c \<Longrightarrow> step_ok conf (Ret NGX_ERROR c)"
  by (simp add: step_ok_def rc_failed_def inv_fault)

lemma step_wait: "json_inv conf c \<Longrightarrow> header_first c \<Longrightarrow> pos_ok c \<Longrightarrow> step_ok conf (Ret NGX_OK c)"
  by (simp add: step_ok_def inv_fault)

lemma step_out:
  assumes "json_out conf c (rc, c')" "header_first c"
    and "\<And>e. json_inv conf c' \<Longrightarrow> json_ctl c' = json_ctl (c\<lparr>jc_seen_stream_end := e\<rparr>) \<Longrightarrow> header_first c' \<Longrightarrow> step_ok conf (k c')"
    and "rc = NGX_ERROR \<Longrightarrow> header_first c' \<Longrightarrow> jc_fault c' = No_Fault \<Longrightarrow> step_ok conf (Ret rc c')"
  shows "step_ok conf (if rc_failed rc then Ret rc c' else k c')"
proof -
  have "header_first c'" using assms(1,2) by (auto simp: json_out_def json_ctl_def elim: header_first_same)
  with assms show ?thesis by (auto simp: json_out_def rc_failed_def)
qed

lemma step_failed: "rc = NGX_ERROR \<Longrightarrow> header_first c \<Longrightarrow> jc_fault c = No_Fault \<Longrightarrow> step_ok conf (Ret rc c)"
  by (simp add: step_ok_def rc_failed_def)

lemma ctl_upd_mem:
  "json_inv conf (c\<lparr>jc_mem := m\<rparr>) = json_inv conf c" "json_inv conf (c\<lparr>jc_state := st\<rparr>) = json_inv conf c"
  "json_inv conf (c\<lparr>jc_cols := cols\<rparr>) = json_inv conf c" "json_inv conf (c\<lparr>jc_cur_col := i\<rparr>) = json_inv conf c"
  "json_inv conf (c\<lparr>jc_col_count := i\<rparr>) = json_inv conf c" "json_inv conf (c\<lparr>jc_row := i\<rparr>) = json_inv conf c"
  "json_inv conf (c\<lparr>jc_field_data_rest := i\<rparr>) = json_inv conf c" "json_inv conf (c\<lparr>jc_header_sent := b\<rparr>) = json_inv conf c"
  "json_inv conf (c\<lparr>jc_down := dn\<rparr>) = json_inv conf c"
  by (simp_all add: json_inv_def json_room_def)

lemma ctl_pos:
  assumes "json_ctl c' = json_ctl (c\<lparr>jc_seen_stream_end := e\<rparr>)"
  shows "jc_state c' = jc_state c" "jc_cur_col c' = jc_cur_col c" "jc_col_count c' = jc_col_count c"
    "jc_cols c' = jc_cols c" "jc_header_sent c' = jc_header_sent c"
  using assms by (simp_all add: json_ctl_def)

lemma le_nat_less: "le_nat xs < 256 ^ length xs"
proof (induction xs)
  case (Cons c xs)
  define P :: nat where "P = 256 ^ length xs"
  have "ord c + 256 * le_nat xs < 256 * P"
    using Cons nat_of_char_less_256 [of c] unfolding P_def [symmetric] by linarith
  then show ?case by (simp add: P_def)
qed simp

lemma le_nat_take: "le_nat (take k xs) < 256 ^ k"
proof -
  have "(256::nat) ^ length (take k xs) \<le> 256 ^ k" by (rule power_increasing) simp_all
  then show ?thesis using le_nat_less [of "take k xs"] by linarith
qed

lemma parse_header_ok: "ngx_http_rds_parse_header b = Some (h, d) \<Longrightarrow> header_ok h"
  using le_nat_take [of 2] le_nat_take [of 8]
  by (auto simp: ngx_http_rds_parse_header_def Let_def header_ok_def split: if_splits)

lemma header_invalid_ok:
  assumes "json_inv conf c" "header_first c"
  shows "step_ok conf (header_invalid c)"
proof (cases "jc_header_sent c")
  case False
  then show ?thesis using header_first_sent(2) [OF assms(2) False, where y = Special_Down and b = False and k = 500] assms(1)
    by (simp add: header_invalid_def step_ok_def rc_failed_def inv_fault)
qed (simp add: header_invalid_def step_bad assms)

lemma send_header_ok:
  assumes "json_inv conf c" "header_first c" "send_postponed_header r c = (rc, c')"
  shows "json_inv conf c' \<and> header_first c' \<and> jc_header_sent c' \<and> jc_state c' = jc_state c \<and> jc_cols c' = jc_cols c \<and>
     jc_cur_col c' = jc_cur_col c \<and> jc_col_count c' = jc_col_count c"
  using assms header_first_sent(1) [OF assms(2), of Special_Down "rq_status r"]
  by (auto simp: send_postponed_header_def ctl_upd_mem split: if_splits)

lemma process_header_ok:
  assumes inv: "json_inv conf c" "header_first c" "pos_ok c" and st: "jc_state c = state_expect_header"
  shows "step_ok conf (ngx_http_rds_json_process_header conf r inp c)"
proof (cases "next_buf inp")
  case (Buf b rest)
  show ?thesis
  proof (cases "ngx_http_rds_parse_header (rb_data b)")
    case None
    then show ?thesis using Buf header_invalid_ok [OF inv(1,2)] by (simp add: ngx_http_rds_json_process_header_def)
  next
    case (Some x)
    obtain h d where x: "x = (h, d)" by fastforce
    have h: "header_ok h" using parse_header_ok Some x by simp
    show ?thesis
    proof (cases "hdr_col_count h = 0")
      case True
      show ?thesis
      proof (cases "d = []")
        case False
        then show ?thesis using Buf Some x True header_invalid_ok [OF inv(1,2)]
          by (simp add: ngx_http_rds_json_process_header_def)
      next
        case d: True
        obtain rc c1 where sp: "send_postponed_header r (c\<lparr>jc_state := state_done\<rparr>) = (rc, c1)" by fastforce
        have c1: "json_inv conf c1" "header_first c1" "jc_header_sent c1" "jc_state c1 = state_done"
          using send_header_ok [OF _ _ sp, of conf] inv by (auto simp: ctl_upd_mem header_first_def)
        obtain rc2 c2 where oh: "ngx_http_rds_json_output_header conf r c1 h = (rc2, c2)" by fastforce
        have "json_out conf c1 (rc2, c2)" using output_header_out [OF c1(1) h, of r] oh by simp
        then have "step_ok conf (Ret rc2 c2)"
          using c1 by (auto simp: json_out_def step_ok_def rc_failed_def inv_fault json_ctl_def pos_ok_def header_first_def)
        then show ?thesis using Buf Some x True d sp oh c1
          by (auto simp: ngx_http_rds_json_process_header_def step_ok_def inv_fault rc_failed_def)
      qed
    next
      case False
      let ?c = "c\<lparr>jc_mem := tl (jc_mem c)\<rparr>"
      have mem: "json_inv conf ?c" "header_first ?c" using inv by (simp_all add: ctl_upd_mem header_first_def)
      obtain rc c2 where sp: "send_postponed_header r
          (?c\<lparr>jc_cols := [], jc_state := state_expect_col, jc_cur_col := 0, jc_col_count := hdr_col_count h\<rparr>) = (rc, c2)"
        by fastforce
      have c2: "json_inv conf c2" "header_first c2" "jc_header_sent c2" "jc_state c2 = state_expect_col"
          "jc_cols c2 = []" "jc_cur_col c2 = 0" "jc_col_count c2 = hdr_col_count h"
        using send_header_ok [OF _ _ sp, of conf] mem by (auto simp: ctl_upd_mem header_first_def)
      then have "step_ok conf (if rc_failed rc then Ret rc c2 else Call state_expect_col (rest_of b d rest) c2)"
        using False by (auto simp: step_ok_def inv_fault pos_ok_def)
      then show ?thesis using Buf Some x False sp header_invalid_ok [OF mem]
        by (cases "jc_mem c = [] \<or> hd (jc_mem c)") (auto simp: ngx_http_rds_json_process_header_def pool_alloc_eq)
    qed
  qed
qed (simp_all add: ngx_http_rds_json_process_header_def header_invalid_ok step_wait inv)

lemma process_row_ok:
  assumes inv: "json_inv conf c" "header_first c" "pos_ok c" and st: "jc_state c = state_expect_row"
  shows "step_ok conf (ngx_http_rds_json_process_row conf r inp c)"
proof (cases "next_buf inp")
  case (Buf b rest)
  show ?thesis
  proof (cases "rb_data b")
    case Nil
    then show ?thesis using Buf step_bad [OF inv(1,2)] by (simp add: ngx_http_rds_json_process_row_def)
  next
    case (Cons flag d)
    let ?c = "c\<lparr>jc_state := state_done\<rparr>"
    let ?lit = "if rj_root conf \<noteq> [] then '']}'' else '']''"
    have c: "json_inv conf ?c" "header_first ?c" "jc_header_sent ?c"
      using inv st by (simp_all add: ctl_upd_mem header_first_def pos_ok_def)
    obtain rc c2 where ol: "ngx_http_rds_json_output_literal conf r ?c ?lit True = (rc, c2)" by fastforce
    have "json_out conf ?c (rc, c2)" using output_literal_out [OF c(1), of r ?lit True] ol by simp
    then have "step_ok conf (Ret rc c2)"
      using c by (auto simp: json_out_def step_ok_def rc_failed_def inv_fault json_ctl_def pos_ok_def header_first_def)
    moreover have "step_ok conf (Call state_expect_field (rest_of b d rest)
        (c\<lparr>jc_row := jc_row c + 1, jc_cur_col := 0, jc_state := state_expect_field\<rparr>))"
      using inv st by (auto simp: step_ok_def ctl_upd_mem pos_ok_def header_first_def)
    ultimately show ?thesis using Buf Cons ol step_bad [OF c(1,2)]
      by (auto simp: ngx_http_rds_json_process_row_def Let_def)
  qed
qed (simp_all add: ngx_http_rds_json_process_row_def step_bad step_wait inv)

lemma parse_col_ctx: "\<exists>m. snd (ngx_http_rds_parse_col b c) = c\<lparr>jc_mem := m\<rparr>"
proof -
  have alloc: "snd (case pool_alloc c of (False, c1) \<Rightarrow> (None, c1) | (True, c1) \<Rightarrow> (Some x, c1)) = c\<lparr>jc_mem := tl (jc_mem c)\<rparr>"
    for x :: "rds_column \<times> bytes"
    by (cases "jc_mem c = [] \<or> hd (jc_mem c)") (simp_all add: pool_alloc_eq)
  have "snd (ngx_http_rds_parse_col b c) =
      c\<lparr>jc_mem := if length b < 6 \<or> le_nat (take 2 (drop 4 b)) = 0 \<or> length (drop 6 b) < le_nat (take 2 (drop 4 b))
                   then jc_mem c else tl (jc_mem c)\<rparr>"
    unfolding ngx_http_rds_parse_col_def Let_def by (simp add: alloc)
  then show ?thesis by blast
qed

lemma process_col_ok:
  assumes inv: "json_inv conf c" "header_first c" "pos_ok c" and st: "jc_state c = state_expect_col"
  shows "step_ok conf (ngx_http_rds_json_process_col conf r inp c)"
proof (cases "next_buf inp")
  case (Buf b rest)
  obtain res c1 where pc: "ngx_http_rds_parse_col (rb_data b) c = (res, c1)" by fastforce
  then obtain m where c1: "c1 = c\<lparr>jc_mem := m\<rparr>" using parse_col_ctx [of "rb_data b" c] by auto
  have ok1: "json_inv conf c1" "header_first c1" using inv by (simp_all add: c1 ctl_upd_mem header_first_def)
  show ?thesis
  proof (cases res)
    case None
    then show ?thesis using Buf pc step_bad [OF ok1] by (simp add: ngx_http_rds_json_process_col_def)
  next
    case (Some x)
    obtain col d where x: "x = (col, d)" by fastforce
    let ?c2 = "c1\<lparr>jc_cols := jc_cols c @ [col], jc_cur_col := jc_cur_col c + 1\<rparr>"
    let ?c3 = "?c2\<lparr>jc_state := state_expect_row, jc_row := 0\<rparr>"
    have pos: "jc_header_sent c" "jc_cur_col c = length (jc_cols c)" "jc_cur_col c < jc_col_count c"
      using inv st by (simp_all add: pos_ok_def)
    have eq: "ngx_http_rds_json_process_col conf r inp c =
        (if jc_cur_col c + 1 \<ge> jc_col_count c then
           (case begin_rows conf r ?c3 of (rc, c4) \<Rightarrow>
              if rc_failed rc then Ret rc c4 else Call state_expect_row (rest_of b d rest) c4)
         else Call state_expect_col (rest_of b d rest) ?c2)"
      using Buf pc Some x pos c1 by (simp add: ngx_http_rds_json_process_col_def Let_def)
    show ?thesis
    proof (cases "jc_cur_col c + 1 \<ge> jc_col_count c")
      case True
      have ok3: "json_inv conf ?c3" "jc_col_count ?c3 = length (jc_cols ?c3)" "header_first ?c3"
        using ok1 pos True by (simp_all add: ctl_upd_mem c1 header_first_def)
      obtain rc c4 where br: "begin_rows conf r ?c3 = (rc, c4)" by fastforce
      have "step_ok conf (if rc_failed rc then Ret rc c4 else Call state_expect_row (rest_of b d rest) c4)"
      proof (rule step_out [OF _ ok3(3)])
        show "json_out conf ?c3 (rc, c4)" using begin_rows_out [OF ok3(1,2), of r] br by simp
        show "step_ok conf (Call state_expect_row (rest_of b d rest) c4)"
          if "json_inv conf c4" "json_ctl c4 = json_ctl (?c3\<lparr>jc_seen_stream_end := e\<rparr>)" "header_first c4" for e
          using that ctl_pos [OF that(2)] pos True by (simp add: step_ok_def pos_ok_def c1)
      qed (rule step_failed)
      then show ?thesis unfolding eq using True br by simp
    next
      case False
      then show ?thesis unfolding eq using ok1 pos st by (simp add: step_ok_def pos_ok_def ctl_upd_mem c1 header_first_def)
    qed
  qed
qed (simp_all add: ngx_http_rds_json_process_col_def step_bad step_wait inv)

lemma field_done_ok:
  assumes "json_inv conf c" "header_first c" "jc_header_sent c" "jc_col_count c = length (jc_cols c)" "jc_cur_col c < jc_col_count c"
  shows "step_ok conf (field_done inp c)"
  using assms by (auto simp: field_done_def Let_def step_ok_def pos_ok_def ctl_upd_mem header_first_def)

lemma process_field_ok:
  assumes inv: "json_inv conf c" "header_first c" "pos_ok c" and st: "jc_state c = state_expect_field"
  shows "step_ok conf (ngx_http_rds_json_process_field conf inp c)"
proof (cases "next_buf inp")
  case (Buf b rest)
  have pos: "jc_header_sent c" "jc_col_count c = length (jc_cols c)" "jc_cur_col c < jc_col_count c"
    using inv st by (simp_all add: pos_ok_def)
  define d where "d = drop 4 (rb_data b)"
  define null where "null = (le_nat (take 4 (rb_data b)) = 0xffffffff)"
  define tot where "tot = (if null then 0 else le_nat (take 4 (rb_data b)))"
  define len where "len = (if null then 0 else min (length d mod 2 ^ 32) tot)"
  let ?c = "c\<lparr>jc_field_data_rest := tot - len\<rparr>"
  obtain rc c1 where fo: "ngx_http_rds_json_output_field conf ?c (take len d) null = (rc, c1)" by fastforce
  have ok: "json_inv conf ?c" "header_first ?c" using inv by (simp_all add: ctl_upd_mem header_first_def)
  have eq: "ngx_http_rds_json_process_field conf inp c =
      (if length (rb_data b) < 4 then Ret NGX_ERROR c
       else if rc_failed rc then Ret rc c1
       else if len < tot then Call state_expect_more_field_data (rest_of b (drop len d) rest) (c1\<lparr>jc_state := state_expect_more_field_data\<rparr>)
       else field_done (rest_of b (drop len d) rest) c1)"
    unfolding ngx_http_rds_json_process_field_def Let_def Buf rds_entry.case d_def [symmetric] null_def [symmetric]
      tot_def [symmetric] len_def [symmetric] fo prod.case by (rule refl)
  have "step_ok conf (if rc_failed rc then Ret rc c1
       else if len < tot then Call state_expect_more_field_data (rest_of b (drop len d) rest) (c1\<lparr>jc_state := state_expect_more_field_data\<rparr>)
       else field_done (rest_of b (drop len d) rest) c1)"
  proof (rule step_out [OF _ ok(2)])
    show "json_out conf ?c (rc, c1)" using output_field_out [OF ok(1)] fo by metis
    show "step_ok conf (if len < tot then Call state_expect_more_field_data (rest_of b (drop len d) rest) (c1\<lparr>jc_state := state_expect_more_field_data\<rparr>)
       else field_done (rest_of b (drop len d) rest) c1)"
      if "json_inv conf c1" "json_ctl c1 = json_ctl (?c\<lparr>jc_seen_stream_end := e\<rparr>)" "header_first c1" for e
      using that ctl_pos [OF that(2)] pos field_done_ok [OF that(1,3)]
      by (simp add: step_ok_def pos_ok_def ctl_upd_mem header_first_def)
  qed (rule step_failed)
  then show ?thesis unfolding eq using step_bad [OF inv(1,2)] by simp
qed (simp_all add: ngx_http_rds_json_process_field_def step_bad step_wait inv)

lemma process_more_ok:
  assumes inv: "json_inv conf c" "header_first c" "pos_ok c" and st: "jc_state c = state_expect_more_field_data"
  shows "step_ok conf (ngx_http_rds_json_process_more_field_data conf inp c)"
proof (cases inp)
  case (Cons b rest)
  have pos: "jc_header_sent c" "jc_col_count c = length (jc_cols c)" "jc_cur_col c < jc_col_count c"
    using inv st by (simp_all add: pos_ok_def)
  define len where "len = min (length (rb_data b)) (jc_field_data_rest c)"
  let ?c = "c\<lparr>jc_field_data_rest := jc_field_data_rest c - len\<rparr>"
  obtain rc c1 where fo: "ngx_http_rds_json_output_more_field_data conf ?c (take len (rb_data b)) = (rc, c1)" by fastforce
  have ok: "json_inv conf ?c" "header_first ?c" using inv by (simp_all add: ctl_upd_mem header_first_def)
  let ?k = "\<lambda>c1. if jc_field_data_rest ?c \<noteq> 0 then Call state_expect_more_field_data (rest_of b (drop len (rb_data b)) rest) c1
       else field_done (rest_of b (drop len (rb_data b)) rest) c1"
  have eq: "ngx_http_rds_json_process_more_field_data conf inp c =
      (if \<not> rb_memory b then Ret NGX_ERROR c else if rc_failed rc then Ret rc c1 else ?k c1)"
    using Cons fo by (simp add: ngx_http_rds_json_process_more_field_data_def Let_def len_def)
  have "step_ok conf (if rc_failed rc then Ret rc c1 else ?k c1)"
  proof (rule step_out [OF _ ok(2)])
    show "json_out conf ?c (rc, c1)" using output_more_out [OF ok(1)] fo by metis
    show "step_ok conf (?k c1)"
      if "json_inv conf c1" "json_ctl c1 = json_ctl (?c\<lparr>jc_seen_stream_end := e\<rparr>)" "header_first c1" for e
      using that ctl_pos [OF that(2)] pos st field_done_ok [OF that(1,3)] by (simp add: step_ok_def pos_ok_def)
  qed (rule step_failed)
  then show ?thesis unfolding eq using step_bad [OF inv(1,2)] by simp
qed (simp add: ngx_http_rds_json_process_more_field_data_def step_wait inv)

lemma dispatch_ok:
  assumes "json_inv conf c" "header_first c" "pos_ok c" "jc_state c = s"
  shows "step_ok conf (rds_dispatch conf r s inp c)"
  using assms
  by (cases s)
    (simp_all add: rds_dispatch_def process_header_ok process_col_ok process_row_ok process_field_ok process_more_ok step_wait)

lemma run_ok:
  assumes "json_inv conf c" "header_first c" "pos_ok c" "jc_state c = s" "rds_run conf r s inp c = (rc, c')"
  shows "step_ok conf (Ret rc c')"
  using assms
proof (induction conf r s inp c rule: rds_run.induct)
  case (1 conf r s inp c)
  have ok: "step_ok conf (rds_dispatch conf r s inp c)" by (rule dispatch_ok [OF 1(2-5)])
  show ?case
  proof (cases "rds_dispatch conf r s inp c")
    case (Ret rc1 c1)
    with 1(6) ok show ?thesis by (simp add: run_ret)
  next
    case (Call s1 inp1 c1)
    with ok have "json_inv conf c1" "header_first c1" "pos_ok c1" "jc_state c1 = s1" by (simp_all add: step_ok_def)
    with 1(1) [OF Call] 1(6) run_call [OF Call] show ?thesis by simp
  qed
qed

lemma header_first_append:
  assumes "header_first c" "\<not> is_header x" "is_body x \<longrightarrow> jc_header_sent c"
    and "jc_down c' = jc_down c @ [x]" "jc_header_sent c' = jc_header_sent c"
  shows "header_first c'"
proof (cases "jc_header_sent c")
  case True
  then have "filter is_header (jc_down c) \<noteq> []" using assms(1) by (auto simp: header_first_def)
  then obtain y where "y \<in> set (jc_down c)" "is_header y" by (auto simp: filter_empty_conv)
  then have "takeWhile (\<lambda>x. \<not> is_header x) (jc_down c @ [x]) = takeWhile (\<lambda>x. \<not> is_header x) (jc_down c)"
    by (intro takeWhile_append1) simp_all
  then show ?thesis using assms by (simp add: header_first_def)
next
  case False
  then have no: "\<forall>y\<in>set (jc_down c). \<not> is_header y" using assms(1) by (auto simp: header_first_def filter_empty_conv)
  then have tw: "takeWhile (\<lambda>x. \<not> is_header x) (jc_down c) = jc_down c"
    "takeWhile (\<lambda>x. \<not> is_header x) (jc_down c @ [x]) = jc_down c @ [x]"
    using assms(2) by (auto simp: takeWhile_eq_all_conv)
  then show ?thesis using assms False unfolding header_first_def by (auto simp: tw)
qed

lemma pos_ok_same:
  assumes "pos_ok c" "jc_state c' = jc_state c" "jc_header_sent c' = jc_header_sent c" "jc_cur_col c' = jc_cur_col c"
    "jc_cols c' = jc_cols c" "jc_col_count c' = jc_col_count c"
    and "jc_out c = [] \<and> jc_avail_out c = 0 \<longrightarrow> jc_out c' = [] \<and> jc_avail_out c' = 0"
  shows "pos_ok c'"
  using assms by (auto simp: pos_ok_def split: rds_state.splits)

lemma flush_end_ok:
  assumes inv: "json_inv conf c" "pos_ok c" "header_first c"
  shows "json_inv conf (snd (flush_end c)) \<and> pos_ok (snd (flush_end c)) \<and> header_first (snd (flush_end c)) \<and>
     jc_attached (snd (flush_end c)) = jc_attached c \<and> jc_state (snd (flush_end c)) = jc_state c"
proof -
  let ?c = "c\<lparr>jc_seen_stream_end := False, jc_mem := tl (jc_mem c)\<rparr>"
  let ?d = "?c\<lparr>jc_out := jc_out c @ [jc_buf c], jc_avail_out := 0\<rparr>"
  have eq: "snd (flush_end c) =
      (if \<not> jc_seen_stream_end c then c else if jc_avail_out c = 0 then c\<lparr>jc_seen_stream_end := False\<rparr>
       else if jc_mem c = [] \<or> hd (jc_mem c) then ?d else ?c)"
    by (cases "jc_mem c = [] \<or> hd (jc_mem c)") (simp_all add: flush_end_def json_save_buf_def pool_alloc_eq Let_def)
  have inv2: "json_inv conf (c\<lparr>jc_seen_stream_end := False\<rparr>)" "json_inv conf ?c" "jc_avail_out c \<noteq> 0 \<longrightarrow> json_inv conf ?d"
    using inv(1) by (auto simp: json_inv_def json_room_def)
  have pos: "pos_ok (c\<lparr>jc_seen_stream_end := False\<rparr>)" "pos_ok ?c" "jc_avail_out c \<noteq> 0 \<longrightarrow> pos_ok ?d"
    by (auto intro!: pos_ok_same [OF inv(2)])
  show ?thesis unfolding eq using inv inv2 pos by (simp add: header_first_def)
qed

lemma output_bufs_ok:
  assumes inv: "json_inv conf c" "pos_ok c" "header_first c"
    and c'_def: "c' = snd (ngx_http_rds_json_output_bufs r c)"
  shows "json_inv conf c' \<and> pos_ok c' \<and> header_first c' \<and> jc_attached c' = jc_attached c \<and> jc_state c' = jc_state c"
proof -
  obtain ok c1 where fe: "flush_end c = (ok, c1)" by fastforce
  have c1: "json_inv conf c1" "pos_ok c1" "header_first c1" "jc_attached c1 = jc_attached c" "jc_state c1 = jc_state c"
    using flush_end_ok [OF inv] fe by simp_all
  obtain rc n where nb: "rq_next_body r (jc_busy c1) (jc_out c1) = (rc, n)" by fastforce
  define c2 where "c2 = c1\<lparr>jc_down := jc_down c1 @ [Body_Down (jc_out c1)]\<rparr>"
  define sent where "sent = consume_sent n (jc_busy c1 @ jc_out c1)"
  define fb where "fb = ngx_chain_update_chains (jc_free c1) (take (length (jc_busy c1)) sent) (drop (length (jc_busy c1)) sent)"
  define c3 where "c3 = c2\<lparr>jc_free := fst fb, jc_busy := snd fb, jc_out := []\<rparr>"
  have c': "c' = (if \<not> ok \<or> jc_out c1 = [] then c1 else if rc = NGX_ERROR \<or> rc \<ge> 300 then c2 else c3)"
    using fe nb unfolding c'_def ngx_http_rds_json_output_bufs_def flush_end_def [symmetric]
    by (simp add: Let_def c2_def c3_def fb_def sent_def case_prod_unfold)
  have free: "\<forall>b\<in>set (fst fb). jb_data b = []"
    unfolding fb_def ngx_chain_update_chains_def
    by (rule free_sent_empty) (use c1(1) in \<open>simp add: json_inv_def json_room_def\<close>)
  have hs: "jc_header_sent c1" if "jc_out c1 \<noteq> []" using c1(2) that by (auto simp: pos_ok_def split: rds_state.splits)
  have "json_inv conf c2" "json_inv conf c3" using c1(1) free by (simp_all add: c2_def c3_def json_inv_def json_room_def)
  moreover have "pos_ok c2" "pos_ok c3" if "jc_out c1 \<noteq> []"
    using c1(2) that by (auto simp: c2_def c3_def intro: pos_ok_same [of c1])
  moreover have "header_first c2" "header_first c3" if "jc_out c1 \<noteq> []"
    by (rule header_first_append [OF c1(3), of "Body_Down (jc_out c1)"]; simp add: hs that c2_def c3_def)+
  ultimately show ?thesis using c1 unfolding c' by (simp add: c2_def c3_def)
qed

definition filter_ok :: "rds_json_conf \<Rightarrow> json_ctx \<Rightarrow> bool" where
  "filter_ok conf c \<longleftrightarrow> jc_fault c = No_Fault \<and> header_first c \<and>
     (jc_attached c \<and> jc_state c \<noteq> state_done \<longrightarrow> json_inv conf c \<and> pos_ok c)"

lemma body_filter_ok:
  assumes ok: "filter_ok conf c"
  shows "filter_ok conf (snd (ngx_http_rds_json_body_filter conf r inp c))"
proof (cases "inp = [] \<or> rq_header_only r \<or> \<not> jc_attached c \<or> jc_state c = state_done")
  case True
  let ?c = "c\<lparr>jc_down := jc_down c @ [Raw_Down (map rb_data inp)]\<rparr>"
  have "header_first c" using ok by (simp add: filter_ok_def)
  then have hf: "header_first ?c"
    by (rule header_first_append [where x = "Raw_Down (map rb_data inp)"]) simp_all
  have "pos_ok ?c" if "pos_ok c" by (rule pos_ok_same [OF that]) simp_all
  then have "filter_ok conf ?c" using ok hf by (simp add: filter_ok_def ctl_upd_mem)
  then show ?thesis using ok True by (auto simp: ngx_http_rds_json_body_filter_def)
next
  case False
  obtain rc c1 where run: "rds_run conf r (jc_state c) inp c = (rc, c1)" by fastforce
  have st: "step_ok conf (Ret rc c1)"
    using run_ok [OF _ _ _ refl run] ok False by (auto simp: filter_ok_def)
  show ?thesis
  proof (cases "rc_failed rc")
    case True
    let ?c = "c1\<lparr>jc_state := state_done\<rparr>"
    have "header_first ?c" using st by (simp add: step_ok_def header_first_def)
    then have "filter_ok conf (if jc_header_sent ?c then ?c
        else ?c\<lparr>jc_header_sent := True, jc_down := jc_down ?c @ [Header_Down k]\<rparr>)" for k
      using st header_first_sent(1) [of ?c Special_Down k] by (auto simp: filter_ok_def step_ok_def)
    then show ?thesis using False run True by (auto simp: ngx_http_rds_json_body_filter_def Let_def)
  next
    case ok1: False
    have "json_inv conf c1" "pos_ok c1" "header_first c1" using st ok1 by (simp_all add: step_ok_def)
    from output_bufs_ok [OF this refl, of r] show ?thesis using False run ok1
      by (auto simp: ngx_http_rds_json_body_filter_def filter_ok_def dest: inv_fault)
  qed
qed

lemma filter_ok_calls:
  "filter_ok conf c \<Longrightarrow> filter_ok conf (foldl (\<lambda>c inp. snd (ngx_http_rds_json_body_filter conf r inp c)) c chs)"
  by (induction chs arbitrary: c) (simp_all add: body_filter_ok)

section \<open>The end of the response\<close>

text \<open>The buffers that go down when the stream has ended, and that none of them is flagged yet.\<close>

definition final_bufs :: "json_ctx \<Rightarrow> json_buf list" where
  "final_bufs c = jc_out c @ (if jc_avail_out c \<noteq> 0 then [jc_buf c] else [])"

definition unflagged :: "json_ctx \<Rightarrow> bool" where
  "unflagged c \<longleftrightarrow> \<not> jb_last (jc_buf c) \<and> (\<forall>b\<in>set (jc_out c) \<union> set (jc_free c). \<not> jb_last b)"

lemma get_buf_flag:
  assumes "json_room conf c" "jc_mem c = []" "unflagged c"
  shows "\<exists>c0. ngx_http_rds_json_get_buf conf c = (NGX_OK, c0) \<and> json_room conf c0 \<and> jc_mem c0 = [] \<and> unflagged c0 \<and>
     jc_out c0 = jc_out c \<and> jc_postponed c0 = jc_postponed c \<and>
     jc_avail_out c0 = (if jc_avail_out c = 0 then conf_buf_size conf else jc_avail_out c)"
  using assms
  by (cases "jc_free c") (auto simp: ngx_http_rds_json_get_buf_def pool_alloc_eq json_room_def unflagged_def)

lemma submit_flag:
  assumes room: "json_room conf c" "jc_mem c = []" "unflagged c" and l: "lit \<noteq> []" "length lit \<le> 2"
    and av: "0 < jc_avail_out c" and post: "jc_postponed c = (if jc_avail_out c < length lit then Some lit else None)"
  shows "\<exists>c1. ngx_http_rds_json_submit_mem conf c lit (length lit) b = (NGX_OK, c1) \<and>
     final_bufs c1 \<noteq> [] \<and> (\<forall>x\<in>set (butlast (final_bufs c1)). \<not> jb_last x) \<and>
     (jb_last (last (final_bufs c1)) \<longleftrightarrow> b \<and> \<not> (jc_avail_out c < length lit \<and> 1 < conf_buf_size conf))"
proof (cases "jc_avail_out c < length lit")
  case False
  then show ?thesis using room post
    by (auto simp: ngx_http_rds_json_submit_mem_def json_save_buf_def pool_alloc_eq final_bufs_def unflagged_def
        butlast_append Let_def)
next
  case True
  then have "length lit = 2" using l av by linarith
  then obtain x y where lit: "lit = [x, y]" by (auto simp: numeral_2_eq_2 length_Suc_conv)
  have av1: "jc_avail_out c = 1" using True av lit by simp
  let ?b1 = "(jc_buf c)\<lparr>jb_data := jb_data (jc_buf c) @ [x]\<rparr>"
  let ?c1 = "c\<lparr>jc_buf := ?b1, jc_avail_out := 0, jc_postponed := Some [y], jc_mem := [], jc_out := jc_out c @ [?b1]\<rparr>"
  have "json_room conf ?c1" "jc_mem ?c1 = []" "unflagged ?c1"
    using room av1 by (auto simp: json_room_def unflagged_def)
  from get_buf_flag [OF this] obtain c2 where
    c2: "ngx_http_rds_json_get_buf conf ?c1 = (NGX_OK, c2)" "jc_mem c2 = []" "unflagged c2" "jc_out c2 = jc_out c @ [?b1]"
      "jc_avail_out c2 = conf_buf_size conf" by auto
  have "ngx_http_rds_json_submit_mem conf c lit (length lit) b = submit_loop (Suc (Suc (Suc 0))) conf b [x, y] c"
    using post True room(2) lit by (simp add: ngx_http_rds_json_submit_mem_def del: submit_loop.simps)
  also have "\<dots> = submit_loop (Suc (Suc 0)) conf b [y] c2"
    using av1 room(2) c2(1) unfolding submit_loop.simps(2) [of "Suc (Suc 0)"]
    by (simp add: Let_def json_save_buf_def pool_alloc_eq del: submit_loop.simps)
  finally have sub: "ngx_http_rds_json_submit_mem conf c lit (length lit) b = submit_loop (Suc (Suc 0)) conf b [y] c2" .
  have pos: "0 < conf_buf_size conf" using room by (simp add: json_room_def)
  show ?thesis unfolding sub using c2(2-) pos lit av1
    by (cases "conf_buf_size conf = 1")
      (auto simp: Let_def json_save_buf_def pool_alloc_eq final_bufs_def unflagged_def json_set_last_def butlast_append)
qed

lemma request_flag:
  assumes inv: "json_inv conf c" "jc_mem c = []" "unflagged c"
  shows "\<exists>c1. ngx_http_rds_json_request_mem conf c len = (True, c1) \<and> json_room conf c1 \<and> jc_mem c1 = [] \<and> unflagged c1 \<and>
     jc_postponed c1 = (if jc_avail_out c1 < len then Some [] else None) \<and>
     jc_avail_out c1 = (if jc_avail_out c = 0 then conf_buf_size conf else jc_avail_out c)"
proof -
  have room: "json_room conf c" "jc_postponed c = None" using inv by (simp_all add: json_inv_def)
  obtain c0 where c0: "ngx_http_rds_json_get_buf conf c = (NGX_OK, c0)" "json_room conf c0" "jc_mem c0 = []" "unflagged c0"
      "jc_postponed c0 = None" "jc_avail_out c0 = (if jc_avail_out c = 0 then conf_buf_size conf else jc_avail_out c)"
    using get_buf_flag [OF room(1) inv(2,3)] room(2) by auto
  obtain k where gp: "ngx_http_rds_json_get_postponed c0 len = (True, c0\<lparr>jc_cached := k\<rparr>)"
  proof (cases "\<exists>n. jc_cached c0 = Some n \<and> \<not> n < len")
    case True
    then have "ngx_http_rds_json_get_postponed c0 len = (True, c0\<lparr>jc_cached := jc_cached c0\<rparr>)"
      by (auto simp: ngx_http_rds_json_get_postponed_def)
    then show ?thesis by (rule that)
  next
    case False
    then have "ngx_http_rds_json_get_postponed c0 len = (True, c0\<lparr>jc_cached := Some len\<rparr>)"
      using c0(3) by (auto simp: ngx_http_rds_json_get_postponed_def pool_alloc_def split: option.splits)
    then show ?thesis by (rule that)
  qed
  let ?c1 = "if jc_avail_out c0 < len then c0\<lparr>jc_cached := k, jc_postponed := Some []\<rparr> else c0"
  have "ngx_http_rds_json_request_mem conf c len = (True, ?c1)"
    using c0(1) gp by (simp add: ngx_http_rds_json_request_mem_def)
  moreover have "json_room conf ?c1 \<and> jc_mem ?c1 = [] \<and> unflagged ?c1 \<and> jc_avail_out ?c1 = jc_avail_out c0 \<and>
      jc_postponed ?c1 = (if jc_avail_out c0 < len then Some [] else None)"
    using c0 by (auto simp: json_room_def unflagged_def)
  ultimately show ?thesis using c0(6) by metis
qed

lemma close_flag:
  assumes inv: "json_inv conf c" "jc_mem c = []" "unflagged c"
  shows "\<exists>c1. ngx_http_rds_json_output_literal conf r c (close_text conf) True = (NGX_OK, c1) \<and>
     final_bufs c1 \<noteq> [] \<and> (\<forall>x\<in>set (butlast (final_bufs c1)). \<not> jb_last x) \<and>
     (jb_last (last (final_bufs c1)) \<longleftrightarrow>
        rq_main r \<and> \<not> (rj_root conf \<noteq> [] \<and> jc_avail_out c = 1 \<and> 1 < conf_buf_size conf))"
proof -
  define lit where "lit = close_text conf"
  have l: "lit \<noteq> []" "length lit \<le> 2" "length lit = 2 \<longleftrightarrow> rj_root conf \<noteq> []" by (auto simp: lit_def close_text_def)
  obtain c1 where c1: "ngx_http_rds_json_request_mem conf c (length lit) = (True, c1)" "json_room conf c1" "jc_mem c1 = []"
     "unflagged c1" "jc_postponed c1 = (if jc_avail_out c1 < length lit then Some [] else None)"
     "jc_avail_out c1 = (if jc_avail_out c = 0 then conf_buf_size conf else jc_avail_out c)"
    using request_flag [OF inv] by blast
  let ?c2 = "(json_fill (length lit) lit c1)\<lparr>jc_seen_stream_end := True\<rparr>"
  have pos: "0 < conf_buf_size conf" using c1(2) by (simp add: json_room_def)
  have c2: "json_room conf ?c2" "jc_mem ?c2 = []" "unflagged ?c2" "0 < jc_avail_out ?c2"
      "jc_postponed ?c2 = (if jc_avail_out ?c2 < length lit then Some lit else None)"
    using c1 pos by (auto simp: json_fill_def json_room_def unflagged_def)
  have eq: "ngx_http_rds_json_output_literal conf r c lit True =
      ngx_http_rds_json_submit_mem conf ?c2 lit (length lit) (rq_main r)"
    using c1(1) by (simp add: ngx_http_rds_json_output_literal_def json_emit_def Let_def)
  have "jc_avail_out ?c2 < length lit \<and> 1 < conf_buf_size conf \<longleftrightarrow>
      rj_root conf \<noteq> [] \<and> jc_avail_out c = 1 \<and> 1 < conf_buf_size conf"
    using c1(6) l c2(4) by (cases "length lit = 2") (auto simp: json_fill_def)
  then show ?thesis
    using submit_flag [OF c2(1-3) l(1,2) c2(4,5), of "rq_main r"] eq unfolding lit_def by auto
qed

lemma flush_final:
  assumes "mem_ok c" "jc_seen_stream_end c"
  shows "\<exists>c1. flush_end c = (True, c1) \<and> jc_out c1 = final_bufs c \<and> jc_down c1 = jc_down c \<and> jc_state c1 = jc_state c"
  using mem_ok_alloc [OF assms(1)] assms(2)
  by (auto simp: flush_end_def final_bufs_def json_save_buf_def pool_alloc_eq Let_def)

section \<open>Properties\<close>

text \<open>
  C15. A well-formed result set with columns and valid values comes out as one JSON document, in the
  normal or the compact format, when memory suffices, the user properties evaluate and the next
  filters accept: for every way of cutting its stream into buffers in memory and the buffers into
  calls that the format allows (a header, a column, a row flag and a field size with the first byte of
  the field are each in one buffer), with every buffer size from one byte up, all calls succeed and what the next filters get is the response
  header followed by buffers whose bytes are the JSON text of the rows - an array of objects or
  the compact array of arrays, inside an object with the success flag and the user properties
  when there is a root name. No write leaves the bytes reserved for it.
\<close>

theorem rds_json_document:
  assumes "0 < conf_buf_size conf" "False \<notin> set mem" "req_ok r" "fmt_ok conf" "conf_names conf n"
    and "props_of conf r = Some (map (apfst json_str) pv)"
    and "wf_header h" "hdr_col_count h = length cols" "cols \<noteq> []" "list_all wf_column cols"
    and "list_all (list_all2 wf_field cols) rows"
    and "list_all (\<lambda>gs. gs \<noteq> [] \<and> list_all wf_buf gs) css" "concat (concat css) = table_atoms h cols rows"
  shows "\<exists>c bss. filter_calls conf r (map chain_of css) (json_ctx0 mem) = (NGX_OK, c) \<and> jc_state c = state_done \<and>
     jc_fault c = No_Fault \<and> jc_down c = Header_Down (rq_status r) # map Body_Down bss \<and>
     concat (map jb_data (concat bss)) = json_text (doc_json conf n pv cols rows)"
proof -
  obtain a' where run: "atoms_run conf r (json_ctx0 mem) (concat (concat css)) =
      Some (a', json_text (doc_json conf n pv cols rows))" "jc_state a' = state_done"
    using table_run [OF assms(4-11)] assms(13) by auto
  have ne: "css \<noteq> []" using assms(13) by (auto simp: table_atoms_def)
  obtain c bss where c: "filter_calls conf r (map chain_of css) (json_ctx0 mem) = (NGX_OK, c)" "jc_state c = state_done"
    "jc_fault c = No_Fault" "jc_down c = Header_Down (rq_status r) # map Body_Down bss"
    "json_text (doc_json conf n pv cols rows) = concat (map down_bytes (jc_down c))"
    using filter_calls_read [OF initial_sim(1) [OF assms(1,2)] assms(3) initial_sim(2) [OF assms(1,2)]
        initial_sim(3) [OF assms(1,2)] ne assms(12) run(1)] run(2) by auto
  have "concat (map down_bytes (map Body_Down bss)) = concat (map jb_data (concat bss))"
    by (induction bss) simp_all
  with c show ?thesis by auto
qed

definition rds_conf0 :: rds_json_conf where
  "rds_conf0 = (ngx_http_rds_json_merge_loc_conf 3 ngx_http_rds_json_create_loc_conf ngx_http_rds_json_create_loc_conf)"

definition rds_header0 :: rds_header where
  "rds_header0 = \<lparr>std_errcode = 0, drv_errcode = 0, errstr = [], affected_rows = 0, insert_id = 0, hdr_col_count = 2\<rparr>"

definition rds_cols0 :: "rds_column list" where
  "rds_cols0 = [\<lparr>std_type = 9, drv_type = 0, col_name = ''id''\<rparr>, \<lparr>std_type = 0x8006, drv_type = 0, col_name = ''s''\<rparr>]"

definition rds_rows0 :: "rds_field list list" where
  "rds_rows0 = [[Some [''42''], Some [''a'', [CHR 0x22], ''b'']], [None, Some []]]"

definition rds_cut0 :: "atom list list list" where
  "rds_cut0 = [[[A_Header rds_header0]], [map A_Col rds_cols0, [A_Row, A_Field 2 ''42'', A_Field 3 ''a'']],
     [[A_More [CHR 0x22]], [A_More ''b'', A_Row, A_Null, A_Field 0 [], A_End]]]"

theorem rds_json_document_witness:
  "\<exists>c bss. filter_calls rds_conf0 json_req0 (map chain_of rds_cut0) (json_ctx0 [True]) = (NGX_OK, c) \<and> jc_state c = state_done \<and>
     jc_fault c = No_Fault \<and> jc_down c = Header_Down 200 # map Body_Down bss \<and>
     concat (map jb_data (concat bss)) =
       ''['' @ ''{'' @ [CHR 0x22] @ ''id'' @ [CHR 0x22] @ '':42,'' @ [CHR 0x22] @ ''s'' @ [CHR 0x22] @ '':''
         @ [CHR 0x22] @ ''a'' @ [CHR 0x5C, CHR 0x22] @ ''b'' @ [CHR 0x22] @ ''},''
         @ ''{'' @ [CHR 0x22] @ ''id'' @ [CHR 0x22] @ '':null,'' @ [CHR 0x22] @ ''s'' @ [CHR 0x22] @ '':''
         @ [CHR 0x22] @ [CHR 0x22] @ ''}'' @ '']''"
proof -
  let ?n = "\<lparr>jn_root = None, jn_success = None, jn_errcode = ''errcode'', jn_errstr = ''errstr''\<rparr>"
  have conf: "rj_format rds_conf0 = Some json_format_normal" "rj_user_props rds_conf0 = None" "rj_buf_size rds_conf0 = Some 3"
    by (simp_all add: rds_conf0_def Let_def ngx_http_rds_json_merge_loc_conf_def ngx_http_rds_json_create_loc_conf_def merge_opt_def)
  have n: "conf_names rds_conf0 ?n" unfolding rds_conf0_def by (rule default_names)
  have req: "req_ok json_req0" "rq_status json_req0 = 200" by (simp_all add: req_ok_def body_ok_def rc_failed_def json_req0_def)
  have h: "wf_header rds_header0" "hdr_col_count rds_header0 = length rds_cols0" "rds_cols0 \<noteq> []" "list_all wf_column rds_cols0"
    by (simp_all add: wf_header_def rds_header0_def rds_cols0_def wf_column_def)
  have ty: "rough_type \<lparr>std_type = 9, drv_type = 0, col_name = ''id''\<rparr> = Rough_Int"
      "rough_type \<lparr>std_type = 0x8006, drv_type = 0, col_name = ''s''\<rparr> = Rough_Str"
    by (simp_all add: rough_type_def)
  have rows: "list_all (list_all2 wf_field rds_cols0) rds_rows0"
    by (simp add: rds_cols0_def rds_rows0_def wf_field_def valid_value_def ty int_first_def digit_def)
  have cut: "concat (concat rds_cut0) = table_atoms rds_header0 rds_cols0 rds_rows0"
    by (simp add: rds_cut0_def table_atoms_def rds_cols0_def rds_rows0_def row_atoms_def)
  have bufs: "list_all (\<lambda>gs. gs \<noteq> [] \<and> list_all wf_buf gs) rds_cut0"
    by (simp add: rds_cut0_def rds_cols0_def wf_buf_def atoms_bytes_def header_bytes_def column_bytes_def rds_header0_def)
  have doc: "json_text (doc_json rds_conf0 ?n [] rds_cols0 rds_rows0) =
       ''['' @ ''{'' @ [CHR 0x22] @ ''id'' @ [CHR 0x22] @ '':42,'' @ [CHR 0x22] @ ''s'' @ [CHR 0x22] @ '':''
         @ [CHR 0x22] @ ''a'' @ [CHR 0x5C, CHR 0x22] @ ''b'' @ [CHR 0x22] @ ''},''
         @ ''{'' @ [CHR 0x22] @ ''id'' @ [CHR 0x22] @ '':null,'' @ [CHR 0x22] @ ''s'' @ [CHR 0x22] @ '':''
         @ [CHR 0x22] @ [CHR 0x22] @ ''}'' @ '']''"
    by (simp add: doc_json_def table_json_def row_json_def conf rds_cols0_def rds_rows0_def value_json_def ty json_str_def json_c2_def)
  show ?thesis
    using rds_json_document [of rds_conf0 "[True]" json_req0 ?n "[]" rds_header0 rds_cols0 rds_rows0 rds_cut0]
      conf n req h rows cut bufs doc
    by (simp add: conf_buf_size_def fmt_ok_def props_of_def)
qed

text \<open>
  Whatever bytes the upstream sends, however they are cut into buffers and calls, whichever
  allocations fail and whatever the next filters answer: every fill has the length reserved for
  it and every copy loop makes progress, the response header goes down at most once and before
  any buffer, and while fields are read the current column is one of the columns that were read.
\<close>

theorem rds_json_any_input:
  assumes "0 < conf_buf_size conf"
  defines "final \<equiv> \<lambda>r mem chs. foldl (\<lambda>c inp. snd (ngx_http_rds_json_body_filter conf r inp c)) (json_ctx0 mem) chs"
  shows "jc_fault (final r mem chs) = No_Fault \<and> header_first (final r mem chs) \<and>
     (jc_attached (final r mem chs) \<and> jc_state (final r mem chs) \<in> {state_expect_field, state_expect_more_field_data} \<longrightarrow>
        jc_cur_col (final r mem chs) < length (jc_cols (final r mem chs)))"
proof -
  have "filter_ok conf (json_ctx0 mem)"
    using assms(1) by (simp add: filter_ok_def json_ctx0_def header_first_def json_inv_def json_room_def pos_ok_def)
  then have "filter_ok conf (final r mem chs)" unfolding final_def by (rule filter_ok_calls)
  then show ?thesis by (auto simp: filter_ok_def pos_ok_def)
qed

theorem rds_json_any_input_witness:
  "jc_fault (foldl (\<lambda>c inp. snd (ngx_http_rds_json_body_filter rds_conf0 json_req0 inp c)) (json_ctx0 [True, False]) [[rds_mem_buf ''junk'']])
     = No_Fault"
proof -
  have "0 < conf_buf_size rds_conf0"
    by (simp add: rds_conf0_def conf_buf_size_def Let_def ngx_http_rds_json_merge_loc_conf_def
        ngx_http_rds_json_create_loc_conf_def merge_opt_def)
  then show ?thesis by (rule rds_json_any_input [THEN conjunct1])
qed

text \<open>
  How the response ends, in a location with rows to close and memory at hand: when the end flag
  of the row list arrives, all that is left goes down in one chain. Its last buffer is flagged
  as the end of a main request's response, unless there is a root name, the buffers have more
  than one byte and the current one has room for exactly one: the closing \<open>]}\<close> is then cut in
  two, and no buffer of the chain is flagged, so that the response is never ended.
\<close>

theorem rds_json_end_flag:
  assumes "json_inv conf c" "jc_mem c = []" "unflagged c" "jc_state c = state_expect_row" "jc_attached c"
    and "\<not> rq_header_only r" "body_ok r"
  shows "\<exists>c' bs. ngx_http_rds_json_body_filter conf r [rds_mem_buf [NUL]] c = (NGX_OK, c') \<and> jc_state c' = state_done \<and>
     jc_down c' = jc_down c @ [Body_Down bs] \<and> bs \<noteq> [] \<and> (\<forall>b\<in>set (butlast bs). \<not> jb_last b) \<and>
     (jb_last (last bs) \<longleftrightarrow>
        rq_main r \<and> \<not> (rj_root conf \<noteq> [] \<and> jc_avail_out c = 1 \<and> 1 < conf_buf_size conf))"
proof -
  let ?c = "c\<lparr>jc_state := state_done\<rparr>"
  have c: "json_inv conf ?c" "jc_mem ?c = []" "unflagged ?c" "mem_ok ?c"
    using assms(1-3) by (simp_all add: ctl_upd_mem unflagged_def mem_ok_def)
  obtain c1 where c1: "ngx_http_rds_json_output_literal conf r ?c (close_text conf) True = (NGX_OK, c1)"
     "final_bufs c1 \<noteq> []" "\<forall>x\<in>set (butlast (final_bufs c1)). \<not> jb_last x"
     "jb_last (last (final_bufs c1)) \<longleftrightarrow>
        rq_main r \<and> \<not> (rj_root conf \<noteq> [] \<and> jc_avail_out c = 1 \<and> 1 < conf_buf_size conf)"
    using close_flag [OF c(1-3), of r] by auto
  have em: "json_emitted conf True (close_text conf) ?c (NGX_OK, c1)"
    using output_literal_emitted [OF c(1), of True "close_text conf" r] c1(1) by simp
  then have m1: "mem_ok c1" "jc_seen_stream_end c1" "jc_down c1 = jc_down c" "jc_state c1 = state_done"
    using c(4) by (auto simp: json_emitted_def json_ctl_def)
  have run: "rds_run conf r state_expect_row [rds_mem_buf [NUL]] c = (NGX_OK, c1)"
    using c1(1)
    by (intro run_ret) (simp add: rds_dispatch_def ngx_http_rds_json_process_row_def rds_mem_buf_def next_buf_memory close_text_def Let_def)
  obtain c2 where c2: "flush_end c1 = (True, c2)" "jc_out c2 = final_bufs c1" "jc_down c2 = jc_down c1" "jc_state c2 = jc_state c1"
    using flush_final [OF m1(1,2)] by blast
  obtain rc n where nb: "rq_next_body r (jc_busy c2) (final_bufs c1) = (rc, n)" "\<not> (rc = NGX_ERROR \<or> rc \<ge> 300)"
    using assms(7) unfolding body_ok_def rc_failed_def by (metis prod.collapse)
  have "\<exists>c'. ngx_http_rds_json_output_bufs r c1 = (NGX_OK, c') \<and> jc_state c' = state_done \<and>
      jc_down c' = jc_down c @ [Body_Down (final_bufs c1)]"
    using c2 nb c1(2) m1 unfolding ngx_http_rds_json_output_bufs_def flush_end_def [symmetric]
    by (simp add: Let_def case_prod_unfold)
  moreover have "ngx_http_rds_json_body_filter conf r [rds_mem_buf [NUL]] c = ngx_http_rds_json_output_bufs r c1"
    using run assms(4-6) by (simp add: ngx_http_rds_json_body_filter_def rc_failed_def)
  ultimately show ?thesis using c1(2-4) by auto
qed

end
