(* ===== verification/Spec2Isabelle.thy ===== *)
theory Spec2Isabelle
  imports Http_Request_Line Http_Complex_Uri Http_Header_Line Ngx_Escape Http_Chunked Ngx_Base64 Http_Args
    Redis2_Query Backend_Conf Backend_Login Redis_Set_Location Upstream_Round_Robin Ngx_Times Http_Range
    Set_Misc_Quote Set_Misc_Base32 Ngx_Queue Http_Limit_Req Http_Locations Ngx_Inet Ngx_Url
    Http_Status_Line Ngx_Radix_Tree Slothjson Rds_Json Rds_Stream
begin

text \<open>
  A verification of \<open>nginx_http_backend\<close>: an nginx with a login service for a WeChat mini program, the
  third-party nginx modules it is built with, and the parts of nginx every request to it goes
  through.

  \<^bold>\<open>The program.\<close> A client posts a code to the login location. The request line and the headers
  are parsed by state machines that may stop and resume at any byte
  (\<open>ngx_http_parse.c\<close>); the URI is normalised; a chunked body is decoded. The login handler
  (\<open>nginx_http_back_end/src/Login.cpp\<close>) reads the body, asks WeChat for the session of the code through
  a subrequest, stores the session in Redis through a second one, to a location whose variables are
  query arguments, unescaped by the set-misc module and put into Redis commands by the redis2 module,
  and answers with the session's identifier. Upstream servers are chosen by weighted round robin. The
  settings come from the directives of the backend's own module.

  \<^bold>\<open>Theories and sources.\<close> Paths are below \<open>src/\<close>; \<open>nginx\<close> stands for \<open>nginx-master/src\<close>, \<open>backend\<close> for
  \<open>nginx_http_back_end\<close>, \<open>set-misc\<close> for \<open>set-misc-nginx-module-master/src\<close>.

  \<^item> \<open>Prelude\<close>: bytes, return codes, the cursor loop \<open>for (p = b->pos; p < b->last; p++) switch (state)\<close>
    that every nginx parser is an instance of, with the locales \<open>sw_parser\<close> (an invariant of the cases
    of the \<open>switch\<close> is one of the whole parser) and \<open>resumable\<close> (a parser fed in pieces computes what it
    computes on the whole), \<open>codec\<close> (what is encoded is read back) and \<open>event_machine\<close> (a service driven
    by events: a measure bounds its runs, an invariant holds along them).
  \<^item> \<open>Http_Request_Line\<close>, \<open>Http_Complex_Uri\<close>, \<open>Http_Header_Line\<close>, \<open>Http_Args\<close>: \<open>nginx/http/ngx_http_parse.c\<close>,
    one definition per state of each parser. Accepted lines leave every pointer inside the received
    bytes; well-formed lines are accepted with their parts; the parsers resume; the URI normaliser is
    memory safe at every step and computes the removal of dot segments, but for the last component,
    which it copies.
  \<^item> \<open>Http_Chunked\<close>: the chunked parser, the request body filter (\<open>ngx_http_request_body.c\<close>) and the output
    filter (\<open>ngx_http_chunked_filter_module.c\<close>), each reading what the other writes.
  \<^item> \<open>Http_Range\<close>: \<open>nginx/http/modules/ngx_http_range_filter_module.c\<close>. Accepted ranges lie inside the
    response, every well-formed header is accepted, exactly the bytes of a range are sent, and as many
    as announced.
  \<^item> \<open>Ngx_String\<close>, \<open>Ngx_Number\<close>, \<open>Ngx_Escape\<close>, \<open>Ngx_Base64\<close>, \<open>Ngx_Times\<close>: comparing, searching and sorting byte
    strings, readers and printer of numbers, URI escaping, base64 and hexadecimal, the calendar and HTTP
    dates of \<open>nginx/core\<close>, with the set-misc directives over them: round trips, overflow and bounds.
  \<^item> \<open>Set_Misc_Quote\<close>, \<open>Set_Misc_Base32\<close>: the quoting, base32 and value directives of \<open>set-misc\<close>. Quoted values are
    read back by the SQL and JSON lexers as the values; base32 is read back with any alphabet (locale
    \<open>alphabet32\<close>), and its uninitialised table is shown to matter.
  \<^item> \<open>Ngx_Queue\<close>: \<open>nginx/core/ngx_queue.h\<close> and \<open>.c\<close> on a memory of pointers; the operations are those of lists (locale
    \<open>node_queue\<close>, the interface of the next theory) and sorting in place returns a sorted queue.
  \<^item> \<open>Http_Limit_Req\<close>: \<open>nginx/http/modules/ngx_http_limit_req_module.c\<close>, the zone of leaky buckets and the handler over the
    limits of a location. No key passes more than its rate and burst, no client within its rate is turned
    away, counts balance and a rejected request is charged to no limit.
  \<^item> \<open>Http_Locations\<close>: \<open>nginx/http/ngx_http.c\<close> and \<open>ngx_http_core_module.c\<close>, how the locations of a server become a tree
    and how the location of a request is found in it. The search gives the documented choice, duplicates
    are refused; names of more than 255 bytes and static locations below regular expressions go wrong.
  \<^item> \<open>Ngx_Inet\<close>, \<open>Ngx_Url\<close>: \<open>nginx/core/ngx_inet.c\<close>, the readers and printers of internet addresses, address ranges, and the URLs of
    servers and listening sockets with the resolver as a parameter. Addresses are read back as printed but for one
    value, ranges match by prefix, a URL is cut without loss and its addresses have names that read back.
  \<^item> \<open>Http_Status_Line\<close>: \<open>ngx_http_parse_status_line\<close> and the proxy handler that calls it, the first line of an upstream's response.
    Well-formed lines are accepted with their code, and no line break gets into the status line.
  \<^item> \<open>Ngx_Radix_Tree\<close>: \<open>nginx/core/ngx_radix_tree.c\<close>, the trees of address ranges. They are tables of prefixes (locale \<open>prefix_table\<close>) searched by the
    longest prefix; the search of IPv6 trees reads one byte too far at the deepest nodes.
  \<^item> \<open>Rds_Json\<close>, \<open>Rds_Stream\<close>: \<open>rds-json-nginx-module-master/src\<close>, which turns the result sets of the database modules into
    JSON. \<open>Rds_Json\<close> has the escaper, the directives, the writer over pooled buffers and the handler of \<open>rds_json_ret\<close>;
    \<open>Rds_Stream\<close> the parser of the stream and the filter. Every way of cutting a result set gives its JSON document, no
    input makes a fill miss its reserved size; when the closing bracket and brace are cut by a buffer's end the
    response is shown not to be ended.
  \<^item> \<open>Upstream_Round_Robin\<close>: \<open>nginx/http/ngx_http_upstream_round_robin.c\<close>. The choice is fair in the long run
    and after every request, retries end, connection counters balance.
  \<^item> \<open>Redis2_Query\<close>: \<open>ngx_http_redis2_build_query\<close>; whatever bytes the arguments hold, Redis reads exactly the
    configured commands.
  \<^item> \<open>Backend_Conf\<close>: the backend module's directives, its start and the helpers of \<open>backend/src/sys_util.c\<close>.
  \<^item> \<open>Slothjson\<close>: \<open>slothjson-master/include\<close> and \<open>backend/schema\<close>, the codecs between JSON values and the structures of the login
    service. Any object decodes whose members of the given names have the right types; members may be missing.
  \<^item> \<open>Backend_Login\<close>: the handlers and callbacks of \<open>Login.cpp\<close> as a state machine whose events are what the
    server calls; runs are sequences of events. An answer is sent only after WeChat's location answered with
    an object that decodes and Redis acknowledged the session, a login ends after at most five events, and no pointer is null under the stated
    conditions; a request without a body, an unreachable upstream, an error object of
    WeChat and unescaped arguments are shown to go wrong.
  \<^item> \<open>Redis_Set_Location\<close> and this theory compose them: what Redis is told by a login that was answered.

  \<^bold>\<open>Conventions.\<close> Characters are bytes; a pointer into a buffer is an index; a struct is a record with
  the fields the code uses. A function that reads behind its buffer has that as a visible outcome
  (an explicit fault, an \<open>option\<close>, or an equation that the result does not depend on the bytes behind).
  Return codes are integers as in the code. Whether an allocation succeeds is a parameter. \<open>off_t\<close> and
  \<open>size_t\<close> values are numbers where the code checks its bounds, and words where it wraps. Code outside
  the repository, and the vendored library rapidjson, is a parameter with its documented behaviour as named hypotheses:
  rapidjson's reader and writer and the pool of the login service, the script engine and the next filters of the RDS
  module, the MySQL connection, the OpenSSL filters, the regular
  expressions of locations and the resolver of the C library.

  \<^bold>\<open>Bounds and termination.\<close> The parsers recurse on the remaining bytes, the loops over groups of
  servers, ranges and expiring nodes have measures. The one loop with fuel is \<open>submit_loop\<close> of \<open>Rds_Json\<close>, whose every
  round copies a byte or uses up an answer of the pool: it is shown never to run out when buffers have room. The loops of
  \<open>Ngx_Queue\<close> that follow pointers need not end on an arbitrary memory: they are partial functions into
  \<open>option\<close>, shown to return on every memory that holds a queue. The calendar is
  correct to the end of the year 9999, where \<open>%4d\<close> ends. Runs of the login service are bounded by its
  rank, and it is shown that they can always be continued to an end.

  \<^bold>\<open>Not modelled.\<close> The event loop, the operating system layer, the mail and stream servers and process
  management are I/O. The phases of the HTTP core, but for the choice of the location, and the upstream connection
  handling call these at every step; of them only what the login service relies on appears, as its events. The MySQL and Redis
  client classes of the backend wrap client libraries and are not called by the login service. The reply
  parser of redis2 is generated from a grammar. The drizzle module drives a client library. OpenSSL,
  drizzle7, rapidjson and the parts of slothjson the login service does not use are third-party code.
\<close>

section \<open>From the login to Redis\<close>

text \<open>
  C4. Across the components: when the service has answered a login, it keeps a reply of WeChat that
  decodes to a session, the answer encodes the openid of this session, and its second subrequest
  went to \<open>/redis_set\<close> for it. If the openid and the session key of this session and the configured
  password have no ampersand and no percent sign, that location sends Redis exactly the two commands
  that authenticate with this password and store this session key under this openid, plus signs
  having become spaces.
\<close>

theorem answered_login_told_redis:
  assumes "login_run env cf evs (login_init bufs) r" "lr_sent r = Some body"
  shows "\<exists>wx args reply ok info. lr_started r = [wx, (redis_location, args)] \<and>
     lr_ctx r = Some \<lparr>resp_wx = Some reply, resp_redis = Some ok\<rparr> \<and> dec_wx env reply = Some info \<and>
     enc_back env (back_of info) = Some body \<and>
     (plain_arg (si_openid info) \<and> plain_arg (si_session_key info) \<and> plain_arg (str_of (rd_pwd (redis_info cf))) \<longrightarrow>
       (\<exists>b. redis_set_request args = Some b \<and>
          resp_commands 2 b = Some ([[''auth'', plus_to_space (str_of (rd_pwd (redis_info cf)))],
            [''set'', plus_to_space (si_openid info), plus_to_space (si_session_key info)]], [])))"
proof -
  obtain code reply info ok where info: "dec_wx env reply = Some info" "enc_back env (back_of info) = Some body"
    "lr_started r = [wx_asked cf code, redis_asked cf info]"
    "lr_ctx r = Some \<lparr>resp_wx = Some reply, resp_redis = Some ok\<rparr>"
    using answer_earned_run [OF assms(1,2)] unfolding earned_def by blast
  with redis_set_request_of [of info cf] show ?thesis unfolding redis_asked_def by blast
qed

theorem answered_login_told_redis_witness:
  "\<exists>r wx args b. login_run demo_env demo_conf demo_events (login_init [demo_body]) r \<and>
     lr_started r = [wx, (redis_location, args)] \<and> redis_set_request args = Some b \<and>
     resp_commands 2 b = Some ([[''auth'', []], [''set'', ''o1'', ''k1'']], [])"
proof -
  obtain r where r: "login_run demo_env demo_conf demo_events (login_init [demo_body]) r"
    "lr_sent r = Some (demo_answer ''o1'')"
    using demo_run by blast
  obtain wx args reply ok info where w: "lr_started r = [wx, (redis_location, args)]"
    "lr_ctx r = Some \<lparr>resp_wx = Some reply, resp_redis = Some ok\<rparr>" "dec_wx demo_env reply = Some info"
    "plain_arg (si_openid info) \<and> plain_arg (si_session_key info) \<and> plain_arg (str_of (rd_pwd (redis_info demo_conf))) \<longrightarrow>
       (\<exists>b. redis_set_request args = Some b \<and>
          resp_commands 2 b = Some ([[''auth'', plus_to_space (str_of (rd_pwd (redis_info demo_conf)))],
            [''set'', plus_to_space (si_openid info), plus_to_space (si_session_key info)]], []))"
    using answered_login_told_redis [OF r] by blast
  have "reply = demo_reply" using demo_run_reply [OF r(1)] w(2) by simp
  with w(3) have "info = \<lparr>si_session_key = ''k1'', si_openid = ''o1'', si_unionid = [], si_expires_in = 0\<rparr>"
    by (simp add: demo_codecs)
  moreover have "str_of (rd_pwd (redis_info demo_conf)) = []"
    by (simp add: demo_conf_def http_create_main_conf_def str_of_def)
  ultimately show ?thesis using w(1,4) r(1) by (auto simp: plain_arg_def plus_to_space_def)
qed

end
